(* ===== verification/Dag.thy ===== *)
theory Dag
  imports Prelude
begin

text \<open>
  The layering loop that validates a dependency graph: repeatedly resolve every node whose
  dependencies are resolved, and fail when a round resolves nothing new. The same loop stands
  in \<open>Task.__post_init__\<close> (\<open>src/residual/core.py\<close>) and in \<open>validate_receipt_graph\<close>
  (\<open>src/residual/receipts.py\<close>); here it is one function over a dictionary of dependencies.
  It terminates on every input and succeeds exactly on acyclic graphs.
\<close>

type_synonym 'a deps = "('a, 'a list) dict"

definition ready_set :: "'a deps \<Rightarrow> 'a set \<Rightarrow> 'a set" where
  "ready_set deps R = set (map fst (filter (\<lambda>(k, ds). set ds \<subseteq> R) deps))"

lemma ready_set_keys: "ready_set deps R \<subseteq> fst ` set deps"
  by (auto simp: ready_set_def)

function resolve_layers :: "'a deps \<Rightarrow> 'a set \<Rightarrow> bool" where
  "resolve_layers deps R =
     (if card R < length deps then
        (let ready = ready_set deps R in
         if ready \<subseteq> R then False else resolve_layers deps (R \<union> ready))
      else True)"
  by pat_completeness auto

termination
proof (relation "measure (\<lambda>(deps, R). card (fst ` set deps - R))")
  fix deps :: "'a deps" and R ready
  assume "ready = ready_set deps R" and "\<not> ready \<subseteq> R"
  then have "fst ` set deps - (R \<union> ready) \<subset> fst ` set deps - R"
    using ready_set_keys [of deps R] by auto
  then show "((deps, R \<union> ready), (deps, R)) \<in> measure (\<lambda>(deps, R). card (fst ` set deps - R))"
    by (simp add: psubset_card_mono)
qed simp

declare resolve_layers.simps [simp del]

text \<open>The dependency relation, from a dependency to its dependant.\<close>

definition dep_rel :: "'a deps \<Rightarrow> ('a \<times> 'a) set" where
  "dep_rel deps = {(d, k). \<exists>ds. (k, ds) \<in> set deps \<and> d \<in> set ds}"

definition closed_deps :: "'a deps \<Rightarrow> bool" where
  "closed_deps deps = (distinct (map fst deps) \<and> (\<forall>(k, ds)\<in>set deps. set ds \<subseteq> fst ` set deps))"

lemma finite_dep_rel: "finite (dep_rel deps)"
proof -
  have "dep_rel deps \<subseteq> (\<Union>(k, ds)\<in>set deps. set ds \<times> {k})"
    by (auto simp: dep_rel_def)
  moreover have "finite (\<Union>(k, ds)\<in>set deps. set ds \<times> {k})" by auto
  ultimately show ?thesis by (rule finite_subset)
qed

lemma card_keys: "distinct (map fst deps) \<Longrightarrow> card (fst ` set deps) = length deps"
  by (metis distinct_card length_map set_map)

lemma ready_setI: "(k, ds) \<in> set deps \<Longrightarrow> set ds \<subseteq> R \<Longrightarrow> k \<in> ready_set deps R"
  by (force simp: ready_set_def)

lemma ready_setE:
  assumes "k \<in> ready_set deps R"
  obtains ds where "(k, ds) \<in> set deps" "set ds \<subseteq> R"
  using assms by (auto simp: ready_set_def)

text \<open>A set of nodes each of which depends on another of the set is never entered.\<close>

lemma resolve_layers_blocked:
  assumes "resolve_layers deps R" and "distinct (map fst deps)" and "R \<subseteq> fst ` set deps"
    and "C \<subseteq> fst ` set deps" and "\<And>k. k \<in> C \<Longrightarrow> \<exists>d\<in>C. (d, k) \<in> dep_rel deps" and "R \<inter> C = {}"
  shows "C = {}"
  using assms
proof (induction deps R rule: resolve_layers.induct)
  case (1 deps R)
  show ?case
  proof (cases "card R < length deps")
    case False
    have "finite (fst ` set deps)" by simp
    then have "R = fst ` set deps"
      using False 1(4) card_keys [OF 1(3)] by (metis card_subset_eq card_mono le_antisym not_less)
    with 1(5,7) show ?thesis by auto
  next
    case True
    let ?r = "ready_set deps R"
    have step: "\<not> ?r \<subseteq> R" "resolve_layers deps (R \<union> ?r)"
      using "1.prems"(1) True by (auto simp: resolve_layers.simps [of deps R] Let_def split: if_splits)
    have "?r \<inter> C = {}"
    proof (rule ccontr)
      assume "?r \<inter> C \<noteq> {}"
      then obtain k where k: "k \<in> ?r" "k \<in> C" by auto
      obtain ds where ds: "(k, ds) \<in> set deps" "set ds \<subseteq> R" using k(1) by (rule ready_setE)
      obtain d where d: "d \<in> C" "(d, k) \<in> dep_rel deps" using 1(6) [OF k(2)] by auto
      then obtain ds' where "(k, ds') \<in> set deps" "d \<in> set ds'" by (auto simp: dep_rel_def)
      with ds 1(3) have "d \<in> R" by (metis eq_key_imp_eq_value subsetD)
      with d 1(7) show False by auto
    qed
    with step True 1(3-7) ready_set_keys [of deps R] show ?thesis
      by (intro "1.IH" [OF True refl]) auto
  qed
qed

lemma cycle_blocks:
  assumes "(x, x) \<in> (dep_rel deps)\<^sup>+"
  shows "\<forall>k\<in>{k. (x, k) \<in> (dep_rel deps)\<^sup>+ \<and> (k, x) \<in> (dep_rel deps)\<^sup>+}.
     \<exists>d\<in>{k. (x, k) \<in> (dep_rel deps)\<^sup>+ \<and> (k, x) \<in> (dep_rel deps)\<^sup>+}. (d, k) \<in> dep_rel deps"
proof
  let ?C = "{k. (x, k) \<in> (dep_rel deps)\<^sup>+ \<and> (k, x) \<in> (dep_rel deps)\<^sup>+}"
  fix k assume k: "k \<in> ?C"
  then have "(x, k) \<in> (dep_rel deps)\<^sup>+" by simp
  then consider "(x, k) \<in> dep_rel deps" | d where "(x, d) \<in> (dep_rel deps)\<^sup>+" "(d, k) \<in> dep_rel deps"
    by (meson tranclE)
  then show "\<exists>d\<in>?C. (d, k) \<in> dep_rel deps"
  proof cases
    case 1
    then show ?thesis using assms by blast
  next
    case (2 d)
    moreover have "(d, x) \<in> (dep_rel deps)\<^sup>+" using 2 k by (auto intro: trancl_into_trancl2)
    ultimately show ?thesis by blast
  qed
qed

lemma resolve_layers_sound:
  assumes "closed_deps deps" and "resolve_layers deps {}"
  shows "acyclic (dep_rel deps)"
proof (rule acyclicI, intro allI notI)
  fix x assume x: "(x, x) \<in> (dep_rel deps)\<^sup>+"
  let ?C = "{k. (x, k) \<in> (dep_rel deps)\<^sup>+ \<and> (k, x) \<in> (dep_rel deps)\<^sup>+}"
  have "?C = {}"
  proof (rule resolve_layers_blocked [OF assms(2)])
    show "distinct (map fst deps)" using assms(1) by (simp add: closed_deps_def)
    show "?C \<subseteq> fst ` set deps"
    proof
      fix k assume "k \<in> ?C"
      then have "(x, k) \<in> (dep_rel deps)\<^sup>+" by simp
      then show "k \<in> fst ` set deps" by (induction rule: trancl_induct) (force simp: dep_rel_def)+
    qed
    show "\<And>k. k \<in> ?C \<Longrightarrow> \<exists>d\<in>?C. (d, k) \<in> dep_rel deps" using cycle_blocks [OF x] by blast
  qed simp_all
  with x show False by auto
qed

lemma resolve_layers_progress:
  assumes "closed_deps deps" and "acyclic (dep_rel deps)" and "R \<subseteq> fst ` set deps"
  shows "resolve_layers deps R"
  using assms
proof (induction deps R rule: resolve_layers.induct)
  case (1 deps R)
  show ?case
  proof (cases "card R < length deps")
    case False
    then show ?thesis by (simp add: resolve_layers.simps [of deps R])
  next
    case True
    let ?r = "ready_set deps R"
    have "R \<noteq> fst ` set deps" using True "1.prems"(1) card_keys [of deps] by (auto simp: closed_deps_def)
    then obtain y where y: "y \<in> fst ` set deps - R" using "1.prems"(3) by auto
    have "wf (dep_rel deps)" using finite_acyclic_wf finite_dep_rel "1.prems"(2) by blast
    then obtain k where k: "k \<in> fst ` set deps - R" and
      minimal: "\<And>d. (d, k) \<in> dep_rel deps \<Longrightarrow> d \<notin> fst ` set deps - R"
      using wfE_min [OF _ y] by metis
    obtain ds where ds: "(k, ds) \<in> set deps" using k by auto
    have "set ds \<subseteq> R"
    proof
      fix d assume d: "d \<in> set ds"
      then have "(d, k) \<in> dep_rel deps" using ds by (auto simp: dep_rel_def)
      moreover have "d \<in> fst ` set deps" using d ds "1.prems"(1) by (auto simp: closed_deps_def)
      ultimately show "d \<in> R" using minimal by blast
    qed
    then have new: "\<not> ?r \<subseteq> R" using ready_setI [OF ds] k by auto
    have "resolve_layers deps (R \<union> ?r)"
      using "1.IH" [OF True refl new] "1.prems" ready_set_keys [of deps R] by auto
    with new True show ?thesis by (simp add: resolve_layers.simps [of deps R] Let_def)
  qed
qed

lemma resolve_layers_iff_acyclic:
  "closed_deps deps \<Longrightarrow> resolve_layers deps {} \<longleftrightarrow> acyclic (dep_rel deps)"
  using resolve_layers_sound resolve_layers_progress [of deps "{}"] by blast

text \<open>Well-founded recursion along the dependencies of a closed acyclic graph is bounded by the
  number of nodes: a chain of dependencies never repeats a node.\<close>

lemma chain_length_bound:
  assumes "closed_deps deps" and "acyclic (dep_rel deps)" and "(x, y) \<in> dep_rel deps ^^ n" and "0 < n"
  shows "n < length deps"
proof -
  obtain f where f: "f 0 = x" "f n = y" "\<And>i. i < n \<Longrightarrow> (f i, f (Suc i)) \<in> dep_rel deps"
    using assms(3) by (auto simp: relpow_fun_conv)
  have less: "(f i, f j) \<in> (dep_rel deps)\<^sup>+" if "i < j" "j \<le> n" for i j
    using that
  proof (induction j)
    case (Suc j)
    then have "(f j, f (Suc j)) \<in> dep_rel deps" using f(3) by simp
    with Suc show ?case by (cases "i = j") (auto intro: trancl_into_trancl)
  qed simp
  have "inj_on f {0..n}"
  proof (rule linorder_inj_onI)
    fix i j assume "i < j" "i \<in> {0..n}" "j \<in> {0..n}"
    then have "(f i, f j) \<in> (dep_rel deps)\<^sup>+" using less by simp
    then show "f i \<noteq> f j" using assms(2) by (auto simp: acyclic_def)
  qed auto
  then have "card (f ` {0..n}) = Suc n" by (simp add: card_image)
  moreover have "f ` {0..n} \<subseteq> fst ` set deps"
  proof
    fix z assume "z \<in> f ` {0..n}"
    then obtain i where i: "z = f i" "i \<le> n" by auto
    show "z \<in> fst ` set deps"
    proof (cases "i = n")
      case True
      then have "(f (n - 1), z) \<in> dep_rel deps" using f(3) [of "n - 1"] assms(4) i by simp
      then show ?thesis by (force simp: dep_rel_def)
    next
      case False
      then have "(z, f (Suc i)) \<in> dep_rel deps" using f(3) i by simp
      then show ?thesis using assms(1) by (auto simp: dep_rel_def closed_deps_def)
    qed
  qed
  ultimately have "Suc n \<le> card (fst ` set deps)" by (metis card_mono finite_imageI finite_set)
  then show ?thesis using assms(1) card_keys by (fastforce simp: closed_deps_def)
qed

end
