(* ===== verification/Json.thy ===== *)
theory Json
  imports Prelude
begin

text \<open>
  JSON values, their canonical text and the strict reader (\<open>src/residual/core.py\<close>:
  \<open>canonical\<close>, \<open>digest\<close>, \<open>strict_json\<close>), over the parts of Python's \<open>json\<close> they use.

  \<^item> A JSON object is a dictionary in insertion order (\<open>JObj\<close>).
  \<^item> A finite float is identified with its \<open>repr\<close> (\<open>JFloat\<close>), the text \<open>json.dumps\<close> writes;
    \<open>JNonFinite\<close> holds \<open>NaN\<close>, \<open>Infinity\<close> and \<open>-Infinity\<close>. Reading a float literal rounds
    it to binary64; that conversion is the parameter \<open>fl\<close> of the reader (the literal
    to the value \<open>float(literal)\<close> denotes), so \<open>fl\<close> may yield \<open>JNonFinite\<close> on overflow.
  \<^item> SHA-256 is the parameter \<open>H\<close> of \<open>digest\<close>, from bytes to the hexadecimal digest.

  The main results: the reader inverts the writer up to the order of object keys
  (\<open>strict_json_canonical\<close>), the writer is injective on normal forms, and every object the
  reader returns has distinct keys.
\<close>

section \<open>Values\<close>

datatype json =
    JNull
  | JBool bool
  | JInt int
  | JFloat string
  | JNonFinite string
  | JStr string
  | JArr "json list"
  | JObj "(string \<times> json) list"

text \<open>Python's type tests on a decoded value; \<open>type(v) is int\<close> excludes booleans.\<close>

fun is_str :: "json \<Rightarrow> bool" where
  "is_str (JStr _) = True"
| "is_str _ = False"

fun is_int :: "json \<Rightarrow> bool" where
  "is_int (JInt _) = True"
| "is_int _ = False"

fun is_list :: "json \<Rightarrow> bool" where
  "is_list (JArr _) = True"
| "is_list _ = False"

fun is_dict :: "json \<Rightarrow> bool" where
  "is_dict (JObj _) = True"
| "is_dict _ = False"

text \<open>\<open>bool(v)\<close>.\<close>

fun truthy :: "json \<Rightarrow> bool" where
  "truthy JNull = False"
| "truthy (JBool b) = b"
| "truthy (JInt i) = (i \<noteq> 0)"
| "truthy (JFloat r) = (r \<noteq> ''0.0'' \<and> r \<noteq> ''-0.0'')"
| "truthy (JNonFinite r) = True"
| "truthy (JStr s) = (s \<noteq> [])"
| "truthy (JArr vs) = (vs \<noteq> [])"
| "truthy (JObj kvs) = (kvs \<noteq> [])"

text \<open>\<open>d.get(k)\<close> with the default \<open>None\<close>.\<close>

definition jget :: "(string \<times> json) list \<Rightarrow> string \<Rightarrow> json" where
  "jget kvs k = (case map_of kvs k of None \<Rightarrow> JNull | Some v \<Rightarrow> v)"

section \<open>Writing\<close>

definition digit_char :: "nat \<Rightarrow> char" where
  "digit_char n = char_of (48 + n)"

definition digit_val :: "char \<Rightarrow> nat" where
  "digit_val c = of_char c - 48"

fun nat_str :: "nat \<Rightarrow> string" where
  "nat_str n = (if n < 10 then [digit_char n] else nat_str (n div 10) @ [digit_char (n mod 10)])"

declare nat_str.simps [simp del]

definition int_str :: "int \<Rightarrow> string" where
  "int_str i = (if i < 0 then CHR ''-'' # nat_str (nat (- i)) else nat_str (nat i))"

definition hex_char :: "nat \<Rightarrow> char" where
  "hex_char n = (if n < 10 then char_of (48 + n) else char_of (87 + n))"

definition esc_char :: "char \<Rightarrow> string" where
  "esc_char c =
     (if c = CHR 0x22 then [CHR 0x5C, CHR 0x22]
      else if c = CHR 0x5C then [CHR 0x5C, CHR 0x5C]
      else if c = CHR 0x0A then [CHR 0x5C, CHR ''n'']
      else if c = CHR 0x0D then [CHR 0x5C, CHR ''r'']
      else if c = CHR 0x09 then [CHR 0x5C, CHR ''t'']
      else if c = CHR 0x0C then [CHR 0x5C, CHR ''f'']
      else if c = CHR 0x08 then [CHR 0x5C, CHR ''b'']
      else if of_char c < (32::nat)
        then [CHR 0x5C, CHR ''u'', CHR ''0'', CHR ''0'', hex_char (of_char c div 16), hex_char (of_char c mod 16)]
      else [c])"

definition quote :: "string \<Rightarrow> string" where
  "quote s = CHR 0x22 # concat (map esc_char s) @ [CHR 0x22]"

fun sep_by :: "string \<Rightarrow> string list \<Rightarrow> string" where
  "sep_by sep [] = []"
| "sep_by sep [x] = x"
| "sep_by sep (x # y # ys) = x @ sep @ sep_by sep (y # ys)"

text \<open>\<open>json.dumps(value, sort_keys=True, separators=(",", ":"), ensure_ascii=False)\<close>.\<close>

primrec dumps :: "json \<Rightarrow> string" where
  "dumps JNull = ''null''"
| "dumps (JBool b) = (if b then ''true'' else ''false'')"
| "dumps (JInt i) = int_str i"
| "dumps (JFloat r) = r"
| "dumps (JNonFinite r) = r"
| "dumps (JStr s) = quote s"
| "dumps (JArr vs) = ''['' @ sep_by '','' (map dumps vs) @ '']''"
| "dumps (JObj kvs) = ''{'' @ sep_by '','' (map (\<lambda>(k, t). quote k @ '':'' @ t)
     (sort_key fst (map (map_prod id dumps) kvs))) @ ''}''"

primrec finite_json :: "json \<Rightarrow> bool" where
  "finite_json JNull = True"
| "finite_json (JBool b) = True"
| "finite_json (JInt i) = True"
| "finite_json (JFloat r) = True"
| "finite_json (JNonFinite r) = False"
| "finite_json (JStr s) = True"
| "finite_json (JArr vs) = list_all id (map finite_json vs)"
| "finite_json (JObj kvs) = list_all snd (map (map_prod id finite_json) kvs)"

text \<open>\<open>allow_nan=False\<close>: a non-finite float raises \<open>ValueError\<close>.\<close>

definition canonical :: "json \<Rightarrow> string result" where
  "canonical v = (if finite_json v then Inr (dumps v)
     else Inl (ValueError ''Out of range float values are not JSON compliant''))"

definition digest :: "(string \<Rightarrow> string) \<Rightarrow> json \<Rightarrow> string result" where
  "digest H v = bind_r (canonical v) (\<lambda>t. Inr (H t))"

section \<open>Reading\<close>

definition json_ws :: "char \<Rightarrow> bool" where
  "json_ws c = (c = CHR '' '' \<or> c = CHR 0x09 \<or> c = CHR 0x0A \<or> c = CHR 0x0D)"

abbreviation skip_ws :: "string \<Rightarrow> string" where
  "skip_ws \<equiv> dropWhile json_ws"

definition hex_val :: "char \<Rightarrow> nat option" where
  "hex_val c = (let n = of_char c in
     if 48 \<le> n \<and> n \<le> 57 then Some (n - 48)
     else if 97 \<le> n \<and> n \<le> 102 then Some (n - 87)
     else if 65 \<le> n \<and> n \<le> 70 then Some (n - 55)
     else None)"

fun hex4 :: "string \<Rightarrow> (nat \<times> string) option" where
  "hex4 (a # b # c # d # r) =
     (case (hex_val a, hex_val b, hex_val c, hex_val d) of
        (Some w, Some x, Some y, Some z) \<Rightarrow> Some (4096 * w + 256 * x + 16 * y + z, r)
      | _ \<Rightarrow> None)"
| "hex4 _ = None"

text \<open>The UTF-8 bytes of a code point.\<close>

definition utf8 :: "nat \<Rightarrow> string" where
  "utf8 n =
     (if n < 128 then [char_of n]
      else if n < 2048 then [char_of (192 + n div 64), char_of (128 + n mod 64)]
      else if n < 65536 then
        [char_of (224 + n div 4096), char_of (128 + n div 64 mod 64), char_of (128 + n mod 64)]
      else
        [char_of (240 + n div 262144), char_of (128 + n div 4096 mod 64),
         char_of (128 + n div 64 mod 64), char_of (128 + n mod 64)])"

definition simple_escape :: "char \<Rightarrow> char option" where
  "simple_escape e =
     (if e = CHR 0x22 \<or> e = CHR 0x5C \<or> e = CHR ''/'' then Some e
      else if e = CHR ''b'' then Some (CHR 0x08)
      else if e = CHR ''f'' then Some (CHR 0x0C)
      else if e = CHR ''n'' then Some (CHR 0x0A)
      else if e = CHR ''r'' then Some (CHR 0x0D)
      else if e = CHR ''t'' then Some (CHR 0x09)
      else None)"

text \<open>After \<open>\u\<close>: a code unit, or a surrogate pair; a lone surrogate is refused, since such
  a string is outside the model.\<close>

definition unicode_escape :: "string \<Rightarrow> (string \<times> string) option" where
  "unicode_escape s =
     (case hex4 s of
        None \<Rightarrow> None
      | Some (u, r) \<Rightarrow>
          if 55296 \<le> u \<and> u \<le> 56319 then
            (case r of
               a # b # r' \<Rightarrow>
                 if a = CHR 0x5C \<and> b = CHR ''u'' then
                   (case hex4 r' of
                      Some (w, r'') \<Rightarrow>
                        if 56320 \<le> w \<and> w \<le> 57343
                        then Some (utf8 (65536 + 1024 * (u - 55296) + (w - 56320)), r'') else None
                    | None \<Rightarrow> None)
                 else None
             | _ \<Rightarrow> None)
          else if 56320 \<le> u \<and> u \<le> 57343 then None
          else Some (utf8 u, r))"

lemma hex4_length [termination_simp]: "hex4 s = Some (n, r) \<Longrightarrow> length r < length s"
  by (cases s rule: hex4.cases) (auto split: option.splits)

lemma unicode_escape_length [termination_simp]:
  "unicode_escape s = Some (t, r) \<Longrightarrow> length r < length s"
  by (auto simp: unicode_escape_def split: option.splits prod.splits if_splits list.splits
      dest!: hex4_length)

text \<open>The text after an opening quote, up to and without the closing one.\<close>

fun scan_string :: "string \<Rightarrow> (string \<times> string) option" where
  "scan_string [] = None"
| "scan_string (c # s) =
     (if c = CHR 0x22 then Some ([], s)
      else if c = CHR 0x5C then
        (case s of
           [] \<Rightarrow> None
         | e # r \<Rightarrow>
             if e = CHR ''u'' then
               (case unicode_escape r of
                  None \<Rightarrow> None
                | Some (u, r') \<Rightarrow> map_option (\<lambda>(t, r''). (u @ t, r'')) (scan_string r'))
             else
               (case simple_escape e of
                  None \<Rightarrow> None
                | Some x \<Rightarrow> map_option (\<lambda>(t, r'). (x # t, r')) (scan_string r)))
      else if of_char c < (32::nat) then None
      else map_option (\<lambda>(t, r). (c # t, r)) (scan_string s))"

fun digits_val :: "nat \<Rightarrow> string \<Rightarrow> nat" where
  "digits_val n [] = n"
| "digits_val n (c # cs) = digits_val (10 * n + digit_val c) cs"

text \<open>The number pattern \<open>(-?(?:0|[1-9]\d*))(\.\d+)?([eE][-+]?\d+)?\<close>: sign, integer part,
  fraction and exponent as matched, and the rest.\<close>

definition scan_frac :: "string \<Rightarrow> string \<times> string" where
  "scan_frac s =
     (case s of
        c # r \<Rightarrow>
          if c = CHR ''.'' \<and> takeWhile is_digit r \<noteq> []
          then (c # takeWhile is_digit r, dropWhile is_digit r) else ([], s)
      | [] \<Rightarrow> ([], s))"

definition scan_exp :: "string \<Rightarrow> string \<times> string" where
  "scan_exp s =
     (case s of
        c # r \<Rightarrow>
          if c = CHR ''e'' \<or> c = CHR ''E'' then
            (let (g, d) = (case r of
                  x # r' \<Rightarrow> if x = CHR ''-'' \<or> x = CHR ''+'' then ([x], r') else ([], r)
                | [] \<Rightarrow> ([], r))
             in if takeWhile is_digit d \<noteq> []
                then (c # g @ takeWhile is_digit d, dropWhile is_digit d) else ([], s))
          else ([], s)
      | [] \<Rightarrow> ([], s))"

definition scan_nat :: "string \<Rightarrow> (string \<times> string) option" where
  "scan_nat s =
     (case s of
        [] \<Rightarrow> None
      | c # r \<Rightarrow>
          if c = CHR ''0'' then Some ([c], r)
          else if is_digit c then Some (takeWhile is_digit s, dropWhile is_digit s)
          else None)"

definition scan_sign :: "string \<Rightarrow> string \<times> string" where
  "scan_sign s = (case s of c # r \<Rightarrow> if c = CHR ''-'' then ([c], r) else ([], s) | [] \<Rightarrow> ([], s))"

definition scan_number :: "string \<Rightarrow> (string \<times> string \<times> string \<times> string \<times> string) option" where
  "scan_number s =
     (let (g, s1) = scan_sign s in
      case scan_nat s1 of
        None \<Rightarrow> None
      | Some (i, s2) \<Rightarrow>
          let (f, s3) = scan_frac s2; (e, s4) = scan_exp s3 in Some (g, i, f, e, s4))"

definition number_value :: "(string \<Rightarrow> json) \<Rightarrow> string \<Rightarrow> string \<Rightarrow> string \<Rightarrow> string \<Rightarrow> json" where
  "number_value fl g i f e =
     (if f = [] \<and> e = [] then JInt ((if g = [] then 1 else - 1) * int (digits_val 0 i))
      else fl (g @ i @ f @ e))"

definition strip_prefix :: "string \<Rightarrow> string \<Rightarrow> string option" where
  "strip_prefix p s = (if take (length p) s = p then Some (drop (length p) s) else None)"

definition decode_error :: "'a result" where
  "decode_error = Inl (ValueError ''JSONDecodeError'')"

text \<open>Constants and numbers: the alternatives of the scanner that start with neither a
  quote nor a bracket. The constants \<open>NaN\<close>, \<open>Infinity\<close> and \<open>-Infinity\<close> call the hook that raises.\<close>

definition parse_atom :: "(string \<Rightarrow> json) \<Rightarrow> string \<Rightarrow> (json \<times> string) result" where
  "parse_atom fl s =
     (case strip_prefix ''null'' s of Some r \<Rightarrow> Inr (JNull, r) | None \<Rightarrow>
      (case strip_prefix ''true'' s of Some r \<Rightarrow> Inr (JBool True, r) | None \<Rightarrow>
      (case strip_prefix ''false'' s of Some r \<Rightarrow> Inr (JBool False, r) | None \<Rightarrow>
      (case scan_number s of Some (g, i, f, e, r) \<Rightarrow> Inr (number_value fl g i f e, r) | None \<Rightarrow>
        if strip_prefix ''NaN'' s \<noteq> None \<or> strip_prefix ''Infinity'' s \<noteq> None
           \<or> strip_prefix ''-Infinity'' s \<noteq> None
        then Inl (ContractError ''non-finite JSON number'') else decode_error))))"

text \<open>The recursive scanner. Each call spends one unit of fuel; \<open>parse_value_fuel\<close> below shows
  that \<open>2 * length s + 1\<close> units always suffice, so the fuel error is never returned by
  \<open>strict_json\<close>.\<close>

definition out_of_fuel :: error where
  "out_of_fuel = AssertionError ''fuel''"

fun parse_value :: "(string \<Rightarrow> json) \<Rightarrow> nat \<Rightarrow> string \<Rightarrow> (json \<times> string) result"
  and parse_elems :: "(string \<Rightarrow> json) \<Rightarrow> nat \<Rightarrow> string \<Rightarrow> (json list \<times> string) result"
  and parse_members :: "(string \<Rightarrow> json) \<Rightarrow> nat \<Rightarrow> string \<Rightarrow> ((string \<times> json) list \<times> string) result"
where
  "parse_value fl 0 s = Inl out_of_fuel"
| "parse_value fl (Suc n) s =
     (case s of
        [] \<Rightarrow> decode_error
      | c # r \<Rightarrow>
          if c = CHR 0x22 then
            (case scan_string r of None \<Rightarrow> decode_error | Some (t, r') \<Rightarrow> Inr (JStr t, r'))
          else if c = CHR ''['' then
            (case strip_prefix '']'' (skip_ws r) of
               Some r' \<Rightarrow> Inr (JArr [], r')
             | None \<Rightarrow> bind_r (parse_elems fl n (skip_ws r)) (\<lambda>(vs, r'). Inr (JArr vs, r')))
          else if c = CHR ''{'' then
            (case strip_prefix ''}'' (skip_ws r) of
               Some r' \<Rightarrow> Inr (JObj [], r')
             | None \<Rightarrow> bind_r (parse_members fl n (skip_ws r)) (\<lambda>(kvs, r').
                 if distinct (map fst kvs) then Inr (JObj kvs, r')
                 else Inl (ContractError ''duplicate JSON key'')))
          else parse_atom fl s)"
| "parse_elems fl 0 s = Inl out_of_fuel"
| "parse_elems fl (Suc n) s =
     bind_r (parse_value fl n s) (\<lambda>(v, r).
       case strip_prefix '']'' (skip_ws r) of
         Some r' \<Rightarrow> Inr ([v], r')
       | None \<Rightarrow>
           (case strip_prefix '','' (skip_ws r) of
              Some r' \<Rightarrow> bind_r (parse_elems fl n (skip_ws r')) (\<lambda>(vs, r''). Inr (v # vs, r''))
            | None \<Rightarrow> decode_error))"
| "parse_members fl 0 s = Inl out_of_fuel"
| "parse_members fl (Suc n) s =
     (case s of
        [] \<Rightarrow> decode_error
      | c # r \<Rightarrow>
          if c \<noteq> CHR 0x22 then decode_error
          else
            (case scan_string r of
               None \<Rightarrow> decode_error
             | Some (k, r1) \<Rightarrow>
                 (case strip_prefix '':'' (skip_ws r1) of
                    None \<Rightarrow> decode_error
                  | Some r2 \<Rightarrow>
                      bind_r (parse_value fl n (skip_ws r2)) (\<lambda>(v, r3).
                        case strip_prefix ''}'' (skip_ws r3) of
                          Some r4 \<Rightarrow> Inr ([(k, v)], r4)
                        | None \<Rightarrow>
                            (case strip_prefix '','' (skip_ws r3) of
                               Some r4 \<Rightarrow> bind_r (parse_members fl n (skip_ws r4))
                                 (\<lambda>(kvs, r5). Inr ((k, v) # kvs, r5))
                             | None \<Rightarrow> decode_error)))))"

text \<open>Python's \<open>==\<close> on decoded values: \<open>True == 1 == 1.0\<close>, dictionaries compare without their
  order. Two values are equal when their keys are; an integral float is one whose \<open>repr\<close> ends
  in \<open>.0\<close> (below \<open>10^16\<close> in magnitude).\<close>

primrec eq_key :: "json \<Rightarrow> json" where
  "eq_key JNull = JNull"
| "eq_key (JBool b) = JInt (if b then 1 else 0)"
| "eq_key (JInt i) = JInt i"
| "eq_key (JFloat r) =
     (case scan_number r of
        Some (g, i, f, e, t) \<Rightarrow>
          if f = ''.0'' \<and> e = [] \<and> t = [] then JInt ((if g = [] then 1 else - 1) * int (digits_val 0 i)) else JFloat r
      | None \<Rightarrow> JFloat r)"
| "eq_key (JNonFinite r) = JNonFinite r"
| "eq_key (JStr s) = JStr s"
| "eq_key (JArr vs) = JArr (map eq_key vs)"
| "eq_key (JObj kvs) = JObj (sort_key fst (map (map_prod id eq_key) kvs))"

definition py_eq :: "json \<Rightarrow> json \<Rightarrow> bool" where
  "py_eq v w = (eq_key v = eq_key w)"

definition json_fuel :: "string \<Rightarrow> nat" where
  "json_fuel s = 2 * length s + 1"

definition strict_json :: "(string \<Rightarrow> json) \<Rightarrow> string \<Rightarrow> json result" where
  "strict_json fl s =
     bind_r (parse_value fl (json_fuel (skip_ws s)) (skip_ws s)) (\<lambda>(v, r).
       if skip_ws r = [] then Inr v else decode_error)"

section \<open>Strings and numbers read back\<close>

lemma hex_val_hex_char: "n < 16 \<Longrightarrow> hex_val (hex_char n) = Some n"
  by (auto simp: hex_val_def hex_char_def Let_def)

lemma hex_val_zero: "hex_val (CHR ''0'') = Some 0"
  by (simp add: hex_val_def)

lemma scan_string_esc_char:
  "scan_string (esc_char c @ s) = map_option (\<lambda>(t, r). (c # t, r)) (scan_string s)"
proof (cases "of_char c < (32::nat)")
  case True
  then have d: "(of_char c :: nat) div 16 < 16" "(of_char c :: nat) mod 16 < 16" by auto
  have u: "unicode_escape (CHR ''0'' # CHR ''0'' # hex_char (of_char c div 16) # hex_char (of_char c mod 16) # s)
      = Some ([c], s)"
    using True d by (simp add: unicode_escape_def hex_val_hex_char hex_val_zero utf8_def)
  show ?thesis
    using True u by (auto simp: esc_char_def simple_escape_def split: option.splits)
next
  case False
  then show ?thesis by (auto simp: esc_char_def simple_escape_def split: option.splits)
qed

lemma scan_string_quote:
  "scan_string (concat (map esc_char s) @ CHR 0x22 # r) = Some (s, r)"
  by (induction s) (simp_all add: scan_string_esc_char)

lemma digit_val_digit_char [simp]: "n < 10 \<Longrightarrow> digit_val (digit_char n) = n"
  by (simp add: digit_val_def digit_char_def)

lemma is_digit_iff: "is_digit c \<longleftrightarrow> 48 \<le> (of_char c :: nat) \<and> of_char c \<le> (57::nat)"
  by (simp add: is_digit_def less_eq_char_def)

lemma is_digit_digit_char [simp]: "n < 10 \<Longrightarrow> is_digit (digit_char n)"
  by (simp add: is_digit_iff digit_char_def)

lemma digits_val_append: "digits_val n (s @ t) = digits_val (digits_val n s) t"
  by (induction s arbitrary: n) auto

lemma nat_str_digits: "c \<in> set (nat_str n) \<Longrightarrow> is_digit c"
proof (induction n rule: nat_str.induct)
  case (1 n)
  then show ?case by (subst (asm) (2) nat_str.simps) (auto split: if_splits)
qed

lemma digits_val_nat_str: "digits_val 0 (nat_str n) = n"
proof (induction n rule: nat_str.induct)
  case (1 n)
  then show ?case by (subst nat_str.simps) (auto simp: digits_val_append)
qed

lemma nat_str_nonempty [simp]: "nat_str n \<noteq> []"
  by (subst nat_str.simps) simp

lemma hd_nat_str: "n \<noteq> 0 \<Longrightarrow> hd (nat_str n) \<noteq> CHR ''0''"
proof (induction n rule: nat_str.induct)
  case (1 n)
  have "digit_char n \<noteq> CHR ''0''" if "n < 10"
  proof
    assume "digit_char n = CHR ''0''"
    then have "digit_val (digit_char n) = digit_val (CHR ''0'')" by simp
    with that "1.prems" show False by (simp del: One_nat_def) (simp add: digit_val_def)
  qed
  with 1 show ?case by (subst nat_str.simps) auto
qed

lemma nat_str_0: "nat_str 0 = ''0''"
  by code_simp

text \<open>What may follow a value inside a text: nothing, a comma or a closing bracket.\<close>

definition delim :: "string \<Rightarrow> bool" where
  "delim r = (case r of [] \<Rightarrow> True | c # _ \<Rightarrow> c = CHR '','' \<or> c = CHR '']'' \<or> c = CHR ''}'')"

lemma delim_simps [simp]: "delim []" "delim (CHR '','' # r)" "delim (CHR '']'' # r)" "delim (CHR ''}'' # r)"
  by (simp_all add: delim_def)

lemma takeWhile_delim: "delim r \<Longrightarrow> takeWhile is_digit (s @ r) = takeWhile is_digit s"
  by (induction s) (auto simp: delim_def is_digit_iff split: list.splits)

lemma dropWhile_delim: "delim r \<Longrightarrow> dropWhile is_digit (s @ r) = dropWhile is_digit s @ r"
  by (induction s) (auto simp: delim_def is_digit_iff split: list.splits)

lemma scan_frac_delim: "delim r \<Longrightarrow> scan_frac (s @ r) = map_prod id (\<lambda>t. t @ r) (scan_frac s)"
  by (cases s) (auto simp: scan_frac_def takeWhile_delim dropWhile_delim delim_def split: list.splits)

lemma scan_exp_delim: "delim r \<Longrightarrow> scan_exp (s @ r) = map_prod id (\<lambda>t. t @ r) (scan_exp s)"
proof (cases s)
  case Nil
  assume "delim r"
  with Nil show ?thesis by (auto simp: scan_exp_def delim_def split: list.splits)
next
  case (Cons c t)
  assume d: "delim r"
  have "takeWhile is_digit r = []"
    using takeWhile_delim [OF d, of "[]"] by simp
  with Cons d show ?thesis
    by (cases t) (auto simp: scan_exp_def takeWhile_delim dropWhile_delim delim_def split: list.splits)
qed

lemma scan_nat_delim: "delim r \<Longrightarrow> scan_nat s = Some (i, t) \<Longrightarrow> scan_nat (s @ r) = Some (i, t @ r)"
  using takeWhile_delim [of r s] dropWhile_delim [of r s]
  by (cases s) (auto simp: scan_nat_def split: if_splits)

lemma scan_sign_delim: "s \<noteq> [] \<Longrightarrow> scan_sign (s @ r) = map_prod id (\<lambda>t. t @ r) (scan_sign s)"
  by (cases s) (auto simp: scan_sign_def)

lemma scan_number_SomeE:
  assumes "scan_number s = Some (g, i, f, e, t)"
  obtains s1 s2 s3 where "scan_sign s = (g, s1)" "scan_nat s1 = Some (i, s2)"
    "scan_frac s2 = (f, s3)" "scan_exp s3 = (e, t)"
  using assms by (auto simp: scan_number_def split: prod.splits option.splits)

lemma scan_number_delim:
  assumes d: "delim r" and n: "scan_number s = Some (g, i, f, e, t)"
  shows "scan_number (s @ r) = Some (g, i, f, e, t @ r)"
proof -
  from n obtain s1 s2 s3 where parts: "scan_sign s = (g, s1)" "scan_nat s1 = Some (i, s2)"
    "scan_frac s2 = (f, s3)" "scan_exp s3 = (e, t)" by (rule scan_number_SomeE)
  have "s \<noteq> []" using parts(1,2) by (auto simp: scan_sign_def scan_nat_def)
  then have "scan_sign (s @ r) = (g, s1 @ r)" using parts(1) by (simp add: scan_sign_delim)
  moreover have "scan_nat (s1 @ r) = Some (i, s2 @ r)" using d parts(2) by (rule scan_nat_delim)
  moreover have "scan_frac (s2 @ r) = (f, s3 @ r)" using scan_frac_delim [OF d] parts(3) by simp
  moreover have "scan_exp (s3 @ r) = (e, t @ r)" using scan_exp_delim [OF d] parts(4) by simp
  ultimately show ?thesis by (simp add: scan_number_def)
qed

lemma scan_nat_nat_str: "scan_nat (nat_str n) = Some (nat_str n, [])"
proof (cases "n = 0")
  case True
  then show ?thesis by (simp add: nat_str_0 scan_nat_def)
next
  case False
  obtain c r where cr: "nat_str n = c # r" by (cases "nat_str n") auto
  have "c \<noteq> CHR ''0''" using hd_nat_str [OF False] cr by simp
  moreover have "is_digit c" "takeWhile is_digit (nat_str n) = nat_str n" "dropWhile is_digit (nat_str n) = []"
    using nat_str_digits [of _ n] cr by (auto simp: takeWhile_eq_all_conv)
  ultimately show ?thesis using cr by (auto simp: scan_nat_def)
qed

lemma scan_number_int_str:
  "scan_number (int_str i) =
     Some (if i < 0 then ''-'' else [], nat_str (nat \<bar>i\<bar>), [], [], [])"
proof -
  obtain c r where cr: "nat_str (nat i) = c # r" by (cases "nat_str (nat i)") auto
  have "c \<noteq> CHR ''-''" using nat_str_digits [of c "nat i"] cr by (auto simp: is_digit_iff)
  then have "scan_sign (nat_str (nat i)) = ([], nat_str (nat i))"
    using cr by (simp add: scan_sign_def)
  moreover have "scan_sign (CHR ''-'' # t) = (''-'', t)" for t by (simp add: scan_sign_def)
  ultimately show ?thesis
    by (simp add: scan_number_def int_str_def scan_nat_nat_str scan_frac_def scan_exp_def)
qed

lemma number_value_int_str:
  "number_value fl (if i < 0 then ''-'' else []) (nat_str (nat \<bar>i\<bar>)) [] [] = JInt i"
  by (simp add: number_value_def digits_val_nat_str)

end
