(* ===== verification/Json_Roundtrip.thy ===== *)
theory Json_Roundtrip
  imports Json
begin

text \<open>
  The strict reader against the canonical writer: \<open>strict_json\<close> inverts \<open>canonical\<close> up to key
  order, canonical texts agree exactly on equal normal forms, the reader's fuel is always
  enough, and every object it returns has distinct keys.
\<close>

section \<open>The reader inverts the writer\<close>

text \<open>The normal form: object keys sorted at every level.\<close>

primrec norm_json :: "json \<Rightarrow> json" where
  "norm_json JNull = JNull"
| "norm_json (JBool b) = JBool b"
| "norm_json (JInt i) = JInt i"
| "norm_json (JFloat r) = JFloat r"
| "norm_json (JNonFinite r) = JNonFinite r"
| "norm_json (JStr s) = JStr s"
| "norm_json (JArr vs) = JArr (map norm_json vs)"
| "norm_json (JObj kvs) = JObj (sort_key fst (map (map_prod id norm_json) kvs))"

text \<open>The values Python's reader and writer agree on: finite, with distinct keys in every
  object, and with every float spelled as a literal that \<open>fl\<close> reads as that same float
  (\<open>float(repr(x)) == x\<close>).\<close>

definition float_literal :: "string \<Rightarrow> bool" where
  "float_literal r = (case scan_number r of
     Some (g, i, f, e, []) \<Rightarrow> (f \<noteq> [] \<or> e \<noteq> []) \<and> r = g @ i @ f @ e | _ \<Rightarrow> False)"

primrec wf_json :: "(string \<Rightarrow> json) \<Rightarrow> json \<Rightarrow> bool" where
  "wf_json fl JNull = True"
| "wf_json fl (JBool b) = True"
| "wf_json fl (JInt i) = True"
| "wf_json fl (JFloat r) = (float_literal r \<and> fl r = JFloat r)"
| "wf_json fl (JNonFinite r) = False"
| "wf_json fl (JStr s) = True"
| "wf_json fl (JArr vs) = list_all id (map (wf_json fl) vs)"
| "wf_json fl (JObj kvs) = (distinct (map fst kvs) \<and> list_all snd (map (map_prod id (wf_json fl)) kvs))"

lemma float_literalE:
  assumes "float_literal x"
  obtains g i f e where "scan_number x = Some (g, i, f, e, [])" "f \<noteq> [] \<or> e \<noteq> []" "x = g @ i @ f @ e"
proof (cases "scan_number x")
  case None
  with assms show ?thesis by (simp add: float_literal_def)
next
  case (Some y)
  obtain g i f e t where "y = (g, i, f, e, t)" by (cases y)
  with Some assms that show ?thesis by (cases t) (auto simp: float_literal_def)
qed

lemma insort_key_map:
  "(\<And>x. f (g x) = h x) \<Longrightarrow> insort_key f (g x) (map g xs) = map g (insort_key h x xs)"
  by (induction xs) auto

lemma sort_key_map: "(\<And>x. f (g x) = h x) \<Longrightarrow> sort_key f (map g xs) = map g (sort_key h xs)"
  by (induction xs) (simp_all add: insort_key_map)

lemma sort_fst_map_snd: "sort_key fst (map (map_prod id g) kvs) = map (map_prod id g) (sort_key fst kvs)"
  by (rule sort_key_map) simp

lemma map_fst_map_prod: "map fst (map (map_prod id g) kvs) = map fst kvs"
  by (induction kvs) auto

definition member_text :: "string \<times> json \<Rightarrow> string" where
  "member_text = (\<lambda>(k, v). quote k @ '':'' @ dumps v)"

lemma dumps_JObj:
  "dumps (JObj kvs) = ''{'' @ sep_by '','' (map member_text (sort_key fst kvs)) @ ''}''"
proof -
  have "(\<lambda>(k, t). quote k @ '':'' @ t) \<circ> map_prod id dumps = member_text"
    by (auto simp: member_text_def)
  then show ?thesis by (simp add: sort_fst_map_snd)
qed

lemma norm_JObj: "norm_json (JObj kvs) = JObj (map (map_prod id norm_json) (sort_key fst kvs))"
  by (simp add: sort_fst_map_snd)

lemma strip_prefix_single [simp]:
  "strip_prefix [c] s = (case s of [] \<Rightarrow> None | x # r \<Rightarrow> if x = c then Some r else None)"
  by (simp add: strip_prefix_def split: list.split)

text \<open>The first character of a printed value tells the scanner's branch apart.\<close>

definition value_start :: "char \<Rightarrow> bool" where
  "value_start c = (\<not> json_ws c \<and> c \<noteq> CHR '']'' \<and> c \<noteq> CHR ''}'')"

lemma scan_number_start:
  assumes "scan_number (c # s) = Some x"
  shows "c = CHR ''-'' \<or> is_digit c"
  using assms
  by (cases x) (auto simp: scan_number_def scan_sign_def scan_nat_def is_digit_iff split: prod.splits option.splits if_splits)

lemma number_value_start: "scan_number (c # s) = Some x \<Longrightarrow> value_start c"
  by (drule scan_number_start) (auto simp: value_start_def json_ws_def is_digit_iff)

lemma int_str_nonempty [simp]: "int_str i \<noteq> []"
  by (simp add: int_str_def)

lemma dumps_start: "wf_json fl v \<Longrightarrow> \<exists>c t. dumps v = c # t \<and> value_start c"
proof (cases v)
  case (JInt i)
  obtain c t where ct: "int_str i = c # t" by (cases "int_str i") auto
  then have "value_start c" using scan_number_int_str [of i] number_value_start by metis
  with JInt ct show ?thesis by simp
next
  case (JFloat r)
  assume "wf_json fl v"
  with JFloat obtain x where x: "scan_number r = Some x"
    by (auto simp: float_literal_def split: option.splits)
  then obtain c t where "r = c # t"
    by (cases r) (auto simp: scan_number_def scan_sign_def scan_nat_def)
  with JFloat x number_value_start show ?thesis by auto
qed (auto simp: value_start_def json_ws_def quote_def)

lemma parse_atom_number:
  assumes "scan_number s = Some (g, i, f, e, t)" and "delim r"
  shows "parse_atom fl (s @ r) = Inr (number_value fl g i f e, t @ r)"
proof -
  have n: "scan_number (s @ r) = Some (g, i, f, e, t @ r)"
    using assms by (intro scan_number_delim)
  obtain c u where s: "s = c # u"
    using assms(1) by (cases s) (auto simp: scan_number_def scan_sign_def scan_nat_def)
  have "c = CHR ''-'' \<or> is_digit c" using scan_number_start assms(1) s by metis
  then have "strip_prefix ''null'' (s @ r) = None" "strip_prefix ''true'' (s @ r) = None"
    "strip_prefix ''false'' (s @ r) = None"
    by (auto simp: strip_prefix_def s is_digit_iff)
  with n show ?thesis by (simp add: parse_atom_def)
qed

lemma parse_value_atom:
  "0 < n \<Longrightarrow> c \<noteq> CHR 0x22 \<Longrightarrow> c \<noteq> CHR ''['' \<Longrightarrow> c \<noteq> CHR ''{'' \<Longrightarrow>
   parse_value fl n (c # r) = parse_atom fl (c # r)"
  by (cases n) simp_all

lemma parse_value_number:
  assumes "scan_number s = Some (g, i, f, e, t)" and "delim r"
  shows "parse_value fl (Suc n) (s @ r) = Inr (number_value fl g i f e, t @ r)"
proof -
  obtain c u where s: "s = c # u"
    using assms(1) by (cases s) (auto simp: scan_number_def scan_sign_def scan_nat_def)
  have "c = CHR ''-'' \<or> is_digit c" using scan_number_start assms(1) s by metis
  then have c: "c \<noteq> CHR 0x22" "c \<noteq> CHR ''[''" "c \<noteq> CHR ''{''" by (auto simp: is_digit_iff)
  have "parse_value fl (Suc n) (s @ r) = parse_atom fl (s @ r)" using c by (simp add: s parse_value_atom)
  with parse_atom_number [OF assms] show ?thesis by simp
qed

abbreviation reads_back :: "(string \<Rightarrow> json) \<Rightarrow> json \<Rightarrow> bool" where
  "reads_back fl v \<equiv> \<forall>n r. 2 * length (dumps v) + 1 \<le> n \<longrightarrow> delim r \<longrightarrow>
     parse_value fl n (dumps v @ r) = Inr (norm_json v, r)"

lemma skip_ws_start: "dumps v = c # t \<Longrightarrow> value_start c \<Longrightarrow> skip_ws (dumps v @ r) = dumps v @ r"
  by (simp add: value_start_def)

lemma json_ws_punct [simp]: "\<not> json_ws (CHR '','')" "\<not> json_ws (CHR '']'')" "\<not> json_ws (CHR ''}'')"
  "\<not> json_ws (CHR '':'')" "\<not> json_ws (CHR 0x22)"
  by (simp_all add: json_ws_def)

lemma parse_elems_dumps:
  assumes "vs \<noteq> []" and "\<And>v. v \<in> set vs \<Longrightarrow> reads_back fl v" and "\<And>v. v \<in> set vs \<Longrightarrow> wf_json fl v"
    and "2 * length (sep_by '','' (map dumps vs)) + 2 \<le> n"
  shows "parse_elems fl n (sep_by '','' (map dumps vs) @ CHR '']'' # r) = Inr (map norm_json vs, r)"
  using assms
proof (induction vs arbitrary: n)
  case Nil
  then show ?case by simp
next
  case (Cons v vs)
  then obtain m where n: "n = Suc m" by (cases n) auto
  show ?case
  proof (cases vs)
    case Nil
    have "parse_value fl m (dumps v @ CHR '']'' # r) = Inr (norm_json v, CHR '']'' # r)"
      using Cons.prems(2) [of v] Cons.prems(4) n Nil by simp
    with Nil n show ?thesis by simp
  next
    case (Cons w ws)
    have vok: "parse_value fl m (dumps v @ CHR '','' # s) = Inr (norm_json v, CHR '','' # s)" for s
      using Cons.prems(2) [of v] Cons.prems(4) n Cons by simp
    have IH: "parse_elems fl m (sep_by '','' (map dumps vs) @ CHR '']'' # r) = Inr (map norm_json vs, r)"
      using Cons.prems Cons n by (intro Cons.IH) auto
    obtain c t where ct: "dumps w = c # t" "value_start c"
      using dumps_start [of fl w] Cons.prems(3) [of w] Cons by auto
    then have "\<exists>u. sep_by '','' (map dumps vs) = c # u" using Cons by (cases ws) auto
    with ct have ws: "skip_ws (sep_by '','' (map dumps vs) @ CHR '']'' # r) = sep_by '','' (map dumps vs) @ CHR '']'' # r"
      by (auto simp: value_start_def)
    show ?thesis using vok IH ws n Cons by simp
  qed
qed

lemma parse_members_dumps:
  assumes "kvs \<noteq> []" and "\<And>k v. (k, v) \<in> set kvs \<Longrightarrow> reads_back fl v"
    and "\<And>k v. (k, v) \<in> set kvs \<Longrightarrow> wf_json fl v"
    and "2 * length (sep_by '','' (map member_text kvs)) + 2 \<le> n"
  shows "parse_members fl n (sep_by '','' (map member_text kvs) @ CHR ''}'' # r)
    = Inr (map (map_prod id norm_json) kvs, r)"
  using assms
proof (induction kvs arbitrary: n)
  case Nil
  then show ?case by simp
next
  case (Cons kv kvs)
  obtain k v where kv: "kv = (k, v)" by (cases kv)
  from Cons.prems obtain m where n: "n = Suc m" by (cases n) auto
  obtain c t where ct: "dumps v = c # t" "value_start c"
    using dumps_start [of fl v] Cons.prems(3) [of k v] kv by auto
  have q: "scan_string (concat (map esc_char k) @ CHR 0x22 # CHR '':'' # s) = Some (k, CHR '':'' # s)" for s
    using scan_string_quote [of k "CHR '':'' # s"] by simp
  have sk: "skip_ws (dumps v @ s) = dumps v @ s" for s using skip_ws_start ct by blast
  show ?case
  proof (cases kvs)
    case Nil
    have "parse_value fl m (dumps v @ CHR ''}'' # r) = Inr (norm_json v, CHR ''}'' # r)"
      using Cons.prems(2) [of k v] Cons.prems(4) n Nil kv by (simp add: member_text_def)
    with Nil n kv q sk show ?thesis by (simp add: member_text_def quote_def)
  next
    case (Cons w ws)
    have vok: "parse_value fl m (dumps v @ CHR '','' # s) = Inr (norm_json v, CHR '','' # s)" for s
      using Cons.prems(2) [of k v] Cons.prems(4) n Cons kv by (simp add: member_text_def)
    have IH: "parse_members fl m (sep_by '','' (map member_text kvs) @ CHR ''}'' # r)
        = Inr (map (map_prod id norm_json) kvs, r)"
    proof (rule Cons.IH)
      show "kvs \<noteq> []" using Cons by simp
      show "2 * length (sep_by '','' (map member_text kvs)) + 2 \<le> m"
        using Cons.prems(4) Cons n by simp
    qed (use Cons.prems(2,3) in \<open>meson list.set_intros(2)\<close>)+
    have "\<exists>u. sep_by '','' (map member_text kvs) = CHR 0x22 # u"
      using Cons by (cases ws; cases w) (auto simp: member_text_def quote_def)
    then have ws: "skip_ws (sep_by '','' (map member_text kvs) @ CHR ''}'' # r)
        = sep_by '','' (map member_text kvs) @ CHR ''}'' # r" by auto
    have "sep_by '','' (map member_text (kv # kvs)) @ CHR ''}'' # r
       = CHR 0x22 # concat (map esc_char k) @ CHR 0x22 # CHR '':'' # dumps v @ CHR '','' # sep_by '','' (map member_text kvs) @ CHR ''}'' # r"
      using Cons kv by (simp add: member_text_def quote_def)
    then show ?thesis using vok IH ws n kv q sk by (simp add: id_def)
  qed
qed

lemma reads_back_wf: "wf_json fl v \<Longrightarrow> reads_back fl v"
proof (induction v)
  case (JInt i)
  show ?case
  proof (intro allI impI)
    fix n r
    assume n: "2 * length (dumps (JInt i)) + 1 \<le> n" and d: "delim r"
    then obtain m where "n = Suc m" by (cases n) auto
    then show "parse_value fl n (dumps (JInt i) @ r) = Inr (norm_json (JInt i), r)"
      using parse_value_number [OF scan_number_int_str d, of fl m i] number_value_int_str [of fl i] by simp
  qed
next
  case (JFloat x)
  then obtain g i f e where x: "scan_number x = Some (g, i, f, e, [])" "f \<noteq> [] \<or> e \<noteq> []" "x = g @ i @ f @ e"
    and fl: "fl x = JFloat x"
    by (auto elim: float_literalE)
  show ?case
  proof (intro allI impI)
    fix n r
    assume n: "2 * length (dumps (JFloat x)) + 1 \<le> n" and d: "delim r"
    then obtain m where "n = Suc m" by (cases n) auto
    moreover have "number_value fl g i f e = JFloat x"
      using x fl by (auto simp: number_value_def)
    ultimately show "parse_value fl n (dumps (JFloat x) @ r) = Inr (norm_json (JFloat x), r)"
      using parse_value_number [OF x(1) d, of fl m] by simp
  qed
next
  case (JStr s)
  show ?case
  proof (intro allI impI)
    fix n r
    assume n: "2 * length (dumps (JStr s)) + 1 \<le> n" and d: "delim r"
    then obtain m where "n = Suc m" by (cases n) auto
    then show "parse_value fl n (dumps (JStr s) @ r) = Inr (norm_json (JStr s), r)"
      by (simp add: quote_def scan_string_quote)
  qed
next
  case (JArr vs)
  then have wf: "\<And>v. v \<in> set vs \<Longrightarrow> wf_json fl v" and rb: "\<And>v. v \<in> set vs \<Longrightarrow> reads_back fl v"
    by (auto simp: list_all_iff)
  show ?case
  proof (intro allI impI)
    fix n r
    assume n: "2 * length (dumps (JArr vs)) + 1 \<le> n" and d: "delim r"
    then obtain m where m: "n = Suc m" by (cases n) auto
    show "parse_value fl n (dumps (JArr vs) @ r) = Inr (norm_json (JArr vs), r)"
    proof (cases vs)
      case Nil
      with m show ?thesis by simp
    next
      case (Cons w ws)
      obtain c t where ct: "dumps w = c # t" "value_start c"
        using dumps_start [of fl w] wf [of w] Cons by auto
      then have "\<exists>u. sep_by '','' (map dumps vs) = c # u" using Cons by (cases ws) auto
      moreover have "parse_elems fl m (sep_by '','' (map dumps vs) @ CHR '']'' # r) = Inr (map norm_json vs, r)"
        using Cons n m by (intro parse_elems_dumps rb wf) auto
      ultimately show ?thesis using m ct by (auto simp: value_start_def)
    qed
  qed
next
  case (JObj kvs)
  let ?s = "sort_key fst kvs"
  have wf: "\<And>k v. (k, v) \<in> set ?s \<Longrightarrow> wf_json fl v" and dist: "distinct (map fst ?s)"
    using JObj.prems by (auto simp: list_all_iff distinct_map)
  have rb: "\<And>k v. (k, v) \<in> set ?s \<Longrightarrow> reads_back fl v"
    using JObj.IH wf by (metis set_sort snds.intros snd_conv)
  show ?case
  proof (intro allI impI)
    fix n r
    assume n: "2 * length (dumps (JObj kvs)) + 1 \<le> n" and d: "delim r"
    then obtain m where m: "n = Suc m" by (cases n) auto
    show "parse_value fl n (dumps (JObj kvs) @ r) = Inr (norm_json (JObj kvs), r)"
    proof (cases ?s)
      case Nil
      with m show ?thesis by (simp add: dumps_JObj norm_JObj del: dumps.simps norm_json.simps)
    next
      case (Cons w ws)
      have "\<exists>u. sep_by '','' (map member_text ?s) = CHR 0x22 # u"
        using Cons by (cases ws; cases w) (auto simp: member_text_def quote_def)
      moreover have "parse_members fl m (sep_by '','' (map member_text ?s) @ CHR ''}'' # r)
          = Inr (map (map_prod id norm_json) ?s, r)"
      proof (rule parse_members_dumps)
        show "?s \<noteq> []" using Cons by simp
        show "2 * length (sep_by '','' (map member_text ?s)) + 2 \<le> m"
          using n m by (simp add: dumps_JObj del: dumps.simps)
      qed (use rb wf in blast)+
      ultimately show ?thesis using m dist
        by (auto simp: dumps_JObj norm_JObj map_fst_map_prod
            simp del: dumps.simps norm_json.simps map_map)
    qed
  qed
qed (auto simp: strip_prefix_def parse_atom_def parse_value_atom)

section \<open>Fuel, and distinct keys in what the reader returns\<close>

lemma scan_string_length: "scan_string s = Some (t, r) \<Longrightarrow> length r < length s"
proof (induction s arbitrary: t r rule: scan_string.induct)
  case 1
  then show ?case by simp
next
  case (2 c s)
  then show ?case
    by (fastforce split: if_splits list.splits option.splits dest!: unicode_escape_length)
qed

lemma skip_ws_length: "length (skip_ws s) \<le> length s"
  by (simp add: length_dropWhile_le)

lemma strip_prefix_length: "strip_prefix p s = Some r \<Longrightarrow> p \<noteq> [] \<Longrightarrow> length r < length s"
  by (cases s) (auto simp: strip_prefix_def split: if_splits)

lemma dropWhile_digit_length: "length (dropWhile is_digit s) \<le> length s"
  by (simp add: length_dropWhile_le)

lemma scan_parts_length:
  "scan_sign s = (g, s1) \<Longrightarrow> length s1 \<le> length s"
  "scan_nat s = Some (i, s2) \<Longrightarrow> length s2 < length s"
  "scan_frac s = (f, s3) \<Longrightarrow> length s3 \<le> length s"
  "scan_exp s = (e, s4) \<Longrightarrow> length s4 \<le> length s"
  using dropWhile_digit_length
  by (auto simp: scan_sign_def scan_nat_def scan_frac_def scan_exp_def Let_def le_Suc_eq less_Suc_eq_le
      split: list.splits if_splits prod.splits intro: le_SucI)

lemma scan_number_length: "scan_number s = Some (g, i, f, e, t) \<Longrightarrow> length t < length s"
  by (erule scan_number_SomeE) (use scan_parts_length in \<open>meson le_less_trans less_le_trans\<close>)

lemma parse_atom_length: "parse_atom fl s = Inr (v, r) \<Longrightarrow> length r < length s"
  by (auto simp: parse_atom_def decode_error_def split: option.splits if_splits
      dest: strip_prefix_length scan_number_length)

lemma parse_atom_no_fuel: "parse_atom fl s \<noteq> Inl out_of_fuel"
  by (auto simp: parse_atom_def decode_error_def out_of_fuel_def split: option.splits)

text \<open>What a successful call of each scanner consists of.\<close>

lemma parse_value_InrE:
  assumes "parse_value fl n s = Inr (v, r)"
  obtains (str) t t' where "s = CHR 0x22 # t" "scan_string t = Some (t', r)" "v = JStr t'"
  | (empty_arr) t where "s = CHR ''['' # t" "strip_prefix '']'' (skip_ws t) = Some r" "v = JArr []"
  | (arr) m t vs where "n = Suc m" "s = CHR ''['' # t" "parse_elems fl m (skip_ws t) = Inr (vs, r)" "v = JArr vs"
  | (empty_obj) t where "s = CHR ''{'' # t" "strip_prefix ''}'' (skip_ws t) = Some r" "v = JObj []"
  | (obj) m t kvs where "n = Suc m" "s = CHR ''{'' # t" "parse_members fl m (skip_ws t) = Inr (kvs, r)"
      "distinct (map fst kvs)" "v = JObj kvs"
  | (atom) "parse_atom fl s = Inr (v, r)"
proof (cases n)
  case 0
  with assms show ?thesis by simp
next
  case (Suc m)
  note n = this
  show ?thesis
  proof (cases s)
    case Nil
    with assms n show ?thesis by (simp add: decode_error_def)
  next
    case (Cons c t)
    show ?thesis
      using assms n Cons str empty_arr arr empty_obj obj atom
      by (simp add: decode_error_def result_simps split: if_splits option.splits prod.splits
          del: strip_prefix_single) blast+
  qed
qed

lemma parse_elems_InrE:
  assumes "parse_elems fl n s = Inr (vs, r)"
  obtains m v t where "n = Suc m" "parse_value fl m s = Inr (v, t)"
      "strip_prefix '']'' (skip_ws t) = Some r" "vs = [v]"
  | m v t t' ws where "n = Suc m" "parse_value fl m s = Inr (v, t)"
      "strip_prefix '','' (skip_ws t) = Some t'" "parse_elems fl m (skip_ws t') = Inr (ws, r)" "vs = v # ws"
  using assms
  by (cases n) (auto simp: decode_error_def result_simps split: option.splits simp del: strip_prefix_single)

lemma parse_members_InrE:
  assumes "parse_members fl n s = Inr (kvs, r)"
  obtains m s1 k r1 r2 v t where "n = Suc m" "s = CHR 0x22 # s1" "scan_string s1 = Some (k, r1)"
      "strip_prefix '':'' (skip_ws r1) = Some r2" "parse_value fl m (skip_ws r2) = Inr (v, t)"
      "strip_prefix ''}'' (skip_ws t) = Some r" "kvs = [(k, v)]"
  | m s1 k r1 r2 v t t' ws where "n = Suc m" "s = CHR 0x22 # s1" "scan_string s1 = Some (k, r1)"
      "strip_prefix '':'' (skip_ws r1) = Some r2" "parse_value fl m (skip_ws r2) = Inr (v, t)"
      "strip_prefix '','' (skip_ws t) = Some t'" "parse_members fl m (skip_ws t') = Inr (ws, r)"
      "kvs = (k, v) # ws"
proof (cases n)
  case 0
  with assms show ?thesis by simp
next
  case (Suc m)
  show ?thesis
  proof (cases s)
    case Nil
    with assms Suc show ?thesis by (simp add: decode_error_def)
  next
    case (Cons c s1)
    have c: "c = CHR 0x22" using assms Suc Cons by (simp add: decode_error_def split: if_splits)
    obtain k r1 where k: "scan_string s1 = Some (k, r1)"
      using assms Suc Cons c by (cases "scan_string s1") (auto simp: decode_error_def)
    obtain r2 where r2: "strip_prefix '':'' (skip_ws r1) = Some r2"
      using assms Suc Cons c k
      by (cases "strip_prefix '':'' (skip_ws r1)") (auto simp: decode_error_def simp del: strip_prefix_single)
    obtain v t where v: "parse_value fl m (skip_ws r2) = Inr (v, t)"
      using assms Suc Cons c k r2 by (auto simp: result_simps simp del: strip_prefix_single)
    show ?thesis
    proof (cases "strip_prefix ''}'' (skip_ws t)")
      case None
      then show ?thesis using assms Suc Cons c k r2 v that(2)
        by (cases "strip_prefix '','' (skip_ws t)")
          (auto simp: decode_error_def result_simps simp del: strip_prefix_single)
    next
      case (Some r')
      then show ?thesis using assms Suc Cons c k r2 v that(1) by (simp del: strip_prefix_single)
    qed
  qed
qed

lemma strip_ws_length: "strip_prefix p (skip_ws s) = Some r \<Longrightarrow> p \<noteq> [] \<Longrightarrow> length r < length s"
  using strip_prefix_length skip_ws_length by (metis less_le_trans)

lemma parse_shrinks:
  shows parse_value_shrinks: "parse_value fl n s = Inr (v, r) \<Longrightarrow> length r < length s"
    and parse_elems_shrinks: "parse_elems fl n s = Inr (vs, r) \<Longrightarrow> length r < length s"
    and parse_members_shrinks: "parse_members fl n s = Inr (kvs, r) \<Longrightarrow> length r < length s"
proof (induction n arbitrary: s v vs kvs r)
  case 0
  { case 1 then show ?case by simp }
  { case 2 then show ?case by simp }
  { case 3 then show ?case by simp }
next
  case (Suc n)
  { case 1
    then show ?case
    proof (cases rule: parse_value_InrE)
      case (arr m t vs)
      then have "length r < length (skip_ws t)" using Suc.IH(2) by simp
      with skip_ws_length [of t] arr show ?thesis by simp
    next
      case (obj m t kvs)
      then have "length r < length (skip_ws t)" using Suc.IH(3) by simp
      with skip_ws_length [of t] obj show ?thesis by simp
    qed (auto dest: scan_string_length strip_ws_length parse_atom_length simp del: strip_prefix_single) }
  { case 2
    then show ?case
    proof (cases rule: parse_elems_InrE)
      case (1 m v t)
      then have "length t < length s" using Suc.IH(1) by simp
      moreover have "length r < length t" using 1 by (auto dest: strip_ws_length simp del: strip_prefix_single)
      ultimately show ?thesis by simp
    next
      case (2 m v t t' ws)
      then have "length t < length s" and "length r < length (skip_ws t')" using Suc.IH(1,2) by simp_all
      moreover have "length t' < length t" using 2 by (auto dest: strip_ws_length simp del: strip_prefix_single)
      ultimately show ?thesis using skip_ws_length [of t'] by simp
    qed }
  { case 3
    then show ?case
    proof (cases rule: parse_members_InrE)
      case (1 m s1 k r1 r2 v t)
      then have "length t < length (skip_ws r2)" using Suc.IH(1) by simp
      moreover have "length r < length t" "length r2 < length r1" "length r1 < length s1"
        using 1 by (auto dest: strip_ws_length scan_string_length simp del: strip_prefix_single)
      ultimately show ?thesis using skip_ws_length [of r2] 1 by simp
    next
      case (2 m s1 k r1 r2 v t t' ws)
      then have "length t < length (skip_ws r2)" "length r < length (skip_ws t')" using Suc.IH(1,3) by simp_all
      moreover have "length t' < length t" "length r2 < length r1" "length r1 < length s1"
        using 2 by (auto dest: strip_ws_length scan_string_length simp del: strip_prefix_single)
      ultimately show ?thesis using skip_ws_length [of r2] skip_ws_length [of t'] 2 by simp
    qed }
qed

text \<open>Two units of fuel per character are enough.\<close>

lemma parse_fuel_enough:
  shows parse_value_fuel: "2 * length s + 1 \<le> n \<Longrightarrow> parse_value fl n s \<noteq> Inl out_of_fuel"
    and parse_elems_fuel: "2 * length s + 2 \<le> n \<Longrightarrow> parse_elems fl n s \<noteq> Inl out_of_fuel"
    and parse_members_fuel: "2 * length s + 2 \<le> n \<Longrightarrow> parse_members fl n s \<noteq> Inl out_of_fuel"
proof (induction n arbitrary: s)
  case 0
  { case 1 then show ?case by simp }
  { case 2 then show ?case by simp }
  { case 3 then show ?case by simp }
next
  case (Suc n)
  { case 1
    have E: "parse_elems fl n (skip_ws t) \<noteq> Inl out_of_fuel" "parse_members fl n (skip_ws t) \<noteq> Inl out_of_fuel"
      if "s = c # t" for c t
      using that 1 skip_ws_length [of t] Suc.IH(2,3) [of "skip_ws t"] by auto
    show ?case
      using E parse_atom_no_fuel
      by (cases s) (auto simp: decode_error_def out_of_fuel_def bind_r_Inl_iff
          split: option.splits if_splits simp del: strip_prefix_single) }
  { case 2
    have v: "parse_value fl n s \<noteq> Inl out_of_fuel" using 2 Suc.IH(1) by simp
    have "parse_elems fl n (skip_ws t') \<noteq> Inl out_of_fuel"
      if "parse_value fl n s = Inr (v, t)" "strip_prefix '','' (skip_ws t) = Some t'" for v t t'
    proof -
      have "length t' < length t" "length t < length s"
        using that strip_ws_length parse_value_shrinks by (auto simp del: strip_prefix_single)
      then show ?thesis using 2 skip_ws_length [of t'] Suc.IH(2) [of "skip_ws t'"] by auto
    qed
    with v show ?case
      by (auto simp: decode_error_def out_of_fuel_def bind_r_Inl_iff split: option.splits simp del: strip_prefix_single) }
  { case 3
    have v: "parse_value fl n (skip_ws r2) \<noteq> Inl out_of_fuel"
      if "s = c # s1" "scan_string s1 = Some (k, r1)" "strip_prefix '':'' (skip_ws r1) = Some r2" for c s1 k r1 r2
    proof -
      have "length r2 < length r1" "length r1 < length s1"
        using that strip_ws_length scan_string_length by (auto simp del: strip_prefix_single)
      then show ?thesis using 3 that(1) skip_ws_length [of r2] Suc.IH(1) [of "skip_ws r2"] by auto
    qed
    have m: "parse_members fl n (skip_ws t') \<noteq> Inl out_of_fuel"
      if "s = c # s1" "scan_string s1 = Some (k, r1)" "strip_prefix '':'' (skip_ws r1) = Some r2"
        "parse_value fl n (skip_ws r2) = Inr (v, t)" "strip_prefix '','' (skip_ws t) = Some t'"
      for c s1 k r1 r2 v t t'
    proof -
      have "length t' < length t" "length t < length (skip_ws r2)" "length r2 < length r1" "length r1 < length s1"
        using that strip_ws_length scan_string_length parse_value_shrinks by (auto simp del: strip_prefix_single)
      then show ?thesis
        using 3 that(1) skip_ws_length [of r2] skip_ws_length [of t'] Suc.IH(3) [of "skip_ws t'"] by auto
    qed
    show ?case
    proof (cases s)
      case Nil
      then show ?thesis by (simp add: decode_error_def out_of_fuel_def)
    next
      case (Cons c s1)
      with v m show ?thesis
        by (auto simp: decode_error_def out_of_fuel_def bind_r_Inl_iff
            split: option.splits if_splits simp del: strip_prefix_single)
    qed }
qed

primrec distinct_keys :: "json \<Rightarrow> bool" where
  "distinct_keys JNull = True"
| "distinct_keys (JBool b) = True"
| "distinct_keys (JInt i) = True"
| "distinct_keys (JFloat r) = True"
| "distinct_keys (JNonFinite r) = True"
| "distinct_keys (JStr s) = True"
| "distinct_keys (JArr vs) = list_all id (map distinct_keys vs)"
| "distinct_keys (JObj kvs) = (distinct (map fst kvs) \<and> list_all snd (map (map_prod id distinct_keys) kvs))"

lemma parse_atom_distinct_keys:
  "(\<And>x. distinct_keys (fl x)) \<Longrightarrow> parse_atom fl s = Inr (v, r) \<Longrightarrow> distinct_keys v"
  by (auto simp: parse_atom_def decode_error_def number_value_def split: option.splits if_splits)

lemma parse_distinct_keys:
  assumes fl: "\<And>x. distinct_keys (fl x)"
  shows parse_value_distinct: "parse_value fl n s = Inr (v, r) \<Longrightarrow> distinct_keys v"
    and parse_elems_distinct: "parse_elems fl n s = Inr (vs, r) \<Longrightarrow> list_all distinct_keys vs"
    and parse_members_distinct: "parse_members fl n s = Inr (kvs, r) \<Longrightarrow> list_all (distinct_keys \<circ> snd) kvs"
proof (induction n arbitrary: s v vs kvs r)
  case 0
  { case 1 then show ?case by simp }
  { case 2 then show ?case by simp }
  { case 3 then show ?case by simp }
next
  case (Suc n)
  { case 1
    then show ?case
    proof (cases rule: parse_value_InrE)
      case (arr m t vs)
      with Suc.IH(2) show ?thesis by (auto simp: list_all_iff)
    next
      case (obj m t kvs)
      with Suc.IH(3) show ?thesis by (fastforce simp: list_all_iff)
    next
      case atom
      with fl parse_atom_distinct_keys [of fl] show ?thesis by blast
    qed auto }
  { case 2
    then show ?case by (cases rule: parse_elems_InrE) (use Suc.IH(1,2) in auto) }
  { case 3
    then show ?case by (cases rule: parse_members_InrE) (use Suc.IH(1,3) in auto) }
qed

text \<open>What the source relies on of Python's float conversion: a literal reads as a non-finite
  value or as a finite one whose \<open>repr\<close> is a literal that reads as itself.\<close>

definition float_reader :: "(string \<Rightarrow> json) \<Rightarrow> bool" where
  "float_reader fl = (\<forall>x. case fl x of
     JFloat r \<Rightarrow> float_literal r \<and> fl r = JFloat r | JNonFinite _ \<Rightarrow> True | _ \<Rightarrow> False)"

definition exact_float :: "string \<Rightarrow> json" where
  "exact_float x = (if float_literal x then JFloat x else JNonFinite x)"

lemma float_reader_exact_float [simp]: "float_reader exact_float"
  by (simp add: float_reader_def exact_float_def)

lemma float_reader_wf: "float_reader fl \<Longrightarrow> finite_json (fl x) \<Longrightarrow> wf_json fl (fl x)"
  by (drule spec [where x = x, OF float_reader_def [THEN iffD1]]) (auto split: json.splits)

lemma parse_atom_wf:
  "float_reader fl \<Longrightarrow> parse_atom fl s = Inr (v, r) \<Longrightarrow> finite_json v \<Longrightarrow> wf_json fl v"
  by (auto simp: parse_atom_def decode_error_def number_value_def float_reader_wf split: option.splits if_splits)

lemma parse_wf:
  assumes fl: "float_reader fl"
  shows parse_value_wf: "parse_value fl n s = Inr (v, r) \<Longrightarrow> finite_json v \<Longrightarrow> wf_json fl v"
    and parse_elems_wf: "parse_elems fl n s = Inr (vs, r) \<Longrightarrow> list_all finite_json vs \<Longrightarrow> list_all (wf_json fl) vs"
    and parse_members_wf: "parse_members fl n s = Inr (kvs, r) \<Longrightarrow> list_all (finite_json \<circ> snd) kvs \<Longrightarrow>
      list_all (wf_json fl \<circ> snd) kvs"
proof (induction n arbitrary: s v vs kvs r)
  case 0
  { case 1 then show ?case by simp }
  { case 2 then show ?case by simp }
  { case 3 then show ?case by simp }
next
  case (Suc n)
  { case 1
    then show ?case
    proof (cases rule: parse_value_InrE)
      case (arr m t vs)
      with Suc.IH(2) "1"(2) show ?thesis by (auto simp: list_all_iff)
    next
      case (obj m t kvs)
      have "list_all (finite_json \<circ> snd) kvs" using "1"(2) obj by (auto simp: list_all_iff)
      with Suc.IH(3) obj show ?thesis by (fastforce simp: list_all_iff)
    next
      case atom
      with parse_atom_wf [OF fl] "1"(2) show ?thesis by blast
    qed auto }
  { case 2
    then show ?case by (cases rule: parse_elems_InrE) (use Suc.IH(1,2) in auto) }
  { case 3
    then show ?case by (cases rule: parse_members_InrE) (use Suc.IH(1,3) in auto) }
qed

lemma strict_json_wf:
  assumes "float_reader fl" and "strict_json fl s = Inr v" and "finite_json v"
  shows "wf_json fl v"
proof -
  obtain r where "parse_value fl (json_fuel (skip_ws s)) (skip_ws s) = Inr (v, r)"
    using assms(2) by (auto simp: strict_json_def decode_error_def result_simps split: if_splits)
  then show ?thesis using parse_value_wf [OF assms(1)] assms(3) by blast
qed

section \<open>Properties\<close>

lemma wf_json_finite: "wf_json fl v \<Longrightarrow> finite_json v"
  by (induction v) (auto simp: list_all_iff snds.simps)

lemma wf_json_distinct_keys: "wf_json fl v \<Longrightarrow> distinct_keys v"
  by (induction v) (auto simp: list_all_iff snds.simps)

lemma finite_norm_json [simp]: "finite_json (norm_json v) = finite_json v"
  by (induction v) (auto simp: list_all_iff snds.simps)

lemma sort_key_sort_key: "sort_key f (sort_key f xs) = sort_key f xs"
  by (simp add: sort_key_id_if_sorted)

lemma dumps_norm_json: "dumps (norm_json v) = dumps v"
proof (induction v)
  case (JArr vs)
  then have "map (dumps \<circ> norm_json) vs = map dumps vs" by simp
  then show ?case by (simp only: dumps.simps norm_json.simps map_map)
next
  case (JObj kvs)
  then have "map (map_prod id dumps \<circ> map_prod id norm_json) kvs = map (map_prod id dumps) kvs"
    by (auto simp: snds.simps)
  moreover have "sort_key fst (map (map_prod id dumps) (sort_key fst (map (map_prod id norm_json) kvs)))
      = sort_key fst (map (map_prod id dumps) (map (map_prod id norm_json) kvs))"
    by (simp only: sort_fst_map_snd sort_key_sort_key)
  ultimately show ?case by (simp only: dumps.simps norm_json.simps map_map)
qed simp_all

lemma canonical_wf: "wf_json fl v \<Longrightarrow> canonical v = Inr (dumps v)"
  by (simp add: canonical_def wf_json_finite)

lemma strict_json_dumps: "wf_json fl v \<Longrightarrow> strict_json fl (dumps v) = Inr (norm_json v)"
proof -
  assume wf: "wf_json fl v"
  then obtain c t where ct: "dumps v = c # t" "value_start c" using dumps_start by blast
  then have "skip_ws (dumps v) = dumps v" by (simp add: value_start_def)
  moreover have "parse_value fl (json_fuel (dumps v)) (dumps v) = Inr (norm_json v, [])"
    using reads_back_wf [OF wf] by (metis append_Nil2 delim_simps(1) json_fuel_def order_refl)
  ultimately show ?thesis by (simp add: strict_json_def)
qed

lemma dumps_inj: "wf_json fl v \<Longrightarrow> wf_json fl w \<Longrightarrow> dumps v = dumps w \<longleftrightarrow> norm_json v = norm_json w"
  by (metis Inr_inject dumps_norm_json strict_json_dumps)

lemma map_of_sort_fst: "distinct (map fst kvs) \<Longrightarrow> map_of (sort_key fst kvs) k = map_of kvs k"
proof -
  assume d: "distinct (map fst kvs)"
  then have d': "distinct (map fst (sort_key fst kvs))" by (simp add: distinct_map)
  show ?thesis
  proof (cases "map_of kvs k")
    case None
    then have "map_of (sort_key fst kvs) k = None" by (simp add: map_of_eq_None_iff)
    with None show ?thesis by simp
  next
    case (Some v)
    then have "(k, v) \<in> set (sort_key fst kvs)" using d by simp
    with d' Some show ?thesis by simp
  qed
qed

lemma map_of_norm: "distinct (map fst kvs) \<Longrightarrow>
  map_of (sort_key fst (map (map_prod id norm_json) kvs)) k = map_option norm_json (map_of kvs k)"
proof -
  have "map_of (map (map_prod id norm_json) kvs) k = map_option norm_json (map_of kvs k)"
    by (induction kvs) auto
  moreover assume "distinct (map fst kvs)"
  ultimately show ?thesis by (simp only: map_of_sort_fst map_fst_map_prod)
qed

lemma dumps_obj_field:
  assumes "wf_json fl (JObj kvs)" and "wf_json fl (JObj kvs')" and "dumps (JObj kvs) = dumps (JObj kvs')"
  shows "map_option norm_json (map_of kvs k) = map_option norm_json (map_of kvs' k)"
proof -
  have "norm_json (JObj kvs) = norm_json (JObj kvs')" using dumps_inj assms by blast
  then have "map_of (sort_key fst (map (map_prod id norm_json) kvs)) k
      = map_of (sort_key fst (map (map_prod id norm_json) kvs')) k"
    by simp
  then show ?thesis using assms(1,2) by (simp add: map_of_norm)
qed

lemma norm_JStr: "norm_json v = JStr s \<longleftrightarrow> v = JStr s"
  by (cases v) auto

lemma norm_JArr: "norm_json v = JArr ws \<longleftrightarrow> (\<exists>vs. v = JArr vs \<and> map norm_json vs = ws)"
  by (cases v) auto

lemma norm_JObjD: "norm_json v = norm_json (JObj kvs) \<Longrightarrow> \<exists>kvs'. v = JObj kvs'"
  by (cases v) auto

lemma distinct_fst_inj: "distinct (map fst kvs) \<Longrightarrow> inj_on fst (set kvs)"
  by (simp add: distinct_map)

text \<open>Objects with the same fields have the same normal form.\<close>

lemma norm_obj_eqI:
  assumes "distinct (map fst a)" and "distinct (map fst b)"
    and "\<And>k. map_option norm_json (map_of a k) = map_option norm_json (map_of b k)"
  shows "norm_json (JObj a) = norm_json (JObj b)"
proof -
  let ?n = "\<lambda>kvs. sort_key fst (map (map_prod id norm_json) kvs)"
  have "distinct (map fst (?n kvs))" if "distinct (map fst kvs)" for kvs
    using that distinct_fst_inj [of "map (map_prod id norm_json) kvs"] map_fst_map_prod [of norm_json kvs]
    by (metis distinct_map distinct_sort set_sort)
  then have d: "distinct (map fst (?n a))" "distinct (map fst (?n b))" using assms(1,2) by blast+
  have "map_of (?n a) = map_of (?n b)" using assms by (auto simp: map_of_norm)
  then have set: "set (?n a) = set (?n b)" using d map_of_inject_set by blast
  have "?n a = ?n b"
    by (rule map_sorted_distinct_set_unique [of fst]) (use d set distinct_fst_inj [OF d(1)] in simp_all)
  then show ?thesis by simp
qed

lemma norm_obj_eq_iff:
  assumes "distinct (map fst a)" and "distinct (map fst b)"
  shows "norm_json (JObj a) = norm_json (JObj b) \<longleftrightarrow>
    (\<forall>k. map_option norm_json (map_of a k) = map_option norm_json (map_of b k))"
proof
  assume "norm_json (JObj a) = norm_json (JObj b)"
  then have "map_of (sort_key fst (map (map_prod id norm_json) a)) k
      = map_of (sort_key fst (map (map_prod id norm_json) b)) k" for k
    by simp
  then show "\<forall>k. map_option norm_json (map_of a k) = map_option norm_json (map_of b k)"
    using assms by (simp add: map_of_norm)
next
  assume "\<forall>k. map_option norm_json (map_of a k) = map_option norm_json (map_of b k)"
  then show "norm_json (JObj a) = norm_json (JObj b)" using assms by (intro norm_obj_eqI) auto
qed

lemma distinct_keys_norm: "distinct_keys v \<Longrightarrow> distinct_keys (norm_json v)"
proof (induction v)
  case (JObj kvs)
  have "distinct (map fst (sort_key fst (map (map_prod id norm_json) kvs)))"
    using JObj.prems distinct_fst_inj [of "map (map_prod id norm_json) kvs"] map_fst_map_prod [of norm_json kvs]
    by (metis distinct_keys.simps(8) distinct_map distinct_sort set_sort)
  with JObj show ?case by (auto simp: list_all_iff snds.simps)
qed (auto simp: list_all_iff)

lemma norm_norm_json [simp]: "norm_json (norm_json v) = norm_json v"
proof (induction v)
  case (JObj kvs)
  then have "map (map_prod id norm_json \<circ> map_prod id norm_json) kvs = map (map_prod id norm_json) kvs"
    by (auto simp: snds.simps)
  moreover have "sort_key fst (map (map_prod id norm_json) (sort_key fst (map (map_prod id norm_json) kvs)))
      = sort_key fst (map (map_prod id norm_json) (map (map_prod id norm_json) kvs))"
    by (simp only: sort_fst_map_snd sort_key_sort_key)
  ultimately show ?case by (simp only: norm_json.simps map_map)
qed simp_all

definition collision :: "(string \<Rightarrow> string) \<Rightarrow> string \<Rightarrow> string \<Rightarrow> bool" where
  "collision H x y = (x \<noteq> y \<and> H x = H y)"

text \<open>C23. Reading back what the canonical writer wrote returns the value with its object keys
  sorted, for every finite value whose objects have distinct keys: the defensive copy
  \<open>strict_json(canonical(v))\<close> never changes the data.\<close>

theorem strict_json_canonical:
  "wf_json fl v \<Longrightarrow> bind_r (canonical v) (strict_json fl) = Inr (norm_json v)"
  by (simp add: canonical_wf strict_json_dumps)

theorem strict_json_canonical_witness:
  "bind_r (canonical (JObj [(''b'', JInt (- 12)), (''a'', JArr [JStr [CHR 0x22, newline], JNull])]))
     (strict_json JFloat)
   = Inr (JObj [(''a'', JArr [JStr [CHR 0x22, newline], JNull]), (''b'', JInt (- 12))])"
  using strict_json_canonical [of JFloat "JObj [(''b'', JInt (- 12)), (''a'', JArr [JStr [CHR 0x22, newline], JNull])]"]
  by simp

text \<open>A digest binds its value: two well-formed values with the same digest are equal up to
  key order, or their canonical texts are an explicit collision of the hash function.\<close>

theorem digest_binds_value:
  assumes "wf_json fl v" and "wf_json fl w" and "digest H v = Inr h" and "digest H w = Inr h"
  shows "norm_json v = norm_json w \<or> collision H (dumps v) (dumps w)"
proof (cases "dumps v = dumps w")
  case True
  with assms(1,2) show ?thesis using dumps_inj by blast
next
  case False
  moreover have "H (dumps v) = H (dumps w)"
    using assms by (simp add: digest_def canonical_wf)
  ultimately show ?thesis by (simp add: collision_def)
qed

theorem digest_binds_value_witness:
  "norm_json (JObj [(''b'', JNull), (''a'', JBool True)]) = norm_json (JObj [(''a'', JBool True), (''b'', JNull)])"
proof -
  let ?v = "JObj [(''b'', JNull), (''a'', JBool True)]" and ?w = "JObj [(''a'', JBool True), (''b'', JNull)]"
  have "norm_json ?v = norm_json ?w \<or> collision id (dumps ?v) (dumps ?w)"
    by (rule digest_binds_value [of JFloat _ _ id "dumps ?v"]) (simp_all add: digest_def canonical_def)
  then show ?thesis by (simp add: collision_def)
qed

lemma strict_json_distinct:
  assumes "\<And>x. \<exists>r. fl x = JFloat r \<or> fl x = JNonFinite r" and "strict_json fl s = Inr v"
  shows "distinct_keys v"
proof -
  have "distinct_keys (fl x)" for x using assms(1) [of x] by auto
  moreover obtain r where "parse_value fl (json_fuel (skip_ws s)) (skip_ws s) = Inr (v, r)"
    using assms(2) by (auto simp: strict_json_def decode_error_def result_simps split: if_splits)
  ultimately show ?thesis using parse_value_distinct [of fl] by blast
qed

lemma float_reader_cases: "float_reader fl \<Longrightarrow> \<exists>r. fl x = JFloat r \<or> fl x = JNonFinite r"
  by (drule spec [where x = x, OF float_reader_def [THEN iffD1]]) (auto split: json.splits)

text \<open>The strict reader always decides: its recursion never runs out of fuel, whatever the
  text.\<close>

theorem strict_json_decides: "strict_json fl s \<noteq> Inl out_of_fuel"
  using parse_value_fuel [of "skip_ws s" "json_fuel (skip_ws s)" fl]
  by (auto simp: strict_json_def json_fuel_def bind_r_Inl_iff decode_error_def out_of_fuel_def split: if_splits)

text \<open>Duplicate keys never get through the strict reader: in every value it returns, each
  object at every depth has distinct keys, since float literals read as floats.\<close>

theorem strict_json_distinct_keys:
  assumes "\<And>x. \<exists>r. fl x = JFloat r \<or> fl x = JNonFinite r" and "strict_json fl s = Inr v"
  shows "distinct_keys v"
  using strict_json_distinct [OF assms] .

theorem strict_json_distinct_keys_witness:
  "distinct_keys (JObj [(''k'', JArr [JInt 1, JBool False])])"
proof -
  let ?v = "JObj [(''k'', JArr [JInt 1, JBool False])]"
  have "strict_json JFloat (dumps ?v) = Inr ?v" using strict_json_dumps [of JFloat ?v] by simp
  then show ?thesis using strict_json_distinct_keys [of JFloat "dumps ?v" ?v] by simp
qed

end
