(* ===== verification/Core.thy ===== *)
theory Core
  imports Dag Json_Roundtrip
begin

text \<open>
  The contracts of \<open>src/residual/core.py\<close>: identifiers, artifacts and their line excerpts,
  obligations, tasks with their dependency graph, the evidence context of a verifier, the
  plugin registry, JSON pointers and the built-in checks and solvers.

  Constructors are functions from the fields to a result: the checks of \<open>__post_init__\<close> in
  their order, then the record. Fields have the types the dataclasses declare, so the
  \<open>isinstance\<close> guards on them hold by typing and are not repeated.
\<close>

section \<open>Identifiers and integers\<close>

definition ident_char :: "char \<Rightarrow> bool" where
  "ident_char c = (is_letter c \<or> is_digit c \<or> c = CHR ''_'' \<or> c = CHR ''.'' \<or> c = CHR ''-'')"

fun ident_ok :: "string \<Rightarrow> bool" where
  "ident_ok [] = False"
| "ident_ok (c # cs) = (is_letter c \<and> list_all ident_char cs \<and> length cs \<le> 95)"

definition mk_identifier :: "string \<Rightarrow> string result" where
  "mk_identifier s = (if ident_ok s then Inr s else Inl (ContractError ''invalid identifier''))"

definition positive_int :: "json \<Rightarrow> string \<Rightarrow> bool \<Rightarrow> int result" where
  "positive_int v name allow_zero =
     (case v of
        JInt i \<Rightarrow>
          if i < (if allow_zero then 0 else 1)
          then Inl (ContractError (name @ '' must be a '' @
            (if allow_zero then ''nonnegative'' else ''positive'') @ '' integer''))
          else Inr i
      | _ \<Rightarrow> Inl (ContractError (name @ '' must be a '' @
            (if allow_zero then ''nonnegative'' else ''positive'') @ '' integer'')))"

section \<open>Artifacts\<close>

record artifact =
  art_id :: string
  art_text :: string
  art_cloud :: bool

definition mk_artifact :: "string \<Rightarrow> string \<Rightarrow> bool \<Rightarrow> artifact result" where
  "mk_artifact i t c = bind_r (mk_identifier i) (\<lambda>_. Inr \<lparr>art_id = i, art_text = t, art_cloud = c\<rparr>)"

definition art_sha256 :: "(string \<Rightarrow> string) \<Rightarrow> artifact \<Rightarrow> string" where
  "art_sha256 H a = H (art_text a)"

text \<open>\<open>str.splitlines(keepends=True)\<close>; \<open>cur\<close> is the current line, reversed. The line
  boundaries are LF, VT, FF, CR, CR LF, FS, GS, RS and U+0085, U+2028, U+2029.\<close>

definition break_len :: "string \<Rightarrow> nat" where
  "break_len s =
     (if take 2 s = [CHR 0x0D, CHR 0x0A] \<or> take 2 s = [CHR 0xC2, CHR 0x85] then 2
      else if take 3 s = [CHR 0xE2, CHR 0x80, CHR 0xA8] \<or> take 3 s = [CHR 0xE2, CHR 0x80, CHR 0xA9] then 3
      else if s \<noteq> [] \<and> hd s \<in> {CHR 0x0A, CHR 0x0B, CHR 0x0C, CHR 0x0D, CHR 0x1C, CHR 0x1D, CHR 0x1E} then 1
      else 0)"

fun splitlines :: "string \<Rightarrow> string \<Rightarrow> string list" where
  "splitlines cur [] = (if cur = [] then [] else [rev cur])"
| "splitlines cur (a # s) =
     (let n = break_len (a # s) in
      if n = 0 then splitlines (a # cur) s
      else (rev cur @ take n (a # s)) # splitlines [] (drop n (a # s)))"

definition art_lines :: "artifact \<Rightarrow> string list" where
  "art_lines a = (let ls = splitlines [] (art_text a) in if ls = [] then [[]] else ls)"

definition excerpt_text :: "artifact \<Rightarrow> int \<Rightarrow> int \<Rightarrow> string" where
  "excerpt_text a start stop =
     concat (take (nat (stop - start + 1)) (drop (nat (start - 1)) (art_lines a)))"

definition excerpt :: "(string \<Rightarrow> string) \<Rightarrow> artifact \<Rightarrow> int \<Rightarrow> int \<Rightarrow> json result" where
  "excerpt H a start stop =
     bind_r (positive_int (JInt start) ''start_line'' False) (\<lambda>_.
     bind_r (positive_int (JInt stop) ''end_line'' False) (\<lambda>_.
     if stop < start \<or> stop > int (length (art_lines a))
     then Inl (ContractError ''evidence window outside artifact'')
     else
       (let text = excerpt_text a start stop in
        Inr (JObj [(''artifact_id'', JStr (art_id a)), (''artifact_sha256'', JStr (art_sha256 H a)),
          (''start_line'', JInt start), (''end_line'', JInt stop), (''text'', JStr text),
          (''excerpt_sha256'', JStr (H text))]))))"

section \<open>Obligations and tasks\<close>

record obligation =
  ob_id :: string
  instruction :: string
  ob_check :: string
  ob_evidence :: "string list"
  depends_on :: "string list"
  parameters :: json
  ob_solver :: "string option"
  ob_cloud :: bool

definition verifier_name_ok :: "string \<Rightarrow> unit result" where
  "verifier_name_ok name =
     bind_r (iter_r (\<lambda>part. bind_r (mk_identifier part) (\<lambda>_. Inr ())) (split_on (CHR '':'') name)) (\<lambda>_.
     ensure (count_list name (CHR '':'') \<le> 1) (ContractError ''invalid verifier name''))"

definition mk_obligation :: "obligation \<Rightarrow> obligation result" where
  "mk_obligation ob =
     bind_r (mk_identifier (ob_id ob)) (\<lambda>_.
     bind_r (verifier_name_ok (ob_check ob)) (\<lambda>_.
     bind_r (ensure (\<not> blank (instruction ob)) (ContractError ''obligation requires an instruction'')) (\<lambda>_.
     bind_r (ensure (is_dict (parameters ob)) (ContractError ''obligation cloud/parameters types are invalid'')) (\<lambda>_.
     bind_r (canonical (parameters ob)) (\<lambda>_.
     bind_r (ensure (distinct (ob_evidence ob) \<and> distinct (depends_on ob))
       (ContractError ''duplicate obligation dependencies'')) (\<lambda>_.
     Inr ob))))))"

record task =
  task_id :: string
  task_goal :: string
  artifacts :: "(string, artifact) dict"
  obligations :: "obligation list"
  task_structure :: "string option"

definition ob_deps :: "obligation list \<Rightarrow> string deps" where
  "ob_deps obs = map (\<lambda>ob. (ob_id ob, depends_on ob)) obs"

definition mk_task :: "task \<Rightarrow> task result" where
  "mk_task t =
     bind_r (mk_identifier (task_id t)) (\<lambda>_.
     bind_r (ensure (\<not> blank (task_goal t) \<and> obligations t \<noteq> [])
       (ContractError ''task requires a goal and obligations'')) (\<lambda>_.
     let ids = map ob_id (obligations t) in
     bind_r (ensure (distinct ids) (ContractError ''duplicate obligation id'')) (\<lambda>_.
     bind_r (iter_r (\<lambda>(key, a). ensure (key = art_id a) (ContractError ''artifact key/id mismatch''))
       (artifacts t)) (\<lambda>_.
     bind_r (ensure (case task_structure t of None \<Rightarrow> True | Some s \<Rightarrow> s \<in> fst ` set (artifacts t))
       (ContractError ''unknown structural artifact'')) (\<lambda>_.
     bind_r (iter_r (\<lambda>ob. ensure (set (ob_evidence ob) \<subseteq> fst ` set (artifacts t) \<and> set (depends_on ob) \<subseteq> set ids)
       (ContractError ''unknown artifact or dependency'')) (obligations t)) (\<lambda>_.
     bind_r (ensure (resolve_layers (ob_deps (obligations t)) {})
       (ContractError ''obligation dependency cycle'')) (\<lambda>_.
     Inr t)))))))"

definition by_id :: "task \<Rightarrow> (string, obligation) dict" where
  "by_id t = map (\<lambda>ob. (ob_id ob, ob)) (obligations t)"

text \<open>\<open>all(...)\<close> over a generator of recursive calls, left to right with short circuit; \<open>None\<close>
  is a call that did not return.\<close>

fun all_calls :: "bool option list \<Rightarrow> bool option" where
  "all_calls [] = Some True"
| "all_calls (None # bs) = None"
| "all_calls (Some b # bs) = (if b then all_calls bs else Some False)"

definition evidence_public :: "task \<Rightarrow> obligation \<Rightarrow> bool" where
  "evidence_public t ob =
     list_all (\<lambda>a. case map_of (artifacts t) a of Some x \<Rightarrow> art_cloud x | None \<Rightarrow> False) (ob_evidence ob)"

text \<open>\<open>Task.cloud_allowed\<close> recurses along the dependencies; the fuel bounds the depth of the
  recursion and the number of obligations is always enough (\<open>cloud_fuel_enough\<close>).\<close>

fun cloud_fuel :: "nat \<Rightarrow> task \<Rightarrow> string \<Rightarrow> bool option" where
  "cloud_fuel 0 t n = None"
| "cloud_fuel (Suc k) t n =
     (case map_of (by_id t) n of
        None \<Rightarrow> None
      | Some ob \<Rightarrow>
          if ob_cloud ob \<and> evidence_public t ob
          then all_calls (map (cloud_fuel k t) (depends_on ob)) else Some False)"

definition cloud_allowed :: "task \<Rightarrow> string \<Rightarrow> bool" where
  "cloud_allowed t n = (cloud_fuel (length (obligations t)) t n = Some True)"

section \<open>Verdicts, contexts and the registry\<close>

datatype status = Pass | Fail | Unknown

record verdict =
  v_status :: status
  v_code :: string
  v_message :: string

definition passed :: verdict where
  "passed = \<lparr>v_status = Pass, v_code = ''contract_satisfied'', v_message = []\<rparr>"

definition fail :: "string \<Rightarrow> string \<Rightarrow> verdict" where
  "fail code msg = \<lparr>v_status = Fail, v_code = code, v_message = msg\<rparr>"

record check_context =
  ctx_obligation :: obligation
  ctx_artifacts :: "(string, artifact) dict"
  ctx_accepted :: "(string, json) dict"

definition ctx_evidence :: "check_context \<Rightarrow> string \<Rightarrow> string result" where
  "ctx_evidence ctx a =
     (if a \<notin> set (ob_evidence (ctx_obligation ctx))
      then Inl (ContractError ''verifier accessed undeclared evidence'')
      else bind_r (dict_get (ctx_artifacts ctx) a) (\<lambda>x. Inr (art_text x)))"

definition ctx_dependency :: "(string \<Rightarrow> json) \<Rightarrow> check_context \<Rightarrow> string \<Rightarrow> json result" where
  "ctx_dependency fl ctx n =
     (if n \<notin> set (depends_on (ctx_obligation ctx))
      then Inl (ContractError ''verifier accessed undeclared dependency'')
      else bind_r (dict_get (ctx_accepted ctx) n) (\<lambda>v. bind_r (canonical v) (strict_json fl)))"

text \<open>A check is host code: it returns a verdict, something that is not a verdict (\<open>None\<close>), or
  raises. A solver returns a candidate value or raises.\<close>

type_synonym check = "json \<Rightarrow> check_context \<Rightarrow> verdict option result"
type_synonym solver = "check_context \<Rightarrow> json result"

datatype check_type = Mechanical | Structural | Judge

text \<open>A verifier identity is represented by its effective revision.\<close>

record registry =
  reg_checks :: "(string, string \<times> check) dict"
  reg_identities :: "(string, string \<times> check_type) dict"
  reg_solvers :: "(string, solver) dict"

definition empty_registry :: registry where
  "empty_registry = \<lparr>reg_checks = [], reg_identities = [], reg_solvers = []\<rparr>"

definition register_check ::
  "registry \<Rightarrow> string \<Rightarrow> check \<Rightarrow> string \<Rightarrow> string option \<Rightarrow> check_type \<Rightarrow> registry result" where
  "register_check reg name f revision identity ct =
     bind_r (verifier_name_ok name) (\<lambda>_.
     bind_r (ensure (name \<notin> fst ` set (reg_checks reg) \<and> revision \<noteq> [])
       (ContractError ''duplicate check or missing revision'')) (\<lambda>_.
     Inr (reg\<lparr>reg_identities := (case identity of None \<Rightarrow> reg_identities reg
                 | Some i \<Rightarrow> AList.update name (i, ct) (reg_identities reg)),
              reg_checks := AList.update name (revision, f) (reg_checks reg)\<rparr>)))"

definition register_solver :: "registry \<Rightarrow> string \<Rightarrow> solver \<Rightarrow> registry result" where
  "register_solver reg name f =
     bind_r (mk_identifier name) (\<lambda>_.
     bind_r (ensure (name \<notin> fst ` set (reg_solvers reg)) (ContractError ''duplicate solver'')) (\<lambda>_.
     Inr (reg\<lparr>reg_solvers := AList.update name f (reg_solvers reg)\<rparr>)))"

section \<open>Artifacts: lines and excerpts\<close>

lemma concat_splitlines: "concat (splitlines cur s) = rev cur @ s"
  by (induction cur s rule: splitlines.induct) (auto simp: Let_def)

lemma concat_art_lines: "concat (art_lines a) = art_text a"
  using concat_splitlines [of "[]" "art_text a"] by (auto simp: art_lines_def Let_def)

lemma art_lines_nonempty [simp]: "art_lines a \<noteq> []"
  by (simp add: art_lines_def Let_def)

lemma excerpt_ok:
  assumes "1 \<le> start" "start \<le> stop" "stop \<le> int (length (art_lines a))"
  shows "\<exists>v. excerpt H a start stop = Inr v"
  using assms by (simp add: excerpt_def positive_int_def Let_def)

lemma excerpt_Inr_iff:
  "(\<exists>v. excerpt H a start stop = Inr v) \<longleftrightarrow>
     1 \<le> start \<and> start \<le> stop \<and> stop \<le> int (length (art_lines a))"
  by (auto simp: excerpt_def positive_int_def Let_def split: if_splits)

lemma excerpt_text_split:
  assumes "1 \<le> start" "start \<le> mid" "mid < stop"
  shows "excerpt_text a start stop = excerpt_text a start mid @ excerpt_text a (mid + 1) stop"
proof -
  let ?d = "drop (nat (start - 1)) (art_lines a)"
  have n: "nat (stop - start + 1) = nat (mid - start + 1) + nat (stop - (mid + 1) + 1)"
    "nat ((mid + 1) - 1) = nat (mid - start + 1) + nat (start - 1)" using assms by auto
  then have "take (nat (stop - start + 1)) ?d
      = take (nat (mid - start + 1)) ?d @ take (nat (stop - (mid + 1) + 1)) (drop (nat (mid - start + 1)) ?d)"
    by (simp add: take_add)
  moreover have "drop (nat (mid - start + 1)) ?d = drop (nat ((mid + 1) - 1)) (art_lines a)"
    by (simp only: n drop_drop)
  ultimately show ?thesis by (simp add: excerpt_text_def)
qed

lemma excerpt_text_all: "excerpt_text a 1 (int (length (art_lines a))) = art_text a"
  by (simp add: excerpt_text_def concat_art_lines)

section \<open>Tasks\<close>

text \<open>What every constructed task satisfies.\<close>

definition valid_task :: "task \<Rightarrow> bool" where
  "valid_task t =
     (ident_ok (task_id t) \<and> \<not> blank (task_goal t) \<and> obligations t \<noteq> []
      \<and> (\<forall>(k, a)\<in>set (artifacts t). k = art_id a)
      \<and> (case task_structure t of None \<Rightarrow> True | Some s \<Rightarrow> s \<in> fst ` set (artifacts t))
      \<and> (\<forall>ob\<in>set (obligations t). set (ob_evidence ob) \<subseteq> fst ` set (artifacts t))
      \<and> closed_deps (ob_deps (obligations t))
      \<and> acyclic (dep_rel (ob_deps (obligations t))))"

lemma ob_deps_keys: "map fst (ob_deps obs) = map ob_id obs"
  by (simp add: ob_deps_def comp_def)

lemma closed_ob_deps:
  "closed_deps (ob_deps obs) \<longleftrightarrow>
     distinct (map ob_id obs) \<and> (\<forall>ob\<in>set obs. set (depends_on ob) \<subseteq> ob_id ` set obs)"
proof -
  have "fst ` set (ob_deps obs) = ob_id ` set obs" by (auto simp: ob_deps_def image_image)
  then show ?thesis by (auto simp: closed_deps_def ob_deps_keys) (auto simp: ob_deps_def)
qed

lemma mk_identifier_ok [result_simps]: "mk_identifier s = Inr x \<longleftrightarrow> ident_ok s \<and> x = s"
  by (auto simp: mk_identifier_def)

lemma mk_task_ok: "mk_task t = Inr t' \<longleftrightarrow> t' = t \<and> valid_task t"
proof -
  have "mk_task t = Inr t' \<longleftrightarrow> t' = t \<and> ident_ok (task_id t) \<and> \<not> blank (task_goal t) \<and> obligations t \<noteq> []
      \<and> distinct (map ob_id (obligations t)) \<and> (\<forall>(k, a)\<in>set (artifacts t). k = art_id a)
      \<and> (case task_structure t of None \<Rightarrow> True | Some s \<Rightarrow> s \<in> fst ` set (artifacts t))
      \<and> (\<forall>ob\<in>set (obligations t). set (ob_evidence ob) \<subseteq> fst ` set (artifacts t)
            \<and> set (depends_on ob) \<subseteq> ob_id ` set (obligations t))
      \<and> resolve_layers (ob_deps (obligations t)) {}"
    by (auto simp: mk_task_def result_simps Let_def case_prod_beta)
  also have "\<dots> \<longleftrightarrow> t' = t \<and> valid_task t"
    by (auto simp: valid_task_def closed_ob_deps resolve_layers_iff_acyclic)
  finally show ?thesis .
qed

lemma map_of_by_id:
  "distinct (map ob_id (obligations t)) \<Longrightarrow> map_of (by_id t) n = Some ob \<longleftrightarrow> ob \<in> set (obligations t) \<and> ob_id ob = n"
proof -
  assume d: "distinct (map ob_id (obligations t))"
  have "map fst (by_id t) = map ob_id (obligations t)" by (simp add: by_id_def comp_def)
  with d have "map_of (by_id t) n = Some ob \<longleftrightarrow> (n, ob) \<in> set (by_id t)"
    by (metis map_of_eq_Some_iff)
  then show ?thesis by (auto simp: by_id_def)
qed

lemma valid_taskD:
  assumes "valid_task t"
  shows "distinct (map ob_id (obligations t))" "closed_deps (ob_deps (obligations t))"
    "acyclic (dep_rel (ob_deps (obligations t)))"
  using assms by (auto simp: valid_task_def closed_ob_deps)

lemma by_id_ex:
  "valid_task t \<Longrightarrow> n \<in> ob_id ` set (obligations t) \<Longrightarrow> \<exists>ob. map_of (by_id t) n = Some ob"
  using map_of_by_id valid_taskD(1) by (metis imageE)

lemma dep_rel_by_id:
  assumes "valid_task t"
  shows "(d, n) \<in> dep_rel (ob_deps (obligations t)) \<longleftrightarrow> (\<exists>ob. map_of (by_id t) n = Some ob \<and> d \<in> set (depends_on ob))"
  using map_of_by_id [OF valid_taskD(1) [OF assms]] by (auto simp: dep_rel_def ob_deps_def)

lemma depends_on_known:
  "valid_task t \<Longrightarrow> map_of (by_id t) n = Some ob \<Longrightarrow> d \<in> set (depends_on ob) \<Longrightarrow> d \<in> ob_id ` set (obligations t)"
  using map_of_by_id [OF valid_taskD(1)] by (fastforce simp: valid_task_def closed_ob_deps)

section \<open>Cloud permission\<close>

definition public_node :: "task \<Rightarrow> string \<Rightarrow> bool" where
  "public_node t n = (case map_of (by_id t) n of None \<Rightarrow> False | Some ob \<Rightarrow> ob_cloud ob \<and> evidence_public t ob)"

lemma all_calls_None: "all_calls bs = None \<Longrightarrow> None \<in> set bs"
  by (induction bs rule: all_calls.induct) (auto split: if_splits)

lemma all_calls_Some: "all_calls bs = Some b \<Longrightarrow> b \<longleftrightarrow> (\<forall>x\<in>set bs. x = Some True)"
  by (induction bs rule: all_calls.induct) (auto split: if_splits)

lemma cloud_fuel_chain:
  assumes "valid_task t" and "n \<in> ob_id ` set (obligations t)" and "cloud_fuel k t n = None"
  shows "\<exists>x. (x, n) \<in> dep_rel (ob_deps (obligations t)) ^^ k"
  using assms(2,3)
proof (induction k arbitrary: n)
  case 0
  then show ?case by auto
next
  case (Suc k)
  obtain ob where ob: "map_of (by_id t) n = Some ob" using by_id_ex assms(1) Suc.prems(1) by blast
  with Suc.prems(2) have "None \<in> set (map (cloud_fuel k t) (depends_on ob))"
    by (intro all_calls_None) (auto split: if_splits)
  then obtain d where d: "d \<in> set (depends_on ob)" "cloud_fuel k t d = None" by auto
  have "d \<in> ob_id ` set (obligations t)" using depends_on_known [OF assms(1) ob] d by blast
  then obtain x where "(x, d) \<in> dep_rel (ob_deps (obligations t)) ^^ k" using Suc.IH d by blast
  moreover have "(d, n) \<in> dep_rel (ob_deps (obligations t))" using dep_rel_by_id [OF assms(1)] ob d by blast
  ultimately show ?case by auto
qed

lemma cloud_fuel_enough:
  assumes "valid_task t" and "n \<in> ob_id ` set (obligations t)"
  shows "\<exists>b. cloud_fuel (length (obligations t)) t n = Some b"
proof (rule ccontr)
  assume "\<nexists>b. cloud_fuel (length (obligations t)) t n = Some b"
  then have "cloud_fuel (length (obligations t)) t n = None" by (cases "cloud_fuel (length (obligations t)) t n") auto
  then obtain x where x: "(x, n) \<in> dep_rel (ob_deps (obligations t)) ^^ length (obligations t)"
    using cloud_fuel_chain assms by blast
  have "0 < length (obligations t)" using assms(2) by auto
  then have "length (obligations t) < length (ob_deps (obligations t))"
    using chain_length_bound [OF valid_taskD(2,3) [OF assms(1)] x] by blast
  then show False by (simp add: ob_deps_def)
qed

lemma all_calls_False: "all_calls bs = Some False \<Longrightarrow> Some False \<in> set bs"
  by (induction bs rule: all_calls.induct) (auto split: if_splits)

lemma dep_reach:
  assumes "valid_task t" and "map_of (by_id t) n = Some ob"
  shows "(m, n) \<in> (dep_rel (ob_deps (obligations t)))\<^sup>* \<longleftrightarrow>
    m = n \<or> (\<exists>d\<in>set (depends_on ob). (m, d) \<in> (dep_rel (ob_deps (obligations t)))\<^sup>*)"
  using dep_rel_by_id [OF assms(1), of _ n] assms(2)
  by (auto elim: rtranclE intro: rtrancl_into_rtrancl)

lemma dep_reach_all:
  assumes "valid_task t" and "map_of (by_id t) n = Some ob"
  shows "(\<forall>m. (m, n) \<in> (dep_rel (ob_deps (obligations t)))\<^sup>* \<longrightarrow> P m) \<longleftrightarrow>
    P n \<and> (\<forall>d\<in>set (depends_on ob). \<forall>m. (m, d) \<in> (dep_rel (ob_deps (obligations t)))\<^sup>* \<longrightarrow> P m)"
  by (simp only: dep_reach [OF assms]) blast

lemma cloud_fuel_meaning:
  assumes "valid_task t"
  shows "cloud_fuel k t n = Some b \<Longrightarrow>
    b \<longleftrightarrow> (\<forall>m. (m, n) \<in> (dep_rel (ob_deps (obligations t)))\<^sup>* \<longrightarrow> public_node t m)"
proof (induction k arbitrary: n b)
  case 0
  then show ?case by simp
next
  case (Suc k)
  let ?R = "dep_rel (ob_deps (obligations t))"
  obtain ob where ob: "map_of (by_id t) n = Some ob" using Suc.prems by (auto split: option.splits)
  note reach = dep_reach_all [OF assms ob, of "public_node t"]
  show ?case
  proof (cases "ob_cloud ob \<and> evidence_public t ob")
    case False
    then have "\<not> b" "\<not> public_node t n" using Suc.prems ob by (auto simp: public_node_def)
    then show ?thesis by auto
  next
    case True
    then have all: "all_calls (map (cloud_fuel k t) (depends_on ob)) = Some b"
      and pub: "public_node t n" using Suc.prems ob by (simp_all add: public_node_def)
    show ?thesis
    proof (cases b)
      case True
      then have "\<forall>d\<in>set (depends_on ob). cloud_fuel k t d = Some True" using all_calls_Some [OF all] by simp
      then have "\<forall>d\<in>set (depends_on ob). \<forall>m. (m, d) \<in> ?R\<^sup>* \<longrightarrow> public_node t m" using Suc.IH by metis
      with True pub show ?thesis by (simp add: reach)
    next
      case False
      then obtain d where "d \<in> set (depends_on ob)" "cloud_fuel k t d = Some False"
        using all all_calls_False by fastforce
      then have "\<not> (\<forall>d\<in>set (depends_on ob). \<forall>m. (m, d) \<in> ?R\<^sup>* \<longrightarrow> public_node t m)" using Suc.IH by metis
      with False show ?thesis by (simp add: reach)
    qed
  qed
qed

lemma cloud_allowed_meaning:
  assumes "valid_task t" and "n \<in> ob_id ` set (obligations t)"
  shows "cloud_allowed t n \<longleftrightarrow>
    (\<forall>m. (m, n) \<in> (dep_rel (ob_deps (obligations t)))\<^sup>* \<longrightarrow> public_node t m)"
  using cloud_fuel_enough [OF assms] cloud_fuel_meaning [OF assms(1), of "length (obligations t)" n]
  by (auto simp: cloud_allowed_def)

text \<open>The recursion equation of the source.\<close>

lemma cloud_allowed_rec:
  assumes "valid_task t" and "map_of (by_id t) n = Some ob"
  shows "cloud_allowed t n \<longleftrightarrow>
    ob_cloud ob \<and> evidence_public t ob \<and> (\<forall>d\<in>set (depends_on ob). cloud_allowed t d)"
proof -
  have n: "n \<in> ob_id ` set (obligations t)"
    using map_of_by_id [OF valid_taskD(1) [OF assms(1)], of n ob] assms(2) by auto
  have "cloud_allowed t n \<longleftrightarrow> public_node t n \<and> (\<forall>d\<in>set (depends_on ob). \<forall>m.
      (m, d) \<in> (dep_rel (ob_deps (obligations t)))\<^sup>* \<longrightarrow> public_node t m)"
    unfolding cloud_allowed_meaning [OF assms(1) n] by (rule dep_reach_all [OF assms])
  also have "\<dots> \<longleftrightarrow> public_node t n \<and> (\<forall>d\<in>set (depends_on ob). cloud_allowed t d)"
    using depends_on_known [OF assms] by (simp add: cloud_allowed_meaning [OF assms(1)])
  finally show ?thesis using assms(2) by (simp add: public_node_def)
qed

section \<open>Properties\<close>


text \<open>C3. For a constructed task the recursive permission check returns, satisfies the source's
  recursion equation, and allows an obligation to leave the host exactly when the obligation
  and everything it transitively depends on is exportable with exportable evidence.\<close>

theorem cloud_allowed_correct:
  assumes "mk_task t = Inr t'" and "map_of (by_id t) n = Some ob"
  shows "cloud_fuel (length (obligations t)) t n = Some (cloud_allowed t n)
    \<and> (cloud_allowed t n \<longleftrightarrow>
         ob_cloud ob \<and> evidence_public t ob \<and> (\<forall>d\<in>set (depends_on ob). cloud_allowed t d))
    \<and> (cloud_allowed t n \<longleftrightarrow>
         (\<forall>m. (m, n) \<in> (dep_rel (ob_deps (obligations t)))\<^sup>* \<longrightarrow> public_node t m))"
proof -
  have v: "valid_task t" using assms(1) by (simp add: mk_task_ok)
  have n: "n \<in> ob_id ` set (obligations t)"
    using map_of_by_id [OF valid_taskD(1) [OF v], of n ob] assms(2) by auto
  show ?thesis
    using cloud_fuel_enough [OF v n] cloud_allowed_rec [OF v assms(2)] cloud_allowed_meaning [OF v n]
    by (auto simp: cloud_allowed_def)
qed

definition sample_obligation :: "string \<Rightarrow> string list \<Rightarrow> string list \<Rightarrow> obligation" where
  "sample_obligation i ev ds = \<lparr>ob_id = i, instruction = ''do'', ob_check = ''json_value'',
     ob_evidence = ev, depends_on = ds, parameters = JObj [], ob_solver = None, ob_cloud = True\<rparr>"

definition sample_task :: task where
  "sample_task = \<lparr>task_id = ''t'', task_goal = ''g'',
     artifacts = [(''pub'', \<lparr>art_id = ''pub'', art_text = ''x'', art_cloud = True\<rparr>),
                  (''priv'', \<lparr>art_id = ''priv'', art_text = ''y'', art_cloud = False\<rparr>)],
     obligations = [sample_obligation ''a'' [''priv''] [], sample_obligation ''b'' [''pub''] [],
                    sample_obligation ''c'' [''pub''] [''a'', ''b'']],
     task_structure = None\<rparr>"

lemma sample_task_ok: "mk_task sample_task = Inr sample_task"
  by (simp add: mk_task_def sample_task_def sample_obligation_def mk_identifier_def is_letter_def
      is_lower_def is_upper_def ident_char_def ascii_space_def Let_def ob_deps_def resolve_layers.simps
      ready_set_def insert_commute)

theorem cloud_allowed_correct_witness:
  "mk_task sample_task = Inr sample_task \<and> \<not> cloud_allowed sample_task ''a''
   \<and> cloud_allowed sample_task ''b'' \<and> \<not> cloud_allowed sample_task ''c''"
  using cloud_allowed_correct [OF sample_task_ok, of "''a''" "sample_obligation ''a'' [''priv''] []"]
    cloud_allowed_correct [OF sample_task_ok, of "''b''" "sample_obligation ''b'' [''pub''] []"]
    cloud_allowed_correct [OF sample_task_ok, of "''c''" "sample_obligation ''c'' [''pub''] [''a'', ''b'']"]
  by (simp add: sample_task_ok)
    (simp add: sample_task_def sample_obligation_def by_id_def evidence_public_def)

text \<open>Excerpts tile the artifact: an excerpt is granted exactly for a non-empty window of
  existing lines, and the windows before and after any line boundary concatenate to the
  whole text, whatever line separators it uses.\<close>

theorem excerpts_tile_artifact:
  fixes a :: artifact
  assumes "1 \<le> m" and "m < int (length (art_lines a))"
  shows "excerpt_text a 1 m @ excerpt_text a (m + 1) (int (length (art_lines a))) = art_text a
    \<and> (\<exists>v. excerpt H a 1 m = Inr v) \<and> \<not> (\<exists>v. excerpt H a m (int (length (art_lines a)) + 1) = Inr v)"
  using assms excerpt_text_split [of 1 m "int (length (art_lines a))" a]
  by (simp add: excerpt_text_all excerpt_Inr_iff)

theorem excerpts_tile_artifact_witness:
  "let a = \<lparr>art_id = ''log'', art_text = ''x'' @ [newline] @ ''yz'', art_cloud = False\<rparr> in
   excerpt_text a 1 1 @ excerpt_text a 2 2 = art_text a"
proof -
  let ?a = "\<lparr>art_id = ''log'', art_text = ''x'' @ [newline] @ ''yz'', art_cloud = False\<rparr>"
  have "art_lines ?a = [''x'' @ [newline], ''yz'']"
    by (simp add: art_lines_def break_len_def)
  then show ?thesis using excerpts_tile_artifact [of 1 ?a id] by (simp add: Let_def)
qed

end
