(* ===== verification/Goal_Spec.thy ===== *)
theory Goal_Spec
  imports Core
begin

text \<open>
  Goal specifications, \<open>src/residual/goalspec.py\<close>: success criteria, amendment rules, the frozen
  specification with its content hash, and amendment. Constructors are functions to a result, as in
  \<open>Core\<close>; \<open>freeze\<close> (\<open>src/observation_layer/core.py\<close>) keeps the value and refuses non-finite
  numbers. The wall clock budget is a JSON number.
\<close>

section \<open>Criteria and amendment rules\<close>

record criterion =
  cr_name :: string
  cr_type :: check_type
  cr_description :: string
  cr_evaluator :: string
  cr_parameters :: json

definition freeze :: "json \<Rightarrow> json result" where
  "freeze v = (if finite_json v then Inr v
     else Inl (ValueError ''Observation must contain finite JSON values''))"

definition mk_criterion :: "criterion \<Rightarrow> criterion result" where
  "mk_criterion c =
     bind_r (mk_identifier (cr_name c)) (\<lambda>_.
     bind_r (ensure (\<not> blank (cr_description c)) (ContractError ''criterion requires a description'')) (\<lambda>_.
     bind_r (ensure (\<not> blank (cr_evaluator c)) (ContractError ''criterion requires an evaluator reference'')) (\<lambda>_.
     bind_r (ensure (is_dict (cr_parameters c) \<and> is_ok (freeze (cr_parameters c)))
       (ContractError ''criterion parameters must be finite JSON object values'')) (\<lambda>_.
     Inr c))))"

record amendment_rule =
  authorized_roles :: "string list"
  max_amendments :: int

definition mk_amendment_rule :: "amendment_rule \<Rightarrow> amendment_rule result" where
  "mk_amendment_rule r =
     bind_r (ensure (authorized_roles r \<noteq> [])
       (ContractError ''amendment rule requires at least one authorized role'')) (\<lambda>_.
     bind_r (iter_r (\<lambda>x. bind_r (mk_identifier x) (\<lambda>_. Inr ())) (authorized_roles r)) (\<lambda>_.
     bind_r (positive_int (JInt (max_amendments r)) ''max_amendments'' False) (\<lambda>_.
     Inr r)))"

section \<open>The specification\<close>

record goal_spec =
  goal_id :: string
  objective :: string
  success_criteria :: "criterion list"
  max_passes :: int
  token_budget :: int
  wall_clock_budget :: json
  gs_rule :: amendment_rule
  schema_version :: string
  amendment_count :: int
  parent_hash :: "string option"
  amendment_reason :: "string option"
  amended_by :: "string option"

text \<open>\<open>x > 0\<close> for a finite number: a float's sign and zero show in its \<open>repr\<close>.\<close>

fun num_positive :: "json \<Rightarrow> bool" where
  "num_positive (JInt i) = (i > 0)"
| "num_positive (JFloat r) = (take 1 r \<noteq> ''-'' \<and> r \<noteq> ''0.0'')"
| "num_positive _ = False"

definition version_ok :: "string \<Rightarrow> bool" where
  "version_ok v = (let ps = split_on (CHR ''.'') v in
     length ps = 3 \<and> list_all (\<lambda>p. p \<noteq> [] \<and> list_all is_digit p) ps)"

fun order_index :: "check_type \<Rightarrow> nat" where
  "order_index Mechanical = 0"
| "order_index Structural = 1"
| "order_index Judge = 2"

definition amendment_metadata_ok :: "goal_spec \<Rightarrow> unit result" where
  "amendment_metadata_ok g =
     (if amendment_count g \<noteq> 0 then
        bind_r (ensure (case parent_hash g of None \<Rightarrow> False | Some h \<Rightarrow> hex64 h)
          (ContractError ''amended spec requires its parent hash'')) (\<lambda>_.
        ensure ((case amendment_reason g of None \<Rightarrow> False | Some r \<Rightarrow> \<not> blank r)
            \<and> (case amended_by g of None \<Rightarrow> False | Some r \<Rightarrow> r \<in> set (authorized_roles (gs_rule g))))
          (ContractError ''amended spec requires an authorized role and reason''))
      else ensure (parent_hash g = None \<and> amendment_reason g = None \<and> amended_by g = None)
          (ContractError ''initial spec cannot carry amendment metadata''))"

definition mk_goal_spec :: "goal_spec \<Rightarrow> goal_spec result" where
  "mk_goal_spec g =
     bind_r (mk_identifier (goal_id g)) (\<lambda>_.
     bind_r (ensure (\<not> blank (objective g)) (ContractError ''goal spec requires a non-empty objective'')) (\<lambda>_.
     bind_r (ensure (success_criteria g \<noteq> []) (ContractError ''goal spec requires at least one success criterion'')) (\<lambda>_.
     bind_r (positive_int (JInt (max_passes g)) ''max_passes'' False) (\<lambda>_.
     bind_r (positive_int (JInt (token_budget g)) ''token_budget'' False) (\<lambda>_.
     bind_r (ensure (num_positive (wall_clock_budget g)) (ContractError ''wall_clock_budget_s must be positive'')) (\<lambda>_.
     bind_r (ensure (version_ok (schema_version g)) (ContractError ''schema_version must use major.minor.patch'')) (\<lambda>_.
     bind_r (positive_int (JInt (amendment_count g)) ''amendment_count'' True) (\<lambda>_.
     bind_r (ensure (amendment_count g \<le> max_amendments (gs_rule g)) (ContractError ''maximum amendments exceeded'')) (\<lambda>_.
     bind_r (amendment_metadata_ok g) (\<lambda>_.
     bind_r (ensure (sorted (map (order_index \<circ> cr_type) (success_criteria g)))
       (ContractError ''success_criteria must be ordered: mechanical before structural before judge'')) (\<lambda>_.
     bind_r (ensure (distinct (map cr_name (success_criteria g))) (ContractError ''duplicate criterion name'')) (\<lambda>_.
     Inr g))))))))))))"

fun check_type_value :: "check_type \<Rightarrow> string" where
  "check_type_value Mechanical = ''mechanical''"
| "check_type_value Structural = ''structural''"
| "check_type_value Judge = ''judge''"

definition opt_str :: "string option \<Rightarrow> json" where
  "opt_str x = (case x of None \<Rightarrow> JNull | Some s \<Rightarrow> JStr s)"

definition criterion_json :: "criterion \<Rightarrow> json" where
  "criterion_json c = JObj [(''name'', JStr (cr_name c)), (''check_type'', JStr (check_type_value (cr_type c))),
     (''description'', JStr (cr_description c)), (''evaluator'', JStr (cr_evaluator c)),
     (''parameters'', cr_parameters c)]"

definition goal_to_dict :: "goal_spec \<Rightarrow> json" where
  "goal_to_dict g = JObj
     [(''goal_id'', JStr (goal_id g)), (''objective'', JStr (objective g)),
      (''success_criteria'', JArr (map criterion_json (success_criteria g))),
      (''max_passes'', JInt (max_passes g)), (''token_budget'', JInt (token_budget g)),
      (''wall_clock_budget_s'', wall_clock_budget g), (''schema_version'', JStr (schema_version g)),
      (''amendment_rule'', JObj [(''authorized_roles'', JArr (map JStr (authorized_roles (gs_rule g)))),
                               (''max_amendments'', JInt (max_amendments (gs_rule g)))]),
      (''amendment_count'', JInt (amendment_count g)), (''parent_hash'', opt_str (parent_hash g)),
      (''amendment_reason'', opt_str (amendment_reason g)), (''amended_by'', opt_str (amended_by g))]"

definition content_hash :: "(string \<Rightarrow> string) \<Rightarrow> goal_spec \<Rightarrow> string result" where
  "content_hash H g = digest H (goal_to_dict g)"

section \<open>Amendment\<close>

record amendment =
  am_objective :: "string option"
  am_criteria :: "criterion list option"
  am_max_passes :: "int option"
  am_token_budget :: "int option"
  am_wall_clock :: "json option"
  am_reason :: string
  am_role :: string

abbreviation or_default :: "'a option \<Rightarrow> 'a \<Rightarrow> 'a" where
  "or_default x d \<equiv> (case x of None \<Rightarrow> d | Some y \<Rightarrow> y)"

text \<open>\<open>major, minor, patch = (int(x) for x in schema_version.split("."))\<close>, then the minor
  number incremented; \<open>int\<close> of digits drops leading zeros.\<close>

definition bump_minor :: "string \<Rightarrow> string result" where
  "bump_minor v =
     (if version_ok v then
        (case map (digits_val 0) (split_on (CHR ''.'') v) of
           [major, minor, patch] \<Rightarrow> Inr (nat_str major @ ''.'' @ nat_str (minor + 1) @ ''.'' @ nat_str patch)
         | _ \<Rightarrow> Inl (ValueError ''not enough values to unpack''))
      else Inl (ValueError ''invalid literal for int()''))"

definition amend :: "(string \<Rightarrow> string) \<Rightarrow> goal_spec \<Rightarrow> amendment \<Rightarrow> goal_spec result" where
  "amend H g a =
     bind_r (ensure (\<not> blank (am_reason a)) (ContractError ''amendment requires a reason'')) (\<lambda>_.
     bind_r (mk_identifier (am_role a)) (\<lambda>_.
     bind_r (ensure (am_role a \<in> set (authorized_roles (gs_rule g)))
       (ContractError ''role is not authorized to amend this spec'')) (\<lambda>_.
     bind_r (ensure (amendment_count g < max_amendments (gs_rule g)) (ContractError ''maximum amendments exceeded'')) (\<lambda>_.
     bind_r (bump_minor (schema_version g)) (\<lambda>version.
     bind_r (content_hash H g) (\<lambda>h.
     mk_goal_spec
       \<lparr>goal_id = goal_id g,
        objective = or_default (am_objective a) (objective g),
        success_criteria = or_default (am_criteria a) (success_criteria g),
        max_passes = or_default (am_max_passes a) (max_passes g),
        token_budget = or_default (am_token_budget a) (token_budget g),
        wall_clock_budget = or_default (am_wall_clock a) (wall_clock_budget g),
        gs_rule = gs_rule g, schema_version = version, amendment_count = amendment_count g + 1,
        parent_hash = Some h, amendment_reason = Some (am_reason a), amended_by = Some (am_role a)\<rparr>))))))"

section \<open>What construction guarantees\<close>

lemma positive_int_ok [result_simps]:
  "positive_int (JInt i) name z = Inr j \<longleftrightarrow> j = i \<and> (if z then 0 else 1) \<le> i"
  by (auto simp: positive_int_def)

definition valid_goal :: "goal_spec \<Rightarrow> bool" where
  "valid_goal g =
     (ident_ok (goal_id g) \<and> \<not> blank (objective g) \<and> success_criteria g \<noteq> [] \<and> 0 < max_passes g
      \<and> 0 < token_budget g \<and> num_positive (wall_clock_budget g) \<and> version_ok (schema_version g)
      \<and> 0 \<le> amendment_count g \<and> amendment_count g \<le> max_amendments (gs_rule g)
      \<and> (amendment_count g = 0 \<longleftrightarrow> parent_hash g = None)
      \<and> (amendment_count g = 0 \<longleftrightarrow> amendment_reason g = None)
      \<and> (amendment_count g = 0 \<longleftrightarrow> amended_by g = None)
      \<and> (\<forall>h. parent_hash g = Some h \<longrightarrow> hex64 h)
      \<and> (\<forall>r. amendment_reason g = Some r \<longrightarrow> \<not> blank r)
      \<and> (\<forall>r. amended_by g = Some r \<longrightarrow> r \<in> set (authorized_roles (gs_rule g)))
      \<and> sorted (map (order_index \<circ> cr_type) (success_criteria g))
      \<and> distinct (map cr_name (success_criteria g)))"

lemma amendment_metadata_ok_iff:
  "amendment_metadata_ok g = Inr u \<longleftrightarrow>
     (amendment_count g = 0 \<longleftrightarrow> parent_hash g = None) \<and> (amendment_count g = 0 \<longleftrightarrow> amendment_reason g = None)
     \<and> (amendment_count g = 0 \<longleftrightarrow> amended_by g = None) \<and> (\<forall>h. parent_hash g = Some h \<longrightarrow> hex64 h)
     \<and> (\<forall>r. amendment_reason g = Some r \<longrightarrow> \<not> blank r)
     \<and> (\<forall>r. amended_by g = Some r \<longrightarrow> r \<in> set (authorized_roles (gs_rule g)))"
  by (cases "parent_hash g"; cases "amendment_reason g"; cases "amended_by g")
    (auto simp: amendment_metadata_ok_def result_simps)

lemma mk_goal_spec_ok: "mk_goal_spec g = Inr g' \<longleftrightarrow> g' = g \<and> valid_goal g"
  by (auto simp: mk_goal_spec_def valid_goal_def result_simps amendment_metadata_ok_iff)

text \<open>A goal specification exists only if it is valid: a constructor call succeeds exactly when
  the budgets are positive, the criteria are distinctly named and ordered mechanical before
  structural before judge, the amendment count is within the rule, and the amendment metadata is
  present and authorized exactly when the specification is an amendment.\<close>

theorem mk_goal_spec_accepts_exactly_valid: "is_ok (mk_goal_spec g) \<longleftrightarrow> valid_goal g"
  using mk_goal_spec_ok [of g g] mk_goal_spec_ok [of g] by (cases "mk_goal_spec g") (auto simp: is_ok_def)

lemma version_ok_bump: "bump_minor v = Inr w \<Longrightarrow> version_ok w"
proof -
  have no_dot: "CHR ''.'' \<notin> set (nat_str n)" for n
    using nat_str_digits [of "CHR ''.''" n] by (auto simp: is_digit_def)
  have split: "split_on c (xs @ c # ys) = xs # split_on c ys" if "c \<notin> set xs" for c xs ys
    using that by (induction xs) auto
  have single: "split_on c xs = [xs]" if "c \<notin> set xs" for c and xs :: string
    using that by (induction xs) auto
  assume "bump_minor v = Inr w"
  then obtain a b c where "w = nat_str a @ ''.'' @ nat_str b @ ''.'' @ nat_str c"
    by (auto simp: bump_minor_def split: if_splits list.splits)
  then have "split_on (CHR ''.'') w = [nat_str a, nat_str b, nat_str c]"
    by (simp add: split single no_dot)
  then show ?thesis by (auto simp: version_ok_def list_all_iff nat_str_digits)
qed

lemma bump_minor_total: "version_ok v \<Longrightarrow> \<exists>w. bump_minor v = Inr w"
  by (auto simp: bump_minor_def version_ok_def Let_def length_Suc_conv numeral_3_eq_3)

lemma amend_ok:
  assumes "amend H g a = Inr g'"
  shows "valid_goal g'" "goal_id g' = goal_id g" "gs_rule g' = gs_rule g"
    "amendment_count g' = amendment_count g + 1" "amendment_count g' \<le> max_amendments (gs_rule g)"
    "\<exists>h. content_hash H g = Inr h \<and> parent_hash g' = Some h" "am_role a \<in> set (authorized_roles (gs_rule g))"
    "amendment_reason g' = Some (am_reason a)" "amended_by g' = Some (am_role a)"
  using assms by (auto simp: amend_def result_simps mk_goal_spec_ok)

lemma amends_count:
  assumes "fold_r (amend H) g as = Inr g'"
  shows "goal_id g' = goal_id g \<and> gs_rule g' = gs_rule g \<and> amendment_count g' = amendment_count g + int (length as)
    \<and> (as \<noteq> [] \<longrightarrow> valid_goal g')"
  using assms
proof (induction as arbitrary: g)
  case Nil
  then show ?case by simp
next
  case (Cons a as)
  then obtain g1 where g1: "amend H g a = Inr g1" "fold_r (amend H) g1 as = Inr g'" by (auto simp: result_simps)
  then show ?case using Cons.IH [OF g1(2)] amend_ok [OF g1(1)] by (cases as) auto
qed

text \<open>Amendments are bounded and traceable: after any sequence of successful amendments of a
  valid specification the result is valid, keeps the goal identity and the amendment rule, its
  count grew by the number of amendments and stays within \<open>max_amendments\<close>, every amending role
  was authorized, and it carries the content hash of the specification it amended last.\<close>

theorem amend_chain:
  assumes "valid_goal g" and "fold_r (amend H) g as = Inr g'"
  shows "valid_goal g' \<and> goal_id g' = goal_id g \<and> gs_rule g' = gs_rule g
    \<and> amendment_count g' = amendment_count g + int (length as)
    \<and> int (length as) \<le> max_amendments (gs_rule g) - amendment_count g
    \<and> (\<forall>a\<in>set as. am_role a \<in> set (authorized_roles (gs_rule g)) \<and> \<not> blank (am_reason a))
    \<and> (as \<noteq> [] \<longrightarrow> (\<exists>p h. fold_r (amend H) g (butlast as) = Inr p \<and> content_hash H p = Inr h \<and> parent_hash g' = Some h))"
proof -
  have count: "goal_id g' = goal_id g \<and> gs_rule g' = gs_rule g \<and> amendment_count g' = amendment_count g + int (length as)"
    and valid: "valid_goal g'"
    using amends_count [OF assms(2)] assms by (cases as; auto)+
  have roles: "\<forall>a\<in>set as. am_role a \<in> set (authorized_roles (gs_rule g)) \<and> \<not> blank (am_reason a)"
    using assms(2)
  proof (induction as arbitrary: g)
    case (Cons a as)
    then obtain g1 where g1: "amend H g a = Inr g1" "fold_r (amend H) g1 as = Inr g'" by (auto simp: result_simps)
    moreover have "am_role a \<in> set (authorized_roles (gs_rule g)) \<and> \<not> blank (am_reason a)"
      using g1(1) by (auto simp: amend_def result_simps)
    ultimately show ?case using Cons.IH [OF g1(2)] amend_ok(3) [OF g1(1)] by simp
  qed simp
  have parent: "\<exists>p h. fold_r (amend H) g (butlast as) = Inr p \<and> content_hash H p = Inr h \<and> parent_hash g' = Some h"
    if "as \<noteq> []"
  proof -
    have "fold_r (amend H) g (butlast as @ [last as]) = Inr g'" using assms(2) that by simp
    then obtain p where "fold_r (amend H) g (butlast as) = Inr p" "amend H p (last as) = Inr g'"
      by (auto simp: fold_r_append result_simps)
    then show ?thesis using amend_ok(6) by blast
  qed
  have "amendment_count g' \<le> max_amendments (gs_rule g')" using valid by (simp add: valid_goal_def)
  with count valid roles parent show ?thesis by auto
qed

definition sample_goal :: goal_spec where
  "sample_goal = \<lparr>goal_id = ''g1'', objective = ''build'',
     success_criteria = [\<lparr>cr_name = ''tests'', cr_type = Mechanical, cr_description = ''suite'',
       cr_evaluator = ''pytest'', cr_parameters = JObj []\<rparr>],
     max_passes = 3, token_budget = 100, wall_clock_budget = JInt 60,
     gs_rule = \<lparr>authorized_roles = [''owner''], max_amendments = 2\<rparr>, schema_version = ''1.0.0'',
     amendment_count = 0, parent_hash = None, amendment_reason = None, amended_by = None\<rparr>"

definition sample_amendment :: amendment where
  "sample_amendment = \<lparr>am_objective = None, am_criteria = None, am_max_passes = Some 5, am_token_budget = None,
     am_wall_clock = None, am_reason = ''scope'', am_role = ''owner''\<rparr>"

lemmas sample_text_simps = ident_char_def is_letter_def is_lower_def is_upper_def is_digit_def less_eq_char_def
  ascii_space_def version_ok_def Let_def

lemma sample_goal_valid: "valid_goal sample_goal"
  by (simp add: valid_goal_def sample_goal_def sample_text_simps)

lemma sample_goal_amends:
  "\<exists>g. amend (\<lambda>_. replicate 64 (CHR ''a'')) sample_goal sample_amendment = Inr g \<and> max_passes g = 5"
proof -
  have "hex64 (replicate 64 (CHR ''a''))" by (simp add: hex64_def list_all_iff is_digit_def less_eq_char_def)
  moreover have "bump_minor ''1.0.0'' = Inr ''1.1.0''"
    by code_simp
  ultimately show ?thesis
    by (simp add: amend_def sample_goal_def sample_amendment_def bind_ensure mk_identifier_def content_hash_def
        digest_def canonical_def goal_to_dict_def criterion_json_def opt_str_def mk_goal_spec_ok valid_goal_def
        sample_text_simps)
qed

theorem amend_chain_witness:
  "\<exists>g. fold_r (amend (\<lambda>_. replicate 64 (CHR ''a''))) sample_goal [sample_amendment] = Inr g
     \<and> amendment_count g = 1 \<and> max_passes g = 5"
proof -
  obtain g where g: "fold_r (amend (\<lambda>_. replicate 64 (CHR ''a''))) sample_goal [sample_amendment] = Inr g" "max_passes g = 5"
    using sample_goal_amends by auto
  from amend_chain [OF sample_goal_valid g(1)] have "amendment_count g = 1" by (simp add: sample_goal_def)
  with g show ?thesis by blast
qed

end
