(* ===== verification/Brakes.thy ===== *)
theory Brakes
  imports Goal_Spec
begin

text \<open>
  The brakes of \<open>src/residual/brakes.py\<close>. The four classes are the constructors of \<open>brake\<close> with
  their state; \<open>brake_update\<close> is their \<open>update\<close>. An event is a dictionary of JSON values.

  Clock readings come from a sequence \<open>clk\<close>, read at a position that every reading advances;
  \<open>over start now budget\<close> stands for Python's float comparison \<open>(now - start) / 1e9 >= budget\<close>.
  The reason of a wall-clock trip leaves out the two formatted durations.
\<close>

datatype brake_action = Continue | Escalate | Abort

record brake_trip =
  bt_name :: string
  bt_reason :: string
  bt_obs_hash :: string
  bt_action :: brake_action

type_synonym event = "(string \<times> json) list"

datatype brake =
    MaxIterationBrake goal_spec nat
  | BudgetBrake goal_spec int "int option"
  | NoProgressBrake int "json option" nat
  | CompletionBrake bool

definition obs_hash :: "(string \<Rightarrow> string) \<Rightarrow> event \<Rightarrow> string result" where
  "obs_hash H ev = digest H (JObj ev)"

definition trip :: "(string \<Rightarrow> string) \<Rightarrow> string \<Rightarrow> string \<Rightarrow> event \<Rightarrow> brake_action \<Rightarrow> brake_trip result" where
  "trip H name reason ev action =
     bind_r (obs_hash H ev) (\<lambda>h. Inr \<lparr>bt_name = name, bt_reason = reason, bt_obs_hash = h, bt_action = action\<rparr>)"

section \<open>The four brakes\<close>

definition max_iteration_update ::
  "(string \<Rightarrow> string) \<Rightarrow> goal_spec \<Rightarrow> nat \<Rightarrow> event \<Rightarrow> (brake_trip option \<times> nat) result" where
  "max_iteration_update H spec count ev =
     (if jget ev ''kind'' = JStr ''state.transition'' \<and> jget ev ''to_state'' = JStr ''pass_complete'' then
        let count' = count + 1 in
        if int count' \<ge> max_passes spec \<and> jget ev ''overall_pass'' \<noteq> JBool True
        then bind_r (trip H ''max_iteration''
          (''pass_count '' @ nat_str count' @ '' >= max_passes '' @ int_str (max_passes spec)) ev Escalate)
          (\<lambda>t. Inr (Some t, count'))
        else Inr (None, count')
      else Inr (None, count))"

text \<open>\<open>type(tokens) is not int or tokens < 0\<close> for the token count of a usage record.\<close>

fun usage_tokens :: "json \<Rightarrow> json" where
  "usage_tokens (JObj kvs) = jget kvs ''total_tokens''"
| "usage_tokens v = JNull"

fun token_count :: "json \<Rightarrow> int option" where
  "token_count (JInt n) = (if n < 0 then None else Some n)"
| "token_count _ = None"

definition wall_clock_trip ::
  "(int \<Rightarrow> int \<Rightarrow> json \<Rightarrow> bool) \<Rightarrow> (string \<Rightarrow> string) \<Rightarrow> goal_spec \<Rightarrow> int \<Rightarrow> int \<Rightarrow> event \<Rightarrow> brake_trip option result" where
  "wall_clock_trip over H spec start now ev =
     (if over start now (wall_clock_budget spec)
      then bind_r (trip H ''budget'' ''elapsed >= budget'' ev Abort) (\<lambda>t. Inr (Some t)) else Inr None)"

definition budget_update ::
  "(int \<Rightarrow> int \<Rightarrow> json \<Rightarrow> bool) \<Rightarrow> (string \<Rightarrow> string) \<Rightarrow> (nat \<Rightarrow> int) \<Rightarrow> nat \<Rightarrow> goal_spec \<Rightarrow> int \<Rightarrow> int option \<Rightarrow> event
     \<Rightarrow> (brake_trip option \<times> int \<times> int option \<times> nat) result" where
  "budget_update over H clk n spec used start ev =
     (let (start', n1) = (case start of None \<Rightarrow> (clk n, n + 1) | Some t \<Rightarrow> (t, n)) in
      if jget ev ''kind'' = JStr ''llm.response'' then
        (case token_count (usage_tokens (jget ev ''usage'')) of
           None \<Rightarrow> bind_r (trip H ''budget'' ''usage_unknown_or_invalid'' ev Abort)
             (\<lambda>t. Inr (Some t, used, Some start', n1))
         | Some tokens \<Rightarrow>
             let used' = used + tokens in
             if used' \<ge> token_budget spec
             then bind_r (trip H ''budget'' (''tokens '' @ int_str used' @ '' >= budget '' @ int_str (token_budget spec)) ev Abort)
               (\<lambda>t. Inr (Some t, used', Some start', n1))
             else bind_r (wall_clock_trip over H spec start' (clk n1) ev) (\<lambda>t. Inr (t, used', Some start', n1 + 1)))
      else bind_r (wall_clock_trip over H spec start' (clk n1) ev) (\<lambda>t. Inr (t, used, Some start', n1 + 1)))"

definition fingerprint :: "(string \<Rightarrow> string) \<Rightarrow> json \<Rightarrow> json result" where
  "fingerprint H payload =
     (case (if truthy payload then payload else JObj []) of
        JObj kvs \<Rightarrow>
          if truthy (jget kvs ''fingerprint'') then Inr (jget kvs ''fingerprint'')
          else bind_r (digest H (JObj [(''tool'', jget kvs ''tool''), (''args'', jget kvs ''args''), (''kwargs'', jget kvs ''kwargs'')]))
            (\<lambda>h. Inr (JStr h))
      | _ \<Rightarrow> Inl (AttributeError ''get''))"

definition mk_no_progress :: "int \<Rightarrow> brake result" where
  "mk_no_progress threshold =
     bind_r (positive_int (JInt threshold) ''no-progress threshold'' False) (\<lambda>_.
     bind_r (ensure (threshold \<ge> 2) (ContractError ''no-progress threshold must be >= 2'')) (\<lambda>_.
     Inr (NoProgressBrake threshold None 0)))"

definition no_progress_update ::
  "(string \<Rightarrow> string) \<Rightarrow> int \<Rightarrow> json option \<Rightarrow> nat \<Rightarrow> event \<Rightarrow> (brake_trip option \<times> json option \<times> nat) result" where
  "no_progress_update H threshold lst streak ev =
     (if jget ev ''kind'' \<noteq> JStr ''tool.invoked'' then Inr (None, lst, streak) else
      bind_r (fingerprint H (jget ev ''payload'')) (\<lambda>fp.
      let (lst', streak') =
        (if (case lst of None \<Rightarrow> False | Some l \<Rightarrow> py_eq fp l) then (lst, streak + 1) else (Some fp, 1)) in
      if int streak' \<ge> threshold
      then bind_r (trip H ''no_progress'' (''identical tool call repeated '' @ nat_str streak' @ '' consecutive times'') ev Escalate)
        (\<lambda>t. Inr (Some t, lst', streak'))
      else Inr (None, lst', streak')))"

definition completion_update ::
  "(string \<Rightarrow> string) \<Rightarrow> bool \<Rightarrow> event \<Rightarrow> (brake_trip option \<times> bool) result" where
  "completion_update H tripped ev =
     (if tripped \<or> jget ev ''kind'' \<noteq> JStr ''custom'' then Inr (None, tripped) else
      case (case map_of ev ''payload'' of None \<Rightarrow> JObj [] | Some p \<Rightarrow> p) of
        JObj kvs \<Rightarrow>
          if jget kvs ''event'' = JStr ''verification_report'' \<and> jget kvs ''overall_pass'' = JBool True
          then bind_r (trip H ''completion'' ''all goal spec checks passed'' ev Continue) (\<lambda>t. Inr (Some t, True))
          else Inr (None, False)
      | _ \<Rightarrow> Inl (AttributeError ''get''))"

fun brake_update ::
  "(int \<Rightarrow> int \<Rightarrow> json \<Rightarrow> bool) \<Rightarrow> (string \<Rightarrow> string) \<Rightarrow> (nat \<Rightarrow> int) \<Rightarrow> event \<Rightarrow> brake \<Rightarrow> nat
     \<Rightarrow> (brake_trip option \<times> brake \<times> nat) result" where
  "brake_update over H clk ev (MaxIterationBrake spec count) n =
     bind_r (max_iteration_update H spec count ev) (\<lambda>(t, c). Inr (t, MaxIterationBrake spec c, n))"
| "brake_update over H clk ev (BudgetBrake spec used start) n =
     bind_r (budget_update over H clk n spec used start ev) (\<lambda>(t, u, s, n'). Inr (t, BudgetBrake spec u s, n'))"
| "brake_update over H clk ev (NoProgressBrake threshold lst streak) n =
     bind_r (no_progress_update H threshold lst streak ev) (\<lambda>(t, l, s). Inr (t, NoProgressBrake threshold l s, n))"
| "brake_update over H clk ev (CompletionBrake tripped) n =
     bind_r (completion_update H tripped ev) (\<lambda>(t, b). Inr (t, CompletionBrake b, n))"

fun brake_reset :: "brake \<Rightarrow> brake" where
  "brake_reset (MaxIterationBrake spec _) = MaxIterationBrake spec 0"
| "brake_reset (BudgetBrake spec _ _) = BudgetBrake spec 0 None"
| "brake_reset (NoProgressBrake threshold _ _) = NoProgressBrake threshold None 0"
| "brake_reset (CompletionBrake _) = CompletionBrake False"

definition build_brakes :: "goal_spec \<Rightarrow> int \<Rightarrow> brake list result" where
  "build_brakes spec threshold =
     bind_r (mk_no_progress threshold) (\<lambda>np.
     Inr [MaxIterationBrake spec 0, BudgetBrake spec 0 None, np, CompletionBrake False])"

section \<open>The no-progress streak\<close>

text \<open>The fingerprints of a sequence of tool events, fed to the brake one after another; the result
  says for each update whether it tripped.\<close>

fun feed_tools :: "(string \<Rightarrow> string) \<Rightarrow> int \<Rightarrow> json option \<times> nat \<Rightarrow> event list \<Rightarrow> (bool list \<times> json option \<times> nat) result" where
  "feed_tools H threshold (lst, streak) [] = Inr ([], lst, streak)"
| "feed_tools H threshold (lst, streak) (ev # evs) =
     bind_r (no_progress_update H threshold lst streak ev) (\<lambda>(t, l, s).
     bind_r (feed_tools H threshold (l, s) evs) (\<lambda>(ts, r). Inr ((t \<noteq> None) # ts, r)))"

text \<open>The length of the run of equal fingerprints at the end of a sequence.\<close>

fun tail_run :: "json list \<Rightarrow> nat" where
  "tail_run [] = 0"
| "tail_run (x # xs) = (if list_all (py_eq x) xs then Suc (length xs) else tail_run xs)"

definition tool_event :: "(string \<Rightarrow> string) \<Rightarrow> event \<Rightarrow> json \<Rightarrow> bool" where
  "tool_event H ev fp = (jget ev ''kind'' = JStr ''tool.invoked'' \<and> fingerprint H (jget ev ''payload'') = Inr fp)"

lemma py_eq_refl [simp]: "py_eq v v"
  by (simp add: py_eq_def)

lemma py_eq_sym: "py_eq v w \<longleftrightarrow> py_eq w v"
  by (auto simp: py_eq_def)

lemma py_eq_trans: "py_eq u v \<Longrightarrow> py_eq v w \<Longrightarrow> py_eq u w"
  by (simp add: py_eq_def)

lemma tail_run_snoc:
  "tail_run (xs @ [y]) = (if xs \<noteq> [] \<and> py_eq (last xs) y then Suc (tail_run xs) else 1)"
proof (induction xs)
  case Nil
  then show ?case by simp
next
  case (Cons x xs)
  show ?case
  proof (cases "xs = []")
    case True
    then show ?thesis by simp
  next
    case False
    have "list_all (py_eq x) xs \<Longrightarrow> py_eq x (last xs)" using False by (simp add: list_all_iff)
    then have "list_all (py_eq x) (xs @ [y]) \<longleftrightarrow> list_all (py_eq x) xs \<and> py_eq (last xs) y"
      by (auto simp: py_eq_def)
    with Cons.IH False show ?thesis by auto
  qed
qed

lemma tail_run_le: "tail_run xs \<le> length xs"
  by (induction xs) auto

lemma tail_run_pos: "xs \<noteq> [] \<Longrightarrow> 0 < tail_run xs"
proof (induction xs)
  case (Cons x xs)
  then show ?case by (cases "xs = []") auto
qed simp

lemma tail_run_window:
  "0 < k \<Longrightarrow> k \<le> tail_run xs \<longleftrightarrow> k \<le> length xs \<and> (\<forall>j. length xs - k \<le> j \<and> j < length xs \<longrightarrow> py_eq (xs ! j) (last xs))"
proof (induction xs arbitrary: k rule: rev_induct)
  case Nil
  then show ?case by simp
next
  case (snoc y xs)
  show ?case
  proof (cases "k = 1")
    case True
    then show ?thesis using tail_run_pos [of "xs @ [y]"] by (auto simp: nth_append Suc_le_eq)
  next
    case False
    then have k: "0 < k - 1" "k = Suc (k - 1)" using snoc.prems by auto
    show ?thesis
    proof (cases "xs \<noteq> [] \<and> py_eq (last xs) y")
      case True
      then have "k \<le> tail_run (xs @ [y]) \<longleftrightarrow> k - 1 \<le> tail_run xs" using k by (auto simp: tail_run_snoc)
      also have "\<dots> \<longleftrightarrow> k - 1 \<le> length xs \<and> (\<forall>j. length xs - (k - 1) \<le> j \<and> j < length xs \<longrightarrow> py_eq (xs ! j) y)"
        unfolding snoc.IH [OF k(1)] using True by (auto simp: py_eq_def)
      also have "\<dots> \<longleftrightarrow> k \<le> length (xs @ [y]) \<and>
          (\<forall>j. length (xs @ [y]) - k \<le> j \<and> j < length (xs @ [y]) \<longrightarrow> py_eq ((xs @ [y]) ! j) (last (xs @ [y])))"
        using k by (auto simp: nth_append less_Suc_eq)
      finally show ?thesis .
    next
      case no: False
      then have "tail_run (xs @ [y]) = 1" by (auto simp: tail_run_snoc)
      moreover have "\<not> (k \<le> length (xs @ [y]) \<and>
          (\<forall>j. length (xs @ [y]) - k \<le> j \<and> j < length (xs @ [y]) \<longrightarrow> py_eq ((xs @ [y]) ! j) (last (xs @ [y]))))"
      proof
        assume a: "k \<le> length (xs @ [y]) \<and>
          (\<forall>j. length (xs @ [y]) - k \<le> j \<and> j < length (xs @ [y]) \<longrightarrow> py_eq ((xs @ [y]) ! j) (last (xs @ [y])))"
        then have ne: "xs \<noteq> []" using k by auto
        from a have "py_eq ((xs @ [y]) ! (length xs - 1)) (last (xs @ [y]))"
          by (elim conjE allE [where x = "length xs - 1"]) (use k in auto)
        with no ne show False by (simp add: nth_append last_conv_nth)
      qed
      ultimately show ?thesis using k by auto
    qed
  qed
qed

lemma no_progress_update_tool:
  assumes "tool_event H ev fp" and "finite_json (JObj ev)"
  shows "\<exists>t. no_progress_update H threshold lst streak ev =
    (let (lst', streak') = (if (case lst of None \<Rightarrow> False | Some l \<Rightarrow> py_eq fp l) then (lst, streak + 1) else (Some fp, 1))
     in Inr (t, lst', streak')) \<and> (t \<noteq> None \<longleftrightarrow>
       threshold \<le> int (if (case lst of None \<Rightarrow> False | Some l \<Rightarrow> py_eq fp l) then streak + 1 else 1))"
  using assms
  by (auto simp: no_progress_update_def tool_event_def trip_def obs_hash_def digest_def canonical_def Let_def
      split: option.splits)

lemma feed_tools_runs:
  assumes "list_all2 (tool_event H) evs fps" and "list_all (\<lambda>ev. finite_json (JObj ev)) evs"
    and "streak = tail_run before" and "case lst of None \<Rightarrow> before = [] | Some l \<Rightarrow> before \<noteq> [] \<and> py_eq l (last before)"
  shows "\<exists>r. feed_tools H threshold (lst, streak) evs =
    Inr (map (\<lambda>i. threshold \<le> int (tail_run (before @ take (Suc i) fps))) [0..<length fps], r)"
  using assms
proof (induction evs fps arbitrary: before lst streak rule: list_all2_induct)
  case Nil
  then show ?case by simp
next
  case (Cons ev evs fp fps)
  let ?same = "case lst of None \<Rightarrow> False | Some l \<Rightarrow> py_eq fp l"
  let ?lst = "if ?same then lst else Some fp" and ?streak = "if ?same then streak + 1 else 1"
  have same: "?same \<longleftrightarrow> before \<noteq> [] \<and> py_eq (last before) fp"
    using Cons.prems(3) by (auto simp: py_eq_def split: option.splits)
  have streak: "?streak = tail_run (before @ [fp])" using Cons.prems(2) same by (simp add: tail_run_snoc)
  obtain t where t: "no_progress_update H threshold lst streak ev = Inr (t, ?lst, ?streak)" "t \<noteq> None \<longleftrightarrow> threshold \<le> int ?streak"
    using no_progress_update_tool [OF Cons.hyps(1), of threshold lst streak] Cons.prems(1) by (auto simp: Let_def)
  have "case ?lst of None \<Rightarrow> before @ [fp] = [] | Some l \<Rightarrow> before @ [fp] \<noteq> [] \<and> py_eq l (last (before @ [fp]))"
    by (auto simp: py_eq_def split: option.splits)
  then obtain r where "feed_tools H threshold (?lst, ?streak) evs =
      Inr (map (\<lambda>i. threshold \<le> int (tail_run ((before @ [fp]) @ take (Suc i) fps))) [0..<length fps], r)"
    using Cons.IH [of ?streak "before @ [fp]" ?lst] Cons.prems(1) streak by auto
  with t streak show ?case
    by (simp add: upt_conv_Cons map_Suc_upt [symmetric] comp_def del: upt_Suc)
qed

text \<open>The no-progress brake trips exactly on repetition: fed a sequence of tool calls from its
  reset state, it trips at call \<open>i\<close> if and only if at least \<open>threshold\<close> calls were made and the
  last \<open>threshold\<close> of them up to \<open>i\<close> have equal fingerprints (SPEC-003-R6).\<close>

theorem no_progress_trips_exactly:
  assumes "list_all2 (tool_event H) evs fps" and "list_all (\<lambda>ev. finite_json (JObj ev)) evs" and "2 \<le> threshold"
  shows "\<exists>trips r. feed_tools H threshold (None, 0) evs = Inr (trips, r) \<and> length trips = length evs
    \<and> (\<forall>i<length evs. trips ! i \<longleftrightarrow>
         threshold \<le> int (Suc i) \<and> (\<forall>j. Suc i - nat threshold \<le> j \<and> j \<le> i \<longrightarrow> py_eq (fps ! j) (fps ! i)))"
proof -
  have len: "length fps = length evs" using assms(1) by (simp add: list_all2_lengthD)
  obtain r where r: "feed_tools H threshold (None, 0) evs =
      Inr (map (\<lambda>i. threshold \<le> int (tail_run (take (Suc i) fps))) [0..<length fps], r)"
    using feed_tools_runs [OF assms(1,2), of 0 "[]" None threshold] by auto
  have "(threshold \<le> int (tail_run (take (Suc i) fps))) \<longleftrightarrow>
      threshold \<le> int (Suc i) \<and> (\<forall>j. Suc i - nat threshold \<le> j \<and> j \<le> i \<longrightarrow> py_eq (fps ! j) (fps ! i))" if "i < length evs" for i
  proof -
    have lst: "last (take (Suc i) fps) = fps ! i" using that len by (simp add: take_Suc_conv_app_nth)
    have "threshold \<le> int (tail_run (take (Suc i) fps)) \<longleftrightarrow> nat threshold \<le> tail_run (take (Suc i) fps)"
      using assms(3) by linarith
    also have "\<dots> \<longleftrightarrow> nat threshold \<le> Suc i \<and> (\<forall>j. Suc i - nat threshold \<le> j \<and> j \<le> i \<longrightarrow> py_eq (fps ! j) (fps ! i))"
      using tail_run_window [of "nat threshold" "take (Suc i) fps"] that len assms(3) lst
      by (simp add: less_Suc_eq_le)
    finally show ?thesis by (simp add: nat_le_iff)
  qed
  with r len show ?thesis by simp
qed

theorem no_progress_trips_exactly_witness:
  "\<exists>trips r. feed_tools id 2 (None, 0)
     [[(''kind'', JStr ''tool.invoked''), (''payload'', JObj [(''fingerprint'', JStr ''a'')])],
      [(''kind'', JStr ''tool.invoked''), (''payload'', JObj [(''fingerprint'', JStr ''a'')])]] = Inr (trips, r)
     \<and> \<not> trips ! 0 \<and> trips ! 1"
proof -
  let ?e = "[(''kind'', JStr ''tool.invoked''), (''payload'', JObj [(''fingerprint'', JStr ''a'')])]"
  have "list_all2 (tool_event id) [?e, ?e] [JStr ''a'', JStr ''a'']"
    by (simp add: tool_event_def jget_def fingerprint_def)
  from no_progress_trips_exactly [OF this, of 2] show ?thesis
    by (fastforce simp: nth_Cons split: nat.splits)
qed

end
