(* ===== verification/Verifier.thy ===== *)
theory Verifier
  imports Goal_Spec
begin

text \<open>
  Ordered verification, \<open>src/residual/verifier.py\<close>. An evaluator is host code: it returns a pair
  whose parts may have the wrong type (\<open>None\<close>), or raises (\<open>Inl\<close>, a result that does not unpack
  into a pair included). Durations are left out of the results; the events passed to \<open>emit\<close>
  are returned beside the report.
\<close>

datatype check_result = RPass | RFail | RUnknown | RSkipped

type_synonym evaluator = "json \<Rightarrow> json \<Rightarrow> (check_result option \<times> string option) result"

record criterion_result =
  res_name :: string
  res_type :: check_type
  res_result :: check_result
  res_reason :: string

record verification_report =
  rep_goal_id :: string
  overall_pass :: bool
  rep_results :: "criterion_result list"
  primary_failure :: "string option"

definition evaluate_one ::
  "(string, evaluator) dict \<Rightarrow> criterion \<Rightarrow> json \<Rightarrow> bool \<Rightarrow> check_result \<times> string" where
  "evaluate_one evs c candidate prior_failed =
     (if cr_type c = Judge \<and> prior_failed then (RSkipped, ''prior_check_failed'')
      else case map_of evs (cr_evaluator c) of
        None \<Rightarrow>
          if cr_type c = Judge then (RFail, ''judge_unavailable'')
          else (RFail, ''evaluator_not_registered:'' @ cr_evaluator c)
      | Some f \<Rightarrow>
          (case f candidate (cr_parameters c) of
             Inl _ \<Rightarrow> (RFail, ''check_error'')
           | Inr (Some r, Some reason) \<Rightarrow>
               if r \<in> {RPass, RFail, RUnknown} then (r, take_chars 1000 reason)
               else (RFail, ''invalid_check_result'')
           | Inr _ \<Rightarrow> (RFail, ''invalid_check_result'')))"

text \<open>The loop of \<open>verify\<close>; the accumulator holds the results so far, \<open>prior_failed\<close> and the
  primary failure.\<close>

fun verify_loop ::
  "(string, evaluator) dict \<Rightarrow> json \<Rightarrow> criterion list \<Rightarrow> criterion_result list \<times> bool \<times> string option
     \<Rightarrow> criterion_result list \<times> bool \<times> string option" where
  "verify_loop evs candidate [] acc = acc"
| "verify_loop evs candidate (c # cs) (results, prior_failed, primary) =
     (let (r, reason) = evaluate_one evs c candidate prior_failed;
          res = \<lparr>res_name = cr_name c, res_type = cr_type c, res_result = r, res_reason = reason\<rparr> in
      verify_loop evs candidate cs
        (results @ [res], prior_failed \<or> r \<noteq> RPass,
         if r \<noteq> RPass \<and> primary = None then Some (cr_name c) else primary))"

definition verify :: "(string, evaluator) dict \<Rightarrow> json \<Rightarrow> goal_spec \<Rightarrow> verification_report" where
  "verify evs candidate spec =
     (let (results, _, primary) = verify_loop evs candidate (success_criteria spec) ([], False, None) in
      \<lparr>rep_goal_id = goal_id spec, overall_pass = list_all (\<lambda>r. res_result r = RPass) results,
       rep_results = results, primary_failure = primary\<rparr>)"

fun result_value :: "check_result \<Rightarrow> string" where
  "result_value RPass = ''pass''"
| "result_value RFail = ''fail''"
| "result_value RUnknown = ''unknown''"
| "result_value RSkipped = ''skipped''"

definition check_event :: "goal_spec \<Rightarrow> criterion_result \<Rightarrow> json" where
  "check_event spec r = JObj [(''goal_id'', JStr (goal_id spec)), (''check_name'', JStr (res_name r)),
     (''check_type'', JStr (check_type_value (res_type r))), (''result'', JStr (result_value (res_result r))),
     (''reason'', JStr (res_reason r))]"

definition emitted_checks :: "(string, evaluator) dict \<Rightarrow> json \<Rightarrow> goal_spec \<Rightarrow> json list" where
  "emitted_checks evs candidate spec = map (check_event spec) (rep_results (verify evs candidate spec))"

section \<open>A declarative reading of verification\<close>

definition accepts :: "(string, evaluator) dict \<Rightarrow> json \<Rightarrow> criterion \<Rightarrow> bool" where
  "accepts evs candidate c = (\<exists>f reason. map_of evs (cr_evaluator c) = Some f
     \<and> f candidate (cr_parameters c) = Inr (Some RPass, Some reason))"

lemma evaluate_one_pass:
  "fst (evaluate_one evs c candidate pf) = RPass \<longleftrightarrow> accepts evs candidate c \<and> \<not> (cr_type c = Judge \<and> pf)"
  by (auto simp: evaluate_one_def accepts_def split: option.splits sum.splits)

lemma evaluate_one_skipped:
  "fst (evaluate_one evs c candidate pf) = RSkipped \<longleftrightarrow> cr_type c = Judge \<and> pf"
  by (auto simp: evaluate_one_def split: option.splits sum.splits)

text \<open>The result of criterion \<open>i\<close> as a function of the criteria before it.\<close>

definition result_at :: "(string, evaluator) dict \<Rightarrow> json \<Rightarrow> criterion list \<Rightarrow> nat \<Rightarrow> check_result" where
  "result_at evs candidate cs i =
     fst (evaluate_one evs (cs ! i) candidate (\<not> list_all (accepts evs candidate) (take i cs)))"

lemma verify_loop_results:
  assumes "pf = (\<not> list_all (accepts evs candidate) before)"
    and "verify_loop evs candidate cs (rs, pf, prim) = (rs', pf', prim')"
  shows "map res_result rs' = map res_result rs @
      map (\<lambda>i. result_at evs candidate (before @ cs) (length before + i)) [0..<length cs]
    \<and> map res_name rs' = map res_name rs @ map cr_name cs \<and> map res_type rs' = map res_type rs @ map cr_type cs
    \<and> pf' = (\<not> list_all (accepts evs candidate) (before @ cs))"
  using assms
proof (induction cs arbitrary: before rs pf prim)
  case Nil
  then show ?case by auto
next
  case (Cons c cs)
  obtain r reason where r: "evaluate_one evs c candidate pf = (r, reason)" by fastforce
  let ?pf = "pf \<or> r \<noteq> RPass"
  have pf: "?pf = (\<not> list_all (accepts evs candidate) (before @ [c]))"
    using Cons.prems(1) evaluate_one_pass [of evs c candidate pf] r by auto
  have at: "result_at evs candidate (before @ c # cs) (length before) = r"
    using r Cons.prems(1) by (simp add: result_at_def)
  from Cons.IH [OF pf] Cons.prems(2) r at show ?case
    by (simp add: upt_conv_Cons map_Suc_upt [symmetric] comp_def del: upt_Suc)
qed

lemma verify_loop_primary:
  assumes "verify_loop evs candidate cs (rs, pf, prim) = (rs', pf', prim')"
    and "prim = map_option res_name (find (\<lambda>r. res_result r \<noteq> RPass) rs)"
  shows "prim' = map_option res_name (find (\<lambda>r. res_result r \<noteq> RPass) rs')"
  using assms
proof (induction cs arbitrary: rs pf prim)
  case Nil
  then show ?case by auto
next
  case (Cons c cs)
  have snoc: "find P (xs @ [x]) = (case find P xs of None \<Rightarrow> (if P x then Some x else None) | Some y \<Rightarrow> Some y)"
    for P and xs :: "criterion_result list" and x
    by (induction xs) auto
  obtain r reason where r: "evaluate_one evs c candidate pf = (r, reason)" by fastforce
  let ?res = "\<lparr>res_name = cr_name c, res_type = cr_type c, res_result = r, res_reason = reason\<rparr>"
  show ?case
    by (rule Cons.IH [of "rs @ [?res]" "pf \<or> r \<noteq> RPass"
          "if r \<noteq> RPass \<and> prim = None then Some (cr_name c) else prim"])
      (use Cons.prems r in \<open>auto simp: snoc Let_def split: option.splits\<close>)
qed

lemma verify_results:
  "map res_result (rep_results (verify evs candidate spec)) =
     map (result_at evs candidate (success_criteria spec)) [0..<length (success_criteria spec)]"
  "map res_name (rep_results (verify evs candidate spec)) = map cr_name (success_criteria spec)"
  "map res_type (rep_results (verify evs candidate spec)) = map cr_type (success_criteria spec)"
proof -
  let ?cs = "success_criteria spec"
  obtain rs pf prim where v: "verify_loop evs candidate ?cs ([], False, None) = (rs, pf, prim)"
    by (metis prod_cases3)
  have "rep_results (verify evs candidate spec) = rs" using v by (simp add: verify_def)
  moreover note verify_loop_results [OF _ v, of "[]"]
  ultimately show "map res_result (rep_results (verify evs candidate spec)) = map (result_at evs candidate ?cs) [0..<length ?cs]"
    "map res_name (rep_results (verify evs candidate spec)) = map cr_name ?cs"
    "map res_type (rep_results (verify evs candidate spec)) = map cr_type ?cs"
    by simp_all
qed

lemma verify_primary:
  "primary_failure (verify evs candidate spec) =
     map_option res_name (find (\<lambda>r. res_result r \<noteq> RPass) (rep_results (verify evs candidate spec)))"
  using verify_loop_primary [of evs candidate "success_criteria spec" "[]" False None]
  by (auto simp: verify_def split: prod.splits)

lemma result_at_pass:
  assumes "\<And>j. j < i \<Longrightarrow> result_at evs candidate cs j = RPass" and "i < length cs"
  shows "result_at evs candidate cs i = RPass \<longleftrightarrow> accepts evs candidate (cs ! i)"
proof -
  have "accepts evs candidate (cs ! j)" if "j < i" for j
    using assms(1) [OF that] evaluate_one_pass by (simp add: result_at_def)
  then have "list_all (accepts evs candidate) (take i cs)"
    using assms(2) by (auto simp: list_all_length)
  then show ?thesis by (simp add: result_at_def evaluate_one_pass)
qed

lemma all_pass_iff:
  "(\<forall>i<length cs. result_at evs candidate cs i = RPass) \<longleftrightarrow> list_all (accepts evs candidate) cs"
proof
  assume "\<forall>i<length cs. result_at evs candidate cs i = RPass"
  then show "list_all (accepts evs candidate) cs"
    unfolding list_all_length using result_at_pass by (meson less_trans)
next
  assume a: "list_all (accepts evs candidate) cs"
  then have "list_all (accepts evs candidate) (take i cs)" for i
    by (meson in_set_takeD list_all_iff)
  with a show "\<forall>i<length cs. result_at evs candidate cs i = RPass"
    by (simp add: result_at_def evaluate_one_pass list_all_length)
qed

lemma overall_pass_iff_accepts:
  "overall_pass (verify evs candidate spec) \<longleftrightarrow> list_all (accepts evs candidate) (success_criteria spec)"
proof -
  have "overall_pass (verify evs candidate spec) \<longleftrightarrow>
      list_all (\<lambda>r. r = RPass) (map res_result (rep_results (verify evs candidate spec)))"
    by (auto simp: verify_def list_all_iff split: prod.splits)
  also have "\<dots> \<longleftrightarrow> (\<forall>i<length (success_criteria spec). result_at evs candidate (success_criteria spec) i = RPass)"
    unfolding verify_results by (auto simp: list_all_iff)
  finally show ?thesis by (simp add: all_pass_iff)
qed

text \<open>Verification passes exactly when every criterion's evaluator is registered and returned a
  pass on this candidate; the report has one result per criterion in specification order, and its
  primary failure is absent exactly on a pass and otherwise names the first criterion that did not
  pass (SPEC-002-R4).\<close>

theorem verify_pass_iff_all_accept:
  "let rep = verify evs candidate spec in
   (overall_pass rep \<longleftrightarrow> list_all (accepts evs candidate) (success_criteria spec))
   \<and> (overall_pass rep \<longleftrightarrow> primary_failure rep = None)
   \<and> map res_name (rep_results rep) = map cr_name (success_criteria spec)
   \<and> primary_failure rep = map_option res_name (find (\<lambda>r. res_result r \<noteq> RPass) (rep_results rep))"
  using overall_pass_iff_accepts [of evs candidate spec] verify_results(2) verify_primary [of evs candidate spec]
  by (auto simp: Let_def verify_def list_all_iff find_None_iff split: prod.splits)

text \<open>Judge checks never override: in a constructed specification every non-judge criterion
  comes before every judge and is evaluated whatever failed before it, a judge is skipped exactly
  when some earlier criterion did not accept, and a judge that is not skipped passes only if its
  registered evaluator passed it (SPEC-002-R2, R6, R7).\<close>

theorem judges_run_last_and_skip:
  assumes "mk_goal_spec spec = Inr spec'" and "i < length (success_criteria spec)"
  shows "let cs = success_criteria spec; rs = rep_results (verify evs candidate spec) in
    (res_result (rs ! i) = RSkipped \<longleftrightarrow>
       cr_type (cs ! i) = Judge \<and> (\<exists>j<i. \<not> accepts evs candidate (cs ! j)))
    \<and> (cr_type (cs ! i) \<noteq> Judge \<longrightarrow> (\<forall>j<i. cr_type (cs ! j) \<noteq> Judge)
         \<and> (res_result (rs ! i) = RPass \<longleftrightarrow> accepts evs candidate (cs ! i)))
    \<and> (res_result (rs ! i) = RPass \<longrightarrow> accepts evs candidate (cs ! i))"
proof -
  let ?cs = "success_criteria spec" and ?rs = "rep_results (verify evs candidate spec)"
  have len: "length ?rs = length ?cs" using verify_results(2) length_map by metis
  have "map res_result ?rs ! i = result_at evs candidate ?cs i"
    unfolding verify_results(1) using assms(2) by simp
  then have at: "res_result (?rs ! i) = result_at evs candidate ?cs i" using len assms(2) by simp
  have pf: "\<not> list_all (accepts evs candidate) (take i ?cs) \<longleftrightarrow> (\<exists>j<i. \<not> accepts evs candidate (?cs ! j))"
    using assms(2) by (auto simp: list_all_length)
  have "sorted (map (order_index \<circ> cr_type) ?cs)" using assms(1) by (simp add: mk_goal_spec_ok valid_goal_def)
  then have "order_index (cr_type (?cs ! j)) \<le> order_index (cr_type (?cs ! i))" if "j < i" for j
    using that assms(2) sorted_nth_mono [of "map (order_index \<circ> cr_type) ?cs" j i] by simp
  then have "cr_type (?cs ! j) \<noteq> Judge" if "cr_type (?cs ! i) \<noteq> Judge" "j < i" for j
    using that by (cases "cr_type (?cs ! i)") force+
  then show ?thesis
    using at pf evaluate_one_skipped [of evs "?cs ! i" candidate] evaluate_one_pass [of evs "?cs ! i" candidate]
    by (simp add: result_at_def Let_def)
qed

theorem judges_run_last_and_skip_witness:
  "res_result (rep_results (verify [(''ok'', \<lambda>_ _. Inr (Some RPass, Some []))] JNull
     (sample_goal\<lparr>success_criteria :=
        [\<lparr>cr_name = ''m'', cr_type = Mechanical, cr_description = ''d'', cr_evaluator = ''missing'', cr_parameters = JObj []\<rparr>,
         \<lparr>cr_name = ''j'', cr_type = Judge, cr_description = ''d'', cr_evaluator = ''ok'', cr_parameters = JObj []\<rparr>]\<rparr>)) ! 1)
   = RSkipped"
proof -
  let ?spec = "sample_goal\<lparr>success_criteria :=
    [\<lparr>cr_name = ''m'', cr_type = Mechanical, cr_description = ''d'', cr_evaluator = ''missing'', cr_parameters = JObj []\<rparr>,
     \<lparr>cr_name = ''j'', cr_type = Judge, cr_description = ''d'', cr_evaluator = ''ok'', cr_parameters = JObj []\<rparr>]\<rparr>"
  have "mk_goal_spec ?spec = Inr ?spec"
    by (simp add: mk_goal_spec_ok valid_goal_def sample_goal_def sample_text_simps)
  from judges_run_last_and_skip [OF this, of 1 "[(''ok'', \<lambda>_ _. Inr (Some RPass, Some []))]" JNull]
  show ?thesis by (simp add: accepts_def sample_goal_def)
qed

end
