(* ===== verification/Loop.thy ===== *)
theory Loop
  imports Brakes Verifier
begin

text \<open>
  The bounded run loop, \<open>LoopController\<close> of \<open>src/residual/loop.py\<close>, with the standard brakes and no
  extensions. The harness is a function from the pass number to the value \<open>run_pass\<close> returned, the
  evaluators are the verifier's registry, the clock is the sequence of its readings. Emission of
  observations to host callbacks is left out: it does not feed back into the run.
\<close>

datatype outcome = Success | Escalated | Aborted

record run_result =
  rr_outcome :: outcome
  rr_passes :: int
  rr_tokens :: "int option"
  rr_report :: "verification_report option"
  rr_trips :: "brake_trip list"

record host =
  h_hash :: "string \<Rightarrow> string"
  h_over :: "int \<Rightarrow> int \<Rightarrow> json \<Rightarrow> bool"
  h_clock :: "nat \<Rightarrow> int"
  h_evaluators :: "(string, evaluator) dict"
  h_pass :: "int \<Rightarrow> json"

record loop_state =
  ls_brakes :: "brake list"
  ls_tick :: nat
  ls_trips :: "brake_trip list"

section \<open>Recording trips and feeding brakes\<close>

definition record_trip :: "brake_trip \<Rightarrow> brake_trip list \<Rightarrow> brake_trip list" where
  "record_trip t ts =
     (if list_ex (\<lambda>u. bt_name u = bt_name t \<and> bt_action u = bt_action t) ts then ts else ts @ [t])"

fun feed_brakes :: "host \<Rightarrow> event \<Rightarrow> brake list \<Rightarrow> nat \<Rightarrow> brake_trip list \<Rightarrow> (brake list \<times> nat \<times> brake_trip list) result" where
  "feed_brakes h ev [] n ts = Inr ([], n, ts)"
| "feed_brakes h ev (b # bs) n ts =
     bind_r (brake_update (h_over h) (h_hash h) (h_clock h) ev b n) (\<lambda>(t, b', n').
     bind_r (feed_brakes h ev bs n' (case t of None \<Rightarrow> ts | Some t \<Rightarrow> record_trip t ts)) (\<lambda>(bs', n'', ts').
     Inr (b' # bs', n'', ts')))"

definition feed :: "host \<Rightarrow> event \<Rightarrow> loop_state \<Rightarrow> loop_state result" where
  "feed h ev st =
     bind_r (feed_brakes h ev (ls_brakes st) (ls_tick st) (ls_trips st)) (\<lambda>(bs, n, ts).
     Inr \<lparr>ls_brakes = bs, ls_tick = n, ls_trips = ts\<rparr>)"

definition force :: "host \<Rightarrow> string \<Rightarrow> string \<Rightarrow> brake_action \<Rightarrow> event \<Rightarrow> loop_state \<Rightarrow> loop_state result" where
  "force h name reason action ev st =
     bind_r (trip (h_hash h) name reason ev action) (\<lambda>t.
     Inr (st\<lparr>ls_trips := record_trip t (ls_trips st)\<rparr>))"

definition aborting :: "brake_trip list \<Rightarrow> bool" where
  "aborting ts = list_ex (\<lambda>t. bt_action t = Abort) ts"

text \<open>\<open>time.monotonic() - t0 >= spec.wall_clock_budget_s\<close>: one reading of the clock.\<close>

definition late :: "host \<Rightarrow> goal_spec \<Rightarrow> int \<Rightarrow> loop_state \<Rightarrow> bool \<times> loop_state" where
  "late h spec t0 st = (h_over h t0 (h_clock h (ls_tick st)) (wall_clock_budget spec), st\<lparr>ls_tick := ls_tick st + 1\<rparr>)"

definition force_if_late :: "host \<Rightarrow> goal_spec \<Rightarrow> int \<Rightarrow> int \<Rightarrow> loop_state \<Rightarrow> loop_state result" where
  "force_if_late h spec t0 k st =
     (let (b, st) = late h spec t0 st in
      if b then force h ''budget'' ''wall_clock_budget_exhausted'' Abort [(''pass'', JInt k)] st else Inr st)"

definition decide :: "brake_trip list \<Rightarrow> brake_action" where
  "decide ts =
     (if Abort \<in> set (map bt_action ts) then Abort
      else if Escalate \<in> set (map bt_action ts) then Escalate else Continue)"

definition finish ::
  "outcome \<Rightarrow> int \<Rightarrow> int option \<Rightarrow> verification_report option \<Rightarrow> brake_trip list \<Rightarrow> run_result" where
  "finish outcome passes tokens report ts =
     \<lparr>rr_outcome = outcome, rr_passes = passes, rr_tokens = tokens, rr_report = report, rr_trips = ts\<rparr>"

section \<open>One pass\<close>

fun pass_fields :: "json \<Rightarrow> (string \<times> json) list result" where
  "pass_fields (JObj kvs) = (if ''candidate'' \<in> fst ` set kvs then Inr kvs
     else Inl (ContractError ''harness pass must return a candidate object''))"
| "pass_fields _ = Inl (ContractError ''harness pass must return a candidate object'')"

definition count_usage :: "host \<Rightarrow> goal_spec \<Rightarrow> int \<Rightarrow> json \<Rightarrow> int \<Rightarrow> loop_state \<Rightarrow> (int option \<times> loop_state) result" where
  "count_usage h spec k used tokens st =
     (case token_count used of
        None \<Rightarrow> bind_r (force h ''budget'' ''usage_unknown_or_invalid'' Abort [(''pass'', JInt k)] st) (\<lambda>st. Inr (None, st))
      | Some n \<Rightarrow>
          bind_r (feed h [(''kind'', JStr ''llm.response''), (''usage'', JObj [(''total_tokens'', JInt n)])] st) (\<lambda>st.
          let total = tokens + n in
          if total \<ge> token_budget spec
          then bind_r (force h ''budget'' ''token_budget_exhausted'' Abort [(''tokens'', JInt total)] st) (\<lambda>st. Inr (Some total, st))
          else Inr (Some total, st)))"

definition observation_events :: "(string \<times> json) list \<Rightarrow> event list result" where
  "observation_events kvs =
     (case (case map_of kvs ''observations'' of None \<Rightarrow> JArr [] | Some v \<Rightarrow> v) of
        JArr vs \<Rightarrow>
          if length vs \<le> 10000 \<and> list_all is_dict vs then map_r (\<lambda>v. case v of JObj e \<Rightarrow> Inr e | _ \<Rightarrow> Inl (TypeError [])) vs
          else Inl (ContractError ''harness observations must be a bounded list of objects'')
      | _ \<Rightarrow> Inl (ContractError ''harness observations must be a bounded list of objects''))"

definition feed_observations :: "host \<Rightarrow> event list \<Rightarrow> loop_state \<Rightarrow> loop_state result" where
  "feed_observations h evs st =
     fold_r (\<lambda>st ev. if jget ev ''kind'' = JStr ''tool.invoked'' then feed h ev st else Inr st) st evs"

definition handle_halt :: "host \<Rightarrow> json \<Rightarrow> loop_state \<Rightarrow> loop_state result" where
  "handle_halt h halt st =
     (case halt of
        JNull \<Rightarrow> Inr st
      | JStr s \<Rightarrow>
          if s \<in> {''paused'', ''no_runnable_tasks''} then force h ''dispatch'' s Escalate [(''halt'', JStr s)] st
          else Inl (ContractError ''unknown harness halt reason'')
      | JArr _ \<Rightarrow> Inl (TypeError ''unhashable type'')
      | JObj _ \<Rightarrow> Inl (TypeError ''unhashable type'')
      | _ \<Rightarrow> Inl (ContractError ''unknown harness halt reason''))"

definition verify_pass ::
  "host \<Rightarrow> goal_spec \<Rightarrow> (string \<times> json) list \<Rightarrow> loop_state \<Rightarrow> (verification_report option \<times> loop_state) result" where
  "verify_pass h spec kvs st =
     (if aborting (ls_trips st) then Inr (None, st)
      else
        (let rep = verify (h_evaluators h) (jget kvs ''candidate'') spec in
         bind_r (feed h [(''kind'', JStr ''custom''),
           (''payload'', JObj [(''event'', JStr ''verification_report''), (''goal_id'', JStr (goal_id spec)),
             (''overall_pass'', JBool (overall_pass rep)), (''primary_failure'', opt_str (primary_failure rep))])] st) (\<lambda>st.
         Inr (Some rep, st))))"

definition pass_passed :: "verification_report option \<Rightarrow> bool" where
  "pass_passed rep = (case rep of None \<Rightarrow> False | Some r \<Rightarrow> overall_pass r)"

definition completed_event :: "int \<Rightarrow> bool \<Rightarrow> event" where
  "completed_event k ok = [(''event'', JStr ''pass_complete''), (''from_state'', JStr ''pass_running''),
     (''to_state'', JStr ''pass_complete''), (''pass_number'', JInt k), (''overall_pass'', JBool ok)]"

text \<open>The decision after a pass. With unknown usage (\<open>None\<close>) the next pass would fail on its
  addition; the abort trip recorded with it always ends the run first.\<close>

definition conclude_pass ::
  "int \<Rightarrow> int option \<Rightarrow> verification_report option \<Rightarrow> loop_state
     \<Rightarrow> (run_result + int \<times> verification_report option \<times> loop_state) result" where
  "conclude_pass k tokens report st =
     (case decide (ls_trips st) of
        Abort \<Rightarrow> Inr (Inl (finish Aborted k tokens report (ls_trips st)))
      | Escalate \<Rightarrow> Inr (Inl (finish Escalated k tokens report (ls_trips st)))
      | Continue \<Rightarrow>
          if pass_passed report then Inr (Inl (finish Success k tokens report (ls_trips st)))
          else (case tokens of
                  None \<Rightarrow> Inl (TypeError ''unsupported operand type'')
                | Some t \<Rightarrow> Inr (Inr (t, report, st\<lparr>ls_trips := []\<rparr>))))"

text \<open>The body of the loop for pass \<open>k\<close>: \<open>Inl\<close> a finished run, \<open>Inr\<close> the tokens and state with
  which the next pass starts.\<close>

definition run_pass ::
  "host \<Rightarrow> goal_spec \<Rightarrow> int \<Rightarrow> int \<Rightarrow> int \<Rightarrow> verification_report option \<Rightarrow> loop_state
     \<Rightarrow> (run_result + int \<times> verification_report option \<times> loop_state) result" where
  "run_pass h spec t0 k tokens prev st =
     (if ls_trips st \<noteq> [] then Inr (Inl (finish Escalated (k - 1) (Some tokens) prev (ls_trips st)))
      else
       (let (is_late, st) = late h spec t0 st in
        if is_late then
          bind_r (force h ''budget'' ''wall_clock_budget_exhausted'' Abort [(''pass'', JInt k)] st) (\<lambda>st.
          Inr (Inl (finish Aborted (k - 1) (Some tokens) prev (ls_trips st))))
        else
          bind_r (pass_fields (h_pass h k)) (\<lambda>kvs.
          bind_r (count_usage h spec k (jget kvs ''tokens_used'') tokens st) (\<lambda>(tokens', st).
          bind_r (observation_events kvs) (\<lambda>evs.
          bind_r (feed_observations h evs st) (\<lambda>st.
          bind_r (handle_halt h (jget kvs ''halt'') st) (\<lambda>st.
          bind_r (force_if_late h spec t0 k st) (\<lambda>st.
          bind_r (verify_pass h spec kvs st) (\<lambda>(report, st).
          bind_r (force_if_late h spec t0 k st) (\<lambda>st.
          let ok = pass_passed report in
          bind_r (feed h ((''kind'', JStr ''state.transition'') # completed_event k ok) st) (\<lambda>st.
          bind_r (if k = max_passes spec \<and> \<not> ok
                  then force h ''max_iteration'' ''max_passes_reached'' Escalate (completed_event k ok) st else Inr st) (\<lambda>st.
          conclude_pass k tokens' report st))))))))))))"

section \<open>The run\<close>

text \<open>\<open>for pass_number in range(1, max_passes + 1)\<close>, then the unreachable assertion.\<close>

fun run_passes ::
  "host \<Rightarrow> goal_spec \<Rightarrow> int \<Rightarrow> nat \<Rightarrow> int \<Rightarrow> int \<Rightarrow> verification_report option \<Rightarrow> loop_state \<Rightarrow> run_result result" where
  "run_passes h spec t0 0 k tokens prev st = Inl (AssertionError ''bounded loop must terminate'')"
| "run_passes h spec t0 (Suc n) k tokens prev st =
     bind_r (run_pass h spec t0 k tokens prev st) (\<lambda>r.
     case r of Inl res \<Rightarrow> Inr res | Inr (tokens', prev', st') \<Rightarrow> run_passes h spec t0 n (k + 1) tokens' prev' st')"

definition run :: "host \<Rightarrow> goal_spec \<Rightarrow> brake list \<Rightarrow> run_result result" where
  "run h spec brakes =
     (let t0 = h_clock h 0; st = \<lparr>ls_brakes = map brake_reset brakes, ls_tick = 1, ls_trips = []\<rparr> in
      bind_r (feed h [(''kind'', JStr ''checkpoint''), (''event'', JStr ''run_opened''),
        (''payload'', JObj [(''event'', JStr ''run_opened'')])] st) (\<lambda>st.
      if aborting (ls_trips st) then Inr (finish Aborted 0 (Some 0) None (ls_trips st))
      else run_passes h spec t0 (nat (max_passes spec)) 1 0 None st))"

section \<open>Trips accumulate\<close>

lemma record_trip_mono: "set ts \<subseteq> set (record_trip t ts)"
  by (auto simp: record_trip_def)

lemma record_trip_action: "\<exists>u\<in>set (record_trip t ts). bt_action u = bt_action t"
  by (auto simp: record_trip_def list_ex_iff)

lemma feed_brakes_mono: "feed_brakes h ev bs n ts = Inr (bs', n', ts') \<Longrightarrow> set ts \<subseteq> set ts'"
proof (induction bs arbitrary: n ts bs' n' ts')
  case Nil
  then show ?case by simp
next
  case (Cons b bs)
  obtain t b' n1 where u: "brake_update (h_over h) (h_hash h) (h_clock h) ev b n = Inr (t, b', n1)"
    and rest: "\<exists>bs2. feed_brakes h ev bs n1 (case t of None \<Rightarrow> ts | Some t \<Rightarrow> record_trip t ts) = Inr (bs2, n', ts')"
    using Cons.prems by (auto simp: result_simps)
  have "set ts \<subseteq> set (case t of None \<Rightarrow> ts | Some t \<Rightarrow> record_trip t ts)"
    using record_trip_mono by (auto split: option.splits)
  with Cons.IH rest show ?case by blast
qed

text \<open>Everything between two decisions only adds trips.\<close>

abbreviation grows :: "loop_state \<Rightarrow> loop_state \<Rightarrow> bool" where
  "grows st st' \<equiv> set (ls_trips st) \<subseteq> set (ls_trips st')"

lemma feed_mono: "feed h ev st = Inr st' \<Longrightarrow> grows st st'"
  by (auto simp: feed_def result_simps dest!: feed_brakes_mono)

lemma force_mono: "force h name reason a ev st = Inr st' \<Longrightarrow> grows st st'"
  using record_trip_mono by (fastforce simp: force_def result_simps)

lemma force_action: "force h name reason a ev st = Inr st' \<Longrightarrow> a \<in> bt_action ` set (ls_trips st')"
proof -
  assume "force h name reason a ev st = Inr st'"
  then obtain t where "ls_trips st' = record_trip t (ls_trips st)" "bt_action t = a"
    by (auto simp: force_def result_simps trip_def)
  then show ?thesis using record_trip_action [of t "ls_trips st"] by (metis image_eqI)
qed

lemma force_if_late_mono: "force_if_late h spec t0 k st = Inr st' \<Longrightarrow> grows st st'"
  by (auto simp: force_if_late_def late_def split: if_splits dest!: force_mono)

lemma feed_observations_mono: "feed_observations h evs st = Inr st' \<Longrightarrow> grows st st'"
  unfolding feed_observations_def
proof (erule fold_r_invariant [where P = "grows st"])
  fix s ev s'
  assume "grows st s" and "(if jget ev ''kind'' = JStr ''tool.invoked'' then feed h ev s else Inr s) = Inr s'"
  moreover from this have "grows s s'" using feed_mono [of h ev s s'] by (auto split: if_splits)
  ultimately show "grows st s'" by blast
qed simp

lemma handle_halt_mono: "handle_halt h v st = Inr st' \<Longrightarrow> grows st st'"
  by (auto simp: handle_halt_def split: json.splits if_splits dest!: force_mono)

lemma verify_pass_Inr:
  assumes "verify_pass h spec kvs st = Inr (rep, st')"
  shows "grows st st'" and "rep = None \<or> rep = Some (verify (h_evaluators h) (jget kvs ''candidate'') spec)"
  using assms by (auto simp: verify_pass_def result_simps Let_def split: if_splits dest!: feed_mono)

lemma count_usage_Inr:
  assumes "count_usage h spec k used tokens st = Inr (tot, st')"
  shows "grows st st'"
    and "Abort \<in> bt_action ` set (ls_trips st') \<or>
      (\<exists>n. token_count used = Some n \<and> tot = Some (tokens + n) \<and> tokens + n < token_budget spec)"
  using assms
  by (auto simp: count_usage_def result_simps Let_def split: option.splits if_splits
      dest!: feed_mono dest: force_mono force_action)

lemma decide_iff:
  "decide ts = Abort \<longleftrightarrow> Abort \<in> bt_action ` set ts"
  "decide ts = Continue \<longleftrightarrow> (\<forall>t\<in>set ts. bt_action t = Continue)"
proof -
  show "decide ts = Abort \<longleftrightarrow> Abort \<in> bt_action ` set ts" by (simp add: decide_def)
  have "(\<forall>t\<in>set ts. bt_action t = Continue) \<longleftrightarrow> Abort \<notin> bt_action ` set ts \<and> Escalate \<notin> bt_action ` set ts"
    by (metis (full_types) brake_action.distinct(3,5) brake_action.exhaust image_iff imageI brake_action.distinct(1))
  then show "decide ts = Continue \<longleftrightarrow> (\<forall>t\<in>set ts. bt_action t = Continue)" by (simp add: decide_def)
qed

section \<open>One pass\<close>

definition pass_usage :: "host \<Rightarrow> int \<Rightarrow> int" where
  "pass_usage h j = (case h_pass h j of
     JObj kvs \<Rightarrow> (case token_count (jget kvs ''tokens_used'') of Some n \<Rightarrow> n | None \<Rightarrow> 0) | _ \<Rightarrow> 0)"

definition good_success :: "host \<Rightarrow> goal_spec \<Rightarrow> int \<Rightarrow> int \<Rightarrow> run_result \<Rightarrow> bool" where
  "good_success h spec k tokens res =
     (\<exists>kvs. h_pass h k = JObj kvs
      \<and> rr_report res = Some (verify (h_evaluators h) (jget kvs ''candidate'') spec)
      \<and> overall_pass (verify (h_evaluators h) (jget kvs ''candidate'') spec)
      \<and> rr_tokens res = Some (tokens + pass_usage h k) \<and> tokens + pass_usage h k < token_budget spec
      \<and> rr_passes res = k \<and> (\<forall>t\<in>set (rr_trips res). bt_action t = Continue))"

definition consistent_result :: "int \<Rightarrow> run_result \<Rightarrow> bool" where
  "consistent_result k res =
     (rr_passes res \<in> {k - 1, k}
      \<and> (rr_outcome res = Aborted \<longleftrightarrow> Abort \<in> bt_action ` set (rr_trips res))
      \<and> (rr_outcome res = Escalated \<longrightarrow> rr_trips res \<noteq> []))"

lemma run_pass_body:
  assumes "pass_fields (h_pass h k) = Inr kvs"
    and "count_usage h spec k (jget kvs ''tokens_used'') tokens st0 = Inr (tokens', st1)"
    and "feed_observations h evs st1 = Inr st2" and "handle_halt h halt st2 = Inr st3"
    and "force_if_late h spec t0 k st3 = Inr st4" and "verify_pass h spec kvs st4 = Inr (report, st5)"
    and "force_if_late h spec t0 k st5 = Inr st6"
    and "feed h ev st6 = Inr st7"
    and "(if k = max_passes spec \<and> \<not> pass_passed report then force h name reason Escalate ev' st7 else Inr st7) = Inr st8"
    and "decide (ls_trips st8) = Continue"
  shows "h_pass h k = JObj kvs \<and> tokens' = Some (tokens + pass_usage h k) \<and> tokens + pass_usage h k < token_budget spec
    \<and> (pass_passed report \<longrightarrow> report = Some (verify (h_evaluators h) (jget kvs ''candidate'') spec)
        \<and> overall_pass (verify (h_evaluators h) (jget kvs ''candidate'') spec))
    \<and> (\<not> pass_passed report \<longrightarrow> k \<noteq> max_passes spec)"
proof -
  have g: "grows st1 st8"
    using feed_observations_mono [OF assms(3)] handle_halt_mono [OF assms(4)] force_if_late_mono [OF assms(5)]
      verify_pass_Inr(1) [OF assms(6)] force_if_late_mono [OF assms(7)] feed_mono [OF assms(8)]
      force_mono [of h name reason Escalate ev' st7 st8] assms(9)
    by (auto split: if_splits)
  have no: "\<forall>t\<in>set (ls_trips st8). bt_action t = Continue" using assms(10) decide_iff(2) by blast
  then have "Abort \<notin> bt_action ` set (ls_trips st1)" using g by auto
  then obtain n where n: "token_count (jget kvs ''tokens_used'') = Some n" "tokens' = Some (tokens + n)" "tokens + n < token_budget spec"
    using count_usage_Inr(2) [OF assms(2)] by blast
  have kvs: "h_pass h k = JObj kvs" using assms(1) by (cases "h_pass h k") (auto split: if_splits)
  have "k \<noteq> max_passes spec \<or> pass_passed report"
    using assms(9) no force_action [of h name reason Escalate ev' st7 st8] by (auto split: if_splits)
  with n kvs verify_pass_Inr(2) [OF assms(6)] show ?thesis
    by (auto simp: pass_usage_def pass_passed_def)
qed

definition pass_sound ::
  "host \<Rightarrow> goal_spec \<Rightarrow> int \<Rightarrow> int \<Rightarrow> run_result + int \<times> verification_report option \<times> loop_state \<Rightarrow> bool" where
  "pass_sound h spec k tokens r =
     (case r of
        Inl res \<Rightarrow> consistent_result k res \<and> (rr_outcome res = Success \<longrightarrow> good_success h spec k tokens res)
      | Inr (tokens', rep, st') \<Rightarrow> k \<noteq> max_passes spec \<and> tokens' = tokens + pass_usage h k \<and> ls_trips st' = [])"

lemma conclude_pass_sound:
  assumes "conclude_pass k tokens' report st = Inr r"
    and "decide (ls_trips st) = Continue \<Longrightarrow> h_pass h k = JObj kvs \<and> tokens' = Some (tokens + pass_usage h k)
      \<and> tokens + pass_usage h k < token_budget spec
      \<and> (pass_passed report \<longrightarrow> report = Some (verify (h_evaluators h) (jget kvs ''candidate'') spec)
          \<and> overall_pass (verify (h_evaluators h) (jget kvs ''candidate'') spec))
      \<and> (\<not> pass_passed report \<longrightarrow> k \<noteq> max_passes spec)"
  shows "pass_sound h spec k tokens r"
proof (cases "decide (ls_trips st)")
  case Abort
  with assms(1) decide_iff(1) show ?thesis
    by (auto simp: conclude_pass_def pass_sound_def consistent_result_def finish_def)
next
  case Escalate
  moreover have "ls_trips st \<noteq> []" "Abort \<notin> bt_action ` set (ls_trips st)"
    using Escalate by (auto simp: decide_def split: if_splits)
  ultimately show ?thesis using assms(1)
    by (auto simp: conclude_pass_def pass_sound_def consistent_result_def finish_def)
next
  case Continue
  then have "\<forall>t\<in>set (ls_trips st). bt_action t = Continue" using decide_iff(2) by blast
  moreover from this have "Abort \<notin> bt_action ` set (ls_trips st)" by auto
  ultimately show ?thesis using assms Continue
    by (cases "pass_passed report")
      (auto simp: conclude_pass_def pass_sound_def consistent_result_def finish_def good_success_def)
qed

lemma run_pass_sound:
  assumes "run_pass h spec t0 k tokens prev st = Inr r" and "Abort \<notin> bt_action ` set (ls_trips st)"
  shows "pass_sound h spec k tokens r"
proof (cases "ls_trips st \<noteq> []")
  case True
  with assms show ?thesis by (auto simp: run_pass_def pass_sound_def consistent_result_def finish_def)
next
  case False
  obtain b st0 where l: "late h spec t0 st = (b, st0)" by fastforce
  show ?thesis
  proof (cases b)
    case True
    with False l assms(1) show ?thesis
      by (auto simp: run_pass_def pass_sound_def consistent_result_def finish_def result_simps dest!: force_action)
  next
    case b: False
    have body: "run_pass h spec t0 k tokens prev st = Inr r" by (rule assms(1))
    obtain kvs tokens' st1 evs st2 st3 st4 report st5 st6 st7 st8 where s:
      "pass_fields (h_pass h k) = Inr kvs"
      "count_usage h spec k (jget kvs ''tokens_used'') tokens st0 = Inr (tokens', st1)"
      "feed_observations h evs st1 = Inr st2" "handle_halt h (jget kvs ''halt'') st2 = Inr st3"
      "force_if_late h spec t0 k st3 = Inr st4" "verify_pass h spec kvs st4 = Inr (report, st5)"
      "force_if_late h spec t0 k st5 = Inr st6"
      "feed h ((''kind'', JStr ''state.transition'') # completed_event k (pass_passed report)) st6 = Inr st7"
      "(if k = max_passes spec \<and> \<not> pass_passed report
        then force h ''max_iteration'' ''max_passes_reached'' Escalate (completed_event k (pass_passed report)) st7 else Inr st7) = Inr st8"
      "conclude_pass k tokens' report st8 = Inr r"
      using body False l b unfolding run_pass_def Let_def by (clarsimp simp: bind_r_Inr_iff)
    show ?thesis using conclude_pass_sound [OF s(10)] run_pass_body [OF s(1-9)] by blast
  qed
qed

section \<open>The whole run\<close>

definition spent :: "host \<Rightarrow> int \<Rightarrow> int" where
  "spent h k = (\<Sum>j\<in>{1..k}. pass_usage h j)"

lemma spent_step: "1 \<le> k \<Longrightarrow> spent h k = spent h (k - 1) + pass_usage h k"
proof -
  assume "1 \<le> k"
  then have "{1..k} = insert k {1..k - 1}" by auto
  then show ?thesis by (simp add: spent_def)
qed

lemma run_passes_sound:
  assumes "run_passes h spec t0 n k tokens prev st = Inr res" and "k + int n = max_passes spec + 1" and "1 \<le> k"
    and "tokens = spent h (k - 1)" and "Abort \<notin> bt_action ` set (ls_trips st)"
  shows "\<exists>j. k \<le> j \<and> j \<le> max_passes spec \<and> consistent_result j res
    \<and> (rr_outcome res = Success \<longrightarrow> good_success h spec j (spent h (j - 1)) res)"
  using assms
proof (induction n arbitrary: k tokens prev st)
  case 0
  then show ?case by simp
next
  case (Suc n)
  obtain r where r: "run_pass h spec t0 k tokens prev st = Inr r"
    and rest: "(case r of Inl res \<Rightarrow> Inr res | Inr (tokens', prev', st') \<Rightarrow> run_passes h spec t0 n (k + 1) tokens' prev' st') = Inr res"
    using Suc.prems(1) by (auto simp: bind_r_Inr_iff)
  note sound = run_pass_sound [OF r Suc.prems(5)]
  show ?case
  proof (cases r)
    case (Inl x)
    with rest sound Suc.prems show ?thesis by (auto simp: pass_sound_def intro!: exI [of _ k])
  next
    case (Inr y)
    obtain tokens' prev' st' where y: "y = (tokens', prev', st')" by (cases y)
    have "tokens' = spent h k" "ls_trips st' = []"
      using sound Inr y Suc.prems(3,4) spent_step [of k h] by (simp_all add: pass_sound_def)
    then obtain j where "k + 1 \<le> j \<and> j \<le> max_passes spec \<and> consistent_result j res
        \<and> (rr_outcome res = Success \<longrightarrow> good_success h spec j (spent h (j - 1)) res)"
      using Suc.IH [of "k + 1" tokens' prev' st'] rest Inr y Suc.prems by auto
    then show ?thesis by (intro exI [of _ j]) simp
  qed
qed

lemma aborting_iff: "aborting ts \<longleftrightarrow> Abort \<in> bt_action ` set ts"
  by (simp add: aborting_def list_ex_iff image_iff) metis

lemma run_sound:
  assumes "run h spec brakes = Inr res"
  shows "(\<exists>j. 1 \<le> j \<and> j \<le> max_passes spec \<and> consistent_result j res
      \<and> (rr_outcome res = Success \<longrightarrow> good_success h spec j (spent h (j - 1)) res))
    \<or> rr_outcome res = Aborted \<and> rr_passes res = 0 \<and> Abort \<in> bt_action ` set (rr_trips res)"
proof -
  let ?st = "\<lparr>ls_brakes = map brake_reset brakes, ls_tick = 1, ls_trips = []\<rparr>"
  obtain st where f: "feed h [(''kind'', JStr ''checkpoint''), (''event'', JStr ''run_opened''),
      (''payload'', JObj [(''event'', JStr ''run_opened'')])] ?st = Inr st"
    and r: "(if aborting (ls_trips st) then Inr (finish Aborted 0 (Some 0) None (ls_trips st))
      else run_passes h spec (h_clock h 0) (nat (max_passes spec)) 1 0 None st) = Inr res"
    using assms by (auto simp: run_def Let_def bind_r_Inr_iff)
  show ?thesis
  proof (cases "aborting (ls_trips st)")
    case True
    with r show ?thesis by (auto simp: aborting_iff finish_def)
  next
    case False
    then have a: "Abort \<notin> bt_action ` set (ls_trips st)" by (simp add: aborting_iff)
    have rp: "run_passes h spec (h_clock h 0) (nat (max_passes spec)) 1 0 None st = Inr res" using r False by simp
    then have "0 < max_passes spec" by (cases "nat (max_passes spec)") auto
    then show ?thesis using run_passes_sound [OF rp _ _ _ a] by (auto simp: spent_def)
  qed
qed

text \<open>The loop's own assertion is the only source of an \<open>AssertionError\<close>.\<close>

definition no_assert :: "'a result \<Rightarrow> bool" where
  "no_assert r = (\<forall>m. r \<noteq> Inl (AssertionError m))"

lemma no_assert_bind: "no_assert m \<Longrightarrow> (\<And>x. m = Inr x \<Longrightarrow> no_assert (f x)) \<Longrightarrow> no_assert (bind_r m f)"
  by (cases m) (auto simp: no_assert_def)

lemma no_assert_simps [simp]: "no_assert (Inr x)" "no_assert (Inl (ContractError s))" "no_assert (Inl (TypeError s))"
  "no_assert (Inl (AttributeError s))" "no_assert (Inl (ValueError s))"
  by (simp_all add: no_assert_def)

lemma no_assert_digest: "no_assert (digest H v)"
  by (simp add: digest_def canonical_def)

lemma no_assert_trip: "no_assert (trip H name reason ev a)"
  by (auto simp: trip_def obs_hash_def intro!: no_assert_bind no_assert_digest)

lemma no_assert_update: "no_assert (brake_update over H clk ev b n)"
  by (cases b)
    (auto simp: max_iteration_update_def budget_update_def wall_clock_trip_def no_progress_update_def fingerprint_def
      completion_update_def Let_def intro!: no_assert_bind no_assert_trip no_assert_digest split: option.splits json.splits prod.splits)

lemma no_assert_feed: "no_assert (feed h ev st)"
proof -
  have "no_assert (feed_brakes h ev bs n ts)" for bs n ts
    by (induction bs arbitrary: n ts) (auto intro!: no_assert_bind no_assert_update split: prod.splits)
  then show ?thesis by (auto simp: feed_def intro!: no_assert_bind split: prod.splits)
qed

lemma no_assert_force: "no_assert (force h name reason a ev st)"
  by (auto simp: force_def intro!: no_assert_bind no_assert_trip)

lemma no_assert_map_r: "(\<And>x. no_assert (f x)) \<Longrightarrow> no_assert (map_r f xs)"
  by (induction xs) (auto intro!: no_assert_bind)

lemma no_assert_fold_r: "(\<And>s x. no_assert (f s x)) \<Longrightarrow> no_assert (fold_r f s xs)"
  by (induction xs arbitrary: s) (auto intro!: no_assert_bind)

lemma no_assert_pass_steps:
  "no_assert (pass_fields v)" "no_assert (count_usage h spec k used tokens st)" "no_assert (observation_events kvs)"
  "no_assert (feed_observations h evs st)" "no_assert (handle_halt h v st)" "no_assert (force_if_late h spec t0 k st)"
  "no_assert (verify_pass h spec kvs st)" "no_assert (conclude_pass k tok rep st)"
proof -
  show "no_assert (pass_fields v)" by (cases v) auto
  show "no_assert (count_usage h spec k used tokens st)"
    by (auto simp: count_usage_def Let_def intro!: no_assert_bind no_assert_force no_assert_feed split: option.splits)
  show "no_assert (observation_events kvs)"
    by (auto simp: observation_events_def intro!: no_assert_map_r split: json.splits)
  show "no_assert (feed_observations h evs st)"
    by (auto simp: feed_observations_def intro!: no_assert_fold_r no_assert_feed)
  show "no_assert (handle_halt h v st)"
    by (auto simp: handle_halt_def intro!: no_assert_force split: json.splits)
  show "no_assert (force_if_late h spec t0 k st)"
    by (auto simp: force_if_late_def intro!: no_assert_force split: prod.splits)
  show "no_assert (verify_pass h spec kvs st)"
    by (auto simp: verify_pass_def Let_def intro!: no_assert_bind no_assert_feed)
  show "no_assert (conclude_pass k tok rep st)"
    by (auto simp: conclude_pass_def split: brake_action.splits option.splits)
qed

lemma no_assert_run_pass: "no_assert (run_pass h spec t0 k tokens prev st)"
  by (auto simp: run_pass_def Let_def
      intro!: no_assert_bind no_assert_pass_steps no_assert_force no_assert_feed split: prod.splits)

lemma no_assert_run_passes:
  assumes "k + int n = max_passes spec + 1" and "0 < n" and "Abort \<notin> bt_action ` set (ls_trips st)"
  shows "no_assert (run_passes h spec t0 n k tokens prev st)"
  using assms
proof (induction n arbitrary: k tokens prev st)
  case 0
  then show ?case by simp
next
  case (Suc n)
  show ?case
    unfolding run_passes.simps
  proof (rule no_assert_bind [OF no_assert_run_pass])
    fix r assume "run_pass h spec t0 k tokens prev st = Inr r"
    then have sound: "pass_sound h spec k tokens r" using run_pass_sound Suc.prems(3) by blast
    show "no_assert (case r of Inl res \<Rightarrow> Inr res | Inr (tokens', prev', st') \<Rightarrow> run_passes h spec t0 n (k + 1) tokens' prev' st')"
    proof (cases r)
      case (Inr y)
      then have "0 < n" "ls_trips (snd (snd y)) = []"
        using sound Suc.prems(1) by (cases n; auto simp: pass_sound_def split: prod.splits)+
      then show ?thesis using Suc.IH [of "k + 1"] Suc.prems Inr by (auto split: prod.splits)
    qed simp
  qed
qed

text \<open>C9. Success is earned: a run that reports success made between one and \<open>max_passes\<close> passes,
  its final report is the verification of the last pass's candidate and every criterion's evaluator
  accepted that candidate, the token total is the sum of the usage the passes reported and stays
  below the budget, and no recorded brake recommended to abort or escalate.\<close>

theorem run_success_sound:
  assumes "run h spec brakes = Inr res" and "rr_outcome res = Success"
  shows "1 \<le> rr_passes res \<and> rr_passes res \<le> max_passes spec
    \<and> (\<exists>kvs. h_pass h (rr_passes res) = JObj kvs
        \<and> rr_report res = Some (verify (h_evaluators h) (jget kvs ''candidate'') spec)
        \<and> list_all (accepts (h_evaluators h) (jget kvs ''candidate'')) (success_criteria spec))
    \<and> rr_tokens res = Some (spent h (rr_passes res)) \<and> spent h (rr_passes res) < token_budget spec
    \<and> (\<forall>t\<in>set (rr_trips res). bt_action t = Continue)"
proof -
  obtain j where j: "1 \<le> j" "j \<le> max_passes spec" "good_success h spec j (spent h (j - 1)) res"
    using run_sound [OF assms(1)] assms(2) by auto
  then show ?thesis
    using spent_step [of j h] by (auto simp: good_success_def overall_pass_iff_accepts)
qed

text \<open>C10. Runs are bounded: for a valid specification the loop never falls through to its final
  assertion, whatever the harness, evaluators and clock do; a run that returns made at most
  \<open>max_passes\<close> passes, is aborted exactly when a recorded brake recommended to abort, and is
  escalated only with a recorded trip.\<close>

theorem run_bounded:
  assumes "valid_goal spec"
  shows "(\<forall>m. run h spec brakes \<noteq> Inl (AssertionError m))
    \<and> (\<forall>res. run h spec brakes = Inr res \<longrightarrow> 0 \<le> rr_passes res \<and> rr_passes res \<le> max_passes spec
        \<and> (rr_outcome res = Aborted \<longleftrightarrow> Abort \<in> bt_action ` set (rr_trips res))
        \<and> (rr_outcome res = Escalated \<longrightarrow> rr_trips res \<noteq> []))"
proof -
  have pos: "0 < max_passes spec" using assms by (simp add: valid_goal_def)
  have "no_assert (run h spec brakes)"
    unfolding run_def Let_def
  proof (rule no_assert_bind [OF no_assert_feed])
    fix st
    show "no_assert (if aborting (ls_trips st) then Inr (finish Aborted 0 (Some 0) None (ls_trips st))
      else run_passes h spec (h_clock h 0) (nat (max_passes spec)) 1 0 None st)"
      using no_assert_run_passes [of 1 "nat (max_passes spec)" spec st h] pos by (auto simp: aborting_iff)
  qed
  then show ?thesis
    using run_sound [of h spec brakes] pos unfolding no_assert_def consistent_result_def by fastforce
qed

definition sample_host :: host where
  "sample_host = \<lparr>h_hash = (\<lambda>_. ''h''), h_over = (\<lambda>_ _ _. False), h_clock = int,
     h_evaluators = [(''pytest'', \<lambda>c _. Inr (Some (if c = JInt 2 then RPass else RFail), Some []))],
     h_pass = (\<lambda>k. JObj [(''candidate'', JInt k), (''tokens_used'', JInt 30)])\<rparr>"

definition sample_brakes :: "brake list" where
  "sample_brakes = [MaxIterationBrake sample_goal 0, BudgetBrake sample_goal 0 None, NoProgressBrake 3 None 0, CompletionBrake False]"

lemma sample_run:
  "case run sample_host sample_goal sample_brakes of Inr res \<Rightarrow> rr_outcome res = Success \<and> rr_passes res = 2 | Inl _ \<Rightarrow> False"
  by code_simp

theorem run_success_sound_witness:
  "\<exists>res. run sample_host sample_goal sample_brakes = Inr res \<and> rr_tokens res = Some 60"
proof -
  obtain res where res: "run sample_host sample_goal sample_brakes = Inr res" "rr_outcome res = Success" "rr_passes res = 2"
    using sample_run by (auto split: sum.splits)
  have "spent sample_host 2 = 60" by code_simp
  with res run_success_sound [OF res(1,2)] show ?thesis by auto
qed

theorem run_bounded_witness:
  "\<exists>res. run sample_host sample_goal sample_brakes = Inr res \<and> rr_passes res \<le> 3"
proof -
  obtain res where res: "run sample_host sample_goal sample_brakes = Inr res" using sample_run by (auto split: sum.splits)
  then have "rr_passes res \<le> max_passes sample_goal" using run_bounded [OF sample_goal_valid] by blast
  with res show ?thesis by (simp add: sample_goal_def)
qed

end
