(* ===== verification/Quarantine.thy ===== *)
theory Quarantine
  imports Goal_Spec
begin

text \<open>
  The quarantine store of \<open>src/residual/quarantine.py\<close>: hold, evaluate, release or deny.

  Each locked section of the source is one operation on the store, so that interleavings of
  concurrent callers are sequences of operations: \<open>release\<close> is \<open>begin_release\<close>, the host
  executor outside the lock, then \<open>finish_release\<close>; \<open>deny\<close> is \<open>begin_deny\<close> and
  \<open>finish_deny\<close>. A handle carries the identity of its Python object (\<open>ha_ref\<close>), which is what
  the source's \<open>is\<close> test compares. The relation \<open>qstep\<close> and its traces \<open>qtrace\<close> are the runs
  of the store.
\<close>

section \<open>Actions, policies and handles\<close>

datatype action_type = ToolCall | FileWrite | ProviderCall | ConfigChange

datatype policy_decision = Allow | Deny

record proposed_action =
  pa_type :: action_type
  pa_name :: string
  pa_arguments :: "(string \<times> json) list"
  pa_agent :: string

definition mk_proposed_action :: "proposed_action \<Rightarrow> proposed_action result" where
  "mk_proposed_action a =
     bind_r (mk_identifier (pa_agent a)) (\<lambda>_.
     bind_r (ensure (pa_name a \<noteq> []) (ContractError ''action requires a name'')) (\<lambda>_.
     bind_r (ensure (is_ok (freeze (JObj (pa_arguments a)))) (ContractError ''action arguments must be canonicalizable'')) (\<lambda>_.
     Inr a)))"

fun action_type_value :: "action_type \<Rightarrow> string" where
  "action_type_value ToolCall = ''tool_call''"
| "action_type_value FileWrite = ''file_write''"
| "action_type_value ProviderCall = ''provider_call''"
| "action_type_value ConfigChange = ''config_change''"

definition action_fingerprint :: "(string \<Rightarrow> string) \<Rightarrow> proposed_action \<Rightarrow> string" where
  "action_fingerprint H a = H (dumps (JObj [(''action_type'', JStr (action_type_value (pa_type a))),
     (''name'', JStr (pa_name a)), (''arguments'', JObj (pa_arguments a)), (''agent_id'', JStr (pa_agent a))]))"

record held_action =
  ha_action :: proposed_action
  ha_time :: int
  ha_id :: string
  ha_ref :: nat

text \<open>What calling a policy gives: \<open>None\<close>, a reason, a value of another type, or an exception.\<close>

datatype policy_outcome = PNone | PReason string | PInvalid | PRaised

datatype policy =
    DenylistPolicy "string list"
  | PathTraversalPolicy
  | BudgetPolicy nat int
  | HostPolicy string "proposed_action \<Rightarrow> policy_outcome"

definition replace_backslash :: "string \<Rightarrow> string" where
  "replace_backslash = map (\<lambda>c. if c = CHR 0x5C then CHR ''/'' else c)"

definition drive_prefix :: "string \<Rightarrow> bool" where
  "drive_prefix p = (case p of c # d # _ \<Rightarrow> is_letter c \<and> d = CHR '':'' | _ \<Rightarrow> False)"

definition path_traversal_policy :: "proposed_action \<Rightarrow> policy_outcome" where
  "path_traversal_policy a =
     (if pa_type a \<noteq> FileWrite then PNone
      else case (case map_of (pa_arguments a) ''path'' of None \<Rightarrow> JStr [] | Some v \<Rightarrow> v) of
        JStr path \<Rightarrow>
          if path = [] \<or> CHR 0x00 \<in> set path then PReason ''file_write path must be a string''
          else if ''..'' \<in> set (split_on (CHR ''/'') (replace_backslash path))
            \<or> hd path = CHR ''/'' \<or> hd path = CHR 0x5C \<or> drive_prefix path
          then PReason ''path escapes workspace''
          else PNone
      | _ \<Rightarrow> PReason ''file_write path must be a string'')"

definition mk_budget_policy :: "int \<Rightarrow> policy result" where
  "mk_budget_policy m = bind_r (positive_int (JInt m) ''max_actions'' True) (\<lambda>_. Inr (BudgetPolicy 0 m))"

text \<open>Calling a policy: its successor state (the budget counts every call) and its outcome.\<close>

fun run_policy :: "policy \<Rightarrow> proposed_action \<Rightarrow> policy \<times> policy_outcome" where
  "run_policy (DenylistPolicy names) a = (DenylistPolicy names,
     if pa_name a \<in> set names then PReason (''action '' @ pa_name a @ '' is on the denylist'') else PNone)"
| "run_policy PathTraversalPolicy a = (PathTraversalPolicy, path_traversal_policy a)"
| "run_policy (BudgetPolicy count m) a = (BudgetPolicy (count + 1) m,
     if int (count + 1) > m then PReason (''action budget exhausted ('' @ int_str m @ '')'') else PNone)"
| "run_policy (HostPolicy name f) a = (HostPolicy name f, f a)"

fun policy_name :: "policy \<Rightarrow> string" where
  "policy_name (DenylistPolicy _) = ''denylist_policy''"
| "policy_name PathTraversalPolicy = ''path_traversal_policy''"
| "policy_name (BudgetPolicy _ _) = ''budget_policy''"
| "policy_name (HostPolicy name _) = name"

fun denial_reason :: "policy_outcome \<Rightarrow> string option" where
  "denial_reason PNone = None"
| "denial_reason (PReason r) = Some (if blank r then ''invalid_policy_result'' else take_chars 1000 r)"
| "denial_reason PInvalid = Some ''invalid_policy_result''"
| "denial_reason PRaised = Some ''policy_error''"

fun run_policies :: "policy list \<Rightarrow> proposed_action \<Rightarrow> policy list \<times> (string \<times> string) list" where
  "run_policies [] a = ([], [])"
| "run_policies (p # ps) a =
     (let (p', out) = run_policy p a; (ps', ds) = run_policies ps a in
      (p' # ps', (case denial_reason out of None \<Rightarrow> ds | Some r \<Rightarrow> (policy_name p, r) # ds)))"

section \<open>The store\<close>

datatype hold_state = Held | Evaluated | Executing | Executed | Denied

record hold_entry =
  he_held :: held_action
  he_state :: hold_state
  he_decision :: "policy_decision option"

datatype log_entry =
    LogHeld string string
  | LogEvaluated string string policy_decision "(string \<times> string) list"
  | LogExecuted string string "string option"
  | LogDenied string string string string

fun log_fingerprint :: "log_entry \<Rightarrow> string" where
  "log_fingerprint (LogHeld _ fp) = fp"
| "log_fingerprint (LogEvaluated _ fp _ _) = fp"
| "log_fingerprint (LogExecuted _ fp _) = fp"
| "log_fingerprint (LogDenied _ fp _ _) = fp"

record quarantine =
  q_store_id :: string
  q_counter :: nat
  q_holds :: "(string, hold_entry) dict"
  q_log :: "log_entry list"

definition new_quarantine :: "string \<Rightarrow> quarantine" where
  "new_quarantine sid = \<lparr>q_store_id = sid, q_counter = 0, q_holds = [], q_log = []\<rparr>"

text \<open>\<open>f"{counter:08d}"\<close>.\<close>

definition pad8 :: "nat \<Rightarrow> string" where
  "pad8 n = replicate (8 - length (nat_str n)) (CHR ''0'') @ nat_str n"

definition hold_id_of :: "string \<Rightarrow> nat \<Rightarrow> string" where
  "hold_id_of sid n = sid @ ''-hold-'' @ pad8 n"

definition hold :: "(string \<Rightarrow> string) \<Rightarrow> quarantine \<Rightarrow> proposed_action \<Rightarrow> int \<Rightarrow> held_action \<times> quarantine" where
  "hold H q a now =
     (let n = q_counter q + 1;
          held = \<lparr>ha_action = a, ha_time = now, ha_id = hold_id_of (q_store_id q) n, ha_ref = n\<rparr> in
      (held, q\<lparr>q_counter := n,
        q_holds := AList.update (ha_id held) \<lparr>he_held = held, he_state = Held, he_decision = None\<rparr> (q_holds q),
        q_log := q_log q @ [LogHeld (ha_id held) (action_fingerprint H a)]\<rparr>))"

definition entry_of :: "quarantine \<Rightarrow> held_action \<Rightarrow> hold_entry result" where
  "entry_of q h =
     (case map_of (q_holds q) (ha_id h) of
        None \<Rightarrow> Inl (ContractError ''foreign or forged quarantine hold'')
      | Some e \<Rightarrow> if ha_ref (he_held e) = ha_ref h then Inr e
                  else Inl (ContractError ''foreign or forged quarantine hold''))"

definition set_entry :: "quarantine \<Rightarrow> held_action \<Rightarrow> hold_entry \<Rightarrow> quarantine" where
  "set_entry q h e = q\<lparr>q_holds := AList.update (ha_id h) e (q_holds q)\<rparr>"

definition evaluate ::
  "(string \<Rightarrow> string) \<Rightarrow> quarantine \<Rightarrow> held_action \<Rightarrow> policy list \<Rightarrow> (policy_decision \<times> policy list \<times> quarantine) result" where
  "evaluate H q h policies =
     bind_r (entry_of q h) (\<lambda>e.
     if he_state e \<notin> {Held, Evaluated} then Inl (ContractError ''quarantine hold is already consumed'')
     else case he_decision e of
       Some d \<Rightarrow> Inr (d, policies, q)
     | None \<Rightarrow>
         let (policies', denials) = run_policies policies (ha_action h);
             d = (if denials \<noteq> [] then Deny else Allow);
             q' = set_entry q h (e\<lparr>he_state := Evaluated, he_decision := Some d\<rparr>) in
         Inr (d, policies', q'\<lparr>q_log := q_log q' @ [LogEvaluated (ha_id h) (action_fingerprint H (ha_action h)) d denials]\<rparr>))"

definition begin_release :: "quarantine \<Rightarrow> held_action \<Rightarrow> quarantine result" where
  "begin_release q h =
     bind_r (entry_of q h) (\<lambda>e.
     if he_state e \<noteq> Evaluated \<or> he_decision e \<noteq> Some Allow
     then Inl (ContractError ''release requires an unconsumed, allowed evaluation'')
     else Inr (set_entry q h (e\<lparr>he_state := Executing\<rparr>)))"

text \<open>The second locked section holds the entry object itself: it is reached through the handle's
  identifier, which no operation removes.\<close>

definition finish_release :: "(string \<Rightarrow> string) \<Rightarrow> quarantine \<Rightarrow> held_action \<Rightarrow> string option \<Rightarrow> quarantine" where
  "finish_release H q h err =
     (case map_of (q_holds q) (ha_id h) of
        None \<Rightarrow> q
      | Some e \<Rightarrow>
          (let q' = set_entry q h (e\<lparr>he_state := Executed\<rparr>) in
           q'\<lparr>q_log := q_log q' @ [LogExecuted (ha_id h) (action_fingerprint H (ha_action h)) err]\<rparr>))"

text \<open>\<open>release\<close> without interleaving: \<open>executor\<close> is host code, its exception is caught and
  recorded by name; the first component says whether it is raised again afterwards.\<close>

definition release ::
  "(string \<Rightarrow> string) \<Rightarrow> quarantine \<Rightarrow> held_action \<Rightarrow> (proposed_action \<Rightarrow> string + json) \<Rightarrow> bool
     \<Rightarrow> (bool \<times> (string + json) \<times> quarantine) result" where
  "release H q h executor raise_errors =
     bind_r (begin_release q h) (\<lambda>q1.
     let out = executor (ha_action h);
         q2 = finish_release H q1 h (case out of Inl exc \<Rightarrow> Some exc | Inr _ \<Rightarrow> None) in
     Inr (raise_errors \<and> isl out, out, q2))"

definition begin_deny :: "quarantine \<Rightarrow> held_action \<Rightarrow> string \<Rightarrow> quarantine result" where
  "begin_deny q h reason =
     bind_r (ensure (\<not> blank reason) (ContractError ''denial requires a reason'')) (\<lambda>_.
     bind_r (entry_of q h) (\<lambda>e.
     if he_state e \<noteq> Evaluated \<or> he_decision e \<noteq> Some Deny
     then Inl (ContractError ''deny requires an unconsumed denied evaluation'')
     else Inr (set_entry q h (e\<lparr>he_state := Denied\<rparr>))))"

definition finish_deny :: "(string \<Rightarrow> string) \<Rightarrow> quarantine \<Rightarrow> held_action \<Rightarrow> string \<Rightarrow> string \<Rightarrow> quarantine" where
  "finish_deny H q h reason pname =
     q\<lparr>q_log := q_log q @ [LogDenied (ha_id h) (action_fingerprint H (ha_action h)) reason pname]\<rparr>"

definition query_log :: "quarantine \<Rightarrow> string \<Rightarrow> log_entry list" where
  "query_log q fp = filter (\<lambda>e. log_fingerprint e = fp) (q_log q)"

section \<open>Runs of the store\<close>

datatype qlabel =
    QHold string
  | QEvaluate string policy_decision "(string \<times> string) list"
  | QCached string
  | QBegin string
  | QFinish string
  | QDeny string
  | QDenied string

inductive qstep :: "(string \<Rightarrow> string) \<Rightarrow> quarantine \<Rightarrow> qlabel \<Rightarrow> quarantine \<Rightarrow> bool" for H where
  step_hold: "hold H q a now = (h, q') \<Longrightarrow> qstep H q (QHold (ha_id h)) q'"
| step_evaluate: "evaluate H q h ps = Inr (d, ps', q') \<Longrightarrow> entry_of q h = Inr e \<Longrightarrow> he_decision e = None \<Longrightarrow>
    qstep H q (QEvaluate (ha_id h) d (snd (run_policies ps (ha_action h)))) q'"
| step_cached: "evaluate H q h ps = Inr (d, ps', q') \<Longrightarrow> entry_of q h = Inr e \<Longrightarrow> he_decision e \<noteq> None \<Longrightarrow>
    qstep H q (QCached (ha_id h)) q'"
| step_begin: "begin_release q h = Inr q' \<Longrightarrow> qstep H q (QBegin (ha_id h)) q'"
| step_finish: "entry_of q h = Inr e \<Longrightarrow> he_state e = Executing \<Longrightarrow> qstep H q (QFinish (ha_id h)) (finish_release H q h err)"
| step_deny: "begin_deny q h reason = Inr q' \<Longrightarrow> qstep H q (QDeny (ha_id h)) q'"
| step_denied: "entry_of q h = Inr e \<Longrightarrow> he_state e = Denied \<Longrightarrow> qstep H q (QDenied (ha_id h)) (finish_deny H q h reason pname)"

inductive qtrace :: "(string \<Rightarrow> string) \<Rightarrow> quarantine \<Rightarrow> qlabel list \<Rightarrow> quarantine \<Rightarrow> bool" for H q where
  trace_start: "qtrace H q [] q"
| trace_step: "qtrace H q ls q' \<Longrightarrow> qstep H q' l q'' \<Longrightarrow> qtrace H q (ls @ [l]) q''"

inductive_cases qtrace_snocE: "qtrace H q (ls @ [l]) q'"
inductive_cases qtrace_nilE: "qtrace H q [] q'"

section \<open>The history of a hold\<close>

text \<open>The transitions of one hold; cached evaluations and the log entry of a denial change no state.\<close>

fun about :: "string \<Rightarrow> qlabel \<Rightarrow> bool" where
  "about i (QHold j) = (i = j)"
| "about i (QEvaluate j _ _) = (i = j)"
| "about i (QBegin j) = (i = j)"
| "about i (QFinish j) = (i = j)"
| "about i (QDeny j) = (i = j)"
| "about i _ = False"

definition history :: "string \<Rightarrow> hold_entry option \<Rightarrow> qlabel list \<Rightarrow> bool" where
  "history i oe ls =
     (case oe of
        None \<Rightarrow> ls = []
      | Some e \<Rightarrow>
          (case he_state e of
             Held \<Rightarrow> he_decision e = None \<and> ls = [QHold i]
           | Evaluated \<Rightarrow> (\<exists>ds. he_decision e = Some (if ds = [] then Allow else Deny)
                \<and> ls = [QHold i, QEvaluate i (if ds = [] then Allow else Deny) ds])
           | Executing \<Rightarrow> he_decision e = Some Allow \<and> ls = [QHold i, QEvaluate i Allow [], QBegin i]
           | Executed \<Rightarrow> he_decision e = Some Allow \<and> ls = [QHold i, QEvaluate i Allow [], QBegin i, QFinish i]
           | Denied \<Rightarrow> (\<exists>ds. ds \<noteq> [] \<and> he_decision e = Some Deny \<and> ls = [QHold i, QEvaluate i Deny ds, QDeny i])))"

definition q_inv :: "string \<Rightarrow> qlabel list \<Rightarrow> quarantine \<Rightarrow> bool" where
  "q_inv sid ls q =
     (q_store_id q = sid
      \<and> (\<forall>i e. map_of (q_holds q) i = Some e \<longrightarrow> (\<exists>n\<le>q_counter q. i = hold_id_of sid n))
      \<and> (\<forall>i. history i (map_of (q_holds q) i) (filter (about i) ls)))"

lemma digits_val_zeros: "digits_val 0 (replicate k (CHR ''0'') @ s) = digits_val 0 s"
  by (induction k) (auto simp: digit_val_def)

lemma hold_id_inj: "hold_id_of sid n = hold_id_of sid m \<Longrightarrow> n = m"
proof -
  assume "hold_id_of sid n = hold_id_of sid m"
  then have "digits_val 0 (pad8 n) = digits_val 0 (pad8 m)" by (simp add: hold_id_of_def)
  then show ?thesis by (simp add: pad8_def digits_val_zeros digits_val_nat_str)
qed

lemma entry_of_Inr: "entry_of q h = Inr e \<longleftrightarrow> map_of (q_holds q) (ha_id h) = Some e \<and> ha_ref (he_held e) = ha_ref h"
  by (auto simp: entry_of_def split: option.splits)

text \<open>Every operation that consumes a hold is an update of one entry.\<close>

lemma q_inv_update:
  assumes "q_inv sid ls q" and "map_of (q_holds q) i = Some e"
    and "q_store_id q' = q_store_id q" "q_counter q' = q_counter q" "q_holds q' = AList.update i e' (q_holds q)"
    and "\<And>j. about j l \<longleftrightarrow> j = i"
    and "history i (Some e) (filter (about i) ls) \<Longrightarrow> history i (Some e') (filter (about i) ls @ [l])"
  shows "q_inv sid (ls @ [l]) q'"
  unfolding q_inv_def
proof (intro conjI allI impI)
  show "q_store_id q' = sid" using assms(1,3) by (simp add: q_inv_def)
  fix j
  have "filter (about j) (ls @ [l]) = filter (about j) ls @ (if j = i then [l] else [])" using assms(6) by simp
  moreover have "history j (map_of (q_holds q) j) (filter (about j) ls)" using assms(1) unfolding q_inv_def by blast
  ultimately show "history j (map_of (q_holds q') j) (filter (about j) (ls @ [l]))"
    using assms(2,5,7) by (cases "j = i") simp_all
  fix f assume "map_of (q_holds q') j = Some f"
  then have "\<exists>f. map_of (q_holds q) j = Some f" using assms(2,5) by (cases "j = i") auto
  then show "\<exists>n\<le>q_counter q'. j = hold_id_of sid n" using assms(1,4) unfolding q_inv_def by auto
qed

lemma q_inv_same:
  assumes "q_inv sid ls q" and "q_store_id q' = q_store_id q" "q_counter q' = q_counter q" "q_holds q' = q_holds q"
    and "\<And>j. \<not> about j l"
  shows "q_inv sid (ls @ [l]) q'"
  using assms unfolding q_inv_def by simp

lemma hold_inv:
  assumes "q_inv sid ls q" and "hold H q a now = (h, q')"
  shows "q_inv sid (ls @ [QHold (ha_id h)]) q'"
proof -
  let ?i = "hold_id_of sid (q_counter q + 1)"
  have sid: "q_store_id q = sid" using assms(1) by (simp add: q_inv_def)
  have h: "ha_id h = ?i" "q_store_id q' = sid" "q_counter q' = q_counter q + 1"
    "\<exists>hd. q_holds q' = AList.update ?i \<lparr>he_held = hd, he_state = Held, he_decision = None\<rparr> (q_holds q)"
    using assms(2) sid by (auto simp: hold_def Let_def)
  have "map_of (q_holds q) ?i \<noteq> Some e" for e
  proof
    assume "map_of (q_holds q) ?i = Some e"
    then obtain n where "n \<le> q_counter q" "?i = hold_id_of sid n" using assms(1) unfolding q_inv_def by blast
    then show False using hold_id_inj by fastforce
  qed
  then have fresh: "map_of (q_holds q) ?i = None" by (cases "map_of (q_holds q) ?i") auto
  show ?thesis
    unfolding q_inv_def
  proof (intro conjI allI impI)
    show "q_store_id q' = sid" by (rule h)
    fix i
    have hist: "history i (map_of (q_holds q) i) (filter (about i) ls)" using assms(1) unfolding q_inv_def by blast
    moreover have "filter (about i) (ls @ [QHold (ha_id h)]) = filter (about i) ls @ (if i = ?i then [QHold i] else [])"
      using h(1) by simp
    moreover have "history i (Some \<lparr>he_held = hd, he_state = Held, he_decision = None\<rparr>) (filter (about i) ls @ [QHold i])"
      if "i = ?i" for hd using hist that fresh by (simp add: history_def)
    ultimately show "history i (map_of (q_holds q') i) (filter (about i) (ls @ [QHold (ha_id h)]))"
      using h(4) by (cases "i = ?i") fastforce+
    fix e assume "map_of (q_holds q') i = Some e"
    then have "i = ?i \<or> map_of (q_holds q) i = Some e" using h(4) by (auto split: if_splits)
    then show "\<exists>n\<le>q_counter q'. i = hold_id_of sid n"
      using assms(1) h(3) unfolding q_inv_def by (metis le_add1 order_refl order_trans)
  qed
qed

lemma qstep_inv:
  assumes "qstep H q l q'" and "q_inv sid ls q"
  shows "q_inv sid (ls @ [l]) q'"
  using assms
proof (induction rule: qstep.induct)
  case (step_hold q a now h q')
  then show ?case using hold_inv by blast
next
  case (step_evaluate q h ps d ps' q' e)
  have e: "map_of (q_holds q) (ha_id h) = Some e" using step_evaluate.hyps(2) by (simp add: entry_of_Inr)
  let ?ds = "snd (run_policies ps (ha_action h))"
  have d: "d = (if ?ds = [] then Allow else Deny)" "he_state e \<in> {Held, Evaluated}"
    "q_store_id q' = q_store_id q" "q_counter q' = q_counter q"
    "q_holds q' = AList.update (ha_id h) (e\<lparr>he_state := Evaluated, he_decision := Some d\<rparr>) (q_holds q)"
    using step_evaluate.hyps by (auto simp: evaluate_def set_entry_def Let_def split: if_splits prod.splits)
  show ?case
    by (rule q_inv_update [OF step_evaluate.prems e d(3-5)])
      (use d(1,2) step_evaluate.hyps(3) in \<open>auto simp: history_def\<close>)
next
  case (step_cached q h ps d ps' q' e)
  then have "q' = q" by (auto simp: evaluate_def split: if_splits)
  then show ?case using step_cached.prems by (auto intro: q_inv_same)
next
  case (step_begin q h q')
  then obtain e where e: "map_of (q_holds q) (ha_id h) = Some e" "he_state e = Evaluated" "he_decision e = Some Allow"
    "q' = set_entry q h (e\<lparr>he_state := Executing\<rparr>)"
    by (auto simp: begin_release_def result_simps entry_of_Inr split: if_splits)
  show ?case
    by (rule q_inv_update [OF step_begin.prems e(1)]) (use e in \<open>auto simp: set_entry_def history_def split: if_splits\<close>)
next
  case (step_finish q h e err)
  then have e: "map_of (q_holds q) (ha_id h) = Some e" by (simp add: entry_of_Inr)
  show ?case
    by (rule q_inv_update [OF step_finish.prems e, where e' = "e\<lparr>he_state := Executed\<rparr>"])
      (use e step_finish.hyps in \<open>auto simp: finish_release_def set_entry_def history_def Let_def\<close>)
next
  case (step_deny q h reason q')
  then obtain e where e: "map_of (q_holds q) (ha_id h) = Some e" "he_state e = Evaluated" "he_decision e = Some Deny"
    "q' = set_entry q h (e\<lparr>he_state := Denied\<rparr>)"
    by (auto simp: begin_deny_def result_simps entry_of_Inr split: if_splits)
  show ?case
    by (rule q_inv_update [OF step_deny.prems e(1)]) (use e in \<open>auto simp: set_entry_def history_def split: if_splits\<close>)
next
  case (step_denied q h e reason pname)
  then show ?case by (auto simp: finish_deny_def intro!: q_inv_same)
qed

lemma qtrace_inv: "qtrace H (new_quarantine sid) ls q \<Longrightarrow> q_inv sid ls q"
proof (induction rule: qtrace.induct)
  case trace_start
  then show ?case by (simp add: q_inv_def new_quarantine_def history_def)
next
  case (trace_step ls q' l q'')
  then show ?case using qstep_inv by blast
qed

text \<open>C5. No path skips the hold and none executes without evaluation: in every interleaving of store
  operations, the transitions of each hold identifier are an initial part of hold, evaluation, then
  either (no policy denied) start and end of one execution, or (some policy denied) a denial. So an
  executor runs at most once per hold, only after every policy allowed it, and never after a denial.\<close>

theorem quarantine_lifecycle:
  assumes "qtrace H (new_quarantine sid) ls q"
  shows "\<exists>ds k. filter (about i) ls = take k
    (if ds = [] then [QHold i, QEvaluate i Allow [], QBegin i, QFinish i]
     else [QHold i, QEvaluate i Deny ds, QDeny i])"
proof -
  have hist: "history i (map_of (q_holds q) i) (filter (about i) ls)"
    using qtrace_inv [OF assms] unfolding q_inv_def by blast
  show ?thesis
  proof (cases "map_of (q_holds q) i")
    case None
    with hist show ?thesis by (intro exI [of _ "[]"] exI [of _ 0]) (simp add: history_def)
  next
    case (Some e)
    note h = hist [unfolded history_def Some option.case]
    show ?thesis
    proof (cases "he_state e")
      case Held
      with h show ?thesis by (intro exI [of _ "[]"] exI [of _ 1]) simp
    next
      case Evaluated
      with h obtain ds where "filter (about i) ls = [QHold i, QEvaluate i (if ds = [] then Allow else Deny) ds]" by auto
      then show ?thesis by (intro exI [of _ ds] exI [of _ 2]) simp
    next
      case Executing
      with h show ?thesis by (intro exI [of _ "[]"] exI [of _ 3]) simp
    next
      case Executed
      with h show ?thesis by (intro exI [of _ "[]"] exI [of _ 4]) simp
    next
      case Denied
      with h obtain ds where "ds \<noteq> []" "filter (about i) ls = [QHold i, QEvaluate i Deny ds, QDeny i]" by auto
      then show ?thesis by (intro exI [of _ ds] exI [of _ 3]) simp
    qed
  qed
qed

theorem quarantine_lifecycle_witness:
  "\<exists>ds k. filter (about (hold_id_of ''s'' 1)) [QHold (hold_id_of ''s'' 1)] = take k
    (if ds = [] then [QHold (hold_id_of ''s'' 1), QEvaluate (hold_id_of ''s'' 1) Allow [], QBegin (hold_id_of ''s'' 1), QFinish (hold_id_of ''s'' 1)]
     else [QHold (hold_id_of ''s'' 1), QEvaluate (hold_id_of ''s'' 1) Deny ds, QDeny (hold_id_of ''s'' 1)])"
proof -
  let ?a = "\<lparr>pa_type = ToolCall, pa_name = ''ls'', pa_arguments = [], pa_agent = ''a''\<rparr>"
  obtain h q where h: "hold id (new_quarantine ''s'') ?a 0 = (h, q)" by fastforce
  then have "ha_id h = hold_id_of ''s'' 1" by (auto simp: hold_def new_quarantine_def Let_def)
  moreover have "qtrace id (new_quarantine ''s'') ([] @ [QHold (ha_id h)]) q"
    using trace_step [OF trace_start step_hold [OF h]] .
  ultimately have "qtrace id (new_quarantine ''s'') [QHold (hold_id_of ''s'' 1)] q" by simp
  then show ?thesis by (rule quarantine_lifecycle)
qed

section \<open>Policies\<close>

text \<open>A file write that the path policy allows has a non-empty relative path without a NUL byte,
  whose components under both separators never contain \<open>..\<close>, and no drive prefix.\<close>

theorem path_policy_confines:
  assumes "path_traversal_policy a = PNone" and "pa_type a = FileWrite"
  shows "\<exists>path. map_of (pa_arguments a) ''path'' = Some (JStr path) \<and> path \<noteq> [] \<and> CHR 0x00 \<notin> set path
    \<and> hd path \<noteq> CHR ''/'' \<and> hd path \<noteq> CHR 0x5C \<and> \<not> drive_prefix path
    \<and> (\<forall>part\<in>set (split_on (CHR ''/'') (replace_backslash path)). part \<noteq> ''..'' \<and> CHR ''/'' \<notin> set part \<and> CHR 0x5C \<notin> set part)"
proof -
  obtain path where p: "map_of (pa_arguments a) ''path'' = Some (JStr path)" "path \<noteq> []" "CHR 0x00 \<notin> set path"
    "hd path \<noteq> CHR ''/''" "hd path \<noteq> CHR 0x5C" "\<not> drive_prefix path"
    "''..'' \<notin> set (split_on (CHR ''/'') (replace_backslash path))"
    using assms by (auto simp: path_traversal_policy_def split: option.splits json.splits if_splits)
  have sub: "set part \<subseteq> set s" if "part \<in> set (split_on c s)" for part c and s :: string
    using that
  proof (induction s arbitrary: part)
    case (Cons x s)
    then show ?case by (cases "split_on c s") (fastforce split: if_splits)+
  qed simp
  have "CHR 0x5C \<notin> set (replace_backslash path)" by (auto simp: replace_backslash_def)
  then have "\<forall>part\<in>set (split_on (CHR ''/'') (replace_backslash path)). part \<noteq> ''..'' \<and> CHR ''/'' \<notin> set part \<and> CHR 0x5C \<notin> set part"
    using p(7) sub split_on_no_sep by blast
  with p show ?thesis by blast
qed

theorem path_policy_confines_witness:
  "\<exists>path. map_of [(''path'', JStr ''a/b'')] ''path'' = Some (JStr path) \<and> hd path \<noteq> CHR ''/''"
  using path_policy_confines [of "\<lparr>pa_type = FileWrite, pa_name = ''w'', pa_arguments = [(''path'', JStr ''a/b'')], pa_agent = ''x''\<rparr>"]
  by (simp add: path_traversal_policy_def replace_backslash_def drive_prefix_def is_letter_def is_lower_def is_upper_def less_eq_char_def)

end
