(* ===== verification/Hash_Chain.thy ===== *)
theory Hash_Chain
  imports Json_Roundtrip
begin

text \<open>
  The contract of a hash-linked log, shared by the run ledger (\<open>src/residual/storage.py\<close>), the
  state journal (\<open>src/residual/dsm/journal.py\<close>) and the replicated receipt chain
  (\<open>src/residual/hadr/chain.py\<close>): entry \<open>i\<close> carries sequence number \<open>i\<close>, the hash of its
  predecessor (a genesis value for entry 0) and the hash of its own text. The locale
  \<open>hash_chain\<close> proves once that appending keeps the links and that the head hash binds the
  whole log, up to an explicit collision of the hash function.
\<close>

fun linked :: "(string \<Rightarrow> string) \<Rightarrow> ('e \<Rightarrow> string) \<Rightarrow> ('e \<Rightarrow> nat) \<Rightarrow> ('e \<Rightarrow> string) \<Rightarrow> ('e \<Rightarrow> string)
    \<Rightarrow> nat \<Rightarrow> string \<Rightarrow> 'e list \<Rightarrow> bool" where
  "linked H text_of seq prev hash i p [] = True"
| "linked H text_of seq prev hash i p (e # es) =
     (seq e = i \<and> prev e = p \<and> hash e = H (text_of e) \<and> linked H text_of seq prev hash (Suc i) (hash e) es)"

definition chain_head :: "('e \<Rightarrow> string) \<Rightarrow> string \<Rightarrow> 'e list \<Rightarrow> string" where
  "chain_head hash p es = (if es = [] then p else hash (last es))"

lemma linked_append:
  "linked H text_of seq prev hash i p (es @ fs) \<longleftrightarrow>
     linked H text_of seq prev hash i p es \<and>
     linked H text_of seq prev hash (i + length es) (chain_head hash p es) fs"
  by (induction es arbitrary: i p) (auto simp: chain_head_def)

lemma linked_seq: "linked H text_of seq prev hash i p es \<Longrightarrow> map seq es = [i..<i + length es]"
proof (induction es arbitrary: i p)
  case Nil
  then show ?case by simp
next
  case (Cons e es)
  have "map seq es = [Suc i..<Suc i + length es]" using Cons.prems by (intro Cons.IH) auto
  moreover have "[i..<i + length (e # es)] = i # [Suc i..<Suc i + length es]"
    using upt_conv_Cons [of i "i + length (e # es)"] by (simp del: upt_Suc)
  ultimately show ?case using Cons.prems by (simp del: upt_Suc)
qed

lemma chain_head_snoc [simp]: "chain_head hash p (es @ [e]) = hash e"
  by (simp add: chain_head_def)

locale hash_chain =
  fixes H :: "string \<Rightarrow> string"
    and text_of :: "'e \<Rightarrow> string"
    and seq :: "'e \<Rightarrow> nat"
    and prev :: "'e \<Rightarrow> string"
    and hash :: "'e \<Rightarrow> string"
    and wf_entry :: "'e \<Rightarrow> bool"
    and genesis :: string
  assumes text_binds: "wf_entry e \<Longrightarrow> wf_entry f \<Longrightarrow> text_of e = text_of f \<Longrightarrow> seq e = seq f \<and> prev e = prev f"
begin

lemma append_keeps_links:
  assumes "linked H text_of seq prev hash 0 genesis es" and "seq e = length es"
    and "prev e = chain_head hash genesis es" and "hash e = H (text_of e)"
  shows "linked H text_of seq prev hash 0 genesis (es @ [e])"
  using assms by (simp add: linked_append)

lemma head_binds_log:
  assumes "linked H text_of seq prev hash 0 genesis es" and "linked H text_of seq prev hash 0 genesis fs"
    and "list_all wf_entry es" and "list_all wf_entry fs" and "es \<noteq> []" and "fs \<noteq> []"
    and "chain_head hash genesis es = chain_head hash genesis fs"
  shows "map text_of es = map text_of fs \<or> (\<exists>e\<in>set es. \<exists>f\<in>set fs. collision H (text_of e) (text_of f))"
  using assms
proof (induction es arbitrary: fs rule: rev_induct)
  case Nil
  then show ?case by simp
next
  case (snoc e es)
  obtain fs' f where fs: "fs = fs' @ [f]" using snoc.prems(6) by (cases fs rule: rev_cases) auto
  have e: "seq e = length es" "prev e = chain_head hash genesis es" "hash e = H (text_of e)"
    using snoc.prems(1) by (simp_all add: linked_append)
  have f: "seq f = length fs'" "prev f = chain_head hash genesis fs'" "hash f = H (text_of f)"
    using snoc.prems(2) fs by (simp_all add: linked_append)
  have h: "H (text_of e) = H (text_of f)" using snoc.prems(7) e f fs by simp
  show ?case
  proof (cases "text_of e = text_of f")
    case False
    with h fs show ?thesis by (auto simp: collision_def)
  next
    case True
    then have same: "length es = length fs'" "chain_head hash genesis es = chain_head hash genesis fs'"
      using text_binds [of e f] snoc.prems(3,4) e f fs by auto
    show ?thesis
    proof (cases "es = []")
      case True
      with same fs \<open>text_of e = text_of f\<close> show ?thesis by simp
    next
      case False
      with same(1) have "fs' \<noteq> []" by auto
      with False have "map text_of es = map text_of fs' \<or> (\<exists>e\<in>set es. \<exists>f\<in>set fs'. collision H (text_of e) (text_of f))"
        using snoc.IH [of fs'] snoc.prems same fs False by (auto simp: linked_append)
      with True fs show ?thesis by auto
    qed
  qed
qed

lemma head_binds_length:
  assumes "linked H text_of seq prev hash 0 genesis es" and "linked H text_of seq prev hash 0 genesis fs"
    and "list_all wf_entry es" and "list_all wf_entry fs" and "es \<noteq> []" and "fs \<noteq> []"
    and "chain_head hash genesis es = chain_head hash genesis fs"
    and "\<And>x y. \<not> collision H x y"
  shows "map text_of es = map text_of fs"
  using head_binds_log [OF assms(1-7)] assms(8) by blast

end

end
