(* ===== verification/Storage.thy ===== *)
theory Storage
  imports Core Hash_Chain
begin

text \<open>
  The content-addressed cache and the hash-linked run ledger of \<open>src/residual/storage.py\<close>.

  The SQLite table of \<open>Cache\<close> is a dictionary from keys to stored texts. The clock reading of
  \<open>Ledger.add\<close> is an argument. \<open>verify_ledger\<close> takes the text of the file it reads; it
  returns the report of the source, and \<open>verify_events\<close>, its loop, the accepted entries.
\<close>

section \<open>The cache\<close>

type_synonym cache = "(string, string) dict"

definition cache_get :: "(string \<Rightarrow> json) \<Rightarrow> cache \<Rightarrow> string \<Rightarrow> bool \<times> json" where
  "cache_get fl c k =
     (case map_of c k of
        None \<Rightarrow> (False, JNull)
      | Some row \<Rightarrow> (case strict_json fl row of Inl _ \<Rightarrow> (False, JNull) | Inr v \<Rightarrow> (True, v)))"

definition cache_put :: "cache \<Rightarrow> string \<Rightarrow> json \<Rightarrow> cache result" where
  "cache_put c k v = bind_r (canonical v) (\<lambda>row. Inr (AList.update k row c))"

section \<open>The ledger\<close>

record ledger_event =
  lev_seq :: nat
  lev_kind :: string
  lev_time :: int
  lev_previous :: string
  lev_data :: "(string \<times> json) list"
  lev_sha256 :: string

record ledger =
  lg_events :: "ledger_event list"
  lg_head :: string

definition genesis_hash :: string where
  "genesis_hash = replicate 64 (CHR ''0'')"

definition new_ledger :: ledger where
  "new_ledger = \<lparr>lg_events = [], lg_head = genesis_hash\<rparr>"

definition event_payload :: "ledger_event \<Rightarrow> (string \<times> json) list" where
  "event_payload e = [(''seq'', JInt (int (lev_seq e))), (''kind'', JStr (lev_kind e)),
     (''time_ns'', JInt (lev_time e)), (''previous'', JStr (lev_previous e)), (''data'', JObj (lev_data e))]"

definition event_json :: "ledger_event \<Rightarrow> json" where
  "event_json e = JObj (event_payload e @ [(''sha256'', JStr (lev_sha256 e))])"

definition ledger_add ::
  "(string \<Rightarrow> string) \<Rightarrow> ledger \<Rightarrow> string \<times> int \<times> (string \<times> json) list \<Rightarrow> ledger result" where
  "ledger_add H lg op =
     (case op of (kind, now, data) \<Rightarrow>
      let e = \<lparr>lev_seq = length (lg_events lg), lev_kind = kind, lev_time = now,
               lev_previous = lg_head lg, lev_data = data, lev_sha256 = []\<rparr> in
      bind_r (digest H (JObj (event_payload e))) (\<lambda>h.
      Inr \<lparr>lg_events = lg_events lg @ [e\<lparr>lev_sha256 := h\<rparr>], lg_head = h\<rparr>))"

definition ledger_write :: "ledger \<Rightarrow> string result" where
  "ledger_write lg =
     bind_r (map_r (\<lambda>e. bind_r (canonical (event_json e)) (\<lambda>t. Inr (t @ [newline]))) (lg_events lg)) (\<lambda>ts.
     Inr (concat ts))"

section \<open>Verification of a written ledger\<close>

text \<open>\<open>str.splitlines()\<close> without the line ends.\<close>

fun bare_lines :: "string \<Rightarrow> string \<Rightarrow> string list" where
  "bare_lines cur [] = (if cur = [] then [] else [rev cur])"
| "bare_lines cur (a # s) =
     (let n = break_len (a # s) in
      if n = 0 then bare_lines (a # cur) s else rev cur # bare_lines [] (drop n (a # s)))"

text \<open>Python's \<open>v == i\<close> for a decoded value and a natural number: booleans and floats
  compare as numbers; a float equals \<open>i\<close> when its \<open>repr\<close> is \<open>i.0\<close> (below \<open>10^16\<close>).\<close>

fun num_eq :: "json \<Rightarrow> nat \<Rightarrow> bool" where
  "num_eq (JInt j) i = (j = int i)"
| "num_eq (JBool b) i = (i = (if b then 1 else 0))"
| "num_eq (JFloat r) i = (r = nat_str i @ ''.0'' \<or> (i = 0 \<and> r = ''-0.0''))"
| "num_eq _ i = False"

record trace_entry =
  te_seq :: nat
  te_previous :: string
  te_event :: "(string \<times> json) list"
  te_hash :: string

definition integrity_error :: error where
  "integrity_error = ContractError ''trace integrity mismatch''"

fun dict_pop :: "json \<Rightarrow> string \<Rightarrow> (json \<times> (string \<times> json) list) result" where
  "dict_pop (JObj kvs) k = bind_r (dict_get kvs k) (\<lambda>v. Inr (v, AList.delete k kvs))"
| "dict_pop (JArr _) k = Inl (TypeError ''list.pop index'')"
| "dict_pop _ k = Inl (AttributeError ''pop'')"

definition verify_event ::
  "(string \<Rightarrow> json) \<Rightarrow> (string \<Rightarrow> string) \<Rightarrow> nat \<Rightarrow> string \<Rightarrow> string \<Rightarrow> trace_entry result" where
  "verify_event fl H i p line =
     bind_r (strict_json fl line) (\<lambda>v.
     bind_r (dict_pop v ''sha256'') (\<lambda>(expected, ev).
     bind_r (dict_get ev ''seq'') (\<lambda>sq.
     bind_r (ensure (num_eq sq i) integrity_error) (\<lambda>_.
     bind_r (dict_get ev ''previous'') (\<lambda>pv.
     bind_r (ensure (pv = JStr p) integrity_error) (\<lambda>_.
     bind_r (digest H (JObj ev)) (\<lambda>h.
     bind_r (ensure (JStr h = expected) integrity_error) (\<lambda>_.
     Inr \<lparr>te_seq = i, te_previous = p, te_event = ev, te_hash = h\<rparr>))))))))"

fun verify_events ::
  "(string \<Rightarrow> json) \<Rightarrow> (string \<Rightarrow> string) \<Rightarrow> nat \<Rightarrow> string \<Rightarrow> string list \<Rightarrow> trace_entry list result" where
  "verify_events fl H i p [] = Inr []"
| "verify_events fl H i p (line # ls) =
     bind_r (verify_event fl H i p line) (\<lambda>e.
     bind_r (verify_events fl H (Suc i) (te_hash e) ls) (\<lambda>es. Inr (e # es)))"

record trace_report =
  tr_events :: nat
  tr_root :: string
  tr_anchored :: bool

definition incomplete_trace :: error where
  "incomplete_trace = ContractError ''trace is empty or incomplete''"

definition verify_ledger ::
  "(string \<Rightarrow> json) \<Rightarrow> (string \<Rightarrow> string) \<Rightarrow> string \<Rightarrow> string option \<Rightarrow> trace_report result" where
  "verify_ledger fl H contents expected_root =
     bind_r (verify_events fl H 0 genesis_hash (bare_lines [] contents)) (\<lambda>es.
     if es = [] then Inl incomplete_trace else
     bind_r (dict_get (te_event (hd es)) ''kind'') (\<lambda>k.
     bind_r (ensure (k = JStr ''run_started'') incomplete_trace) (\<lambda>_.
     bind_r (dict_get (te_event (last es)) ''kind'') (\<lambda>k.
     bind_r (ensure (k = JStr ''run_finished'') incomplete_trace) (\<lambda>_.
     let root = te_hash (last es) in
     bind_r (ensure (case expected_root of None \<Rightarrow> True | Some r \<Rightarrow> root = r)
       (ContractError ''trace differs from supplied root'')) (\<lambda>_.
     Inr \<lparr>tr_events = length es, tr_root = root, tr_anchored = (expected_root \<noteq> None)\<rparr>))))))"

section \<open>A revalidating store\<close>

text \<open>What a client of the cache relies on: a stored value is read back in its normal form, and
  storing under one key leaves the others alone.\<close>

locale value_store =
  fixes get :: "'s \<Rightarrow> string \<Rightarrow> bool \<times> json"
    and put :: "'s \<Rightarrow> string \<Rightarrow> json \<Rightarrow> 's result"
    and storable :: "json \<Rightarrow> bool"
  assumes put_total: "storable v \<Longrightarrow> \<exists>s'. put s k v = Inr s'"
    and get_put: "storable v \<Longrightarrow> put s k v = Inr s' \<Longrightarrow> get s' k = (True, norm_json v)"
    and get_other: "put s k v = Inr s' \<Longrightarrow> k' \<noteq> k \<Longrightarrow> get s' k' = get s k'"
begin

lemma puts_get_untouched:
  "fold_r (\<lambda>s (k, v). put s k v) s kvs = Inr s' \<Longrightarrow> k \<notin> fst ` set kvs \<Longrightarrow> get s' k = get s k"
proof (induction kvs arbitrary: s)
  case Nil
  then show ?case by simp
next
  case (Cons kv kvs)
  obtain j v where "kv = (j, v)" by (cases kv)
  with Cons show ?case using get_other [of s j v _ k] by (fastforce simp: result_simps)
qed

lemma last_put_wins:
  assumes "fold_r (\<lambda>s (k, v). put s k v) s (xs @ (k, v) # ys) = Inr s'"
    and "k \<notin> fst ` set ys" and "storable v"
  shows "get s' k = (True, norm_json v)"
proof -
  obtain s1 s2 where "put s1 k v = Inr s2" "fold_r (\<lambda>s (k, v). put s k v) s2 ys = Inr s'"
    using assms(1) by (auto simp: fold_r_append result_simps)
  then show ?thesis using get_put [OF assms(3)] puts_get_untouched assms(2) by metis
qed

end

interpretation kv_cache: value_store "cache_get fl" cache_put "wf_json fl" for fl
proof
  show "\<exists>s'. cache_put s k v = Inr s'" if "wf_json fl v" for s k v
    using that by (simp add: cache_put_def canonical_wf)
  show "cache_get fl s' k = (True, norm_json v)" if "wf_json fl v" "cache_put s k v = Inr s'" for s k v s'
    using that by (auto simp: cache_put_def cache_get_def canonical_wf strict_json_dumps)
  show "cache_get fl s' k' = cache_get fl s k'" if "cache_put s k v = Inr s'" "k' \<noteq> k" for s k v s' k'
    using that by (auto simp: cache_put_def cache_get_def result_simps)
qed

section \<open>Ledgers are hash chains\<close>

abbreviation ledger_text :: "ledger_event \<Rightarrow> string" where
  "ledger_text e \<equiv> dumps (JObj (event_payload e))"

text \<open>The number a sequence field denotes is unique.\<close>

lemma nat_str_inj: "nat_str i = nat_str j \<Longrightarrow> i = j"
  by (metis digits_val_nat_str)

lemma nat_str_not_neg: "nat_str i @ r \<noteq> CHR ''-'' # s"
  using nat_str_digits [of "hd (nat_str i)" i] by (cases "nat_str i") (auto simp: is_digit_def)

lemma nat_str_no_sign: "CHR ''-'' # s = nat_str i \<longleftrightarrow> False"
  using nat_str_not_neg [of i "[]" s] by (metis append_Nil2)

lemma num_eq_unique: "num_eq v i \<Longrightarrow> num_eq v j \<Longrightarrow> i = j"
  using nat_str_not_neg [of i "''.0''"] nat_str_not_neg [of j "''.0''"]
  by (cases v) (auto dest: nat_str_inj split: if_splits simp: nat_str_no_sign)

lemma num_eq_norm: "num_eq (norm_json v) i = num_eq v i"
  by (cases v) auto

interpretation ledger: hash_chain H ledger_text lev_seq lev_previous lev_sha256
  "\<lambda>e. wf_json fl (JObj (event_payload e))" genesis_hash for H fl
proof
  fix e f :: ledger_event
  assume "wf_json fl (JObj (event_payload e))" "wf_json fl (JObj (event_payload f))" "ledger_text e = ledger_text f"
  from dumps_obj_field [OF this, of "''seq''"] dumps_obj_field [OF this, of "''previous''"]
  show "lev_seq e = lev_seq f \<and> lev_previous e = lev_previous f"
    by (simp add: event_payload_def)
qed

abbreviation trace_text :: "trace_entry \<Rightarrow> string" where
  "trace_text e \<equiv> dumps (JObj (te_event e))"

definition wf_trace :: "(string \<Rightarrow> json) \<Rightarrow> trace_entry \<Rightarrow> bool" where
  "wf_trace fl e = (wf_json fl (JObj (te_event e))
     \<and> (\<exists>v. map_of (te_event e) ''seq'' = Some v \<and> num_eq v (te_seq e))
     \<and> map_of (te_event e) ''previous'' = Some (JStr (te_previous e)))"

interpretation trace: hash_chain H trace_text te_seq te_previous te_hash "wf_trace fl" genesis_hash for H fl
proof
  fix e f :: trace_entry
  assume e: "wf_trace fl e" and f: "wf_trace fl f" and eq: "trace_text e = trace_text f"
  note field = dumps_obj_field [of fl "te_event e" "te_event f", OF _ _ eq]
  have "te_previous e = te_previous f" using e f field [of "''previous''"] by (auto simp: wf_trace_def)
  moreover have "te_seq e = te_seq f"
    using e f field [of "''seq''"] by (auto simp: wf_trace_def dest: num_eq_unique) (metis num_eq_norm num_eq_unique)
  ultimately show "te_seq e = te_seq f \<and> te_previous e = te_previous f" by simp
qed

section \<open>Writing and verifying\<close>

lemma ledger_add_Inr:
  assumes "ledger_add H lg op = Inr lg'"
  shows "\<exists>e. lg_events lg' = lg_events lg @ [e] \<and> lev_seq e = length (lg_events lg) \<and> lev_previous e = lg_head lg
    \<and> lev_kind e = fst op \<and> lev_data e = snd (snd op) \<and> lev_sha256 e = H (ledger_text e) \<and> lg_head lg' = lev_sha256 e
    \<and> finite_json (JObj (event_payload e))"
  using assms
  by (auto simp: ledger_add_def Let_def result_simps digest_def canonical_def event_payload_def
      split: prod.splits if_splits)

definition linked_ledger :: "(string \<Rightarrow> string) \<Rightarrow> ledger \<Rightarrow> bool" where
  "linked_ledger H lg =
     (linked H ledger_text lev_seq lev_previous lev_sha256 0 genesis_hash (lg_events lg)
      \<and> lg_head lg = chain_head lev_sha256 genesis_hash (lg_events lg))"

lemma ledger_add_linked:
  assumes "linked_ledger H lg" and "ledger_add H lg op = Inr lg'"
  shows "linked_ledger H lg'"
proof -
  obtain e where "lg_events lg' = lg_events lg @ [e]" "lev_seq e = length (lg_events lg)"
    "lev_previous e = lg_head lg" "lev_sha256 e = H (ledger_text e)" "lg_head lg' = lev_sha256 e"
    using ledger_add_Inr [OF assms(2)] by blast
  with assms(1) show ?thesis
    using ledger.append_keeps_links [of H "lg_events lg" e] by (simp add: linked_ledger_def)
qed

lemma ledger_adds:
  assumes "fold_r (ledger_add H) lg ops = Inr lg'"
  shows "\<exists>es. lg_events lg' = lg_events lg @ es \<and> map lev_kind es = map fst ops \<and> map lev_data es = map (snd \<circ> snd) ops"
  using assms
proof (induction ops arbitrary: lg)
  case Nil
  then show ?case by simp
next
  case (Cons op ops)
  then obtain lg1 where lg1: "ledger_add H lg op = Inr lg1" "fold_r (ledger_add H) lg1 ops = Inr lg'"
    by (auto simp: result_simps)
  from Cons.IH [OF lg1(2)] ledger_add_Inr [OF lg1(1)] show ?case by fastforce
qed

lemma ledger_adds_linked:
  assumes "fold_r (ledger_add H) new_ledger ops = Inr lg"
  shows "linked_ledger H lg"
proof -
  have "linked_ledger H new_ledger" by (simp add: linked_ledger_def new_ledger_def chain_head_def)
  then show ?thesis by (rule fold_r_invariant [OF assms]) (rule ledger_add_linked)
qed

text \<open>A text in which \<open>splitlines\<close> finds no boundary.\<close>

fun no_breaks :: "string \<Rightarrow> bool" where
  "no_breaks [] = True"
| "no_breaks (a # s) = (break_len (a # s) = 0 \<and> no_breaks s)"

lemma break_len_newline: "break_len (newline # r) = 1"
  by (simp add: break_len_def)

lemma break_len_append: "break_len (a # s) = 0 \<Longrightarrow> break_len (a # s @ newline # r) = 0"
  by (cases s rule: list.exhaust [case_names Nil Cons]; cases "tl s")
    (auto simp: break_len_def split: if_splits)

lemma bare_lines_line: "no_breaks t \<Longrightarrow> bare_lines cur (t @ newline # r) = (rev cur @ t) # bare_lines [] r"
proof (induction t arbitrary: cur)
  case Nil
  then show ?case by (simp add: break_len_newline)
next
  case (Cons a t)
  then show ?case using break_len_append [of a t r] by (simp add: Let_def)
qed

lemma bare_lines_concat:
  "list_all no_breaks ts \<Longrightarrow> bare_lines [] (concat (map (\<lambda>t. t @ [newline]) ts)) = ts"
  by (induction ts) (simp_all add: bare_lines_line)

lemma wf_event_json: "wf_json fl (event_json e) \<longleftrightarrow> wf_json fl (JObj (lev_data e))"
  by (auto simp: event_json_def event_payload_def)

lemma wf_event_payload: "wf_json fl (JObj (event_payload e)) \<longleftrightarrow> wf_json fl (JObj (lev_data e))"
  by (auto simp: event_payload_def)

lemma delete_sort_fst: "AList.delete k (sort_key fst kvs) = sort_key fst (AList.delete k kvs)"
  by (simp add: AList.delete_eq filter_sort)

lemma pop_event_json:
  "dict_pop (norm_json (event_json e)) ''sha256''
     = Inr (JStr (lev_sha256 e), sort_key fst (map (map_prod id norm_json) (event_payload e)))"
proof -
  let ?kvs = "map (map_prod id norm_json) (event_payload e)"
  have eq: "norm_json (event_json e) = JObj (sort_key fst (?kvs @ [(''sha256'', JStr (lev_sha256 e))]))"
    by (simp add: event_json_def)
  have "map_of (sort_key fst (?kvs @ [(''sha256'', JStr (lev_sha256 e))])) ''sha256'' = Some (JStr (lev_sha256 e))"
    by (subst map_of_sort_fst) (simp_all add: event_payload_def)
  moreover have "AList.delete ''sha256'' (?kvs @ [(''sha256'', JStr (lev_sha256 e))]) = ?kvs"
    by (simp add: event_payload_def)
  ultimately show ?thesis by (simp add: eq dict_get_def delete_sort_fst)
qed

lemma verify_event_written:
  assumes "wf_json fl (JObj (lev_data e))" and "lev_sha256 e = H (ledger_text e)"
  shows "verify_event fl H (lev_seq e) (lev_previous e) (dumps (event_json e)) =
    Inr \<lparr>te_seq = lev_seq e, te_previous = lev_previous e,
      te_event = sort_key fst (map (map_prod id norm_json) (event_payload e)), te_hash = lev_sha256 e\<rparr>"
proof -
  let ?ev = "sort_key fst (map (map_prod id norm_json) (event_payload e))"
  have read: "strict_json fl (dumps (event_json e)) = Inr (norm_json (event_json e))"
    using strict_json_dumps assms(1) wf_event_json by blast
  have d: "distinct (map fst (event_payload e))" by (simp add: event_payload_def)
  have "JObj ?ev = norm_json (JObj (event_payload e))" by simp
  then have "dumps (JObj ?ev) = ledger_text e" by (simp only: dumps_norm_json)
  moreover have "finite_json (JObj ?ev)"
    using wf_json_finite [OF assms(1) [folded wf_event_payload]]
    by (simp only: \<open>JObj ?ev = norm_json (JObj (event_payload e))\<close> finite_norm_json)
  ultimately have dig: "digest H (JObj ?ev) = Inr (lev_sha256 e)"
    unfolding digest_def canonical_def using assms(2) by (simp only: if_True bind_r.simps)
  have "map_of ?ev ''seq'' = Some (JInt (int (lev_seq e)))" "map_of ?ev ''previous'' = Some (JStr (lev_previous e))"
    unfolding map_of_norm [OF d] by (simp_all add: event_payload_def)
  then show ?thesis
    unfolding verify_event_def read pop_event_json bind_r.simps dict_get_def prod.case dig by simp
qed

lemma verify_events_written:
  assumes "linked H ledger_text lev_seq lev_previous lev_sha256 i p es"
    and "list_all (\<lambda>e. wf_json fl (JObj (lev_data e))) es"
  shows "\<exists>ts. verify_events fl H i p (map (dumps \<circ> event_json) es) = Inr ts \<and> map te_hash ts = map lev_sha256 es
    \<and> map (\<lambda>t. map_of (te_event t) ''kind'') ts = map (\<lambda>e. Some (JStr (lev_kind e))) es"
  using assms
proof (induction es arbitrary: i p)
  case Nil
  then show ?case by simp
next
  case (Cons e es)
  then obtain ts where ts: "verify_events fl H (Suc i) (lev_sha256 e) (map (dumps \<circ> event_json) es) = Inr ts"
    "map te_hash ts = map lev_sha256 es"
    "map (\<lambda>t. map_of (te_event t) ''kind'') ts = map (\<lambda>e. Some (JStr (lev_kind e))) es"
    by fastforce
  have e: "verify_event fl H i p (dumps (event_json e)) =
      Inr \<lparr>te_seq = lev_seq e, te_previous = lev_previous e,
        te_event = sort_key fst (map (map_prod id norm_json) (event_payload e)), te_hash = lev_sha256 e\<rparr>"
    using verify_event_written [of fl e H] Cons.prems by simp
  have "map_of (sort_key fst (map (map_prod id norm_json) (event_payload e))) ''kind'' = Some (JStr (lev_kind e))"
    by (subst map_of_norm) (simp_all add: event_payload_def)
  with ts e show ?case by (simp add: comp_def)
qed


definition sample_ops :: "(string \<times> int \<times> (string \<times> json) list) list" where
  "sample_ops = [(''run_started'', 5, [(''task'', JStr ''t1'')]), (''run_finished'', 9, [])]"

definition sample_hash :: "string \<Rightarrow> string" where
  "sample_hash s = nat_str (length s)"

definition sample_ledger :: ledger where
  "sample_ledger = (case fold_r (ledger_add sample_hash) new_ledger sample_ops of Inr lg \<Rightarrow> lg | Inl _ \<Rightarrow> new_ledger)"

lemma sample_ledger_built: "fold_r (ledger_add sample_hash) new_ledger sample_ops = Inr sample_ledger"
  by code_simp

lemma sample_ledger_one_line: "list_all (\<lambda>e. no_breaks (dumps (event_json e))) (lg_events sample_ledger)"
  by code_simp


section \<open>Tamper evidence\<close>

lemma dict_pop_Inr_iff [result_simps]:
  "dict_pop v k = Inr (x, ev) \<longleftrightarrow> (\<exists>kvs. v = JObj kvs \<and> map_of kvs k = Some x \<and> ev = AList.delete k kvs)"
  by (cases v) (auto simp: result_simps)

lemma verify_event_Inr:
  assumes "verify_event fl H i p line = Inr e"
  shows "te_seq e = i" "te_previous e = p" "te_hash e = H (trace_text e)" "finite_json (JObj (te_event e))"
    "\<exists>v. map_of (te_event e) ''seq'' = Some v \<and> num_eq v i" "map_of (te_event e) ''previous'' = Some (JStr p)"
    "\<exists>kvs. strict_json fl line = Inr (JObj kvs) \<and> map_of kvs ''sha256'' = Some (JStr (te_hash e))
      \<and> te_event e = AList.delete ''sha256'' kvs"
  using assms
  by (auto simp: verify_event_def result_simps digest_def canonical_def split: prod.splits if_splits)

lemma wf_json_delete: "wf_json fl (JObj kvs) \<Longrightarrow> wf_json fl (JObj (AList.delete k kvs))"
  using distinct_delete [of kvs k] by (auto simp: list_all_iff) (auto simp: AList.delete_eq)

lemma verify_event_wf:
  assumes "float_reader fl" and e: "verify_event fl H i p line = Inr e"
  shows "wf_json fl (JObj (te_event e))"
proof -
  obtain kvs where kvs: "strict_json fl line = Inr (JObj kvs)" "map_of kvs ''sha256'' = Some (JStr (te_hash e))"
    "te_event e = AList.delete ''sha256'' kvs"
    using verify_event_Inr(7) [OF e] by blast
  have "distinct_keys (JObj kvs)"
    using strict_json_distinct [OF _ kvs(1)] float_reader_cases [OF assms(1)] by blast
  then have d: "distinct (map fst kvs)" by simp
  have "finite_json v" if "(k, v) \<in> set kvs" for k v
  proof (cases "k = ''sha256''")
    case True
    with that d kvs(2) show ?thesis by (metis finite_json.simps(6) map_of_eq_Some_iff option.inject)
  next
    case False
    with that have "(k, v) \<in> set (te_event e)" by (simp add: kvs(3) AList.delete_eq)
    with verify_event_Inr(4) [OF e] show ?thesis by (auto simp: list_all_iff)
  qed
  then have "finite_json (JObj kvs)" by (auto simp: list_all_iff)
  then have "wf_json fl (JObj kvs)" using strict_json_wf assms(1) kvs(1) by blast
  then show ?thesis unfolding kvs(3) by (rule wf_json_delete)
qed

lemma verify_events_linked:
  assumes "float_reader fl" and "verify_events fl H i p ls = Inr es"
  shows "linked H trace_text te_seq te_previous te_hash i p es \<and> list_all (wf_trace fl) es"
  using assms(2)
proof (induction ls arbitrary: i p es)
  case Nil
  then show ?case by simp
next
  case (Cons l ls)
  then obtain e es' where e: "verify_event fl H i p l = Inr e"
    and es': "verify_events fl H (Suc i) (te_hash e) ls = Inr es'" "es = e # es'"
    by (auto simp: result_simps)
  note v = verify_event_Inr [OF e]
  have "wf_json fl (JObj (te_event e))" using verify_event_wf assms(1) e by blast
  with v Cons.IH [OF es'(1)] es'(2) show ?case by (simp add: wf_trace_def del: wf_json.simps dumps.simps)
qed

lemma verify_ledger_Inr:
  assumes "verify_ledger fl H contents r = Inr rep"
  obtains es where "verify_events fl H 0 genesis_hash (bare_lines [] contents) = Inr es" "es \<noteq> []"
    "tr_root rep = chain_head te_hash genesis_hash es" "tr_events rep = length es"
  using assms by (auto simp: verify_ledger_def result_simps Let_def chain_head_def split: if_splits)

text \<open>C25. A verified root binds the trace: two files that pass \<open>verify_ledger\<close> with the same
  root hold the same events in the same order, up to the spelling of their JSON, or two of their
  events are an explicit collision of the hash function. So a file altered after the run cannot
  pass against the root recorded at the time.\<close>

theorem verified_root_binds_trace:
  assumes "float_reader fl"
    and "verify_ledger fl H contents r = Inr rep" and "verify_ledger fl H contents' r' = Inr rep'"
    and "tr_root rep = tr_root rep'"
  shows "\<exists>es fs. verify_events fl H 0 genesis_hash (bare_lines [] contents) = Inr es
    \<and> verify_events fl H 0 genesis_hash (bare_lines [] contents') = Inr fs
    \<and> (map (\<lambda>e. norm_json (JObj (te_event e))) es = map (\<lambda>e. norm_json (JObj (te_event e))) fs
       \<or> (\<exists>e\<in>set es. \<exists>f\<in>set fs. collision H (trace_text e) (trace_text f)))"
proof -
  obtain es where es: "verify_events fl H 0 genesis_hash (bare_lines [] contents) = Inr es" "es \<noteq> []"
    "tr_root rep = chain_head te_hash genesis_hash es"
    using verify_ledger_Inr [OF assms(2)] by metis
  obtain fs where fs: "verify_events fl H 0 genesis_hash (bare_lines [] contents') = Inr fs" "fs \<noteq> []"
    "tr_root rep' = chain_head te_hash genesis_hash fs"
    using verify_ledger_Inr [OF assms(3)] by metis
  note wf = verify_events_linked [OF assms(1) es(1)] verify_events_linked [OF assms(1) fs(1)]
  have "map trace_text es = map trace_text fs
      \<or> (\<exists>e\<in>set es. \<exists>f\<in>set fs. collision H (trace_text e) (trace_text f))"
    using trace.head_binds_log [of H es fs fl] wf es fs assms(4) by simp
  moreover have "map (\<lambda>e. norm_json (JObj (te_event e))) es = map (\<lambda>e. norm_json (JObj (te_event e))) fs"
    if "map trace_text es = map trace_text fs"
    using that wf dumps_inj [of fl] unfolding wf_trace_def list.rel_eq [symmetric] list.rel_map list_all_iff
    by (auto simp del: norm_json.simps dumps.simps wf_json.simps elim!: list.rel_mono_strong)
  ultimately show ?thesis using es fs by blast
qed

theorem verified_root_binds_trace_witness:
  "\<exists>contents es. ledger_write sample_ledger = Inr contents
     \<and> verify_events exact_float sample_hash 0 genesis_hash (bare_lines [] contents) = Inr es"
proof -
  let ?c = "case ledger_write sample_ledger of Inr t \<Rightarrow> t | Inl _ \<Rightarrow> []"
  let ?r = "\<lparr>tr_events = 2, tr_root = lg_head sample_ledger, tr_anchored = False\<rparr>"
  have "ledger_write sample_ledger = Inr ?c" by code_simp
  moreover have "verify_ledger exact_float sample_hash ?c None = Inr ?r" by code_simp
  ultimately show ?thesis
    using verified_root_binds_trace [of exact_float sample_hash ?c None ?r ?c None ?r] by auto
qed


end
