(* ===== verification/Receipts.thy ===== *)
theory Receipts
  imports Verifier
begin

text \<open>
  Station receipts, \<open>src/residual/receipts.py\<close>: typed references, construction, the hashed
  payload, the wire envelope in both directions, context matching, cache keys and the validation of
  a graph of prerequisite receipts. A reference is the pair of its fields, with the dataclass's
  lexicographic order. \<open>from_dict\<close> turns every \<open>ValueError\<close>, \<open>TypeError\<close>, \<open>KeyError\<close> and
  \<open>AttributeError\<close> of its body into one \<open>ContractError\<close>, as the source does.
\<close>

section \<open>Identifiers of receipts\<close>

definition RECEIPT_SCHEMA :: string where
  "RECEIPT_SCHEMA = ''residual.station.receipt.v2''"

definition LEGACY_RECEIPT_SCHEMA :: string where
  "LEGACY_RECEIPT_SCHEMA = ''residual.station.receipt.v1''"

definition CACHE_SCHEMA :: string where
  "CACHE_SCHEMA = ''residual.station.cache.v1''"

definition hash_id :: "string \<Rightarrow> unit result" where
  "hash_id s = ensure (hex64 s) (ContractError ''expected a lowercase SHA-256 digest'')"

definition verifier_id :: "string \<Rightarrow> unit result" where
  "verifier_id s =
     bind_r (ensure (count_list s (CHR '':'') = 1) (ContractError ''verifier name must be domain:evaluator'')) (\<lambda>_.
     iter_r (\<lambda>part. bind_r (mk_identifier part) (\<lambda>_. Inr ())) (split_on (CHR '':'') s))"

definition domain_hash :: "(string \<Rightarrow> string) \<Rightarrow> string \<Rightarrow> json \<Rightarrow> string result" where
  "domain_hash H schema payload = bind_r (canonical payload) (\<lambda>t. Inr (H (schema @ newline # t)))"

type_synonym receipt_ref = "string \<times> string"

definition mk_ref :: "string \<Rightarrow> string \<Rightarrow> receipt_ref result" where
  "mk_ref t h = bind_r (mk_identifier t) (\<lambda>_. bind_r (hash_id h) (\<lambda>_. Inr (t, h)))"

section \<open>Receipts\<close>

record receipt =
  rc_task :: string
  rc_cache_key :: string
  rc_value_hash :: string
  rc_verifier :: string
  rc_revision :: string
  rc_verdict :: check_result
  rc_parents :: "receipt_ref list"
  rc_engine :: string
  rc_engine_version :: string
  rc_schema :: string

definition mk_receipt :: "receipt \<Rightarrow> receipt result" where
  "mk_receipt r =
     bind_r (mk_identifier (rc_task r)) (\<lambda>_.
     bind_r (iter_r hash_id [rc_cache_key r, rc_value_hash r, rc_revision r]) (\<lambda>_.
     bind_r (verifier_id (rc_verifier r)) (\<lambda>_.
     bind_r (ensure (\<not> blank (rc_engine r)) (ContractError ''receipt engine_name is required'')) (\<lambda>_.
     bind_r (ensure (\<not> blank (rc_engine_version r)) (ContractError ''receipt engine_version is required'')) (\<lambda>_.
     bind_r (ensure (rc_verdict r \<noteq> RSkipped) (ContractError ''skipped checks cannot issue receipts'')) (\<lambda>_.
     let refs = sort (rc_parents r) in
     bind_r (ensure (distinct (map fst refs) \<and> rc_task r \<notin> set (map fst refs))
       (ContractError ''duplicate or self-dependent receipt'')) (\<lambda>_.
     Inr (r\<lparr>rc_parents := refs, rc_schema := RECEIPT_SCHEMA\<rparr>))))))))"

definition ref_json :: "receipt_ref \<Rightarrow> json" where
  "ref_json p = JObj [(''task_id'', JStr (fst p)), (''receipt_hash'', JStr (snd p))]"

definition payload_fields :: "receipt \<Rightarrow> (string \<times> json) list" where
  "payload_fields r =
     [(''task_id'', JStr (rc_task r)), (''cache_key'', JStr (rc_cache_key r)), (''value_hash'', JStr (rc_value_hash r)),
       (''verifier_name'', JStr (rc_verifier r)), (''verifier_revision'', JStr (rc_revision r)),
       (''verdict'', JStr (result_value (rc_verdict r))), (''parent_receipts'', JArr (map ref_json (rc_parents r)))]
      @ (if rc_schema r = RECEIPT_SCHEMA
         then [(''engine_name'', JStr (rc_engine r)), (''engine_version'', JStr (rc_engine_version r))] else [])"

definition receipt_payload :: "receipt \<Rightarrow> json" where
  "receipt_payload r = JObj (payload_fields r)"

definition receipt_hash :: "(string \<Rightarrow> string) \<Rightarrow> receipt \<Rightarrow> string result" where
  "receipt_hash H r = domain_hash H (rc_schema r) (receipt_payload r)"

definition receipt_to_dict :: "(string \<Rightarrow> string) \<Rightarrow> receipt \<Rightarrow> json result" where
  "receipt_to_dict H r =
     bind_r (receipt_hash H r) (\<lambda>h.
     Inr (JObj [(''schema_version'', JStr (rc_schema r)), (''hash_algorithm'', JStr ''sha256''),
       (''receipt_hash'', JStr h), (''payload'', receipt_payload r)]))"

section \<open>Reading an envelope\<close>

fun str_field :: "json \<Rightarrow> string result" where
  "str_field (JStr s) = Inr s"
| "str_field _ = Inl (ContractError ''expected a string'')"

fun obj_fields :: "json \<Rightarrow> (string \<times> json) list result" where
  "obj_fields (JObj kvs) = Inr kvs"
| "obj_fields _ = Inl (TypeError ''not a mapping'')"

fun parse_result :: "string \<Rightarrow> check_result result" where
  "parse_result s =
     (if s = ''pass'' then Inr RPass else if s = ''fail'' then Inr RFail
      else if s = ''unknown'' then Inr RUnknown else if s = ''skipped'' then Inr RSkipped
      else Inl (ContractError ''invalid receipt verdict''))"

definition str_of :: "(string \<times> json) list \<Rightarrow> string \<Rightarrow> string result" where
  "str_of kvs k = bind_r (dict_get kvs k) str_field"

definition parse_ref :: "json \<Rightarrow> receipt_ref result" where
  "parse_ref p =
     bind_r (obj_fields p) (\<lambda>kvs.
     bind_r (ensure (fst ` set kvs = {''task_id'', ''receipt_hash''}) (TypeError ''unexpected keyword'')) (\<lambda>_.
     bind_r (str_of kvs ''task_id'') (\<lambda>t.
     bind_r (str_of kvs ''receipt_hash'') (\<lambda>h. mk_ref t h))))"

fun list_items :: "json \<Rightarrow> json list result" where
  "list_items (JArr vs) = Inr vs"
| "list_items _ = Inl (ValueError [])"

definition v1_fields :: "string set" where
  "v1_fields = {''task_id'', ''cache_key'', ''value_hash'', ''verifier_name'', ''verifier_revision'',
     ''verdict'', ''parent_receipts''}"

definition envelope_fields :: "string set" where
  "envelope_fields = {''schema_version'', ''hash_algorithm'', ''receipt_hash'', ''payload''}"

text \<open>\<open>cls(**kwargs)\<close> with the engine fields the schema prescribes.\<close>

definition receipt_of_payload :: "string \<Rightarrow> (string \<times> json) list \<Rightarrow> receipt_ref list \<Rightarrow> receipt result" where
  "receipt_of_payload schema kvs refs =
     bind_r (str_of kvs ''task_id'') (\<lambda>t.
     bind_r (str_of kvs ''cache_key'') (\<lambda>ck.
     bind_r (str_of kvs ''value_hash'') (\<lambda>vh.
     bind_r (str_of kvs ''verifier_name'') (\<lambda>vn.
     bind_r (str_of kvs ''verifier_revision'') (\<lambda>vr.
     bind_r (bind_r (str_of kvs ''verdict'') parse_result) (\<lambda>vd.
     bind_r (if schema = LEGACY_RECEIPT_SCHEMA then Inr ''unknown'' else str_of kvs ''engine_name'') (\<lambda>en.
     bind_r (if schema = LEGACY_RECEIPT_SCHEMA then Inr ''unknown'' else str_of kvs ''engine_version'') (\<lambda>ev.
     bind_r (mk_receipt \<lparr>rc_task = t, rc_cache_key = ck, rc_value_hash = vh, rc_verifier = vn, rc_revision = vr,
       rc_verdict = vd, rc_parents = refs, rc_engine = en, rc_engine_version = ev, rc_schema = schema\<rparr>) (\<lambda>r.
     Inr (r\<lparr>rc_schema := schema\<rparr>))))))))))"

text \<open>Python's \<open>==\<close> on payloads made of strings, lists and dictionaries ignores the key order.\<close>

definition same_payload :: "json \<Rightarrow> json \<Rightarrow> bool" where
  "same_payload v w = (norm_json v = norm_json w)"

definition read_envelope :: "(string \<Rightarrow> string) \<Rightarrow> json \<Rightarrow> receipt result" where
  "read_envelope H envelope =
     bind_r (obj_fields envelope) (\<lambda>env.
     bind_r (ensure (fst ` set env = envelope_fields) (ValueError [])) (\<lambda>_.
     bind_r (bind_r (dict_get env ''schema_version'') str_field) (\<lambda>schema.
     bind_r (dict_get env ''hash_algorithm'') (\<lambda>alg.
     bind_r (ensure (schema \<in> {RECEIPT_SCHEMA, LEGACY_RECEIPT_SCHEMA} \<and> alg = JStr ''sha256'') (ValueError [])) (\<lambda>_.
     bind_r (dict_get env ''payload'') (\<lambda>payload.
     bind_r (obj_fields payload) (\<lambda>kvs.
     bind_r (ensure (fst ` set kvs = v1_fields \<union>
         (if schema = RECEIPT_SCHEMA then {''engine_name'', ''engine_version''} else {})) (ValueError [])) (\<lambda>_.
     bind_r (bind_r (dict_get kvs ''parent_receipts'') list_items) (\<lambda>parents.
     bind_r (dict_get env ''receipt_hash'') (\<lambda>expected.
     bind_r (domain_hash H schema payload) (\<lambda>h.
     bind_r (ensure (JStr h = expected) (ValueError [])) (\<lambda>_.
     bind_r (map_r parse_ref parents) (\<lambda>refs.
     bind_r (receipt_of_payload schema kvs refs) (\<lambda>r.
     bind_r (receipt_hash H r) (\<lambda>h'.
     bind_r (ensure (same_payload (receipt_payload r) payload \<and> JStr h' = expected) (ValueError [])) (\<lambda>_.
     Inr r))))))))))))))))"

definition receipt_from_dict :: "(string \<Rightarrow> string) \<Rightarrow> json \<Rightarrow> receipt result" where
  "receipt_from_dict H envelope =
     (case read_envelope H envelope of
        Inl _ \<Rightarrow> Inl (ContractError ''invalid receipt envelope or integrity mismatch'')
      | Inr r \<Rightarrow> Inr r)"

definition receipt_from_json :: "(string \<Rightarrow> json) \<Rightarrow> (string \<Rightarrow> string) \<Rightarrow> string \<Rightarrow> receipt result" where
  "receipt_from_json fl H t = bind_r (strict_json fl t) (receipt_from_dict H)"

section \<open>Matching, cache keys and the receipt graph\<close>

definition receipt_matches ::
  "(string \<Rightarrow> string) \<Rightarrow> receipt \<Rightarrow> json \<Rightarrow> string \<Rightarrow> string \<Rightarrow> string \<Rightarrow> receipt_ref list
     \<Rightarrow> string option \<Rightarrow> string option \<Rightarrow> bool result" where
  "receipt_matches H r v ck vname vrev parents engine version =
     (if rc_verdict r \<noteq> RPass then Inr False else
      bind_r (digest H v) (\<lambda>h.
      Inr (rc_value_hash r = h \<and> rc_cache_key r = ck \<and> rc_verifier r = vname \<and> rc_revision r = vrev
        \<and> rc_parents r = sort parents
        \<and> (engine = None \<or> engine = Some (rc_engine r)) \<and> (version = None \<or> version = Some (rc_engine_version r)))))"

record cache_inputs =
  ck_project :: string
  ck_task :: string
  ck_goal_hash :: string
  ck_contract_hash :: string
  ck_verifier :: string
  ck_revision :: string
  ck_check_type :: string
  ck_artifacts :: "(string, string) dict"
  ck_parents :: "receipt_ref list"

definition cache_key_json :: "cache_inputs \<Rightarrow> json" where
  "cache_key_json c = JObj
     [(''schema_version'', JStr CACHE_SCHEMA), (''hash_algorithm'', JStr ''sha256''), (''project_id'', JStr (ck_project c)),
      (''task_id'', JStr (ck_task c)), (''goal_hash'', JStr (ck_goal_hash c)), (''contract_hash'', JStr (ck_contract_hash c)),
      (''verifier_name'', JStr (ck_verifier c)), (''verifier_revision'', JStr (ck_revision c)),
      (''check_type'', JStr (ck_check_type c)), (''artifacts'', JObj (map (map_prod id JStr) (ck_artifacts c))),
      (''parent_receipts'', JArr (map ref_json (sort (ck_parents c))))]"

definition cache_key :: "(string \<Rightarrow> string) \<Rightarrow> cache_inputs \<Rightarrow> string result" where
  "cache_key H c =
     bind_r (mk_identifier (ck_project c)) (\<lambda>_.
     bind_r (mk_identifier (ck_task c)) (\<lambda>_.
     bind_r (verifier_id (ck_verifier c)) (\<lambda>_.
     bind_r (iter_r hash_id ([ck_goal_hash c, ck_contract_hash c, ck_revision c] @ map snd (ck_artifacts c))) (\<lambda>_.
     bind_r (ensure (ck_check_type c \<in> {''mechanical'', ''structural'', ''judge''}) (ContractError ''unknown check type'')) (\<lambda>_.
     bind_r (iter_r (\<lambda>n. bind_r (mk_identifier n) (\<lambda>_. Inr ())) (map fst (ck_artifacts c))) (\<lambda>_.
     let refs = sort (ck_parents c) in
     bind_r (ensure (distinct (map fst refs) \<and> ck_task c \<notin> set (map fst refs))
       (ContractError ''invalid prerequisite references'')) (\<lambda>_.
     domain_hash H CACHE_SCHEMA (cache_key_json c))))))))"

definition check_receipt_node ::
  "(string \<Rightarrow> string) \<Rightarrow> (string, receipt) dict \<Rightarrow> (string, string list) dict \<Rightarrow> string \<times> receipt \<Rightarrow> unit result" where
  "check_receipt_node H receipts dependencies node =
     (case node of (tid, r) \<Rightarrow>
      bind_r (dict_get dependencies tid) (\<lambda>deps.
      bind_r (ensure (rc_task r = tid \<and> distinct deps \<and> set deps \<subseteq> fst ` set receipts)
        (ContractError ''invalid receipt graph'')) (\<lambda>_.
      bind_r (map_r (\<lambda>d. bind_r (dict_get receipts d) (\<lambda>rd. bind_r (receipt_hash H rd) (mk_ref d))) deps) (\<lambda>refs.
      ensure (rc_parents r = sort refs) (ContractError ''prerequisite receipt mismatch'')))))"

definition validate_receipt_graph ::
  "(string \<Rightarrow> string) \<Rightarrow> (string, receipt) dict \<Rightarrow> (string, string list) dict \<Rightarrow> unit result" where
  "validate_receipt_graph H receipts dependencies =
     bind_r (ensure (fst ` set receipts = fst ` set dependencies)
       (ContractError ''missing receipt or dependency declaration'')) (\<lambda>_.
     bind_r (iter_r (check_receipt_node H receipts dependencies) receipts) (\<lambda>_.
     ensure (resolve_layers dependencies {}) (ContractError ''receipt dependency cycle'')))"

section \<open>Valid receipts\<close>

definition verifier_ok :: "string \<Rightarrow> bool" where
  "verifier_ok s = (count_list s (CHR '':'') = 1 \<and> list_all ident_ok (split_on (CHR '':'') s))"

definition receipt_ok :: "receipt \<Rightarrow> bool" where
  "receipt_ok r = (ident_ok (rc_task r) \<and> hex64 (rc_cache_key r) \<and> hex64 (rc_value_hash r) \<and> hex64 (rc_revision r)
     \<and> verifier_ok (rc_verifier r) \<and> \<not> blank (rc_engine r) \<and> \<not> blank (rc_engine_version r) \<and> rc_verdict r \<noteq> RSkipped
     \<and> distinct (map fst (sort (rc_parents r))) \<and> rc_task r \<notin> fst ` set (rc_parents r))"

text \<open>A receipt that was constructed, or read from an envelope of either schema.\<close>

definition valid_receipt :: "receipt \<Rightarrow> bool" where
  "valid_receipt r = (receipt_ok r \<and> sorted (rc_parents r)
     \<and> (\<forall>(t, h)\<in>set (rc_parents r). ident_ok t \<and> hex64 h)
     \<and> (rc_schema r = RECEIPT_SCHEMA \<or>
        rc_schema r = LEGACY_RECEIPT_SCHEMA \<and> rc_engine r = ''unknown'' \<and> rc_engine_version r = ''unknown''))"

lemma hash_id_ok [result_simps]: "hash_id s = Inr u \<longleftrightarrow> hex64 s"
  by (simp add: hash_id_def result_simps)

lemma verifier_id_ok [result_simps]: "verifier_id s = Inr u \<longleftrightarrow> verifier_ok s"
  by (auto simp: verifier_id_def verifier_ok_def result_simps list_all_iff)

lemma mk_ref_ok [result_simps]: "mk_ref t h = Inr p \<longleftrightarrow> p = (t, h) \<and> ident_ok t \<and> hex64 h"
  by (auto simp: mk_ref_def result_simps)

lemma mk_receipt_ok:
  "mk_receipt r = Inr r' \<longleftrightarrow> receipt_ok r \<and> r' = r\<lparr>rc_parents := sort (rc_parents r), rc_schema := RECEIPT_SCHEMA\<rparr>"
  by (auto simp: mk_receipt_def receipt_ok_def result_simps Let_def)

lemma mk_receipt_valid:
  "mk_receipt r = Inr r' \<Longrightarrow> \<forall>(t, h)\<in>set (rc_parents r). ident_ok t \<and> hex64 h \<Longrightarrow> valid_receipt r'"
  by (auto simp: mk_receipt_ok valid_receipt_def receipt_ok_def sort_key_sort_key)

lemma schemas_differ: "LEGACY_RECEIPT_SCHEMA \<noteq> RECEIPT_SCHEMA"
  by (simp add: LEGACY_RECEIPT_SCHEMA_def RECEIPT_SCHEMA_def)

section \<open>Payloads\<close>

lemma result_value_parse: "parse_result (result_value v) = Inr v"
  by (cases v) auto

lemma parse_result_value: "parse_result s = Inr v \<Longrightarrow> result_value v = s"
  by (auto split: if_splits)

lemma wf_ref_json: "wf_json fl (ref_json p)"
  by (simp add: ref_json_def)

lemma wf_receipt_payload: "wf_json fl (receipt_payload r)"
  by (auto simp: receipt_payload_def payload_fields_def list_all_iff wf_ref_json)

lemma distinct_payload_fields: "distinct (map fst (payload_fields r))"
  by (cases "rc_schema r = RECEIPT_SCHEMA") (simp_all add: payload_fields_def)

lemma str_field_Inr [result_simps]: "str_field v = Inr s \<longleftrightarrow> v = JStr s"
  by (cases v) auto

lemma fields_Inr [result_simps]: "obj_fields v = Inr kvs \<longleftrightarrow> v = JObj kvs"
  by (cases v) auto

lemma list_items_Inr [result_simps]: "list_items v = Inr vs \<longleftrightarrow> v = JArr vs"
  by (cases v) auto

lemma str_of_Inr [result_simps]: "str_of kvs k = Inr s \<longleftrightarrow> map_of kvs k = Some (JStr s)"
  by (auto simp: str_of_def result_simps)

lemma map_option_norm_JStr: "map_option norm_json x = Some (JStr s) \<longleftrightarrow> x = Some (JStr s)"
  by (cases x) (auto simp: norm_JStr)

lemma norm_obj_fields:
  assumes "norm_json (JObj a) = norm_json (JObj b)" and "distinct (map fst a)" and "distinct (map fst b)"
  shows "map_of a k = Some (JStr s) \<longleftrightarrow> map_of b k = Some (JStr s)" and "fst ` set a = fst ` set b"
proof -
  have n: "map_option norm_json (map_of a k) = map_option norm_json (map_of b k)" for k
    using norm_obj_eq_iff assms by blast
  then show "map_of a k = Some (JStr s) \<longleftrightarrow> map_of b k = Some (JStr s)"
    using map_option_norm_JStr by metis
  have "map_of a k = None \<longleftrightarrow> map_of b k = None" for k using n [of k] by (cases "map_of b k") auto
  then have "dom (map_of a) = dom (map_of b)" by (simp add: dom_def)
  then show "fst ` set a = fst ` set b" by (simp add: dom_map_of_conv_image_fst)
qed

lemma parse_ref_norm:
  assumes "norm_json v = norm_json (ref_json p)" and "distinct_keys v" and "ident_ok (fst p)" and "hex64 (snd p)"
  shows "parse_ref v = Inr p"
proof -
  let ?b = "[(''task_id'', JStr (fst p)), (''receipt_hash'', JStr (snd p))]"
  obtain kvs where v: "v = JObj kvs" using norm_JObjD [of v ?b] assms(1) by (auto simp: ref_json_def)
  have "norm_json (JObj kvs) = norm_json (JObj ?b)" "distinct (map fst kvs)" "distinct (map fst ?b)"
    using assms(1,2) v by (simp_all add: ref_json_def)
  note f = norm_obj_fields [OF this]
  have "map_of kvs ''task_id'' = Some (JStr (fst p))" "map_of kvs ''receipt_hash'' = Some (JStr (snd p))"
    "fst ` set kvs = {''task_id'', ''receipt_hash''}"
    using f by simp_all
  then show ?thesis using assms(3,4) by (simp add: parse_ref_def v str_of_def dict_get_def result_simps)
qed

lemma parse_ref_Inr: "parse_ref v = Inr p \<Longrightarrow> distinct_keys v \<Longrightarrow>
    norm_json v = norm_json (ref_json p) \<and> ident_ok (fst p) \<and> hex64 (snd p)"
proof -
  assume p: "parse_ref v = Inr p" and d: "distinct_keys v"
  let ?b = "[(''task_id'', JStr (fst p)), (''receipt_hash'', JStr (snd p))]"
  obtain kvs t h where "v = JObj kvs" "fst ` set kvs = {''task_id'', ''receipt_hash''}"
    "map_of kvs ''task_id'' = Some (JStr t)" "map_of kvs ''receipt_hash'' = Some (JStr h)" "mk_ref t h = Inr p"
    using p unfolding parse_ref_def bind_r_Inr_iff fields_Inr str_of_Inr ensure_Inr_iff
    by (elim exE conjE) (rule that; assumption)
  then have v: "v = JObj kvs" "fst ` set kvs = {''task_id'', ''receipt_hash''}"
    "map_of kvs ''task_id'' = Some (JStr (fst p))" "map_of kvs ''receipt_hash'' = Some (JStr (snd p))"
    "ident_ok (fst p)" "hex64 (snd p)"
    by (simp_all add: mk_ref_ok)
  have "map_of kvs k = map_of ?b k" for k
    using v(2-4) by (cases "k \<in> fst ` set kvs") (auto simp: map_of_eq_None_iff)
  then have "norm_json (JObj kvs) = norm_json (JObj ?b)"
    using d v(1) by (intro norm_obj_eqI) auto
  with v show ?thesis by (simp add: ref_json_def)
qed

lemma receipt_of_payload_norm:
  assumes "valid_receipt r" and "norm_json (JObj kvs) = norm_json (receipt_payload r)" and "distinct (map fst kvs)"
  shows "receipt_of_payload (rc_schema r) kvs (rc_parents r) = Inr r"
proof -
  note f = norm_obj_fields(1) [OF assms(2) [unfolded receipt_payload_def] assms(3) distinct_payload_fields]
  have 1: "str_of kvs ''task_id'' = Inr (rc_task r)" "str_of kvs ''cache_key'' = Inr (rc_cache_key r)"
    "str_of kvs ''value_hash'' = Inr (rc_value_hash r)" "str_of kvs ''verifier_name'' = Inr (rc_verifier r)"
    "str_of kvs ''verifier_revision'' = Inr (rc_revision r)" "str_of kvs ''verdict'' = Inr (result_value (rc_verdict r))"
    unfolding str_of_Inr f by (simp_all add: payload_fields_def)
  have 2: "rc_schema r \<noteq> LEGACY_RECEIPT_SCHEMA \<Longrightarrow> str_of kvs ''engine_name'' = Inr (rc_engine r)"
    "rc_schema r \<noteq> LEGACY_RECEIPT_SCHEMA \<Longrightarrow> str_of kvs ''engine_version'' = Inr (rc_engine_version r)"
    unfolding str_of_Inr f using assms(1) by (auto simp: payload_fields_def valid_receipt_def)
  have "mk_receipt r = Inr (r\<lparr>rc_schema := RECEIPT_SCHEMA\<rparr>)"
    using assms(1) by (simp add: mk_receipt_ok valid_receipt_def sorted_sort_id)
  moreover have "rc_schema r = LEGACY_RECEIPT_SCHEMA \<Longrightarrow> rc_engine r = ''unknown'' \<and> rc_engine_version r = ''unknown''"
    using assms(1) schemas_differ by (auto simp: valid_receipt_def)
  ultimately show ?thesis
    using 1 2 by (cases r) (auto simp: receipt_of_payload_def result_value_parse simp del: parse_result.simps)
qed

section \<open>Envelopes\<close>

abbreviation sealed_text :: "receipt \<Rightarrow> string" where
  "sealed_text r \<equiv> rc_schema r @ newline # dumps (receipt_payload r)"

definition envelope :: "(string \<Rightarrow> string) \<Rightarrow> receipt \<Rightarrow> (string \<times> json) list" where
  "envelope H r = [(''schema_version'', JStr (rc_schema r)), (''hash_algorithm'', JStr ''sha256''),
     (''receipt_hash'', JStr (H (sealed_text r))), (''payload'', receipt_payload r)]"

lemma domain_hash_norm:
  "norm_json v = norm_json (receipt_payload r) \<Longrightarrow>
     domain_hash H sch v = Inr (H (sch @ newline # dumps (receipt_payload r)))"
  using finite_norm_json [of v] finite_norm_json [of "receipt_payload r"] wf_json_finite [OF wf_receipt_payload]
    dumps_norm_json [of v] dumps_norm_json [of "receipt_payload r"]
  by (simp add: domain_hash_def canonical_def)

lemma receipt_hash_eq: "receipt_hash H r = Inr (H (sealed_text r))"
  by (simp add: receipt_hash_def domain_hash_norm)

lemma receipt_to_dict_eq: "receipt_to_dict H r = Inr (JObj (envelope H r))"
  by (simp add: receipt_to_dict_def receipt_hash_eq envelope_def)

lemma wf_envelope: "wf_json fl (JObj (envelope H r))"
  using wf_receipt_payload by (simp add: envelope_def)

lemma distinct_keys_field: "distinct_keys (JObj kvs) \<Longrightarrow> map_of kvs k = Some v \<Longrightarrow> distinct_keys v"
  by (auto simp: list_all_iff dest!: map_of_SomeD)

lemma parents_of_norm:
  assumes "valid_receipt r" and "norm_json (JObj kvs) = norm_json (receipt_payload r)" and "distinct_keys (JObj kvs)"
  shows "\<exists>vs. map_of kvs ''parent_receipts'' = Some (JArr vs) \<and> map_r parse_ref vs = Inr (rc_parents r)"
proof -
  have "map_option norm_json (map_of kvs ''parent_receipts'') =
      map_option norm_json (map_of (payload_fields r) ''parent_receipts'')"
    using norm_obj_eq_iff assms(2,3) distinct_payload_fields by (simp add: receipt_payload_def del: norm_json.simps)
  then have "map_option norm_json (map_of kvs ''parent_receipts'') = Some (JArr (map (norm_json \<circ> ref_json) (rc_parents r)))"
    by (simp add: payload_fields_def)
  then obtain vs where vs: "map_of kvs ''parent_receipts'' = Some (JArr vs)"
    "map norm_json vs = map (norm_json \<circ> ref_json) (rc_parents r)"
    by (auto simp: norm_JArr)
  have d: "distinct_keys (JArr vs)" using distinct_keys_field assms(3) vs(1) by blast
  have "list_all2 (\<lambda>v p. norm_json v = norm_json (ref_json p)) vs (rc_parents r)"
    using vs(2) unfolding list.rel_eq [symmetric] list.rel_map by simp
  then have "list_all2 (\<lambda>v p. parse_ref v = Inr p) vs (rc_parents r)"
    by (rule list.rel_mono_strong)
      (use d assms(1) in \<open>auto simp: list_all_iff valid_receipt_def intro!: parse_ref_norm\<close>)
  with vs(1) show ?thesis by (simp add: map_r_Inr_iff)
qed

lemma payload_field_names:
  "valid_receipt r \<Longrightarrow> fst ` set (payload_fields r) = v1_fields \<union>
     (if rc_schema r = RECEIPT_SCHEMA then {''engine_name'', ''engine_version''} else {})"
  by (cases "rc_schema r = RECEIPT_SCHEMA") (auto simp: payload_fields_def v1_fields_def)

lemma read_envelope_norm:
  assumes "valid_receipt r" and "norm_json (JObj env) = norm_json (JObj (envelope H r))" and "distinct_keys (JObj env)"
  shows "read_envelope H (JObj env) = Inr r"
proof -
  have d: "distinct (map fst env)" "distinct (map fst (envelope H r))" using assms(3) by (simp_all add: envelope_def)
  note f = norm_obj_fields [OF assms(2) d]
  have str: "map_of env ''schema_version'' = Some (JStr (rc_schema r))" "map_of env ''hash_algorithm'' = Some (JStr ''sha256'')"
    "map_of env ''receipt_hash'' = Some (JStr (H (sealed_text r)))"
    unfolding f by (simp_all add: envelope_def)
  have keys: "fst ` set env = envelope_fields" unfolding f by (auto simp: envelope_def envelope_fields_def)
  have "map_option norm_json (map_of env ''payload'') = map_option norm_json (map_of (envelope H r) ''payload'')"
    using norm_obj_eq_iff [OF d] assms(2) by blast
  then obtain pv where pv: "map_of env ''payload'' = Some pv" "norm_json pv = norm_json (receipt_payload r)"
    by (auto simp: envelope_def simp del: norm_json.simps)
  then obtain kvs where kvs: "pv = JObj kvs" using norm_JObjD by (metis receipt_payload_def)
  have n: "norm_json (JObj kvs) = norm_json (receipt_payload r)" using pv(2) kvs by blast
  have dk: "distinct_keys (JObj kvs)" using distinct_keys_field assms(3) pv(1) kvs by blast
  have dkvs: "distinct (map fst kvs)" using dk by simp
  have pk: "fst ` set kvs = v1_fields \<union> (if rc_schema r = RECEIPT_SCHEMA then {''engine_name'', ''engine_version''} else {})"
    using norm_obj_fields(2) [OF n [unfolded receipt_payload_def] dkvs distinct_payload_fields] payload_field_names assms(1) by simp
  obtain vs where vs: "map_of kvs ''parent_receipts'' = Some (JArr vs)" "map_r parse_ref vs = Inr (rc_parents r)"
    using parents_of_norm [OF assms(1) n dk] by blast
  have schema: "rc_schema r \<in> {RECEIPT_SCHEMA, LEGACY_RECEIPT_SCHEMA}" using assms(1) by (auto simp: valid_receipt_def)
  show ?thesis
    unfolding read_envelope_def obj_fields.simps bind_r.simps dict_get_def keys str pv(1) kvs option.case str_field.simps
      list_items.simps vs domain_hash_norm [OF n] receipt_of_payload_norm [OF assms(1) n dkvs] receipt_hash_eq same_payload_def n pk
    using schema by simp
qed

text \<open>Receipts survive the wire: every valid receipt, of either schema, is read back unchanged
  from its envelope, both as a dictionary and from its canonical JSON text.\<close>

theorem receipt_round_trip:
  assumes "valid_receipt r"
  shows "\<exists>env. receipt_to_dict H r = Inr env \<and> receipt_from_dict H env = Inr r
    \<and> receipt_from_json fl H (dumps env) = Inr r"
proof -
  let ?env = "JObj (envelope H r)"
  have dk: "distinct_keys ?env" using wf_json_distinct_keys wf_envelope by blast
  have "read_envelope H ?env = Inr r" using read_envelope_norm [OF assms refl dk] .
  then have 1: "receipt_from_dict H ?env = Inr r" by (simp add: receipt_from_dict_def)
  obtain env' where env': "norm_json ?env = JObj env'" by simp
  have "distinct_keys (norm_json ?env)" by (rule distinct_keys_norm [OF dk])
  then have "read_envelope H (norm_json ?env) = Inr r"
    using read_envelope_norm [OF assms, of env' H] norm_norm_json [of ?env] env' by metis
  then have "receipt_from_dict H (norm_json ?env) = Inr r" by (simp add: receipt_from_dict_def)
  then have "receipt_from_json fl H (dumps ?env) = Inr r"
    using strict_json_dumps [OF wf_envelope] unfolding receipt_from_json_def by simp
  with 1 show ?thesis by (simp add: receipt_to_dict_eq)
qed

definition sample_receipt :: receipt where
  "sample_receipt = \<lparr>rc_task = ''t1'', rc_cache_key = replicate 64 (CHR ''a''), rc_value_hash = replicate 64 (CHR ''0''),
     rc_verifier = ''d:e'', rc_revision = replicate 64 (CHR ''1''), rc_verdict = RPass,
     rc_parents = [(''t0'', replicate 64 (CHR ''b''))], rc_engine = ''local'', rc_engine_version = ''1'',
     rc_schema = RECEIPT_SCHEMA\<rparr>"

lemma hex64_replicate: "hex64 (replicate 64 c) \<longleftrightarrow> is_digit c \<or> CHR ''a'' \<le> c \<and> c \<le> CHR ''f''"
  by (simp add: hex64_def list_all_iff)

lemma sample_receipt_valid: "valid_receipt sample_receipt"
  by (simp add: valid_receipt_def receipt_ok_def sample_receipt_def verifier_ok_def hex64_replicate is_digit_def
      less_eq_char_def ident_char_def is_letter_def is_lower_def is_upper_def ascii_space_def)

theorem receipt_round_trip_witness:
  "\<exists>env. receipt_to_dict (\<lambda>s. nat_str (length s)) sample_receipt = Inr env
     \<and> receipt_from_dict (\<lambda>s. nat_str (length s)) env = Inr sample_receipt"
  using receipt_round_trip [OF sample_receipt_valid] by blast

section \<open>What reading an envelope establishes\<close>

lemma receipt_of_payload_Inr:
  assumes "receipt_of_payload schema kvs refs = Inr r"
  shows "rc_schema r = schema \<and> rc_parents r = sort refs \<and> receipt_ok r
    \<and> (schema = LEGACY_RECEIPT_SCHEMA \<longrightarrow> rc_engine r = ''unknown'' \<and> rc_engine_version r = ''unknown'')"
proof -
  obtain t ck vh vn vr vd en ev where m: "mk_receipt \<lparr>rc_task = t, rc_cache_key = ck, rc_value_hash = vh,
      rc_verifier = vn, rc_revision = vr, rc_verdict = vd, rc_parents = refs, rc_engine = en,
      rc_engine_version = ev, rc_schema = schema\<rparr> = Inr (r\<lparr>rc_schema := RECEIPT_SCHEMA\<rparr>)"
    and r: "rc_schema r = schema"
    and en: "(if schema = LEGACY_RECEIPT_SCHEMA then Inr ''unknown'' else str_of kvs ''engine_name'') = Inr en"
      "(if schema = LEGACY_RECEIPT_SCHEMA then Inr ''unknown'' else str_of kvs ''engine_version'') = Inr ev"
    using assms unfolding receipt_of_payload_def bind_r_Inr_iff mk_receipt_ok by (elim exE conjE) auto
  have "rc_engine r = en" "rc_engine_version r = ev" "rc_parents r = sort refs" "receipt_ok r"
    using m by (cases r; auto simp: mk_receipt_ok receipt_ok_def sort_key_sort_key)+
  with r en show ?thesis by auto
qed

lemma read_envelope_Inr:
  assumes "read_envelope H (JObj env) = Inr r" and "distinct_keys (JObj env)"
  obtains kvs vs where "fst ` set env = envelope_fields" "map_of env ''schema_version'' = Some (JStr (rc_schema r))"
    "map_of env ''hash_algorithm'' = Some (JStr ''sha256'')" "map_of env ''payload'' = Some (JObj kvs)"
    "map_of kvs ''parent_receipts'' = Some (JArr vs)" "map_of env ''receipt_hash'' = Some (JStr (H (sealed_text r)))"
    "norm_json (receipt_payload r) = norm_json (JObj kvs)" "valid_receipt r"
proof -
  obtain schema kvs vs refs h where e: "fst ` set env = envelope_fields"
    "map_of env ''schema_version'' = Some (JStr schema)" "schema \<in> {RECEIPT_SCHEMA, LEGACY_RECEIPT_SCHEMA}"
    "map_of env ''hash_algorithm'' = Some (JStr ''sha256'')" "map_of env ''payload'' = Some (JObj kvs)"
    "map_of kvs ''parent_receipts'' = Some (JArr vs)" "map_r parse_ref vs = Inr refs"
    "receipt_of_payload schema kvs refs = Inr r" "receipt_hash H r = Inr h"
    "map_of env ''receipt_hash'' = Some (JStr h)" "same_payload (receipt_payload r) (JObj kvs)"
    using assms(1) unfolding read_envelope_def bind_r_Inr_iff fields_Inr ensure_Inr_iff dict_get_Inr_iff str_field_Inr
      list_items_Inr json.inject
    by (elim exE conjE) (simp only: sum.inject; metis)
  have "distinct_keys (JArr vs)" using distinct_keys_field [OF distinct_keys_field [OF assms(2) e(5)] e(6)] .
  then have "list_all2 (\<lambda>v p. parse_ref v = Inr p \<and> distinct_keys v) vs refs"
    using e(7) by (auto simp: map_r_Inr_iff list_all_iff elim: list.rel_mono_strong)
  then have refs: "\<forall>(t, h)\<in>set refs. ident_ok t \<and> hex64 h"
    by (induction rule: list_all2_induct) (auto dest: parse_ref_Inr)
  have r: "rc_schema r = schema" "valid_receipt r"
    using e(3) receipt_of_payload_Inr [OF e(8)] refs by (auto simp: valid_receipt_def)
  show ?thesis
    by (rule that) (use e r in \<open>simp_all add: receipt_hash_eq same_payload_def\<close>)
qed

text \<open>Only authentic envelopes are read: if \<open>from_dict\<close> returns a receipt, that receipt is valid
  and its own envelope equals the input up to key order, so no field was normalised, defaulted or
  ignored and the recorded hash is the hash of the payload under its schema.\<close>

theorem receipt_from_dict_authentic:
  assumes "receipt_from_dict H env = Inr r" and "distinct_keys env"
  shows "valid_receipt r \<and> (\<exists>env'. receipt_to_dict H r = Inr env' \<and> norm_json env' = norm_json env)"
proof -
  have r: "read_envelope H env = Inr r" using assms(1) by (auto simp: receipt_from_dict_def split: sum.splits)
  then obtain es where env: "env = JObj es" by (cases env) (auto simp: read_envelope_def)
  obtain kvs where f: "fst ` set es = envelope_fields" "map_of es ''schema_version'' = Some (JStr (rc_schema r))"
    "map_of es ''hash_algorithm'' = Some (JStr ''sha256'')" "map_of es ''payload'' = Some (JObj kvs)"
    "map_of es ''receipt_hash'' = Some (JStr (H (sealed_text r)))"
    "norm_json (receipt_payload r) = norm_json (JObj kvs)" "valid_receipt r"
    using read_envelope_Inr [of H es r] r assms(2) env by metis
  have "map_option norm_json (map_of (envelope H r) k) = map_option norm_json (map_of es k)" for k
  proof (cases "k \<in> fst ` set es")
    case True
    then show ?thesis using f by (auto simp: envelope_fields_def envelope_def simp del: norm_json.simps(8))
  next
    case False
    then have "map_of es k = None" by (simp add: map_of_eq_None_iff)
    with False f(1) show ?thesis by (simp add: envelope_fields_def envelope_def)
  qed
  then have "norm_json (JObj (envelope H r)) = norm_json (JObj es)"
    using assms(2) env by (intro norm_obj_eqI) (simp_all add: envelope_def)
  with f(7) env show ?thesis by (simp add: receipt_to_dict_eq)
qed

theorem receipt_from_dict_authentic_witness:
  "valid_receipt sample_receipt"
proof -
  let ?H = "\<lambda>s. nat_str (length s)"
  have dk: "distinct_keys (JObj (envelope ?H sample_receipt))" using wf_json_distinct_keys wf_envelope by blast
  have "receipt_from_dict ?H (JObj (envelope ?H sample_receipt)) = Inr sample_receipt"
    by (simp add: receipt_from_dict_def read_envelope_norm [OF sample_receipt_valid refl dk])
  from receipt_from_dict_authentic [OF this dk] show ?thesis by blast
qed

lemma schema_no_newline: "valid_receipt r \<Longrightarrow> newline \<notin> set (rc_schema r)"
  by (auto simp: valid_receipt_def RECEIPT_SCHEMA_def LEGACY_RECEIPT_SCHEMA_def)

lemma split_at_newline: "xs @ newline # us = ys @ newline # vs \<Longrightarrow> newline \<notin> set xs \<Longrightarrow> newline \<notin> set ys \<Longrightarrow> xs = ys \<and> us = vs"
proof (induction xs arbitrary: ys)
  case Nil
  then show ?case by (cases ys) auto
next
  case (Cons x xs)
  then show ?case by (cases ys) auto
qed

lemma sealed_text_inj:
  assumes "valid_receipt r" and "valid_receipt r'" and "sealed_text r = sealed_text r'"
  shows "r = r'"
proof -
  have eq: "rc_schema r = rc_schema r'" "dumps (receipt_payload r) = dumps (receipt_payload r')"
    using split_at_newline [OF assms(3)] schema_no_newline assms(1,2) by auto
  then have n: "norm_json (receipt_payload r) = norm_json (receipt_payload r')"
    using dumps_inj wf_receipt_payload by blast
  have "norm_json (JObj (envelope id r)) = norm_json (JObj (envelope id r'))"
    using n eq by (intro norm_obj_eqI) (simp_all add: envelope_def)
  moreover have "distinct_keys (JObj (envelope id r))" using wf_json_distinct_keys wf_envelope by blast
  ultimately have "read_envelope id (JObj (envelope id r)) = Inr r'" "read_envelope id (JObj (envelope id r)) = Inr r"
    using read_envelope_norm assms(1,2) by blast+
  then show ?thesis by simp
qed

text \<open>A receipt hash identifies its receipt: two valid receipts with the same hash are the same
  receipt, schema, verdict, parents and engine included, or their sealed texts are an explicit
  collision of the hash function; the schema line separates the two domains.\<close>

theorem receipt_hash_binds:
  assumes "valid_receipt r" and "valid_receipt r'" and "receipt_hash H r = receipt_hash H r'"
  shows "r = r' \<or> collision H (sealed_text r) (sealed_text r')"
  using assms sealed_text_inj [of r r'] by (auto simp: receipt_hash_eq collision_def)

theorem receipt_hash_binds_witness:
  "sample_receipt = sample_receipt \<or> collision id (sealed_text sample_receipt) (sealed_text sample_receipt)"
  by (rule receipt_hash_binds [OF sample_receipt_valid sample_receipt_valid refl])

section \<open>The receipt graph\<close>

definition bound_node :: "(string \<Rightarrow> string) \<Rightarrow> (string, receipt) dict \<Rightarrow> string list \<Rightarrow> string \<times> receipt \<Rightarrow> bool" where
  "bound_node H receipts ds node =
     (case node of (t, r) \<Rightarrow> rc_task r = t \<and> distinct ds \<and> set ds \<subseteq> fst ` set receipts
      \<and> (\<forall>d\<in>set ds. ident_ok d \<and> hex64 (H (sealed_text (the (map_of receipts d)))))
      \<and> rc_parents r = sort (map (\<lambda>d. (d, H (sealed_text (the (map_of receipts d))))) ds))"

lemma node_refs:
  assumes "set ds \<subseteq> fst ` set receipts"
  shows "map_r (\<lambda>d. bind_r (dict_get receipts d) (\<lambda>rd. bind_r (receipt_hash H rd) (mk_ref d))) ds = Inr refs \<longleftrightarrow>
    (\<forall>d\<in>set ds. ident_ok d \<and> hex64 (H (sealed_text (the (map_of receipts d)))))
    \<and> refs = map (\<lambda>d. (d, H (sealed_text (the (map_of receipts d))))) ds"
proof -
  have "\<exists>r. map_of receipts d = Some r" if "d \<in> set ds" for d
    using assms that by (metis (no_types, lifting) map_of_eq_None_iff option.exhaust subsetD)
  then have "(bind_r (dict_get receipts d) (\<lambda>rd. bind_r (receipt_hash H rd) (mk_ref d)) = Inr p \<longleftrightarrow>
      ident_ok d \<and> hex64 (H (sealed_text (the (map_of receipts d)))) \<and> p = (d, H (sealed_text (the (map_of receipts d)))))"
    if "d \<in> set ds" for d p
    using that by (fastforce simp: dict_get_def receipt_hash_eq mk_ref_ok)
  then show ?thesis
    unfolding map_r_Inr_iff by (induction ds arbitrary: refs) (auto simp: list_all2_Cons1)
qed

lemma check_receipt_node_ok:
  "check_receipt_node H receipts dependencies (t, r) = Inr () \<longleftrightarrow>
     (\<exists>ds. map_of dependencies t = Some ds \<and> bound_node H receipts ds (t, r))"
  by (auto simp: check_receipt_node_def bound_node_def result_simps node_refs)

text \<open>C36. A validated receipt graph is exactly a hash-bound acyclic graph: validation succeeds if and
  only if receipts and dependency declarations cover the same tasks, every receipt is filed under
  its own task, its parent references are precisely the sorted hashes of the receipts of its
  declared dependencies, and the dependency relation has no cycle.\<close>

theorem validate_receipt_graph_iff:
  assumes "distinct (map fst receipts)" and "distinct (map fst dependencies)"
  shows "validate_receipt_graph H receipts dependencies = Inr () \<longleftrightarrow>
    fst ` set receipts = fst ` set dependencies
    \<and> (\<forall>(t, r)\<in>set receipts. \<exists>ds. map_of dependencies t = Some ds \<and> bound_node H receipts ds (t, r))
    \<and> acyclic (dep_rel dependencies)"
proof -
  have "closed_deps dependencies"
    if k: "fst ` set receipts = fst ` set dependencies"
      and n: "\<forall>(t, r)\<in>set receipts. \<exists>ds. map_of dependencies t = Some ds \<and> bound_node H receipts ds (t, r)"
    unfolding closed_deps_def
  proof (intro conjI ballI assms(2))
    fix x assume x: "x \<in> set dependencies"
    obtain t ds where t: "x = (t, ds)" by (cases x)
    then have "t \<in> fst ` set receipts" using k x by force
    then obtain r where "(t, r) \<in> set receipts" by auto
    then obtain ds' where "map_of dependencies t = Some ds'" "bound_node H receipts ds' (t, r)" using n by blast
    moreover have "map_of dependencies t = Some ds" using x t assms(2) by simp
    ultimately show "case x of (k, ds) \<Rightarrow> set ds \<subseteq> fst ` set dependencies"
      using k t by (simp add: bound_node_def)
  qed
  moreover have "(\<forall>x\<in>set receipts. check_receipt_node H receipts dependencies x = Inr ()) \<longleftrightarrow>
      (\<forall>(t, r)\<in>set receipts. \<exists>ds. map_of dependencies t = Some ds \<and> bound_node H receipts ds (t, r))"
    using check_receipt_node_ok [of H receipts dependencies] by fast
  ultimately show ?thesis
    using resolve_layers_iff_acyclic [of dependencies]
    by (simp add: validate_receipt_graph_def bind_ensure bind_r_Inr_iff iter_r_Inr_iff ensure_Inr_iff) blast
qed

theorem validate_receipt_graph_iff_witness:
  "validate_receipt_graph (\<lambda>_. replicate 64 (CHR ''c''))
     [(''t0'', sample_receipt\<lparr>rc_task := ''t0'', rc_parents := []\<rparr>),
      (''t1'', sample_receipt\<lparr>rc_parents := [(''t0'', replicate 64 (CHR ''c''))]\<rparr>)]
     [(''t1'', [''t0'']), (''t0'', [])] = Inr ()"
  (is "validate_receipt_graph ?H ?rs ?ds = Inr ()")
proof -
  have "dep_rel ?ds = {(''t0'', ''t1'')}" by (auto simp: dep_rel_def)
  then have "acyclic (dep_rel ?ds)" by (simp add: acyclic_def trancl_insert)
  moreover have "\<forall>(t, r)\<in>set ?rs. \<exists>ds. map_of ?ds t = Some ds \<and> bound_node ?H ?rs ds (t, r)"
    by (simp add: bound_node_def sample_receipt_def hex64_replicate is_letter_def is_lower_def is_digit_def ident_char_def
        less_eq_char_def)
  moreover have "fst ` set ?rs = fst ` set ?ds" by (simp add: insert_commute)
  ultimately show ?thesis using validate_receipt_graph_iff [of ?rs ?ds ?H] by simp
qed

end
