(* ===== verification/Engine.thy ===== *)
theory Engine
  imports Storage Receipts
begin

text \<open>
  The residual harness, \<open>Harness\<close> of \<open>src/residual/engine.py\<close>, in the modes without structural
  compilation: routing of obligations to cache, solvers, local and expert providers, acceptance
  under the host verifier, evidence windows, request packets, call budgets and the run loop.

  \<^item> Providers are host objects: a name, a placement, the wire size of a packet and a reply for
    each call (numbered, so that a provider may answer the same packet differently).
  \<^item> A packet is a record of the parts the source puts in its dictionary, an excerpt the artifact
    and the interval of lines. A call record keeps the packet, where the source keeps its digest,
    and no usage or cost figures.
  \<^item> Ledger events are pairs of kind and data; \<open>Storage\<close> has their hash chain. Elapsed times are
    left out.
\<close>

section \<open>Configuration\<close>

record limits =
  local_rounds :: int
  expert_rounds :: int
  max_calls :: int
  max_expert_calls :: int
  max_remote_input_bytes :: int
  max_request_bytes :: int
  max_output_tokens :: int
  max_requested_lines :: int
  seed_lines :: int
  max_structural_nodes :: int

definition mk_limits :: "limits \<Rightarrow> limits result" where
  "mk_limits l =
     bind_r (iter_r (\<lambda>(v, key, z). bind_r (positive_int (JInt v) key z) (\<lambda>_. Inr ()))
       [(local_rounds l, ''local_rounds'', True), (expert_rounds l, ''expert_rounds'', True),
        (max_calls l, ''max_calls'', False), (max_expert_calls l, ''max_expert_calls'', True),
        (max_remote_input_bytes l, ''max_remote_input_bytes'', True), (max_request_bytes l, ''max_request_bytes'', False),
        (max_output_tokens l, ''max_output_tokens'', False), (max_requested_lines l, ''max_requested_lines'', False),
        (seed_lines l, ''seed_lines'', True), (max_structural_nodes l, ''max_structural_nodes'', True)]) (\<lambda>_.
     bind_r (ensure (max_structural_nodes l \<le> 1000000) (ContractError ''structural node limit exceeds maximum'')) (\<lambda>_.
     Inr l))"

datatype mode = Residual | ResidualFixed | Cascade | FullCloud | LocalOnly | NoPull | NoFeedback | NoSolvers

datatype role = RLocal | RExpert

record packet =
  pk_obligations :: "string list"
  pk_dependencies :: "(string \<times> json \<times> string) list"
  pk_counterexamples :: "(string \<times> string \<times> string) list"
  pk_manifest :: "string list"
  pk_evidence :: "(string \<times> int \<times> int) list"

record reply =
  rp_text :: string
  rp_finish :: string

text \<open>\<open>generate\<close> raises a \<open>ProviderError\<close> with a code, raises something else or returns a value
  that is no reply (both \<open>Inl\<close>), or replies.\<close>

record provider =
  pv_name :: string
  pv_remote :: bool
  pv_wire_size :: "packet \<Rightarrow> int \<Rightarrow> int"
  pv_generate :: "nat \<Rightarrow> packet \<Rightarrow> string + reply"

record call =
  c_role :: role
  c_provider :: string
  c_remote :: bool
  c_ids :: "string list"
  c_bytes :: int
  c_packet :: packet
  c_error :: "string option"

record harness =
  hn_hash :: "string \<Rightarrow> string"
  hn_float :: "string \<Rightarrow> json"
  hn_task :: task
  hn_registry :: registry
  hn_local :: "provider option"
  hn_expert :: "provider option"
  hn_limits :: limits
  hn_mode :: mode

type_synonym window_key = "string \<times> string \<times> string"

record run_state =
  accepted :: "(string, json) dict"
  legacy_receipts :: "(string, json) dict"
  station_receipts :: "(string, receipt) dict"
  failures :: "(string, string \<times> string) dict"
  windows :: "(window_key, (int \<times> int) list) dict"
  calls :: "call list"
  events :: "(string \<times> json) list"
  run_cache :: "cache option"
  cache_hits :: nat
  deterministic_accepts :: nat
  remote_bytes :: int
  expert_calls :: int

definition initial_state :: "cache option \<Rightarrow> run_state" where
  "initial_state c = \<lparr>accepted = [], legacy_receipts = [], station_receipts = [], failures = [], windows = [], calls = [],
     events = [], run_cache = c, cache_hits = 0, deterministic_accepts = 0, remote_bytes = 0, expert_calls = 0\<rparr>"

definition log_event :: "string \<Rightarrow> (string \<times> json) list \<Rightarrow> run_state \<Rightarrow> run_state" where
  "log_event kind data st = st\<lparr>events := events st @ [(kind, JObj data)]\<rparr>"

definition ob_of :: "harness \<Rightarrow> string \<Rightarrow> obligation result" where
  "ob_of hn n = dict_get (by_id (hn_task hn)) n"

definition context_of :: "harness \<Rightarrow> obligation \<Rightarrow> run_state \<Rightarrow> check_context" where
  "context_of hn ob st = \<lparr>ctx_obligation = ob, ctx_artifacts = artifacts (hn_task hn), ctx_accepted = accepted st\<rparr>"

section \<open>Identities, bindings and cache keys\<close>

definition obligation_json :: "obligation \<Rightarrow> json" where
  "obligation_json ob = JObj [(''id'', JStr (ob_id ob)), (''instruction'', JStr (instruction ob)), (''check'', JStr (ob_check ob)),
     (''evidence'', JArr (map JStr (ob_evidence ob))), (''depends_on'', JArr (map JStr (depends_on ob))),
     (''parameters'', parameters ob), (''solver'', opt_str (ob_solver ob)), (''cloud'', JBool (ob_cloud ob))]"

definition identity_of :: "harness \<Rightarrow> run_state \<Rightarrow> obligation \<Rightarrow> (string \<times> string \<times> check_type) option result" where
  "identity_of hn st ob =
     (case map_of (reg_identities (hn_registry hn)) (ob_check ob) of
        None \<Rightarrow> Inr None
      | Some (revision, ct) \<Rightarrow>
          if \<not> set (depends_on ob) \<subseteq> fst ` set (station_receipts st) then Inr None
          else
            bind_r (dict_get (reg_checks (hn_registry hn)) (ob_check ob)) (\<lambda>(label, _).
            bind_r (digest (hn_hash hn) (JObj [(''identity'', JStr revision), (''label'', JStr label),
              (''check_type'', JStr (check_type_value ct))])) (\<lambda>d.
            Inr (Some (if CHR '':'' \<in> set (ob_check ob) then ob_check ob else ''host:'' @ ob_check ob, d, ct)))))"

definition parents_of :: "harness \<Rightarrow> run_state \<Rightarrow> obligation \<Rightarrow> receipt_ref list result" where
  "parents_of hn st ob =
     bind_r (map_r (\<lambda>d. bind_r (dict_get (station_receipts st) d) (\<lambda>r.
       bind_r (receipt_hash (hn_hash hn) r) (mk_ref d))) (depends_on ob)) (\<lambda>refs. Inr (sort refs))"

definition evidence_hashes :: "harness \<Rightarrow> obligation \<Rightarrow> (string \<times> string) list result" where
  "evidence_hashes hn ob =
     map_r (\<lambda>a. bind_r (dict_get (artifacts (hn_task hn)) a) (\<lambda>x. Inr (a, art_sha256 (hn_hash hn) x))) (ob_evidence ob)"

fun field_str :: "json \<Rightarrow> string \<Rightarrow> string result" where
  "field_str (JObj kvs) k = bind_r (dict_get kvs k) str_field"
| "field_str _ k = Inl (TypeError ''not subscriptable'')"

definition binding_of :: "harness \<Rightarrow> run_state \<Rightarrow> obligation \<Rightarrow> json result" where
  "binding_of hn st ob =
     bind_r (dict_get (reg_checks (hn_registry hn)) (ob_check ob)) (\<lambda>(label, _).
     bind_r (evidence_hashes hn ob) (\<lambda>ev.
     bind_r (map_r (\<lambda>d. bind_r (dict_get (legacy_receipts st) d) (\<lambda>r. bind_r (field_str r ''sha256'') (\<lambda>h. Inr (d, h))))
       (depends_on ob)) (\<lambda>deps.
     Inr (JObj [(''contract_version'', JStr ''residual.obligation.v1''), (''task_id'', JStr (task_id (hn_task hn))),
       (''goal'', JStr (task_goal (hn_task hn))), (''obligation'', obligation_json ob), (''check_revision'', JStr label),
       (''evidence'', JObj (map (map_prod id JStr) ev)), (''dependencies'', JObj (map (map_prod id JStr) deps))]))))"

definition node_cache_key :: "harness \<Rightarrow> run_state \<Rightarrow> obligation \<Rightarrow> string result" where
  "node_cache_key hn st ob =
     bind_r (identity_of hn st ob) (\<lambda>idn.
     case idn of
       Some (name, revision, ct) \<Rightarrow>
         bind_r (digest (hn_hash hn) (JObj [(''task_id'', JStr (task_id (hn_task hn))), (''goal'', JStr (task_goal (hn_task hn)))])) (\<lambda>gh.
         bind_r (digest (hn_hash hn) (obligation_json ob)) (\<lambda>ch.
         bind_r (evidence_hashes hn ob) (\<lambda>ev.
         bind_r (parents_of hn st ob) (\<lambda>ps.
         cache_key (hn_hash hn) \<lparr>ck_project = task_id (hn_task hn), ck_task = ob_id ob, ck_goal_hash = gh,
           ck_contract_hash = ch, ck_verifier = name, ck_revision = revision, ck_check_type = check_type_value ct,
           ck_artifacts = ev, ck_parents = ps\<rparr>))))
     | None \<Rightarrow> bind_r (binding_of hn st ob) (digest (hn_hash hn)))"

definition read_cached :: "harness \<Rightarrow> run_state \<Rightarrow> obligation \<Rightarrow> json \<Rightarrow> (bool \<times> json) result" where
  "read_cached hn st ob entry =
     bind_r (obj_fields entry) (\<lambda>kvs.
     bind_r (ensure (fst ` set kvs = {''schema_version'', ''value'', ''receipt''}
         \<and> map_of kvs ''schema_version'' = Some (JStr ''residual.station.cache.entry.v1'')) (ValueError [])) (\<lambda>_.
     bind_r (dict_get kvs ''receipt'') (\<lambda>rj.
     bind_r (receipt_from_dict (hn_hash hn) rj) (\<lambda>r.
     bind_r (identity_of hn st ob) (\<lambda>idn.
     case idn of
       None \<Rightarrow> Inl (TypeError ''cannot unpack'')
     | Some (name, revision, _) \<Rightarrow>
         bind_r (dict_get kvs ''value'') (\<lambda>v.
         if rc_task r \<noteq> ob_id ob then Inr (False, JNull)
         else
           bind_r (node_cache_key hn st ob) (\<lambda>ck.
           bind_r (parents_of hn st ob) (\<lambda>ps.
           bind_r (receipt_matches (hn_hash hn) r v ck name revision ps None None) (\<lambda>ok.
           Inr (if ok then (True, v) else (False, JNull)))))))))))"

text \<open>\<open>_cached_candidate\<close>: every error is a miss.\<close>

definition cached_candidate :: "harness \<Rightarrow> run_state \<Rightarrow> obligation \<Rightarrow> json \<Rightarrow> bool \<times> json" where
  "cached_candidate hn st ob entry = (case read_cached hn st ob entry of Inl _ \<Rightarrow> (False, JNull) | Inr r \<Rightarrow> r)"

section \<open>Acceptance\<close>

definition failure :: "string \<Rightarrow> string \<Rightarrow> string \<Rightarrow> run_state \<Rightarrow> run_state" where
  "failure n code message st =
     log_event ''counterexample'' [(''obligation_id'', JStr n), (''code'', JStr code)]
       (st\<lparr>failures := AList.update n (code, message) (failures st)\<rparr>)"

definition check_candidate :: "harness \<Rightarrow> run_state \<Rightarrow> obligation \<Rightarrow> json \<Rightarrow> verdict result" where
  "check_candidate hn st ob v =
     bind_r (canonical v) (\<lambda>original.
     bind_r (dict_get (reg_checks (hn_registry hn)) (ob_check ob)) (\<lambda>(_, f).
     bind_r (strict_json (hn_float hn) original) (\<lambda>copy.
     bind_r (f copy (context_of hn ob st)) (\<lambda>out.
     Inr (case out of None \<Rightarrow> \<lparr>v_status = Unknown, v_code = ''invalid_verifier_result'', v_message = []\<rparr> | Some x \<Rightarrow> x)))))"

definition verdict_of :: "harness \<Rightarrow> run_state \<Rightarrow> obligation \<Rightarrow> json \<Rightarrow> verdict" where
  "verdict_of hn st ob v = (case check_candidate hn st ob v of
     Inl _ \<Rightarrow> \<lparr>v_status = Unknown, v_code = ''verifier_error'',
       v_message = ''The host verifier could not establish this obligation.''\<rparr>
   | Inr x \<Rightarrow> x)"

fun status_value :: "status \<Rightarrow> string" where
  "status_value Pass = ''pass''"
| "status_value Fail = ''fail''"
| "status_value Unknown = ''unknown''"

definition station_receipt_for :: "harness \<Rightarrow> run_state \<Rightarrow> obligation \<Rightarrow> json \<Rightarrow> receipt option result" where
  "station_receipt_for hn st ob v =
     bind_r (identity_of hn st ob) (\<lambda>idn.
     case idn of
       None \<Rightarrow> Inr None
     | Some (name, revision, _) \<Rightarrow>
         bind_r (node_cache_key hn st ob) (\<lambda>ck.
         bind_r (digest (hn_hash hn) v) (\<lambda>vh.
         bind_r (parents_of hn st ob) (\<lambda>ps.
         bind_r (mk_receipt \<lparr>rc_task = ob_id ob, rc_cache_key = ck, rc_value_hash = vh, rc_verifier = name,
           rc_revision = revision, rc_verdict = RPass, rc_parents = ps, rc_engine = ''unknown'',
           rc_engine_version = ''unknown'', rc_schema = RECEIPT_SCHEMA\<rparr>) (\<lambda>r. Inr (Some r))))))"

definition legacy_receipt_for :: "harness \<Rightarrow> run_state \<Rightarrow> obligation \<Rightarrow> json \<Rightarrow> json result" where
  "legacy_receipt_for hn st ob v =
     bind_r (node_cache_key hn st ob) (\<lambda>ck.
     bind_r (digest (hn_hash hn) v) (\<lambda>vh.
     bind_r (dict_get (reg_checks (hn_registry hn)) (ob_check ob)) (\<lambda>(label, _).
     let body = [(''binding'', JStr ck), (''value_sha256'', JStr vh), (''verifier'', JStr (ob_check ob)), (''revision'', JStr label)] in
     bind_r (digest (hn_hash hn) (JObj body)) (\<lambda>h.
     Inr (JObj (body @ [(''sha256'', JStr h)]))))))"

definition store_result :: "harness \<Rightarrow> string \<Rightarrow> json \<Rightarrow> receipt option \<Rightarrow> string \<Rightarrow> run_state \<Rightarrow> run_state result" where
  "store_result hn source v modern key st =
     (case run_cache st of
        None \<Rightarrow> Inr st
      | Some c \<Rightarrow>
          if source = ''cache'' then Inr st
          else
            bind_r (case modern of
                None \<Rightarrow> Inr v
              | Some r \<Rightarrow> bind_r (receipt_to_dict (hn_hash hn) r) (\<lambda>rj.
                  Inr (JObj [(''schema_version'', JStr ''residual.station.cache.entry.v1''), (''value'', v), (''receipt'', rj)]))) (\<lambda>entry.
            bind_r (cache_put c key entry) (\<lambda>c'. Inr (st\<lparr>run_cache := Some c'\<rparr>))))"

definition commit_accept :: "harness \<Rightarrow> string \<Rightarrow> obligation \<Rightarrow> json \<Rightarrow> string \<Rightarrow> run_state \<Rightarrow> run_state result" where
  "commit_accept hn n ob copy source st =
     bind_r (station_receipt_for hn st ob copy) (\<lambda>modern.
     let st = (case modern of None \<Rightarrow> st | Some r \<Rightarrow> st\<lparr>station_receipts := AList.update n r (station_receipts st)\<rparr>) in
     bind_r (legacy_receipt_for hn st ob copy) (\<lambda>receipt.
     let st = st\<lparr>accepted := AList.update n copy (accepted st), legacy_receipts := AList.update n receipt (legacy_receipts st),
                 failures := AList.delete n (failures st)\<rparr> in
     bind_r (node_cache_key hn st ob) (\<lambda>key.
     bind_r (store_result hn source copy modern key st) (\<lambda>st.
     let st = log_event ''obligation_accepted'' [(''obligation_id'', JStr n), (''source'', JStr source), (''receipt'', receipt)] st in
     case modern of
       None \<Rightarrow> Inr st
     | Some r \<Rightarrow> bind_r (receipt_to_dict (hn_hash hn) r) (\<lambda>rj.
         Inr (log_event ''station_receipt_issued'' [(''obligation_id'', JStr n), (''receipt'', rj)] st))))))"

definition accept :: "harness \<Rightarrow> string \<Rightarrow> json \<Rightarrow> string \<Rightarrow> run_state \<Rightarrow> (bool \<times> run_state) result" where
  "accept hn n v source st =
     (if n \<in> fst ` set (accepted st) then Inl (ContractError ''accepted obligation cannot be overwritten'') else
      bind_r (ob_of hn n) (\<lambda>ob.
      let verdict = verdict_of hn st ob v;
          st = log_event ''verification'' [(''obligation_id'', JStr n), (''source'', JStr source),
            (''status'', JStr (status_value (v_status verdict))), (''code'', JStr (v_code verdict))] st in
      if v_status verdict \<noteq> Pass then Inr (False, failure n (v_code verdict) (v_message verdict) st)
      else
        bind_r (bind_r (canonical v) (strict_json (hn_float hn))) (\<lambda>copy.
        bind_r (commit_accept hn n ob copy source st) (\<lambda>st. Inr (True, st)))))"

section \<open>Evidence windows\<close>

fun merge_step :: "(int \<times> int) list \<Rightarrow> int \<times> int \<Rightarrow> (int \<times> int) list" where
  "merge_step [] (s, e) = [(s, e)]"
| "merge_step ms (s, e) =
     (if s \<le> snd (last ms) + 1 then butlast ms @ [(fst (last ms), max e (snd (last ms)))] else ms @ [(s, e)])"

definition merge_intervals :: "(int \<times> int) list \<Rightarrow> (int \<times> int) list" where
  "merge_intervals xs = foldl merge_step [] (sort xs)"

definition line_count :: "artifact \<Rightarrow> int" where
  "line_count a = int (length (art_lines a))"

record evidence_request =
  er_obligation :: string
  er_artifact :: string
  er_start :: int
  er_end :: int

text \<open>The denial code of \<open>_request_evidence\<close>, or the merged windows to store.\<close>

definition window_decision ::
  "harness \<Rightarrow> run_state \<Rightarrow> provider \<Rightarrow> obligation \<Rightarrow> evidence_request \<Rightarrow> (string + (int \<times> int) list) result" where
  "window_decision hn st pv ob rq =
     (if hn_mode hn = NoPull then Inr (Inl ''evidence_pull_disabled'')
      else if er_artifact rq \<notin> set (ob_evidence ob) then Inr (Inl ''undeclared_evidence'')
      else
        bind_r (dict_get (artifacts (hn_task hn)) (er_artifact rq)) (\<lambda>a.
        if pv_remote pv \<and> \<not> art_cloud a then Inr (Inl ''private_evidence'')
        else if er_end rq < er_start rq \<or> er_end rq - er_start rq + 1 > max_requested_lines (hn_limits hn)
        then Inr (Inl ''evidence_window_limit'')
        else if er_end rq > line_count a then Inr (Inl ''evidence_window_out_of_range'')
        else
          (let old = (case map_of (windows st) (pv_name pv, er_obligation rq, er_artifact rq) of None \<Rightarrow> [] | Some w \<Rightarrow> w);
               merged = merge_intervals (old @ [(er_start rq, er_end rq)]) in
           Inr (if merged = old then Inl ''evidence_already_supplied'' else Inr merged))))"

definition request_evidence :: "harness \<Rightarrow> provider \<Rightarrow> evidence_request \<Rightarrow> run_state \<Rightarrow> run_state result" where
  "request_evidence hn pv rq st =
     (if er_obligation rq \<in> fst ` set (accepted st) then Inr st else
      bind_r (ob_of hn (er_obligation rq)) (\<lambda>ob.
      bind_r (window_decision hn st pv ob rq) (\<lambda>d.
      case d of
        Inr merged \<Rightarrow>
          Inr (log_event ''evidence_requested'' [(''obligation_id'', JStr (er_obligation rq)), (''artifact_id'', JStr (er_artifact rq)),
              (''start_line'', JInt (er_start rq)), (''end_line'', JInt (er_end rq))]
            (st\<lparr>windows := AList.update (pv_name pv, er_obligation rq, er_artifact rq) merged (windows st)\<rparr>))
      | Inl code \<Rightarrow>
          Inr (log_event ''evidence_denied'' [(''obligation_id'', JStr (er_obligation rq)), (''code'', JStr code)]
            (failure (er_obligation rq) code
              ''Choose a permitted, unseen evidence interval within the request limits.'' st)))))"

section \<open>Packets\<close>

definition artifact_cloud :: "harness \<Rightarrow> string \<Rightarrow> bool" where
  "artifact_cloud hn a = (case map_of (artifacts (hn_task hn)) a of None \<Rightarrow> False | Some x \<Rightarrow> art_cloud x)"

definition artifact_lines :: "harness \<Rightarrow> string \<Rightarrow> int" where
  "artifact_lines hn a = (case map_of (artifacts (hn_task hn)) a of None \<Rightarrow> 0 | Some x \<Rightarrow> line_count x)"

definition ob_field :: "harness \<Rightarrow> (obligation \<Rightarrow> string list) \<Rightarrow> string list \<Rightarrow> string list" where
  "ob_field hn f ids = concat (map (\<lambda>n. case map_of (by_id (hn_task hn)) n of None \<Rightarrow> [] | Some ob \<Rightarrow> f ob) ids)"

definition full_packet :: "harness \<Rightarrow> role \<Rightarrow> bool" where
  "full_packet hn role = (role = RExpert \<and> hn_mode hn \<in> {FullCloud, Cascade})"

definition local_public_call :: "harness \<Rightarrow> provider \<Rightarrow> string list \<Rightarrow> bool" where
  "local_public_call hn pv ids = (\<not> pv_remote pv \<and> list_all (cloud_allowed (hn_task hn)) ids)"

text \<open>\<open>sorted(artifact_ids)\<close> of a set built from a list.\<close>

definition sorted_ids :: "string list \<Rightarrow> string list" where
  "sorted_ids xs = sort (remdups xs)"

definition packet_artifacts :: "harness \<Rightarrow> provider \<Rightarrow> string list \<Rightarrow> role \<Rightarrow> string list" where
  "packet_artifacts hn pv ids role =
     sorted_ids (filter (\<lambda>a. (pv_remote pv \<or> local_public_call hn pv ids) \<longrightarrow> artifact_cloud hn a)
       (if full_packet hn role then map fst (artifacts (hn_task hn)) else ob_field hn ob_evidence ids))"

definition packet_excerpts :: "harness \<Rightarrow> run_state \<Rightarrow> provider \<Rightarrow> string list \<Rightarrow> role \<Rightarrow> string \<Rightarrow> (string \<times> int \<times> int) list" where
  "packet_excerpts hn st pv ids role a =
     (if full_packet hn role then [(a, 1, artifact_lines hn a)]
      else
        (let seed = (if seed_lines (hn_limits hn) \<noteq> 0 then [(1, min (seed_lines (hn_limits hn)) (artifact_lines hn a))] else []);
             asked = concat (map (\<lambda>n. case map_of (windows st) (pv_name pv, n, a) of None \<Rightarrow> [] | Some w \<Rightarrow> w) ids) in
         map (\<lambda>(s, e). (a, s, e)) (merge_intervals (seed @ asked))))"

definition packet_dependencies ::
  "harness \<Rightarrow> run_state \<Rightarrow> provider \<Rightarrow> string list \<Rightarrow> role \<Rightarrow> (string \<times> json \<times> string) list result" where
  "packet_dependencies hn st pv ids role =
     map_r (\<lambda>d. bind_r (dict_get (accepted st) d) (\<lambda>v. bind_r (dict_get (legacy_receipts st) d) (\<lambda>r.
         bind_r (field_str r ''sha256'') (\<lambda>h. Inr (d, v, h)))))
       (filter (\<lambda>d. (\<not> pv_remote pv \<and> \<not> local_public_call hn pv ids) \<or> cloud_allowed (hn_task hn) d)
         (sorted_ids (if full_packet hn role then map fst (accepted st) else ob_field hn depends_on ids)))"

definition packet_counterexamples :: "harness \<Rightarrow> run_state \<Rightarrow> string list \<Rightarrow> (string \<times> string \<times> string) list" where
  "packet_counterexamples hn st ids =
     (if hn_mode hn = NoFeedback then []
      else concat (map (\<lambda>n. case map_of (failures st) n of None \<Rightarrow> [] | Some f \<Rightarrow> [(n, f)]) ids))"

definition text_bytes :: "harness \<Rightarrow> string \<Rightarrow> int" where
  "text_bytes hn a = (case map_of (artifacts (hn_task hn)) a of None \<Rightarrow> 0 | Some x \<Rightarrow> int (length (art_text x)))"

text \<open>The complete scoped evidence replaces the excerpts when that costs no more than two framed
  requests and fits the remaining budget.\<close>

definition scope_packet :: "harness \<Rightarrow> run_state \<Rightarrow> provider \<Rightarrow> string list \<Rightarrow> role \<Rightarrow> packet \<Rightarrow> packet" where
  "scope_packet hn st pv ids role pk =
     (if hn_mode hn \<in> {Residual, NoFeedback, NoSolvers} \<and> role = RExpert then
        (let needed = sorted_ids (ob_field hn ob_evidence ids); l = hn_limits hn;
             seed_size = pv_wire_size pv pk (max_output_tokens l);
             raw_size = sum_list (map (text_bytes hn) needed);
             scoped = pk\<lparr>pk_evidence := map (\<lambda>a. (a, 1, artifact_lines hn a)) needed\<rparr>;
             scoped_size = pv_wire_size pv scoped (max_output_tokens l);
             remaining = max_remote_input_bytes l - remote_bytes st in
         if raw_size \<le> 2 * seed_size \<and> scoped_size \<le> 2 * seed_size \<and> scoped_size \<le> max_request_bytes l
            \<and> (\<not> pv_remote pv \<or> scoped_size \<le> remaining)
         then scoped else pk)
      else pk)"

definition make_packet :: "harness \<Rightarrow> provider \<Rightarrow> string list \<Rightarrow> role \<Rightarrow> run_state \<Rightarrow> (packet \<times> run_state) result" where
  "make_packet hn pv ids role st =
     bind_r (map_r (ob_of hn) ids) (\<lambda>_.
     bind_r (packet_dependencies hn st pv ids role) (\<lambda>deps.
     let as = packet_artifacts hn pv ids role;
         pk = \<lparr>pk_obligations = ids, pk_dependencies = deps, pk_counterexamples = packet_counterexamples hn st ids,
               pk_manifest = as, pk_evidence = concat (map (packet_excerpts hn st pv ids role) as)\<rparr> in
     Inr (scope_packet hn st pv ids role pk, log_event ''context_plan'' [(''obligation_ids'', JArr (map JStr ids))] st)))"

section \<open>Replies\<close>

fun request_of :: "string list \<Rightarrow> json \<Rightarrow> evidence_request result" where
  "request_of ids (JObj kvs) =
     bind_r (ensure (fst ` set kvs = {''obligation_id'', ''artifact_id'', ''start_line'', ''end_line''})
       (ContractError ''invalid evidence request'')) (\<lambda>_.
     bind_r (dict_get kvs ''obligation_id'') (\<lambda>ob.
     bind_r (case ob of JStr n \<Rightarrow> if n \<in> set ids then Inr n else Inl (ContractError ''evidence request outside scope'')
                  | _ \<Rightarrow> Inl (ContractError ''evidence request outside scope'')) (\<lambda>n.
     bind_r (bind_r (dict_get kvs ''start_line'') (\<lambda>v. positive_int v ''start_line'' False)) (\<lambda>s.
     bind_r (bind_r (dict_get kvs ''end_line'') (\<lambda>v. positive_int v ''end_line'' False)) (\<lambda>e.
     bind_r (bind_r (dict_get kvs ''artifact_id'') str_field) (\<lambda>a.
     Inr \<lparr>er_obligation = n, er_artifact = a, er_start = s, er_end = e\<rparr>))))))"
| "request_of ids _ = Inl (ContractError ''invalid evidence request'')"

definition parse_reply ::
  "harness \<Rightarrow> string \<Rightarrow> string list \<Rightarrow> ((string \<times> json) list \<times> evidence_request list) result" where
  "parse_reply hn body ids =
     bind_r (ensure (length body \<le> 2000000) (ContractError ''response too large'')) (\<lambda>_.
     bind_r (strict_json (hn_float hn) body) (\<lambda>data.
     case data of
       JObj kvs \<Rightarrow>
         bind_r (ensure (fst ` set kvs = {''updates'', ''requests''}) (ContractError ''invalid response keys'')) (\<lambda>_.
         case (map_of kvs ''updates'', map_of kvs ''requests'') of
           (Some (JObj us), Some (JArr rs)) \<Rightarrow>
             bind_r (ensure (fst ` set us \<subseteq> set ids \<and> length rs \<le> 8)
               (ContractError ''response exceeds obligation or request scope'')) (\<lambda>_.
             bind_r (map_r (request_of ids) rs) (\<lambda>rqs.
             bind_r (canonical data) (\<lambda>_. Inr (us, rqs))))
         | _ \<Rightarrow> Inl (ContractError ''invalid response types''))
     | _ \<Rightarrow> Inl (ContractError ''invalid response keys'')))"

text \<open>Codes of provider errors are passed on only in a fixed alphabet.\<close>

definition safe_code :: "string \<Rightarrow> string" where
  "safe_code code = (if char_count code > 100 \<or> \<not> list_all (\<lambda>c. is_lower c \<or> is_digit c \<or> c = CHR ''_'') code
     then ''provider_error'' else code)"

section \<open>Working on a batch\<close>

definition fail_all :: "string list \<Rightarrow> string \<Rightarrow> string \<Rightarrow> run_state \<Rightarrow> run_state" where
  "fail_all ids code message st = foldl (\<lambda>st n. failure n code message st) st ids"

definition over_budget :: "harness \<Rightarrow> provider \<Rightarrow> role \<Rightarrow> int \<Rightarrow> run_state \<Rightarrow> bool" where
  "over_budget hn pv role sz st =
     (let l = hn_limits hn in
      int (length (calls st)) \<ge> max_calls l \<or> sz > max_request_bytes l
      \<or> (role = RExpert \<and> expert_calls st \<ge> max_expert_calls l)
      \<or> (pv_remote pv \<and> remote_bytes st + sz > max_remote_input_bytes l))"

definition reserve_call :: "provider \<Rightarrow> role \<Rightarrow> string list \<Rightarrow> packet \<Rightarrow> int \<Rightarrow> run_state \<Rightarrow> run_state" where
  "reserve_call pv role ids pk sz st =
     log_event ''call_reserved'' [(''provider'', JStr (pv_name pv)), (''request_bytes'', JInt sz), (''obligation_ids'', JArr (map JStr ids))]
       (st\<lparr>remote_bytes := (if pv_remote pv then remote_bytes st + sz else remote_bytes st),
           expert_calls := (if role = RExpert then expert_calls st + 1 else expert_calls st),
           calls := calls st @ [\<lparr>c_role = role, c_provider = pv_name pv, c_remote = pv_remote pv, c_ids = ids, c_bytes = sz,
             c_packet = pk, c_error = None\<rparr>]\<rparr>)"

definition mark_error :: "string \<Rightarrow> run_state \<Rightarrow> run_state" where
  "mark_error code st = st\<lparr>calls := butlast (calls st) @ [(last (calls st))\<lparr>c_error := Some code\<rparr>]\<rparr>"

definition apply_reply ::
  "harness \<Rightarrow> provider \<Rightarrow> role \<Rightarrow> (string \<times> json) list \<Rightarrow> evidence_request list \<Rightarrow> run_state \<Rightarrow> run_state result" where
  "apply_reply hn pv role us rqs st =
     bind_r (fold_r (\<lambda>st (n, v). bind_r (accept hn n v (if role = RLocal then ''local'' else ''expert'') st) (\<lambda>(_, st). Inr st)) st us) (\<lambda>st.
     fold_r (\<lambda>st rq. request_evidence hn pv rq st) st rqs)"

definition eligible :: "harness \<Rightarrow> provider \<Rightarrow> string list \<Rightarrow> run_state \<Rightarrow> string list \<times> run_state" where
  "eligible hn pv ready st =
     (let ids = filter (\<lambda>n. n \<notin> fst ` set (accepted st)) ready in
      if pv_remote pv
      then (filter (cloud_allowed (hn_task hn)) ids,
            fail_all (filter (\<lambda>n. \<not> cloud_allowed (hn_task hn) n) ids) ''local_only''
              ''This obligation or its dependencies cannot be sent remotely.'' st)
      else (ids, st))"

text \<open>One round of \<open>_work\<close>; the flag says whether the loop goes on to the next round.\<close>

definition work_round :: "harness \<Rightarrow> provider \<Rightarrow> string list \<Rightarrow> role \<Rightarrow> run_state \<Rightarrow> (bool \<times> run_state) result" where
  "work_round hn pv ready role st =
     (let (ids, st) = eligible hn pv ready st in
      if ids = [] then Inr (False, st) else
      bind_r (make_packet hn pv ids role st) (\<lambda>(pk, st).
      let sz = pv_wire_size pv pk (max_output_tokens (hn_limits hn)) in
      if over_budget hn pv role sz st
      then Inr (False, log_event ''budget_blocked'' [(''request_bytes'', JInt sz)]
        (fail_all ids ''budget_exhausted'' ''A call or request-body byte limit prevents the next request.'' st))
      else
        let k = length (calls st); st = reserve_call pv role ids pk sz st in
        case pv_generate pv k pk of
          Inl code \<Rightarrow>
            (let code = safe_code code in
             Inr (True, fail_all ids code ''The provider call failed; no candidate was accepted.''
               (log_event ''provider_failed'' [(''code'', JStr code)] (mark_error code st))))
        | Inr reply \<Rightarrow>
            let st = log_event ''call_completed'' [(''finish_reason'', JStr (rp_finish reply))] st in
            (case (if rp_finish reply \<in> {''length'', ''max_tokens''} then Inl (ContractError ''truncated response'')
                   else parse_reply hn (rp_text reply) ids) of
               Inl _ \<Rightarrow> Inr (True, fail_all ids ''invalid_protocol'' ''Return exactly the documented updates/requests JSON object.'' st)
             | Inr (us, rqs) \<Rightarrow>
                 bind_r (apply_reply hn pv role us rqs st) (\<lambda>st.
                 if us = [] \<and> rqs = []
                 then Inr (False, fail_all ids ''worker_abstained'' ''The worker returned no candidate or evidence request.'' st)
                 else Inr (True, st)))))"

fun work :: "harness \<Rightarrow> provider \<Rightarrow> string list \<Rightarrow> role \<Rightarrow> nat \<Rightarrow> run_state \<Rightarrow> run_state result" where
  "work hn pv ready role 0 st = Inr st"
| "work hn pv ready role (Suc k) st =
     bind_r (work_round hn pv ready role st) (\<lambda>(again, st).
     if again then work hn pv ready role k st else Inr st)"

definition dispatch :: "harness \<Rightarrow> provider \<Rightarrow> string list \<Rightarrow> role \<Rightarrow> int \<Rightarrow> run_state \<Rightarrow> run_state result" where
  "dispatch hn pv ready role rounds st =
     (if pv_remote pv then work hn pv ready role (nat rounds) st
      else
        bind_r (work hn pv (filter (cloud_allowed (hn_task hn)) ready) role (nat rounds) st) (\<lambda>st.
        work hn pv (filter (\<lambda>n. \<not> cloud_allowed (hn_task hn) n) ready) role (nat rounds) st))"

section \<open>The run\<close>

definition ready_nodes :: "harness \<Rightarrow> run_state \<Rightarrow> string set \<Rightarrow> string list" where
  "ready_nodes hn st attempted =
     map ob_id (filter (\<lambda>ob. ob_id ob \<notin> fst ` set (accepted st) \<and> ob_id ob \<notin> attempted
       \<and> set (depends_on ob) \<subseteq> fst ` set (accepted st)) (obligations (hn_task hn)))"

text \<open>A cache hit counts only after it was bound to this node and verified again.\<close>

definition try_cache :: "harness \<Rightarrow> obligation \<Rightarrow> run_state \<Rightarrow> (bool \<times> run_state) result" where
  "try_cache hn ob st =
     (case run_cache st of
        None \<Rightarrow> Inr (False, st)
      | Some c \<Rightarrow>
          bind_r (node_cache_key hn st ob) (\<lambda>key.
          bind_r (identity_of hn st ob) (\<lambda>idn.
          let (hit, v) = cache_get (hn_float hn) c key;
              (hit, v) = (if hit \<and> idn \<noteq> None then cached_candidate hn st ob v else (hit, v)) in
          if \<not> hit then Inr (False, st)
          else
            bind_r (accept hn (ob_id ob) v ''cache'' st) (\<lambda>(ok, st).
            Inr (ok, if ok then st\<lparr>cache_hits := cache_hits st + 1\<rparr> else st)))))"

definition try_solver :: "harness \<Rightarrow> obligation \<Rightarrow> run_state \<Rightarrow> run_state result" where
  "try_solver hn ob st =
     (case ob_solver ob of
        None \<Rightarrow> Inr st
      | Some s \<Rightarrow>
          if hn_mode hn \<in> {FullCloud, NoSolvers} then Inr st
          else
            (case bind_r (dict_get (reg_solvers (hn_registry hn)) s) (\<lambda>f. f (context_of hn ob st)) of
               Inl _ \<Rightarrow> Inr (failure (ob_id ob) ''solver_error'' ''The local solver failed; use the declared evidence.'' st)
             | Inr v \<Rightarrow>
                 bind_r (accept hn (ob_id ob) v ''deterministic'' st) (\<lambda>(ok, st).
                 Inr (if ok then st\<lparr>deterministic_accepts := deterministic_accepts st + 1\<rparr> else st))))"

definition try_local_sources :: "harness \<Rightarrow> run_state \<Rightarrow> string \<Rightarrow> run_state result" where
  "try_local_sources hn st n =
     bind_r (ob_of hn n) (\<lambda>ob.
     bind_r (try_cache hn ob st) (\<lambda>(hit, st).
     if hit then Inr st else try_solver hn ob st))"

definition dispatch_to :: "harness \<Rightarrow> provider option \<Rightarrow> bool \<Rightarrow> string list \<Rightarrow> role \<Rightarrow> int \<Rightarrow> run_state \<Rightarrow> run_state result" where
  "dispatch_to hn pv enabled ready role rounds st =
     (case pv of None \<Rightarrow> Inr st | Some p \<Rightarrow> if enabled then dispatch hn p ready role rounds st else Inr st)"

definition run_layer :: "harness \<Rightarrow> string list \<Rightarrow> run_state \<Rightarrow> run_state result" where
  "run_layer hn ready st =
     bind_r (fold_r (try_local_sources hn) st ready) (\<lambda>st.
     bind_r (dispatch_to hn (hn_local hn) (hn_mode hn \<noteq> FullCloud) ready RLocal (local_rounds (hn_limits hn)) st) (\<lambda>st.
     dispatch_to hn (hn_expert hn) (hn_mode hn \<noteq> LocalOnly) ready RExpert (expert_rounds (hn_limits hn)) st))"

lemma ready_nodes_fresh:
  "set (ready_nodes hn st attempted) \<subseteq> ob_id ` set (obligations (hn_task hn)) - attempted"
  by (auto simp: ready_nodes_def)

function run_layers :: "harness \<Rightarrow> run_state \<Rightarrow> string set \<Rightarrow> run_state result" where
  "run_layers hn st attempted =
     (let ready = ready_nodes hn st attempted in
      if ready = [] then Inr st
      else bind_r (run_layer hn ready st) (\<lambda>st. run_layers hn st (attempted \<union> set ready)))"
  by pat_completeness auto

termination
proof (relation "measure (\<lambda>(hn, st, attempted). card (ob_id ` set (obligations (hn_task hn)) - attempted))")
  fix hn :: harness and st attempted ready st'
  assume r: "ready = ready_nodes hn st attempted" "ready \<noteq> []"
  then have "set ready \<noteq> {}" "set ready \<subseteq> ob_id ` set (obligations (hn_task hn)) - attempted"
    using ready_nodes_fresh [of hn st attempted] by auto
  moreover obtain x where "x \<in> set ready" using r(2) by (cases ready) auto
  ultimately have "ob_id ` set (obligations (hn_task hn)) - (attempted \<union> set ready) \<subset> ob_id ` set (obligations (hn_task hn)) - attempted"
    by auto
  then have "card (ob_id ` set (obligations (hn_task hn)) - (attempted \<union> set ready))
      < card (ob_id ` set (obligations (hn_task hn)) - attempted)"
    by (intro psubset_card_mono) auto
  then show "((hn, st', attempted \<union> set ready), hn, st, attempted)
      \<in> measure (\<lambda>(hn, st, attempted). card (ob_id ` set (obligations (hn_task hn)) - attempted))"
    by simp
qed simp

declare run_layers.simps [simp del]

datatype unresolved = DependencyBlocked "string list" | LastFailure "(string \<times> string) option"

definition unresolved_of :: "harness \<Rightarrow> run_state \<Rightarrow> (string \<times> unresolved) list" where
  "unresolved_of hn st =
     map (\<lambda>ob. (ob_id ob,
       let missing = filter (\<lambda>d. d \<notin> fst ` set (accepted st)) (depends_on ob) in
       if missing \<noteq> [] then DependencyBlocked missing else LastFailure (map_of (failures st) (ob_id ob))))
     (filter (\<lambda>ob. ob_id ob \<notin> fst ` set (accepted st)) (obligations (hn_task hn)))"

record engine_result =
  er_status :: string
  er_success :: bool
  er_values :: "(string, json) dict"
  er_unresolved :: "(string \<times> unresolved) list"
  er_state :: run_state

definition run_task :: "harness \<Rightarrow> cache option \<Rightarrow> engine_result result" where
  "run_task hn c =
     bind_r (iter_r (\<lambda>ob. ensure (ob_check ob \<in> fst ` set (reg_checks (hn_registry hn))
         \<and> (case ob_solver ob of None \<Rightarrow> True | Some s \<Rightarrow> s \<in> fst ` set (reg_solvers (hn_registry hn))))
       (ContractError ''unregistered verifier or solver'')) (obligations (hn_task hn))) (\<lambda>_.
     bind_r (run_layers hn (log_event ''run_started'' [(''task_id'', JStr (task_id (hn_task hn)))] (initial_state c)) {}) (\<lambda>st.
     let un = unresolved_of hn st in
     Inr \<lparr>er_status = (if un = [] then ''passed'' else if accepted st \<noteq> [] then ''partial'' else ''blocked''),
          er_success = (un = []), er_values = accepted st, er_unresolved = un,
          er_state = log_event ''run_finished'' [(''success'', JBool (un = []))] st\<rparr>))"

end
