(* ===== verification/Engine_Safety.thy ===== *)
theory Engine_Safety
  imports Engine
begin

text \<open>
  What a run of the harness guarantees: only verified values are accepted, after their
  dependencies; budgets are respected; nothing private is sent to a remote provider. The
  invariant \<open>good\<close> is kept by every operation of \<open>Engine\<close>.
\<close>

section \<open>The invariant\<close>

text \<open>The host check of \<open>n\<close> passed \<open>v\<close> when the values \<open>xs\<close> were accepted.\<close>

definition passed_at :: "harness \<Rightarrow> (string, json) dict \<Rightarrow> string \<Rightarrow> json \<Rightarrow> bool" where
  "passed_at hn xs n v = (\<exists>ob label f verdict. map_of (by_id (hn_task hn)) n = Some ob
     \<and> map_of (reg_checks (hn_registry hn)) (ob_check ob) = Some (label, f)
     \<and> f v \<lparr>ctx_obligation = ob, ctx_artifacts = artifacts (hn_task hn), ctx_accepted = xs\<rparr> = Inr (Some verdict)
     \<and> v_status verdict = Pass \<and> set (depends_on ob) \<subseteq> fst ` set xs)"

definition verified :: "harness \<Rightarrow> (string, json) dict \<Rightarrow> bool" where
  "verified hn acc = (distinct (map fst acc)
     \<and> (\<forall>i<length acc. passed_at hn (take i acc) (fst (acc ! i)) (snd (acc ! i))))"

definition public_packet :: "harness \<Rightarrow> packet \<Rightarrow> bool" where
  "public_packet hn pk =
     (list_all (\<lambda>(a, s, e). artifact_cloud hn a) (pk_evidence pk) \<and> list_all (artifact_cloud hn) (pk_manifest pk)
      \<and> list_all (\<lambda>(d, v, h). cloud_allowed (hn_task hn) d) (pk_dependencies pk)
      \<and> list_all (cloud_allowed (hn_task hn)) (pk_obligations pk))"

definition within_budget :: "harness \<Rightarrow> call list \<Rightarrow> int \<Rightarrow> int \<Rightarrow> bool" where
  "within_budget hn cs bytes experts =
     (let l = hn_limits hn in
      int (length cs) \<le> max_calls l \<and> experts \<le> max_expert_calls l \<and> bytes \<le> max_remote_input_bytes l
      \<and> experts = int (length (filter (\<lambda>c. c_role c = RExpert) cs))
      \<and> bytes = sum_list (map c_bytes (filter c_remote cs))
      \<and> (\<forall>c\<in>set cs. c_bytes c \<le> max_request_bytes l)
      \<and> (\<forall>c\<in>set cs. c_remote c \<longrightarrow> public_packet hn (c_packet c)))"

definition deps_accepted :: "harness \<Rightarrow> string set \<Rightarrow> run_state \<Rightarrow> bool" where
  "deps_accepted hn R st = (\<forall>n\<in>R. \<forall>ob. map_of (by_id (hn_task hn)) n = Some ob \<longrightarrow> set (depends_on ob) \<subseteq> fst ` set (accepted st))"

definition good :: "harness \<Rightarrow> string set \<Rightarrow> run_state \<Rightarrow> bool" where
  "good hn R st = (verified hn (accepted st) \<and> within_budget hn (calls st) (remote_bytes st) (expert_calls st)
     \<and> deps_accepted hn R st)"

text \<open>The parts of the state the invariant looks at.\<close>

definition same_view :: "run_state \<Rightarrow> run_state \<Rightarrow> bool" where
  "same_view st st' = (accepted st' = accepted st \<and> calls st' = calls st \<and> remote_bytes st' = remote_bytes st
     \<and> expert_calls st' = expert_calls st)"

lemma good_same_view: "good hn R st \<Longrightarrow> same_view st st' \<Longrightarrow> good hn R st'"
  by (simp add: good_def same_view_def deps_accepted_def)

lemma same_view_log [simp]: "same_view st (log_event k d st') \<longleftrightarrow> same_view st st'"
  by (simp add: same_view_def log_event_def)

lemma same_view_failure [simp]: "same_view st (failure n c m st') \<longleftrightarrow> same_view st st'"
  by (simp add: failure_def) (simp add: same_view_def)

lemma same_view_refl [simp]: "same_view st st"
  by (simp add: same_view_def)

lemma same_view_fail_all [simp]: "same_view st (fail_all ids c m st') \<longleftrightarrow> same_view st st'"
  unfolding fail_all_def by (induction ids arbitrary: st') auto

lemma good_log [simp]: "good hn R (log_event k d st) \<longleftrightarrow> good hn R st"
  by (simp add: good_def log_event_def deps_accepted_def)

lemma good_failure [simp]: "good hn R (failure n c m st) \<longleftrightarrow> good hn R st"
  by (simp add: failure_def) (simp add: good_def deps_accepted_def)

lemma good_fail_all [simp]: "good hn R (fail_all ids c m st) \<longleftrightarrow> good hn R st"
  unfolding fail_all_def by (induction ids arbitrary: st) auto

section \<open>Acceptance\<close>

lemma verified_snoc:
  "verified hn acc \<Longrightarrow> n \<notin> fst ` set acc \<Longrightarrow> passed_at hn acc n v \<Longrightarrow> verified hn (acc @ [(n, v)])"
  by (auto simp: verified_def nth_append less_Suc_eq)

lemma verdict_pass:
  assumes "v_status (verdict_of hn st ob v) = Pass" and "map_of (by_id (hn_task hn)) n = Some ob"
    and "bind_r (canonical v) (strict_json (hn_float hn)) = Inr copy" and "set (depends_on ob) \<subseteq> fst ` set (accepted st)"
  shows "passed_at hn (accepted st) n copy"
proof -
  obtain x where x: "check_candidate hn st ob v = Inr x" "v_status x = Pass"
    using assms(1) by (auto simp: verdict_of_def split: sum.splits)
  then obtain label f where "map_of (reg_checks (hn_registry hn)) (ob_check ob) = Some (label, f)"
    "f copy (context_of hn ob st) = Inr (Some x)"
    using assms(3) by (auto simp: check_candidate_def result_simps split: option.splits)
  with x(2) assms(2,4) show ?thesis by (auto simp: passed_at_def context_of_def)
qed

lemma store_result_view: "store_result hn src v m key st = Inr st' \<Longrightarrow> same_view st st'"
  by (auto simp: store_result_def same_view_def result_simps split: option.splits if_splits)

lemma log_event_fields [simp]:
  "accepted (log_event k d st) = accepted st" "calls (log_event k d st) = calls st"
  "remote_bytes (log_event k d st) = remote_bytes st" "expert_calls (log_event k d st) = expert_calls st"
  by (simp_all add: log_event_def)

lemma commit_accept_view:
  assumes "commit_accept hn n ob copy src st = Inr st'" and "n \<notin> fst ` set (accepted st)"
  shows "accepted st' = accepted st @ [(n, copy)]" "calls st' = calls st" "remote_bytes st' = remote_bytes st"
    "expert_calls st' = expert_calls st"
proof -
  obtain modern where rest: "(let st1 = (case modern of None \<Rightarrow> st | Some r \<Rightarrow> st\<lparr>station_receipts := AList.update n r (station_receipts st)\<rparr>) in
     bind_r (legacy_receipt_for hn st1 ob copy) (\<lambda>receipt.
     let st = st1\<lparr>accepted := AList.update n copy (accepted st1), legacy_receipts := AList.update n receipt (legacy_receipts st1),
                 failures := AList.delete n (failures st1)\<rparr> in
     bind_r (node_cache_key hn st ob) (\<lambda>key.
     bind_r (store_result hn src copy modern key st) (\<lambda>st.
     let st = log_event ''obligation_accepted'' [(''obligation_id'', JStr n), (''source'', JStr src), (''receipt'', receipt)] st in
     case modern of
       None \<Rightarrow> Inr st
     | Some r \<Rightarrow> bind_r (receipt_to_dict (hn_hash hn) r) (\<lambda>rj.
         Inr (log_event ''station_receipt_issued'' [(''obligation_id'', JStr n), (''receipt'', rj)] st)))))) = Inr st'"
    using assms(1) unfolding commit_accept_def bind_r_Inr_iff [of "station_receipt_for hn st ob copy"] by blast
  define st1 where "st1 = (case modern of None \<Rightarrow> st | Some r \<Rightarrow> st\<lparr>station_receipts := AList.update n r (station_receipts st)\<rparr>)"
  have v: "accepted st1 = accepted st" "calls st1 = calls st" "remote_bytes st1 = remote_bytes st" "expert_calls st1 = expert_calls st"
    by (simp_all add: st1_def split: option.splits)
  obtain receipt key st2 where
    st2: "store_result hn src copy modern key (st1\<lparr>accepted := AList.update n copy (accepted st1),
        legacy_receipts := AList.update n receipt (legacy_receipts st1), failures := AList.delete n (failures st1)\<rparr>) = Inr st2"
    and out: "(case modern of None \<Rightarrow> Inr (log_event ''obligation_accepted'' [(''obligation_id'', JStr n), (''source'', JStr src), (''receipt'', receipt)] st2)
      | Some r \<Rightarrow> bind_r (receipt_to_dict (hn_hash hn) r) (\<lambda>rj. Inr (log_event ''station_receipt_issued''
          [(''obligation_id'', JStr n), (''receipt'', rj)]
          (log_event ''obligation_accepted'' [(''obligation_id'', JStr n), (''source'', JStr src), (''receipt'', receipt)] st2)))) = Inr st'"
    using rest unfolding Let_def st1_def [symmetric]
    by (simp only: bind_r_Inr_iff [of "legacy_receipt_for hn st1 ob copy"] bind_r_Inr_iff [of "node_cache_key hn _ ob"]
        bind_r_Inr_iff [of "store_result hn src copy modern _ _"]) (elim exE conjE, rule that; assumption)
  have "same_view st2 st'" using out by (auto simp: result_simps split: option.splits)
  with store_result_view [OF st2] v assms(2)
  show "accepted st' = accepted st @ [(n, copy)]" "calls st' = calls st" "remote_bytes st' = remote_bytes st"
    "expert_calls st' = expert_calls st"
    by (simp_all add: same_view_def update_new)
qed

lemma accept_cases:
  assumes "accept hn n v src st = Inr (ok, st')"
  shows "n \<notin> fst ` set (accepted st) \<and> (\<not> ok \<and> same_view st st' \<or>
    (ok \<and> (\<exists>ob copy. map_of (by_id (hn_task hn)) n = Some ob \<and> v_status (verdict_of hn st ob v) = Pass
      \<and> bind_r (canonical v) (strict_json (hn_float hn)) = Inr copy \<and> accepted st' = accepted st @ [(n, copy)]
      \<and> calls st' = calls st \<and> remote_bytes st' = remote_bytes st \<and> expert_calls st' = expert_calls st)))"
proof -
  have fresh: "n \<notin> fst ` set (accepted st)" using assms by (auto simp: accept_def split: if_splits)
  obtain ob where ob: "map_of (by_id (hn_task hn)) n = Some ob"
    using assms fresh by (auto simp: accept_def ob_of_def result_simps)
  show ?thesis
  proof (cases "v_status (verdict_of hn st ob v) = Pass")
    case False
    with assms fresh ob show ?thesis by (auto simp: accept_def ob_of_def dict_get_def Let_def)
  next
    case True
    obtain copy where "bind_r (canonical v) (strict_json (hn_float hn)) = Inr copy" "ok"
      "\<exists>k d. commit_accept hn n ob copy src (log_event k d st) = Inr st'"
      using assms fresh ob True unfolding accept_def ob_of_def by (auto simp: bind_r_Inr_iff dict_get_def Let_def)
    moreover from this obtain k d where "accepted st' = accepted (log_event k d st) @ [(n, copy)]"
      "calls st' = calls (log_event k d st)" "remote_bytes st' = remote_bytes (log_event k d st)"
      "expert_calls st' = expert_calls (log_event k d st)"
      using commit_accept_view fresh by (metis (no_types, lifting) log_event_fields(1))
    ultimately show ?thesis using fresh ob True by (simp add: log_event_fields)
  qed
qed

lemma deps_accepted_mono:
  "deps_accepted hn R st \<Longrightarrow> fst ` set (accepted st) \<subseteq> fst ` set (accepted st') \<Longrightarrow> deps_accepted hn R st'"
  unfolding deps_accepted_def by blast

lemma good_accept:
  assumes "good hn R st" and "accept hn n v src st = Inr (ok, st')" and "n \<in> R"
  shows "good hn R st'"
proof (cases ok)
  case False
  then show ?thesis using accept_cases [OF assms(2)] good_same_view assms(1) by blast
next
  case True
  then obtain ob copy where a: "n \<notin> fst ` set (accepted st)" "map_of (by_id (hn_task hn)) n = Some ob"
    "v_status (verdict_of hn st ob v) = Pass" "bind_r (canonical v) (strict_json (hn_float hn)) = Inr copy"
    "accepted st' = accepted st @ [(n, copy)]" "calls st' = calls st" "remote_bytes st' = remote_bytes st" "expert_calls st' = expert_calls st"
    using accept_cases [OF assms(2)] by blast
  have "set (depends_on ob) \<subseteq> fst ` set (accepted st)" using assms(1,3) a(2) by (auto simp: good_def deps_accepted_def)
  then have "passed_at hn (accepted st) n copy" using verdict_pass a(2-4) by blast
  then have "verified hn (accepted st')" using verified_snoc assms(1) a(1,5) by (auto simp: good_def)
  moreover have "deps_accepted hn R st'"
    by (rule deps_accepted_mono [of hn R st]) (use assms(1) in \<open>simp_all add: good_def a(5) image_Un subset_iff\<close>)
  ultimately show ?thesis using assms(1) a(6-8) by (simp add: good_def)
qed

section \<open>Packets\<close>

lemma cloud_allowedD:
  "cloud_allowed t n \<Longrightarrow> \<exists>ob. map_of (by_id t) n = Some ob \<and> ob_cloud ob \<and> evidence_public t ob"
  by (cases "length (obligations t)") (auto simp: cloud_allowed_def split: option.splits if_splits)

lemma needed_evidence_public:
  assumes "list_all (cloud_allowed (hn_task hn)) ids" and "a \<in> set (ob_field hn ob_evidence ids)"
  shows "artifact_cloud hn a"
proof -
  obtain n ob where n: "n \<in> set ids" "map_of (by_id (hn_task hn)) n = Some ob" "a \<in> set (ob_evidence ob)"
    using assms(2) unfolding ob_field_def set_concat set_map by (elim UnionE imageE) (auto split: option.splits)
  then have "evidence_public (hn_task hn) ob" using cloud_allowedD assms(1) by (fastforce simp: list_all_iff)
  with n(3) show ?thesis by (auto simp: evidence_public_def list_all_iff artifact_cloud_def)
qed

lemma packet_excerpts_artifact: "(b, s, e) \<in> set (packet_excerpts hn st pv ids role a) \<Longrightarrow> b = a"
  by (auto simp: packet_excerpts_def Let_def split: if_splits)

lemma packet_artifacts_public:
  "pv_remote pv \<Longrightarrow> a \<in> set (packet_artifacts hn pv ids role) \<Longrightarrow> artifact_cloud hn a"
  by (auto simp: packet_artifacts_def sorted_ids_def)

lemma packet_dependencies_public:
  assumes "packet_dependencies hn st pv ids role = Inr deps" and "pv_remote pv" and "(d, v, h) \<in> set deps"
  shows "cloud_allowed (hn_task hn) d"
proof -
  have "list_all2 (\<lambda>x y. fst y = x \<and> cloud_allowed (hn_task hn) x)
      (filter (\<lambda>d. (\<not> pv_remote pv \<and> \<not> local_public_call hn pv ids) \<or> cloud_allowed (hn_task hn) d)
         (sorted_ids (if full_packet hn role then map fst (accepted st) else ob_field hn depends_on ids))) deps"
    using assms(1) unfolding packet_dependencies_def map_r_Inr_iff
    by (rule list.rel_mono_strong) (use assms(2) in \<open>auto simp: result_simps\<close>)
  then show ?thesis using assms(3) by (fastforce simp: list_all2_conv_all_nth in_set_conv_nth)
qed

lemma scope_packet_cases:
  assumes "P pk" and "P (pk\<lparr>pk_evidence := map (\<lambda>a. (a, 1, artifact_lines hn a)) (sorted_ids (ob_field hn ob_evidence ids))\<rparr>)"
  shows "P (scope_packet hn st pv ids role pk)"
  using assms by (simp add: scope_packet_def Let_def)

lemma make_packet_public:
  assumes "make_packet hn pv ids role st = Inr (pk, st')" and "pv_remote pv" and "list_all (cloud_allowed (hn_task hn)) ids"
  shows "public_packet hn pk"
proof -
  obtain deps where deps: "packet_dependencies hn st pv ids role = Inr deps"
    and pk: "pk = scope_packet hn st pv ids role \<lparr>pk_obligations = ids, pk_dependencies = deps,
        pk_counterexamples = packet_counterexamples hn st ids, pk_manifest = packet_artifacts hn pv ids role,
        pk_evidence = concat (map (packet_excerpts hn st pv ids role) (packet_artifacts hn pv ids role))\<rparr>" (is "_ = scope_packet hn st pv ids role ?pk")
    using assms(1) by (auto simp: make_packet_def result_simps Let_def)
  have "public_packet hn ?pk"
    using packet_dependencies_public [OF deps assms(2)] packet_artifacts_public [OF assms(2)] packet_excerpts_artifact assms(3)
    by (fastforce simp: public_packet_def list_all_iff)
  moreover have "public_packet hn (?pk\<lparr>pk_evidence := map (\<lambda>a. (a, 1, artifact_lines hn a)) (sorted_ids (ob_field hn ob_evidence ids))\<rparr>)"
    using calculation needed_evidence_public [OF assms(3)] by (auto simp: public_packet_def list_all_iff sorted_ids_def)
  ultimately show ?thesis unfolding pk by (rule scope_packet_cases [where P = "public_packet hn"])
qed

lemma make_packet_view: "make_packet hn pv ids role st = Inr (pk, st') \<Longrightarrow> same_view st st'"
  by (auto simp: make_packet_def result_simps Let_def)

section \<open>Rounds\<close>

lemma good_request_evidence: "good hn R st \<Longrightarrow> request_evidence hn pv rq st = Inr st' \<Longrightarrow> good hn R st'"
proof -
  assume g: "good hn R st" and r: "request_evidence hn pv rq st = Inr st'"
  show "good hn R st'"
  proof (cases "er_obligation rq \<in> fst ` set (accepted st)")
    case True
    with g r show ?thesis by (simp add: request_evidence_def)
  next
    case False
    obtain ob where ob: "ob_of hn (er_obligation rq) = Inr ob"
      using r False by (cases "ob_of hn (er_obligation rq)") (simp_all add: request_evidence_def)
    obtain d where d: "window_decision hn st pv ob rq = Inr d"
      using r False ob by (cases "window_decision hn st pv ob rq") (simp_all add: request_evidence_def)
    have "same_view st st'"
      using r False ob d by (cases d) (auto simp: request_evidence_def same_view_def [of _ "windows_update _ _"])
    with g show ?thesis by (rule good_same_view)
  qed
qed

lemma good_apply_reply:
  assumes "good hn R st" and "apply_reply hn pv role us rqs st = Inr st'" and "fst ` set us \<subseteq> R"
  shows "good hn R st'"
proof -
  obtain st1 where u: "fold_r (\<lambda>st (n, v). bind_r (accept hn n v (if role = RLocal then ''local'' else ''expert'') st) (\<lambda>(_, st). Inr st)) st us = Inr st1"
    and r: "fold_r (\<lambda>st rq. request_evidence hn pv rq st) st1 rqs = Inr st'"
    using assms(2) by (auto simp: apply_reply_def result_simps)
  have "good hn R st1"
  proof (rule fold_r_invariant [where P = "good hn R", OF u assms(1)])
    fix s x s'
    assume x: "x \<in> set us" and g: "good hn R s"
      and a: "(case x of (n, v) \<Rightarrow> bind_r (accept hn n v (if role = RLocal then ''local'' else ''expert'') s) (\<lambda>(_, st). Inr st)) = Inr s'"
    obtain n v where nv: "x = (n, v)" by (cases x)
    obtain ok where "accept hn n v (if role = RLocal then ''local'' else ''expert'') s = Inr (ok, s')"
      using a unfolding nv by (auto simp: bind_r_Inr_iff)
    then show "good hn R s'" by (rule good_accept [OF g]) (use x nv assms(3) in force)
  qed
  then show ?thesis
    by (rule fold_r_invariant [where P = "good hn R", OF r]) (rule good_request_evidence)
qed

lemma good_reserve:
  assumes "good hn R st" and "\<not> over_budget hn pv role sz st" and "pv_remote pv \<Longrightarrow> public_packet hn pk"
  shows "good hn R (reserve_call pv role ids pk sz st)"
  using assms
  by (auto simp: good_def reserve_call_def log_event_def within_budget_def over_budget_def deps_accepted_def Let_def)

lemma within_budget_mark:
  assumes "cs \<noteq> []" and "within_budget hn cs b x"
  shows "within_budget hn (butlast cs @ [(last cs)\<lparr>c_error := e\<rparr>]) b x"
proof -
  obtain ds d where cs: "cs = ds @ [d]" using assms(1) by (cases cs rule: rev_cases) auto
  with assms(2) show ?thesis by (auto simp: within_budget_def Let_def)
qed

lemma good_mark_error: "calls st \<noteq> [] \<Longrightarrow> good hn R st \<Longrightarrow> good hn R (mark_error code st)"
  by (simp add: good_def mark_error_def within_budget_mark deps_accepted_def)

lemma parse_reply_scope:
  assumes "parse_reply hn body ids = Inr (us, rqs)"
  shows "fst ` set us \<subseteq> set ids"
proof -
  obtain data where d: "strict_json (hn_float hn) body = Inr data"
    using assms by (auto simp: parse_reply_def bind_r_Inr_iff)
  obtain kvs where k: "data = JObj kvs" using assms d by (cases data) (simp_all add: parse_reply_def bind_r_Inr_iff)
  obtain u r where "map_of kvs ''updates'' = Some u" "map_of kvs ''requests'' = Some r"
    using assms d k by (auto simp: parse_reply_def bind_r_Inr_iff split: option.splits json.splits)
  then show ?thesis
    using assms d k by (cases u; cases r) (simp_all add: parse_reply_def bind_r_Inr_iff ensure_Inr_iff)
qed

lemma eligible_facts:
  assumes "eligible hn pv ready st = (ids, st')"
  shows "set ids \<subseteq> set ready" "pv_remote pv \<Longrightarrow> list_all (cloud_allowed (hn_task hn)) ids" "good hn R st \<Longrightarrow> good hn R st'"
    "\<forall>n\<in>set ids. n \<notin> fst ` set (accepted st)"
  using assms by (auto simp: eligible_def list_all_iff Let_def rev_image_eqI split: if_splits)

lemma good_work_round:
  assumes "good hn R st" and "work_round hn pv ready role st = Inr (again, st')" and "set ready \<subseteq> R"
  shows "good hn R st'"
proof -
  obtain ids st0 where el: "eligible hn pv ready st = (ids, st0)" by fastforce
  note e = eligible_facts [OF el]
  have g0: "good hn R st0" using e(3) assms(1) .
  show ?thesis
  proof (cases "ids = []")
    case True
    with assms(2) el g0 show ?thesis by (simp add: work_round_def)
  next
    case False
    obtain pk st1 where pk: "make_packet hn pv ids role st0 = Inr (pk, st1)"
      using assms(2) el False by (auto simp: work_round_def result_simps)
    have g1: "good hn R st1" using good_same_view g0 make_packet_view [OF pk] by blast
    let ?sz = "pv_wire_size pv pk (max_output_tokens (hn_limits hn))"
    show ?thesis
    proof (cases "over_budget hn pv role ?sz st1")
      case True
      with assms(2) el False pk g1 show ?thesis by (auto simp: work_round_def Let_def)
    next
      case ok: False
      let ?st = "reserve_call pv role ids pk ?sz st1"
      have g2: "good hn R ?st" using good_reserve [OF g1 ok] make_packet_public [OF pk] e(2) by blast
      have ne: "calls ?st \<noteq> []" by (simp add: reserve_call_def)
      show ?thesis
      proof (cases "pv_generate pv (length (calls st1)) pk")
        case (Inl code)
        with assms(2) el False pk ok good_mark_error [OF ne g2] show ?thesis by (auto simp: work_round_def Let_def)
      next
        case (Inr reply)
        let ?st' = "log_event ''call_completed'' [(''finish_reason'', JStr (rp_finish reply))] ?st"
        let ?parsed = "if rp_finish reply \<in> {''length'', ''max_tokens''} then Inl (ContractError ''truncated response'')
          else parse_reply hn (rp_text reply) ids"
        show ?thesis
        proof (cases ?parsed)
          case (Inl x)
          with assms(2) el False pk ok g2 \<open>pv_generate pv _ pk = Inr reply\<close> show ?thesis
            by (auto simp: work_round_def Let_def)
        next
          case (Inr ur)
          obtain us rqs where ur: "ur = (us, rqs)" by (cases ur)
          then have "fst ` set us \<subseteq> set ids" using Inr parse_reply_scope by (auto split: if_splits)
          then have sub: "fst ` set us \<subseteq> R" using e(1) assms(3) by blast
          obtain st2 where ap: "apply_reply hn pv role us rqs ?st' = Inr st2"
            and out: "(again, st') = (if us = [] \<and> rqs = [] then (False, fail_all ids ''worker_abstained''
              ''The worker returned no candidate or evidence request.'' st2) else (True, st2))"
            using assms(2) el False pk ok \<open>pv_generate pv _ pk = Inr reply\<close> Inr ur
            by (auto simp: work_round_def Let_def result_simps split: if_splits)
          have "good hn R st2" by (rule good_apply_reply [OF _ ap sub]) (use g2 in simp)
          with out show ?thesis by (auto split: if_splits)
        qed
      qed
    qed
  qed
qed


lemma good_work: "good hn R st \<Longrightarrow> set ready \<subseteq> R \<Longrightarrow> work hn pv ready role k st = Inr st' \<Longrightarrow> good hn R st'"
proof (induction k arbitrary: st)
  case (Suc k)
  then obtain again st1 where r: "work_round hn pv ready role st = Inr (again, st1)"
    and w: "(if again then work hn pv ready role k st1 else Inr st1) = Inr st'"
    by (auto simp: bind_r_Inr_iff)
  have "good hn R st1" using good_work_round [OF Suc.prems(1) r Suc.prems(2)] .
  with w Suc.IH Suc.prems(2) show ?case by (auto split: if_splits)
qed simp

lemma good_dispatch:
  assumes "good hn R st" and "set ready \<subseteq> R" and "dispatch hn pv ready role rounds st = Inr st'"
  shows "good hn R st'"
proof (cases "pv_remote pv")
  case True
  with assms good_work show ?thesis by (auto simp: dispatch_def)
next
  case False
  then obtain st1 where 1: "work hn pv (filter (cloud_allowed (hn_task hn)) ready) role (nat rounds) st = Inr st1"
    and 2: "work hn pv (filter (\<lambda>n. \<not> cloud_allowed (hn_task hn) n) ready) role (nat rounds) st1 = Inr st'"
    using assms(3) by (auto simp: dispatch_def bind_r_Inr_iff)
  have "good hn R st1" using assms(2) by (intro good_work [OF assms(1) _ 1]) auto
  then show ?thesis using assms(2) by (intro good_work [OF _ _ 2]) auto
qed

lemma good_dispatch_to:
  "good hn R st \<Longrightarrow> set ready \<subseteq> R \<Longrightarrow> dispatch_to hn pv enabled ready role rounds st = Inr st' \<Longrightarrow> good hn R st'"
  by (auto simp: dispatch_to_def split: option.splits if_splits intro: good_dispatch)

section \<open>Layers\<close>

lemma good_counters [simp]:
  "good hn R (st\<lparr>cache_hits := a\<rparr>) \<longleftrightarrow> good hn R st" "good hn R (st\<lparr>deterministic_accepts := a\<rparr>) \<longleftrightarrow> good hn R st"
  by (simp_all add: good_def deps_accepted_def)

lemma good_try_cache:
  assumes "good hn R st" and "ob_id ob \<in> R" and "try_cache hn ob st = Inr (hit, st')"
  shows "good hn R st'"
proof (cases "run_cache st")
  case None
  with assms show ?thesis by (simp add: try_cache_def)
next
  case (Some c)
  obtain key idn where "node_cache_key hn st ob = Inr key" "identity_of hn st ob = Inr idn"
    using assms(3) Some by (auto simp: try_cache_def bind_r_Inr_iff)
  moreover obtain h v where "(let (hit, v) = cache_get (hn_float hn) c key in
      if hit \<and> idn \<noteq> None then cached_candidate hn st ob v else (hit, v)) = (h, v)" by fastforce
  ultimately have x: "(if \<not> h then Inr (False, st) else bind_r (accept hn (ob_id ob) v ''cache'' st) (\<lambda>(ok, st).
            Inr (ok, if ok then st\<lparr>cache_hits := cache_hits st + 1\<rparr> else st))) = Inr (hit, st')"
    using assms(3) Some by (cases "cache_get (hn_float hn) c key") (simp only: try_cache_def Let_def bind_r.simps option.case prod.case)
  show ?thesis
  proof (cases h)
    case True
    with x show ?thesis
      using good_accept [OF assms(1) _ assms(2)] by (auto simp: bind_r_Inr_iff split: if_splits prod.splits)
  next
    case False
    with x assms(1) show ?thesis by simp
  qed
qed

lemma good_try_solver:
  assumes "good hn R st" and "ob_id ob \<in> R" and "try_solver hn ob st = Inr st'"
  shows "good hn R st'"
proof (cases "ob_solver ob = None \<or> hn_mode hn \<in> {FullCloud, NoSolvers}")
  case True
  with assms show ?thesis by (auto simp: try_solver_def split: option.splits)
next
  case False
  then obtain s where s: "ob_solver ob = Some s" by auto
  show ?thesis
  proof (cases "bind_r (dict_get (reg_solvers (hn_registry hn)) s) (\<lambda>f. f (context_of hn ob st))")
    case (Inl e)
    with assms False s show ?thesis by (auto simp: try_solver_def)
  next
    case (Inr v)
    then have "bind_r (accept hn (ob_id ob) v ''deterministic'' st) (\<lambda>(ok, st).
        Inr (if ok then st\<lparr>deterministic_accepts := deterministic_accepts st + 1\<rparr> else st)) = Inr st'"
      using assms(3) False s by (simp add: try_solver_def)
    then show ?thesis
      using good_accept [OF assms(1) _ assms(2)] by (auto simp: bind_r_Inr_iff split: if_splits prod.splits)
  qed
qed

lemma by_id_ob_id: "map_of (by_id t) n = Some ob \<Longrightarrow> ob_id ob = n"
  by (auto simp: by_id_def dest: map_of_SomeD)

lemma good_try_local_sources:
  assumes "good hn R st" and "n \<in> R" and "try_local_sources hn st n = Inr st'"
  shows "good hn R st'"
proof -
  obtain ob hit st1 where "map_of (by_id (hn_task hn)) n = Some ob" and c: "try_cache hn ob st = Inr (hit, st1)"
    and s: "(if hit then Inr st1 else try_solver hn ob st1) = Inr st'"
    using assms(3) by (auto simp: try_local_sources_def ob_of_def dict_get_Inr_iff bind_r_Inr_iff)
  then have R: "ob_id ob \<in> R" using by_id_ob_id assms(2) by simp
  have "good hn R st1" using good_try_cache [OF assms(1) R c] .
  with s R good_try_solver show ?thesis by (auto split: if_splits)
qed

lemma good_run_layer:
  assumes "good hn (set ready) st" and "run_layer hn ready st = Inr st'"
  shows "good hn (set ready) st'"
proof -
  obtain st1 st2 where 1: "fold_r (try_local_sources hn) st ready = Inr st1"
    and 2: "dispatch_to hn (hn_local hn) (hn_mode hn \<noteq> FullCloud) ready RLocal (local_rounds (hn_limits hn)) st1 = Inr st2"
    and 3: "dispatch_to hn (hn_expert hn) (hn_mode hn \<noteq> LocalOnly) ready RExpert (expert_rounds (hn_limits hn)) st2 = Inr st'"
    using assms(2) by (auto simp: run_layer_def bind_r_Inr_iff)
  have "good hn (set ready) st1"
    by (rule fold_r_invariant [where P = "good hn (set ready)", OF 1 assms(1)]) (rule good_try_local_sources)
  then have "good hn (set ready) st2" by (rule good_dispatch_to) (use 2 in auto)
  then show ?thesis by (rule good_dispatch_to) (use 3 in auto)
qed

lemma good_ready:
  assumes "good hn R st" and "distinct (map ob_id (obligations (hn_task hn)))"
  shows "good hn (set (ready_nodes hn st attempted)) st"
proof -
  have "deps_accepted hn (set (ready_nodes hn st attempted)) st"
    using assms(2) unfolding deps_accepted_def ready_nodes_def by (auto simp: map_of_by_id)
      (metis (no_types, lifting) assms(2) distinct_map inj_onD subsetD)
  with assms(1) show ?thesis by (simp add: good_def)
qed

lemma good_run_layers:
  assumes "good hn {} st" and "distinct (map ob_id (obligations (hn_task hn)))" and "run_layers hn st attempted = Inr st'"
  shows "good hn {} st'"
  using assms
proof (induction hn st attempted rule: run_layers.induct)
  case (1 hn st attempted)
  show ?case
  proof (cases "ready_nodes hn st attempted = []")
    case True
    with "1.prems" show ?thesis by (simp add: run_layers.simps)
  next
    case False
    then obtain st1 where l: "run_layer hn (ready_nodes hn st attempted) st = Inr st1"
      and r: "run_layers hn st1 (attempted \<union> set (ready_nodes hn st attempted)) = Inr st'"
      using "1.prems"(3) by (subst (asm) run_layers.simps) (auto simp: Let_def bind_r_Inr_iff)
    have "good hn (set (ready_nodes hn st attempted)) st1" using good_run_layer [OF good_ready l] "1.prems" by blast
    then have "good hn {} st1" by (simp add: good_def deps_accepted_def)
    from "1.IH" [OF refl False l this "1.prems"(2) r] show ?thesis .
  qed
qed

section \<open>The whole run\<close>

lemma good_initial:
  assumes "mk_limits (hn_limits hn) = Inr l"
  shows "good hn {} (initial_state c)"
  using assms
  by (auto simp: good_def verified_def within_budget_def deps_accepted_def initial_state_def mk_limits_def result_simps Let_def)

lemma run_task_good:
  assumes "mk_limits (hn_limits hn) = Inr l" and "valid_task (hn_task hn)" and "run_task hn c = Inr r"
  obtains st where "good hn {} st" "same_view st (er_state r)" "er_values r = accepted st"
    "er_success r \<longleftrightarrow> unresolved_of hn st = []"
proof -
  obtain st where st: "run_layers hn (log_event ''run_started'' [(''task_id'', JStr (task_id (hn_task hn)))] (initial_state c)) {} = Inr st"
    and r: "same_view st (er_state r)" "er_values r = accepted st" "er_success r \<longleftrightarrow> unresolved_of hn st = []"
    using assms(3) by (auto simp: run_task_def bind_r_Inr_iff Let_def)
  have "distinct (map ob_id (obligations (hn_task hn)))" by (rule valid_taskD(1) [OF assms(2)])
  then have "good hn {} st" using good_run_layers [OF _ _ st] good_initial [OF assms(1)] by simp
  with r that show thesis by blast
qed

lemma unresolved_none_iff:
  "unresolved_of hn st = [] \<longleftrightarrow> (\<forall>ob\<in>set (obligations (hn_task hn)). ob_id ob \<in> fst ` set (accepted st))"
  by (auto simp: unresolved_of_def filter_empty_conv)

section \<open>Evidence windows\<close>

text \<open>Lists of intervals in normal form: non-empty, increasing, with a gap between neighbours.\<close>

definition covered :: "(int \<times> int) list \<Rightarrow> int set" where
  "covered xs = (\<Union>(s, e)\<in>set xs. {s..e})"

fun separated :: "(int \<times> int) list \<Rightarrow> bool" where
  "separated [] = True"
| "separated [(s, e)] = (s \<le> e)"
| "separated ((s, e) # (s', e') # ms) = (s \<le> e \<and> e + 1 < s' \<and> separated ((s', e') # ms))"

lemma covered_simps [simp]:
  "covered [] = {}" "covered ((s, e) # xs) = {s..e} \<union> covered xs" "covered (xs @ ys) = covered xs \<union> covered ys"
  by (auto simp: covered_def)

lemma separated_le: "separated ms \<Longrightarrow> \<forall>(s, e)\<in>set ms. s \<le> e"
  by (induction ms rule: separated.induct) auto

lemma covered_sort [simp]: "covered (sort xs) = covered xs"
  by (simp add: covered_def)

lemma separated_snoc:
  "separated (ms @ [(a, b)]) \<longleftrightarrow> separated ms \<and> a \<le> b \<and> (ms \<noteq> [] \<longrightarrow> snd (last ms) + 1 < a)"
  by (induction ms rule: separated.induct) auto

lemma separated_above: "separated ((s, e) # ms) \<Longrightarrow> x \<in> covered ms \<Longrightarrow> e + 1 < x"
proof (induction ms arbitrary: s e)
  case (Cons m ms)
  obtain s' e' where m: "m = (s', e')" by (cases m)
  have "s' \<le> e'" using Cons.prems(1) m by (cases ms) auto
  with Cons.IH [of s' e'] Cons.prems m show ?case by auto
qed simp

lemma merge_step_snoc [simp]:
  "merge_step (ms @ [(a, b)]) (s, e) = (if s \<le> b + 1 then ms @ [(a, max e b)] else ms @ [(a, b), (s, e)])"
  by (cases ms) auto

lemma merge_step_fold:
  assumes "separated (ms @ [(a, b)])" and "sorted ((a, b') # xs)" and "\<forall>(s, e)\<in>set xs. s \<le> e"
  shows "separated (foldl merge_step (ms @ [(a, b)]) xs) \<and> covered (foldl merge_step (ms @ [(a, b)]) xs) = covered (ms @ [(a, b)]) \<union> covered xs"
  using assms
proof (induction xs arbitrary: ms a b b')
  case (Cons x xs)
  obtain s e where x: "x = (s, e)" by (cases x)
  have a: "a \<le> s" "sorted ((s, e) # xs)" "s \<le> e" using Cons.prems x by auto
  show ?case
  proof (cases "s \<le> b + 1")
    case True
    have "sorted ((a, b') # xs)" using Cons.prems(2) by auto
    moreover have "separated (ms @ [(a, max e b)])" using Cons.prems(1) by (auto simp: separated_snoc)
    moreover have "{a..max e b} = {a..b} \<union> {s..e}" using True a Cons.prems(1) by (auto simp: separated_snoc)
    ultimately show ?thesis using Cons.IH [of ms a "max e b" b'] Cons.prems(3) x True by auto
  next
    case False
    have "separated ((ms @ [(a, b)]) @ [(s, e)])" using Cons.prems(1) a(3) False by (simp only: separated_snoc) auto
    then show ?thesis using Cons.IH [of "ms @ [(a, b)]" s e e] Cons.prems(3) x False a(2) by auto
  qed
qed simp

lemma merge_intervals_normal:
  assumes "\<forall>(s, e)\<in>set xs. s \<le> e"
  shows "separated (merge_intervals xs) \<and> covered (merge_intervals xs) = covered xs"
proof (cases "sort xs")
  case Nil
  then show ?thesis by (metis covered_simps(1) covered_sort foldl_Nil merge_intervals_def separated.simps(1))
next
  case (Cons x ys)
  obtain s e where x: "x = (s, e)" by (cases x)
  have "s \<le> e" "\<forall>(s, e)\<in>set ys. s \<le> e" using assms Cons x by (metis (no_types, lifting) case_prodD list.set_intros set_sort)+
  moreover have "sorted ((s, e) # ys)" using sorted_sort [of xs] Cons x by simp
  ultimately have "separated (foldl merge_step ([] @ [(s, e)]) ys) \<and> covered (foldl merge_step ([] @ [(s, e)]) ys) = covered ([] @ [(s, e)]) \<union> covered ys"
    by (intro merge_step_fold) auto
  moreover have "covered xs = covered ((s, e) # ys)" using covered_sort [of xs] Cons x by simp
  ultimately show ?thesis by (simp add: merge_intervals_def Cons x)
qed

lemma separated_unique:
  "separated ms \<Longrightarrow> separated ns \<Longrightarrow> covered ms = covered ns \<Longrightarrow> ms = ns"
proof (induction ms arbitrary: ns)
  case Nil
  then show ?case by (cases ns rule: separated.cases) auto
next
  case (Cons m ms)
  obtain s e where m: "m = (s, e)" by (cases m)
  have se: "s \<le> e" using Cons.prems(1) m by (cases ms) auto
  obtain s' e' ns' where n: "ns = (s', e') # ns'" using Cons.prems(3) m se by (cases ns) auto
  have se': "s' \<le> e'" using Cons.prems(2) n by (cases ns') auto
  note up = separated_above [OF Cons.prems(1) [unfolded m]] and up' = separated_above [OF Cons.prems(2) [unfolded n]]
  have eq: "{s..e} \<union> covered ms = {s'..e'} \<union> covered ns'" using Cons.prems(3) m n by simp
  have s: "s = s'"
  proof (rule antisym)
    show "s \<le> s'" using eq up se' by (metis Un_iff add.commute atLeastAtMost_iff le_less_trans less_le_not_le linorder_not_le order_refl se zle_add1_eq_le)
    show "s' \<le> s" using eq up' se by (metis Un_iff add.commute atLeastAtMost_iff le_less_trans less_le_not_le linorder_not_le order_refl se' zle_add1_eq_le)
  qed
  have e: "e = e'"
  proof (rule ccontr)
    assume "e \<noteq> e'"
    then consider "e < e'" | "e' < e" by linarith
    then show False
    proof cases
      case 1
      then have "e + 1 \<in> {s..e} \<union> covered ms" unfolding eq using s se by simp
      with up show False by force
    next
      case 2
      then have "e' + 1 \<in> {s'..e'} \<union> covered ns'" unfolding eq [symmetric] using s se' by simp
      with up' show False by force
    qed
  qed
  have "covered ms = covered ns'" using eq s e up up' by force
  moreover have "separated ms" "separated ns'" using Cons.prems m n by (cases ms; force) (cases ns'; use Cons.prems n in force)
  ultimately show ?case using Cons.IH m n s e by blast
qed

lemma window_decision_supplied:
  assumes "window_decision hn st pv ob rq = Inr d" and "d = Inl ''evidence_already_supplied'' \<or> (\<exists>ms. d = Inr ms)"
  obtains a where "map_of (artifacts (hn_task hn)) (er_artifact rq) = Some a" "er_artifact rq \<in> set (ob_evidence ob)"
    "pv_remote pv \<longrightarrow> art_cloud a" "er_start rq \<le> er_end rq" "er_end rq \<le> line_count a"
    "d = (let old = (case map_of (windows st) (pv_name pv, er_obligation rq, er_artifact rq) of None \<Rightarrow> [] | Some w \<Rightarrow> w);
               merged = merge_intervals (old @ [(er_start rq, er_end rq)]) in
           (if merged = old then Inl ''evidence_already_supplied'' else Inr merged))"
  using assms by (auto simp: window_decision_def result_simps Let_def split: if_splits)

section \<open>Properties\<close>

text \<open>C1. Whatever the providers, solvers and cache return, a completed run holds only values the
  host verifier passed: accepted obligations are distinct, each is an obligation of the task, its
  registered check returned PASS on exactly the stored value with the values accepted before it
  in view, and everything it depends on was accepted before it. The run reports success exactly
  when every obligation is accepted.\<close>

theorem run_accepts_only_verified:
  assumes "mk_limits (hn_limits hn) = Inr l" and "mk_task (hn_task hn) = Inr t" and "run_task hn c = Inr r"
  shows "distinct (map fst (er_values r))
    \<and> (\<forall>i<length (er_values r). passed_at hn (take i (er_values r)) (fst (er_values r ! i)) (snd (er_values r ! i)))
    \<and> (er_success r \<longleftrightarrow> (\<forall>ob\<in>set (obligations (hn_task hn)). ob_id ob \<in> fst ` set (er_values r)))"
proof -
  have "valid_task (hn_task hn)" using assms(2) by (simp add: mk_task_ok)
  then obtain st where "good hn {} st" "er_values r = accepted st" "er_success r \<longleftrightarrow> unresolved_of hn st = []"
    by (rule run_task_good [OF assms(1) _ assms(3)])
  then show ?thesis unfolding good_def verified_def unresolved_none_iff by simp
qed


text \<open>Evidence windows are exact. With the windows of an obligation in normal form, a request
  that passes the permission and size checks is refused as already supplied exactly when every
  line it asks for has been supplied; otherwise the stored windows are again in normal form and
  cover exactly the old lines and the requested ones.\<close>

theorem evidence_windows_exact:
  fixes hn st pv rq
  defines "old \<equiv> case map_of (windows st) (pv_name pv, er_obligation rq, er_artifact rq) of None \<Rightarrow> [] | Some w \<Rightarrow> w"
  assumes "separated old" and "window_decision hn st pv ob rq = Inr d"
  shows "(d = Inl ''evidence_already_supplied'' \<longrightarrow> {er_start rq..er_end rq} \<subseteq> covered old)
    \<and> (\<forall>ms. d = Inr ms \<longrightarrow> separated ms \<and> covered ms = covered old \<union> {er_start rq..er_end rq}
         \<and> \<not> {er_start rq..er_end rq} \<subseteq> covered old \<and> er_end rq \<le> artifact_lines hn (er_artifact rq)
         \<and> (pv_remote pv \<longrightarrow> artifact_cloud hn (er_artifact rq)))"
proof (cases "d = Inl ''evidence_already_supplied'' \<or> (\<exists>ms. d = Inr ms)")
  case True
  obtain a where a: "map_of (artifacts (hn_task hn)) (er_artifact rq) = Some a" "pv_remote pv \<longrightarrow> art_cloud a"
    "er_start rq \<le> er_end rq" "er_end rq \<le> line_count a"
    "d = (let merged = merge_intervals (old @ [(er_start rq, er_end rq)]) in
           (if merged = old then Inl ''evidence_already_supplied'' else Inr merged))"
    using window_decision_supplied [OF assms(3) True] unfolding old_def Let_def by blast
  let ?m = "merge_intervals (old @ [(er_start rq, er_end rq)])"
  have "\<forall>(s, e)\<in>set (old @ [(er_start rq, er_end rq)]). s \<le> e"
    using separated_le [OF assms(2)] a(3) by auto
  from merge_intervals_normal [OF this] have m: "separated ?m" "covered ?m = covered old \<union> {er_start rq..er_end rq}"
    by simp_all
  have iff: "?m = old \<longleftrightarrow> {er_start rq..er_end rq} \<subseteq> covered old"
  proof
    assume "?m = old"
    with m(2) show "{er_start rq..er_end rq} \<subseteq> covered old" by (metis Un_upper2)
  next
    assume "{er_start rq..er_end rq} \<subseteq> covered old"
    then have "covered ?m = covered old" unfolding m(2) by (rule Un_absorb2)
    then show "?m = old" by (rule separated_unique [OF m(1) assms(2)])
  qed
  show ?thesis
  proof (cases "?m = old")
    case True
    then have "d = Inl ''evidence_already_supplied''" using a(5) by simp
    with True iff show ?thesis by blast
  next
    case False
    then have "d = Inr ?m" using a(5) by simp
    moreover have "er_end rq \<le> artifact_lines hn (er_artifact rq)" "pv_remote pv \<longrightarrow> artifact_cloud hn (er_artifact rq)"
      using a(1,2,4) by (simp_all add: artifact_lines_def artifact_cloud_def)
    ultimately show ?thesis using m iff False by blast
  qed
qed auto

section \<open>Witnesses\<close>

text \<open>A task of two obligations: the first is solved by a registered solver, the second goes to a
  remote expert that fails.\<close>

definition sample_harness :: harness where
  "sample_harness = \<lparr>hn_hash = (\<lambda>_. ''h''), hn_float = JFloat,
     hn_task = \<lparr>task_id = ''t'', task_goal = ''g'', artifacts = [(''pub'', \<lparr>art_id = ''pub'', art_text = ''x'', art_cloud = True\<rparr>)],
       obligations = [sample_obligation ''a'' [] [] \<lparr>ob_solver := Some ''s''\<rparr>, sample_obligation ''b'' [''pub''] [''a'']], task_structure = None\<rparr>,
     hn_registry = \<lparr>reg_checks = [(''json_value'', ''v1'', \<lambda>v ctx. Inr (Some \<lparr>v_status = Pass, v_code = ''ok'', v_message = []\<rparr>))],
       reg_identities = [], reg_solvers = [(''s'', \<lambda>ctx. Inr (JInt 7))]\<rparr>,
     hn_local = None,
     hn_expert = Some \<lparr>pv_name = ''p'', pv_remote = True, pv_wire_size = (\<lambda>_ _. 10), pv_generate = (\<lambda>_ _. Inl ''timeout'')\<rparr>,
     hn_limits = \<lparr>local_rounds = 1, expert_rounds = 1, max_calls = 2, max_expert_calls = 1, max_remote_input_bytes = 100,
       max_request_bytes = 50, max_output_tokens = 10, max_requested_lines = 5, seed_lines = 1, max_structural_nodes = 0\<rparr>,
     hn_mode = Residual\<rparr>"

lemma sample_harness_run:
  "map_sum (\<lambda>_. ()) (\<lambda>r. (er_status r, er_values r, length (calls (er_state r)))) (run_task sample_harness None)
     = Inr (''partial'', [(''a'', JInt 7)], 1)"
  by code_simp

lemma sample_harness_result:
  "\<exists>r. run_task sample_harness None = Inr r \<and> er_values r = [(''a'', JInt 7)] \<and> length (calls (er_state r)) = 1"
  using sample_harness_run by (cases "run_task sample_harness None") auto

lemma sample_harness_ok:
  "mk_limits (hn_limits sample_harness) = Inr (hn_limits sample_harness)"
  "mk_task (hn_task sample_harness) = Inr (hn_task sample_harness)"
  by code_simp (simp add: mk_task_def sample_harness_def sample_obligation_def mk_identifier_def is_letter_def
      is_lower_def is_upper_def ident_char_def ascii_space_def Let_def ob_deps_def resolve_layers.simps
      ready_set_def insert_commute)

theorem run_accepts_only_verified_witness:
  "\<exists>r. run_task sample_harness None = Inr r \<and> passed_at sample_harness [] ''a'' (JInt 7) \<and> \<not> er_success r"
proof -
  obtain r where r: "run_task sample_harness None = Inr r" "er_values r = [(''a'', JInt 7)]" using sample_harness_result by blast
  from run_accepts_only_verified [OF sample_harness_ok r(1)] r show ?thesis
    by (intro exI [of _ r]) (auto simp: sample_harness_def sample_obligation_def)
qed


theorem evidence_windows_exact_witness:
  "let pv = \<lparr>pv_name = ''p'', pv_remote = True, pv_wire_size = (\<lambda>_ _. 10), pv_generate = (\<lambda>_ _. Inl ''timeout'')\<rparr>;
       rq = \<lparr>er_obligation = ''b'', er_artifact = ''pub'', er_start = 1, er_end = 1\<rparr>;
       ob = sample_obligation ''b'' [''pub''] [''a''] in
   window_decision sample_harness (initial_state None) pv ob rq = Inr (Inr [(1, 1)]) \<and> covered [(1, 1)] = {1..1}
   \<and> artifact_cloud sample_harness ''pub''"
proof -
  let ?pv = "\<lparr>pv_name = ''p'', pv_remote = True, pv_wire_size = (\<lambda>_ _. 10), pv_generate = (\<lambda>_ _. Inl ''timeout'')\<rparr>"
  let ?rq = "\<lparr>er_obligation = ''b'', er_artifact = ''pub'', er_start = 1, er_end = 1\<rparr>"
  have d: "window_decision sample_harness (initial_state None) ?pv (sample_obligation ''b'' [''pub''] [''a'']) ?rq = Inr (Inr [(1, 1)])"
    by code_simp
  show ?thesis
    using evidence_windows_exact [OF _ d] d by (simp add: initial_state_def)
qed

end
