(* ===== verification/Scheduler.thy ===== *)
theory Scheduler
  imports Core
begin

text \<open>
  The fair multi-tenant scheduler of \<open>src/residual/tenancy/scheduler.py\<close>: jobs, tenant quotas and the
  deficit round-robin loop.

  \<^item> The private tables \<open>_queues\<close> and \<open>_deficit\<close> and the round order hold the same tenants, which
    \<open>submit\<close> adds together; \<open>queue_of\<close> and \<open>deficit_of\<close> read them.
  \<^item> The outer \<open>while\<close> loop has fuel, \<open>None\<close> meaning that the fuel ran out. \<open>run_until_idle_completes\<close>
    shows that enough fuel always gives a result.
  \<^item> Shown: every run returns or raises; it returns exactly when the step limit covers the backlog,
    and then every job has run, in submission order within its tenant; and the fair-share bound of
    deficit round-robin.
\<close>

section \<open>Jobs and configuration\<close>

record job =
  j_id :: string
  j_tenant :: string
  j_cost :: int

definition mk_job :: "string \<Rightarrow> string \<Rightarrow> int \<Rightarrow> job result" where
  "mk_job i t c =
     bind_r (mk_identifier i) (\<lambda>_.
     bind_r (mk_identifier t) (\<lambda>_.
     bind_r (ensure (1 \<le> c) (ContractError ''job cost must be a positive integer'')) (\<lambda>_.
     Inr \<lparr>j_id = i, j_tenant = t, j_cost = c\<rparr>)))"

record scheduler =
  workers :: int
  quotas :: "(string, int) dict"
  queues :: "(string, job list) dict"
  deficits :: "(string, int) dict"
  round_order :: "string list"
  completed :: "job list"

definition mk_scheduler :: "int \<Rightarrow> (string, int) dict \<Rightarrow> scheduler result" where
  "mk_scheduler w qs =
     bind_r (ensure (1 \<le> w) (ContractError ''workers must be a positive integer'')) (\<lambda>_.
     bind_r (iter_r (\<lambda>(t, q). bind_r (mk_identifier t) (\<lambda>_.
        ensure (1 \<le> q) (ContractError ''tenant quota must be a positive integer''))) qs) (\<lambda>_.
     Inr \<lparr>workers = w, quotas = qs, queues = [], deficits = [], round_order = [], completed = []\<rparr>))"

definition queue_of :: "scheduler \<Rightarrow> string \<Rightarrow> job list" where
  "queue_of s t = (case map_of (queues s) t of None \<Rightarrow> [] | Some q \<Rightarrow> q)"

definition deficit_of :: "scheduler \<Rightarrow> string \<Rightarrow> int" where
  "deficit_of s t = (case map_of (deficits s) t of None \<Rightarrow> 0 | Some d \<Rightarrow> d)"

definition quota_of :: "scheduler \<Rightarrow> string \<Rightarrow> int" where
  "quota_of s t = (case map_of (quotas s) t of None \<Rightarrow> 1 | Some q \<Rightarrow> q)"

definition set_quota :: "scheduler \<Rightarrow> string \<Rightarrow> int \<Rightarrow> scheduler result" where
  "set_quota s t q =
     bind_r (mk_identifier t) (\<lambda>_.
     bind_r (ensure (1 \<le> q) (ContractError ''tenant quota must be a positive integer'')) (\<lambda>_.
     Inr (s\<lparr>quotas := AList.update t q (quotas s)\<rparr>)))"

definition submit :: "scheduler \<Rightarrow> job \<Rightarrow> scheduler" where
  "submit s j =
     (let t = j_tenant j;
          s = (if t \<in> fst ` set (queues s) then s
               else s\<lparr>queues := queues s @ [(t, [])], deficits := AList.update t 0 (deficits s),
                      round_order := round_order s @ [t],
                      quotas := (if t \<in> fst ` set (quotas s) then quotas s else quotas s @ [(t, 1)])\<rparr>) in
      s\<lparr>queues := AList.update t (queue_of s t @ [j]) (queues s)\<rparr>)"

definition pending :: "scheduler \<Rightarrow> string \<Rightarrow> nat" where
  "pending s t = length (queue_of s t)"

section \<open>The deficit round-robin loop\<close>

text \<open>The inner loop: the jobs served, what remains of queue and credit, and the step counter.\<close>

fun serve :: "int \<Rightarrow> job list \<Rightarrow> int \<Rightarrow> int \<Rightarrow> job list \<times> job list \<times> int \<times> int" where
  "serve mx [] d steps = ([], [], d, steps)"
| "serve mx (j # q) d steps =
     (if d \<ge> j_cost j \<and> steps < mx
      then (let (ds, q', d', steps') = serve mx q (d - j_cost j) (steps + 1) in (j # ds, q', d', steps'))
      else ([], j # q, d, steps))"

type_synonym round_state = "scheduler \<times> int \<times> bool"

definition visit_tenant :: "int \<Rightarrow> string \<Rightarrow> round_state \<Rightarrow> round_state" where
  "visit_tenant mx t rs = (case rs of (s, steps, progressed) \<Rightarrow>
     if queue_of s t = [] then (s, steps, progressed)
     else
       (let (ds, q, d, steps') = serve mx (queue_of s t) (deficit_of s t + quota_of s t) steps in
        (s\<lparr>queues := AList.update t q (queues s),
           deficits := AList.update t (if q = [] then 0 else d) (deficits s),
           completed := completed s @ ds\<rparr>, steps', progressed \<or> ds \<noteq> [])))"

definition visit :: "int \<Rightarrow> round_state \<Rightarrow> round_state" where
  "visit mx rs = (case rs of (s, steps, progressed) \<Rightarrow>
     case round_order s of
       [] \<Rightarrow> rs
     | t # ts \<Rightarrow> visit_tenant mx t (s\<lparr>round_order := ts @ [t]\<rparr>, steps, progressed))"

definition one_round :: "int \<Rightarrow> scheduler \<Rightarrow> int \<Rightarrow> round_state" where
  "one_round mx s steps = (visit mx ^^ length (round_order s)) (s, steps, False)"

definition idle :: "scheduler \<Rightarrow> bool" where
  "idle s = list_all (\<lambda>t. queue_of s t = []) (round_order s)"

fun run_loop :: "nat \<Rightarrow> int \<Rightarrow> scheduler \<Rightarrow> int \<Rightarrow> (scheduler \<times> job list result) option" where
  "run_loop 0 mx s steps = None"
| "run_loop (Suc fuel) mx s steps =
     (if idle s then Some (s, Inr (completed s))
      else
        (let (s', steps', progressed) = one_round mx s steps in
         if \<not> progressed \<and> steps' \<ge> mx then Some (s', Inl (ContractError ''scheduler exceeded max_steps''))
         else run_loop fuel mx s' steps'))"

definition run_until_idle :: "nat \<Rightarrow> int \<Rightarrow> scheduler \<Rightarrow> (scheduler \<times> job list result) option" where
  "run_until_idle fuel mx s =
     (if mx < 1 then Some (s, Inl (ContractError ''max_steps must be a positive integer''))
      else run_loop fuel mx s 0)"

section \<open>The invariant\<close>

definition sched_ok :: "scheduler \<Rightarrow> bool" where
  "sched_ok s = (distinct (round_order s) \<and> set (round_order s) = fst ` set (queues s)
     \<and> (\<forall>t. 1 \<le> quota_of s t) \<and> (\<forall>t. 0 \<le> deficit_of s t)
     \<and> (\<forall>t. \<forall>j\<in>set (queue_of s t). j_tenant j = t \<and> 1 \<le> j_cost j)
     \<and> (\<forall>t. queue_of s t \<noteq> [] \<longrightarrow> deficit_of s t < j_cost (hd (queue_of s t)))
     \<and> (\<forall>t. queue_of s t = [] \<longrightarrow> deficit_of s t = 0))"

lemma sched_views [simp]:
  "queue_of (s\<lparr>quotas := x\<rparr>) = queue_of s" "queue_of (s\<lparr>round_order := r\<rparr>) = queue_of s"
  "queue_of (s\<lparr>deficits := d\<rparr>) = queue_of s" "queue_of (s\<lparr>completed := c\<rparr>) = queue_of s"
  "deficit_of (s\<lparr>quotas := x\<rparr>) = deficit_of s" "deficit_of (s\<lparr>round_order := r\<rparr>) = deficit_of s"
  "deficit_of (s\<lparr>queues := q\<rparr>) = deficit_of s" "deficit_of (s\<lparr>completed := c\<rparr>) = deficit_of s"
  "quota_of (s\<lparr>deficits := d\<rparr>) = quota_of s" "quota_of (s\<lparr>round_order := r\<rparr>) = quota_of s"
  "quota_of (s\<lparr>queues := q\<rparr>) = quota_of s" "quota_of (s\<lparr>completed := c\<rparr>) = quota_of s"
  by (simp_all add: queue_of_def deficit_of_def quota_of_def fun_eq_iff)

lemma sched_updates [simp]:
  "queue_of (s\<lparr>queues := AList.update t q (queues s)\<rparr>) = (queue_of s)(t := q)"
  "deficit_of (s\<lparr>deficits := AList.update t d (deficits s)\<rparr>) = (deficit_of s)(t := d)"
  "quota_of (s\<lparr>quotas := AList.update t n (quotas s)\<rparr>) = (quota_of s)(t := n)"
  by (simp_all add: queue_of_def deficit_of_def quota_of_def fun_eq_iff)

lemma mk_scheduler_ok: "mk_scheduler w qs = Inr s \<Longrightarrow> sched_ok s"
  by (fastforce simp: mk_scheduler_def result_simps sched_ok_def queue_of_def deficit_of_def quota_of_def
      split: option.splits dest: map_of_SomeD)

lemma set_quota_ok: "sched_ok s \<Longrightarrow> set_quota s t q = Inr s' \<Longrightarrow> sched_ok s'"
  by (clarsimp simp: set_quota_def result_simps sched_ok_def)

lemma queue_of_outside: "t \<notin> fst ` set (queues s) \<Longrightarrow> queue_of s t = []"
  by (auto simp: queue_of_def split: option.splits dest: map_of_SomeD intro: rev_image_eqI)

text \<open>\<open>submit\<close> in two steps: the tenant is entered, then the job is queued.\<close>

definition enter :: "scheduler \<Rightarrow> string \<Rightarrow> scheduler" where
  "enter s t = (if t \<in> fst ` set (queues s) then s
     else s\<lparr>queues := queues s @ [(t, [])], deficits := AList.update t 0 (deficits s), round_order := round_order s @ [t],
            quotas := (if t \<in> fst ` set (quotas s) then quotas s else quotas s @ [(t, 1)])\<rparr>)"

lemma submit_enter:
  "submit s j = (enter s (j_tenant j))\<lparr>queues := AList.update (j_tenant j) (queue_of (enter s (j_tenant j)) (j_tenant j) @ [j])
     (queues (enter s (j_tenant j)))\<rparr>"
  by (simp add: submit_def enter_def Let_def)

lemma enter_views:
  "queue_of (enter s t) = queue_of s" "quota_of (enter s t) = quota_of s"
  "deficit_of (enter s t) = (if t \<in> fst ` set (queues s) then deficit_of s else (deficit_of s)(t := 0))"
  "t \<in> fst ` set (queues (enter s t))"
  by (auto simp: enter_def queue_of_def quota_of_def deficit_of_def map_of_append map_add_def fun_eq_iff split: option.splits
      dest: map_of_SomeD intro: rev_image_eqI)

lemma enter_ok: "sched_ok s \<Longrightarrow> sched_ok (enter s t)"
  using queue_of_outside [of t s] by (simp add: sched_ok_def enter_views) (auto simp: enter_def)

lemma submit_ok: "sched_ok s \<Longrightarrow> 1 \<le> j_cost j \<Longrightarrow> sched_ok (submit s j)"
  using enter_ok [of s "j_tenant j"] enter_views(4) [of "j_tenant j" s]
  by (simp add: submit_enter sched_ok_def dom_update hd_append insert_absorb)

section \<open>A round\<close>

definition costs :: "job list \<Rightarrow> int" where
  "costs js = sum_list (map j_cost js)"

lemma costs_simps [simp]: "costs [] = 0" "costs (j # js) = j_cost j + costs js" "costs (xs @ ys) = costs xs + costs ys"
  by (simp_all add: costs_def)

lemma serve_spec:
  assumes "serve mx q d steps = (ds, q', d', steps')"
  shows "q = ds @ q'" "d' = d - costs ds" "steps' = steps + int (length ds)"
    "steps' < mx \<Longrightarrow> q' \<noteq> [] \<Longrightarrow> d' < j_cost (hd q')" "steps \<le> mx \<Longrightarrow> steps' \<le> mx" "0 \<le> d \<Longrightarrow> 0 \<le> d'"
  using assms by (induction mx q d steps arbitrary: ds q' d' steps' rule: serve.induct) (auto split: if_splits prod.splits)

text \<open>What one visit does, read through the views.\<close>

lemma visit_tenant_spec:
  assumes "visit_tenant mx t (s, steps, p) = (s', steps', p')"
  obtains ds q d where "queue_of s t = ds @ q" "queue_of s' = (queue_of s)(t := q)" "deficit_of s' = (deficit_of s)(t := d)"
    "quota_of s' = quota_of s" "round_order s' = round_order s" "completed s' = completed s @ ds"
    "steps' = steps + int (length ds)" "p' \<longleftrightarrow> p \<or> ds \<noteq> []" "steps \<le> mx \<longrightarrow> steps' \<le> mx"
    "fst ` set (queues s') = fst ` set (queues s) \<union> (if queue_of s t = [] then {} else {t})"
    "queue_of s t = [] \<longrightarrow> d = deficit_of s t"
    "queue_of s t \<noteq> [] \<longrightarrow> q = [] \<longrightarrow> d = 0"
    "q \<noteq> [] \<longrightarrow> d = deficit_of s t + quota_of s t - costs ds \<and> (steps' < mx \<longrightarrow> d < j_cost (hd q))
       \<and> (0 \<le> deficit_of s t + quota_of s t \<longrightarrow> 0 \<le> d)"
proof (cases "queue_of s t = []")
  case True
  with assms have "s' = s" "steps' = steps" "p' = p" by (simp_all add: visit_tenant_def)
  with True show thesis by (intro that [of "[]" "[]" "deficit_of s t"]) auto
next
  case False
  obtain ds q d st where sv: "serve mx (queue_of s t) (deficit_of s t + quota_of s t) steps = (ds, q, d, st)"
    by (cases "serve mx (queue_of s t) (deficit_of s t + quota_of s t) steps") auto
  with False assms have s': "s' = s\<lparr>queues := AList.update t q (queues s),
      deficits := AList.update t (if q = [] then 0 else d) (deficits s), completed := completed s @ ds\<rparr>"
    "steps' = st" "p' \<longleftrightarrow> p \<or> ds \<noteq> []"
    by (auto simp: visit_tenant_def)
  have v: "queue_of s' = (queue_of s)(t := q)" "deficit_of s' = (deficit_of s)(t := if q = [] then 0 else d)"
    "quota_of s' = quota_of s" "round_order s' = round_order s" "completed s' = completed s @ ds"
    "fst ` set (queues s') = insert t (fst ` set (queues s))"
    by (simp_all add: s'(1) queue_of_def deficit_of_def quota_of_def fun_eq_iff dom_update)
  show thesis
    by (rule that [of ds q "if q = [] then 0 else d"]) (use serve_spec [OF sv] s'(2,3) v False in auto)
qed

lemma visit_tenant_round_order:
  "visit_tenant mx t (s\<lparr>round_order := r\<rparr>, steps, p) =
     (case visit_tenant mx t (s, steps, p) of (s', steps', p') \<Rightarrow> (s'\<lparr>round_order := r\<rparr>, steps', p'))"
  by (simp add: visit_tenant_def split: prod.splits)

lemma visits_fold:
  assumes "round_order s = xs @ ys"
  shows "(visit mx ^^ length xs) (s, steps, p) =
    (case fold (visit_tenant mx) xs (s, steps, p) of (s', steps', p') \<Rightarrow> (s'\<lparr>round_order := ys @ xs\<rparr>, steps', p'))"
  using assms
proof (induction xs arbitrary: s steps p ys)
  case Nil
  then show ?case by (simp add: prod_eq_iff)
next
  case (Cons t xs)
  obtain s1 st1 p1 where v: "visit_tenant mx t (s, steps, p) = (s1, st1, p1)" by (cases "visit_tenant mx t (s, steps, p)")
  have "visit mx (s, steps, p) = (s1\<lparr>round_order := xs @ ys @ [t]\<rparr>, st1, p1)"
    using Cons.prems v by (simp add: visit_def visit_tenant_round_order)
  moreover have "fold (visit_tenant mx) ts (u\<lparr>round_order := r\<rparr>, a, b) =
      (case fold (visit_tenant mx) ts (u, a, b) of (s', steps', p') \<Rightarrow> (s'\<lparr>round_order := r\<rparr>, steps', p'))" for ts u r a b
    by (induction ts arbitrary: u a b) (auto simp: visit_tenant_round_order split: prod.splits)
  ultimately show ?case
    using Cons.IH [of "s1\<lparr>round_order := xs @ ys @ [t]\<rparr>" "ys @ [t]" st1 p1] v
    by (simp add: funpow_Suc_right del: funpow.simps split: prod.splits)
qed

lemma fold_visit_round_order: "fold (visit_tenant mx) ts (s, steps, p) = (s', steps', p') \<Longrightarrow> round_order s' = round_order s"
proof (induction ts arbitrary: s steps p)
  case (Cons t ts)
  obtain s1 st1 p1 where v: "visit_tenant mx t (s, steps, p) = (s1, st1, p1)" by (cases "visit_tenant mx t (s, steps, p)")
  have "round_order s1 = round_order s" using v by (rule visit_tenant_spec)
  with Cons v show ?case by simp
qed simp

text \<open>A round visits every tenant once, in the round order, and leaves the order as it was.\<close>

lemma one_round_fold: "one_round mx s steps = fold (visit_tenant mx) (round_order s) (s, steps, False)"
proof -
  obtain s' st' p' where f: "fold (visit_tenant mx) (round_order s) (s, steps, False) = (s', st', p')"
    by (cases "fold (visit_tenant mx) (round_order s) (s, steps, False)")
  have "s'\<lparr>round_order := round_order s\<rparr> = s'" using fold_visit_round_order [OF f] by simp
  then show ?thesis using visits_fold [of s "round_order s" "[]" mx steps False] f by (simp add: one_round_def)
qed

text \<open>The effect of visiting the tenants \<open>ts\<close>.\<close>

definition advanced :: "int \<Rightarrow> string set \<Rightarrow> scheduler \<Rightarrow> int \<Rightarrow> scheduler \<Rightarrow> int \<Rightarrow> job list \<Rightarrow> bool" where
  "advanced mx T s steps s' steps' ds =
     (completed s' = completed s @ ds \<and> steps' = steps + int (length ds) \<and> (steps \<le> mx \<longrightarrow> steps' \<le> mx)
      \<and> quota_of s' = quota_of s \<and> round_order s' = round_order s \<and> fst ` set (queues s') = fst ` set (queues s)
      \<and> int (length ds) = (\<Sum>t\<in>set (round_order s). int (length (queue_of s t)) - int (length (queue_of s' t)))
      \<and> (\<forall>t. queue_of s t = filter (\<lambda>j. j_tenant j = t) ds @ queue_of s' t)
      \<and> (\<forall>t. t \<notin> T \<or> queue_of s t = [] \<longrightarrow> queue_of s' t = queue_of s t \<and> deficit_of s' t = deficit_of s t)
      \<and> (\<forall>t\<in>T. queue_of s t \<noteq> [] \<longrightarrow> queue_of s' t = [] \<longrightarrow> deficit_of s' t = 0)
      \<and> (\<forall>t\<in>T. queue_of s' t \<noteq> [] \<longrightarrow> 0 \<le> deficit_of s' t
           \<and> deficit_of s' t = deficit_of s t + quota_of s t - costs (filter (\<lambda>j. j_tenant j = t) ds)
           \<and> (steps' < mx \<longrightarrow> deficit_of s' t < j_cost (hd (queue_of s' t)))))"

lemma advancedD:
  assumes "advanced mx T s steps s' steps' ds"
  shows "completed s' = completed s @ ds" "steps' = steps + int (length ds)" "steps \<le> mx \<Longrightarrow> steps' \<le> mx"
    "quota_of s' = quota_of s" "round_order s' = round_order s" "fst ` set (queues s') = fst ` set (queues s)"
    "int (length ds) = (\<Sum>t\<in>set (round_order s). int (length (queue_of s t)) - int (length (queue_of s' t)))"
    "queue_of s t = filter (\<lambda>j. j_tenant j = t) ds @ queue_of s' t"
    "t \<notin> T \<or> queue_of s t = [] \<Longrightarrow> queue_of s' t = queue_of s t" "t \<notin> T \<or> queue_of s t = [] \<Longrightarrow> deficit_of s' t = deficit_of s t"
    "t \<in> T \<Longrightarrow> queue_of s t \<noteq> [] \<Longrightarrow> queue_of s' t = [] \<Longrightarrow> deficit_of s' t = 0"
    "t \<in> T \<Longrightarrow> queue_of s' t \<noteq> [] \<Longrightarrow> 0 \<le> deficit_of s' t"
    "t \<in> T \<Longrightarrow> queue_of s' t \<noteq> [] \<Longrightarrow> deficit_of s' t = deficit_of s t + quota_of s t - costs (filter (\<lambda>j. j_tenant j = t) ds)"
    "t \<in> T \<Longrightarrow> queue_of s' t \<noteq> [] \<Longrightarrow> steps' < mx \<Longrightarrow> deficit_of s' t < j_cost (hd (queue_of s' t))"
  using assms unfolding advanced_def by blast+

definition jobs_ok :: "scheduler \<Rightarrow> bool" where
  "jobs_ok s = ((\<forall>t. \<forall>j\<in>set (queue_of s t). j_tenant j = t) \<and> (\<forall>t. 0 \<le> deficit_of s t) \<and> (\<forall>t. 0 \<le> quota_of s t)
     \<and> set (round_order s) = fst ` set (queues s))"

lemma sched_ok_jobs_ok: "sched_ok s \<Longrightarrow> jobs_ok s"
  by (auto simp: sched_ok_def jobs_ok_def intro: order_trans [of 0 1])

lemma advanced_visit:
  assumes "visit_tenant mx t (s, steps, p) = (s', steps', p')" and ok: "jobs_ok s" and t: "t \<in> set (round_order s)"
  shows "\<exists>ds. advanced mx {t} s steps s' steps' ds \<and> (p' \<longleftrightarrow> p \<or> ds \<noteq> [])" and "jobs_ok s'"
proof -
  obtain ds q d where v: "queue_of s t = ds @ q" "queue_of s' = (queue_of s)(t := q)" "deficit_of s' = (deficit_of s)(t := d)"
    "quota_of s' = quota_of s" "round_order s' = round_order s" "completed s' = completed s @ ds"
    "steps' = steps + int (length ds)" "p' \<longleftrightarrow> p \<or> ds \<noteq> []" "steps \<le> mx \<longrightarrow> steps' \<le> mx"
    and k: "fst ` set (queues s') = fst ` set (queues s) \<union> (if queue_of s t = [] then {} else {t})"
    and d: "queue_of s t = [] \<longrightarrow> d = deficit_of s t" "queue_of s t \<noteq> [] \<longrightarrow> q = [] \<longrightarrow> d = 0"
      "q \<noteq> [] \<longrightarrow> d = deficit_of s t + quota_of s t - costs ds \<and> (steps' < mx \<longrightarrow> d < j_cost (hd q))
       \<and> (0 \<le> deficit_of s t + quota_of s t \<longrightarrow> 0 \<le> d)"
    using assms(1) by (rule visit_tenant_spec)
  have k': "fst ` set (queues s') = fst ` set (queues s)" using k ok t by (auto simp: jobs_ok_def)
  have nn: "0 \<le> deficit_of s t" "0 \<le> deficit_of s t + quota_of s t" using ok by (simp_all add: jobs_ok_def)
  have own: "filter (\<lambda>j. j_tenant j = u) ds = (if u = t then ds else [])" for u
    using ok v(1) by (auto simp: jobs_ok_def filter_id_conv filter_empty_conv)
  have "(\<Sum>u\<in>set (round_order s). int (length (queue_of s u)) - int (length (queue_of s' u)))
      = (\<Sum>u\<in>set (round_order s). if u = t then int (length ds) else 0)"
    by (rule sum.cong) (auto simp: v(1,2))
  then have "int (length ds) = (\<Sum>u\<in>set (round_order s). int (length (queue_of s u)) - int (length (queue_of s' u)))"
    using t by simp
  then have "advanced mx {t} s steps s' steps' ds"
    unfolding advanced_def using v k' own d nn by auto
  with v(8) show "\<exists>ds. advanced mx {t} s steps s' steps' ds \<and> (p' \<longleftrightarrow> p \<or> ds \<noteq> [])" by blast
  have "0 \<le> d" using d nn by (cases "q = []") auto
  then show "jobs_ok s'" using ok v k' by (auto simp: jobs_ok_def)
qed

lemma advanced_trans:
  assumes "advanced mx A s steps s1 st1 ds" and "advanced mx B s1 st1 s2 st2 es" and "A \<inter> B = {}"
  shows "advanced mx (A \<union> B) s steps s2 st2 (ds @ es)"
proof -
  note a = assms(1) [unfolded advanced_def] and b = assms(2) [unfolded advanced_def]
  have A: "queue_of s2 t = queue_of s1 t \<and> deficit_of s2 t = deficit_of s1 t \<and> filter (\<lambda>j. j_tenant j = t) es = []"
    if "t \<in> A" for t
    using that b assms(3) by (metis IntI append_self_conv2 empty_iff)
  have B: "queue_of s1 t = queue_of s t \<and> deficit_of s1 t = deficit_of s t \<and> filter (\<lambda>j. j_tenant j = t) ds = []"
    if "t \<in> B" for t
    using that a assms(3) by (metis IntI append_self_conv2 empty_iff)
  have q: "queue_of s t = filter (\<lambda>j. j_tenant j = t) (ds @ es) @ queue_of s2 t" for t
  proof -
    have "queue_of s t = filter (\<lambda>j. j_tenant j = t) ds @ queue_of s1 t" "queue_of s1 t = filter (\<lambda>j. j_tenant j = t) es @ queue_of s2 t"
      using a b by blast+
    then show ?thesis by simp
  qed
  have "(\<Sum>t\<in>set (round_order s). int (length (queue_of s t)) - int (length (queue_of s2 t))) =
      (\<Sum>t\<in>set (round_order s). (int (length (queue_of s t)) - int (length (queue_of s1 t))) + (int (length (queue_of s1 t)) - int (length (queue_of s2 t))))"
    by (rule sum.cong) simp_all
  also have "\<dots> = int (length ds) + int (length es)"
    unfolding sum.distrib using advancedD(7) [OF assms(1)] advancedD(7) [OF assms(2)] advancedD(5) [OF assms(1)] by simp
  also have "\<dots> = int (length (ds @ es))" by simp
  finally have l: "int (length (ds @ es)) = (\<Sum>t\<in>set (round_order s). int (length (queue_of s t)) - int (length (queue_of s2 t)))" ..
  have st: "st1 \<le> st2" using advancedD(2) [OF assms(2)] by simp
  have out: "\<forall>t. t \<notin> A \<union> B \<or> queue_of s t = [] \<longrightarrow> queue_of s2 t = queue_of s t \<and> deficit_of s2 t = deficit_of s t"
    using a b by (metis UnCI)
  have e: "\<forall>t\<in>A \<union> B. queue_of s t \<noteq> [] \<longrightarrow> queue_of s2 t = [] \<longrightarrow> deficit_of s2 t = 0"
    using a b A B by (metis UnE)
  have "\<forall>t\<in>A \<union> B. queue_of s2 t \<noteq> [] \<longrightarrow> 0 \<le> deficit_of s2 t
      \<and> deficit_of s2 t = deficit_of s t + quota_of s t - costs (filter (\<lambda>j. j_tenant j = t) (ds @ es))
      \<and> (st2 < mx \<longrightarrow> deficit_of s2 t < j_cost (hd (queue_of s2 t)))"
  proof (intro ballI impI)
    fix t
    assume "t \<in> A \<union> B" and ne: "queue_of s2 t \<noteq> []"
    then consider "t \<in> A" | "t \<in> B" by blast
    then show "0 \<le> deficit_of s2 t \<and> deficit_of s2 t = deficit_of s t + quota_of s t - costs (filter (\<lambda>j. j_tenant j = t) (ds @ es))
      \<and> (st2 < mx \<longrightarrow> deficit_of s2 t < j_cost (hd (queue_of s2 t)))"
    proof cases
      case 1
      with advancedD(12-14) [OF assms(1) 1] A [OF 1] ne st show ?thesis by simp
    next
      case 2
      with advancedD(12-14) [OF assms(2) 2] B [OF 2] advancedD(4) [OF assms(1)] ne show ?thesis by simp
    qed
  qed
  moreover have "steps \<le> mx \<longrightarrow> st2 \<le> mx" using advancedD(3) [OF assms(1)] advancedD(3) [OF assms(2)] by blast
  moreover have "completed s2 = completed s @ ds @ es" "st2 = steps + int (length (ds @ es))" "quota_of s2 = quota_of s"
    "round_order s2 = round_order s" "fst ` set (queues s2) = fst ` set (queues s)"
    using advancedD(1,2,4-6) [OF assms(1)] advancedD(1,2,4-6) [OF assms(2)] by simp_all
  ultimately show ?thesis unfolding advanced_def using q l out e by blast
qed

lemma advanced_refl: "advanced mx {} s steps s steps []"
  by (simp add: advanced_def)

lemma fold_visit_advanced:
  assumes "fold (visit_tenant mx) ts (s, steps, p) = (s', steps', p')" and "distinct ts" and "set ts \<subseteq> set (round_order s)" and "jobs_ok s"
  shows "\<exists>ds. advanced mx (set ts) s steps s' steps' ds \<and> (p' \<longleftrightarrow> p \<or> ds \<noteq> [])"
  using assms
proof (induction ts arbitrary: s steps p)
  case Nil
  then show ?case using advanced_refl by fastforce
next
  case (Cons t ts)
  obtain s1 st1 p1 where v: "visit_tenant mx t (s, steps, p) = (s1, st1, p1)" by (cases "visit_tenant mx t (s, steps, p)")
  have t: "t \<in> set (round_order s)" using Cons.prems by simp
  from advanced_visit [OF v Cons.prems(4) t] obtain ds where a: "advanced mx {t} s steps s1 st1 ds" "p1 \<longleftrightarrow> p \<or> ds \<noteq> []" and ok: "jobs_ok s1" by blast
  have "round_order s1 = round_order s" using a(1) by (simp add: advanced_def)
  with Cons.IH [of s1 st1 p1] Cons.prems v ok obtain es where b: "advanced mx (set ts) s1 st1 s' steps' es" "p' \<longleftrightarrow> p1 \<or> es \<noteq> []"
    by auto
  have "advanced mx ({t} \<union> set ts) s steps s' steps' (ds @ es)" using Cons.prems(2) by (intro advanced_trans [OF a(1) b(1)]) simp
  then show ?case using a(2) b(2) by (intro exI [of _ "ds @ es"]) auto
qed

lemma one_round_advanced:
  assumes "one_round mx s steps = (s', steps', p)" and "sched_ok s"
  obtains ds where "advanced mx (set (round_order s)) s steps s' steps' ds" "p \<longleftrightarrow> ds \<noteq> []"
  using fold_visit_advanced [of mx "round_order s" s steps False s' steps' p] assms sched_ok_jobs_ok [OF assms(2)]
  by (auto simp: one_round_fold sched_ok_def)

section \<open>The whole loop\<close>

definition need :: "scheduler \<Rightarrow> nat" where
  "need s = (\<Sum>t\<in>set (round_order s). nat (costs (queue_of s t) - deficit_of s t))"

definition backlog :: "scheduler \<Rightarrow> int" where
  "backlog s = (\<Sum>t\<in>set (round_order s). int (length (queue_of s t)))"

lemma idle_backlog: "idle s \<longleftrightarrow> backlog s \<le> 0"
proof -
  have "backlog s \<le> 0 \<longleftrightarrow> backlog s = 0" by (simp add: backlog_def sum_nonneg order_antisym_conv)
  then show ?thesis by (simp add: idle_def backlog_def list_all_iff sum_nonneg_eq_0_iff)
qed

lemma advanced_backlog: "advanced mx T s steps s' steps' ds \<Longrightarrow> backlog s = backlog s' + int (length ds)"
  by (simp add: advanced_def backlog_def sum_subtractf)

lemma advanced_ok:
  assumes a: "advanced mx (set (round_order s)) s steps s' steps' ds" and ok: "sched_ok s" and "steps' < mx \<or> idle s'"
  shows "sched_ok s'"
proof -
  have q: "set (queue_of s' t) \<subseteq> set (queue_of s t)" for t using a by (metis Un_upper2 advanced_def set_append)
  have out: "queue_of s t = []" "queue_of s' t = []" if "t \<notin> set (round_order s)" for t
    using that ok queue_of_outside advancedD(6) [OF a] by (auto simp: sched_ok_def)
  have d: "0 \<le> deficit_of s' t \<and> (queue_of s' t = [] \<longrightarrow> deficit_of s' t = 0)" for t
  proof (cases "t \<in> set (round_order s) \<and> queue_of s t \<noteq> []")
    case True
    with advancedD(11,12) [OF a] show ?thesis by (cases "queue_of s' t = []") simp_all
  next
    case False
    then have "queue_of s' t = queue_of s t" "deficit_of s' t = deficit_of s t" using advancedD(9,10) [OF a] by blast+
    with ok show ?thesis by (simp add: sched_ok_def)
  qed
  have "queue_of s' t \<noteq> [] \<longrightarrow> deficit_of s' t < j_cost (hd (queue_of s' t))" for t
    using advancedD(5,14) [OF a] assms(3) out [of t] by (cases "t \<in> set (round_order s)") (auto simp: idle_def list_all_iff)
  moreover have "\<forall>t. \<forall>j\<in>set (queue_of s' t). j_tenant j = t \<and> 1 \<le> j_cost j" using ok q by (meson sched_ok_def subsetD)
  ultimately show ?thesis using ok d advancedD(4-6) [OF a] by (simp add: sched_ok_def)
qed

lemma advanced_need:
  assumes a: "advanced mx (set (round_order s)) s steps s' steps' ds" and ok: "sched_ok s" and "\<not> idle s"
  shows "need s' < need s"
proof -
  have pos: "costs js \<ge> 0" if "\<forall>j\<in>set js. 1 \<le> j_cost j" for js
    using that by (induction js) auto
  have lt: "deficit_of s t < costs (queue_of s t)" if ne: "queue_of s t \<noteq> []" for t
  proof -
    obtain j js where js: "queue_of s t = j # js" using ne by (cases "queue_of s t") auto
    then have "0 \<le> costs js" using ok by (intro pos) (metis list.set_intros(2) sched_ok_def)
    moreover have "deficit_of s t < j_cost j" using ok js by (metis list.sel(1) list.simps(3) sched_ok_def)
    ultimately show ?thesis using js by simp
  qed
  have step: "nat (costs (queue_of s' t) - deficit_of s' t) < nat (costs (queue_of s t) - deficit_of s t)"
    if "t \<in> set (round_order s)" "queue_of s t \<noteq> []" for t
  proof (cases "queue_of s' t = []")
    case True
    with advancedD(11) [OF a that] lt [OF that(2)] show ?thesis by simp
  next
    case False
    have "costs (queue_of s t) = costs (filter (\<lambda>j. j_tenant j = t) ds) + costs (queue_of s' t)"
      by (subst advancedD(8) [OF a, of t]) simp
    moreover have "deficit_of s' t = deficit_of s t + quota_of s t - costs (filter (\<lambda>j. j_tenant j = t) ds)"
      using advancedD(13) [OF a that(1) False] .
    moreover have "1 \<le> quota_of s t" using ok by (simp add: sched_ok_def)
    ultimately show ?thesis using lt [OF that(2)] by simp
  qed
  obtain t where t: "t \<in> set (round_order s)" "queue_of s t \<noteq> []" using assms(3) by (auto simp: idle_def list_all_iff)
  have "nat (costs (queue_of s' u) - deficit_of s' u) \<le> nat (costs (queue_of s u) - deficit_of s u)"
    if "u \<in> set (round_order s)" for u
    using step [OF that] advancedD(9,10) [OF a, of u] by (cases "queue_of s u = []") auto
  moreover have "round_order s' = round_order s" using advancedD(5) [OF a] .
  ultimately show ?thesis unfolding need_def using step [OF t] t(1) by (auto intro!: sum_strict_mono_ex1)
qed

text \<open>When the step limit is reached, a round serves nothing.\<close>

lemma one_round_stuck:
  assumes "mx \<le> steps"
  shows "\<exists>s'. one_round mx s steps = (s', steps, False)"
proof -
  have "serve mx q d steps = ([], q, d, steps)" for q d using assms by (cases q) simp_all
  then have v: "\<exists>s'. visit_tenant mx t (s, steps, False) = (s', steps, False)" for t s by (simp add: visit_tenant_def)
  have "\<exists>s'. fold (visit_tenant mx) ts (s, steps, False) = (s', steps, False)" for ts s
    by (induction ts arbitrary: s) (simp, metis fold_simps(2) v)
  then show ?thesis by (simp add: one_round_fold)
qed

definition drained :: "scheduler \<Rightarrow> scheduler \<Rightarrow> bool" where
  "drained s s' = (idle s' \<and> sched_ok s' \<and> int (length (completed s')) = int (length (completed s)) + backlog s
     \<and> (\<forall>t. filter (\<lambda>j. j_tenant j = t) (completed s') = filter (\<lambda>j. j_tenant j = t) (completed s) @ queue_of s t))"

lemma idle_queues: "sched_ok s \<Longrightarrow> idle s \<Longrightarrow> queue_of s t = []"
  using queue_of_outside [of t s] by (auto simp: sched_ok_def idle_def list_all_iff)

lemma drained_idle: "sched_ok s \<Longrightarrow> idle s \<Longrightarrow> drained s s"
  by (simp add: drained_def idle_queues backlog_def)

lemma drained_advanced:
  assumes "advanced mx T s steps s1 st1 ds" and "drained s1 s2"
  shows "drained s s2"
  using assms(2) advanced_backlog [OF assms(1)] advancedD(1) [OF assms(1)] advancedD(8) [OF assms(1)] by (simp add: drained_def)

lemma run_loop_result:
  assumes "sched_ok s" and "steps \<le> mx" and "need s + 2 \<le> fuel"
  shows "\<exists>s'. if steps + backlog s \<le> mx then run_loop fuel mx s steps = Some (s', Inr (completed s')) \<and> drained s s'
    else run_loop fuel mx s steps = Some (s', Inl (ContractError ''scheduler exceeded max_steps''))"
  using assms
proof (induction fuel arbitrary: s steps)
  case 0
  then show ?case by simp
next
  case (Suc fuel)
  show ?case
  proof (cases "idle s")
    case True
    with Suc.prems show ?thesis using idle_backlog [of s] drained_idle by (intro exI [of _ s]) auto
  next
    case False
    obtain s1 st1 p where r: "one_round mx s steps = (s1, st1, p)" by (cases "one_round mx s steps")
    obtain ds where a: "advanced mx (set (round_order s)) s steps s1 st1 ds" "p \<longleftrightarrow> ds \<noteq> []"
      using r Suc.prems(1) by (rule one_round_advanced)
    have b: "steps + backlog s = st1 + backlog s1" using advanced_backlog [OF a(1)] advancedD(2) [OF a(1)] by simp
    have st: "st1 \<le> mx" using advancedD(3) [OF a(1) Suc.prems(2)] .
    have n: "need s1 < need s" using advanced_need [OF a(1) Suc.prems(1) False] .
    have l: "run_loop (Suc fuel) mx s steps = (if \<not> p \<and> st1 \<ge> mx then Some (s1, Inl (ContractError ''scheduler exceeded max_steps''))
        else run_loop fuel mx s1 st1)" using False r by simp
    consider "st1 < mx" | "st1 = mx" "\<not> p" | "st1 = mx" p "idle s1" | "st1 = mx" p "\<not> idle s1" using st by linarith
    then show ?thesis
    proof cases
      case 1
      have ok1: "sched_ok s1" using advanced_ok [OF a(1) Suc.prems(1)] 1 by blast
      have "run_loop (Suc fuel) mx s steps = run_loop fuel mx s1 st1" using l 1 by simp
      moreover have "need s1 + 2 \<le> fuel" using n Suc.prems(3) by linarith
      ultimately show ?thesis using Suc.IH [OF ok1 st] drained_advanced [OF a(1)] b by (auto split: if_splits)
    next
      case 2
      then have "steps = mx" using a advancedD(2) [OF a(1)] by simp
      then show ?thesis using l 2 False idle_backlog [of s] by auto
    next
      case 3
      have "sched_ok s1" using advanced_ok [OF a(1) Suc.prems(1)] 3 by blast
      then have "drained s s1" using drained_advanced [OF a(1) drained_idle] 3 by blast
      moreover obtain fuel' where "fuel = Suc fuel'" using n Suc.prems(3) by (cases fuel) auto
      ultimately show ?thesis using l 3 b idle_backlog [of s1] by (intro exI [of _ s1]) simp
    next
      case 4
      obtain fuel' where f: "fuel = Suc fuel'" using n Suc.prems(3) by (cases fuel) auto
      obtain s2 where "one_round mx s1 mx = (s2, mx, False)" using one_round_stuck by blast
      then show ?thesis using l 4 f b idle_backlog [of s1] by (intro exI [of _ s2]) simp
    qed
  qed
qed

section \<open>Fair share\<close>

fun rounds :: "nat \<Rightarrow> int \<Rightarrow> scheduler \<Rightarrow> int \<Rightarrow> scheduler \<times> int" where
  "rounds 0 mx s steps = (s, steps)"
| "rounds (Suc k) mx s steps = (case one_round mx s steps of (s', steps', _) \<Rightarrow> rounds k mx s' steps')"

lemma fold_visit_mono: "fold (visit_tenant mx) ts (s, st, p) = (s', st', p') \<Longrightarrow> st \<le> st'"
proof (induction ts arbitrary: s st p)
  case (Cons t ts)
  obtain s1 st1 p1 where v: "visit_tenant mx t (s, st, p) = (s1, st1, p1)" by (cases "visit_tenant mx t (s, st, p)")
  have "st \<le> st1" using v by (rule visit_tenant_spec) auto
  also have "st1 \<le> st'" using Cons.IH [of s1 st1 p1] Cons.prems v by simp
  finally show ?case .
qed simp

lemma rounds_mono: "rounds k mx s st = (s', st') \<Longrightarrow> st \<le> st'"
proof (induction k arbitrary: s st)
  case (Suc k)
  obtain s1 st1 p where r: "one_round mx s st = (s1, st1, p)" by (cases "one_round mx s st")
  have "st \<le> st1" using r fold_visit_mono unfolding one_round_fold by blast
  also have "st1 \<le> st'" using Suc.IH [of s1 st1] Suc.prems r by simp
  finally show ?case .
qed simp

lemma rounds_fair:
  assumes "sched_ok s" and "rounds k mx s steps = (s', steps')" and "steps' < mx" and "queue_of s' t \<noteq> []"
  shows "\<exists>ds. completed s' = completed s @ ds \<and> steps \<le> steps' \<and> sched_ok s' \<and> quota_of s' = quota_of s \<and> queue_of s t \<noteq> []
    \<and> costs (filter (\<lambda>j. j_tenant j = t) ds) = deficit_of s t + int k * quota_of s t - deficit_of s' t"
  using assms
proof (induction k arbitrary: s steps)
  case 0
  then show ?case by auto
next
  case (Suc k)
  obtain s1 st1 p where r: "one_round mx s steps = (s1, st1, p)" by (cases "one_round mx s steps")
  obtain ds where a: "advanced mx (set (round_order s)) s steps s1 st1 ds"
    using r Suc.prems(1) by (rule one_round_advanced)
  have k: "rounds k mx s1 st1 = (s', steps')" using Suc.prems(2) r by simp
  have "st1 < mx" using rounds_mono [OF k] Suc.prems(3) by linarith
  then have ok: "sched_ok s1" using advanced_ok [OF a Suc.prems(1)] by blast
  obtain es where es: "completed s' = completed s1 @ es" "st1 \<le> steps'" "sched_ok s'" "quota_of s' = quota_of s1" "queue_of s1 t \<noteq> []"
    "costs (filter (\<lambda>j. j_tenant j = t) es) = deficit_of s1 t + int k * quota_of s1 t - deficit_of s' t"
    using Suc.IH [OF ok k Suc.prems(3,4)] by blast
  have ne: "queue_of s t \<noteq> []" using advancedD(8) [OF a, of t] es(5) by simp
  have t: "t \<in> set (round_order s)" using ne queue_of_outside [of t s] Suc.prems(1) by (auto simp: sched_ok_def)
  show ?case
    using es advancedD(1,2,4) [OF a] advancedD(13) [OF a t es(5)] ne by (intro exI [of _ "ds @ es"]) (simp add: algebra_simps)
qed

section \<open>Properties\<close>

text \<open>C30. The scheduling loop always ends, and every backlog within the step limit is worked off: with
  positive quotas, a run of a well-formed scheduler returns exactly when the number of queued jobs
  does not exceed the step limit. It then leaves every queue empty, has run each queued job once,
  and has run the jobs of each tenant in the order they were submitted. Beyond the limit it raises
  an error. No tenant can therefore be starved by the others.\<close>

theorem run_until_idle_completes:
  assumes "sched_ok s" and "1 \<le> mx" and "need s + 2 \<le> fuel"
  shows "(backlog s \<le> mx \<longrightarrow> (\<exists>s'. run_until_idle fuel mx s = Some (s', Inr (completed s'))
      \<and> (\<forall>t. queue_of s' t = []) \<and> int (length (completed s')) = int (length (completed s)) + backlog s
      \<and> (\<forall>t. filter (\<lambda>j. j_tenant j = t) (completed s') = filter (\<lambda>j. j_tenant j = t) (completed s) @ queue_of s t)))
    \<and> (mx < backlog s \<longrightarrow>
      (\<exists>s'. run_until_idle fuel mx s = Some (s', Inl (ContractError ''scheduler exceeded max_steps''))))"
proof -
  have "0 \<le> mx" using assms(2) by simp
  then obtain s' where "if 0 + backlog s \<le> mx then run_loop fuel mx s 0 = Some (s', Inr (completed s')) \<and> drained s s'
    else run_loop fuel mx s 0 = Some (s', Inl (ContractError ''scheduler exceeded max_steps''))"
    using run_loop_result [OF assms(1) _ assms(3), of 0 mx] by blast
  then show ?thesis
    using assms(2) idle_queues [of s'] by (auto simp: run_until_idle_def drained_def split: if_splits)
qed

text \<open>Deficit round-robin gives each tenant its share: over any number of rounds through which a
  tenant stays backlogged and the step limit is not reached, the cost of the work run for it equals
  its initial credit plus one quota per round, less the credit carried over, which is nonnegative and
  smaller than the cost of its next job. Its service lags its quota by less than one job and never
  exceeds it by more than the credit it started with.\<close>

theorem drr_fair_share:
  assumes "sched_ok s" and "rounds k mx s steps = (s', steps')" and "steps' < mx" and "queue_of s' t \<noteq> []"
  shows "\<exists>ds. completed s' = completed s @ ds
    \<and> costs (filter (\<lambda>j. j_tenant j = t) ds) = deficit_of s t + int k * quota_of s t - deficit_of s' t
    \<and> 0 \<le> deficit_of s' t \<and> deficit_of s' t < j_cost (hd (queue_of s' t))
    \<and> int k * quota_of s t - j_cost (hd (queue_of s' t)) < costs (filter (\<lambda>j. j_tenant j = t) ds)
    \<and> costs (filter (\<lambda>j. j_tenant j = t) ds) \<le> int k * quota_of s t + deficit_of s t"
proof -
  obtain ds where ds: "completed s' = completed s @ ds" "sched_ok s'"
    "costs (filter (\<lambda>j. j_tenant j = t) ds) = deficit_of s t + int k * quota_of s t - deficit_of s' t"
    using rounds_fair [OF assms] by blast
  have "0 \<le> deficit_of s t" "0 \<le> deficit_of s' t" "deficit_of s' t < j_cost (hd (queue_of s' t))"
    using assms(1,4) ds(2) by (simp_all add: sched_ok_def)
  with ds show ?thesis by (intro exI [of _ ds]) simp
qed

section \<open>Witnesses\<close>

text \<open>Two tenants: \<open>a\<close> with a costly job and quota 2, \<open>b\<close> with two cheap ones and quota 1.\<close>

definition sample_sched :: scheduler where
  "sample_sched = submit (submit (submit \<lparr>workers = 1, quotas = [(''a'', 2)], queues = [], deficits = [], round_order = [], completed = []\<rparr>
     \<lparr>j_id = ''j1'', j_tenant = ''a'', j_cost = 5\<rparr>) \<lparr>j_id = ''j2'', j_tenant = ''b'', j_cost = 1\<rparr>)
     \<lparr>j_id = ''j3'', j_tenant = ''b'', j_cost = 1\<rparr>"

lemma sample_sched_ok: "sched_ok sample_sched"
proof -
  have "mk_scheduler 1 [(''a'', 2)] = Inr \<lparr>workers = 1, quotas = [(''a'', 2)], queues = [], deficits = [], round_order = [], completed = []\<rparr>"
    by code_simp
  from mk_scheduler_ok [OF this] show ?thesis unfolding sample_sched_def by (intro submit_ok) simp_all
qed

lemma sample_sched_numbers: "need sample_sched = 7" "backlog sample_sched = 3"
  by code_simp+

theorem run_until_idle_completes_witness:
  "\<exists>s'. run_until_idle 9 3 sample_sched = Some (s', Inr (completed s'))
     \<and> filter (\<lambda>j. j_tenant j = ''b'') (completed s') = queue_of sample_sched ''b''"
proof -
  have c: "completed sample_sched = []" by code_simp
  show ?thesis
    using run_until_idle_completes [OF sample_sched_ok, of 3 9] by (auto simp: sample_sched_numbers c)
qed

theorem drr_fair_share_witness:
  "\<exists>s' steps'. rounds 2 100 sample_sched 0 = (s', steps') \<and> deficit_of s' ''a'' = 4"
proof -
  have n: "let (s', steps') = rounds 2 100 sample_sched 0 in steps' < 100 \<and> queue_of s' ''a'' \<noteq> [] \<and> completed s' = queue_of sample_sched ''b''
      \<and> quota_of sample_sched ''a'' = 2 \<and> deficit_of sample_sched ''a'' = 0 \<and> completed sample_sched = []
      \<and> filter (\<lambda>j. j_tenant j = ''a'') (queue_of sample_sched ''b'') = []"
    by code_simp
  obtain s' steps' where r: "rounds 2 100 sample_sched 0 = (s', steps')" by fastforce
  from drr_fair_share [OF sample_sched_ok r, of "''a''"] n r show ?thesis by auto
qed

end
