(* ===== verification/Py_Number.thy ===== *)
theory Py_Number
  imports Json Complex_Main
begin

text \<open>
  Python's numbers as the code compares them: integers and finite floats by value, and the floats
  that are not finite. \<open>fv\<close> is the value of the float a \<open>repr\<close> text denotes, the counterpart of the
  reader parameter of \<open>Json\<close>.
\<close>

text \<open>A Python number: an integer or finite float (a rational), or a float that is not finite.\<close>

datatype num = Finite rat | PosInf | NegInf | NaN

fun num_less :: "num \<Rightarrow> num \<Rightarrow> bool" where
  "num_less (Finite a) (Finite b) = (a < b)"
| "num_less (Finite a) PosInf = True"
| "num_less NegInf (Finite b) = True"
| "num_less NegInf PosInf = True"
| "num_less _ _ = False"

definition num_le :: "num \<Rightarrow> num \<Rightarrow> bool" where
  "num_le a b = (num_less a b \<or> (a = b \<and> a \<noteq> NaN))"

fun json_num :: "(string \<Rightarrow> rat) \<Rightarrow> json \<Rightarrow> num option" where
  "json_num fv (JInt i) = Some (Finite (of_int i))"
| "json_num fv (JFloat r) = Some (Finite (fv r))"
| "json_num fv (JNonFinite r) = Some (if r = ''NaN'' then NaN else if r = ''-Infinity'' then NegInf else PosInf)"
| "json_num fv _ = None"

lemma num_not_less: "\<not> num_less b a \<longleftrightarrow> a = NaN \<or> b = NaN \<or> num_le a b"
  by (cases a; cases b) (auto simp: num_le_def)

section \<open>The constructor \<open>int\<close>\<close>

text \<open>Digits with single underscores between them, as in \<open>int('1_000')\<close>; ASCII only.\<close>

fun int_digits :: "int \<Rightarrow> string \<Rightarrow> int option" where
  "int_digits acc [] = None"
| "int_digits acc [c] = (if is_digit c then Some (10 * acc + int (digit_val c)) else None)"
| "int_digits acc (c # d # cs) =
     (if is_digit c
      then int_digits (10 * acc + int (digit_val c)) (if d = CHR ''_'' then cs else d # cs)
      else None)"

definition strip_space :: "string \<Rightarrow> string" where
  "strip_space s = rev (dropWhile ascii_space (rev (dropWhile ascii_space s)))"

definition int_of_str :: "string \<Rightarrow> int result" where
  "int_of_str s =
     (let t = strip_space s;
          r = (case t of
                 [] \<Rightarrow> None
               | c # cs \<Rightarrow> if c = CHR ''-'' then map_option uminus (int_digits 0 cs)
                          else if c = CHR ''+'' then int_digits 0 cs else int_digits 0 t) in
      case r of None \<Rightarrow> Inl (ValueError ''invalid literal for int()'') | Some i \<Rightarrow> Inr i)"

fun int_of :: "(string \<Rightarrow> rat) \<Rightarrow> json \<Rightarrow> int result" where
  "int_of fv (JInt i) = Inr i"
| "int_of fv (JBool b) = Inr (if b then 1 else 0)"
| "int_of fv (JFloat r) = Inr (if fv r \<ge> 0 then \<lfloor>fv r\<rfloor> else \<lceil>fv r\<rceil>)"
| "int_of fv (JNonFinite r) = (if r = ''NaN'' then Inl (ValueError ''cannot convert float NaN to integer'')
     else Inl (OverflowError ''cannot convert float infinity to integer''))"
| "int_of fv (JStr s) = int_of_str s"
| "int_of fv _ = Inl (TypeError ''int() argument'')"

end
