(* ===== verification/Tenancy.thy ===== *)
theory Tenancy
  imports Core Py_Number
begin

text \<open>
  Multi-tenancy, \<open>src/residual/tenancy/\<close>: tenant state (\<open>tenant.py\<close>), data isolation (\<open>isolation.py\<close>),
  lifecycle (\<open>lifecycle.py\<close>), policy floors (\<open>policies.py\<close>) and delegation (\<open>delegation.py\<close>). The
  scheduler is in \<open>Scheduler\<close>.

  \<^item> Operations that may raise after they changed state return the state beside the result, so
    that what an exception leaves behind is visible.
  \<^item> Records that the code keeps as dictionaries are association lists of JSON values.
  \<^item> The locale \<open>domain_system\<close> is the contract of an isolated store: an operation changes only the
    domain that issued it, and what it does there depends only on that domain. Noninterference
    follows, and the locale is interpreted on the tenant store.
\<close>

type_synonym fields = "(string \<times> json) list"

section \<open>Tenant state\<close>

record tenant_state =
  goalspec_registry :: "(string, json) dict"
  module_registry :: "(string, json) dict"
  receipt_chain :: "fields list"
  observation_log :: "fields list"
  hitl_queue :: "fields list"
  quarantine_policies :: "string list"
  brake_config :: "(string, json) dict"

definition empty_tenant_state :: tenant_state where
  "empty_tenant_state = \<lparr>goalspec_registry = [], module_registry = [], receipt_chain = [], observation_log = [],
     hitl_queue = [], quarantine_policies = [], brake_config = []\<rparr>"

definition append_receipt :: "(string \<Rightarrow> string) \<Rightarrow> tenant_state \<Rightarrow> fields \<Rightarrow> (string \<times> tenant_state) result" where
  "append_receipt H st receipt =
     (let entry = AList.update ''sequence'' (JInt (int (length (receipt_chain st)))) receipt in
      bind_r (digest H (JArr (map (\<lambda>r. jget r ''receipt_hash'') (receipt_chain st) @ [JObj receipt]))) (\<lambda>d.
      Inr (d, st\<lparr>receipt_chain := receipt_chain st @ [AList.update ''chain_digest'' (JStr d) entry]\<rparr>)))"

definition append_observation :: "tenant_state \<Rightarrow> fields \<Rightarrow> tenant_state" where
  "append_observation st ob = st\<lparr>observation_log := observation_log st @ [ob]\<rparr>"

definition enqueue_hitl :: "tenant_state \<Rightarrow> fields \<Rightarrow> tenant_state" where
  "enqueue_hitl st rq = st\<lparr>hitl_queue := hitl_queue st @ [rq]\<rparr>"

record tenant =
  tn_id :: string
  tn_quota :: int
  tn_state :: tenant_state

definition mk_tenant :: "string \<Rightarrow> int \<Rightarrow> tenant_state \<Rightarrow> tenant result" where
  "mk_tenant i q st =
     bind_r (mk_identifier i) (\<lambda>_.
     bind_r (ensure (1 \<le> q) (ContractError ''tenant quota must be a positive integer'')) (\<lambda>_.
     Inr \<lparr>tn_id = i, tn_quota = q, tn_state = st\<rparr>))"

definition register_goalspec :: "tenant \<Rightarrow> string \<Rightarrow> json \<Rightarrow> tenant result" where
  "register_goalspec tn i spec =
     bind_r (mk_identifier i) (\<lambda>_.
     bind_r (ensure (i \<notin> fst ` set (goalspec_registry (tn_state tn))) (ContractError ''duplicate goalspec id'')) (\<lambda>_.
     Inr (tn\<lparr>tn_state := (tn_state tn)\<lparr>goalspec_registry := AList.update i spec (goalspec_registry (tn_state tn))\<rparr>\<rparr>)))"

definition register_module :: "tenant \<Rightarrow> string \<Rightarrow> json \<Rightarrow> tenant result" where
  "register_module tn i m =
     bind_r (mk_identifier i) (\<lambda>_.
     bind_r (ensure (i \<notin> fst ` set (module_registry (tn_state tn))) (ContractError ''duplicate module id'')) (\<lambda>_.
     Inr (tn\<lparr>tn_state := (tn_state tn)\<lparr>module_registry := AList.update i m (module_registry (tn_state tn))\<rparr>\<rparr>)))"

section \<open>Data isolation\<close>

record principal =
  p_tenant :: string
  p_admin :: bool

definition mk_principal :: "string \<Rightarrow> bool \<Rightarrow> principal result" where
  "mk_principal t a = bind_r (mk_identifier t) (\<lambda>_. Inr \<lparr>p_tenant = t, p_admin = a\<rparr>)"

record agreement =
  fa_grantor :: string
  fa_grantee :: string
  fa_resources :: "string list"
  fa_bilateral :: bool

definition mk_agreement :: "agreement \<Rightarrow> agreement result" where
  "mk_agreement a =
     bind_r (mk_identifier (fa_grantor a)) (\<lambda>_.
     bind_r (mk_identifier (fa_grantee a)) (\<lambda>_.
     bind_r (ensure (fa_grantor a \<noteq> fa_grantee a) (ContractError ''federation requires two distinct tenants'')) (\<lambda>_.
     bind_r (ensure (fa_resources a \<noteq> [] \<and> [] \<notin> set (fa_resources a))
       (ContractError ''federation resources must be non-empty strings'')) (\<lambda>_.
     bind_r (ensure (fa_bilateral a) (ContractError ''federation agreement must be bilateral'')) (\<lambda>_.
     Inr a)))))"

definition covers :: "agreement \<Rightarrow> string \<Rightarrow> string \<Rightarrow> string \<Rightarrow> bool" where
  "covers a grantor grantee resource =
     (fa_grantor a = grantor \<and> fa_grantee a = grantee \<and> resource \<in> set (fa_resources a))"

record tenant_store =
  ts_data :: "(string, (string, fields) dict) dict"
  ts_agreements :: "agreement list"

definition add_federation :: "tenant_store \<Rightarrow> agreement \<Rightarrow> tenant_store" where
  "add_federation ts a = ts\<lparr>ts_agreements := ts_agreements ts @ [a]\<rparr>"

definition authorize :: "tenant_store \<Rightarrow> principal \<Rightarrow> string \<Rightarrow> string \<Rightarrow> bool \<Rightarrow> unit result" where
  "authorize ts p owner key write =
     bind_r (mk_identifier owner) (\<lambda>_.
     if p_tenant p = owner then Inr ()
     else if write then Inl (ContractError ''cross-tenant writes are never permitted (ENT3-R2)'')
     else ensure (list_ex (\<lambda>a. covers a owner (p_tenant p) key) (ts_agreements ts))
       (ContractError ''cross-tenant access denied: no federation agreement (ENT3-R2)''))"

definition records_of :: "tenant_store \<Rightarrow> string \<Rightarrow> (string, fields) dict" where
  "records_of ts owner = (case map_of (ts_data ts) owner of None \<Rightarrow> [] | Some d \<Rightarrow> d)"

definition put :: "tenant_store \<Rightarrow> principal \<Rightarrow> string \<Rightarrow> string \<Rightarrow> fields \<Rightarrow> tenant_store result" where
  "put ts p owner key v =
     bind_r (authorize ts p owner key True) (\<lambda>_.
     Inr (ts\<lparr>ts_data := AList.update owner (AList.update key v (records_of ts owner)) (ts_data ts)\<rparr>))"

definition get :: "tenant_store \<Rightarrow> principal \<Rightarrow> string \<Rightarrow> string \<Rightarrow> fields result" where
  "get ts p owner key =
     bind_r (authorize ts p owner key False) (\<lambda>_.
     case map_of (records_of ts owner) key of
       None \<Rightarrow> Inl (ContractError ''no such record'')
     | Some v \<Rightarrow> Inr v)"

definition query_records :: "tenant_store \<Rightarrow> principal \<Rightarrow> string \<Rightarrow> (string, fields) dict result" where
  "query_records ts p owner =
     bind_r (mk_identifier owner) (\<lambda>_.
     bind_r (ensure (p_tenant p = owner) (ContractError ''cross-tenant query denied: no federation agreement (ENT3-R2)'')) (\<lambda>_.
     Inr (records_of ts owner)))"

section \<open>Lifecycle\<close>

record operator =
  op_id :: string
  platform_admin :: bool

definition mk_operator :: "string \<Rightarrow> bool \<Rightarrow> operator result" where
  "mk_operator i a = bind_r (mk_identifier i) (\<lambda>_. Inr \<lparr>op_id = i, platform_admin = a\<rparr>)"

record deletion_record =
  dr_tenant :: string
  archived_receipts :: "fields list"
  archived_observations :: "fields list"
  deletion_receipt :: fields

record lifecycle =
  lc_tenants :: "(string, tenant) dict"
  lc_archives :: "(string, deletion_record) dict"

definition require_platform_admin :: "operator \<Rightarrow> unit result" where
  "require_platform_admin op =
     ensure (platform_admin op) (ContractError ''platform-level privileges required for tenant lifecycle (ENT3-R6)'')"

definition create_tenant :: "lifecycle \<Rightarrow> operator \<Rightarrow> string \<Rightarrow> int \<Rightarrow> (tenant \<times> lifecycle) result" where
  "create_tenant lc op i q =
     bind_r (require_platform_admin op) (\<lambda>_.
     bind_r (mk_identifier i) (\<lambda>_.
     bind_r (ensure (i \<notin> fst ` set (lc_tenants lc)) (ContractError ''tenant already exists'')) (\<lambda>_.
     bind_r (ensure (i \<notin> fst ` set (lc_archives lc)) (ContractError ''tenant id was previously deleted and archived'')) (\<lambda>_.
     bind_r (mk_tenant i q empty_tenant_state) (\<lambda>tn.
     Inr (tn, lc\<lparr>lc_tenants := AList.update i tn (lc_tenants lc)\<rparr>))))))"

text \<open>The deletion receipt; its digests may raise.\<close>

definition deletion_receipt_of :: "(string \<Rightarrow> string) \<Rightarrow> string \<Rightarrow> tenant_state \<Rightarrow> fields result" where
  "deletion_receipt_of H i st =
     bind_r (digest H (JArr (map (\<lambda>r. jget r ''receipt_hash'') (receipt_chain st)))) (\<lambda>rd.
     bind_r (digest H (JArr (map JObj (observation_log st)))) (\<lambda>od.
     let body = [(''kind'', JStr ''tenant-deletion''), (''tenant_id'', JStr i),
                 (''receipt_count'', JInt (int (length (receipt_chain st)))),
                 (''observation_count'', JInt (int (length (observation_log st)))),
                 (''receipts_digest'', JStr rd), (''observations_digest'', JStr od)] in
     bind_r (digest H (JObj body)) (\<lambda>h. Inr (body @ [(''receipt_hash'', JStr h)]))))"

text \<open>The tenant is taken out of the table before the receipt is computed; clearing the state of
  the detached tenant object is not observable through the tables.\<close>

definition delete_tenant ::
  "(string \<Rightarrow> string) \<Rightarrow> lifecycle \<Rightarrow> operator \<Rightarrow> string \<Rightarrow> lifecycle \<times> deletion_record result" where
  "delete_tenant H lc op i =
     (case bind_r (require_platform_admin op) (\<lambda>_. mk_identifier i) of
        Inl e \<Rightarrow> (lc, Inl e)
      | Inr _ \<Rightarrow>
          (case map_of (lc_tenants lc) i of
             None \<Rightarrow> (lc, Inl (ContractError ''unknown tenant''))
           | Some tn \<Rightarrow>
               (let lc = lc\<lparr>lc_tenants := AList.delete i (lc_tenants lc)\<rparr>; st = tn_state tn in
                case deletion_receipt_of H i st of
                  Inl e \<Rightarrow> (lc, Inl e)
                | Inr r \<Rightarrow>
                    (let rec = \<lparr>dr_tenant = i, archived_receipts = receipt_chain st,
                                archived_observations = observation_log st, deletion_receipt = r\<rparr> in
                     (lc\<lparr>lc_archives := AList.update i rec (lc_archives lc)\<rparr>, Inr rec)))))"

section \<open>Policy floors\<close>

record floors =
  brake_floor :: num
  verification_minimum :: int
  default_quarantine :: "string list"

definition mk_floors :: "floors \<Rightarrow> floors result" where
  "mk_floors f =
     bind_r (ensure (\<not> num_le (brake_floor f) (Finite 0)) (ContractError ''brake floor must be positive'')) (\<lambda>_.
     bind_r (ensure (1 \<le> verification_minimum f) (ContractError ''verification minimum must be a positive integer'')) (\<lambda>_.
     bind_r (ensure ([] \<notin> set (default_quarantine f)) (ContractError ''default quarantine policies must be non-empty strings'')) (\<lambda>_.
     Inr f)))"

record tenant_policy =
  tp_tenant :: string
  brake_threshold :: num
  verification_level :: int
  tp_quarantine :: "string list"
  module_allowlist :: "string list"
  module_denylist :: "string list"

definition mk_policy :: "tenant_policy \<Rightarrow> tenant_policy result" where
  "mk_policy p =
     bind_r (mk_identifier (tp_tenant p)) (\<lambda>_.
     bind_r (ensure (\<not> num_le (brake_threshold p) (Finite 0)) (ContractError ''brake threshold must be a positive number'')) (\<lambda>_.
     bind_r (ensure (1 \<le> verification_level p) (ContractError ''verification level must be a positive integer'')) (\<lambda>_.
     bind_r (iter_r (\<lambda>(name, v). ensure ([] \<notin> set v) (ContractError (name @ '' entries must be non-empty strings'')))
       [(''quarantine_policies'', tp_quarantine p), (''module_allowlist'', module_allowlist p),
        (''module_denylist'', module_denylist p)]) (\<lambda>_.
     bind_r (ensure (set (module_allowlist p) \<inter> set (module_denylist p) = {})
       (ContractError ''module cannot be both allowed and denied'')) (\<lambda>_.
     Inr p)))))"

definition validate_policy :: "tenant_policy \<Rightarrow> floors \<Rightarrow> tenant_policy result" where
  "validate_policy p f =
     bind_r (ensure (\<not> num_less (brake_floor f) (brake_threshold p))
       (ContractError ''brake threshold loosens the platform floor (ENT3-R5)'')) (\<lambda>_.
     bind_r (ensure (verification_minimum f \<le> verification_level p)
       (ContractError ''verification level below the platform minimum (ENT3-R5)'')) (\<lambda>_.
     bind_r (ensure (set (default_quarantine f) \<subseteq> set (tp_quarantine p))
       (ContractError ''tenant dropped platform quarantine policies'')) (\<lambda>_.
     Inr p)))"

section \<open>Delegation\<close>

record grant =
  g_id :: string
  g_grantor :: string
  g_grantee :: string
  g_task_types :: "string list"
  g_resources :: "string list"
  g_expires :: int

definition mk_grant :: "grant \<Rightarrow> grant result" where
  "mk_grant g =
     bind_r (mk_identifier (g_id g)) (\<lambda>_.
     bind_r (mk_identifier (g_grantor g)) (\<lambda>_.
     bind_r (mk_identifier (g_grantee g)) (\<lambda>_.
     bind_r (ensure (g_grantor g \<noteq> g_grantee g) (ContractError ''delegation requires two distinct tenants'')) (\<lambda>_.
     bind_r (ensure (g_task_types g \<noteq> [] \<and> [] \<notin> set (g_task_types g)) (ContractError ''delegation task_types must be non-empty'')) (\<lambda>_.
     bind_r (ensure (g_resources g \<noteq> [] \<and> [] \<notin> set (g_resources g)) (ContractError ''delegation resources must be non-empty'')) (\<lambda>_.
     bind_r (ensure (0 \<le> g_expires g) (ContractError ''delegation expires_at must be a nonnegative integer'')) (\<lambda>_.
     Inr g)))))))"

definition permits :: "grant \<Rightarrow> string \<Rightarrow> string \<Rightarrow> int \<Rightarrow> bool" where
  "permits g task res now = (now \<le> g_expires g \<and> task \<in> set (g_task_types g) \<and> res \<in> set (g_resources g))"

record delegation_receipt =
  dl_grant :: string
  dl_task :: string
  dl_resource :: string
  dl_executed_at :: int
  dl_approval :: json
  dl_result :: string

definition delegation_fields :: "delegation_receipt \<Rightarrow> fields" where
  "delegation_fields r = [(''grant_id'', JStr (dl_grant r)), (''task_type'', JStr (dl_task r)), (''resource'', JStr (dl_resource r)),
     (''executed_at'', JInt (dl_executed_at r)), (''approval_id'', dl_approval r), (''result_digest'', JStr (dl_result r))]"

definition delegation_receipt_hash :: "(string \<Rightarrow> string) \<Rightarrow> delegation_receipt \<Rightarrow> string result" where
  "delegation_receipt_hash H r = digest H (JObj (delegation_fields r))"

definition delegation_to_dict :: "(string \<Rightarrow> string) \<Rightarrow> delegation_receipt \<Rightarrow> fields result" where
  "delegation_to_dict H r = bind_r (delegation_receipt_hash H r) (\<lambda>h. Inr ((''receipt_hash'', JStr h) # delegation_fields r))"

record delegation =
  de_tenants :: "(string, tenant) dict"
  de_grants :: "(string, grant) dict"

definition add_grant :: "delegation \<Rightarrow> grant \<Rightarrow> delegation result" where
  "add_grant de g =
     bind_r (ensure (g_id g \<notin> fst ` set (de_grants de)) (ContractError ''duplicate delegation grant id'')) (\<lambda>_.
     bind_r (iter_r (\<lambda>t. ensure (t \<in> fst ` set (de_tenants de)) (ContractError ''delegation tenant is unknown''))
       [g_grantor g, g_grantee g]) (\<lambda>_.
     Inr (de\<lparr>de_grants := AList.update (g_id g) g (de_grants de)\<rparr>)))"

definition scoped_grant :: "delegation \<Rightarrow> string \<Rightarrow> string \<Rightarrow> string \<Rightarrow> int \<Rightarrow> grant result" where
  "scoped_grant de gid task res now =
     (case map_of (de_grants de) gid of
        None \<Rightarrow> Inl (ContractError ''unknown delegation grant'')
      | Some g \<Rightarrow>
          if now > g_expires g then Inl (ContractError ''delegation grant has expired (ENT3-R4)'')
          else if task \<notin> set (g_task_types g) \<or> res \<notin> set (g_resources g)
          then Inl (ContractError ''delegation scope violation (ENT3-R4)'')
          else Inr g)"

definition update_state :: "delegation \<Rightarrow> string \<Rightarrow> tenant \<Rightarrow> tenant_state \<Rightarrow> delegation" where
  "update_state de t tn st = de\<lparr>de_tenants := AList.update t (tn\<lparr>tn_state := st\<rparr>) (de_tenants de)\<rparr>"

definition request_approval ::
  "(string \<Rightarrow> string) \<Rightarrow> delegation \<Rightarrow> string \<Rightarrow> string \<Rightarrow> string \<Rightarrow> int \<Rightarrow> (string \<times> delegation) result" where
  "request_approval H de gid task res now =
     bind_r (scoped_grant de gid task res now) (\<lambda>g.
     bind_r (dict_get (de_tenants de) (g_grantor g)) (\<lambda>tn.
     bind_r (digest H (JObj [(''grant'', JStr (g_id g)), (''task'', JStr task), (''resource'', JStr res), (''at'', JInt now),
       (''pending'', JInt (int (length (hitl_queue (tn_state tn)))))])) (\<lambda>aid.
     Inr (aid, update_state de (g_grantor g) tn (enqueue_hitl (tn_state tn)
       [(''kind'', JStr ''delegation-approval''), (''approval_id'', JStr aid), (''grant_id'', JStr (g_id g)),
        (''grantee'', JStr (g_grantee g)), (''task_type'', JStr task), (''resource'', JStr res), (''approved'', JBool False)])))))"

definition approval_matches :: "grant \<Rightarrow> string \<Rightarrow> string \<Rightarrow> string \<Rightarrow> fields \<Rightarrow> bool" where
  "approval_matches g aid task res rq =
     (jget rq ''approval_id'' = JStr aid \<and> jget rq ''grant_id'' = JStr (g_id g)
      \<and> jget rq ''task_type'' = JStr task \<and> jget rq ''resource'' = JStr res)"

definition approved :: "delegation \<Rightarrow> grant \<Rightarrow> string \<Rightarrow> string \<Rightarrow> string \<Rightarrow> fields result" where
  "approved de g aid task res =
     bind_r (dict_get (de_tenants de) (g_grantor g)) (\<lambda>tn.
     case find (approval_matches g aid task res) (hitl_queue (tn_state tn)) of
       None \<Rightarrow> Inl (ContractError ''no HITL approval recorded for this execution (ENT3-R4)'')
     | Some rq \<Rightarrow>
         bind_r (ensure (truthy (jget rq ''approved'')) (ContractError ''grantor HITL approval is still pending (ENT3-R4)'')) (\<lambda>_.
         Inr rq))"

text \<open>The receipt goes to the grantor first; an error at the grantee leaves it there.\<close>

fun append_to_all ::
  "(string \<Rightarrow> string) \<Rightarrow> delegation \<Rightarrow> delegation_receipt \<Rightarrow> string list \<Rightarrow> delegation \<times> delegation_receipt result" where
  "append_to_all H de r [] = (de, Inr r)"
| "append_to_all H de r (t # ts) =
     (case bind_r (dict_get (de_tenants de) t) (\<lambda>tn. bind_r (delegation_to_dict H r) (\<lambda>d.
         bind_r (append_receipt H (tn_state tn) d) (\<lambda>(_, st). Inr (update_state de t tn st)))) of
        Inl e \<Rightarrow> (de, Inl e)
      | Inr de' \<Rightarrow> append_to_all H de' r ts)"

definition execute ::
  "(string \<Rightarrow> string) \<Rightarrow> delegation \<Rightarrow> string \<Rightarrow> string \<Rightarrow> string \<Rightarrow> int \<Rightarrow> string \<Rightarrow> fields
     \<Rightarrow> delegation \<times> delegation_receipt result" where
  "execute H de gid task res now aid outcome =
     (case bind_r (scoped_grant de gid task res now) (\<lambda>g.
           bind_r (approved de g aid task res) (\<lambda>rq.
           bind_r (digest H (JObj outcome)) (\<lambda>d.
           Inr (g, \<lparr>dl_grant = g_id g, dl_task = task, dl_resource = res, dl_executed_at = now,
                    dl_approval = jget rq ''approval_id'', dl_result = d\<rparr>)))) of
        Inl e \<Rightarrow> (de, Inl e)
      | Inr (g, r) \<Rightarrow> append_to_all H de r [g_grantor g, g_grantee g])"

section \<open>Noninterference\<close>

locale domain_system =
  fixes step :: "'op \<Rightarrow> 's \<Rightarrow> 's"
    and issuer :: "'op \<Rightarrow> 'd option"
    and view :: "'d \<Rightarrow> 's \<Rightarrow> 'v"
  assumes local: "issuer op \<noteq> Some d \<Longrightarrow> view d (step op s) = view d s"
    and consistent: "issuer op = Some d \<Longrightarrow> view d s = view d s' \<Longrightarrow> view d (step op s) = view d (step op s')"
begin

lemma view_fold:
  "view d s = view d s' \<Longrightarrow> view d (fold step ops s) = view d (fold step (filter (\<lambda>op. issuer op = Some d) ops) s')"
proof (induction ops arbitrary: s s')
  case (Cons op ops)
  show ?case
  proof (cases "issuer op = Some d")
    case True
    with Cons.IH [OF consistent [OF True Cons.prems]] show ?thesis by simp
  next
    case False
    with Cons.IH [of "step op s" s'] local [OF False] Cons.prems show ?thesis by simp
  qed
qed simp

lemma noninterference: "view d (fold step ops s) = view d (fold step (filter (\<lambda>op. issuer op = Some d) ops) s)"
  by (rule view_fold) (rule refl)

end

text \<open>The calls on a store; one that raises leaves it unchanged.\<close>

datatype store_op =
    Put principal string string fields
  | Get principal string string
  | Query principal string
  | Federate agreement

fun store_step :: "store_op \<Rightarrow> tenant_store \<Rightarrow> tenant_store" where
  "store_step (Put p owner key v) ts = (case put ts p owner key v of Inl _ \<Rightarrow> ts | Inr ts' \<Rightarrow> ts')"
| "store_step (Get p owner key) ts = ts"
| "store_step (Query p owner) ts = ts"
| "store_step (Federate a) ts = add_federation ts a"

fun store_issuer :: "store_op \<Rightarrow> string option" where
  "store_issuer (Put p owner key v) = Some (p_tenant p)"
| "store_issuer (Get p owner key) = Some (p_tenant p)"
| "store_issuer (Query p owner) = Some (p_tenant p)"
| "store_issuer (Federate a) = None"

lemma put_cases:
  "put ts p owner key v = (if ident_ok owner \<and> p_tenant p = owner
     then Inr (ts\<lparr>ts_data := AList.update owner (AList.update key v (records_of ts owner)) (ts_data ts)\<rparr>)
     else if ident_ok owner then Inl (ContractError ''cross-tenant writes are never permitted (ENT3-R2)'')
     else Inl (ContractError ''invalid identifier''))"
  by (simp add: put_def authorize_def mk_identifier_def)

lemma records_of_put:
  "records_of (store_step (Put p owner key v) ts) d =
     (if ident_ok owner \<and> p_tenant p = owner \<and> d = owner then AList.update key v (records_of ts owner) else records_of ts d)"
  by (auto simp: put_cases records_of_def)

interpretation tenant_data: domain_system store_step store_issuer "\<lambda>d ts. records_of ts d"
proof
  fix op d ts
  assume "store_issuer op \<noteq> Some d"
  then show "records_of (store_step op ts) d = records_of ts d"
    by (cases op) (auto simp: records_of_put simp del: store_step.simps(1), simp add: add_federation_def records_of_def)
next
  fix op d ts ts'
  assume "store_issuer op = Some d" and "records_of ts d = records_of ts' d"
  then show "records_of (store_step op ts) d = records_of (store_step op ts') d"
    by (cases op) (auto simp: records_of_put simp del: store_step.simps(1))
qed

lemma get_Inr_iff:
  "get ts p owner key = Inr v \<longleftrightarrow> ident_ok owner \<and> map_of (records_of ts owner) key = Some v
     \<and> (p_tenant p = owner \<or> (\<exists>a\<in>set (ts_agreements ts). covers a owner (p_tenant p) key))"
  by (auto simp: get_def authorize_def mk_identifier_def result_simps list_ex_iff ensure_def split: option.splits)

section \<open>Lifecycle sequences\<close>

datatype lifecycle_op = Create operator string int | Delete operator string

fun lifecycle_step :: "(string \<Rightarrow> string) \<Rightarrow> lifecycle_op \<Rightarrow> lifecycle \<Rightarrow> lifecycle" where
  "lifecycle_step H (Create op i q) lc = (case create_tenant lc op i q of Inl _ \<Rightarrow> lc | Inr (_, lc') \<Rightarrow> lc')"
| "lifecycle_step H (Delete op i) lc = fst (delete_tenant H lc op i)"

lemma archived_step:
  assumes "map_of (lc_archives lc) i = Some r" and "i \<notin> fst ` set (lc_tenants lc)"
  shows "map_of (lc_archives (lifecycle_step H op lc)) i = Some r \<and> i \<notin> fst ` set (lc_tenants (lifecycle_step H op lc))"
proof (cases op)
  case (Create oper j q)
  have "i \<in> fst ` set (lc_archives lc)" using assms(1) by (metis domI dom_map_of_conv_image_fst)
  with Create assms show ?thesis
    by (auto simp: create_tenant_def result_simps dom_update split: sum.splits)
next
  case (Delete oper j)
  show ?thesis
  proof (cases "map_of (lc_tenants lc) j")
    case None
    with Delete assms show ?thesis by (auto simp: delete_tenant_def split: sum.splits)
  next
    case (Some tn)
    then have "j \<noteq> i" using assms(2) by (metis domI dom_map_of_conv_image_fst)
    with Delete Some assms show ?thesis
      by (auto simp: delete_tenant_def Let_def AList.delete_eq split: sum.splits)
  qed
qed

lemma archived_fold:
  assumes "map_of (lc_archives lc) i = Some r" and "i \<notin> fst ` set (lc_tenants lc)"
  shows "map_of (lc_archives (fold (lifecycle_step H) ops lc)) i = Some r \<and> i \<notin> fst ` set (lc_tenants (fold (lifecycle_step H) ops lc))"
  using assms
proof (induction ops arbitrary: lc)
  case (Cons op ops)
  then show ?case using archived_step [OF Cons.prems, of H op] by simp
qed simp

lemma delete_tenant_Inr:
  assumes "delete_tenant H lc op i = (lc', Inr r)"
  obtains tn where "platform_admin op" "map_of (lc_tenants lc) i = Some tn" "archived_receipts r = receipt_chain (tn_state tn)"
    "archived_observations r = observation_log (tn_state tn)" "map_of (lc_archives lc') i = Some r" "i \<notin> fst ` set (lc_tenants lc')"
    "deletion_receipt_of H i (tn_state tn) = Inr (deletion_receipt r)"
proof -
  have g: "bind_r (require_platform_admin op) (\<lambda>_. mk_identifier i) = Inr i"
    using assms by (cases "bind_r (require_platform_admin op) (\<lambda>_. mk_identifier i)")
      (auto simp: delete_tenant_def result_simps)
  obtain tn where tn: "map_of (lc_tenants lc) i = Some tn"
    using assms g by (cases "map_of (lc_tenants lc) i") (auto simp: delete_tenant_def)
  obtain x where x: "deletion_receipt_of H i (tn_state tn) = Inr x"
    using assms g tn by (cases "deletion_receipt_of H i (tn_state tn)") (auto simp: delete_tenant_def Let_def)
  have "lc' = lc\<lparr>lc_tenants := AList.delete i (lc_tenants lc), lc_archives := AList.update i r (lc_archives lc)\<rparr>"
    "r = \<lparr>dr_tenant = i, archived_receipts = receipt_chain (tn_state tn), archived_observations = observation_log (tn_state tn), deletion_receipt = x\<rparr>"
    using assms g tn x by (auto simp: delete_tenant_def Let_def)
  with g tn x show thesis
    by (intro that [of tn]) (auto simp: require_platform_admin_def result_simps AList.delete_eq)
qed

text \<open>A receipt that cannot be computed loses the tenant: it is gone from the table and not archived.\<close>

lemma failed_deletion_loses_tenant:
  assumes "platform_admin op" and "ident_ok i" and "map_of (lc_tenants lc) i = Some tn"
    and "deletion_receipt_of H i (tn_state tn) = Inl e"
  shows "\<exists>lc'. delete_tenant H lc op i = (lc', Inl e) \<and> i \<notin> fst ` set (lc_tenants lc') \<and> lc_archives lc' = lc_archives lc"
  using assms by (auto simp: delete_tenant_def require_platform_admin_def mk_identifier_def Let_def AList.delete_eq)

definition nan_tenant :: tenant where
  "nan_tenant = \<lparr>tn_id = ''t'', tn_quota = 1,
     tn_state = append_observation empty_tenant_state [(''load'', JNonFinite ''NaN'')]\<rparr>"

lemma nan_observation_loses_tenant:
  "\<exists>lc' e. delete_tenant H \<lparr>lc_tenants = [(''t'', nan_tenant)], lc_archives = []\<rparr> \<lparr>op_id = ''o'', platform_admin = True\<rparr> ''t'' = (lc', Inl e)
     \<and> lc_tenants lc' = [] \<and> lc_archives lc' = []"
  by (simp add: delete_tenant_def require_platform_admin_def mk_identifier_def is_letter_def is_lower_def Let_def nan_tenant_def
      deletion_receipt_of_def append_observation_def empty_tenant_state_def digest_def canonical_def)

section \<open>Delegated executions\<close>

definition chain_of :: "delegation \<Rightarrow> string \<Rightarrow> fields list" where
  "chain_of de t = (case map_of (de_tenants de) t of None \<Rightarrow> [] | Some tn \<Rightarrow> receipt_chain (tn_state tn))"

definition queue_at :: "delegation \<Rightarrow> string \<Rightarrow> fields list" where
  "queue_at de t = (case map_of (de_tenants de) t of None \<Rightarrow> [] | Some tn \<Rightarrow> hitl_queue (tn_state tn))"

lemma append_receipt_Inr:
  assumes "append_receipt H st d = Inr (x, st')"
  shows "receipt_chain st' = receipt_chain st @ [AList.update ''chain_digest'' (JStr x)
      (AList.update ''sequence'' (JInt (int (length (receipt_chain st)))) d)]" "hitl_queue st' = hitl_queue st"
  using assms by (auto simp: append_receipt_def result_simps Let_def)

text \<open>One step of the loop over the two tenants.\<close>

lemma append_to_all_Cons:
  assumes "append_to_all H de r (t # ts) = (de', Inr r')"
  obtains de1 d x where "append_to_all H de1 r ts = (de', Inr r')" "delegation_to_dict H r = Inr d" "de_grants de1 = de_grants de"
    "queue_at de1 = queue_at de"
    "chain_of de1 = (chain_of de)(t := chain_of de t @ [AList.update ''chain_digest'' (JStr x)
      (AList.update ''sequence'' (JInt (int (length (chain_of de t)))) d)])"
proof -
  let ?m = "bind_r (dict_get (de_tenants de) t) (\<lambda>tn. bind_r (delegation_to_dict H r) (\<lambda>d.
         bind_r (append_receipt H (tn_state tn) d) (\<lambda>(_, st). Inr (update_state de t tn st))))"
  obtain de1 where m: "?m = Inr de1" using assms by (cases ?m) (simp_all del: bind_r.simps)
  then have rest: "append_to_all H de1 r ts = (de', Inr r')" using assms by (simp del: bind_r.simps)
  obtain tn d x st where p: "map_of (de_tenants de) t = Some tn" "delegation_to_dict H r = Inr d"
    "append_receipt H (tn_state tn) d = Inr (x, st)" "de1 = update_state de t tn st"
    using m by (auto simp: result_simps)
  show thesis
    by (rule that [OF rest p(2), of x])
      (use p append_receipt_Inr [OF p(3)] in \<open>auto simp: update_state_def chain_of_def queue_at_def fun_eq_iff\<close>)
qed

lemma append_to_all_result: "append_to_all H de r ts = (de', Inr r') \<Longrightarrow> r' = r"
  by (induction ts arbitrary: de) (auto split: sum.splits)

lemma execute_Inr:
  assumes "execute H de gid task res now aid outcome = (de', Inr r)"
  obtains g rq d where "scoped_grant de gid task res now = Inr g" "approved de g aid task res = Inr rq" "digest H (JObj outcome) = Inr d"
    "r = \<lparr>dl_grant = g_id g, dl_task = task, dl_resource = res, dl_executed_at = now, dl_approval = jget rq ''approval_id'', dl_result = d\<rparr>"
    "append_to_all H de r [g_grantor g, g_grantee g] = (de', Inr r)"
proof -
  let ?m = "bind_r (scoped_grant de gid task res now) (\<lambda>g. bind_r (approved de g aid task res) (\<lambda>rq. bind_r (digest H (JObj outcome)) (\<lambda>d.
      Inr (g, \<lparr>dl_grant = g_id g, dl_task = task, dl_resource = res, dl_executed_at = now,
               dl_approval = jget rq ''approval_id'', dl_result = d\<rparr>))))"
  obtain g r' where m: "?m = Inr (g, r')" using assms by (cases ?m) (auto simp: execute_def)
  then have a: "append_to_all H de r' [g_grantor g, g_grantee g] = (de', Inr r)" using assms by (simp add: execute_def del: append_to_all.simps)
  have "r' = r" using append_to_all_result [OF a] by simp
  with a m that show thesis by (auto simp: bind_r_Inr_iff simp del: append_to_all.simps)
qed

lemma scoped_grant_Inr:
  "scoped_grant de gid task res now = Inr g \<longleftrightarrow> map_of (de_grants de) gid = Some g \<and> permits g task res now"
  by (auto simp: scoped_grant_def permits_def split: option.splits)

lemma approved_Inr_iff:
  "approved de g aid task res = Inr rq \<longleftrightarrow>
     find (approval_matches g aid task res) (queue_at de (g_grantor g)) = Some rq \<and> truthy (jget rq ''approved'')"
proof (cases "map_of (de_tenants de) (g_grantor g)")
  case None
  then show ?thesis by (simp add: approved_def queue_at_def dict_get_def)
next
  case (Some tn)
  then show ?thesis
    by (cases "find (approval_matches g aid task res) (hitl_queue (tn_state tn))")
      (auto simp: approved_def queue_at_def dict_get_def result_simps)
qed

lemma approved_Inr:
  assumes "approved de g aid task res = Inr rq"
  shows "rq \<in> set (queue_at de (g_grantor g))" "approval_matches g aid task res rq" "truthy (jget rq ''approved'')"
  using assms by (auto simp: approved_Inr_iff find_Some_iff)

section \<open>Properties\<close>

text \<open>C21. Tenants are isolated at the data layer. Whatever sequence of calls all principals make,
  administrators included, and whatever federation agreements are added, the records of a tenant are
  those that the calls of its own principals alone would have produced. A read of another tenant's
  record succeeds exactly when the record exists and an agreement names that owner, reader and key.\<close>

theorem tenant_noninterference:
  "records_of (fold store_step ops ts) d = records_of (fold store_step (filter (\<lambda>op. store_issuer op = Some d) ops) ts) d
   \<and> ((\<exists>v. get ts p owner key = Inr v) \<longleftrightarrow> ident_ok owner \<and> key \<in> fst ` set (records_of ts owner)
        \<and> (p_tenant p = owner \<or> (\<exists>a\<in>set (ts_agreements ts). covers a owner (p_tenant p) key)))"
  by (rule conjI, rule tenant_data.noninterference)
    (simp add: get_Inr_iff flip: dom_map_of_conv_image_fst, auto simp: dom_def)

text \<open>A successful deletion needs platform privilege, archives exactly the receipts and observations
  the tenant had, and is final: in every later sequence of lifecycle calls the archive stays as it
  is and the identifier is never a live tenant again.\<close>

theorem deletion_archives_forever:
  assumes "delete_tenant H lc op i = (lc', Inr r)"
  shows "platform_admin op \<and> (\<exists>tn. map_of (lc_tenants lc) i = Some tn \<and> archived_receipts r = receipt_chain (tn_state tn)
      \<and> archived_observations r = observation_log (tn_state tn))
    \<and> (\<forall>ops. map_of (lc_archives (fold (lifecycle_step H) ops lc')) i = Some r
        \<and> i \<notin> fst ` set (lc_tenants (fold (lifecycle_step H) ops lc')))"
proof -
  obtain tn where tn: "platform_admin op" "map_of (lc_tenants lc) i = Some tn" "archived_receipts r = receipt_chain (tn_state tn)"
    "archived_observations r = observation_log (tn_state tn)" and a: "map_of (lc_archives lc') i = Some r" "i \<notin> fst ` set (lc_tenants lc')"
    using delete_tenant_Inr [OF assms] by metis
  show ?thesis using tn archived_fold [OF a] by blast
qed

text \<open>Tenant policies can only tighten the platform: a constructed policy validates against the
  floors exactly when its threshold is not above the brake floor, its verification level reaches
  the minimum and it keeps every default quarantine policy. The comparison with the brake floor is
  made on Python numbers: a threshold that is not a number passes it against every floor.\<close>

theorem validate_policy_tightens:
  "(\<exists>q. validate_policy p f = Inr q) \<longleftrightarrow>
     (brake_threshold p = NaN \<or> brake_floor f = NaN \<or> num_le (brake_threshold p) (brake_floor f))
     \<and> verification_minimum f \<le> verification_level p \<and> set (default_quarantine f) \<subseteq> set (tp_quarantine p)"
proof -
  have "\<not> num_less b a \<longleftrightarrow> a = NaN \<or> b = NaN \<or> num_le a b" for a b
    by (cases a; cases b) (auto simp: num_le_def)
  then show ?thesis by (auto simp: validate_policy_def result_simps)
qed

text \<open>A delegated execution is authorised and doubly recorded: it succeeds only under a registered
  grant that is unexpired and covers task type and resource, with a matching request in the
  grantor's queue that was approved, and it appends one receipt with these data to the chains of
  grantor and grantee, in that order, changing no other chain and no queue.\<close>

theorem delegated_execution_sound:
  assumes "execute H de gid task res now aid outcome = (de', Inr r)"
  shows "\<exists>g rq d x y. map_of (de_grants de) gid = Some g \<and> permits g task res now
    \<and> rq \<in> set (queue_at de (g_grantor g)) \<and> approval_matches g aid task res rq \<and> truthy (jget rq ''approved'')
    \<and> delegation_to_dict H r = Inr d \<and> dl_approval r = JStr aid \<and> queue_at de' = queue_at de \<and> de_grants de' = de_grants de
    \<and> (let c1 = (chain_of de)(g_grantor g := chain_of de (g_grantor g) @ [AList.update ''chain_digest'' (JStr x)
            (AList.update ''sequence'' (JInt (int (length (chain_of de (g_grantor g))))) d)])
       in chain_of de' = c1(g_grantee g := c1 (g_grantee g) @ [AList.update ''chain_digest'' (JStr y)
            (AList.update ''sequence'' (JInt (int (length (c1 (g_grantee g))))) d)]))"
proof -
  obtain g rq d where e: "scoped_grant de gid task res now = Inr g" "approved de g aid task res = Inr rq" "dl_approval r = jget rq ''approval_id''"
    "append_to_all H de r [g_grantor g, g_grantee g] = (de', Inr r)"
    using execute_Inr [OF assms] by (metis delegation_receipt.select_convs(5))
  obtain de1 d1 x where s1: "append_to_all H de1 r [g_grantee g] = (de', Inr r)" "delegation_to_dict H r = Inr d1"
    "de_grants de1 = de_grants de" "queue_at de1 = queue_at de"
    "chain_of de1 = (chain_of de)(g_grantor g := chain_of de (g_grantor g) @ [AList.update ''chain_digest'' (JStr x)
      (AList.update ''sequence'' (JInt (int (length (chain_of de (g_grantor g))))) d1)])"
    using e(4) by (rule append_to_all_Cons)
  obtain de2 d2 y where s2: "append_to_all H de2 r [] = (de', Inr r)" "delegation_to_dict H r = Inr d2"
    "de_grants de2 = de_grants de1" "queue_at de2 = queue_at de1"
    "chain_of de2 = (chain_of de1)(g_grantee g := chain_of de1 (g_grantee g) @ [AList.update ''chain_digest'' (JStr y)
      (AList.update ''sequence'' (JInt (int (length (chain_of de1 (g_grantee g))))) d2)])"
    using s1(1) by (rule append_to_all_Cons)
  have "de2 = de'" "d2 = d1" using s2(1,2) s1(2) by simp_all
  moreover have "map_of (de_grants de) gid = Some g" "permits g task res now" using e(1) by (simp_all add: scoped_grant_Inr)
  moreover have "dl_approval r = JStr aid" using approved_Inr(2) [OF e(2)] e(3) by (simp add: approval_matches_def)
  ultimately show ?thesis
    using approved_Inr [OF e(2)] s1(2-5) s2(3-5)
    by (intro exI [of _ g] exI [of _ rq] exI [of _ d1] exI [of _ x] exI [of _ y]) (simp add: Let_def)
qed

text \<open>An approval is not used up: it authorises further executions until the grant expires.\<close>

lemma approval_reusable:
  assumes "execute H de gid task res now aid outcome = (de', Inr r)"
  shows "\<exists>g rq. map_of (de_grants de') gid = Some g \<and> approved de' g aid task res = Inr rq"
proof -
  obtain g rq d where e: "scoped_grant de gid task res now = Inr g" "approved de g aid task res = Inr rq"
    and a: "append_to_all H de r [g_grantor g, g_grantee g] = (de', Inr r)"
    using execute_Inr [OF assms] by metis
  obtain de1 where 1: "append_to_all H de1 r [g_grantee g] = (de', Inr r)" "de_grants de1 = de_grants de" "queue_at de1 = queue_at de"
    using a by (rule append_to_all_Cons)
  obtain de2 where "append_to_all H de2 r [] = (de', Inr r)" "de_grants de2 = de_grants de1" "queue_at de2 = queue_at de1"
    using 1(1) by (rule append_to_all_Cons)
  with 1 e show ?thesis by (auto simp: approved_Inr_iff scoped_grant_Inr)
qed

section \<open>Witnesses\<close>

theorem tenant_noninterference_witness:
  "let alice = \<lparr>p_tenant = ''a'', p_admin = False\<rparr>; root = \<lparr>p_tenant = ''b'', p_admin = True\<rparr> in
   records_of (fold store_step [Put alice ''a'' ''k'' [], Put root ''a'' ''k'' [(''x'', JNull)]] \<lparr>ts_data = [], ts_agreements = []\<rparr>) ''a''
   = [(''k'', [])] \<and> \<not> (\<exists>v. get \<lparr>ts_data = [(''a'', [(''k'', [])])], ts_agreements = []\<rparr> root ''a'' ''k'' = Inr v)"
  using tenant_noninterference [of "[Put \<lparr>p_tenant = ''a'', p_admin = False\<rparr> ''a'' ''k'' [], Put \<lparr>p_tenant = ''b'', p_admin = True\<rparr> ''a'' ''k'' [(''x'', JNull)]]"
      "\<lparr>ts_data = [], ts_agreements = []\<rparr>" "''a''" "\<lparr>p_tenant = ''b'', p_admin = True\<rparr>" "''a''" "''k''"]
    tenant_noninterference [of "[]" "\<lparr>ts_data = [(''a'', [(''k'', [])])], ts_agreements = []\<rparr>" "''a''" "\<lparr>p_tenant = ''b'', p_admin = True\<rparr>" "''a''" "''k''"]
  by (simp add: Let_def put_cases records_of_def is_letter_def is_lower_def)

theorem deletion_archives_forever_witness:
  "\<exists>lc' r. delete_tenant (\<lambda>_. ''h'') \<lparr>lc_tenants = [(''t'', \<lparr>tn_id = ''t'', tn_quota = 1, tn_state = empty_tenant_state\<rparr>)], lc_archives = []\<rparr>
      \<lparr>op_id = ''o'', platform_admin = True\<rparr> ''t'' = (lc', Inr r) \<and> archived_receipts r = []
    \<and> ''t'' \<notin> fst ` set (lc_tenants (fold (lifecycle_step (\<lambda>_. ''h'')) [Create \<lparr>op_id = ''o'', platform_admin = True\<rparr> ''t'' 1] lc'))"
proof -
  let ?tn = "\<lparr>tn_id = ''t'', tn_quota = 1, tn_state = empty_tenant_state\<rparr>"
  let ?lc = "\<lparr>lc_tenants = [(''t'', ?tn)], lc_archives = []\<rparr>"
  have "isl (snd (delete_tenant (\<lambda>_. ''h'') ?lc \<lparr>op_id = ''o'', platform_admin = True\<rparr> ''t'')) = False"
    by code_simp
  then obtain lc' r where d: "delete_tenant (\<lambda>_. ''h'') ?lc \<lparr>op_id = ''o'', platform_admin = True\<rparr> ''t'' = (lc', Inr r)"
    by (metis obj_sumE prod.collapse sum.disc(1))
  from deletion_archives_forever [OF d] have "archived_receipts r = []"
    "\<forall>ops. ''t'' \<notin> fst ` set (lc_tenants (fold (lifecycle_step (\<lambda>_. ''h'')) ops lc'))"
    by (auto simp: empty_tenant_state_def)
  with d show ?thesis by blast
qed

definition sample_delegation :: delegation where
  "sample_delegation = \<lparr>de_tenants =
     [(''a'', \<lparr>tn_id = ''a'', tn_quota = 1, tn_state = enqueue_hitl empty_tenant_state [(''approval_id'', JStr ''ok''), (''grant_id'', JStr ''g''),
         (''task_type'', JStr ''run''), (''resource'', JStr ''vm''), (''approved'', JBool True)]\<rparr>),
      (''b'', \<lparr>tn_id = ''b'', tn_quota = 1, tn_state = empty_tenant_state\<rparr>)],
     de_grants = [(''g'', \<lparr>g_id = ''g'', g_grantor = ''a'', g_grantee = ''b'', g_task_types = [''run''], g_resources = [''vm''], g_expires = 9\<rparr>)]\<rparr>"

theorem delegated_execution_sound_witness:
  "\<exists>de' r. execute (\<lambda>_. ''h'') sample_delegation ''g'' ''run'' ''vm'' 5 ''ok'' [] = (de', Inr r)
     \<and> length (chain_of de' ''a'') = 1 \<and> length (chain_of de' ''b'') = 1"
proof -
  have "isl (snd (execute (\<lambda>_. ''h'') sample_delegation ''g'' ''run'' ''vm'' 5 ''ok'' [])) = False" by code_simp
  then obtain de' r where e: "execute (\<lambda>_. ''h'') sample_delegation ''g'' ''run'' ''vm'' 5 ''ok'' [] = (de', Inr r)"
    by (metis obj_sumE prod.collapse sum.disc(1))
  have c: "chain_of sample_delegation = (\<lambda>_. [])" "de_grants sample_delegation = [(''g'', \<lparr>g_id = ''g'', g_grantor = ''a'', g_grantee = ''b'',
      g_task_types = [''run''], g_resources = [''vm''], g_expires = 9\<rparr>)]"
    by (auto simp: sample_delegation_def chain_of_def enqueue_hitl_def empty_tenant_state_def fun_eq_iff)
  from delegated_execution_sound [OF e] obtain g and x y :: string and d where "map_of (de_grants sample_delegation) ''g'' = Some g"
    "chain_of de' = (let c1 = (chain_of sample_delegation)(g_grantor g := chain_of sample_delegation (g_grantor g) @ [AList.update ''chain_digest'' (JStr x)
            (AList.update ''sequence'' (JInt (int (length (chain_of sample_delegation (g_grantor g))))) d)])
       in c1(g_grantee g := c1 (g_grantee g) @ [AList.update ''chain_digest'' (JStr y)
            (AList.update ''sequence'' (JInt (int (length (c1 (g_grantee g))))) d)]))"
    unfolding Let_def by blast
  then have "length (chain_of de' ''a'') = 1" "length (chain_of de' ''b'') = 1" by (auto simp: c Let_def)
  with e show ?thesis by blast
qed

end
