(* ===== verification/Iam_Events.thy ===== *)
theory Iam_Events
  imports Core Json_Roundtrip "HOL-Library.Word"
begin

text \<open>
  The audit trail of the access-control package, \<open>src/residual/iam/events.py\<close>: subject identifiers,
  source addresses, observations and the chained receipts of the event log.

  \<^item> \<open>ip_of\<close> stands for the textual grammar of \<open>ipaddress.ip_address\<close>: the address a text denotes, if any.
    Addresses are machine words, so membership in a network (\<open>Iam_Sessions\<close>) is computed on bits.
  \<^item> The clock is read by the caller of the model: an operation takes the readings as arguments, in
    the order the code makes them.
  \<^item> Shown: a log that was only written by \<open>record\<close> always verifies.
\<close>

datatype ip_addr = IPv4 "32 word" | IPv6 "128 word"

type_synonym ip_reader = "string \<Rightarrow> ip_addr option"

definition subject_char :: "char \<Rightarrow> bool" where
  "subject_char c = (is_letter c \<or> is_digit c \<or> c \<in> set ''_.@:+-/'')"

fun subject_ok :: "string \<Rightarrow> bool" where
  "subject_ok [] = False"
| "subject_ok (c # cs) = ((is_letter c \<or> is_digit c \<or> c = CHR ''_'') \<and> list_all subject_char cs \<and> length cs \<le> 127)"

definition subject_identifier :: "string \<Rightarrow> string result" where
  "subject_identifier s = bind_r (ensure (subject_ok s) (ContractError ''invalid subject identifier'')) (\<lambda>_. Inr s)"

definition validate_ip :: "ip_reader \<Rightarrow> string \<Rightarrow> string result" where
  "validate_ip ip_of s = bind_r (ensure (ip_of s \<noteq> None) (ContractError ''invalid source IP address'')) (\<lambda>_. Inr s)"

definition OBSERVATION_SCHEMA :: string where
  "OBSERVATION_SCHEMA = ''residual.iam.observation.v1''"

definition IAM_RECEIPT_SCHEMA :: string where
  "IAM_RECEIPT_SCHEMA = ''residual.iam.receipt.v1''"

definition AUTH_EVENT_TYPES :: "string list" where
  "AUTH_EVENT_TYPES = [''login'', ''logout'', ''token_refresh'', ''permission_elevation'', ''access_denied'',
     ''service_account_action'', ''session_revoked'', ''mfa_event'']"

record observation =
  io_event :: string
  io_subject :: string
  io_timestamp :: int
  io_ip :: string
  io_result :: string
  io_subject_type :: string
  io_details :: "(string \<times> json) list"

definition mk_observation :: "ip_reader \<Rightarrow> observation \<Rightarrow> observation result" where
  "mk_observation ip_of ob =
     bind_r (ensure (io_event ob \<in> set AUTH_EVENT_TYPES) (ContractError ''unknown IAM observation event type'')) (\<lambda>_.
     bind_r (subject_identifier (io_subject ob)) (\<lambda>_.
     bind_r (validate_ip ip_of (io_ip ob)) (\<lambda>_.
     bind_r (ensure (io_result ob \<in> {''allow'', ''deny''}) (ContractError ''observation result must be allow or deny'')) (\<lambda>_.
     bind_r (ensure (io_subject_type ob \<in> {''human'', ''service''}) (ContractError ''invalid subject type'')) (\<lambda>_.
     bind_r (canonical (JObj (io_details ob))) (\<lambda>_.
     Inr ob))))))"

definition observation_payload :: "observation \<Rightarrow> json" where
  "observation_payload ob = JObj [(''schema'', JStr OBSERVATION_SCHEMA), (''event_type'', JStr (io_event ob)),
     (''subject_id'', JStr (io_subject ob)), (''subject_type'', JStr (io_subject_type ob)),
     (''timestamp'', JInt (io_timestamp ob)), (''source_ip'', JStr (io_ip ob)), (''result'', JStr (io_result ob)),
     (''details'', JObj (io_details ob))]"

record event_receipt =
  er_hash :: string
  er_observation_hash :: string
  er_previous :: string
  er_event :: string
  er_subject :: string
  er_subject_type :: string
  er_timestamp :: int

definition mk_event_receipt :: "event_receipt \<Rightarrow> event_receipt result" where
  "mk_event_receipt r =
     bind_r (ensure (char_count (er_hash r) = 64 \<and> char_count (er_observation_hash r) = 64)
       (ContractError ''receipt hashes must be SHA-256 digests'')) (\<lambda>_.
     Inr r)"

definition event_receipt_payload :: "event_receipt \<Rightarrow> (string \<times> json) list" where
  "event_receipt_payload r = [(''schema'', JStr IAM_RECEIPT_SCHEMA), (''receipt_hash'', JStr (er_hash r)),
     (''observation_hash'', JStr (er_observation_hash r)), (''previous_hash'', JStr (er_previous r)),
     (''event_type'', JStr (er_event r)), (''subject_id'', JStr (er_subject r)), (''subject_type'', JStr (er_subject_type r)),
     (''timestamp'', JInt (er_timestamp r))]"

definition GENESIS_HASH :: string where
  "GENESIS_HASH = replicate 64 (CHR ''0'')"

record event_log =
  el_observations :: "observation list"
  el_receipts :: "event_receipt list"

definition empty_log :: event_log where
  "empty_log = \<lparr>el_observations = [], el_receipts = []\<rparr>"

definition last_hash :: "event_log \<Rightarrow> string" where
  "last_hash lg = (if el_receipts lg = [] then GENESIS_HASH else er_hash (last (el_receipts lg)))"

definition receipt_core :: "string \<Rightarrow> string \<Rightarrow> observation \<Rightarrow> (string \<times> json) list" where
  "receipt_core oh previous ob = [(''schema'', JStr IAM_RECEIPT_SCHEMA), (''observation_hash'', JStr oh), (''previous_hash'', JStr previous),
     (''event_type'', JStr (io_event ob)), (''subject_id'', JStr (io_subject ob)), (''subject_type'', JStr (io_subject_type ob)),
     (''timestamp'', JInt (io_timestamp ob))]"

definition record_event ::
  "(string \<Rightarrow> string) \<Rightarrow> ip_reader \<Rightarrow> event_log \<Rightarrow> string \<Rightarrow> string \<Rightarrow> string \<Rightarrow> string \<Rightarrow> string \<Rightarrow> (string \<times> json) list \<Rightarrow> int
     \<Rightarrow> event_log result" where
  "record_event H ip_of lg et subject ip outcome st details ts =
     bind_r (mk_observation ip_of \<lparr>io_event = et, io_subject = subject, io_timestamp = ts, io_ip = ip, io_result = outcome,
       io_subject_type = st, io_details = details\<rparr>) (\<lambda>ob.
     bind_r (digest H (observation_payload ob)) (\<lambda>oh.
     bind_r (digest H (JObj (receipt_core oh (last_hash lg) ob))) (\<lambda>rh.
     bind_r (mk_event_receipt \<lparr>er_hash = rh, er_observation_hash = oh, er_previous = last_hash lg, er_event = io_event ob,
       er_subject = io_subject ob, er_subject_type = io_subject_type ob, er_timestamp = io_timestamp ob\<rparr>) (\<lambda>r.
     Inr \<lparr>el_observations = el_observations lg @ [ob], el_receipts = el_receipts lg @ [r]\<rparr>))))"

fun verify_pairs :: "(string \<Rightarrow> string) \<Rightarrow> string \<Rightarrow> (observation \<times> event_receipt) list \<Rightarrow> bool result" where
  "verify_pairs H previous [] = Inr True"
| "verify_pairs H previous ((ob, r) # ps) =
     bind_r (digest H (observation_payload ob)) (\<lambda>oh.
     if er_observation_hash r \<noteq> oh then Inr False
     else if er_previous r \<noteq> previous then Inr False
     else
       bind_r (digest H (JObj (filter (\<lambda>(k, v). k \<noteq> ''receipt_hash'') (event_receipt_payload r)))) (\<lambda>rh.
       if er_hash r \<noteq> rh then Inr False else verify_pairs H (er_hash r) ps))"

definition verify_chain :: "(string \<Rightarrow> string) \<Rightarrow> event_log \<Rightarrow> bool result" where
  "verify_chain H lg =
     bind_r (verify_pairs H GENESIS_HASH (zip (el_observations lg) (el_receipts lg))) (\<lambda>ok.
     Inr (ok \<and> length (el_observations lg) = length (el_receipts lg)))"

section \<open>Appending keeps the chain\<close>

lemma subject_identifier_Inr [result_simps]: "subject_identifier s = Inr x \<longleftrightarrow> subject_ok s \<and> x = s"
  by (auto simp: subject_identifier_def result_simps)

lemma validate_ip_Inr [result_simps]: "validate_ip ip_of s = Inr x \<longleftrightarrow> ip_of s \<noteq> None \<and> x = s"
  by (auto simp: validate_ip_def result_simps)

lemma verify_pairs_append:
  "verify_pairs H p ps = Inr True \<Longrightarrow>
   verify_pairs H p (ps @ qs) = verify_pairs H (if ps = [] then p else er_hash (snd (last ps))) qs"
proof (induction H p ps rule: verify_pairs.induct)
  case (2 H previous ob r ps)
  obtain oh where oh: "digest H (observation_payload ob) = Inr oh" using "2.prems" by (auto simp: result_simps)
  obtain rh where rh: "digest H (JObj (filter (\<lambda>(k, v). k \<noteq> ''receipt_hash'') (event_receipt_payload r))) = Inr rh"
    using "2.prems" oh by (auto simp: result_simps split: if_splits)
  have c: "er_observation_hash r = oh" "er_previous r = previous" "er_hash r = rh" "verify_pairs H (er_hash r) ps = Inr True"
    using "2.prems" oh rh by (auto split: if_splits)
  then show ?case using "2.IH" [OF oh _ _ rh] oh rh by auto
qed simp

definition log_ok :: "(string \<Rightarrow> string) \<Rightarrow> event_log \<Rightarrow> bool" where
  "log_ok H lg = (length (el_observations lg) = length (el_receipts lg)
     \<and> verify_pairs H GENESIS_HASH (zip (el_observations lg) (el_receipts lg)) = Inr True)"

lemma log_ok_verify: "log_ok H lg \<Longrightarrow> verify_chain H lg = Inr True"
  by (simp add: log_ok_def verify_chain_def)

lemma log_ok_empty [simp]: "log_ok H empty_log"
  by (simp add: log_ok_def empty_log_def)

lemma record_event_appends:
  assumes "record_event H ip_of lg et subject ip outcome st details ts = Inr lg'"
  shows "\<exists>ob r. el_observations lg' = el_observations lg @ [ob] \<and> el_receipts lg' = el_receipts lg @ [r]
    \<and> io_event ob = et \<and> io_subject ob = subject \<and> io_result ob = outcome \<and> io_subject_type ob = st \<and> io_timestamp ob = ts"
  using assms by (auto simp: record_event_def mk_observation_def result_simps)

lemma record_event_ok:
  assumes "log_ok H lg" and "record_event H ip_of lg et subject ip outcome st details ts = Inr lg'"
  shows "log_ok H lg'"
proof -
  obtain ob oh rh where d: "digest H (observation_payload ob) = Inr oh" "digest H (JObj (receipt_core oh (last_hash lg) ob)) = Inr rh"
    and lg': "lg' = \<lparr>el_observations = el_observations lg @ [ob], el_receipts = el_receipts lg @
      [\<lparr>er_hash = rh, er_observation_hash = oh, er_previous = last_hash lg, er_event = io_event ob,
       er_subject = io_subject ob, er_subject_type = io_subject_type ob, er_timestamp = io_timestamp ob\<rparr>]\<rparr>"
    using assms(2) by (auto simp: record_event_def mk_event_receipt_def result_simps)
  let ?r = "\<lparr>er_hash = rh, er_observation_hash = oh, er_previous = last_hash lg, er_event = io_event ob,
       er_subject = io_subject ob, er_subject_type = io_subject_type ob, er_timestamp = io_timestamp ob\<rparr>"
  have z: "zip (el_observations lg @ [ob]) (el_receipts lg @ [?r]) = zip (el_observations lg) (el_receipts lg) @ [(ob, ?r)]"
    using assms(1) by (simp add: log_ok_def)
  have "filter (\<lambda>(k, v). k \<noteq> ''receipt_hash'') (event_receipt_payload ?r) = receipt_core oh (last_hash lg) ob"
    by (simp add: event_receipt_payload_def receipt_core_def)
  moreover have "(if zip (el_observations lg) (el_receipts lg) = [] then GENESIS_HASH
      else er_hash (snd (last (zip (el_observations lg) (el_receipts lg))))) = last_hash lg"
    using assms(1) by (cases "el_receipts lg" rule: rev_cases; cases "el_observations lg" rule: rev_cases) (auto simp: log_ok_def last_hash_def)
  ultimately show ?thesis
    using assms(1) d verify_pairs_append [of H GENESIS_HASH "zip (el_observations lg) (el_receipts lg)" "[(ob, ?r)]"]
    by (simp add: log_ok_def lg' z)
qed

end
