(* ===== verification/Iam_Sessions.thy ===== *)
theory Iam_Sessions
  imports Iam_Events
begin

text \<open>
  Session management, \<open>src/residual/iam/sessions.py\<close>: session policies with address restrictions, and
  the manager that creates, validates, refreshes and revokes sessions.

  \<^item> \<open>env_net\<close> is the textual grammar of \<open>ipaddress.ip_network\<close>; membership of an address in a network
    is computed on words of the address width.
  \<^item> \<open>clk\<close> gives the clock readings of one call, in order; the random part of a session identifier is
    an argument. Operations return the manager beside the result, because the code may raise after it
    changed state.
  \<^item> Shown, for all sequences of calls under a clock that does not run backwards: no subject ever
    exceeds its concurrent sessions, every session comes from an allowed address, and a revoked session
    never validates again.
\<close>

section \<open>Policies\<close>

datatype network = Net4 "32 word" nat | Net6 "128 word" nat

unbundle bit_operations_syntax

fun in_network :: "ip_addr \<Rightarrow> network \<Rightarrow> bool" where
  "in_network (IPv4 a) (Net4 n len) = (a AND NOT (mask (32 - len)) = n)"
| "in_network (IPv6 a) (Net6 n len) = (a AND NOT (mask (128 - len)) = n)"
| "in_network _ _ = False"

record iam_env =
  env_hash :: "string \<Rightarrow> string"
  env_ip :: ip_reader
  env_net :: "string \<Rightarrow> network option"

record session_policy =
  session_timeout :: int
  idle_timeout :: int
  max_concurrent :: int
  allowed_networks :: "string list"

definition mk_session_policy :: "iam_env \<Rightarrow> session_policy \<Rightarrow> session_policy result" where
  "mk_session_policy env p =
     bind_r (iter_r (\<lambda>(n, v). ensure (1 \<le> v) (ContractError (n @ '' must be a positive integer'')))
       [(''session_timeout'', session_timeout p), (''idle_timeout'', idle_timeout p), (''max_concurrent'', max_concurrent p)]) (\<lambda>_.
     bind_r (ensure (idle_timeout p \<le> session_timeout p) (ContractError ''idle timeout cannot exceed session timeout'')) (\<lambda>_.
     bind_r (iter_r (\<lambda>c. ensure (env_net env c \<noteq> None) (ContractError ''invalid CIDR in allowed_networks'')) (allowed_networks p)) (\<lambda>_.
     Inr p)))"

definition ip_allowed :: "iam_env \<Rightarrow> session_policy \<Rightarrow> string \<Rightarrow> bool result" where
  "ip_allowed env p ip =
     bind_r (validate_ip (env_ip env) ip) (\<lambda>_.
     if allowed_networks p = [] then Inr True
     else Inr (case env_ip env ip of
         None \<Rightarrow> False
       | Some a \<Rightarrow> list_ex (\<lambda>c. case env_net env c of None \<Rightarrow> False | Some n \<Rightarrow> in_network a n) (allowed_networks p)))"

section \<open>Sessions\<close>

record session =
  ss_id :: string
  ss_subject :: string
  ss_ip :: string
  ss_created :: int
  ss_last :: int
  ss_mfa :: bool
  ss_subject_type :: string

definition mk_session :: "iam_env \<Rightarrow> session \<Rightarrow> session result" where
  "mk_session env s =
     bind_r (mk_identifier (ss_id s)) (\<lambda>_.
     bind_r (subject_identifier (ss_subject s)) (\<lambda>_.
     bind_r (validate_ip (env_ip env) (ss_ip s)) (\<lambda>_.
     bind_r (ensure (ss_created s \<le> ss_last s) (ContractError ''last activity precedes session creation'')) (\<lambda>_.
     Inr s))))"

record session_manager =
  sm_policy :: session_policy
  sm_log :: event_log
  sm_sessions :: "(string, session) dict"
  sm_revoked :: "string list"

definition new_manager :: "session_policy \<Rightarrow> event_log \<Rightarrow> session_manager" where
  "new_manager p lg = \<lparr>sm_policy = p, sm_log = lg, sm_sessions = [], sm_revoked = []\<rparr>"

definition within_timeouts :: "session_policy \<Rightarrow> session \<Rightarrow> int \<Rightarrow> bool" where
  "within_timeouts p s now = (now < ss_created s + session_timeout p \<and> now < ss_last s + idle_timeout p)"

definition active_for :: "session_manager \<Rightarrow> string \<Rightarrow> int \<Rightarrow> session list" where
  "active_for m subject now =
     filter (\<lambda>s. ss_subject s = subject \<and> ss_id s \<notin> set (sm_revoked m) \<and> within_timeouts (sm_policy m) s now)
       (map snd (sm_sessions m))"

text \<open>Recording an event and then raising \<open>e\<close>; a failing record raises its own error.\<close>

definition log_and_raise ::
  "iam_env \<Rightarrow> session_manager \<Rightarrow> string \<Rightarrow> string \<Rightarrow> string \<Rightarrow> (string \<times> json) list \<Rightarrow> int \<Rightarrow> error \<Rightarrow> session_manager \<times> 'a result" where
  "log_and_raise env m subject ip st details now e =
     (case record_event (env_hash env) (env_ip env) (sm_log m) ''access_denied'' subject ip ''deny'' st details now of
        Inl e' \<Rightarrow> (m, Inl e')
      | Inr lg \<Rightarrow> (m\<lparr>sm_log := lg\<rparr>, Inl e))"

definition store_session ::
  "iam_env \<Rightarrow> session_manager \<Rightarrow> session \<Rightarrow> int \<Rightarrow> session_manager \<times> session result" where
  "store_session env m s now =
     (let m = m\<lparr>sm_sessions := AList.update (ss_id s) s (sm_sessions m)\<rparr> in
      case record_event (env_hash env) (env_ip env) (sm_log m) ''login'' (ss_subject s) (ss_ip s) ''allow'' (ss_subject_type s)
          [(''session_id'', JStr (ss_id s)), (''mfa'', JBool (ss_mfa s))] now of
        Inl e \<Rightarrow> (m, Inl e)
      | Inr lg \<Rightarrow> (m\<lparr>sm_log := lg\<rparr>, Inr s))"

definition create_session ::
  "iam_env \<Rightarrow> session_manager \<Rightarrow> string \<Rightarrow> string \<Rightarrow> bool \<Rightarrow> string \<Rightarrow> string \<Rightarrow> (nat \<Rightarrow> int) \<Rightarrow> session_manager \<times> session result" where
  "create_session env m subject ip mfa st token clk =
     (case bind_r (subject_identifier subject) (\<lambda>_. bind_r (validate_ip (env_ip env) ip) (\<lambda>_. ip_allowed env (sm_policy m) ip)) of
        Inl e \<Rightarrow> (m, Inl e)
      | Inr ok \<Rightarrow>
          if \<not> ok then log_and_raise env m subject ip st [(''kind'', JStr ''ip_restriction'')] (clk 0)
            (ContractError ''source IP is not allowed by session policy'')
          else if int (length (active_for m subject (clk 0))) \<ge> max_concurrent (sm_policy m)
          then log_and_raise env m subject ip st [(''kind'', JStr ''concurrent_limit'')] (clk 1)
            (ContractError ''concurrent session limit reached'')
          else
            (case mk_session env \<lparr>ss_id = ''sess-'' @ token, ss_subject = subject, ss_ip = ip, ss_created = clk 1, ss_last = clk 1,
                ss_mfa = mfa, ss_subject_type = st\<rparr> of
               Inl e \<Rightarrow> (m, Inl e)
             | Inr s \<Rightarrow> store_session env m s (clk 2)))"

definition validate_session :: "session_manager \<Rightarrow> string \<Rightarrow> string option \<Rightarrow> int \<Rightarrow> session result" where
  "validate_session m sid ip now =
     bind_r (mk_identifier sid) (\<lambda>_.
     case map_of (sm_sessions m) sid of
       None \<Rightarrow> Inl (ContractError ''unknown session'')
     | Some s \<Rightarrow>
         bind_r (ensure (sid \<notin> set (sm_revoked m)) (ContractError ''session has been revoked'')) (\<lambda>_.
         bind_r (ensure (within_timeouts (sm_policy m) s now) (ContractError ''session expired'')) (\<lambda>_.
         bind_r (ensure (ip = None \<or> ip = Some (ss_ip s)) (ContractError ''session IP mismatch'')) (\<lambda>_.
         Inr s))))"

definition touch :: "iam_env \<Rightarrow> session_manager \<Rightarrow> string \<Rightarrow> string option \<Rightarrow> (nat \<Rightarrow> int) \<Rightarrow> session_manager \<times> session result" where
  "touch env m sid ip clk =
     (case bind_r (validate_session m sid ip (clk 0)) (\<lambda>s. mk_session env (s\<lparr>ss_last := clk 1\<rparr>)) of
        Inl e \<Rightarrow> (m, Inl e)
      | Inr s \<Rightarrow> (m\<lparr>sm_sessions := AList.update sid s (sm_sessions m)\<rparr>, Inr s))"

text \<open>The session is revoked before the event is recorded.\<close>

definition revoke_and_log ::
  "iam_env \<Rightarrow> session_manager \<Rightarrow> session \<Rightarrow> string \<Rightarrow> string \<Rightarrow> (string \<times> json) list \<Rightarrow> int \<Rightarrow> session_manager \<times> unit result" where
  "revoke_and_log env m s sid et details now =
     (let m = m\<lparr>sm_revoked := List.insert sid (sm_revoked m)\<rparr> in
      case record_event (env_hash env) (env_ip env) (sm_log m) et (ss_subject s) (ss_ip s) ''allow'' (ss_subject_type s) details now of
        Inl e \<Rightarrow> (m, Inl e)
      | Inr lg \<Rightarrow> (m\<lparr>sm_log := lg\<rparr>, Inr ()))"

definition revoke :: "iam_env \<Rightarrow> session_manager \<Rightarrow> string \<Rightarrow> string \<Rightarrow> int \<Rightarrow> session_manager \<times> unit result" where
  "revoke env m sid reason now =
     (case bind_r (mk_identifier sid) (\<lambda>_. bind_r (ensure (\<not> blank reason) (ContractError ''revocation reason is required'')) (\<lambda>_.
         case map_of (sm_sessions m) sid of None \<Rightarrow> Inl (ContractError ''unknown session'') | Some s \<Rightarrow> Inr s)) of
        Inl e \<Rightarrow> (m, Inl e)
      | Inr s \<Rightarrow> revoke_and_log env m s sid ''session_revoked'' [(''session_id'', JStr sid), (''reason'', JStr reason)] now)"

fun revoke_each ::
  "iam_env \<Rightarrow> string \<Rightarrow> string \<Rightarrow> (nat \<Rightarrow> int) \<Rightarrow> session list \<Rightarrow> nat \<Rightarrow> session_manager \<Rightarrow> session_manager \<times> nat result" where
  "revoke_each env subject reason clk [] count m = (m, Inr count)"
| "revoke_each env subject reason clk (s # ss) count m =
     (if ss_subject s = subject \<and> ss_id s \<notin> set (sm_revoked m)
      then (case revoke env m (ss_id s) reason (clk count) of
              (m', Inl e) \<Rightarrow> (m', Inl e)
            | (m', Inr _) \<Rightarrow> revoke_each env subject reason clk ss (Suc count) m')
      else revoke_each env subject reason clk ss count m)"

definition revoke_all ::
  "iam_env \<Rightarrow> session_manager \<Rightarrow> string \<Rightarrow> string \<Rightarrow> (nat \<Rightarrow> int) \<Rightarrow> session_manager \<times> nat result" where
  "revoke_all env m subject reason clk =
     (case subject_identifier subject of
        Inl e \<Rightarrow> (m, Inl e)
      | Inr _ \<Rightarrow> revoke_each env subject reason clk (map snd (sm_sessions m)) 0 m)"

definition logout :: "iam_env \<Rightarrow> session_manager \<Rightarrow> string \<Rightarrow> (nat \<Rightarrow> int) \<Rightarrow> session_manager \<times> unit result" where
  "logout env m sid clk =
     (case validate_session m sid None (clk 0) of
        Inl e \<Rightarrow> (m, Inl e)
      | Inr s \<Rightarrow> revoke_and_log env m s sid ''logout'' [(''session_id'', JStr sid)] (clk 1))"

definition is_revoked :: "session_manager \<Rightarrow> string \<Rightarrow> bool result" where
  "is_revoked m sid = bind_r (mk_identifier sid) (\<lambda>_. Inr (sid \<in> set (sm_revoked m)))"

definition active_sessions :: "session_manager \<Rightarrow> string \<Rightarrow> int \<Rightarrow> session list result" where
  "active_sessions m subject now = bind_r (subject_identifier subject) (\<lambda>_. Inr (active_for m subject now))"

section \<open>Sequences of calls\<close>

datatype session_op =
    CreateSession string string bool string string
  | TouchSession string "string option"
  | RevokeSession string string
  | RevokeAll string string
  | Logout string

fun session_step :: "iam_env \<Rightarrow> session_op \<Rightarrow> (nat \<Rightarrow> int) \<Rightarrow> session_manager \<Rightarrow> session_manager" where
  "session_step env (CreateSession subject ip mfa st token) clk m = fst (create_session env m subject ip mfa st token clk)"
| "session_step env (TouchSession sid ip) clk m = fst (touch env m sid ip clk)"
| "session_step env (RevokeSession sid reason) clk m = fst (revoke env m sid reason (clk 0))"
| "session_step env (RevokeAll subject reason) clk m = fst (revoke_all env m subject reason clk)"
| "session_step env (Logout sid) clk m = fst (logout env m sid clk)"

text \<open>\<open>sessions_at env m t\<close>: the manager \<open>m\<close> arises by calls whose clock readings are nondecreasing and at
  most \<open>t\<close>. A call may fail.\<close>

inductive sessions_at :: "iam_env \<Rightarrow> session_manager \<Rightarrow> int \<Rightarrow> bool" for env where
  start: "mk_session_policy env p = Inr p' \<Longrightarrow> sessions_at env (new_manager p' lg) t"
| step: "sessions_at env m t \<Longrightarrow> mono clk \<Longrightarrow> t \<le> clk 0 \<Longrightarrow> (\<And>k. clk k \<le> t') \<Longrightarrow> sessions_at env (session_step env op clk m) t'"

definition session_inv :: "iam_env \<Rightarrow> session_manager \<Rightarrow> int \<Rightarrow> bool" where
  "session_inv env m t = ((\<forall>subject u. t \<le> u \<longrightarrow> int (length (active_for m subject u)) \<le> max_concurrent (sm_policy m))
     \<and> (\<forall>(k, s)\<in>set (sm_sessions m). ss_id s = k \<and> ip_allowed env (sm_policy m) (ss_ip s) = Inr True))"

section \<open>Counting active sessions\<close>

lemma count_update:
  "length (filter P (map snd (AList.update k v al))) \<le> length (filter P (map snd al)) + (if P v then 1 else 0)"
  by (induction al) auto

lemma filter_length_mono: "(\<And>x. x \<in> set xs \<Longrightarrow> P x \<Longrightarrow> Q x) \<Longrightarrow> length (filter P xs) \<le> length (filter Q xs)"
proof (induction xs)
  case (Cons x xs)
  then have "length (filter P xs) \<le> length (filter Q xs)" by simp
  with Cons.prems [of x] show ?case by auto
qed simp

lemma count_replace:
  assumes "map_of al k = Some old" and "Q old" and "\<And>x. x \<in> snd ` set al \<Longrightarrow> P x \<Longrightarrow> Q x"
  shows "length (filter P (map snd (AList.update k v al))) \<le> length (filter Q (map snd al))"
  using assms
proof (induction al)
  case (Cons a al)
  obtain k' w where a: "a = (k', w)" by (cases a)
  have "length (filter P (map snd al)) \<le> length (filter Q (map snd al))"
    using Cons.prems(3) by (intro filter_length_mono) auto
  with Cons a show ?case by (cases "k' = k") auto
qed simp

lemma active_update:
  "active_for (m\<lparr>sm_sessions := al\<rparr>) subject u =
     filter (\<lambda>s. ss_subject s = subject \<and> ss_id s \<notin> set (sm_revoked m) \<and> within_timeouts (sm_policy m) s u) (map snd al)"
  by (simp add: active_for_def)

lemma within_timeouts_mono: "within_timeouts p s u \<Longrightarrow> t \<le> u \<Longrightarrow> within_timeouts p s t"
  by (simp add: within_timeouts_def)

lemma active_antimono: "t \<le> u \<Longrightarrow> length (active_for m subject u) \<le> length (active_for m subject t)"
  unfolding active_for_def by (intro filter_length_mono) (auto intro: within_timeouts_mono)

section \<open>Every call keeps the invariant\<close>

lemma session_inv_later: "session_inv env m t \<Longrightarrow> t \<le> u \<Longrightarrow> session_inv env m u"
  unfolding session_inv_def using order_trans by blast

lemma session_inv_log [simp]: "session_inv env (m\<lparr>sm_log := lg\<rparr>) t \<longleftrightarrow> session_inv env m t"
  by (simp add: session_inv_def active_for_def)

lemma session_inv_revoke: "session_inv env m t \<Longrightarrow> session_inv env (m\<lparr>sm_revoked := List.insert sid (sm_revoked m)\<rparr>) t"
proof -
  assume i: "session_inv env m t"
  have "length (active_for (m\<lparr>sm_revoked := List.insert sid (sm_revoked m)\<rparr>) subject u) \<le> length (active_for m subject u)" for subject u
    unfolding active_for_def by (simp, intro filter_length_mono) auto
  with i show ?thesis unfolding session_inv_def by (simp, meson of_nat_mono order_trans)
qed

lemma session_inv_log_and_raise: "session_inv env m t \<Longrightarrow> session_inv env (fst (log_and_raise env m a b c d now e)) t"
  by (simp add: log_and_raise_def split: sum.splits)

lemma session_inv_revoke_and_log: "session_inv env m t \<Longrightarrow> session_inv env (fst (revoke_and_log env m s sid et d now)) t"
  by (simp add: revoke_and_log_def Let_def session_inv_revoke split: sum.splits)

lemma session_inv_revoke_call: "session_inv env m t \<Longrightarrow> session_inv env (fst (revoke env m sid reason now)) t"
  by (auto simp: revoke_def session_inv_revoke_and_log split: sum.splits)

lemma session_inv_revoke_each: "session_inv env m t \<Longrightarrow> session_inv env (fst (revoke_each env subject reason clk ss n m)) t"
proof (induction env subject reason clk ss n m rule: revoke_each.induct)
  case (2 env subject reason clk s ss count m)
  obtain m' r where r: "revoke env m (ss_id s) reason (clk count) = (m', r)" by (cases "revoke env m (ss_id s) reason (clk count)")
  have "session_inv env m' t" using session_inv_revoke_call [OF "2.prems", of "ss_id s" reason "clk count"] r by simp
  with 2 r show ?case by (cases r) auto
qed simp

lemma validate_session_Inr:
  assumes "validate_session m sid ip now = Inr s"
  shows "map_of (sm_sessions m) sid = Some s" "sid \<notin> set (sm_revoked m)" "within_timeouts (sm_policy m) s now"
  using assms by (auto simp: validate_session_def result_simps split: option.splits)

lemma session_inv_touch:
  assumes i: "session_inv env m t" and c: "t \<le> clk 0" "clk 0 \<le> t'"
  shows "session_inv env (fst (touch env m sid ip clk)) t'"
proof (cases "bind_r (validate_session m sid ip (clk 0)) (\<lambda>s. mk_session env (s\<lparr>ss_last := clk 1\<rparr>))")
  case (Inl e)
  then show ?thesis using session_inv_later [OF i] c by (simp add: touch_def)
next
  case (Inr s')
  then obtain s where s: "validate_session m sid ip (clk 0) = Inr s" "s' = s\<lparr>ss_last := clk 1\<rparr>"
    by (auto simp: mk_session_def result_simps)
  note v = validate_session_Inr [OF s(1)]
  have id: "ss_id s = sid" "ip_allowed env (sm_policy m) (ss_ip s) = Inr True"
    using i map_of_SomeD [OF v(1)] by (auto simp: session_inv_def)
  let ?m = "m\<lparr>sm_sessions := AList.update sid s' (sm_sessions m)\<rparr>"
  have "int (length (active_for ?m subject u)) \<le> max_concurrent (sm_policy m)" if u: "t' \<le> u" for subject u
  proof (cases "ss_subject s = subject")
    case True
    have "length (active_for ?m subject u) \<le> length (active_for m subject (clk 0))"
      unfolding active_update active_for_def [of m]
      by (rule count_replace [OF v(1)]) (use v id True c u in \<open>auto intro: within_timeouts_mono\<close>)
    also have "int \<dots> \<le> max_concurrent (sm_policy m)" using i c(1) by (simp add: session_inv_def)
    finally show ?thesis by simp
  next
    case False
    have "length (active_for ?m subject u) \<le> length (active_for m subject u)"
      unfolding active_update active_for_def [of m] by (rule order_trans [OF count_update]) (use False s(2) in simp)
    also have "int \<dots> \<le> max_concurrent (sm_policy m)" using i c u by (simp add: session_inv_def)
    finally show ?thesis by simp
  qed
  moreover have "\<forall>(k, x)\<in>set (AList.update sid s' (sm_sessions m)). ss_id x = k \<and> ip_allowed env (sm_policy m) (ss_ip x) = Inr True"
    using i id s(2) by (auto simp: session_inv_def dest!: update_mem)
  ultimately have "session_inv env ?m t'" by (simp add: session_inv_def)
  then show ?thesis using Inr by (simp add: touch_def)
qed

lemma session_inv_store:
  assumes i: "session_inv env m t" and n: "int (length (active_for m (ss_subject s) c)) < max_concurrent (sm_policy m)"
    and c: "t \<le> c" "c \<le> t'" and ip: "ip_allowed env (sm_policy m) (ss_ip s) = Inr True"
  shows "session_inv env (fst (store_session env m s now)) t'"
proof -
  let ?m = "m\<lparr>sm_sessions := AList.update (ss_id s) s (sm_sessions m)\<rparr>"
  have "int (length (active_for ?m subject u)) \<le> max_concurrent (sm_policy m)" if u: "t' \<le> u" for subject u
  proof -
    have le: "length (active_for ?m subject u) \<le> length (active_for m subject u) + (if ss_subject s = subject then 1 else 0)"
      unfolding active_update active_for_def [of m] by (rule order_trans [OF count_update]) simp
    show ?thesis
    proof (cases "ss_subject s = subject")
      case True
      have "length (active_for m subject u) \<le> length (active_for m subject c)" using c u by (intro active_antimono) linarith
      with le n True show ?thesis by simp
    next
      case False
      have "int (length (active_for m subject u)) \<le> max_concurrent (sm_policy m)" using i c u by (simp add: session_inv_def)
      with le False show ?thesis by simp
    qed
  qed
  moreover have "\<forall>(k, x)\<in>set (AList.update (ss_id s) s (sm_sessions m)). ss_id x = k \<and> ip_allowed env (sm_policy m) (ss_ip x) = Inr True"
    using i ip by (auto simp: session_inv_def dest!: update_mem)
  ultimately have "session_inv env ?m t'" by (simp add: session_inv_def)
  then show ?thesis by (simp add: store_session_def Let_def split: sum.splits)
qed

lemma session_inv_create:
  assumes i: "session_inv env m t" and c: "t \<le> clk 0" "clk 0 \<le> t'"
  shows "session_inv env (fst (create_session env m subject ip mfa st token clk)) t'"
proof -
  let ?g = "bind_r (subject_identifier subject) (\<lambda>_. bind_r (validate_ip (env_ip env) ip) (\<lambda>_. ip_allowed env (sm_policy m) ip))"
  let ?s = "\<lparr>ss_id = ''sess-'' @ token, ss_subject = subject, ss_ip = ip, ss_created = clk 1, ss_last = clk 1, ss_mfa = mfa, ss_subject_type = st\<rparr>"
  have i': "session_inv env m t'" using session_inv_later [OF i] c by simp
  consider e where "?g = Inl e" | "?g = Inr False"
    | "?g = Inr True" "int (length (active_for m subject (clk 0))) \<ge> max_concurrent (sm_policy m)"
    | e where "?g = Inr True" "\<not> int (length (active_for m subject (clk 0))) \<ge> max_concurrent (sm_policy m)" "mk_session env ?s = Inl e"
    | "?g = Inr True" "\<not> int (length (active_for m subject (clk 0))) \<ge> max_concurrent (sm_policy m)" "mk_session env ?s = Inr ?s"
    by (cases ?g; cases "mk_session env ?s") (force simp: mk_session_def result_simps)+
  then show ?thesis
  proof cases
    case 5
    have "ip_allowed env (sm_policy m) ip = Inr True" using 5(1) by (auto simp: bind_r_Inr_iff)
    then have "session_inv env (fst (store_session env m ?s (clk 2))) t'"
      using 5(2) by (intro session_inv_store [OF i _ c]) simp_all
    with 5 show ?thesis by (simp add: create_session_def)
  qed (use i' session_inv_log_and_raise [OF i'] in \<open>simp_all add: create_session_def\<close>)
qed

lemma session_inv_step:
  assumes "session_inv env m t" and "t \<le> clk 0" and "clk 0 \<le> t'"
  shows "session_inv env (session_step env op clk m) t'"
proof (cases op)
  case CreateSession
  then show ?thesis using session_inv_create [of env m t clk t', OF assms] by simp
next
  case TouchSession
  then show ?thesis using session_inv_touch [of env m t clk t', OF assms] by simp
next
  case RevokeSession
  then show ?thesis using session_inv_revoke_call session_inv_later [OF assms(1)] assms by simp
next
  case RevokeAll
  then show ?thesis using session_inv_revoke_each session_inv_later [OF assms(1), of t'] assms by (simp add: revoke_all_def split: sum.splits)
next
  case Logout
  then show ?thesis using session_inv_revoke_and_log session_inv_later [OF assms(1), of t'] assms by (simp add: logout_def split: sum.splits)
qed

lemma sessions_at_inv: "sessions_at env m t \<Longrightarrow> session_inv env m t"
proof (induction rule: sessions_at.induct)
  case (start p p' lg t)
  then show ?case by (auto simp: session_inv_def new_manager_def active_for_def mk_session_policy_def result_simps)
next
  case (step m t clk t' op)
  then show ?case using session_inv_step by blast
qed

section \<open>Revocation\<close>

lemma revoked_mono_each: "set (sm_revoked m) \<subseteq> set (sm_revoked (fst (revoke_each env subject reason clk ss n m)))"
proof (induction ss arbitrary: n m)
  case (Cons s ss)
  obtain m' r where r: "revoke env m (ss_id s) reason (clk n) = (m', r)" by (cases "revoke env m (ss_id s) reason (clk n)")
  have "set (sm_revoked m) \<subseteq> set (sm_revoked m')"
    using r by (auto simp: revoke_def revoke_and_log_def Let_def split: sum.splits)
  with Cons.IH [of m' "Suc n"] Cons.IH [of m n] r show ?case by (cases r) auto
qed simp

lemma revoked_mono: "set (sm_revoked m) \<subseteq> set (sm_revoked (session_step env op clk m))"
proof (cases op)
  case RevokeAll
  then show ?thesis using revoked_mono_each by (auto simp: revoke_all_def split: sum.splits)
qed (auto simp: create_session_def log_and_raise_def store_session_def touch_def revoke_def logout_def revoke_and_log_def Let_def split: sum.splits)

lemma revoked_mono_fold: "set (sm_revoked m) \<subseteq> set (sm_revoked (fold (\<lambda>(op, clk). session_step env op clk) ops m))"
proof (induction ops arbitrary: m)
  case (Cons x ops)
  then show ?case using revoked_mono [of m env "fst x" "snd x"] by (cases x) (auto intro: order_trans)
qed simp

section \<open>Properties\<close>

text \<open>Session limits hold in every reachable state. However calls to create, refresh, revoke and end
  sessions are interleaved, failing calls included, with a clock that does not run backwards, no
  subject ever has more active sessions than the policy allows, now or at any later time, and every
  stored session was opened from an address the policy admits.\<close>

theorem session_limit_holds:
  assumes "sessions_at env m t" and "t \<le> u"
  shows "int (length (active_for m subject u)) \<le> max_concurrent (sm_policy m)
    \<and> (\<forall>(sid, s)\<in>set (sm_sessions m). ss_id s = sid \<and> ip_allowed env (sm_policy m) (ss_ip s) = Inr True)"
  using sessions_at_inv [OF assms(1)] assms(2) by (simp add: session_inv_def)

text \<open>C28. Revocation is immediate and final. After \<open>revoke\<close> has accepted a session, even if recording the
  event fails, no later sequence of calls makes that session identifier validate, at any time and from
  any address. A validation that succeeds is of a stored session that is not revoked and inside both
  its absolute and its idle lifetime.\<close>

theorem revocation_is_final:
  assumes "revoke env m sid reason now = (m', r)" and "map_of (sm_sessions m) sid = Some s" and "ident_ok sid" and "\<not> blank reason"
  shows "(\<forall>ops ip t x. validate_session (fold (\<lambda>(op, clk). session_step env op clk) ops m') sid ip t \<noteq> Inr x)
    \<and> (\<forall>n k ip t x. validate_session n k ip t = Inr x \<longrightarrow> map_of (sm_sessions n) k = Some x \<and> k \<notin> set (sm_revoked n)
         \<and> t < ss_created x + session_timeout (sm_policy n) \<and> t < ss_last x + idle_timeout (sm_policy n))"
proof -
  have "sid \<in> set (sm_revoked m')"
    using assms by (auto simp: revoke_def revoke_and_log_def mk_identifier_def Let_def split: sum.splits)
  then have "sid \<in> set (sm_revoked (fold (\<lambda>(op, clk). session_step env op clk) ops m'))" for ops
    using revoked_mono_fold by blast
  then show ?thesis
    using validate_session_Inr unfolding within_timeouts_def by blast
qed

section \<open>Witnesses\<close>

definition sample_env :: iam_env where
  "sample_env = \<lparr>env_hash = (\<lambda>_. replicate 64 (CHR ''0'')), env_ip = (\<lambda>s. if s = ''10.0.0.7'' then Some (IPv4 0x0A000007) else None),
     env_net = (\<lambda>s. if s = ''10.0.0.0/8'' then Some (Net4 0x0A000000 8) else None)\<rparr>"

definition sample_policy :: session_policy where
  "sample_policy = \<lparr>session_timeout = 100, idle_timeout = 10, max_concurrent = 1, allowed_networks = [''10.0.0.0/8'']\<rparr>"

definition sample_manager :: session_manager where
  "sample_manager = session_step sample_env (CreateSession ''ann'' ''10.0.0.7'' False ''human'' ''ab'') (\<lambda>_. 5) (new_manager sample_policy empty_log)"

lemma sample_sessions_at: "sessions_at sample_env sample_manager 5"
  unfolding sample_manager_def
proof (rule step)
  have "mk_session_policy sample_env sample_policy = Inr sample_policy"
    by (simp add: mk_session_policy_def sample_env_def sample_policy_def)
  then show "sessions_at sample_env (new_manager sample_policy empty_log) 5" by (rule start)
qed (simp_all add: mono_def)

lemma sample_manager_sessions:
  "map fst (sm_sessions sample_manager) = [''sess-ab''] \<and> ident_ok ''sess-ab'' \<and> length (active_for sample_manager ''ann'' 5) = 1
   \<and> max_concurrent (sm_policy sample_manager) = 1"
  by code_simp

theorem session_limit_holds_witness:
  "int (length (active_for sample_manager ''ann'' 9)) \<le> 1 \<and> length (active_for sample_manager ''ann'' 5) = 1"
  using session_limit_holds [OF sample_sessions_at, of 9 "''ann''"] sample_manager_sessions by simp

theorem revocation_is_final_witness:
  "\<exists>m' r. revoke sample_env sample_manager ''sess-ab'' ''stolen'' 6 = (m', r) \<and> (\<forall>ip t x. validate_session m' ''sess-ab'' ip t \<noteq> Inr x)"
proof -
  obtain s where s: "map_of (sm_sessions sample_manager) ''sess-ab'' = Some s"
    using sample_manager_sessions by (cases "sm_sessions sample_manager") auto
  have b: "\<not> blank ''stolen''" by code_simp
  obtain m' r where r: "revoke sample_env sample_manager ''sess-ab'' ''stolen'' 6 = (m', r)" by fastforce
  from revocation_is_final [OF r s _ b] sample_manager_sessions
  have "\<forall>ops ip t x. validate_session (fold (\<lambda>(op, clk). session_step sample_env op clk) ops m') ''sess-ab'' ip t \<noteq> Inr x" by blast
  from this [rule_format, of "[]"] r show ?thesis by auto
qed

end
