(* ===== verification/Iam_Access.thy ===== *)
theory Iam_Access
  imports Iam_Events Py_Number
begin

text \<open>
  Access decisions: roles (\<open>src/residual/iam/rbac.py\<close>) and attribute policies
  (\<open>src/residual/iam/abac.py\<close>).

  \<^item> Role and permission sets are lists read as sets; where the code sorts a set, so does the model.
  \<^item> Attribute values are JSON values; \<open>==\<close> is \<open>py_eq\<close>. The test \<open>value in actual\<close> on a string raises
    for a value that is not a string, so matching a condition is fallible.
  \<^item> Shown: the evaluation of policies is deny-overrides and independent of their order.
\<close>

section \<open>Roles\<close>

definition PERMISSION_CATEGORIES :: "string list" where
  "PERMISSION_CATEGORIES = [''task_type'', ''swarm_participation'', ''hitl_approval'', ''receipt_visibility'',
     ''module_installation'', ''policy_modification'']"

definition WILDCARD :: string where
  "WILDCARD = ''*''"

record permission =
  pm_category :: string
  pm_scope :: string

definition mk_permission :: "string \<Rightarrow> string \<Rightarrow> permission result" where
  "mk_permission c s =
     bind_r (ensure (c \<in> set PERMISSION_CATEGORIES) (ContractError ''unknown permission category'')) (\<lambda>_.
     bind_r (ensure (\<not> blank s) (ContractError ''permission scope must be a non-empty string'')) (\<lambda>_.
     Inr \<lparr>pm_category = c, pm_scope = s\<rparr>))"

definition permission_grants :: "permission \<Rightarrow> string \<Rightarrow> string \<Rightarrow> bool" where
  "permission_grants p c s = (if pm_category p \<noteq> c then False else pm_scope p = WILDCARD \<or> pm_scope p = s)"

record role =
  rl_name :: string
  rl_permissions :: "permission list"
  rl_description :: string

definition mk_role :: "role \<Rightarrow> role result" where
  "mk_role r = bind_r (mk_identifier (rl_name r)) (\<lambda>_. Inr r)"

definition role_grants :: "role \<Rightarrow> string \<Rightarrow> string \<Rightarrow> bool" where
  "role_grants r c s = list_ex (\<lambda>p. permission_grants p c s) (rl_permissions r)"

record role_registry =
  rr_roles :: "(string, role) dict"
  rr_assignments :: "(string, string list) dict"

definition empty_roles :: role_registry where
  "empty_roles = \<lparr>rr_roles = [], rr_assignments = []\<rparr>"

definition assigned :: "role_registry \<Rightarrow> string \<Rightarrow> string list" where
  "assigned rr s = (case map_of (rr_assignments rr) s of None \<Rightarrow> [] | Some ns \<Rightarrow> ns)"

definition define_role :: "role_registry \<Rightarrow> role \<Rightarrow> role_registry" where
  "define_role rr r = rr\<lparr>rr_roles := AList.update (rl_name r) r (rr_roles rr)\<rparr>"

definition get_role :: "role_registry \<Rightarrow> string \<Rightarrow> role result" where
  "get_role rr n = (case map_of (rr_roles rr) n of None \<Rightarrow> Inl (ContractError ''unknown role'') | Some r \<Rightarrow> Inr r)"

definition assign :: "role_registry \<Rightarrow> string \<Rightarrow> string \<Rightarrow> role_registry result" where
  "assign rr s n =
     bind_r (subject_identifier s) (\<lambda>_.
     bind_r (get_role rr n) (\<lambda>_.
     Inr (rr\<lparr>rr_assignments := AList.update s (List.insert n (assigned rr s)) (rr_assignments rr)\<rparr>)))"

definition unassign :: "role_registry \<Rightarrow> string \<Rightarrow> string \<Rightarrow> role_registry result" where
  "unassign rr s n =
     bind_r (subject_identifier s) (\<lambda>_.
     Inr (if s \<in> fst ` set (rr_assignments rr)
          then rr\<lparr>rr_assignments := AList.update s (removeAll n (assigned rr s)) (rr_assignments rr)\<rparr> else rr))"

definition roles_for :: "role_registry \<Rightarrow> string \<Rightarrow> role list result" where
  "roles_for rr s =
     bind_r (subject_identifier s) (\<lambda>_.
     Inr (List.map_filter (map_of (rr_roles rr)) (sort (remdups (assigned rr s)))))"

definition role_is_allowed :: "role_registry \<Rightarrow> string \<Rightarrow> string \<Rightarrow> string \<Rightarrow> bool result" where
  "role_is_allowed rr s c scope =
     bind_r (ensure (c \<in> set PERMISSION_CATEGORIES) (ContractError ''unknown permission category'')) (\<lambda>_.
     bind_r (roles_for rr s) (\<lambda>rs.
     Inr (list_ex (\<lambda>r. role_grants r c scope) rs)))"

lemma role_is_allowed_iff:
  "role_is_allowed rr s c scope = Inr b \<longleftrightarrow> c \<in> set PERMISSION_CATEGORIES \<and> subject_ok s
     \<and> b = (\<exists>n\<in>set (assigned rr s). \<exists>r p. map_of (rr_roles rr) n = Some r \<and> p \<in> set (rl_permissions r)
          \<and> pm_category p = c \<and> (pm_scope p = WILDCARD \<or> pm_scope p = scope))"
proof -
  have "set (List.map_filter (map_of (rr_roles rr)) (sort (remdups (assigned rr s))))
      = {r. \<exists>n\<in>set (assigned rr s). map_of (rr_roles rr) n = Some r}"
    by (force simp: List.map_filter_def)
  then show ?thesis
    by (auto simp: role_is_allowed_def roles_for_def result_simps list_ex_iff role_grants_def permission_grants_def)
qed

lemma unassign_revokes:
  "unassign rr s n = Inr rr' \<Longrightarrow> n \<notin> set (assigned rr' s)"
  by (auto simp: unassign_def assigned_def result_simps map_of_eq_None_iff [THEN iffD2] split: if_splits)

section \<open>Attributes\<close>

record user_attributes =
  ua_department :: json
  ua_region :: json
  ua_clearance :: json
  ua_employment :: json
  ua_custom :: "(string \<times> json) list"

definition mk_attributes :: "user_attributes \<Rightarrow> user_attributes result" where
  "mk_attributes a =
     bind_r (ensure (case ua_clearance a of JNull \<Rightarrow> True | JInt c \<Rightarrow> 0 \<le> c | _ \<Rightarrow> False)
       (ContractError ''clearance_level must be a nonnegative integer'')) (\<lambda>_.
     bind_r (canonical (JObj (ua_custom a))) (\<lambda>_.
     Inr a))"

definition KNOWN_ATTRIBUTES :: "string list" where
  "KNOWN_ATTRIBUTES = [''department'', ''region'', ''clearance_level'', ''employment_status'']"

definition from_idp :: "(string \<Rightarrow> rat) \<Rightarrow> (string \<times> json) list \<Rightarrow> user_attributes result" where
  "from_idp fv attrs =
     (let known = filter (\<lambda>(k, v). k \<in> set KNOWN_ATTRIBUTES) attrs;
          custom = filter (\<lambda>(k, v). k \<notin> set KNOWN_ATTRIBUTES) attrs in
      bind_r (case map_of known ''clearance_level'' of
          None \<Rightarrow> Inr JNull
        | Some v \<Rightarrow> (case int_of fv v of
              Inr i \<Rightarrow> Inr (JInt i)
            | Inl (TypeError m) \<Rightarrow> Inl (ContractError ''clearance_level must be an integer'')
            | Inl (ValueError m) \<Rightarrow> Inl (ContractError ''clearance_level must be an integer'')
            | Inl e \<Rightarrow> Inl e)) (\<lambda>c.
      mk_attributes \<lparr>ua_department = jget known ''department'', ua_region = jget known ''region'', ua_clearance = c,
        ua_employment = jget known ''employment_status'', ua_custom = custom\<rparr>))"

definition attribute :: "user_attributes \<Rightarrow> string \<Rightarrow> json" where
  "attribute a n = (if n = ''department'' then ua_department a else if n = ''region'' then ua_region a
     else if n = ''clearance_level'' then ua_clearance a else if n = ''employment_status'' then ua_employment a
     else jget (ua_custom a) n)"

section \<open>Conditions and policies\<close>

datatype operator = OpEq | OpNeq | OpIn | OpGte | OpLte | OpContains

record condition =
  cn_attribute :: string
  cn_operator :: operator
  cn_value :: json

definition mk_condition :: "condition \<Rightarrow> condition result" where
  "mk_condition c =
     bind_r (ensure (\<not> blank (cn_attribute c)) (ContractError ''condition attribute is required'')) (\<lambda>_.
     bind_r (canonical (cn_value c)) (\<lambda>_.
     Inr c))"

fun occurs_in :: "string \<Rightarrow> string \<Rightarrow> bool" where
  "occurs_in p [] = (p = [])"
| "occurs_in p (c # cs) = (take (length p) (c # cs) = p \<or> occurs_in p cs)"

fun contains :: "json \<Rightarrow> json \<Rightarrow> bool result" where
  "contains (JArr vs) v = Inr (list_ex (py_eq v) vs)"
| "contains (JStr s) (JStr t) = Inr (occurs_in t s)"
| "contains (JStr s) v = Inl (TypeError ''in <string> requires string as left operand'')"
| "contains _ v = Inr False"

definition numeric :: "(string \<Rightarrow> rat) \<Rightarrow> (num \<Rightarrow> num \<Rightarrow> bool) \<Rightarrow> json \<Rightarrow> json \<Rightarrow> bool" where
  "numeric fv le a b = (case (json_num fv a, json_num fv b) of (Some x, Some y) \<Rightarrow> le x y | _ \<Rightarrow> False)"

definition condition_matches :: "(string \<Rightarrow> rat) \<Rightarrow> condition \<Rightarrow> user_attributes \<Rightarrow> bool result" where
  "condition_matches fv c a =
     (let actual = attribute a (cn_attribute c); v = cn_value c in
      if actual = JNull then Inr False
      else case cn_operator c of
        OpEq \<Rightarrow> Inr (py_eq actual v)
      | OpNeq \<Rightarrow> Inr (\<not> py_eq actual v)
      | OpIn \<Rightarrow> Inr (case v of JArr vs \<Rightarrow> list_ex (py_eq actual) vs | _ \<Rightarrow> False)
      | OpContains \<Rightarrow> contains actual v
      | OpGte \<Rightarrow> Inr (numeric fv (\<lambda>x y. num_le y x) actual v)
      | OpLte \<Rightarrow> Inr (numeric fv num_le actual v))"

datatype effect = EAllow | EDeny

record abac_policy =
  ap_name :: string
  ap_effect :: effect
  ap_category :: string
  ap_conditions :: "condition list"
  ap_scope :: string

definition mk_abac_policy :: "abac_policy \<Rightarrow> abac_policy result" where
  "mk_abac_policy p =
     bind_r (mk_identifier (ap_name p)) (\<lambda>_.
     bind_r (ensure (ap_category p \<in> set PERMISSION_CATEGORIES) (ContractError ''unknown permission category'')) (\<lambda>_.
     bind_r (ensure (\<not> blank (ap_scope p)) (ContractError ''policy scope must be a non-empty string'')) (\<lambda>_.
     Inr p)))"

text \<open>\<open>all(...)\<close> stops at the first condition that does not match.\<close>

fun all_match :: "(string \<Rightarrow> rat) \<Rightarrow> user_attributes \<Rightarrow> condition list \<Rightarrow> bool result" where
  "all_match fv a [] = Inr True"
| "all_match fv a (c # cs) = bind_r (condition_matches fv c a) (\<lambda>b. if b then all_match fv a cs else Inr False)"

definition policy_applies :: "(string \<Rightarrow> rat) \<Rightarrow> abac_policy \<Rightarrow> user_attributes \<Rightarrow> string \<Rightarrow> string \<Rightarrow> bool result" where
  "policy_applies fv p a c s =
     (if ap_category p \<noteq> c then Inr False
      else if ap_scope p \<noteq> WILDCARD \<and> ap_scope p \<noteq> s then Inr False
      else all_match fv a (ap_conditions p))"

record abac_decision =
  ad_allowed :: bool
  ad_matched_allow :: "string list"
  ad_matched_deny :: "string list"

type_synonym abac_evaluator = "abac_policy list"

definition mk_evaluator :: "abac_policy list \<Rightarrow> abac_evaluator result" where
  "mk_evaluator ps = bind_r (ensure (distinct (map ap_name ps)) (ContractError ''duplicate policy names'')) (\<lambda>_. Inr ps)"

definition add_policy :: "abac_evaluator \<Rightarrow> abac_policy \<Rightarrow> abac_evaluator result" where
  "add_policy ps p =
     bind_r (ensure (ap_name p \<notin> ap_name ` set ps) (ContractError ''duplicate policy name'')) (\<lambda>_. Inr (ps @ [p]))"

definition abac_step ::
  "(string \<Rightarrow> rat) \<Rightarrow> user_attributes \<Rightarrow> string \<Rightarrow> string \<Rightarrow> string list \<times> string list \<Rightarrow> abac_policy \<Rightarrow> (string list \<times> string list) result" where
  "abac_step fv a c s ms p =
     bind_r (policy_applies fv p a c s) (\<lambda>b.
     Inr (if \<not> b then ms
          else if ap_effect p = EAllow then (fst ms @ [ap_name p], snd ms)
          else (fst ms, snd ms @ [ap_name p])))"

definition abac_evaluate :: "(string \<Rightarrow> rat) \<Rightarrow> abac_evaluator \<Rightarrow> user_attributes \<Rightarrow> string \<Rightarrow> string \<Rightarrow> abac_decision result" where
  "abac_evaluate fv ps a c s =
     bind_r (ensure (c \<in> set PERMISSION_CATEGORIES) (ContractError ''unknown permission category'')) (\<lambda>_.
     bind_r (fold_r (abac_step fv a c s) ([], []) ps) (\<lambda>(allow, deny).
     Inr \<lparr>ad_allowed = (deny = [] \<and> allow \<noteq> []), ad_matched_allow = allow, ad_matched_deny = deny\<rparr>))"

lemma abac_fold:
  "fold_r (abac_step fv a c s) (al, dn) ps = Inr (al', dn') \<longleftrightarrow>
     (\<forall>p\<in>set ps. \<exists>b. policy_applies fv p a c s = Inr b)
     \<and> al' = al @ map ap_name (filter (\<lambda>p. policy_applies fv p a c s = Inr True \<and> ap_effect p = EAllow) ps)
     \<and> dn' = dn @ map ap_name (filter (\<lambda>p. policy_applies fv p a c s = Inr True \<and> ap_effect p = EDeny) ps)"
proof (induction ps arbitrary: al dn)
  case (Cons p ps)
  show ?case
  proof (cases "policy_applies fv p a c s")
    case (Inl e)
    then show ?thesis by (simp add: abac_step_def)
  next
    case (Inr b)
    then have "abac_step fv a c s (al, dn) p = Inr (if \<not> b then (al, dn) else if ap_effect p = EAllow then (al @ [ap_name p], dn) else (al, dn @ [ap_name p]))"
      by (simp add: abac_step_def)
    with Inr show ?thesis by (cases b; cases "ap_effect p") (simp_all add: Cons.IH ex_bool_eq)
  qed
qed auto

section \<open>Properties\<close>

text \<open>Attribute policies combine by deny-overrides. An evaluation that returns reports exactly the
  names of the matching allow and deny policies, in their order, and allows the request if and only
  if some allow policy matches and no deny policy does. The decision does not depend on the order of
  the policies, and adding a policy that denies never turns a refusal into a permission.\<close>

theorem abac_deny_overrides:
  assumes "abac_evaluate fv ps a c s = Inr d"
  shows "ad_matched_allow d = map ap_name (filter (\<lambda>p. policy_applies fv p a c s = Inr True \<and> ap_effect p = EAllow) ps)
    \<and> ad_matched_deny d = map ap_name (filter (\<lambda>p. policy_applies fv p a c s = Inr True \<and> ap_effect p = EDeny) ps)
    \<and> (ad_allowed d \<longleftrightarrow> (\<exists>p\<in>set ps. ap_effect p = EAllow \<and> policy_applies fv p a c s = Inr True)
         \<and> \<not> (\<exists>p\<in>set ps. ap_effect p = EDeny \<and> policy_applies fv p a c s = Inr True))
    \<and> (\<forall>qs. set qs = set ps \<longrightarrow> (\<exists>d'. abac_evaluate fv qs a c s = Inr d' \<and> ad_allowed d' = ad_allowed d))
    \<and> (\<forall>q d'. ap_effect q = EDeny \<longrightarrow> abac_evaluate fv (ps @ [q]) a c s = Inr d' \<longrightarrow> ad_allowed d' \<longrightarrow> ad_allowed d)"
proof -
  have e: "abac_evaluate fv qs a c s = Inr x \<longleftrightarrow> c \<in> set PERMISSION_CATEGORIES \<and> (\<forall>p\<in>set qs. \<exists>b. policy_applies fv p a c s = Inr b)
      \<and> x = (let al = map ap_name (filter (\<lambda>p. policy_applies fv p a c s = Inr True \<and> ap_effect p = EAllow) qs);
                 dn = map ap_name (filter (\<lambda>p. policy_applies fv p a c s = Inr True \<and> ap_effect p = EDeny) qs) in
        \<lparr>ad_allowed = (dn = [] \<and> al \<noteq> []), ad_matched_allow = al, ad_matched_deny = dn\<rparr>)" for qs x
    by (auto simp: abac_evaluate_def result_simps abac_fold Let_def)
  have d: "ad_allowed d \<longleftrightarrow> (\<exists>p\<in>set ps. ap_effect p = EAllow \<and> policy_applies fv p a c s = Inr True)
      \<and> \<not> (\<exists>p\<in>set ps. ap_effect p = EDeny \<and> policy_applies fv p a c s = Inr True)"
    using assms by (auto simp: e Let_def filter_empty_conv)
  have "\<exists>d'. abac_evaluate fv qs a c s = Inr d' \<and> ad_allowed d' = ad_allowed d" if "set qs = set ps" for qs
    using assms that d by (auto simp: e Let_def filter_empty_conv)
  moreover have "ad_allowed d" if "ap_effect q = EDeny" "abac_evaluate fv (ps @ [q]) a c s = Inr d'" "ad_allowed d'" for q d'
  proof -
    have "ad_allowed d' \<longleftrightarrow> (\<exists>p\<in>set (ps @ [q]). ap_effect p = EAllow \<and> policy_applies fv p a c s = Inr True)
      \<and> \<not> (\<exists>p\<in>set (ps @ [q]). ap_effect p = EDeny \<and> policy_applies fv p a c s = Inr True)"
      using that(2) unfolding e Let_def by (auto simp: filter_empty_conv)
    with that d show ?thesis by auto
  qed
  moreover have "ad_matched_allow d = map ap_name (filter (\<lambda>p. policy_applies fv p a c s = Inr True \<and> ap_effect p = EAllow) ps)"
    "ad_matched_deny d = map ap_name (filter (\<lambda>p. policy_applies fv p a c s = Inr True \<and> ap_effect p = EDeny) ps)"
    using assms unfolding e Let_def by simp_all
  ultimately show ?thesis using d by blast
qed

section \<open>Witnesses\<close>

theorem abac_deny_overrides_witness:
  "let pol = (\<lambda>n ef v. \<lparr>ap_name = n, ap_effect = ef, ap_category = ''task_type'',
         ap_conditions = [\<lparr>cn_attribute = ''region'', cn_operator = OpEq, cn_value = JStr v\<rparr>], ap_scope = WILDCARD\<rparr>);
       a = \<lparr>ua_department = JNull, ua_region = JStr ''eu'', ua_clearance = JNull, ua_employment = JNull, ua_custom = []\<rparr> in
   \<exists>d. abac_evaluate (\<lambda>_. 0) [pol ''p'' EAllow ''eu'', pol ''q'' EDeny ''eu''] a ''task_type'' ''x'' = Inr d \<and> \<not> ad_allowed d"
proof -
  let ?pol = "\<lambda>n ef v. \<lparr>ap_name = n, ap_effect = ef, ap_category = ''task_type'',
         ap_conditions = [\<lparr>cn_attribute = ''region'', cn_operator = OpEq, cn_value = JStr v\<rparr>], ap_scope = WILDCARD\<rparr>"
  let ?a = "\<lparr>ua_department = JNull, ua_region = JStr ''eu'', ua_clearance = JNull, ua_employment = JNull, ua_custom = []\<rparr>"
  have ap: "policy_applies (\<lambda>_. 0) (?pol ''q'' EDeny ''eu'') ?a ''task_type'' ''x'' = Inr True"
    by (simp add: policy_applies_def condition_matches_def attribute_def Let_def py_eq_def)
  obtain d where e: "abac_evaluate (\<lambda>_. 0) [?pol ''p'' EAllow ''eu'', ?pol ''q'' EDeny ''eu''] ?a ''task_type'' ''x'' = Inr d"
    by (simp add: abac_evaluate_def PERMISSION_CATEGORIES_def abac_step_def policy_applies_def condition_matches_def attribute_def
        Let_def py_eq_def)
  from abac_deny_overrides [OF e] ap have "\<not> ad_allowed d" by auto
  with e show ?thesis by (auto simp: Let_def)
qed

end
