(* ===== verification/Iam_Jit.thy ===== *)
theory Iam_Jit
  imports Iam_Access
begin

text \<open>
  Just-in-time elevation, \<open>src/residual/iam/jit.py\<close>: requests, approvals by designated approvers and
  time-boxed grants, combined with the role registry.

  \<^item> \<open>clk\<close> gives the clock readings of a call in order, the random part of a request identifier is an
    argument. Operations return the manager beside the result: the code changes state before it logs
    and before some checks, and \<open>approve\<close> may raise after the grant is in force.
  \<^item> Shown: in every reachable state an elevation rests on a grant of a designated approver other than
    the subject, within its time window of at most a day.
\<close>

definition MAX_ELEVATION_SECONDS :: int where
  "MAX_ELEVATION_SECONDS = 24 * 3600"

record elevation_request =
  eq_id :: string
  eq_subject :: string
  eq_category :: string
  eq_scope :: string
  eq_reason :: string
  eq_duration :: int
  eq_requested :: int
  eq_task :: "string option"

definition mk_request :: "elevation_request \<Rightarrow> elevation_request result" where
  "mk_request r =
     bind_r (mk_identifier (eq_id r)) (\<lambda>_.
     bind_r (subject_identifier (eq_subject r)) (\<lambda>_.
     bind_r (ensure (eq_category r \<in> set PERMISSION_CATEGORIES) (ContractError ''unknown permission category'')) (\<lambda>_.
     bind_r (ensure (\<not> blank (eq_scope r)) (ContractError ''elevation scope must be a non-empty string'')) (\<lambda>_.
     bind_r (ensure (\<not> blank (eq_reason r)) (ContractError ''elevation requires a reason'')) (\<lambda>_.
     bind_r (ensure (0 < eq_duration r \<and> eq_duration r \<le> MAX_ELEVATION_SECONDS) (ContractError ''elevation duration out of range'')) (\<lambda>_.
     bind_r (case eq_task r of None \<Rightarrow> Inr [] | Some t \<Rightarrow> mk_identifier t) (\<lambda>_.
     Inr r)))))))"

record elevation_grant =
  eg_request :: elevation_request
  eg_approver :: string
  eg_granted :: int
  eg_expires :: int

definition mk_elevation_grant :: "elevation_grant \<Rightarrow> elevation_grant result" where
  "mk_elevation_grant g =
     bind_r (mk_identifier (eg_approver g)) (\<lambda>_.
     bind_r (ensure (eg_granted g < eg_expires g) (ContractError ''grant must expire after it is granted'')) (\<lambda>_.
     Inr g))"

definition grant_active :: "elevation_grant \<Rightarrow> int \<Rightarrow> bool" where
  "grant_active g now = (eg_granted g \<le> now \<and> now < eg_expires g)"

record jit =
  jt_roles :: role_registry
  jt_log :: event_log
  jt_approvers :: "string list"
  jt_requests :: "(string, elevation_request) dict"
  jt_grants :: "elevation_grant list"
  jt_denied :: "string list"

definition new_jit :: "role_registry \<Rightarrow> event_log \<Rightarrow> jit" where
  "new_jit rr lg = \<lparr>jt_roles = rr, jt_log = lg, jt_approvers = [], jt_requests = [], jt_grants = [], jt_denied = []\<rparr>"

definition add_approver :: "jit \<Rightarrow> string \<Rightarrow> jit \<times> unit result" where
  "add_approver j a =
     (case mk_identifier a of Inl e \<Rightarrow> (j, Inl e) | Inr _ \<Rightarrow> (j\<lparr>jt_approvers := List.insert a (jt_approvers j)\<rparr>, Inr ()))"

definition approvers :: "jit \<Rightarrow> string list" where
  "approvers j = sort (remdups (jt_approvers j))"

definition request_elevation ::
  "jit \<Rightarrow> string \<Rightarrow> string \<Rightarrow> string \<Rightarrow> string \<Rightarrow> int \<Rightarrow> string option \<Rightarrow> string \<Rightarrow> int \<Rightarrow> jit \<times> elevation_request result" where
  "request_elevation j subject category scope reason duration task token now =
     (case mk_request \<lparr>eq_id = ''jit-'' @ token, eq_subject = subject, eq_category = category, eq_scope = scope, eq_reason = reason,
         eq_duration = duration, eq_requested = now, eq_task = task\<rparr> of
        Inl e \<Rightarrow> (j, Inl e)
      | Inr r \<Rightarrow> (j\<lparr>jt_requests := AList.update (eq_id r) r (jt_requests j)\<rparr>, Inr r))"

definition approval_details :: "elevation_request \<Rightarrow> string \<Rightarrow> int \<Rightarrow> (string \<times> json) list" where
  "approval_details r approver expires = [(''kind'', JStr ''jit_elevation''), (''approver'', JStr approver),
     (''category'', JStr (eq_category r)), (''scope'', JStr (eq_scope r)),
     (''task_id'', case eq_task r of None \<Rightarrow> JNull | Some t \<Rightarrow> JStr t), (''expires_at'', JInt expires), (''reason'', JStr (eq_reason r))]"

definition denial_details :: "string \<Rightarrow> elevation_request \<Rightarrow> string \<Rightarrow> (string \<times> json) list" where
  "denial_details kind r approver = [(''kind'', JStr kind), (''approver'', JStr approver), (''category'', JStr (eq_category r)),
     (''scope'', JStr (eq_scope r))]"

text \<open>The grant is stored before the elevation is recorded.\<close>

definition grant_elevation ::
  "(string \<Rightarrow> string) \<Rightarrow> ip_reader \<Rightarrow> jit \<Rightarrow> elevation_request \<Rightarrow> string \<Rightarrow> string \<Rightarrow> (nat \<Rightarrow> int) \<Rightarrow> jit \<times> elevation_grant result" where
  "grant_elevation H ip_of j r approver ip clk =
     (case mk_elevation_grant \<lparr>eg_request = r, eg_approver = approver, eg_granted = clk 0, eg_expires = clk 0 + eq_duration r\<rparr> of
        Inl e \<Rightarrow> (j, Inl e)
      | Inr g \<Rightarrow>
          (let j = j\<lparr>jt_grants := jt_grants j @ [g]\<rparr> in
           case record_event H ip_of (jt_log j) ''permission_elevation'' (eq_subject r) ip ''allow'' ''human''
               (approval_details r approver (eg_expires g)) (clk 1) of
             Inl e \<Rightarrow> (j, Inl e)
           | Inr lg \<Rightarrow> (j\<lparr>jt_log := lg\<rparr>, Inr g)))"

definition approve ::
  "(string \<Rightarrow> string) \<Rightarrow> ip_reader \<Rightarrow> jit \<Rightarrow> string \<Rightarrow> string \<Rightarrow> string \<Rightarrow> (nat \<Rightarrow> int) \<Rightarrow> jit \<times> elevation_grant result" where
  "approve H ip_of j rid approver ip clk =
     (case mk_identifier approver of
        Inl e \<Rightarrow> (j, Inl e)
      | Inr _ \<Rightarrow>
          (case map_of (jt_requests j) rid of
             None \<Rightarrow> (j, Inl (ContractError ''unknown elevation request''))
           | Some r \<Rightarrow>
               (let j = j\<lparr>jt_requests := AList.delete rid (jt_requests j)\<rparr> in
                if rid \<in> set (jt_denied j) then (j, Inl (ContractError ''elevation request already denied''))
                else if approver \<notin> set (jt_approvers j) \<or> approver = eq_subject r
                then (case record_event H ip_of (jt_log j) ''access_denied'' (eq_subject r) ip ''deny'' ''human''
                          (denial_details ''jit_approval'' r approver) (clk 0) of
                        Inl e \<Rightarrow> (j, Inl e)
                      | Inr lg \<Rightarrow> (j\<lparr>jt_log := lg\<rparr>, Inl (ContractError ''approver is not designated for JIT pre-authorization'')))
                else grant_elevation H ip_of j r approver ip clk)))"

definition deny ::
  "(string \<Rightarrow> string) \<Rightarrow> ip_reader \<Rightarrow> jit \<Rightarrow> string \<Rightarrow> string \<Rightarrow> string \<Rightarrow> (nat \<Rightarrow> int) \<Rightarrow> jit \<times> unit result" where
  "deny H ip_of j rid approver ip clk =
     (case mk_identifier approver of
        Inl e \<Rightarrow> (j, Inl e)
      | Inr _ \<Rightarrow>
          (case map_of (jt_requests j) rid of
             None \<Rightarrow> (j, Inl (ContractError ''unknown elevation request''))
           | Some r \<Rightarrow>
               if rid \<in> set (jt_denied j) then (j, Inl (ContractError ''unknown elevation request''))
               else
                 (let j = j\<lparr>jt_requests := AList.delete rid (jt_requests j), jt_denied := List.insert rid (jt_denied j)\<rparr> in
                  case record_event H ip_of (jt_log j) ''access_denied'' (eq_subject r) ip ''deny'' ''human''
                      (denial_details ''jit_denied'' r approver) (clk 0) of
                    Inl e \<Rightarrow> (j, Inl e)
                  | Inr lg \<Rightarrow> (j\<lparr>jt_log := lg\<rparr>, Inr ()))))"

definition is_elevated :: "jit \<Rightarrow> string \<Rightarrow> string \<Rightarrow> string \<Rightarrow> int \<Rightarrow> bool result" where
  "is_elevated j subject category scope now =
     bind_r (subject_identifier subject) (\<lambda>_.
     bind_r (ensure (category \<in> set PERMISSION_CATEGORIES) (ContractError ''unknown permission category'')) (\<lambda>_.
     Inr (list_ex (\<lambda>g. eq_subject (eg_request g) = subject \<and> eq_category (eg_request g) = category
       \<and> eq_scope (eg_request g) \<in> {WILDCARD, scope} \<and> grant_active g now) (jt_grants j))))"

definition active_grants :: "jit \<Rightarrow> string \<Rightarrow> int \<Rightarrow> elevation_grant list result" where
  "active_grants j subject now =
     bind_r (subject_identifier subject) (\<lambda>_.
     Inr (filter (\<lambda>g. eq_subject (eg_request g) = subject \<and> grant_active g now) (jt_grants j)))"

definition jit_is_allowed :: "jit \<Rightarrow> string \<Rightarrow> string \<Rightarrow> string \<Rightarrow> int \<Rightarrow> bool result" where
  "jit_is_allowed j subject category scope now =
     bind_r (role_is_allowed (jt_roles j) subject category scope) (\<lambda>b.
     if b then Inr True else is_elevated j subject category scope now)"

section \<open>Sequences of calls\<close>

datatype jit_op =
    AddApprover string
  | RequestElevation string string string string int "string option" string
  | Approve string string string
  | Deny string string string

fun jit_step :: "(string \<Rightarrow> string) \<Rightarrow> ip_reader \<Rightarrow> jit_op \<Rightarrow> (nat \<Rightarrow> int) \<Rightarrow> jit \<Rightarrow> jit" where
  "jit_step H ip_of (AddApprover a) clk j = fst (add_approver j a)"
| "jit_step H ip_of (RequestElevation s c sc r d t tok) clk j = fst (request_elevation j s c sc r d t tok (clk 0))"
| "jit_step H ip_of (Approve rid a ip) clk j = fst (approve H ip_of j rid a ip clk)"
| "jit_step H ip_of (Deny rid a ip) clk j = fst (deny H ip_of j rid a ip clk)"

inductive jit_reach :: "(string \<Rightarrow> string) \<Rightarrow> ip_reader \<Rightarrow> jit \<Rightarrow> bool" for H ip_of where
  start: "jit_reach H ip_of (new_jit rr lg)"
| step: "jit_reach H ip_of j \<Longrightarrow> jit_reach H ip_of (jit_step H ip_of op clk j)"

definition request_fine :: "elevation_request \<Rightarrow> bool" where
  "request_fine r = (subject_ok (eq_subject r) \<and> eq_category r \<in> set PERMISSION_CATEGORIES
     \<and> 0 < eq_duration r \<and> eq_duration r \<le> MAX_ELEVATION_SECONDS)"

definition grant_fine :: "jit \<Rightarrow> elevation_grant \<Rightarrow> bool" where
  "grant_fine j g = (request_fine (eg_request g) \<and> eg_approver g \<in> set (jt_approvers j) \<and> eg_approver g \<noteq> eq_subject (eg_request g)
     \<and> eg_expires g = eg_granted g + eq_duration (eg_request g))"

definition jit_inv :: "jit \<Rightarrow> bool" where
  "jit_inv j = ((\<forall>r\<in>snd ` set (jt_requests j). request_fine r) \<and> (\<forall>g\<in>set (jt_grants j). grant_fine j g))"

lemma jit_inv_log [simp]: "jit_inv (j\<lparr>jt_log := lg\<rparr>) \<longleftrightarrow> jit_inv j"
  by (simp add: jit_inv_def grant_fine_def)

lemma jit_inv_denied [simp]: "jit_inv (j\<lparr>jt_denied := d\<rparr>) \<longleftrightarrow> jit_inv j"
  by (simp add: jit_inv_def grant_fine_def)

lemma jit_inv_delete: "jit_inv j \<Longrightarrow> jit_inv (j\<lparr>jt_requests := AList.delete rid (jt_requests j)\<rparr>)"
  by (auto simp: jit_inv_def grant_fine_def AList.delete_eq)

lemma jit_inv_request:
  assumes "jit_inv j"
  shows "jit_inv (fst (request_elevation j s c sc r d t tok now))"
proof (cases "mk_request \<lparr>eq_id = ''jit-'' @ tok, eq_subject = s, eq_category = c, eq_scope = sc, eq_reason = r,
         eq_duration = d, eq_requested = now, eq_task = t\<rparr>")
  case (Inl e)
  with assms show ?thesis by (simp add: request_elevation_def)
next
  case (Inr q)
  then have "request_fine q" by (auto simp: mk_request_def request_fine_def result_simps)
  then have "jit_inv (j\<lparr>jt_requests := AList.update (eq_id q) q (jt_requests j)\<rparr>)"
    using assms by (auto simp: jit_inv_def grant_fine_def dest!: update_mem)
  then show ?thesis using Inr by (simp add: request_elevation_def)
qed

lemma jit_inv_grant:
  assumes "jit_inv j" and "request_fine r" and "approver \<in> set (jt_approvers j)" and "approver \<noteq> eq_subject r"
  shows "jit_inv (fst (grant_elevation H ip_of j r approver ip clk))"
proof -
  let ?g = "\<lparr>eg_request = r, eg_approver = approver, eg_granted = clk 0, eg_expires = clk 0 + eq_duration r\<rparr>"
  have "jit_inv (j\<lparr>jt_grants := jt_grants j @ [?g]\<rparr>)"
    using assms by (auto simp: jit_inv_def grant_fine_def)
  moreover have "mk_elevation_grant ?g = Inr g \<Longrightarrow> g = ?g" for g by (auto simp: mk_elevation_grant_def result_simps)
  ultimately show ?thesis
    using assms(1) by (auto simp: grant_elevation_def Let_def split: sum.splits)
qed

lemma jit_inv_approve:
  assumes "jit_inv j"
  shows "jit_inv (fst (approve H ip_of j rid approver ip clk))"
proof (cases "map_of (jt_requests j) rid")
  case None
  with assms show ?thesis by (simp add: approve_def split: sum.splits)
next
  case (Some r)
  let ?j = "j\<lparr>jt_requests := AList.delete rid (jt_requests j)\<rparr>"
  have j: "jit_inv ?j" using jit_inv_delete [OF assms] .
  have r: "request_fine r" using assms map_of_SomeD [OF Some] by (force simp: jit_inv_def)
  show ?thesis
  proof (cases "approver \<in> set (jt_approvers j) \<and> approver \<noteq> eq_subject r")
    case True
    then have "jit_inv (fst (grant_elevation H ip_of ?j r approver ip clk))" using j r by (intro jit_inv_grant) auto
    with True j assms Some show ?thesis by (auto simp: approve_def Let_def split: sum.splits)
  next
    case False
    with j assms Some show ?thesis by (auto simp: approve_def Let_def split: sum.splits)
  qed
qed

lemma jit_inv_deny:
  assumes "jit_inv j"
  shows "jit_inv (fst (deny H ip_of j rid approver ip clk))"
proof -
  have "jit_inv (j\<lparr>jt_requests := AList.delete rid (jt_requests j), jt_denied := List.insert rid (jt_denied j)\<rparr>)"
    using jit_inv_delete [OF assms, of rid] by simp
  with assms show ?thesis by (auto simp: deny_def Let_def split: sum.splits option.splits)
qed

lemma jit_inv_add_approver: "jit_inv j \<Longrightarrow> jit_inv (fst (add_approver j a))"
  by (auto simp: add_approver_def jit_inv_def grant_fine_def split: sum.splits)

lemma jit_inv_step: "jit_inv j \<Longrightarrow> jit_inv (jit_step H ip_of op clk j)"
  by (cases op) (simp_all add: jit_inv_add_approver jit_inv_request jit_inv_approve jit_inv_deny)

lemma jit_reach_inv: "jit_reach H ip_of j \<Longrightarrow> jit_inv j"
  by (induction rule: jit_reach.induct) (simp add: jit_inv_def new_jit_def, rule jit_inv_step)

section \<open>Properties\<close>

text \<open>C29. Elevation is pre-authorised and expires by itself. In every state that calls can reach, a subject
  is reported elevated for a permission only if some grant for it is in its window: approved by a
  designated approver other than the subject, for a request of this subject, category and a scope that
  covers the asked one, granted at most a day ago and not yet expired. The combined decision allows
  exactly what a role or such a grant gives.\<close>

theorem jit_elevation_sound:
  assumes "jit_reach H ip_of j"
  shows "(is_elevated j subject category scope now = Inr True \<longrightarrow>
      (\<exists>g\<in>set (jt_grants j). eq_subject (eg_request g) = subject \<and> eq_category (eg_request g) = category
        \<and> (eq_scope (eg_request g) = WILDCARD \<or> eq_scope (eg_request g) = scope)
        \<and> eg_approver g \<in> set (jt_approvers j) \<and> eg_approver g \<noteq> subject
        \<and> eg_granted g \<le> now \<and> now < eg_granted g + eq_duration (eg_request g) \<and> now < eg_granted g + 24 * 3600))
    \<and> (jit_is_allowed j subject category scope now = Inr True \<longleftrightarrow>
        role_is_allowed (jt_roles j) subject category scope = Inr True
        \<or> (role_is_allowed (jt_roles j) subject category scope = Inr False \<and> is_elevated j subject category scope now = Inr True))"
proof
  show "is_elevated j subject category scope now = Inr True \<longrightarrow>
      (\<exists>g\<in>set (jt_grants j). eq_subject (eg_request g) = subject \<and> eq_category (eg_request g) = category
        \<and> (eq_scope (eg_request g) = WILDCARD \<or> eq_scope (eg_request g) = scope)
        \<and> eg_approver g \<in> set (jt_approvers j) \<and> eg_approver g \<noteq> subject
        \<and> eg_granted g \<le> now \<and> now < eg_granted g + eq_duration (eg_request g) \<and> now < eg_granted g + 24 * 3600)"
  proof
    assume "is_elevated j subject category scope now = Inr True"
    then obtain g where g: "g \<in> set (jt_grants j)" "eq_subject (eg_request g) = subject" "eq_category (eg_request g) = category"
      "eq_scope (eg_request g) = WILDCARD \<or> eq_scope (eg_request g) = scope" "grant_active g now"
      by (auto simp: is_elevated_def result_simps list_ex_iff)
    then have "grant_fine j g" using jit_reach_inv [OF assms] by (simp add: jit_inv_def)
    with g show "\<exists>g\<in>set (jt_grants j). eq_subject (eg_request g) = subject \<and> eq_category (eg_request g) = category
        \<and> (eq_scope (eg_request g) = WILDCARD \<or> eq_scope (eg_request g) = scope)
        \<and> eg_approver g \<in> set (jt_approvers j) \<and> eg_approver g \<noteq> subject
        \<and> eg_granted g \<le> now \<and> now < eg_granted g + eq_duration (eg_request g) \<and> now < eg_granted g + 24 * 3600"
      by (intro bexI [of _ g]) (auto simp: grant_fine_def request_fine_def grant_active_def MAX_ELEVATION_SECONDS_def)
  qed
  show "jit_is_allowed j subject category scope now = Inr True \<longleftrightarrow>
        role_is_allowed (jt_roles j) subject category scope = Inr True
        \<or> (role_is_allowed (jt_roles j) subject category scope = Inr False \<and> is_elevated j subject category scope now = Inr True)"
    by (cases "role_is_allowed (jt_roles j) subject category scope") (auto simp: jit_is_allowed_def split: if_splits)
qed

section \<open>What failing calls leave behind\<close>

text \<open>An approval whose source address is not valid raises, but the grant is in force, without a trace in
  the log. An attempt by someone who may not approve uses the request up.\<close>

lemma approval_with_bad_address_elevates:
  assumes "map_of (jt_requests j) rid = Some r" and "rid \<notin> set (jt_denied j)" and "ident_ok a" and "a \<in> set (jt_approvers j)"
    and "a \<noteq> eq_subject r" and "0 < eq_duration r" and "ip_of ip = None"
  shows "\<exists>j' e. approve H ip_of j rid a ip clk = (j', Inl e) \<and> jt_log j' = jt_log j
    \<and> jt_grants j' = jt_grants j @ [\<lparr>eg_request = r, eg_approver = a, eg_granted = clk 0, eg_expires = clk 0 + eq_duration r\<rparr>]"
proof -
  let ?g = "\<lparr>eg_request = r, eg_approver = a, eg_granted = clk 0, eg_expires = clk 0 + eq_duration r\<rparr>"
  have g: "mk_elevation_grant ?g = Inr ?g" using assms by (simp add: mk_elevation_grant_def mk_identifier_def)
  have "\<not> (\<exists>x. record_event H ip_of lg ''permission_elevation'' (eq_subject r) ip ''allow'' ''human'' d t = Inr x)" for lg d t
    using assms(7) by (auto simp: record_event_def mk_observation_def result_simps)
  then obtain e where "record_event H ip_of (jt_log j) ''permission_elevation'' (eq_subject r) ip ''allow'' ''human''
      (approval_details r a (eg_expires ?g)) (clk 1) = Inl e"
    by (metis sum.exhaust)
  then show ?thesis using assms g by (simp add: approve_def mk_identifier_def grant_elevation_def Let_def)
qed

lemma refused_approval_consumes_request:
  assumes "map_of (jt_requests j) rid = Some r" and "ident_ok a" and "a \<notin> set (jt_approvers j)"
  shows "\<exists>j' e. approve H ip_of j rid a ip clk = (j', Inl e) \<and> map_of (jt_requests j') rid = None"
  using assms by (auto simp: approve_def mk_identifier_def Let_def delete_conv' split: sum.splits)

section \<open>Witnesses\<close>

definition sample_jit :: jit where
  "sample_jit = (let H = (\<lambda>_. replicate 64 (CHR ''0'')); ip = (\<lambda>_. Some (IPv4 1)) in
     jit_step H ip (Approve ''jit-1'' ''boss'' ''1.1.1.1'') (\<lambda>_. 10)
      (jit_step H ip (AddApprover ''boss'') (\<lambda>_. 0)
       (jit_step H ip (RequestElevation ''ann'' ''hitl_approval'' WILDCARD ''fix'' 60 None ''1'') (\<lambda>_. 5) (new_jit empty_roles empty_log))))"

lemma sample_jit_reach: "jit_reach (\<lambda>_. replicate 64 (CHR ''0'')) (\<lambda>_. Some (IPv4 1)) sample_jit"
  unfolding sample_jit_def Let_def by (intro step start)

theorem jit_elevation_sound_witness:
  "is_elevated sample_jit ''ann'' ''hitl_approval'' ''x'' 69 = Inr True
   \<and> (\<exists>g\<in>set (jt_grants sample_jit). eg_approver g \<in> set (jt_approvers sample_jit) \<and> eg_approver g \<noteq> ''ann'')"
proof -
  have e: "is_elevated sample_jit ''ann'' ''hitl_approval'' ''x'' 69 = Inr True" by code_simp
  with jit_elevation_sound [OF sample_jit_reach, of "''ann''" "''hitl_approval''" "''x''" 69] show ?thesis by auto
qed

end
