(* ===== verification/Iam_Mfa.thy ===== *)
theory Iam_Mfa
  imports Iam_Events
begin

text \<open>
  Multi-factor authentication, \<open>src/residual/iam/mfa.py\<close>: time-based one-time passwords on machine words
  and the gate for privileged actions.

  \<^item> \<open>hm\<close> is HMAC-SHA-1 on bytes; that it returns 20 bytes is the hypothesis \<open>hmac_sha1 hm\<close>.
  \<^item> \<open>uni_digit\<close> is Python's \<open>isdigit\<close> on texts with characters outside ASCII. Comparing such a text with
    \<open>hmac.compare_digest\<close> raises \<open>TypeError\<close>.
  \<^item> Shown: a code is accepted exactly when it is the code of a time step within the window, and
    generated codes have the requested number of digits.
\<close>

unbundle bit_operations_syntax

type_synonym bytes = "8 word list"
type_synonym hmac = "bytes \<Rightarrow> bytes \<Rightarrow> bytes"

definition hmac_sha1 :: "hmac \<Rightarrow> bool" where
  "hmac_sha1 hm = (\<forall>k m. length (hm k m) = 20)"

text \<open>\<open>struct.pack('>Q', c)\<close> and \<open>struct.unpack('>I', b)\<close>.\<close>

definition pack_u64 :: "int \<Rightarrow> bytes" where
  "pack_u64 c = map (\<lambda>i. ucast (drop_bit (8 * (7 - i)) (of_int c :: 64 word))) [0..<8]"

definition unpack_u32 :: "bytes \<Rightarrow> 32 word" where
  "unpack_u32 bs = foldl (\<lambda>acc b. push_bit 8 acc OR ucast b) 0 bs"

definition zfill :: "nat \<Rightarrow> string \<Rightarrow> string" where
  "zfill n s = replicate (n - length s) (CHR ''0'') @ s"

text \<open>The truncation of RFC 4226: the low nibble of the last byte selects four bytes.\<close>

definition truncate_code :: "bytes \<Rightarrow> nat \<Rightarrow> string result" where
  "truncate_code d digits =
     bind_r (ensure (d \<noteq> []) (IndexError ''index out of range'')) (\<lambda>_.
     let offset = unat (last d AND 0x0F); sl = take 4 (drop offset d) in
     bind_r (ensure (length sl = 4) (StructError ''unpack requires a buffer of 4 bytes'')) (\<lambda>_.
     Inr (zfill digits (nat_str (unat (unpack_u32 sl AND 0x7FFFFFFF) mod 10 ^ digits)))))"

definition generate_totp :: "hmac \<Rightarrow> bytes \<Rightarrow> int \<Rightarrow> int \<Rightarrow> int \<Rightarrow> string result" where
  "generate_totp hm secret at period digits =
     bind_r (ensure (secret \<noteq> []) (ContractError ''totp secret must be non-empty bytes'')) (\<lambda>_.
     bind_r (ensure (0 \<le> at) (ContractError ''totp time must be a nonnegative integer'')) (\<lambda>_.
     bind_r (ensure (1 \<le> period \<and> 6 \<le> digits \<and> digits \<le> 8) (ContractError ''invalid totp period/digits'')) (\<lambda>_.
     let counter = at div period in
     bind_r (ensure (counter < 2 ^ 64) (StructError ''int too large to convert'')) (\<lambda>_.
     truncate_code (hm secret (pack_u64 counter)) (nat digits)))))"

definition ascii :: "string \<Rightarrow> bool" where
  "ascii s = list_all (\<lambda>c. of_char c < (128 :: nat)) s"

definition isdigit :: "(string \<Rightarrow> bool) \<Rightarrow> string \<Rightarrow> bool" where
  "isdigit uni_digit s = (s \<noteq> [] \<and> (if ascii s then list_all is_digit s else uni_digit s))"

fun try_drifts :: "hmac \<Rightarrow> bytes \<Rightarrow> string \<Rightarrow> int \<Rightarrow> int \<Rightarrow> int \<Rightarrow> int list \<Rightarrow> bool result" where
  "try_drifts hm secret code at period digits [] = Inr False"
| "try_drifts hm secret code at period digits (drift # ds) =
     (let step = at + drift * period in
      if step < 0 then try_drifts hm secret code at period digits ds
      else
        bind_r (generate_totp hm secret step period digits) (\<lambda>g.
        if \<not> ascii code then Inl (TypeError ''comparing strings with non-ASCII characters is not supported'')
        else if g = code then Inr True
        else try_drifts hm secret code at period digits ds))"

definition verify_totp :: "hmac \<Rightarrow> (string \<Rightarrow> bool) \<Rightarrow> bytes \<Rightarrow> string \<Rightarrow> int \<Rightarrow> int \<Rightarrow> int \<Rightarrow> int \<Rightarrow> bool result" where
  "verify_totp hm uni_digit secret code at period digits window =
     (if \<not> isdigit uni_digit code then Inr False
      else
        bind_r (ensure (0 \<le> window) (ContractError ''window must be a nonnegative integer'')) (\<lambda>_.
        try_drifts hm secret code at period digits [- window..window]))"

section \<open>The manager\<close>

definition PRIVILEGED_ACTIONS :: "string list" where
  "PRIVILEGED_ACTIONS = [''hitl_approval'', ''policy_modification'', ''module_installation'']"

definition IDP_MFA_AMR :: "string list" where
  "IDP_MFA_AMR = [''mfa'', ''otp'', ''hwk'', ''fido2'', ''webauthn'']"

definition IDP_MFA_AUTHN_CONTEXT :: "string list" where
  "IDP_MFA_AUTHN_CONTEXT = [''urn:oasis:names:tc:SAML:2.0:ac:classes:Multifactor'', ''http://schemas.microsoft.com/claims/multipleauthn'']"

text \<open>\<open>lower()\<close> as far as a comparison with ASCII text can tell: ASCII capitals, and the Kelvin sign, the
  only other character whose lower case is an ASCII letter.\<close>

fun lower :: "string \<Rightarrow> string" where
  "lower [] = []"
| "lower (c # cs) =
     (if c = CHR 0xE2 \<and> take 2 cs = [CHR 0x84, CHR 0xAA] then CHR ''k'' # lower (drop 2 cs)
      else (if is_upper c then char_of (of_char c + 32 :: nat) else c) # lower cs)"

type_synonym mfa_manager = "(string, int) dict"

definition idp_mfa_satisfied :: "string list \<Rightarrow> string option \<Rightarrow> bool" where
  "idp_mfa_satisfied amr authn_context =
     (list_ex (\<lambda>a. lower a \<in> set IDP_MFA_AMR) amr \<or> (\<exists>c\<in>set IDP_MFA_AUTHN_CONTEXT. authn_context = Some c))"

definition verify_local ::
  "hmac \<Rightarrow> (string \<Rightarrow> bool) \<Rightarrow> mfa_manager \<Rightarrow> string \<Rightarrow> bytes \<Rightarrow> string \<Rightarrow> (nat \<Rightarrow> int) \<Rightarrow> (bool \<times> mfa_manager) result" where
  "verify_local hm uni_digit m subject secret code clk =
     bind_r (mk_identifier subject) (\<lambda>_.
     bind_r (verify_totp hm uni_digit secret code (clk 0) 30 6 1) (\<lambda>ok.
     Inr (ok, if ok then AList.update subject (clk 1) m else m)))"

definition has_local_mfa :: "mfa_manager \<Rightarrow> string \<Rightarrow> bool result" where
  "has_local_mfa m subject = bind_r (mk_identifier subject) (\<lambda>_. Inr (subject \<in> fst ` set m))"

definition require_privileged :: "mfa_manager \<Rightarrow> string \<Rightarrow> string \<Rightarrow> string list \<Rightarrow> string option \<Rightarrow> unit result" where
  "require_privileged m action subject amr authn_context =
     bind_r (mk_identifier subject) (\<lambda>_.
     bind_r (ensure (action \<in> set PRIVILEGED_ACTIONS) (ContractError ''unknown privileged action'')) (\<lambda>_.
     if idp_mfa_satisfied amr authn_context then Inr ()
     else
       bind_r (has_local_mfa m subject) (\<lambda>b.
       ensure b (ContractError ''MFA required for privileged action''))))"

section \<open>Codes\<close>

lemma nat_str_length: "n < 10 ^ k \<Longrightarrow> 0 < k \<Longrightarrow> length (nat_str n) \<le> k"
proof (induction k arbitrary: n)
  case (Suc k)
  show ?case
  proof (cases "n < 10")
    case True
    then show ?thesis by (simp add: nat_str.simps [of n])
  next
    case False
    have "n div 10 < 10 ^ k" using Suc.prems by (simp add: less_mult_imp_div_less mult.commute)
    moreover have "0 < k" using False Suc.prems(1) by (cases k) auto
    ultimately show ?thesis using Suc.IH [of "n div 10"] False by (simp add: nat_str.simps [of n])
  qed
qed simp

lemma zfill_digits:
  assumes "list_all is_digit s" and "length s \<le> n"
  shows "length (zfill n s) = n" "list_all is_digit (zfill n s)"
  using assms by (auto simp: zfill_def list_all_iff is_digit_def less_eq_char_def)

text \<open>The code of a time step, as a total function.\<close>

definition code_at :: "hmac \<Rightarrow> bytes \<Rightarrow> int \<Rightarrow> nat \<Rightarrow> string" where
  "code_at hm secret c digits =
     (let d = hm secret (pack_u64 c); sl = take 4 (drop (unat (last d AND 0x0F)) d) in
      zfill digits (nat_str (unat (unpack_u32 sl AND 0x7FFFFFFF) mod 10 ^ digits)))"

lemma nibble_bound: "unat (b AND 0x0F :: 8 word) \<le> 15"
proof -
  have "b AND 0x0F \<le> (0x0F :: 8 word)" by (rule word_and_le1)
  then show ?thesis by (simp add: word_le_nat_alt)
qed

lemma truncate_code_20:
  assumes "length d = 20"
  shows "truncate_code d n = Inr (zfill n (nat_str (unat (unpack_u32 (take 4 (drop (unat (last d AND 0x0F)) d)) AND 0x7FFFFFFF) mod 10 ^ n)))"
  using assms nibble_bound [of "last d"] by (cases d) (auto simp: truncate_code_def Let_def)

lemma code_at_digits:
  assumes "0 < n"
  shows "length (code_at hm secret c n) = n" "list_all is_digit (code_at hm secret c n)"
proof -
  have "length (nat_str (m mod 10 ^ n)) \<le> n" for m using assms by (intro nat_str_length) simp_all
  then show "length (code_at hm secret c n) = n" "list_all is_digit (code_at hm secret c n)"
    unfolding code_at_def Let_def
    by (intro zfill_digits; simp add: list_all_iff nat_str_digits)+
qed

lemma generate_code_at:
  assumes "hmac_sha1 hm" and "secret \<noteq> []" and "0 \<le> at" and "1 \<le> period" and "6 \<le> digits" and "digits \<le> 8" and "at div period < 2 ^ 64"
  shows "generate_totp hm secret at period digits = Inr (code_at hm secret (at div period) (nat digits))"
  using assms by (simp add: generate_totp_def hmac_sha1_def truncate_code_20 code_at_def Let_def)

lemma try_drifts_result:
  assumes "hmac_sha1 hm" and "secret \<noteq> []" and "0 \<le> at" and "1 \<le> period" and "6 \<le> digits" and "digits \<le> 8" and "ascii code"
    and "\<forall>x\<in>set ds. at div period + x < 2 ^ 64"
  shows "try_drifts hm secret code at period digits ds =
    Inr (\<exists>x\<in>set ds. 0 \<le> at div period + x \<and> code = code_at hm secret (at div period + x) (nat digits))"
  using assms(8)
proof (induction ds)
  case (Cons x ds)
  have d: "(at + x * period) div period = at div period + x" using assms(4) by simp
  have neg: "at + x * period < 0 \<longleftrightarrow> at div period + x < 0"
    using assms(4) by (metis d div_neg_pos_less0 int_one_le_iff_zero_less not_less pos_imp_zdiv_nonneg_iff)
  show ?case
  proof (cases "at + x * period < 0")
    case True
    with Cons neg show ?thesis by simp
  next
    case False
    have "generate_totp hm secret (at + x * period) period digits = Inr (code_at hm secret (at div period + x) (nat digits))"
      using generate_code_at [of hm secret "at + x * period" period digits] False assms(1-6) Cons.prems d by simp
    then show ?thesis using Cons False neg assms(7) by auto
  qed
qed simp

section \<open>Properties\<close>

text \<open>One-time passwords are checked exactly. Generated codes consist of the requested number of decimal
  digits. A code of ASCII digits is accepted at a time if and only if it is the code of a time step at
  most \<open>window\<close> steps away (and not before the epoch), so the code generated at any time is accepted
  as long as at most \<open>window\<close> periods have passed either way.\<close>

theorem totp_window_exact:
  assumes "hmac_sha1 hm" and "secret \<noteq> []" and "0 \<le> at" and "1 \<le> period" and "6 \<le> digits" and "digits \<le> 8" and "0 \<le> window"
    and "at div period + window < 2 ^ 64" and "code \<noteq> []" and "ascii code" and "list_all is_digit code"
  shows "verify_totp hm uni_digit secret code at period digits window =
      Inr (\<exists>c. 0 \<le> c \<and> \<bar>c - at div period\<bar> \<le> window \<and> code = code_at hm secret c (nat digits))
    \<and> generate_totp hm secret at period digits = Inr (code_at hm secret (at div period) (nat digits))
    \<and> length (code_at hm secret (at div period) (nat digits)) = nat digits
    \<and> list_all is_digit (code_at hm secret (at div period) (nat digits))"
proof -
  have "(\<exists>x\<in>{- window..window}. 0 \<le> at div period + x \<and> code = code_at hm secret (at div period + x) (nat digits))
      \<longleftrightarrow> (\<exists>c. 0 \<le> c \<and> \<bar>c - at div period\<bar> \<le> window \<and> code = code_at hm secret c (nat digits))" (is "?l \<longleftrightarrow> ?r")
  proof
    assume ?l
    then obtain x where "x \<in> {- window..window}" "0 \<le> at div period + x" "code = code_at hm secret (at div period + x) (nat digits)" by blast
    then show ?r by (intro exI [of _ "at div period + x"]) auto
  next
    assume ?r
    then obtain c where "0 \<le> c" "\<bar>c - at div period\<bar> \<le> window" "code = code_at hm secret c (nat digits)" by blast
    then show ?l by (intro bexI [of _ "c - at div period"]) auto
  qed
  moreover have "try_drifts hm secret code at period digits [- window..window] =
      Inr (\<exists>x\<in>set [- window..window]. 0 \<le> at div period + x \<and> code = code_at hm secret (at div period + x) (nat digits))"
    using assms by (intro try_drifts_result) auto
  ultimately have "verify_totp hm uni_digit secret code at period digits window =
      Inr (\<exists>c. 0 \<le> c \<and> \<bar>c - at div period\<bar> \<le> window \<and> code = code_at hm secret c (nat digits))"
    using assms(7,9-11) by (simp add: verify_totp_def isdigit_def)
  moreover have "at div period < 2 ^ 64" using assms(7,8) by linarith
  ultimately show ?thesis
    using generate_code_at [OF assms(1-6)] code_at_digits [of "nat digits" hm secret "at div period"] assms(5) by simp
qed

text \<open>A local verification is remembered without its age: the gate stays open for the subject.\<close>

lemma local_mfa_never_expires:
  assumes "verify_local hm uni_digit m subject secret code clk = Inr (True, m')" and "action \<in> set PRIVILEGED_ACTIONS"
  shows "require_privileged m' action subject [] None = Inr ()"
  using assms by (auto simp: verify_local_def require_privileged_def has_local_mfa_def mk_identifier_def result_simps dom_update)

text \<open>A text of digits outside ASCII makes the check raise instead of refusing the code.\<close>

lemma non_ascii_code_raises:
  assumes "hmac_sha1 hm" and "secret \<noteq> []" and "0 \<le> at" and "at < 2 ^ 64" and "\<not> ascii code" and "code \<noteq> []" and "uni_digit code"
  shows "\<exists>m. verify_totp hm uni_digit secret code at 30 6 0 = Inl (TypeError m)"
  using assms generate_code_at [of hm secret at 30 6]
  by (simp add: verify_totp_def isdigit_def)

section \<open>Witnesses\<close>

theorem totp_window_exact_witness:
  "let hm = (\<lambda>k m. replicate 20 0) in hmac_sha1 hm \<and> verify_totp hm (\<lambda>_. False) [1] ''000000'' 59 30 6 1 = Inr True"
proof -
  let ?hm = "\<lambda>k m :: bytes. replicate 20 (0 :: 8 word)"
  have h: "hmac_sha1 ?hm" by (simp add: hmac_sha1_def)
  have c: "code_at ?hm [1] 1 6 = ''000000''"
  proof -
    have "unpack_u32 (replicate 4 0) = 0" "zfill 6 ''0'' = ''000000''" by code_simp+
    then show ?thesis by (simp add: code_at_def Let_def nat_str_0)
  qed
  have "ascii ''000000''" "list_all is_digit ''000000''" by code_simp+
  then have "verify_totp ?hm (\<lambda>_. False) [1] ''000000'' 59 30 6 1 =
      Inr (\<exists>c. 0 \<le> c \<and> \<bar>c - 59 div 30\<bar> \<le> 1 \<and> ''000000'' = code_at ?hm [1] c (nat 6))"
    using totp_window_exact [OF h, of "[1]" 59 30 6 1 "''000000''" "\<lambda>_. False"] by simp
  moreover have "\<exists>c. 0 \<le> c \<and> \<bar>c - 59 div 30\<bar> \<le> 1 \<and> ''000000'' = code_at ?hm [1] c (nat 6)"
    using c by (intro exI [of _ 1]) simp
  ultimately show ?thesis using h by (simp only: Let_def)
qed

end
