(* ===== verification/Iam_Accounts.thy ===== *)
theory Iam_Accounts
  imports Iam_Access
begin

text \<open>
  Service accounts, \<open>src/residual/iam/service_accounts.py\<close>: scoped, never administrative permissions,
  credentials stored by hash, rotation and logged authorization.

  \<^item> The random parts of identifiers and credentials are arguments; SHA-256 is the parameter \<open>H\<close>.
  \<^item> Shown, over all sequences of calls: no account ever holds or exercises an administrative permission,
    and rotating an account makes every earlier credential of it useless unless its hash equals that of
    the new one.
\<close>

definition FORBIDDEN_SERVICE_PERMISSIONS :: "string list" where
  "FORBIDDEN_SERVICE_PERMISSIONS = [''module_installation'', ''policy_modification'']"

record service_account =
  sa_id :: string
  sa_name :: string
  sa_owner :: string
  sa_permissions :: "permission list"
  sa_generation :: int

definition mk_service_account :: "service_account \<Rightarrow> service_account result" where
  "mk_service_account a =
     bind_r (mk_identifier (sa_id a)) (\<lambda>_.
     bind_r (ensure (\<not> blank (sa_name a)) (ContractError ''service account name is required'')) (\<lambda>_.
     bind_r (mk_identifier (sa_owner a)) (\<lambda>_.
     bind_r (ensure (\<not> list_ex (\<lambda>p. pm_category p \<in> set FORBIDDEN_SERVICE_PERMISSIONS) (sa_permissions a))
       (ContractError ''service accounts can never hold admin permissions'')) (\<lambda>_.
     bind_r (ensure (1 \<le> sa_generation a) (ContractError ''credential generation must be a positive integer'')) (\<lambda>_.
     Inr a)))))"

record account_manager =
  am_log :: event_log
  am_accounts :: "(string, service_account) dict"
  am_credentials :: "(string, string) dict"

definition new_accounts :: "event_log \<Rightarrow> account_manager" where
  "new_accounts lg = \<lparr>am_log = lg, am_accounts = [], am_credentials = []\<rparr>"

definition hash_credential :: "(string \<Rightarrow> string) \<Rightarrow> string \<Rightarrow> string result" where
  "hash_credential H c =
     bind_r (ensure (c \<noteq> []) (ContractError ''credential must be a non-empty string'')) (\<lambda>_.
     Inr (H (''residual.iam.sa'' @ [newline] @ c)))"

definition create_account ::
  "(string \<Rightarrow> string) \<Rightarrow> account_manager \<Rightarrow> string \<Rightarrow> string \<Rightarrow> permission list \<Rightarrow> string \<Rightarrow> string
     \<Rightarrow> (service_account \<times> string \<times> account_manager) result" where
  "create_account H m name owner perms id_token key_token =
     bind_r (ensure (\<not> blank name) (ContractError ''service account name is required'')) (\<lambda>_.
     bind_r (mk_identifier owner) (\<lambda>_.
     bind_r (mk_service_account \<lparr>sa_id = ''svc-'' @ id_token, sa_name = name, sa_owner = owner, sa_permissions = perms, sa_generation = 1\<rparr>) (\<lambda>a.
     let credential = ''svckey-'' @ key_token in
     bind_r (hash_credential H credential) (\<lambda>h.
     Inr (a, credential, m\<lparr>am_accounts := AList.update (sa_id a) a (am_accounts m),
                           am_credentials := AList.update h (sa_id a) (am_credentials m)\<rparr>)))))"

definition authenticate :: "(string \<Rightarrow> string) \<Rightarrow> account_manager \<Rightarrow> string \<Rightarrow> service_account result" where
  "authenticate H m credential =
     bind_r (hash_credential H credential) (\<lambda>h.
     case map_of (am_credentials m) h of
       None \<Rightarrow> Inl (ContractError ''invalid or rotated service account credential'')
     | Some i \<Rightarrow> dict_get (am_accounts m) i)"

definition rotate_account ::
  "(string \<Rightarrow> string) \<Rightarrow> account_manager \<Rightarrow> string \<Rightarrow> string \<Rightarrow> (service_account \<times> string \<times> account_manager) result" where
  "rotate_account H m i key_token =
     (case map_of (am_accounts m) i of
        None \<Rightarrow> Inl (ContractError ''unknown service account'')
      | Some a \<Rightarrow>
          bind_r (mk_service_account (a\<lparr>sa_generation := sa_generation a + 1\<rparr>)) (\<lambda>r.
          let creds = filter (\<lambda>(h, j). j \<noteq> i) (am_credentials m); credential = ''svckey-'' @ key_token in
          bind_r (hash_credential H credential) (\<lambda>h.
          Inr (r, credential, m\<lparr>am_credentials := AList.update h i creds, am_accounts := AList.update i r (am_accounts m)\<rparr>))))"

definition account_authorize ::
  "(string \<Rightarrow> string) \<Rightarrow> ip_reader \<Rightarrow> account_manager \<Rightarrow> service_account \<Rightarrow> string \<Rightarrow> string \<Rightarrow> string \<Rightarrow> int \<Rightarrow> (bool \<times> account_manager) result" where
  "account_authorize H ip_of m a category scope ip now =
     (let allowed = list_ex (\<lambda>p. permission_grants p category scope) (sa_permissions a) in
      bind_r (record_event H ip_of (am_log m) (if allowed then ''service_account_action'' else ''access_denied'') (sa_id a) ip
        (if allowed then ''allow'' else ''deny'') ''service''
        [(''category'', JStr category), (''scope'', JStr scope), (''owner'', JStr (sa_owner a))] now) (\<lambda>lg.
      Inr (allowed, m\<lparr>am_log := lg\<rparr>)))"

section \<open>Sequences of calls\<close>

datatype account_op =
    CreateAccount string string "permission list" string string
  | Rotate string string
  | Authorize service_account string string string int

fun account_step :: "(string \<Rightarrow> string) \<Rightarrow> ip_reader \<Rightarrow> account_op \<Rightarrow> account_manager \<Rightarrow> account_manager" where
  "account_step H ip_of (CreateAccount n ow ps it kt) m = (case create_account H m n ow ps it kt of Inl _ \<Rightarrow> m | Inr (_, _, m') \<Rightarrow> m')"
| "account_step H ip_of (Rotate i kt) m = (case rotate_account H m i kt of Inl _ \<Rightarrow> m | Inr (_, _, m') \<Rightarrow> m')"
| "account_step H ip_of (Authorize a c s ip now) m = (case account_authorize H ip_of m a c s ip now of Inl _ \<Rightarrow> m | Inr (_, m') \<Rightarrow> m')"

inductive accounts_reach :: "(string \<Rightarrow> string) \<Rightarrow> ip_reader \<Rightarrow> account_manager \<Rightarrow> bool" for H ip_of where
  start: "accounts_reach H ip_of (new_accounts lg)"
| step: "accounts_reach H ip_of m \<Longrightarrow> accounts_reach H ip_of (account_step H ip_of op m)"

definition accounts_inv :: "account_manager \<Rightarrow> bool" where
  "accounts_inv m = (distinct (map fst (am_credentials m))
     \<and> (\<forall>(i, a)\<in>set (am_accounts m). sa_id a = i \<and> (\<forall>p\<in>set (sa_permissions a). pm_category p \<notin> set FORBIDDEN_SERVICE_PERMISSIONS))
     \<and> (\<forall>(h, i)\<in>set (am_credentials m). i \<in> fst ` set (am_accounts m)))"

lemma mk_service_account_Inr:
  "mk_service_account a = Inr b \<Longrightarrow> b = a \<and> (\<forall>p\<in>set (sa_permissions a). pm_category p \<notin> set FORBIDDEN_SERVICE_PERMISSIONS)"
  by (auto simp: mk_service_account_def result_simps list_ex_iff)

lemma accounts_inv_create:
  assumes "accounts_inv m" and "create_account H m n ow ps it kt = Inr (a, c, m')"
  shows "accounts_inv m'"
proof -
  obtain h where a: "mk_service_account \<lparr>sa_id = ''svc-'' @ it, sa_name = n, sa_owner = ow, sa_permissions = ps, sa_generation = 1\<rparr> = Inr a"
    and m': "m' = m\<lparr>am_accounts := AList.update (sa_id a) a (am_accounts m), am_credentials := AList.update h (sa_id a) (am_credentials m)\<rparr>"
    using assms(2) by (auto simp: create_account_def result_simps Let_def)
  have "\<forall>p\<in>set (sa_permissions a). pm_category p \<notin> set FORBIDDEN_SERVICE_PERMISSIONS" using mk_service_account_Inr [OF a] by simp
  with assms(1) show ?thesis
    by (auto simp: accounts_inv_def m' distinct_update dom_update dest!: update_mem)
qed

lemma rotate_Inr:
  assumes "rotate_account H m i kt = Inr (r, c, m')"
  obtains a where "map_of (am_accounts m) i = Some a" "r = a\<lparr>sa_generation := sa_generation a + 1\<rparr>" "c = ''svckey-'' @ kt"
    "m' = m\<lparr>am_credentials := AList.update (H (''residual.iam.sa'' @ [newline] @ c)) i (filter (\<lambda>(h, j). j \<noteq> i) (am_credentials m)),
            am_accounts := AList.update i r (am_accounts m)\<rparr>"
    "\<forall>p\<in>set (sa_permissions r). pm_category p \<notin> set FORBIDDEN_SERVICE_PERMISSIONS"
proof -
  obtain a where a: "map_of (am_accounts m) i = Some a" using assms by (cases "map_of (am_accounts m) i") (auto simp: rotate_account_def)
  obtain r' where r': "mk_service_account (a\<lparr>sa_generation := sa_generation a + 1\<rparr>) = Inr r'"
    using assms a by (auto simp: rotate_account_def result_simps)
  with assms a mk_service_account_Inr [OF r'] show thesis
    by (intro that [of a]) (auto simp: rotate_account_def hash_credential_def Let_def)
qed

lemma accounts_inv_rotate:
  assumes "accounts_inv m" and "rotate_account H m i kt = Inr (r, c, m')"
  shows "accounts_inv m'"
proof -
  obtain a where a: "map_of (am_accounts m) i = Some a" "r = a\<lparr>sa_generation := sa_generation a + 1\<rparr>"
    and m': "m' = m\<lparr>am_credentials := AList.update (H (''residual.iam.sa'' @ [newline] @ c)) i (filter (\<lambda>(h, j). j \<noteq> i) (am_credentials m)),
            am_accounts := AList.update i r (am_accounts m)\<rparr>"
    and p: "\<forall>p\<in>set (sa_permissions r). pm_category p \<notin> set FORBIDDEN_SERVICE_PERMISSIONS"
    using assms(2) by (rule rotate_Inr)
  have "sa_id r = i" using assms(1) map_of_SomeD [OF a(1)] a(2) by (auto simp: accounts_inv_def)
  then show ?thesis
    using assms(1) p by (auto simp: accounts_inv_def m' distinct_update distinct_map_filter dom_update dest!: update_mem)
qed

lemma account_authorize_Inr:
  assumes "account_authorize H ip_of m a c s ip now = Inr (b, m')"
  shows "b = list_ex (\<lambda>p. permission_grants p c s) (sa_permissions a)" "\<exists>lg. m' = m\<lparr>am_log := lg\<rparr>"
  using assms unfolding account_authorize_def Let_def by (auto simp: bind_r_Inr_iff)

lemma accounts_inv_log [simp]: "accounts_inv (m\<lparr>am_log := lg\<rparr>) \<longleftrightarrow> accounts_inv m"
  by (simp add: accounts_inv_def)

lemma accounts_inv_step:
  assumes "accounts_inv m"
  shows "accounts_inv (account_step H ip_of op m)"
proof (cases op)
  case (CreateAccount n ow ps it kt)
  with assms accounts_inv_create show ?thesis by (auto split: sum.splits)
next
  case (Rotate i kt)
  with assms accounts_inv_rotate show ?thesis by (auto split: sum.splits)
next
  case (Authorize a c s ip now)
  with assms show ?thesis by (auto split: sum.splits dest: account_authorize_Inr(2))
qed

lemma accounts_reach_inv: "accounts_reach H ip_of m \<Longrightarrow> accounts_inv m"
  by (induction rule: accounts_reach.induct) (simp add: accounts_inv_def new_accounts_def, rule accounts_inv_step)

section \<open>Properties\<close>

text \<open>Service accounts are never administrators and rotation cuts off old credentials. In every reachable
  state a credential authenticates only as a stored account, whose permissions exclude the
  administrative categories, so authorizing an administrative action for it is always refused. After
  an account is rotated, a credential authenticates as that account only if its hash is the hash of
  the new credential, and the new credential does authenticate, with the next generation number.\<close>

theorem rotation_cuts_off:
  assumes "accounts_reach H ip_of m"
  shows "(\<forall>c a. authenticate H m c = Inr a \<longrightarrow> map_of (am_accounts m) (sa_id a) = Some a
        \<and> (\<forall>cat sc ip now b m'. cat \<in> set FORBIDDEN_SERVICE_PERMISSIONS \<longrightarrow>
             account_authorize H ip_of m a cat sc ip now = Inr (b, m') \<longrightarrow> \<not> b))
    \<and> (\<forall>i kt r c m'. rotate_account H m i kt = Inr (r, c, m') \<longrightarrow> authenticate H m' c = Inr r
        \<and> (\<exists>a. map_of (am_accounts m) i = Some a \<and> sa_generation r = sa_generation a + 1)
        \<and> (\<forall>old a. authenticate H m' old = Inr a \<longrightarrow> sa_id a = i \<longrightarrow>
             H (''residual.iam.sa'' @ [newline] @ old) = H (''residual.iam.sa'' @ [newline] @ c)))"
proof (intro conjI allI impI)
  note inv = accounts_reach_inv [OF assms]
  have auth: "authenticate H n c = Inr a \<longleftrightarrow> c \<noteq> [] \<and> (\<exists>i. map_of (am_credentials n) (H (''residual.iam.sa'' @ [newline] @ c)) = Some i
      \<and> map_of (am_accounts n) i = Some a)" for n c a
    by (auto simp: authenticate_def hash_credential_def result_simps split: option.splits)
  fix c a
  assume "authenticate H m c = Inr a"
  then obtain i where i: "map_of (am_accounts m) i = Some a" by (auto simp: auth)
  then have a: "sa_id a = i" "\<forall>p\<in>set (sa_permissions a). pm_category p \<notin> set FORBIDDEN_SERVICE_PERMISSIONS"
    using inv map_of_SomeD [OF i] by (auto simp: accounts_inv_def)
  with i show "map_of (am_accounts m) (sa_id a) = Some a" by simp
  fix cat sc ip now b m'
  assume f: "cat \<in> set FORBIDDEN_SERVICE_PERMISSIONS" and "account_authorize H ip_of m a cat sc ip now = Inr (b, m')"
  then have "b = list_ex (\<lambda>p. permission_grants p cat sc) (sa_permissions a)" using account_authorize_Inr(1) by blast
  with a(2) f show "\<not> b" by (auto simp: list_ex_iff permission_grants_def split: if_splits)
next
  note inv = accounts_reach_inv [OF assms]
  have auth: "authenticate H n c = Inr a \<longleftrightarrow> c \<noteq> [] \<and> (\<exists>i. map_of (am_credentials n) (H (''residual.iam.sa'' @ [newline] @ c)) = Some i
      \<and> map_of (am_accounts n) i = Some a)" for n c a
    by (auto simp: authenticate_def hash_credential_def result_simps split: option.splits)
  fix i kt r c m'
  assume rot: "rotate_account H m i kt = Inr (r, c, m')"
  then obtain a where a: "map_of (am_accounts m) i = Some a" "r = a\<lparr>sa_generation := sa_generation a + 1\<rparr>" "c = ''svckey-'' @ kt"
    and m': "m' = m\<lparr>am_credentials := AList.update (H (''residual.iam.sa'' @ [newline] @ c)) i (filter (\<lambda>(h, j). j \<noteq> i) (am_credentials m)),
            am_accounts := AList.update i r (am_accounts m)\<rparr>"
    by (rule rotate_Inr)
  show "authenticate H m' c = Inr r" using a(3) by (simp add: auth m')
  show "\<exists>a. map_of (am_accounts m) i = Some a \<and> sa_generation r = sa_generation a + 1" using a by simp
  fix old b
  assume "authenticate H m' old = Inr b" and id: "sa_id b = i"
  then obtain k where k: "map_of (am_credentials m') (H (''residual.iam.sa'' @ [newline] @ old)) = Some k" "map_of (am_accounts m') k = Some b"
    by (auto simp: auth)
  have "accounts_inv m'" using accounts_inv_rotate [OF inv rot] .
  then have "k = i" using map_of_SomeD [OF k(2)] id by (auto simp: accounts_inv_def)
  with k(1) show "H (''residual.iam.sa'' @ [newline] @ old) = H (''residual.iam.sa'' @ [newline] @ c)"
    by (auto simp: m' split: if_splits dest!: map_of_SomeD)
qed

section \<open>Witnesses\<close>

definition sample_accounts :: account_manager where
  "sample_accounts = account_step id (\<lambda>_. None) (CreateAccount ''bot'' ''ann'' [\<lparr>pm_category = ''task_type'', pm_scope = ''build''\<rparr>] ''1'' ''k1'')
     (new_accounts empty_log)"

lemma sample_accounts_reach: "accounts_reach id (\<lambda>_. None) sample_accounts"
  unfolding sample_accounts_def by (intro step start)

theorem rotation_cuts_off_witness:
  "\<exists>r m'. rotate_account id sample_accounts ''svc-1'' ''k2'' = Inr (r, ''svckey-k2'', m') \<and> authenticate id m' ''svckey-k2'' = Inr r
     \<and> \<not> (\<exists>a. authenticate id m' ''svckey-k1'' = Inr a \<and> sa_id a = ''svc-1'')"
proof -
  have e: "map_sum (\<lambda>_. ()) (\<lambda>(r, c, m). (c, sa_generation r)) (rotate_account id sample_accounts ''svc-1'' ''k2'') = Inr (''svckey-k2'', 2)"
    by code_simp
  then obtain r m' where r: "rotate_account id sample_accounts ''svc-1'' ''k2'' = Inr (r, ''svckey-k2'', m')"
    by (cases "rotate_account id sample_accounts ''svc-1'' ''k2''") auto
  have "authenticate id m' ''svckey-k2'' = Inr r"
    "\<forall>old a. authenticate id m' old = Inr a \<longrightarrow> sa_id a = ''svc-1'' \<longrightarrow>
      id (''residual.iam.sa'' @ [newline] @ old) = id (''residual.iam.sa'' @ [newline] @ ''svckey-k2'')"
    using rotation_cuts_off [OF sample_accounts_reach] r by blast+
  with r show ?thesis by (intro exI [of _ r] exI [of _ m']) auto
qed

end
