(* ===== verification/Hadr_Chain.thy ===== *)
theory Hadr_Chain
  imports Core Hash_Chain Complex_Main
begin

text \<open>
  The foundations of the high-availability package: the manual clock
  (\<open>src/residual/hadr/clock.py\<close>), the receipt chain (\<open>src/residual/hadr/chain.py\<close>) and the event
  journal (\<open>src/residual/hadr/events.py\<close>).

  \<^item> A finite float is a rational. \<open>fe_round\<close> is the rounding of an exact result to the nearest
    float and \<open>fe_repr\<close> the text \<open>repr\<close> gives; an operation of the clock that produces a
    non-finite float is outside the model.
  \<^item> The clock object is shared. A call that reads it takes the readings as a function
    \<open>clk\<close>: \<open>clk i\<close> is the reading number \<open>i\<close> of the call.
  \<^item> The receipt chain is an instance of the locale \<open>hash_chain\<close>. The journal has no sequence
    numbers; its own lemmas show that recording keeps it verifiable.
\<close>

record float_env =
  fe_repr :: "rat \<Rightarrow> string"
  fe_round :: "rat \<Rightarrow> rat"

text \<open>The exact environment used by the examples: no rounding, times printed as whole seconds.\<close>

definition exact_env :: float_env where
  "exact_env = \<lparr>fe_repr = (\<lambda>r. int_str \<lfloor>r\<rfloor> @ ''.0''), fe_round = (\<lambda>r. r)\<rparr>"

definition float_json :: "float_env \<Rightarrow> rat \<Rightarrow> json" where
  "float_json env t = JFloat (fe_repr env t)"

section \<open>The manual clock\<close>

definition advance :: "float_env \<Rightarrow> rat \<Rightarrow> rat \<Rightarrow> rat result" where
  "advance env current seconds =
     bind_r (ensure (\<not> seconds < 0) (ContractError ''clock advance must be a nonnegative number'')) (\<lambda>_.
     Inr (fe_round env (current + seconds)))"

section \<open>The receipt chain\<close>

definition HADR_CHAIN_SCHEMA :: string where
  "HADR_CHAIN_SCHEMA = ''residual.hadr.chain.v1''"

definition GENESIS_HASH :: string where
  "GENESIS_HASH = replicate 64 (CHR ''0'')"

record chain_receipt =
  cr_id :: string
  cr_sequence :: nat
  cr_task :: string
  cr_payload :: string
  cr_prev :: string

type_synonym receipt_chain = "chain_receipt list"

definition chain_body :: "nat \<Rightarrow> string \<Rightarrow> string \<Rightarrow> string \<Rightarrow> (string \<times> json) list" where
  "chain_body sequence task payload prev = [(''sequence'', JInt (int sequence)), (''task_id'', JStr task),
     (''payload'', JStr payload), (''prev_hash'', JStr prev)]"

text \<open>The body holds an integer and texts, so \<open>canonical\<close> cannot raise and is \<open>dumps\<close>
  (\<open>canonical_chain_body\<close>).\<close>

definition receipt_text :: "nat \<Rightarrow> string \<Rightarrow> string \<Rightarrow> string \<Rightarrow> string" where
  "receipt_text sequence task payload prev =
     HADR_CHAIN_SCHEMA @ [newline] @ dumps (JObj (chain_body sequence task payload prev))"

definition chain_receipt_hash :: "(string \<Rightarrow> string) \<Rightarrow> nat \<Rightarrow> string \<Rightarrow> string \<Rightarrow> string \<Rightarrow> string" where
  "chain_receipt_hash H sequence task payload prev = H (receipt_text sequence task payload prev)"

definition verify_receipt :: "(string \<Rightarrow> string) \<Rightarrow> chain_receipt \<Rightarrow> bool" where
  "verify_receipt H r = (cr_id r = chain_receipt_hash H (cr_sequence r) (cr_task r) (cr_payload r) (cr_prev r))"

definition head_hash :: "receipt_chain \<Rightarrow> string" where
  "head_hash c = (if c = [] then GENESIS_HASH else cr_id (last c))"

definition new_receipt :: "(string \<Rightarrow> string) \<Rightarrow> receipt_chain \<Rightarrow> string \<Rightarrow> string \<Rightarrow> chain_receipt" where
  "new_receipt H c task payload =
     \<lparr>cr_id = chain_receipt_hash H (length c) task payload (head_hash c), cr_sequence = length c,
      cr_task = task, cr_payload = payload, cr_prev = head_hash c\<rparr>"

definition chain_append :: "(string \<Rightarrow> string) \<Rightarrow> receipt_chain \<Rightarrow> string \<Rightarrow> string \<Rightarrow> (receipt_chain \<times> chain_receipt) result" where
  "chain_append H c task payload =
     bind_r (ensure (\<not> blank task) (ContractError ''task_id is required'')) (\<lambda>_.
     let r = new_receipt H c task payload in Inr (c @ [r], r))"

fun verify_receipts :: "(string \<Rightarrow> string) \<Rightarrow> nat \<Rightarrow> string \<Rightarrow> receipt_chain \<Rightarrow> bool" where
  "verify_receipts H index prev [] = True"
| "verify_receipts H index prev (r # rs) =
     (if cr_sequence r \<noteq> index \<or> cr_prev r \<noteq> prev \<or> \<not> verify_receipt H r then False
      else verify_receipts H (Suc index) (cr_id r) rs)"

definition verify_receipt_chain :: "(string \<Rightarrow> string) \<Rightarrow> receipt_chain \<Rightarrow> bool" where
  "verify_receipt_chain H c = verify_receipts H 0 GENESIS_HASH c"

definition last_verified :: "(string \<Rightarrow> string) \<Rightarrow> receipt_chain \<Rightarrow> chain_receipt option result" where
  "last_verified H c =
     bind_r (ensure (verify_receipt_chain H c) (ContractError ''receipt chain failed integrity verification'')) (\<lambda>_.
     Inr (if c = [] then None else Some (last c)))"

section \<open>The event journal\<close>

definition EVENT_SCHEMA :: string where
  "EVENT_SCHEMA = ''residual.hadr.event.v1''"

definition EVENT_KINDS :: "string list" where
  "EVENT_KINDS = [''failover'', ''backup'', ''restore-test'', ''takeover'', ''degraded-sync'', ''replication-lag-alert'']"

record journal_entry =
  je_hash :: string
  je_kind :: string
  je_at :: rat
  je_details :: "(string \<times> string) list"
  je_prev :: string

type_synonym journal = "journal_entry list"

definition event_body :: "float_env \<Rightarrow> string \<Rightarrow> rat \<Rightarrow> (string \<times> string) list \<Rightarrow> string \<Rightarrow> json" where
  "event_body env kind now details prev = JObj [(''kind'', JStr kind), (''at'', float_json env now),
     (''details'', JArr (map (\<lambda>(k, v). JArr [JStr k, JStr v]) details)), (''prev_hash'', JStr prev)]"

definition event_hash :: "(string \<Rightarrow> string) \<Rightarrow> float_env \<Rightarrow> string \<Rightarrow> rat \<Rightarrow> (string \<times> string) list \<Rightarrow> string \<Rightarrow> string result" where
  "event_hash H env kind now details prev =
     bind_r (canonical (event_body env kind now details prev)) (\<lambda>t. Inr (H (EVENT_SCHEMA @ [newline] @ t)))"

definition journal_head :: "journal \<Rightarrow> string" where
  "journal_head j = (if j = [] then replicate 64 (CHR ''0'') else je_hash (last j))"

definition journal_record ::
  "(string \<Rightarrow> string) \<Rightarrow> float_env \<Rightarrow> rat \<Rightarrow> journal \<Rightarrow> string \<Rightarrow> (string \<times> json) list \<Rightarrow> journal result" where
  "journal_record H env now j kind details =
     bind_r (ensure (kind \<in> set EVENT_KINDS) (ContractError ''unknown HA/DR event kind'')) (\<lambda>_.
     bind_r (map_r (\<lambda>(k, v). bind_r (canonical v) (\<lambda>t. Inr (k, t))) details) (\<lambda>pairs.
     let normalized = sort pairs; prev = journal_head j in
     bind_r (event_hash H env kind now normalized prev) (\<lambda>h.
     Inr (j @ [\<lparr>je_hash = h, je_kind = kind, je_at = now, je_details = normalized, je_prev = prev\<rparr>]))))"

definition of_kind :: "journal \<Rightarrow> string \<Rightarrow> journal_entry list" where
  "of_kind j kind = filter (\<lambda>e. je_kind e = kind) j"

fun verify_entries :: "(string \<Rightarrow> string) \<Rightarrow> float_env \<Rightarrow> string \<Rightarrow> journal \<Rightarrow> bool result" where
  "verify_entries H env prev [] = Inr True"
| "verify_entries H env prev (e # es) =
     bind_r (event_hash H env (je_kind e) (je_at e) (je_details e) (je_prev e)) (\<lambda>expect.
     if je_prev e \<noteq> prev \<or> je_hash e \<noteq> expect then Inr False else verify_entries H env (je_hash e) es)"

definition verify_journal :: "(string \<Rightarrow> string) \<Rightarrow> float_env \<Rightarrow> journal \<Rightarrow> bool result" where
  "verify_journal H env j = verify_entries H env (replicate 64 (CHR ''0'')) j"

section \<open>The chain is a hash chain\<close>

abbreviation cr_text :: "chain_receipt \<Rightarrow> string" where
  "cr_text r \<equiv> receipt_text (cr_sequence r) (cr_task r) (cr_payload r) (cr_prev r)"

lemma wf_chain_body: "wf_json exact_float (JObj (chain_body s t p h))"
  by (simp add: chain_body_def)

lemma canonical_chain_body: "canonical (JObj (chain_body s t p h)) = Inr (dumps (JObj (chain_body s t p h)))"
  using canonical_wf [OF wf_chain_body] .

lemma receipt_text_inj:
  assumes "receipt_text s t p h = receipt_text s' t' p' h'"
  shows "s = s' \<and> t = t' \<and> p = p' \<and> h = h'"
proof -
  have eq: "dumps (JObj (chain_body s t p h)) = dumps (JObj (chain_body s' t' p' h'))"
    using assms by (simp add: receipt_text_def)
  note field = dumps_obj_field [OF wf_chain_body wf_chain_body eq]
  show ?thesis
    using field [of "''sequence''"] field [of "''task_id''"] field [of "''payload''"] field [of "''prev_hash''"]
    by (simp add: chain_body_def)
qed

interpretation receipts: hash_chain H cr_text cr_sequence cr_prev cr_id "\<lambda>_. True" GENESIS_HASH for H
  by unfold_locales (auto dest: receipt_text_inj)

lemma verify_receipts_linked:
  "verify_receipts H i p c \<longleftrightarrow> linked H cr_text cr_sequence cr_prev cr_id i p c"
  by (induction H i p c rule: verify_receipts.induct) (auto simp: verify_receipt_def chain_receipt_hash_def)

lemma head_hash_chain_head: "head_hash c = chain_head cr_id GENESIS_HASH c"
  by (simp add: head_hash_def chain_head_def)

lemma chain_append_Inr [result_simps]:
  "chain_append H c task payload = Inr (c', r) \<longleftrightarrow> \<not> blank task \<and> r = new_receipt H c task payload \<and> c' = c @ [r]"
  by (auto simp: chain_append_def Let_def result_simps)

lemma new_receipt_verifies:
  "verify_receipt_chain H c \<Longrightarrow> verify_receipt_chain H (c @ [new_receipt H c task payload])"
  unfolding verify_receipt_chain_def verify_receipts_linked
  by (rule receipts.append_keeps_links)
     (simp_all add: new_receipt_def head_hash_chain_head chain_receipt_hash_def)

lemma new_receipt_sel [simp]:
  "cr_task (new_receipt H c task payload) = task" "cr_payload (new_receipt H c task payload) = payload"
  "cr_sequence (new_receipt H c task payload) = length c"
  by (simp_all add: new_receipt_def)

lemma verify_nil [simp]: "verify_receipt_chain H []"
  by (simp add: verify_receipt_chain_def)

text \<open>Two verified chains with the same head hold the same receipts, or the hash function collides.\<close>

lemma chain_head_binds:
  assumes "verify_receipt_chain H c" and "verify_receipt_chain H d" and "c \<noteq> []" and "d \<noteq> []"
    and "head_hash c = head_hash d"
  shows "c = d \<or> (\<exists>a\<in>set c. \<exists>b\<in>set d. collision H (cr_text a) (cr_text b))"
proof -
  have l: "linked H cr_text cr_sequence cr_prev cr_id 0 GENESIS_HASH c" "linked H cr_text cr_sequence cr_prev cr_id 0 GENESIS_HASH d"
    using assms by (simp_all add: verify_receipt_chain_def verify_receipts_linked)
  have "c = d" if t: "map cr_text c = map cr_text d"
  proof (rule nth_equalityI)
    show len: "length c = length d" using t by (rule map_eq_imp_length_eq)
    fix i assume i: "i < length c"
    have id: "cr_id r = H (cr_text r)" if "r \<in> set rs" "linked H cr_text cr_sequence cr_prev cr_id n p rs" for r rs n p
      using that by (induction rs arbitrary: n p) auto
    have eq: "cr_text (c ! i) = cr_text (d ! i)" using arg_cong [OF t, of "\<lambda>xs. xs ! i"] i len by simp
    have "cr_id (c ! i) = cr_id (d ! i)"
      using id [OF _ l(1), of "c ! i"] id [OF _ l(2), of "d ! i"] eq i len by simp
    with receipt_text_inj [OF eq] show "c ! i = d ! i" by (intro chain_receipt.equality) simp_all
  qed
  with receipts.head_binds_log [OF l] assms(3-5) show ?thesis
    by (auto simp: head_hash_chain_head list_all_iff)
qed

section \<open>Recording keeps the journal\<close>

lemma event_hash_total: "\<exists>h. event_hash H env kind now details prev = Inr h"
  by (auto simp: event_hash_def event_body_def float_json_def canonical_def list_all_iff)

lemma verify_entries_append:
  "verify_entries H env p es = Inr True \<Longrightarrow>
   verify_entries H env p (es @ fs) = verify_entries H env (if es = [] then p else je_hash (last es)) fs"
proof (induction H env p es rule: verify_entries.induct)
  case (2 H env p e es)
  obtain x where x: "event_hash H env (je_kind e) (je_at e) (je_details e) (je_prev e) = Inr x"
    using event_hash_total by blast
  show ?case using "2.IH" [OF x] "2.prems" x by (auto split: if_splits)
qed simp

lemma journal_record_verifies:
  assumes "verify_journal H env j = Inr True" and "journal_record H env now j kind details = Inr j'"
  shows "verify_journal H env j' = Inr True"
proof -
  from assms(2) obtain h n where h: "event_hash H env kind now n (journal_head j) = Inr h"
    and j': "j' = j @ [\<lparr>je_hash = h, je_kind = kind, je_at = now, je_details = n, je_prev = journal_head j\<rparr>]"
    by (auto simp: journal_record_def Let_def result_simps)
  show ?thesis
    using assms(1) h verify_entries_append [of H env "replicate 64 (CHR ''0'')" j]
    by (auto simp: j' verify_journal_def journal_head_def)
qed

lemma map_r_canonical_total:
  "list_all (\<lambda>(k, v). finite_json v) details \<Longrightarrow>
   \<exists>pairs. map_r (\<lambda>(k, v). bind_r (canonical v) (\<lambda>t. Inr (k, t))) details = Inr pairs"
  by (induction details) (auto simp: canonical_def)

lemma journal_record_total:
  assumes "kind \<in> set EVENT_KINDS" and "list_all (\<lambda>(k, v). finite_json v) details"
  shows "\<exists>e. journal_record H env now j kind details = Inr (j @ [e]) \<and> je_kind e = kind \<and> je_at e = now"
proof -
  obtain pairs where "map_r (\<lambda>(k, v). bind_r (canonical v) (\<lambda>t. Inr (k, t))) details = Inr pairs"
    using map_r_canonical_total [OF assms(2)] by blast
  with assms(1) event_hash_total [of H env kind now "sort pairs" "journal_head j"] show ?thesis
    by (auto simp: journal_record_def Let_def)
qed

end
