(* ===== verification/Simulation.thy ===== *)
theory Simulation
  imports Prelude
begin

text \<open>
  Refinement of an abstract machine by a program, for deterministic steps with outputs. The locale
  \<open>simulation\<close> takes the step function of the code's model, the one of the specification, an abstraction
  function and an invariant; from the one-step laws it proves that every run of the code is a run of
  the specification with the same outputs.
\<close>

primrec run_ops :: "('s \<Rightarrow> 'op \<Rightarrow> 's \<times> 'out) \<Rightarrow> 's \<Rightarrow> 'op list \<Rightarrow> 's \<times> 'out list" where
  "run_ops step s [] = (s, [])"
| "run_ops step s (op # ops) =
     (case step s op of (s', out) \<Rightarrow> case run_ops step s' ops of (t, outs) \<Rightarrow> (t, out # outs))"

lemma run_ops_append:
  "run_ops step s (xs @ ys) =
     (case run_ops step s xs of (t, outs) \<Rightarrow> case run_ops step t ys of (u, outs') \<Rightarrow> (u, outs @ outs'))"
  by (induction xs arbitrary: s) (auto split: prod.splits)

locale simulation =
  fixes inv :: "'s \<Rightarrow> bool"
    and step :: "'s \<Rightarrow> 'op \<Rightarrow> 's \<times> 'out"
    and spec :: "'a \<Rightarrow> 'op \<Rightarrow> 'a \<times> 'out"
    and abs :: "'s \<Rightarrow> 'a"
  assumes step_inv: "inv s \<Longrightarrow> inv (fst (step s op))"
    and step_sim: "inv s \<Longrightarrow> spec (abs s) op = (abs (fst (step s op)), snd (step s op))"
begin

lemma run_inv: "inv s \<Longrightarrow> inv (fst (run_ops step s ops))"
proof (induction ops arbitrary: s)
  case (Cons op ops)
  then show ?case using step_inv [of s op] Cons.IH [of "fst (step s op)"] by (simp add: case_prod_unfold)
qed simp

lemma run_sim: "inv s \<Longrightarrow> run_ops spec (abs s) ops = (abs (fst (run_ops step s ops)), snd (run_ops step s ops))"
proof (induction ops arbitrary: s)
  case (Cons op ops)
  then show ?case
    using step_inv [of s op] step_sim [of s op] Cons.IH [of "fst (step s op)"] by (simp add: case_prod_unfold)
qed simp

end

end
