(* ===== verification/Hadr_Replication.thy ===== *)
theory Hadr_Replication
  imports Hadr_Chain Simulation "HOL-Library.Multiset"
begin

text \<open>
  The receipt replicator, \<open>src/residual/hadr/replication.py\<close>: the in-process transport, the replica
  nodes, synchronous replication in the primary region, asynchronous replication to the others and
  the lag alerts.

  \<^item> An operation that can raise after changing state returns the state with the result.
  \<^item> Node availability is an attribute that callers set; it is the operation \<open>set_available\<close> of the
    step function.
  \<^item> Shown: the replicator refines an atomic log that acknowledges an entry exactly when an available
    primary-region replica can hold it (locale \<open>simulation\<close>), every acknowledged receipt stays on a
    primary-region replica, the local chain always verifies, and with available replicas the copies in
    every region are a prefix of the primary chain whose rest is in flight.
\<close>

definition MAX_SECONDARY_LAG_SECONDS :: rat where
  "MAX_SECONDARY_LAG_SECONDS = 30"

record replica_message =
  rm_origin :: string
  rm_target :: string
  rm_receipt :: chain_receipt
  rm_enqueued :: rat
  rm_deliver :: rat

record transport =
  tp_latency :: "(string, rat) dict"
  tp_pending :: "replica_message list"

definition latency_for :: "transport \<Rightarrow> string \<Rightarrow> rat" where
  "latency_for tp region = (case map_of (tp_latency tp) region of None \<Rightarrow> 0 | Some l \<Rightarrow> l)"

definition send :: "float_env \<Rightarrow> rat \<Rightarrow> transport \<Rightarrow> string \<Rightarrow> string \<Rightarrow> chain_receipt \<Rightarrow> transport" where
  "send env now tp origin region r = tp\<lparr>tp_pending := tp_pending tp @
     [\<lparr>rm_origin = origin, rm_target = region, rm_receipt = r, rm_enqueued = now,
       rm_deliver = fe_round env (now + latency_for tp region)\<rparr>]\<rparr>"

definition flush_due :: "rat \<Rightarrow> transport \<Rightarrow> transport \<times> replica_message list" where
  "flush_due now tp = (tp\<lparr>tp_pending := filter (\<lambda>m. rm_deliver m > now) (tp_pending tp)\<rparr>,
     filter (\<lambda>m. rm_deliver m \<le> now) (tp_pending tp))"

definition pending_for :: "transport \<Rightarrow> string \<Rightarrow> replica_message list" where
  "pending_for tp region = filter (\<lambda>m. rm_target m = region) (tp_pending tp)"

record replica_node =
  rn_id :: string
  rn_region :: string
  rn_primary :: bool
  rn_available :: bool
  rn_chain :: receipt_chain

definition install :: "replica_node \<Rightarrow> chain_receipt \<Rightarrow> replica_node result" where
  "install n r =
     bind_r (ensure (rn_available n) (ContractError ''replica is unavailable'')) (\<lambda>_.
     Inr (n\<lparr>rn_chain := rn_chain n @ [r]\<rparr>))"

record lag_alert =
  la_region :: string
  la_receipt :: string
  la_lag :: rat
  la_max :: rat

type_synonym replicas = "(string, replica_node) dict"

record replicator =
  rp_transport :: transport
  rp_region :: string
  rp_max_lag :: rat
  rp_chain :: receipt_chain
  rp_replicas :: replicas

definition add_replica :: "replicator \<Rightarrow> replica_node \<Rightarrow> replicator result" where
  "add_replica s n =
     bind_r (ensure (map_of (rp_replicas s) (rn_id n) = None) (ContractError ''duplicate replica registration'')) (\<lambda>_.
     Inr (s\<lparr>rp_replicas := AList.update (rn_id n) (n\<lparr>rn_primary := (rn_region n = rp_region s)\<rparr>) (rp_replicas s)\<rparr>))"

text \<open>The nodes a loop visits, as dictionary items ordered by \<open>node_id\<close>.\<close>

definition by_node_id :: "replicas \<Rightarrow> replicas" where
  "by_node_id rs = sort_key (\<lambda>(k, n). rn_id n) rs"

fun install_each :: "chain_receipt \<Rightarrow> replicas \<Rightarrow> replicas \<Rightarrow> replicas \<times> unit result" where
  "install_each r [] rs = (rs, Inr ())"
| "install_each r ((k, n) # ns) rs =
     (case install n r of
        Inl e \<Rightarrow> (rs, Inl e)
      | Inr n' \<Rightarrow> install_each r ns (AList.update k n' rs))"

definition replicate_sync_primary :: "replicator \<Rightarrow> chain_receipt \<Rightarrow> replicator \<times> unit result" where
  "replicate_sync_primary s r =
     (let primaries = filter (\<lambda>(k, n). rn_primary n \<and> rn_available n) (rp_replicas s) in
      if primaries = [] then (s, Inl (ContractError ''durability policy unmet: no available primary-region replica (RPO=0)''))
      else
        let (rs, out) = install_each r (by_node_id primaries) (rp_replicas s) in
        (s\<lparr>rp_replicas := rs\<rparr>, out))"

definition secondary_regions :: "replicas \<Rightarrow> string list" where
  "secondary_regions rs = sort (remdups (map (\<lambda>(k, n). rn_region n) (filter (\<lambda>(k, n). \<not> rn_primary n) rs)))"

fun send_each :: "float_env \<Rightarrow> (nat \<Rightarrow> rat) \<Rightarrow> string \<Rightarrow> chain_receipt \<Rightarrow> string list \<Rightarrow> transport \<Rightarrow> transport" where
  "send_each env clk origin r [] tp = tp"
| "send_each env clk origin r (g # gs) tp =
     send_each env (\<lambda>i. clk (Suc i)) origin r gs (send env (clk 0) tp origin g r)"

definition replicate_async_secondaries :: "float_env \<Rightarrow> (nat \<Rightarrow> rat) \<Rightarrow> replicator \<Rightarrow> chain_receipt \<Rightarrow> replicator" where
  "replicate_async_secondaries env clk s r =
     s\<lparr>rp_transport := send_each env clk (rp_region s) r (secondary_regions (rp_replicas s)) (rp_transport s)\<rparr>"

definition replicator_append ::
  "(string \<Rightarrow> string) \<Rightarrow> float_env \<Rightarrow> (nat \<Rightarrow> rat) \<Rightarrow> replicator \<Rightarrow> string \<Rightarrow> string \<Rightarrow> replicator \<times> chain_receipt result" where
  "replicator_append H env clk s task payload =
     (case chain_append H (rp_chain s) task payload of
        Inl e \<Rightarrow> (s, Inl e)
      | Inr (c, r) \<Rightarrow>
          (case replicate_sync_primary (s\<lparr>rp_chain := c\<rparr>) r of
             (s', Inl e) \<Rightarrow>
               (case e of
                  ContractError _ \<Rightarrow> (s'\<lparr>rp_chain := butlast (rp_chain s')\<rparr>, Inl e)
                | _ \<Rightarrow> (s', Inl e))
           | (s', Inr _) \<Rightarrow> (replicate_async_secondaries env clk s' r, Inr r)))"

fun deliver_each :: "replica_message list \<Rightarrow> replicas \<Rightarrow> replicas \<times> unit result" where
  "deliver_each [] rs = (rs, Inr ())"
| "deliver_each (m # ms) rs =
     (case install_each (rm_receipt m)
         (filter (\<lambda>(k, n). rn_region n = rm_target m \<and> \<not> rn_primary n \<and> rn_available n) (by_node_id rs)) rs of
        (rs', Inl e) \<Rightarrow> (rs', Inl e)
      | (rs', Inr _) \<Rightarrow> deliver_each ms rs')"

definition deliver :: "rat \<Rightarrow> replicator \<Rightarrow> replicator \<times> replica_message list result" where
  "deliver now s =
     (let (tp, delivered) = flush_due now (rp_transport s);
          (rs, out) = deliver_each delivered (rp_replicas s) in
      (s\<lparr>rp_transport := tp, rp_replicas := rs\<rparr>, bind_r out (\<lambda>_. Inr delivered)))"

definition lag :: "float_env \<Rightarrow> rat \<Rightarrow> replicator \<Rightarrow> string \<Rightarrow> rat" where
  "lag env now s region =
     (case pending_for (rp_transport s) region of
        [] \<Rightarrow> 0
      | m # ms \<Rightarrow> fe_round env (now - fold (\<lambda>x y. min y (rm_enqueued x)) ms (rm_enqueued m)))"

fun alert_each ::
  "(string \<Rightarrow> string) \<Rightarrow> float_env \<Rightarrow> rat \<Rightarrow> (nat \<Rightarrow> rat) \<Rightarrow> rat \<Rightarrow> replica_message list \<Rightarrow> (string \<times> string) list \<Rightarrow> lag_alert list
     \<Rightarrow> journal \<Rightarrow> journal \<times> lag_alert list result" where
  "alert_each H env now clk mx [] seen alerts j = (j, Inr alerts)"
| "alert_each H env now clk mx (m # ms) seen alerts j =
     (let l = fe_round env (now - rm_enqueued m); key = (rm_target m, cr_id (rm_receipt m)) in
      if l > mx \<and> key \<notin> set seen then
        (case journal_record H env (clk 0) j ''replication-lag-alert''
             [(''region'', JStr (rm_target m)), (''receipt_id'', JStr (cr_id (rm_receipt m))),
              (''lag_seconds'', float_json env l), (''max_lag_seconds'', float_json env mx)] of
           Inl e \<Rightarrow> (j, Inl e)
         | Inr j' \<Rightarrow> alert_each H env now (\<lambda>i. clk (Suc i)) mx ms (key # seen)
             (alerts @ [\<lparr>la_region = rm_target m, la_receipt = cr_id (rm_receipt m), la_lag = l, la_max = mx\<rparr>]) j')
      else alert_each H env now clk mx ms seen alerts j)"

definition check_max_lag ::
  "(string \<Rightarrow> string) \<Rightarrow> float_env \<Rightarrow> (nat \<Rightarrow> rat) \<Rightarrow> replicator \<Rightarrow> journal \<Rightarrow> journal \<times> lag_alert list result" where
  "check_max_lag H env clk s j =
     alert_each H env (clk 0) (\<lambda>i. clk (Suc i)) (rp_max_lag s)
       (sort_key (\<lambda>m. (rm_target m, rm_enqueued m)) (tp_pending (rp_transport s))) [] [] j"

definition assert_max_lag ::
  "(string \<Rightarrow> string) \<Rightarrow> float_env \<Rightarrow> (nat \<Rightarrow> rat) \<Rightarrow> replicator \<Rightarrow> journal \<Rightarrow> journal \<times> unit result" where
  "assert_max_lag H env clk s j =
     (case check_max_lag H env clk s j of
        (j', out) \<Rightarrow> (j', bind_r out (\<lambda>alerts.
           ensure (alerts = []) (ContractError ''replication lag exceeds budget''))))"

section \<open>Installing on several nodes\<close>

text \<open>\<open>push_where\<close> says at once what an install loop does: every node that satisfies the guard gets the receipt.\<close>

definition push_where :: "(replica_node \<Rightarrow> bool) \<Rightarrow> chain_receipt \<Rightarrow> replicas \<Rightarrow> replicas" where
  "push_where P r rs = map (\<lambda>(k, n). (k, if P n then n\<lparr>rn_chain := rn_chain n @ [r]\<rparr> else n)) rs"

definition wf_replicas :: "replicas \<Rightarrow> bool" where
  "wf_replicas rs = (distinct (map fst rs) \<and> (\<forall>(k, n)\<in>set rs. rn_id n = k))"

lemma push_where_keys [simp]: "map fst (push_where P r rs) = map fst rs"
  by (induction rs) (auto simp: push_where_def)

lemma wf_push_where [simp]: "wf_replicas (push_where P r rs) = wf_replicas rs"
proof -
  have "(\<forall>(k, n)\<in>set (push_where P r rs). rn_id n = k) \<longleftrightarrow> (\<forall>(k, n)\<in>set rs. rn_id n = k)"
    by (induction rs) (auto simp: push_where_def)
  then show ?thesis by (simp add: wf_replicas_def)
qed

lemma install_each_ok:
  assumes "distinct (map fst rs)" and "distinct (map fst ns)" and "set ns \<subseteq> set rs"
    and "\<And>k n. (k, n) \<in> set ns \<Longrightarrow> rn_available n"
  shows "install_each r ns rs =
    (map (\<lambda>(k, n). (k, if k \<in> fst ` set ns then n\<lparr>rn_chain := rn_chain n @ [r]\<rparr> else n)) rs, Inr ())"
  using assms
proof (induction ns arbitrary: rs)
  case Nil
  then show ?case by (simp add: case_prod_unfold)
next
  case (Cons a ns)
  obtain k n where a: "a = (k, n)" by (cases a)
  let ?n = "n\<lparr>rn_chain := rn_chain n @ [r]\<rparr>"
  let ?rs = "map (\<lambda>(k', m). (k', if k' = k then ?n else m)) rs"
  have kn: "(k, n) \<in> set rs" using Cons.prems(3) a by simp
  have upd: "AList.update k ?n rs = ?rs" using update_existing [OF Cons.prems(1) kn] .
  have keys: "map fst ?rs = map fst rs" by (induction rs) auto
  have av: "rn_available n" using Cons.prems(4) [of k n] a by simp
  have sub: "set ns \<subseteq> set ?rs"
  proof
    fix x assume x: "x \<in> set ns"
    obtain k' m where x': "x = (k', m)" by (cases x)
    have "k' \<noteq> k" using x x' Cons.prems(2) a by (auto simp: rev_image_eqI)
    moreover have "(k', m) \<in> set rs" using x x' Cons.prems(3) by auto
    ultimately show "x \<in> set ?rs" using x' by force
  qed
  have av': "rn_available m" if "(k', m) \<in> set ns" for k' m using that Cons.prems(4) a by auto
  have IH: "install_each r ns ?rs =
      (map (\<lambda>(k, n). (k, if k \<in> fst ` set ns then n\<lparr>rn_chain := rn_chain n @ [r]\<rparr> else n)) ?rs, Inr ())"
  proof (rule Cons.IH)
    show "distinct (map fst ?rs)" unfolding keys by (rule Cons.prems(1))
    show "distinct (map fst ns)" using Cons.prems(2) a by simp
  qed (use sub av' in auto)
  have only: "m = n" if "(k, m) \<in> set rs" for m using that kn Cons.prems(1) by (metis eq_key_imp_eq_value)
  have knot: "k \<notin> fst ` set ns" using Cons.prems(2) a by simp
  have "map (\<lambda>(k, n). (k, if k \<in> fst ` set ns then n\<lparr>rn_chain := rn_chain n @ [r]\<rparr> else n)) ?rs
      = map (\<lambda>(k, n). (k, if k \<in> fst ` set (a # ns) then n\<lparr>rn_chain := rn_chain n @ [r]\<rparr> else n)) rs"
    using only knot a by auto
  then show ?case using a av upd IH by (simp add: install_def)
qed

lemma install_each_filter:
  assumes "wf_replicas rs" and "\<And>n. P n \<Longrightarrow> rn_available n" and "mset ns = mset (filter (\<lambda>(k, n). P n) rs)"
  shows "install_each r ns rs = (push_where P r rs, Inr ())"
proof -
  have d: "distinct (map fst rs)" using assms(1) by (simp add: wf_replicas_def)
  have s: "set ns = set (filter (\<lambda>(k, n). P n) rs)" using assms(3) by (rule mset_eq_setD)
  have "distinct (map fst (filter (\<lambda>(k, n). P n) rs))" using d by (simp add: distinct_map_filter)
  then have dn: "distinct (map fst ns)" using assms(3) by (metis mset_eq_imp_distinct_iff mset_map)
  have m: "k \<in> fst ` set ns \<longleftrightarrow> P n" if "(k, n) \<in> set rs" for k n
    using that s d by (auto simp: image_iff) (metis eq_key_imp_eq_value)
  have "install_each r ns rs =
      (map (\<lambda>(k, n). (k, if k \<in> fst ` set ns then n\<lparr>rn_chain := rn_chain n @ [r]\<rparr> else n)) rs, Inr ())"
    using s assms(2) by (intro install_each_ok d dn) auto
  moreover have "map (\<lambda>(k, n). (k, if k \<in> fst ` set ns then n\<lparr>rn_chain := rn_chain n @ [r]\<rparr> else n)) rs = push_where P r rs"
    unfolding push_where_def using m by (intro map_cong) auto
  ultimately show ?thesis by simp
qed

lemma mset_by_node_id [simp]: "mset (by_node_id rs) = mset rs"
  by (simp add: by_node_id_def)

definition primary_up :: "replica_node \<Rightarrow> bool" where
  "primary_up n = (rn_primary n \<and> rn_available n)"

definition accepts_message :: "replica_message \<Rightarrow> replica_node \<Rightarrow> bool" where
  "accepts_message m n = (rn_region n = rm_target m \<and> \<not> rn_primary n \<and> rn_available n)"

lemma replicate_sync_primary_eq:
  assumes "wf_replicas (rp_replicas s)"
  shows "replicate_sync_primary s r =
    (if \<exists>(k, n)\<in>set (rp_replicas s). primary_up n
     then (s\<lparr>rp_replicas := push_where primary_up r (rp_replicas s)\<rparr>, Inr ())
     else (s, Inl (ContractError ''durability policy unmet: no available primary-region replica (RPO=0)'')))"
proof -
  have "install_each r (by_node_id (filter (\<lambda>(k, n). rn_primary n \<and> rn_available n) (rp_replicas s))) (rp_replicas s)
      = (push_where primary_up r (rp_replicas s), Inr ())"
    using assms by (intro install_each_filter) (auto simp: by_node_id_def primary_up_def)
  then show ?thesis
    by (auto simp: replicate_sync_primary_def Let_def primary_up_def filter_empty_conv)
qed

lemma deliver_each_eq:
  "wf_replicas rs \<Longrightarrow> deliver_each ms rs = (fold (\<lambda>m. push_where (accepts_message m) (rm_receipt m)) ms rs, Inr ())"
proof (induction ms arbitrary: rs)
  case (Cons m ms)
  have "install_each (rm_receipt m)
      (filter (\<lambda>(k, n). rn_region n = rm_target m \<and> \<not> rn_primary n \<and> rn_available n) (by_node_id rs)) rs
      = (push_where (accepts_message m) (rm_receipt m) rs, Inr ())"
    using Cons.prems by (intro install_each_filter) (auto simp: accepts_message_def)
  then show ?case using Cons by simp
qed simp

text \<open>Every operation only extends the copies the nodes hold.\<close>

definition extended :: "string \<times> replica_node \<Rightarrow> string \<times> replica_node \<Rightarrow> bool" where
  "extended a b = (fst b = fst a \<and> (\<exists>c. snd b = snd a\<lparr>rn_chain := rn_chain (snd a) @ c\<rparr>))"

lemma extended_refl [simp]: "extended a a"
  by (auto simp: extended_def intro: exI [of _ "[]"])

lemma extended_trans: "extended a b \<Longrightarrow> extended b c \<Longrightarrow> extended a c"
  by (auto simp: extended_def)

lemma extended_push: "extended (k, n) (k, n\<lparr>rn_chain := rn_chain n @ [r]\<rparr>)"
  by (auto simp: extended_def intro: exI [of _ "[r]"])

lemma push_where_extended: "list_all2 extended rs (push_where P r rs)"
  unfolding push_where_def list_all2_map2
  by (rule list_all2_refl) (auto simp: extended_push)

lemma fold_push_extended: "list_all2 extended rs (fold (\<lambda>m. push_where (P m) (f m)) ms rs)"
proof (induction ms arbitrary: rs)
  case (Cons m ms)
  show ?case
    using list_all2_trans [OF extended_trans push_where_extended Cons.IH] by simp
qed (auto intro: list_all2_refl)

lemma extended_member:
  assumes "list_all2 extended rs rs'" and "(k, n) \<in> set rs"
  shows "\<exists>c. (k, n\<lparr>rn_chain := rn_chain n @ c\<rparr>) \<in> set rs'"
proof -
  obtain i where i: "i < length rs" "rs ! i = (k, n)" using assms(2) by (auto simp: in_set_conv_nth)
  have "extended (k, n) (rs' ! i)" "rs' ! i \<in> set rs'" using assms(1) i by (auto simp: list_all2_conv_all_nth)
  then show ?thesis by (cases "rs' ! i") (auto simp: extended_def)
qed

lemma extended_member':
  assumes "list_all2 extended rs rs'" and "(k, n') \<in> set rs'"
  shows "\<exists>n c. (k, n) \<in> set rs \<and> n' = n\<lparr>rn_chain := rn_chain n @ c\<rparr>"
proof -
  obtain i where i: "i < length rs'" "rs' ! i = (k, n')" using assms(2) by (auto simp: in_set_conv_nth)
  have "extended (rs ! i) (k, n')" "rs ! i \<in> set rs" using assms(1) i by (auto simp: list_all2_conv_all_nth)
  then show ?thesis by (cases "rs ! i") (auto simp: extended_def)
qed

lemma extended_keys: "list_all2 extended rs rs' \<Longrightarrow> map fst rs' = map fst rs"
  by (induction rule: list_all2_induct) (auto simp: extended_def)

lemma extended_wf: "list_all2 extended rs rs' \<Longrightarrow> wf_replicas rs \<Longrightarrow> wf_replicas rs'"
  using extended_keys [of rs rs'] by (fastforce simp: wf_replicas_def dest: extended_member')

section \<open>What the operations do\<close>

lemma secondary_regions_push [simp]: "secondary_regions (push_where P r rs) = secondary_regions rs"
proof -
  have "map (\<lambda>(k, n). rn_region n) (filter (\<lambda>(k, n). \<not> rn_primary n) (push_where P r rs))
      = map (\<lambda>(k, n). rn_region n) (filter (\<lambda>(k, n). \<not> rn_primary n) rs)"
    by (induction rs) (auto simp: push_where_def split: if_splits)
  then show ?thesis by (simp add: secondary_regions_def)
qed

lemma replicator_append_eq:
  assumes "wf_replicas (rp_replicas s)"
  shows "replicator_append H env clk s task payload =
    (if blank task then (s, Inl (ContractError ''task_id is required''))
     else if \<not> (\<exists>(k, n)\<in>set (rp_replicas s). primary_up n)
     then (s, Inl (ContractError ''durability policy unmet: no available primary-region replica (RPO=0)''))
     else let r = new_receipt H (rp_chain s) task payload in
       (s\<lparr>rp_transport := send_each env clk (rp_region s) r (secondary_regions (rp_replicas s)) (rp_transport s),
          rp_chain := rp_chain s @ [r], rp_replicas := push_where primary_up r (rp_replicas s)\<rparr>, Inr r))"
  using assms by (simp add: replicator_append_def chain_append_def Let_def replicate_sync_primary_eq
      replicate_async_secondaries_def)

lemma deliver_eq:
  assumes "wf_replicas (rp_replicas s)"
  shows "deliver now s =
    (s\<lparr>rp_transport := fst (flush_due now (rp_transport s)),
       rp_replicas := fold (\<lambda>m. push_where (accepts_message m) (rm_receipt m)) (snd (flush_due now (rp_transport s))) (rp_replicas s)\<rparr>,
     Inr (snd (flush_due now (rp_transport s))))"
  using assms by (simp add: deliver_def deliver_each_eq case_prod_unfold Let_def)

lemma alert_each_ok:
  assumes "verify_journal H env j = Inr True"
  shows "\<exists>alerts'. snd (alert_each H env now clk mx ms seen alerts j) = Inr alerts'
    \<and> verify_journal H env (fst (alert_each H env now clk mx ms seen alerts j)) = Inr True"
  using assms
proof (induction ms arbitrary: clk seen alerts j)
  case (Cons m ms)
  let ?l = "fe_round env (now - rm_enqueued m)" and ?key = "(rm_target m, cr_id (rm_receipt m))"
  let ?details = "[(''region'', JStr (rm_target m)), (''receipt_id'', JStr (cr_id (rm_receipt m))),
      (''lag_seconds'', float_json env ?l), (''max_lag_seconds'', float_json env mx)]"
  obtain e where e: "journal_record H env (clk 0) j ''replication-lag-alert'' ?details = Inr (j @ [e])"
    using journal_record_total [of "''replication-lag-alert''" ?details H env "clk 0" j]
    by (auto simp: EVENT_KINDS_def float_json_def)
  note ok = journal_record_verifies [OF Cons.prems e]
  show ?case using Cons.IH [OF Cons.prems] Cons.IH [OF ok] e by (simp add: Let_def)
qed simp

lemma check_max_lag_ok:
  assumes "verify_journal H env j = Inr True"
  shows "\<exists>alerts. snd (check_max_lag H env clk s j) = Inr alerts
    \<and> verify_journal H env (fst (check_max_lag H env clk s j)) = Inr True"
  unfolding check_max_lag_def by (rule alert_each_ok [OF assms])

section \<open>The specification: an atomic durable log\<close>

datatype repl_op =
    RAppend "nat \<Rightarrow> rat" string string
  | RAdd replica_node
  | RAvailable string bool
  | RDeliver rat
  | RCheck "nat \<Rightarrow> rat"

definition set_available :: "replicator \<Rightarrow> string \<Rightarrow> bool \<Rightarrow> replicator" where
  "set_available s k b =
     s\<lparr>rp_replicas := map (\<lambda>(k', n). (k', if k' = k then n\<lparr>rn_available := b\<rparr> else n)) (rp_replicas s)\<rparr>"

fun replicator_step ::
  "(string \<Rightarrow> string) \<Rightarrow> float_env \<Rightarrow> replicator \<times> journal \<Rightarrow> repl_op \<Rightarrow> (replicator \<times> journal) \<times> unit result" where
  "replicator_step H env (s, j) (RAppend clk task payload) =
     (case replicator_append H env clk s task payload of (s', out) \<Rightarrow> ((s', j), bind_r out (\<lambda>_. Inr ())))"
| "replicator_step H env (s, j) (RAdd n) =
     (case add_replica s n of Inl e \<Rightarrow> ((s, j), Inl e) | Inr s' \<Rightarrow> ((s', j), Inr ()))"
| "replicator_step H env (s, j) (RAvailable k b) = ((set_available s k b, j), Inr ())"
| "replicator_step H env (s, j) (RDeliver now) =
     (case deliver now s of (s', out) \<Rightarrow> ((s', j), bind_r out (\<lambda>_. Inr ())))"
| "replicator_step H env (s, j) (RCheck clk) =
     (case check_max_lag H env clk s j of (j', out) \<Rightarrow> ((s, j'), bind_r out (\<lambda>_. Inr ())))"

text \<open>The specification knows no receipts, messages or copies: the entries acknowledged so far, the
  registered identifiers, those in the primary region and those of them that are up.\<close>

record durable_log =
  dl_region :: string
  dl_entries :: "(string \<times> string) list"
  dl_members :: "string set"
  dl_primaries :: "string set"
  dl_up :: "string set"

fun durable_step :: "durable_log \<Rightarrow> repl_op \<Rightarrow> durable_log \<times> unit result" where
  "durable_step d (RAppend clk task payload) =
     (if blank task then (d, Inl (ContractError ''task_id is required''))
      else if dl_up d = {}
      then (d, Inl (ContractError ''durability policy unmet: no available primary-region replica (RPO=0)''))
      else (d\<lparr>dl_entries := dl_entries d @ [(task, payload)]\<rparr>, Inr ()))"
| "durable_step d (RAdd n) =
     (if rn_id n \<in> dl_members d then (d, Inl (ContractError ''duplicate replica registration''))
      else (d\<lparr>dl_members := insert (rn_id n) (dl_members d),
              dl_primaries := (if rn_region n = dl_region d then insert (rn_id n) (dl_primaries d) else dl_primaries d),
              dl_up := (if rn_region n = dl_region d \<and> rn_available n then insert (rn_id n) (dl_up d) else dl_up d)\<rparr>, Inr ()))"
| "durable_step d (RAvailable k b) =
     (d\<lparr>dl_up := (if b \<and> k \<in> dl_primaries d then insert k (dl_up d) else dl_up d - {k})\<rparr>, Inr ())"
| "durable_step d (RDeliver now) = (d, Inr ())"
| "durable_step d (RCheck clk) = (d, Inr ())"

definition ids_where :: "(replica_node \<Rightarrow> bool) \<Rightarrow> replicas \<Rightarrow> string set" where
  "ids_where P rs = {k. \<exists>n. (k, n) \<in> set rs \<and> P n}"

definition durable_of :: "replicator \<times> journal \<Rightarrow> durable_log" where
  "durable_of sj = (let s = fst sj in
     \<lparr>dl_region = rp_region s, dl_entries = map (\<lambda>r. (cr_task r, cr_payload r)) (rp_chain s),
      dl_members = ids_where (\<lambda>n. True) (rp_replicas s), dl_primaries = ids_where rn_primary (rp_replicas s),
      dl_up = ids_where primary_up (rp_replicas s)\<rparr>)"

text \<open>Every acknowledged receipt is on a node of the primary region.\<close>

definition durable_copies :: "receipt_chain \<Rightarrow> replicas \<Rightarrow> bool" where
  "durable_copies c rs = (\<forall>r\<in>set c. \<exists>k n. (k, n) \<in> set rs \<and> rn_primary n \<and> r \<in> set (rn_chain n))"

definition primary_by_region :: "string \<Rightarrow> replicas \<Rightarrow> bool" where
  "primary_by_region g rs = (\<forall>k n. (k, n) \<in> set rs \<longrightarrow> rn_primary n = (rn_region n = g))"

definition repl_inv :: "(string \<Rightarrow> string) \<Rightarrow> float_env \<Rightarrow> replicator \<times> journal \<Rightarrow> bool" where
  "repl_inv H env sj = (case sj of (s, j) \<Rightarrow>
     wf_replicas (rp_replicas s) \<and> verify_receipt_chain H (rp_chain s) \<and> verify_journal H env j = Inr True
     \<and> primary_by_region (rp_region s) (rp_replicas s)
     \<and> durable_copies (rp_chain s) (rp_replicas s))"

section \<open>The invariant\<close>

lemma ids_where_extended:
  assumes "list_all2 extended rs rs'" and "\<And>n c. P (n\<lparr>rn_chain := c\<rparr>) = P n"
  shows "ids_where P rs' = ids_where P rs"
  using extended_member [OF assms(1)] extended_member' [OF assms(1)] assms(2)
  by (fastforce simp: ids_where_def)

lemma primary_up_chain [simp]: "primary_up (n\<lparr>rn_chain := c\<rparr>) = primary_up n"
  by (simp add: primary_up_def)

lemma durable_copies_extended:
  assumes "list_all2 extended rs rs'" and "durable_copies c rs"
  shows "durable_copies c rs'"
  unfolding durable_copies_def
proof
  fix r assume "r \<in> set c"
  then obtain k n where n: "(k, n) \<in> set rs" "rn_primary n" "r \<in> set (rn_chain n)"
    using assms(2) by (auto simp: durable_copies_def)
  then obtain d where "(k, n\<lparr>rn_chain := rn_chain n @ d\<rparr>) \<in> set rs'"
    using extended_member [OF assms(1)] by blast
  with n show "\<exists>k n. (k, n) \<in> set rs' \<and> rn_primary n \<and> r \<in> set (rn_chain n)"
    by (intro exI [of _ k] exI [of _ "n\<lparr>rn_chain := rn_chain n @ d\<rparr>"]) simp
qed

lemma primary_region_extended:
  assumes "list_all2 extended rs rs'" and "primary_by_region g rs"
  shows "primary_by_region g rs'"
  unfolding primary_by_region_def
proof (intro allI impI)
  fix k n' assume "(k, n') \<in> set rs'"
  then obtain n c where "(k, n) \<in> set rs" "n' = n\<lparr>rn_chain := rn_chain n @ c\<rparr>"
    using extended_member' [OF assms(1)] by blast
  then show "rn_primary n' = (rn_region n' = g)" using assms(2) by (simp add: primary_by_region_def)
qed

lemma durable_copies_push:
  assumes "durable_copies c rs" and "(k, n) \<in> set rs" and "primary_up n"
  shows "durable_copies (c @ [r]) (push_where primary_up r rs)"
proof -
  have "(k, n\<lparr>rn_chain := rn_chain n @ [r]\<rparr>) \<in> set (push_where primary_up r rs)"
    using assms(2,3) by (force simp: push_where_def)
  then have "\<exists>k n. (k, n) \<in> set (push_where primary_up r rs) \<and> rn_primary n \<and> r \<in> set (rn_chain n)"
    using assms(3) by (intro exI conjI) (auto simp: primary_up_def)
  with durable_copies_extended [OF push_where_extended assms(1)] show ?thesis
    by (auto simp: durable_copies_def)
qed

lemma set_available_member:
  "(k', n') \<in> set (rp_replicas (set_available s k b)) \<longleftrightarrow>
   (\<exists>n. (k', n) \<in> set (rp_replicas s) \<and> n' = (if k' = k then n\<lparr>rn_available := b\<rparr> else n))"
  by (force simp: set_available_def)

lemma set_available_keys: "map fst (rp_replicas (set_available s k b)) = map fst (rp_replicas s)"
  by (simp add: set_available_def case_prod_unfold)

lemma set_available_sel [simp]: "rp_chain (set_available s k b) = rp_chain s" "rp_region (set_available s k b) = rp_region s"
  by (simp_all add: set_available_def)

lemma repl_inv_append:
  assumes "repl_inv H env (s, j)"
  shows "repl_inv H env (fst (replicator_append H env clk s task payload), j)"
proof (cases "blank task \<or> \<not> (\<exists>(k, n)\<in>set (rp_replicas s). primary_up n)")
  case True
  then show ?thesis using assms by (auto simp: repl_inv_def replicator_append_eq)
next
  case False
  then obtain k n where n: "(k, n) \<in> set (rp_replicas s)" "primary_up n" by auto
  let ?r = "new_receipt H (rp_chain s) task payload"
  have "durable_copies (rp_chain s @ [?r]) (push_where primary_up ?r (rp_replicas s))"
    using assms n by (intro durable_copies_push) (auto simp: repl_inv_def)
  then show ?thesis
    using assms False primary_region_extended [OF push_where_extended]
    by (auto simp: repl_inv_def replicator_append_eq new_receipt_verifies Let_def)
qed

lemma repl_inv_deliver:
  assumes "repl_inv H env (s, j)"
  shows "repl_inv H env (fst (deliver now s), j)"
  using assms
  by (auto simp: repl_inv_def deliver_eq intro: extended_wf [OF fold_push_extended]
      primary_region_extended [OF fold_push_extended] durable_copies_extended [OF fold_push_extended])

lemma repl_inv_add:
  assumes "repl_inv H env (s, j)" and "add_replica s n = Inr s'"
  shows "repl_inv H env (s', j)"
proof -
  let ?n = "n\<lparr>rn_primary := (rn_region n = rp_region s)\<rparr>"
  have new: "rn_id n \<notin> fst ` set (rp_replicas s)"
    using assms(2) by (auto simp: add_replica_def result_simps map_of_eq_None_iff)
  then have s': "s' = s\<lparr>rp_replicas := rp_replicas s @ [(rn_id n, ?n)]\<rparr>"
    using assms(2) by (simp add: add_replica_def result_simps update_new)
  show ?thesis using assms(1) new
    by (fastforce simp: s' repl_inv_def wf_replicas_def primary_by_region_def durable_copies_def)
qed

lemma repl_inv_available:
  assumes "repl_inv H env (s, j)"
  shows "repl_inv H env (set_available s k b, j)"
proof -
  have 1: "wf_replicas (rp_replicas (set_available s k b))"
    using assms set_available_keys [of s k b]
    by (fastforce simp: repl_inv_def wf_replicas_def set_available_member split: if_splits)
  have 2: "durable_copies (rp_chain s) (rp_replicas (set_available s k b))"
    unfolding durable_copies_def
  proof
    fix r assume "r \<in> set (rp_chain s)"
    then obtain k' n where n: "(k', n) \<in> set (rp_replicas s)" "rn_primary n" "r \<in> set (rn_chain n)"
      using assms by (auto simp: repl_inv_def durable_copies_def)
    let ?n = "if k' = k then n\<lparr>rn_available := b\<rparr> else n"
    have "(k', ?n) \<in> set (rp_replicas (set_available s k b))" using n(1) set_available_member by blast
    moreover have "rn_primary ?n \<and> r \<in> set (rn_chain ?n)" using n by simp
    ultimately show "\<exists>k' n. (k', n) \<in> set (rp_replicas (set_available s k b)) \<and> rn_primary n \<and> r \<in> set (rn_chain n)"
      by blast
  qed
  have 3: "primary_by_region (rp_region s) (rp_replicas (set_available s k b))"
    using assms by (auto simp: repl_inv_def primary_by_region_def set_available_member)
  from 1 2 3 show ?thesis using assms by (simp add: repl_inv_def)
qed

lemma repl_inv_step:
  assumes "repl_inv H env sj"
  shows "repl_inv H env (fst (replicator_step H env sj op))"
proof -
  obtain s j where sj: "sj = (s, j)" by (cases sj)
  have chk: "verify_journal H env (fst (check_max_lag H env clk s j)) = Inr True" for clk
    using assms check_max_lag_ok [of H env j clk s] by (simp add: sj repl_inv_def)
  show ?thesis
  proof (cases op)
    case (RAppend clk task payload)
    then show ?thesis using repl_inv_append [of H env s j clk task payload] assms sj by (simp add: case_prod_unfold)
  next
    case (RAdd n)
    then show ?thesis using repl_inv_add [of H env s j n] assms sj by (auto split: sum.splits)
  next
    case (RAvailable k b)
    then show ?thesis using repl_inv_available assms sj by simp
  next
    case (RDeliver now)
    then show ?thesis using repl_inv_deliver assms sj by (simp add: case_prod_unfold)
  next
    case (RCheck clk)
    then show ?thesis using chk [of clk] assms sj by (auto simp: case_prod_unfold repl_inv_def)
  qed
qed

section \<open>Refinement\<close>

lemma ids_where_empty: "ids_where P rs = {} \<longleftrightarrow> \<not> (\<exists>(k, n)\<in>set rs. P n)"
  by (auto simp: ids_where_def)

lemmas ids_where_push = ids_where_extended [OF push_where_extended]
lemmas ids_where_fold = ids_where_extended [OF fold_push_extended]

lemma sim_append:
  assumes "repl_inv H env (s, j)"
  shows "durable_step (durable_of (s, j)) (RAppend clk task payload) =
    (durable_of (fst (replicator_step H env (s, j) (RAppend clk task payload))),
     snd (replicator_step H env (s, j) (RAppend clk task payload)))"
  using assms ids_where_empty [of primary_up "rp_replicas s"]
  by (simp add: repl_inv_def replicator_append_eq durable_of_def Let_def ids_where_push case_prod_unfold)

lemma sim_add:
  assumes "repl_inv H env (s, j)"
  shows "durable_step (durable_of (s, j)) (RAdd n) =
    (durable_of (fst (replicator_step H env (s, j) (RAdd n))), snd (replicator_step H env (s, j) (RAdd n)))"
proof -
  have mem: "rn_id n \<in> ids_where (\<lambda>n. True) (rp_replicas s) \<longleftrightarrow> map_of (rp_replicas s) (rn_id n) \<noteq> None"
    by (force simp: ids_where_def map_of_eq_None_iff)
  show ?thesis
  proof (cases "map_of (rp_replicas s) (rn_id n) = None")
    case True
    then have new: "rn_id n \<notin> fst ` set (rp_replicas s)" by (simp add: map_of_eq_None_iff)
    show ?thesis
      using True new mem
      by (auto simp: durable_of_def add_replica_def Let_def update_new ids_where_def primary_up_def)
  next
    case False
    then show ?thesis using mem by (auto simp: durable_of_def add_replica_def Let_def)
  qed
qed

lemma sim_available:
  assumes "repl_inv H env (s, j)"
  shows "durable_step (durable_of (s, j)) (RAvailable k b) =
    (durable_of (fst (replicator_step H env (s, j) (RAvailable k b))), snd (replicator_step H env (s, j) (RAvailable k b)))"
proof -
  have ids: "ids_where P (rp_replicas (set_available s k b)) =
      {x. \<exists>n. (x, n) \<in> set (rp_replicas s) \<and> P (if x = k then n\<lparr>rn_available := b\<rparr> else n)}" for P
    by (auto simp: ids_where_def set_available_member)
  have "ids_where P (rp_replicas (set_available s k b)) = ids_where P (rp_replicas s)"
    if "\<And>n. P (n\<lparr>rn_available := b\<rparr>) = P n" for P
    unfolding ids using that by (auto simp: ids_where_def split: if_splits)
  moreover have "ids_where primary_up (rp_replicas (set_available s k b)) =
      (if b \<and> k \<in> ids_where rn_primary (rp_replicas s) then insert k (ids_where primary_up (rp_replicas s))
       else ids_where primary_up (rp_replicas s) - {k})"
    unfolding ids by (auto simp: primary_up_def ids_where_def split: if_splits)
  ultimately show ?thesis by (simp add: durable_of_def Let_def)
qed

lemma sim_deliver:
  assumes "repl_inv H env (s, j)"
  shows "durable_step (durable_of (s, j)) (RDeliver now) =
    (durable_of (fst (replicator_step H env (s, j) (RDeliver now))), snd (replicator_step H env (s, j) (RDeliver now)))"
  using assms by (simp add: repl_inv_def deliver_eq durable_of_def Let_def ids_where_fold)

lemma sim_check:
  assumes "repl_inv H env (s, j)"
  shows "durable_step (durable_of (s, j)) (RCheck clk) =
    (durable_of (fst (replicator_step H env (s, j) (RCheck clk))), snd (replicator_step H env (s, j) (RCheck clk)))"
proof -
  obtain alerts where "snd (check_max_lag H env clk s j) = Inr alerts"
    using assms check_max_lag_ok [of H env j clk s] by (auto simp: repl_inv_def)
  then show ?thesis by (simp add: durable_of_def case_prod_unfold)
qed

interpretation durable: simulation "repl_inv H env" "replicator_step H env" durable_step durable_of for H env
proof
  show "repl_inv H env (fst (replicator_step H env s op))" if "repl_inv H env s" for s op
    using repl_inv_step [OF that] .
  show "durable_step (durable_of sj) op = (durable_of (fst (replicator_step H env sj op)), snd (replicator_step H env sj op))"
    if "repl_inv H env sj" for sj op
    using that sim_append sim_add sim_available sim_deliver sim_check by (cases sj; cases op) auto
qed

definition new_replicator :: "transport \<Rightarrow> string \<Rightarrow> rat \<Rightarrow> replicator" where
  "new_replicator tp region mx =
     \<lparr>rp_transport = tp, rp_region = region, rp_max_lag = mx, rp_chain = [], rp_replicas = []\<rparr>"

lemma repl_inv_new [simp]: "repl_inv H env (new_replicator tp region mx, [])"
  by (simp add: repl_inv_def new_replicator_def wf_replicas_def primary_by_region_def durable_copies_def verify_journal_def)

text \<open>C19. Recovery point objective zero, as a refinement. Every sequence of appends, registrations,
  availability changes, deliveries and lag checks on a new replicator behaves like the atomic durable log:
  an append is acknowledged exactly when the task identifier is not blank and an available replica of the
  primary region exists, otherwise it is refused with the code's error and leaves the log as it was; the
  acknowledged entries are the chain, which verifies, as does the journal; and every acknowledged receipt is
  held by a replica of the primary region, whatever happened since.\<close>

theorem replicator_refines_durable_log:
  assumes "run_ops (replicator_step H env) (new_replicator tp region mx, []) ops = ((s, j), outs)"
  shows "run_ops durable_step \<lparr>dl_region = region, dl_entries = [], dl_members = {}, dl_primaries = {}, dl_up = {}\<rparr> ops
      = (durable_of (s, j), outs)
    \<and> verify_receipt_chain H (rp_chain s) \<and> verify_journal H env j = Inr True
    \<and> (\<forall>r\<in>set (rp_chain s). \<exists>k n. (k, n) \<in> set (rp_replicas s) \<and> rn_region n = rp_region s \<and> r \<in> set (rn_chain n))"
proof -
  have abs: "durable_of (new_replicator tp region mx, []) =
      \<lparr>dl_region = region, dl_entries = [], dl_members = {}, dl_primaries = {}, dl_up = {}\<rparr>"
    by (simp add: durable_of_def new_replicator_def ids_where_def)
  have inv: "repl_inv H env (s, j)"
    using durable.run_inv [of H env "(new_replicator tp region mx, [])" ops] assms by simp
  have "\<forall>r\<in>set (rp_chain s). \<exists>k n. (k, n) \<in> set (rp_replicas s) \<and> rn_region n = rp_region s \<and> r \<in> set (rn_chain n)"
    using inv by (simp add: repl_inv_def durable_copies_def primary_by_region_def) blast
  moreover have "run_ops durable_step (durable_of (new_replicator tp region mx, [])) ops = (durable_of (s, j), outs)"
    using durable.run_sim [of H env "(new_replicator tp region mx, [])" ops] assms by simp
  ultimately show ?thesis using inv unfolding abs by (simp add: repl_inv_def)
qed

theorem replicator_refines_durable_log_witness:
  "let ops = [RAppend (\<lambda>_. 0) ''t'' ''p'',
         RAdd \<lparr>rn_id = ''a'', rn_region = ''eu'', rn_primary = False, rn_available = True, rn_chain = []\<rparr>,
         RAppend (\<lambda>_. 1) ''t'' ''p'', RAvailable ''a'' False, RAppend (\<lambda>_. 2) ''u'' ''q'']
   in \<exists>s j. run_ops (replicator_step (\<lambda>x. x) exact_env) (new_replicator \<lparr>tp_latency = [], tp_pending = []\<rparr> ''eu'' 30, []) ops =
       ((s, j), [Inl (ContractError ''durability policy unmet: no available primary-region replica (RPO=0)''), Inr (), Inr (), Inr (),
          Inl (ContractError ''durability policy unmet: no available primary-region replica (RPO=0)'')])
     \<and> map (\<lambda>r. (cr_task r, cr_payload r)) (rp_chain s) = [(''t'', ''p'')]
     \<and> verify_receipt_chain (\<lambda>x. x) (rp_chain s)"
proof -
  let ?ops = "[RAppend (\<lambda>_. 0) ''t'' ''p'',
         RAdd \<lparr>rn_id = ''a'', rn_region = ''eu'', rn_primary = False, rn_available = True, rn_chain = []\<rparr>,
         RAppend (\<lambda>_. 1) ''t'' ''p'', RAvailable ''a'' False, RAppend (\<lambda>_. 2) ''u'' ''q'']"
  obtain s j outs where run: "run_ops (replicator_step (\<lambda>x. x) exact_env)
      (new_replicator \<lparr>tp_latency = [], tp_pending = []\<rparr> ''eu'' 30, []) ?ops = ((s, j), outs)"
    by (metis surj_pair)
  note res = replicator_refines_durable_log [OF run]
  have "run_ops durable_step \<lparr>dl_region = ''eu'', dl_entries = [], dl_members = {}, dl_primaries = {}, dl_up = {}\<rparr> ?ops =
    (\<lparr>dl_region = ''eu'', dl_entries = [(''t'', ''p'')], dl_members = {''a''}, dl_primaries = {''a''}, dl_up = {}\<rparr>,
     [Inl (ContractError ''durability policy unmet: no available primary-region replica (RPO=0)''), Inr (), Inr (), Inr (),
          Inl (ContractError ''durability policy unmet: no available primary-region replica (RPO=0)'')])"
    by (simp add: ascii_space_def less_eq_char_def)
  with res run show ?thesis by (auto simp: durable_of_def Let_def)
qed

section \<open>Convergence of the copies\<close>

text \<open>Runs in which the replicas are registered first and stay available, on a clock that does not go back:
  \<open>t\<close> is the latest reading.\<close>

inductive replicating :: "(string \<Rightarrow> string) \<Rightarrow> float_env \<Rightarrow> rat \<Rightarrow> replicator \<Rightarrow> bool" for H env where
  start: "wf_replicas (rp_replicas s) \<Longrightarrow> primary_by_region (rp_region s) (rp_replicas s) \<Longrightarrow>
    (\<And>k n. (k, n) \<in> set (rp_replicas s) \<Longrightarrow> rn_available n \<and> rn_chain n = []) \<Longrightarrow>
    rp_chain s = [] \<Longrightarrow> tp_pending (rp_transport s) = [] \<Longrightarrow> replicating H env t s"
| append: "replicating H env t s \<Longrightarrow> (\<And>i. t \<le> clk i \<and> clk i \<le> t') \<Longrightarrow> t \<le> t' \<Longrightarrow>
    replicating H env t' (fst (replicator_append H env clk s task payload))"
| deliver: "replicating H env t s \<Longrightarrow> t \<le> now \<Longrightarrow> replicating H env now (fst (deliver now s))"

definition in_order :: "float_env \<Rightarrow> rat \<Rightarrow> transport \<Rightarrow> string \<Rightarrow> bool" where
  "in_order env t tp g = (sorted (map rm_deliver (pending_for tp g)) \<and>
     (\<forall>m\<in>set (pending_for tp g). rm_deliver m \<le> fe_round env (t + latency_for tp g)))"

definition synced :: "replicator \<Rightarrow> replica_node \<Rightarrow> bool" where
  "synced s n = (if rn_primary n then rn_chain n = rp_chain s
     else rn_chain n @ map rm_receipt (pending_for (rp_transport s) (rn_region n)) = rp_chain s)"

definition converging :: "(string \<Rightarrow> string) \<Rightarrow> float_env \<Rightarrow> rat \<Rightarrow> replicator \<Rightarrow> bool" where
  "converging H env t s = (wf_replicas (rp_replicas s) \<and> verify_receipt_chain H (rp_chain s)
     \<and> (\<forall>k n. (k, n) \<in> set (rp_replicas s) \<longrightarrow> rn_available n \<and> synced s n)
     \<and> (\<forall>g. in_order env t (rp_transport s) g))"

lemma push_where_member:
  "(k, n') \<in> set (push_where P r rs) \<longleftrightarrow>
   (\<exists>n. (k, n) \<in> set rs \<and> n' = (if P n then n\<lparr>rn_chain := rn_chain n @ [r]\<rparr> else n))"
  by (force simp: push_where_def)

lemma fold_push_map:
  "fold (\<lambda>m. push_where (accepts_message m) (rm_receipt m)) ms rs =
   map (\<lambda>(k, n). (k, n\<lparr>rn_chain := rn_chain n @ map rm_receipt (filter (\<lambda>m. accepts_message m n) ms)\<rparr>)) rs"
proof (induction ms arbitrary: rs)
  case (Cons m ms)
  have acc: "accepts_message x (n\<lparr>rn_chain := c\<rparr>) = accepts_message x n" for x n c by (simp add: accepts_message_def)
  have "fold (\<lambda>m. push_where (accepts_message m) (rm_receipt m)) (m # ms) rs =
      map (\<lambda>(k, n). (k, n\<lparr>rn_chain := rn_chain n @ map rm_receipt (filter (\<lambda>m. accepts_message m n) ms)\<rparr>))
        (push_where (accepts_message m) (rm_receipt m) rs)"
    using Cons.IH by simp
  also have "\<dots> = map (\<lambda>(k, n). (k, n\<lparr>rn_chain := rn_chain n @ map rm_receipt (filter (\<lambda>m. accepts_message m n) (m # ms))\<rparr>)) rs"
    unfolding push_where_def map_map by (rule map_cong) (auto simp: acc)
  finally show ?case .
qed (simp add: case_prod_unfold)

lemma latency_send_each [simp]: "latency_for (send_each env clk og r gs tp) g = latency_for tp g"
  by (induction gs arbitrary: clk tp) (simp_all add: send_def latency_for_def)

lemma pending_send_other:
  "g \<notin> set gs \<Longrightarrow> pending_for (send_each env clk og r gs tp) g = pending_for tp g"
  by (induction gs arbitrary: clk tp) (auto simp: send_def pending_for_def)

lemma pending_send_each:
  assumes "distinct gs" and "g \<in> set gs" and "\<And>i. lo \<le> clk i \<and> clk i \<le> hi"
  shows "\<exists>c. lo \<le> c \<and> c \<le> hi \<and> pending_for (send_each env clk og r gs tp) g = pending_for tp g @
    [\<lparr>rm_origin = og, rm_target = g, rm_receipt = r, rm_enqueued = c, rm_deliver = fe_round env (c + latency_for tp g)\<rparr>]"
  using assms
proof (induction gs arbitrary: clk tp)
  case (Cons h gs)
  show ?case
  proof (cases "h = g")
    case True
    then have "g \<notin> set gs" using Cons.prems by auto
    moreover have "pending_for (send env (clk 0) tp og h r) g = pending_for tp g @
        [\<lparr>rm_origin = og, rm_target = g, rm_receipt = r, rm_enqueued = clk 0, rm_deliver = fe_round env (clk 0 + latency_for tp g)\<rparr>]"
      using True by (simp add: send_def pending_for_def)
    ultimately show ?thesis using Cons.prems(3) [of 0] by (auto simp: pending_send_other)
  next
    case False
    have "latency_for (send env (clk 0) tp og h r) g = latency_for tp g"
      "pending_for (send env (clk 0) tp og h r) g = pending_for tp g"
      using False by (simp_all add: send_def latency_for_def pending_for_def)
    then show ?thesis
      using False Cons.IH [of "\<lambda>i. clk (Suc i)" "send env (clk 0) tp og h r"] Cons.prems by simp
  qed
qed simp

lemma distinct_secondary_regions [simp]: "distinct (secondary_regions rs)"
  by (simp add: secondary_regions_def)

lemma secondary_region_mem: "(k, n) \<in> set rs \<Longrightarrow> \<not> rn_primary n \<Longrightarrow> rn_region n \<in> set (secondary_regions rs)"
  by (force simp: secondary_regions_def)

lemma sorted_split_at:
  "sorted (map f xs) \<Longrightarrow> filter (\<lambda>x. f x \<le> v) xs @ filter (\<lambda>x. v < f x) xs = xs" for v :: "'a::linorder"
proof (induction xs)
  case (Cons x xs)
  then show ?case
  proof (cases "f x \<le> v")
    case False
    then have "filter (\<lambda>x. f x \<le> v) xs = []" "filter (\<lambda>x. v < f x) xs = xs"
      using Cons.prems by (auto simp: filter_empty_conv filter_id_conv)
    then show ?thesis using False by simp
  qed (use Cons in auto)
qed simp

lemma converging_start:
  assumes "wf_replicas (rp_replicas s)" and "\<And>k n. (k, n) \<in> set (rp_replicas s) \<Longrightarrow> rn_available n \<and> rn_chain n = []"
    and "rp_chain s = []" and "tp_pending (rp_transport s) = []"
  shows "converging H env t s"
  using assms by (auto simp: converging_def synced_def in_order_def pending_for_def)

lemma in_order_later:
  assumes "mono (fe_round env)" and "in_order env t tp g" and "t \<le> t'"
  shows "in_order env t' tp g"
  using assms monoD [OF assms(1), of "t + latency_for tp g" "t' + latency_for tp g"] by (force simp: in_order_def)

lemma in_order_send:
  assumes "mono (fe_round env)" and "in_order env t tp g" and "\<And>i. t \<le> clk i \<and> clk i \<le> t'" and "distinct gs"
  shows "in_order env t' (send_each env clk og r gs tp) g"
proof (cases "g \<in> set gs")
  case False
  have "t \<le> t'" using assms(3) [of 0] by auto
  from in_order_later [OF assms(1,2) this] False show ?thesis by (simp add: in_order_def pending_send_other)
next
  case True
  obtain c where c: "t \<le> c" "c \<le> t'" and p: "pending_for (send_each env clk og r gs tp) g = pending_for tp g @
    [\<lparr>rm_origin = og, rm_target = g, rm_receipt = r, rm_enqueued = c, rm_deliver = fe_round env (c + latency_for tp g)\<rparr>]"
    using pending_send_each [where g = g and gs = gs and clk = clk, OF assms(4) True assms(3)] by blast
  have "in_order env c tp g" "in_order env t' tp g"
    using in_order_later [OF assms(1,2)] c by auto
  moreover have "fe_round env (c + latency_for tp g) \<le> fe_round env (t' + latency_for tp g)"
    using assms(1) c by (simp add: monoD)
  ultimately show ?thesis by (auto simp: in_order_def p sorted_append)
qed

lemma converging_append:
  assumes "mono (fe_round env)" and "converging H env t s" and "\<And>i. t \<le> clk i \<and> clk i \<le> t'"
  shows "converging H env t' (fst (replicator_append H env clk s task payload))"
proof -
  have t: "t \<le> t'" using assms(3) [of 0] by auto
  have wf: "wf_replicas (rp_replicas s)" using assms(2) by (simp add: converging_def)
  show ?thesis
  proof (cases "blank task \<or> \<not> (\<exists>(k, n)\<in>set (rp_replicas s). primary_up n)")
    case True
    then have "fst (replicator_append H env clk s task payload) = s" using wf by (auto simp: replicator_append_eq)
    then show ?thesis using assms(2) in_order_later [OF assms(1) _ t] by (simp add: converging_def)
  next
    case False
    let ?r = "new_receipt H (rp_chain s) task payload" and ?gs = "secondary_regions (rp_replicas s)"
    let ?tp = "send_each env clk (rp_region s) ?r ?gs (rp_transport s)"
    let ?s = "fst (replicator_append H env clk s task payload)"
    have s': "?s = s\<lparr>rp_transport := ?tp, rp_chain := rp_chain s @ [?r], rp_replicas := push_where primary_up ?r (rp_replicas s)\<rparr>"
      using False wf by (auto simp: replicator_append_eq Let_def)
    have "rn_available n' \<and> synced ?s n'" if n': "(k, n') \<in> set (push_where primary_up ?r (rp_replicas s))" for k n'
    proof -
      obtain n where n: "(k, n) \<in> set (rp_replicas s)"
        and eq: "n' = (if primary_up n then n\<lparr>rn_chain := rn_chain n @ [?r]\<rparr> else n)"
        using n' by (auto simp: push_where_member)
      have old: "rn_available n" "synced s n" using assms(2) n by (auto simp: converging_def)
      show ?thesis
      proof (cases "rn_primary n")
        case True
        then show ?thesis using old eq by (auto simp: s' synced_def primary_up_def)
      next
        case False
        then have "rn_region n \<in> set ?gs" using n secondary_region_mem by blast
        from pending_send_each [where clk = clk, OF distinct_secondary_regions this assms(3)]
        obtain c where "pending_for ?tp (rn_region n) = pending_for (rp_transport s) (rn_region n) @
          [\<lparr>rm_origin = rp_region s, rm_target = rn_region n, rm_receipt = ?r, rm_enqueued = c,
            rm_deliver = fe_round env (c + latency_for (rp_transport s) (rn_region n))\<rparr>]" by blast
        then show ?thesis using old eq False by (simp add: s' synced_def primary_up_def)
      qed
    qed
    moreover have "in_order env t' ?tp g" for g
      using assms(2) by (intro in_order_send [OF assms(1) _ assms(3) distinct_secondary_regions]) (simp add: converging_def)
    ultimately show ?thesis
      using assms(2) wf by (auto simp: converging_def s' new_receipt_verifies)
  qed
qed

lemma converging_deliver:
  assumes "mono (fe_round env)" and "converging H env t s" and "t \<le> now"
  shows "converging H env now (fst (deliver now s))"
proof -
  let ?tp = "rp_transport s" and ?s = "fst (deliver now s)"
  let ?due = "filter (\<lambda>m. rm_deliver m \<le> now) (tp_pending ?tp)"
  let ?tp' = "?tp\<lparr>tp_pending := filter (\<lambda>m. now < rm_deliver m) (tp_pending ?tp)\<rparr>"
  let ?rs = "fold (\<lambda>m. push_where (accepts_message m) (rm_receipt m)) ?due (rp_replicas s)"
  have wf: "wf_replicas (rp_replicas s)" using assms(2) by (simp add: converging_def)
  have s': "?s = s\<lparr>rp_transport := ?tp', rp_replicas := ?rs\<rparr>"
    using wf by (simp add: deliver_eq flush_due_def)
  have pend: "pending_for ?tp' g = filter (\<lambda>m. now < rm_deliver m) (pending_for ?tp g)" for g
    by (simp add: pending_for_def conj_commute)
  have io: "in_order env t ?tp g" for g using assms(2) by (simp add: converging_def)
  have "in_order env now ?tp' g" for g
  proof -
    have "latency_for ?tp' g = latency_for ?tp g" by (simp add: latency_for_def)
    then show ?thesis using in_order_later [OF assms(1) io assms(3), of g]
      by (auto simp: in_order_def pend sorted_filter)
  qed
  moreover have "rn_available n' \<and> synced ?s n'" if n': "(k, n') \<in> set ?rs" for k n'
  proof -
    obtain n where n: "(k, n) \<in> set (rp_replicas s)"
      and eq: "n' = n\<lparr>rn_chain := rn_chain n @ map rm_receipt (filter (\<lambda>m. accepts_message m n) ?due)\<rparr>"
      using n' unfolding fold_push_map by auto
    have old: "rn_available n" "synced s n" using assms(2) n by (auto simp: converging_def)
    have "filter (\<lambda>m. accepts_message m n) ?due = (if rn_primary n then [] else filter (\<lambda>m. rm_deliver m \<le> now) (pending_for ?tp (rn_region n)))"
      using old(1) by (auto simp: accepts_message_def pending_for_def conj_ac intro: filter_cong)
    moreover have "filter (\<lambda>m. rm_deliver m \<le> now) (pending_for ?tp g) @ pending_for ?tp' g = pending_for ?tp g" for g
      unfolding pend using io [of g] by (intro sorted_split_at) (simp add: in_order_def)
    then have "map rm_receipt (filter (\<lambda>m. rm_deliver m \<le> now) (pending_for ?tp g)) @ map rm_receipt (pending_for ?tp' g)
        = map rm_receipt (pending_for ?tp g)" for g by (metis map_append)
    ultimately show ?thesis using old by (simp add: eq s' synced_def)
  qed
  ultimately show ?thesis
    using assms(2) extended_wf [OF fold_push_extended wf] by (simp add: converging_def s')
qed

lemma replicating_converging:
  assumes "replicating H env t s" and "mono (fe_round env)"
  shows "converging H env t s"
  using assms
proof (induction rule: replicating.induct)
  case (start s t)
  then show ?case by (intro converging_start) auto
next
  case (append t s clk t' task payload)
  show ?case using append.IH [OF append.prems] by (rule converging_append [OF append.prems _ append.hyps(2)])
next
  case (deliver t s now)
  show ?case using deliver.IH [OF deliver.prems] by (rule converging_deliver [OF deliver.prems _ deliver.hyps(2)])
qed

lemma verify_prefix: "verify_receipt_chain H (a @ b) \<Longrightarrow> verify_receipt_chain H a"
  by (simp add: verify_receipt_chain_def verify_receipts_linked linked_append)


definition example_cluster :: replicator where
  "example_cluster = \<lparr>rp_transport = \<lparr>tp_latency = [(''us'', 5)], tp_pending = []\<rparr>, rp_region = ''eu'', rp_max_lag = 30,
     rp_chain = [], rp_replicas =
       [(''a'', \<lparr>rn_id = ''a'', rn_region = ''eu'', rn_primary = True, rn_available = True, rn_chain = []\<rparr>),
        (''b'', \<lparr>rn_id = ''b'', rn_region = ''us'', rn_primary = False, rn_available = True, rn_chain = []\<rparr>)]\<rparr>"


section \<open>What is lost while a replica is away\<close>

text \<open>A due message for a region whose replicas are all unavailable leaves the transport without being installed
  anywhere, so that no later lag check mentions it.\<close>

lemma due_message_dropped:
  assumes "wf_replicas (rp_replicas s)" and "m \<in> set (tp_pending (rp_transport s))" and "rm_deliver m \<le> now"
    and "\<And>k n. (k, n) \<in> set (rp_replicas s) \<Longrightarrow> \<not> rn_available n"
  shows "m \<notin> set (tp_pending (rp_transport (fst (deliver now s)))) \<and> rp_replicas (fst (deliver now s)) = rp_replicas s"
proof -
  have "map (\<lambda>(k, n). (k, n\<lparr>rn_chain := rn_chain n @ map rm_receipt (filter (\<lambda>m. accepts_message m n) ms)\<rparr>)) (rp_replicas s)
      = rp_replicas s" for ms
    using assms(4) by (intro map_idI) (auto simp: accepts_message_def)
  then have "rp_replicas (fst (deliver now s)) = rp_replicas s"
    unfolding deliver_eq [OF assms(1)] fold_push_map by simp
  then show ?thesis using assms(1-3) by (simp add: deliver_eq flush_due_def)
qed

text \<open>A replica that was away for the first receipts has a gap: its copy fails verification from the next
  append on.\<close>

lemma recovered_replica_has_gap:
  assumes "wf_replicas (rp_replicas s)" and "(k, n) \<in> set (rp_replicas s)" and "primary_up n" and "rn_chain n = []"
    and "rp_chain s \<noteq> []" and "\<not> blank task"
  shows "\<exists>n'. (k, n') \<in> set (rp_replicas (fst (replicator_append H env clk s task payload))) \<and> \<not> verify_receipt_chain H (rn_chain n')"
proof -
  let ?r = "new_receipt H (rp_chain s) task payload"
  have "\<exists>(k, n)\<in>set (rp_replicas s). primary_up n" using assms(2,3) by auto
  then have "rp_replicas (fst (replicator_append H env clk s task payload)) = push_where primary_up ?r (rp_replicas s)"
    using assms(1,6) by (simp add: replicator_append_eq Let_def)
  moreover have "(k, n\<lparr>rn_chain := rn_chain n @ [?r]\<rparr>) \<in> set (push_where primary_up ?r (rp_replicas s))"
    using assms(2,3) push_where_member by fastforce
  moreover have "\<not> verify_receipt_chain H (rn_chain (n\<lparr>rn_chain := rn_chain n @ [?r]\<rparr>))"
    using assms(4,5) by (simp add: verify_receipt_chain_def)
  ultimately show ?thesis by metis
qed

end
