(* ===== verification/Hadr_Cluster.thy ===== *)
theory Hadr_Cluster
  imports Hadr_Chain "HOL-Library.Multiset"
begin

text \<open>
  The station registry, \<open>src/residual/hadr/cluster.py\<close>, and the mid-run failover built on it,
  \<open>src/residual/hadr/failover.py\<close>.

  \<^item> Stations and tasks are mutable objects of one registry and one run; an operation that changes them
    returns the changed registry, run and journal with its result, so that what a raising call leaves
    behind is part of the model.
  \<^item> Shown: a heartbeat check fails exactly the live stations that missed their heartbeat and hands each
    over to an active station; a failover resumes a verified run on an active successor and reassigns
    exactly the incomplete tasks.
\<close>

section \<open>Stations\<close>

definition DEFAULT_HEARTBEAT_TIMEOUT :: rat where
  "DEFAULT_HEARTBEAT_TIMEOUT = 15"

record station =
  st_id :: string
  st_region :: string
  st_workers :: "string list"
  st_alive :: bool
  st_active :: bool
  st_heartbeat :: rat
  st_reachable :: bool

definition mk_station :: "station \<Rightarrow> station result" where
  "mk_station st =
     bind_r (ensure (\<not> blank (st_id st)) (ContractError ''station_id is required'')) (\<lambda>_.
     bind_r (ensure (\<not> blank (st_region st)) (ContractError ''region is required'')) (\<lambda>_.
     bind_r (ensure (list_all (\<lambda>w. \<not> blank w) (st_workers st)) (ContractError ''workers must be a tuple of names'')) (\<lambda>_.
     bind_r (ensure (st_workers st \<noteq> []) (ContractError ''a station needs at least one worker'')) (\<lambda>_.
     Inr st))))"

definition fail_station :: "station \<Rightarrow> station" where
  "fail_station st = st\<lparr>st_alive := False, st_active := False\<rparr>"

definition restart :: "station \<Rightarrow> rat \<Rightarrow> station" where
  "restart st now = st\<lparr>st_alive := True, st_active := True, st_heartbeat := now\<rparr>"

record takeover =
  tk_failed :: string
  tk_successor :: string
  tk_detected :: rat
  tk_completed :: rat

definition rto_seconds :: "float_env \<Rightarrow> takeover \<Rightarrow> rat" where
  "rto_seconds env tk = fe_round env (tk_completed tk - tk_detected tk)"

record station_registry =
  sr_timeout :: rat
  sr_stations :: "(string, station) dict"
  sr_takeovers :: "takeover list"

definition register_station :: "rat \<Rightarrow> station_registry \<Rightarrow> station \<Rightarrow> station_registry result" where
  "register_station now g st =
     bind_r (ensure (map_of (sr_stations g) (st_id st) = None) (ContractError ''duplicate station registration'')) (\<lambda>_.
     Inr (g\<lparr>sr_stations := AList.update (st_id st) (st\<lparr>st_heartbeat := now\<rparr>) (sr_stations g)\<rparr>))"

definition get_station :: "station_registry \<Rightarrow> string \<Rightarrow> station result" where
  "get_station g k = (case map_of (sr_stations g) k of
     None \<Rightarrow> Inl (ContractError ''unknown station'') | Some st \<Rightarrow> Inr st)"

definition put_station :: "station_registry \<Rightarrow> string \<Rightarrow> station \<Rightarrow> station_registry" where
  "put_station g k st = g\<lparr>sr_stations := AList.update k st (sr_stations g)\<rparr>"

definition heartbeat :: "rat \<Rightarrow> station_registry \<Rightarrow> string \<Rightarrow> station_registry result" where
  "heartbeat now g k =
     bind_r (get_station g k) (\<lambda>st.
     bind_r (ensure (st_alive st) (ContractError ''dead stations cannot heartbeat'')) (\<lambda>_.
     Inr (put_station g k (st\<lparr>st_heartbeat := now\<rparr>))))"

definition active_stations :: "station_registry \<Rightarrow> station list" where
  "active_stations g = filter st_active (map snd (sr_stations g))"

definition regions :: "station_registry \<Rightarrow> string set" where
  "regions g = set (map st_region (active_stations g))"

definition is_reachable :: "station_registry \<Rightarrow> string \<Rightarrow> bool result" where
  "is_reachable g k = bind_r (get_station g k) (\<lambda>st. Inr (st_reachable st \<and> st_alive st))"

definition successor_for :: "station_registry \<Rightarrow> station \<Rightarrow> station result" where
  "successor_for g failed =
     (let candidates = filter (\<lambda>st. st_id st \<noteq> st_id failed) (active_stations g);
          same_region = filter (\<lambda>st. st_region st = st_region failed) candidates;
          pool = (if same_region \<noteq> [] then same_region else candidates) in
      if candidates = [] then Inl (ContractError ''no active station available for takeover'')
      else Inr (hd (sort_key st_id pool)))"

definition take_over ::
  "(string \<Rightarrow> string) \<Rightarrow> float_env \<Rightarrow> (nat \<Rightarrow> rat) \<Rightarrow> station_registry \<Rightarrow> journal \<Rightarrow> station \<Rightarrow> rat
     \<Rightarrow> (station_registry \<times> journal) \<times> takeover result" where
  "take_over H env clk g j failed detected =
     (case successor_for g failed of
        Inl e \<Rightarrow> ((g, j), Inl e)
      | Inr succ \<Rightarrow>
          (let tk = \<lparr>tk_failed = st_id failed, tk_successor = st_id succ, tk_detected = detected, tk_completed = clk 0\<rparr>;
               g' = g\<lparr>sr_takeovers := sr_takeovers g @ [tk]\<rparr> in
           case journal_record H env (clk 1) j ''takeover''
               [(''failed_station'', JStr (st_id failed)), (''successor_station'', JStr (st_id succ)),
                (''region'', JStr (st_region failed)), (''rto_seconds'', float_json env (rto_seconds env tk))] of
             Inl e \<Rightarrow> ((g', j), Inl e)
           | Inr j' \<Rightarrow> ((g', j'), Inr tk)))"

definition stale :: "float_env \<Rightarrow> rat \<Rightarrow> rat \<Rightarrow> station \<Rightarrow> bool" where
  "stale env now timeout st = (st_alive st \<and> fe_round env (now - st_heartbeat st) > timeout)"

fun tick_each ::
  "(string \<Rightarrow> string) \<Rightarrow> float_env \<Rightarrow> rat \<Rightarrow> (nat \<Rightarrow> rat) \<Rightarrow> string list \<Rightarrow> takeover list \<Rightarrow> station_registry \<Rightarrow> journal
     \<Rightarrow> (station_registry \<times> journal) \<times> takeover list result" where
  "tick_each H env now clk [] tks g j = ((g, j), Inr tks)"
| "tick_each H env now clk (k # ks) tks g j =
     (case map_of (sr_stations g) k of
        None \<Rightarrow> tick_each H env now clk ks tks g j
      | Some st \<Rightarrow>
          if stale env now (sr_timeout g) st then
            (case take_over H env clk (put_station g k (fail_station st)) j (fail_station st) now of
               ((g', j'), Inl e) \<Rightarrow> ((g', j'), Inl e)
             | ((g', j'), Inr tk) \<Rightarrow> tick_each H env now (\<lambda>i. clk (i + 2)) ks (tks @ [tk]) g' j')
          else tick_each H env now clk ks tks g j)"

text \<open>The stations are visited in the order of their identifiers; the keys of the dictionary stand for the
  station objects (the branch \<open>None\<close> of the loop does not occur, as no iteration removes a key).\<close>

definition tick ::
  "(string \<Rightarrow> string) \<Rightarrow> float_env \<Rightarrow> (nat \<Rightarrow> rat) \<Rightarrow> station_registry \<Rightarrow> journal \<Rightarrow> (station_registry \<times> journal) \<times> takeover list result" where
  "tick H env clk g j =
     tick_each H env (clk 0) (\<lambda>i. clk (Suc i)) (map fst (sort_key (\<lambda>(k, st). st_id st) (sr_stations g))) [] g j"

section \<open>Failover\<close>

definition RTO_LIMIT_SECONDS :: rat where
  "RTO_LIMIT_SECONDS = 60"

definition TASK_STATUSES :: "string list" where
  "TASK_STATUSES = [''pending'', ''running'', ''done'']"

record task_record =
  tr_id :: string
  tr_status :: string
  tr_worker :: "string option"
  tr_receipt :: "string option"

definition mk_task_record :: "task_record \<Rightarrow> task_record result" where
  "mk_task_record t =
     bind_r (ensure (tr_status t \<in> set TASK_STATUSES) (ContractError ''invalid task status'')) (\<lambda>_. Inr t)"

definition incomplete :: "task_record \<Rightarrow> bool" where
  "incomplete t = (tr_status t \<noteq> ''done'')"

record hadr_run =
  ru_id :: string
  ru_station :: string
  ru_tasks :: "task_record list"
  ru_chain :: receipt_chain

definition incomplete_tasks :: "hadr_run \<Rightarrow> task_record list" where
  "incomplete_tasks ru = filter incomplete (ru_tasks ru)"

fun update_first :: "('a \<Rightarrow> bool) \<Rightarrow> ('a \<Rightarrow> 'a) \<Rightarrow> 'a list \<Rightarrow> 'a list" where
  "update_first P f [] = []"
| "update_first P f (x # xs) = (if P x then f x # xs else x # update_first P f xs)"

definition complete_task ::
  "(string \<Rightarrow> string) \<Rightarrow> hadr_run \<Rightarrow> string \<Rightarrow> string \<Rightarrow> string \<Rightarrow> hadr_run \<times> unit result" where
  "complete_task H ru task worker payload =
     (if \<not> list_ex (\<lambda>t. tr_id t = task) (ru_tasks ru) then (ru, Inl (ContractError ''unknown task''))
      else
        (let ru' = ru\<lparr>ru_tasks := update_first (\<lambda>t. tr_id t = task)
               (\<lambda>t. t\<lparr>tr_status := ''done'', tr_worker := Some worker\<rparr>) (ru_tasks ru)\<rparr> in
         case chain_append H (ru_chain ru') task payload of
           Inl e \<Rightarrow> (ru', Inl e)
         | Inr (c, r) \<Rightarrow>
             (ru'\<lparr>ru_tasks := update_first (\<lambda>t. tr_id t = task) (\<lambda>t. t\<lparr>tr_receipt := Some (cr_id r)\<rparr>) (ru_tasks ru'),
                  ru_chain := c\<rparr>, Inr ())))"

record failover_report =
  fo_run :: string
  fo_failed :: string
  fo_successor :: string
  fo_resumed :: "string option"
  fo_incomplete :: "string list"
  fo_reassignments :: "(string \<times> string) list"
  fo_rto :: rat
  fo_within :: bool

fun reassign :: "string list \<Rightarrow> nat \<Rightarrow> task_record list \<Rightarrow> task_record list \<times> (string \<times> string) list" where
  "reassign workers i [] = ([], [])"
| "reassign workers i (t # ts) =
     (if incomplete t then
        let w = workers ! (i mod length workers); (ts', ps) = reassign workers (Suc i) ts in
        (t\<lparr>tr_worker := Some w, tr_status := ''pending''\<rparr> # ts', (tr_id t, w) # ps)
      else
        let (ts', ps) = reassign workers i ts in (t # ts', ps))"

definition report_details :: "float_env \<Rightarrow> failover_report \<Rightarrow> (string \<times> json) list" where
  "report_details env r = [(''run_id'', JStr (fo_run r)), (''failed_station'', JStr (fo_failed r)),
     (''successor_station'', JStr (fo_successor r)),
     (''resumed_from_receipt'', JStr (case fo_resumed r of None \<Rightarrow> [] | Some x \<Rightarrow> x)),
     (''incomplete_tasks'', JArr (map JStr (fo_incomplete r))),
     (''rto_seconds'', float_json env (fo_rto r)), (''within_rto'', JBool (fo_within r))]"

definition failover ::
  "(string \<Rightarrow> string) \<Rightarrow> float_env \<Rightarrow> (nat \<Rightarrow> rat) \<Rightarrow> rat \<Rightarrow> station_registry \<Rightarrow> journal \<Rightarrow> hadr_run \<Rightarrow> string
     \<Rightarrow> (station_registry \<times> journal \<times> hadr_run) \<times> failover_report result" where
  "failover H env clk limit g j ru k =
     (case map_of (sr_stations g) k of
        None \<Rightarrow> ((g, j, ru), Inl (ContractError ''unknown station''))
      | Some st \<Rightarrow>
        (let failed = (if st_alive st then fail_station st else st);
             g' = (if st_alive st then put_station g k (fail_station st) else g) in
         case bind_r (last_verified H (ru_chain ru)) (\<lambda>l. bind_r (successor_for g' failed) (\<lambda>s. Inr (l, s))) of
           Inl e \<Rightarrow> ((g', j, ru), Inl e)
         | Inr (l, succ) \<Rightarrow>
           (let ru1 = ru\<lparr>ru_station := st_id succ\<rparr> in
            if st_workers succ = [] then ((g', j, ru1), Inl (ContractError ''successor station has no available workers''))
            else
              (let (ts, ps) = reassign (st_workers succ) 0 (ru_tasks ru1);
                   ru2 = ru1\<lparr>ru_tasks := ts\<rparr>;
                   rto = fe_round env (clk 1 - clk 0);
                   report = \<lparr>fo_run = ru_id ru2, fo_failed = k, fo_successor = st_id succ,
                     fo_resumed = map_option cr_id l, fo_incomplete = map tr_id (incomplete_tasks ru1),
                     fo_reassignments = ps, fo_rto = rto, fo_within = (rto < limit)\<rparr> in
               case journal_record H env (clk 2) j ''failover'' (report_details env report) of
                 Inl e \<Rightarrow> ((g', j, ru2), Inl e)
               | Inr j' \<Rightarrow> ((g', j', ru2), Inr report)))))"

section \<open>Successors\<close>

definition wf_registry :: "station_registry \<Rightarrow> bool" where
  "wf_registry g = (distinct (map fst (sr_stations g)) \<and> (\<forall>k st. (k, st) \<in> set (sr_stations g) \<longrightarrow> st_id st = k))"

lemma hd_sort_mem: "xs \<noteq> [] \<Longrightarrow> hd (sort_key f xs) \<in> set xs"
  by (metis hd_in_set set_empty set_sort)

lemma active_iff: "st \<in> set (active_stations g) \<longleftrightarrow> (\<exists>k. (k, st) \<in> set (sr_stations g)) \<and> st_active st"
  by (force simp: active_stations_def)

lemma successor_for_ok:
  assumes "successor_for g failed = Inr s"
  shows "s \<in> set (active_stations g)" and "st_id s \<noteq> st_id failed"
    and "st_region s = st_region failed \<or>
      (\<forall>c\<in>set (active_stations g). st_id c \<noteq> st_id failed \<longrightarrow> st_region c \<noteq> st_region failed)"
proof -
  let ?c = "filter (\<lambda>st. st_id st \<noteq> st_id failed) (active_stations g)"
  let ?r = "filter (\<lambda>st. st_region st = st_region failed) ?c"
  let ?p = "if ?r \<noteq> [] then ?r else ?c"
  have ne: "?c \<noteq> []" and s: "s = hd (sort_key st_id ?p)"
    using assms by (auto simp: successor_for_def Let_def split: if_splits)
  from ne have "?p \<noteq> []" by simp
  then have mem: "s \<in> set ?p" unfolding s by (rule hd_sort_mem)
  then show "s \<in> set (active_stations g)" "st_id s \<noteq> st_id failed" by (auto split: if_splits)
  from mem show "st_region s = st_region failed \<or>
      (\<forall>c\<in>set (active_stations g). st_id c \<noteq> st_id failed \<longrightarrow> st_region c \<noteq> st_region failed)"
    by (cases "?r = []") (auto simp: filter_empty_conv)
qed

lemma successor_for_none:
  "successor_for g failed = Inl e \<longleftrightarrow>
   e = ContractError ''no active station available for takeover'' \<and> (\<forall>c\<in>set (active_stations g). st_id c = st_id failed)"
  by (auto simp: successor_for_def Let_def filter_empty_conv)

lemma take_over_cases:
  obtains (none) "successor_for g failed = Inl (ContractError ''no active station available for takeover'')"
      "take_over H env clk g j failed d = ((g, j), Inl (ContractError ''no active station available for takeover''))"
  | (handed) s e where "successor_for g failed = Inr s"
      "take_over H env clk g j failed d =
        ((g\<lparr>sr_takeovers := sr_takeovers g @ [\<lparr>tk_failed = st_id failed, tk_successor = st_id s, tk_detected = d, tk_completed = clk 0\<rparr>]\<rparr>,
          j @ [e]), Inr \<lparr>tk_failed = st_id failed, tk_successor = st_id s, tk_detected = d, tk_completed = clk 0\<rparr>)"
      "je_kind e = ''takeover''" "verify_journal H env j = Inr True \<Longrightarrow> verify_journal H env (j @ [e]) = Inr True"
proof (cases "successor_for g failed")
  case (Inl e)
  then show thesis using successor_for_none [of g failed e] none by (simp add: take_over_def)
next
  case (Inr s)
  let ?tk = "\<lparr>tk_failed = st_id failed, tk_successor = st_id s, tk_detected = d, tk_completed = clk 0\<rparr>"
  let ?details = "[(''failed_station'', JStr (st_id failed)), (''successor_station'', JStr (st_id s)),
     (''region'', JStr (st_region failed)), (''rto_seconds'', float_json env (rto_seconds env ?tk))]"
  obtain e where e: "journal_record H env (clk 1) j ''takeover'' ?details = Inr (j @ [e])" "je_kind e = ''takeover''"
    using journal_record_total [of "''takeover''" ?details H env "clk 1" j] by (auto simp: EVENT_KINDS_def float_json_def)
  show thesis
    using handed [OF Inr _ e(2)] e(1) Inr journal_record_verifies [OF _ e(1)] by (simp add: take_over_def Let_def)
qed

section \<open>Heartbeat checks\<close>

text \<open>What a check does to the registry: the named stations that are stale fail.\<close>

definition fail_stale :: "(station \<Rightarrow> bool) \<Rightarrow> string set \<Rightarrow> (string, station) dict \<Rightarrow> (string, station) dict" where
  "fail_stale P K d = map (\<lambda>(k, st). (k, if k \<in> K \<and> P st then fail_station st else st)) d"

lemma fail_sel [simp]: "st_id (fail_station st) = st_id st" "st_active (fail_station st) = False" "st_alive (fail_station st) = False"
  by (simp_all add: fail_station_def)

lemma fail_stale_keys [simp]: "map fst (fail_stale P K d) = map fst d"
  by (simp add: fail_stale_def case_prod_unfold)

lemma put_failed:
  assumes "wf_registry g" and "map_of (sr_stations g) k = Some st" and "P st"
  shows "sr_stations (put_station g k (fail_station st)) = fail_stale P {k} (sr_stations g)"
proof -
  have d: "distinct (map fst (sr_stations g))" and m: "(k, st) \<in> set (sr_stations g)"
    using assms by (auto simp: wf_registry_def dest: map_of_SomeD)
  have "st' = st" if "(k, st') \<in> set (sr_stations g)" for st'
    using that m d by (auto dest: eq_key_imp_eq_value)
  then have "map (\<lambda>(k', m). (k', if k' = k then fail_station st else m)) (sr_stations g) = fail_stale P {k} (sr_stations g)"
    unfolding fail_stale_def using assms(3) by (intro map_cong) auto
  then show ?thesis using update_existing [OF d m] by (simp add: put_station_def)
qed

lemma fail_stale_wf:
  assumes "wf_registry g" and "sr_stations g' = fail_stale P K (sr_stations g)"
  shows "wf_registry g'"
proof -
  have "distinct (map fst (sr_stations g'))" using assms by (simp add: wf_registry_def)
  moreover have "st_id st = k" if "(k, st) \<in> set (sr_stations g')" for k st
    using that assms by (auto simp: wf_registry_def fail_stale_def split: if_splits)
  ultimately show ?thesis by (simp add: wf_registry_def)
qed

lemma fail_stale_comp:
  assumes "\<And>st. \<not> P (fail_station st)"
  shows "fail_stale P K' (fail_stale P K d) = fail_stale P (K \<union> K') d"
  using assms by (auto simp: fail_stale_def)

lemma fail_stale_lookup:
  "map_of (fail_stale P K d) k = map_option (\<lambda>st. if k \<in> K \<and> P st then fail_station st else st) (map_of d k)"
  unfolding fail_stale_def by (induction d) auto

lemma active_fail_stale:
  assumes "sr_stations g' = fail_stale P K (sr_stations g)" and "st \<in> set (active_stations g')"
  shows "st \<in> set (active_stations g)"
  using assms by (force simp: active_iff fail_stale_def split: if_splits)

definition tick_post ::
  "float_env \<Rightarrow> rat \<Rightarrow> string list \<Rightarrow> takeover list \<Rightarrow> station_registry \<Rightarrow> station_registry \<Rightarrow> takeover list result \<Rightarrow> bool" where
  "tick_post env now ks tks g g' out = (case out of
     Inl e \<Rightarrow> e = ContractError ''no active station available for takeover'' \<and> active_stations g' = []
   | Inr tks' \<Rightarrow> sr_stations g' = fail_stale (stale env now (sr_timeout g)) (set ks) (sr_stations g)
       \<and> (\<exists>new. tks' = tks @ new \<and> sr_takeovers g' = sr_takeovers g @ new
           \<and> map tk_failed new = filter (\<lambda>k. \<exists>st. map_of (sr_stations g) k = Some st \<and> stale env now (sr_timeout g) st) ks
           \<and> (\<forall>tk\<in>set new. tk_successor tk \<noteq> tk_failed tk \<and> (\<exists>st\<in>set (active_stations g). st_id st = tk_successor tk))))"

lemma not_stale_fail [simp]: "\<not> stale env now timeout (fail_station st)"
  by (simp add: stale_def)

lemma tick_skip:
  assumes "map_of (sr_stations g) k = Some st" and "\<not> stale env now (sr_timeout g) st" and "wf_registry g"
    and "tick_post env now ks tks g g' out"
  shows "tick_post env now (k # ks) tks g g' out"
proof -
  have "fail_stale (stale env now (sr_timeout g)) (set ks) (sr_stations g)
      = fail_stale (stale env now (sr_timeout g)) (set (k # ks)) (sr_stations g)"
    unfolding fail_stale_def using assms(1-3)
    by (intro map_cong) (auto simp: wf_registry_def dest: map_of_SomeD eq_key_imp_eq_value)
  then show ?thesis using assms(1,2,4) unfolding tick_post_def by (cases out) auto
qed

lemma tick_hand_over:
  assumes st: "map_of (sr_stations g) k = Some st" "stale env now (sr_timeout g) st" and wf: "wf_registry g" and ks: "k \<notin> set ks"
    and g1: "sr_stations g1 = fail_stale (stale env now (sr_timeout g)) {k} (sr_stations g)" "sr_timeout g1 = sr_timeout g"
      "sr_takeovers g1 = sr_takeovers g @ [tk]"
    and tk: "tk_failed tk = k" "tk_successor tk \<noteq> k" "\<exists>st\<in>set (active_stations g1). st_id st = tk_successor tk"
    and post: "tick_post env now ks (tks @ [tk]) g1 g' out"
  shows "tick_post env now (k # ks) tks g g' out"
proof (cases out)
  case (Inl e)
  then show ?thesis using post by (simp add: tick_post_def)
next
  case (Inr tks')
  let ?P = "stale env now (sr_timeout g)"
  obtain new where new: "tks' = (tks @ [tk]) @ new" "sr_takeovers g' = sr_takeovers g1 @ new"
      "map tk_failed new = filter (\<lambda>k. \<exists>st. map_of (sr_stations g1) k = Some st \<and> ?P st) ks"
      "\<forall>tk\<in>set new. tk_successor tk \<noteq> tk_failed tk \<and> (\<exists>st\<in>set (active_stations g1). st_id st = tk_successor tk)"
    and g': "sr_stations g' = fail_stale ?P (set ks) (sr_stations g1)"
    using post Inr g1(2) by (auto simp: tick_post_def)
  have "sr_stations g' = fail_stale ?P (set (k # ks)) (sr_stations g)"
    unfolding g' g1(1) by (subst fail_stale_comp) auto
  moreover have "filter (\<lambda>k. \<exists>st. map_of (sr_stations g1) k = Some st \<and> ?P st) ks
      = filter (\<lambda>k. \<exists>st. map_of (sr_stations g) k = Some st \<and> ?P st) ks"
    using ks by (intro filter_cong) (auto simp: g1(1) fail_stale_lookup)
  moreover have act: "\<exists>st\<in>set (active_stations g). st_id st = i" if "\<exists>st\<in>set (active_stations g1). st_id st = i" for i
    using that active_fail_stale [OF g1(1)] by blast
  ultimately show ?thesis
    using Inr new st tk g1(3) act unfolding tick_post_def
    by (auto intro!: exI [of _ "tk # new"])
qed

lemma tick_each_post:
  assumes "wf_registry g" and "distinct ks" and "set ks \<subseteq> fst ` set (sr_stations g)" and "verify_journal H env j = Inr True"
    and "tick_each H env now clk ks tks g j = ((g', j'), out)"
  shows "tick_post env now ks tks g g' out \<and> verify_journal H env j' = Inr True"
  using assms
proof (induction ks arbitrary: clk tks g j)
  case Nil
  then show ?case by (auto simp: tick_post_def fail_stale_def case_prod_unfold)
next
  case (Cons k ks)
  obtain st where st: "map_of (sr_stations g) k = Some st"
    using Cons.prems(3) by (metis list.set_intros(1) map_of_eq_None_iff not_None_eq subset_iff)
  show ?case
  proof (cases "stale env now (sr_timeout g) st")
    case False
    have "tick_each H env now clk ks tks g j = ((g', j'), out)" using Cons.prems(5) st False by simp
    then have "tick_post env now ks tks g g' out \<and> verify_journal H env j' = Inr True"
      using Cons.IH [of g j clk tks] Cons.prems by simp
    with tick_skip [OF st False Cons.prems(1)] show ?thesis by blast
  next
    case True
    let ?g = "put_station g k (fail_station st)"
    have id: "st_id st = k" using st Cons.prems(1) by (auto simp: wf_registry_def dest: map_of_SomeD)
    have g1: "sr_stations ?g = fail_stale (stale env now (sr_timeout g)) {k} (sr_stations g)"
      using put_failed [of g k st "stale env now (sr_timeout g)", OF Cons.prems(1) st True] .
    have sel: "sr_timeout ?g = sr_timeout g" "sr_takeovers ?g = sr_takeovers g" by (simp_all add: put_station_def)
    show ?thesis
    proof (cases rule: take_over_cases [of ?g "fail_station st" H env clk j now])
      case none
      have "c \<notin> set (active_stations ?g)" for c
      proof
        assume c: "c \<in> set (active_stations ?g)"
        then have "st_id c = k" using none(1) id by (simp add: successor_for_none)
        moreover obtain k' where "(k', c) \<in> set (sr_stations ?g)" "st_active c" using c by (auto simp: active_iff)
        moreover have "wf_registry ?g" using fail_stale_wf [OF Cons.prems(1) g1] .
        ultimately have "map_of (sr_stations ?g) k = Some c" by (auto simp: wf_registry_def)
        then show False using \<open>st_active c\<close> by (simp add: put_station_def)
          (metis fail_sel(2))
      qed
      then have "active_stations ?g = []" by (metis list.set_intros(1) neq_Nil_conv)
      then show ?thesis using Cons.prems(4,5) st True none(2) by (auto simp: tick_post_def)
    next
      case (handed s e)
      let ?tk = "\<lparr>tk_failed = st_id (fail_station st), tk_successor = st_id s, tk_detected = now, tk_completed = clk 0\<rparr>"
      let ?g2 = "?g\<lparr>sr_takeovers := sr_takeovers ?g @ [?tk]\<rparr>"
      have rest: "tick_each H env now (\<lambda>i. clk (i + 2)) ks (tks @ [?tk]) ?g2 (j @ [e]) = ((g', j'), out)"
        using Cons.prems(5) st True handed(2) by simp
      have wf2: "wf_registry ?g2" using fail_stale_wf [OF Cons.prems(1), of ?g2] g1 by simp
      have keys: "fst ` set (sr_stations ?g2) = fst ` set (sr_stations g)"
        using fail_stale_keys by (metis g1 list.set_map station_registry.select_convs(2) station_registry.surjective station_registry.update_convs(3))
      have post: "tick_post env now ks (tks @ [?tk]) ?g2 g' out \<and> verify_journal H env j' = Inr True"
        using Cons.IH [OF wf2 _ _ _ rest] Cons.prems(2,3,4) handed(4) keys by simp
      have s: "s \<in> set (active_stations ?g2)" "st_id s \<noteq> k"
        using successor_for_ok [OF handed(1)] id by (simp_all add: active_stations_def)
      have "tick_post env now (k # ks) tks g g' out"
        by (rule tick_hand_over [where tk = ?tk and ?g1.0 = ?g2, OF st True Cons.prems(1)])
          (use post s g1 sel id Cons.prems(2) in auto)
      with post show ?thesis by simp
    qed
  qed
qed

lemma tick_order:
  assumes "wf_registry g"
  shows "map fst (sort_key (\<lambda>(k, st). st_id st) (sr_stations g)) = sort (map fst (sr_stations g))"
proof -
  let ?ys = "sort_key (\<lambda>(k, st). st_id st) (sr_stations g)"
  have "map fst ?ys = map (\<lambda>(k, st). st_id st) ?ys" using assms by (auto simp: wf_registry_def)
  then have "sorted (map fst ?ys)" by (metis sorted_sort_key)
  then show ?thesis by (intro properties_for_sort [symmetric]) simp_all
qed

text \<open>A heartbeat check that returns has failed exactly the live stations whose heartbeat is older than the
  timeout and changed no other station; it reports one takeover for each of them, in the order of the
  identifiers, whose successor is a different station that was active before the check. A check that raises has
  found no active station left at all. Either way the journal still verifies.\<close>

theorem tick_hands_over_exactly:
  assumes "wf_registry g" and "verify_journal H env j = Inr True" and "tick H env clk g j = ((g', j'), out)"
  shows "verify_journal H env j' = Inr True \<and>
    (case out of
       Inl e \<Rightarrow> e = ContractError ''no active station available for takeover'' \<and> active_stations g' = []
     | Inr tks \<Rightarrow>
         sr_stations g' = map (\<lambda>(k, st). (k, if stale env (clk 0) (sr_timeout g) st then fail_station st else st)) (sr_stations g)
         \<and> sr_takeovers g' = sr_takeovers g @ tks
         \<and> map tk_failed tks = sort (map fst (filter (\<lambda>(k, st). stale env (clk 0) (sr_timeout g) st) (sr_stations g)))
         \<and> (\<forall>tk\<in>set tks. tk_successor tk \<noteq> tk_failed tk \<and> (\<exists>st\<in>set (active_stations g). st_id st = tk_successor tk)))"
proof -
  let ?P = "stale env (clk 0) (sr_timeout g)" and ?ks = "sort (map fst (sr_stations g))"
  have d: "distinct (map fst (sr_stations g))" using assms(1) by (simp add: wf_registry_def)
  have post: "tick_post env (clk 0) ?ks [] g g' out" and jv: "verify_journal H env j' = Inr True"
    using tick_each_post [OF assms(1) _ _ assms(2), of ?ks] assms(3) d
    by (auto simp: tick_def tick_order [OF assms(1)])
  have all: "fail_stale ?P (set ?ks) (sr_stations g) = map (\<lambda>(k, st). (k, if ?P st then fail_station st else st)) (sr_stations g)"
    unfolding fail_stale_def by (intro map_cong) (auto simp: rev_image_eqI)
  have "filter (\<lambda>k. \<exists>st. map_of (sr_stations g) k = Some st \<and> ?P st) ?ks
      = sort (filter (\<lambda>k. \<exists>st. map_of (sr_stations g) k = Some st \<and> ?P st) (map fst (sr_stations g)))"
    by (simp add: filter_sort)
  also have "filter (\<lambda>k. \<exists>st. map_of (sr_stations g) k = Some st \<and> ?P st) (map fst (sr_stations g))
      = map fst (filter (\<lambda>(k, st). ?P st) (sr_stations g))"
    unfolding filter_map using d by (intro arg_cong [where f = "map fst"] filter_cong) (auto dest: eq_key_imp_eq_value)
  finally have ord: "filter (\<lambda>k. \<exists>st. map_of (sr_stations g) k = Some st \<and> ?P st) ?ks
      = sort (map fst (filter (\<lambda>(k, st). ?P st) (sr_stations g)))" .
  show ?thesis using post jv unfolding tick_post_def all ord by (cases out) auto
qed

definition example_registry :: station_registry where
  "example_registry = \<lparr>sr_timeout = 15, sr_stations =
     [(''a'', \<lparr>st_id = ''a'', st_region = ''eu'', st_workers = [''w''], st_alive = True, st_active = True, st_heartbeat = 0, st_reachable = True\<rparr>),
      (''b'', \<lparr>st_id = ''b'', st_region = ''eu'', st_workers = [''x'', ''y''], st_alive = True, st_active = True, st_heartbeat = 90, st_reachable = True\<rparr>)],
     sr_takeovers = []\<rparr>"

lemma wf_example_registry: "wf_registry example_registry"
  by (auto simp: wf_registry_def example_registry_def)

theorem tick_hands_over_exactly_witness:
  "\<exists>g' j' tks. tick (\<lambda>_. ''h'') exact_env (\<lambda>_. 100) example_registry [] = ((g', j'), Inr tks)
     \<and> map tk_failed tks = [''a''] \<and> map (\<lambda>(k, st). (k, st_alive st)) (sr_stations g') = [(''a'', False), (''b'', True)]"
proof -
  have ok: "is_ok (snd (tick (\<lambda>_. ''h'') exact_env (\<lambda>_. 100) example_registry []))" by code_simp
  obtain g' j' out where r: "tick (\<lambda>_. ''h'') exact_env (\<lambda>_. 100) example_registry [] = ((g', j'), out)"
    by (metis surj_pair)
  with ok obtain tks where out: "out = Inr tks" by (cases out) (auto simp: is_ok_def)
  have j: "verify_journal (\<lambda>_. ''h'') exact_env [] = Inr True" by (simp add: verify_journal_def)
  show ?thesis
    using tick_hands_over_exactly [OF wf_example_registry j r] r out
    by (auto simp: example_registry_def stale_def exact_env_def)
qed

text \<open>The successor of a stale station can itself be stale: with both stations silent the first one is handed to the
  second, and the check raises at the second after recording that takeover.\<close>

lemma takeover_to_stale_successor:
  "case tick (\<lambda>_. ''h'') exact_env (\<lambda>_. 200) example_registry [] of ((g', j'), out) \<Rightarrow>
     map (\<lambda>tk. (tk_failed tk, tk_successor tk)) (sr_takeovers g') = [(''a'', ''b'')] \<and> \<not> is_ok out
     \<and> list_all (\<lambda>(k, st). \<not> st_active st) (sr_stations g')"
  by code_simp

section \<open>Failover\<close>

definition reassigned :: "task_record \<Rightarrow> task_record \<Rightarrow> bool" where
  "reassigned t t' = (if incomplete t then \<exists>w. t' = t\<lparr>tr_worker := Some w, tr_status := ''pending''\<rparr> else t' = t)"

lemma reassign_spec:
  assumes "reassign workers i ts = (ts', ps)"
  shows "list_all2 reassigned ts ts'
    \<and> ps = zip (map tr_id (filter incomplete ts)) (map (\<lambda>n. workers ! ((i + n) mod length workers)) [0..<length (filter incomplete ts)])
    \<and> map (\<lambda>t. (tr_id t, tr_worker t)) (filter incomplete ts') = map (\<lambda>(t, w). (t, Some w)) ps"
  using assms
proof (induction workers i ts arbitrary: ts' ps rule: reassign.induct)
  case (1 workers i)
  then show ?case by simp
next
  case (2 workers i t ts)
  show ?case
  proof (cases "incomplete t")
    case True
    obtain ts1 ps1 where r: "reassign workers (Suc i) ts = (ts1, ps1)" by (cases "reassign workers (Suc i) ts")
    note IH = "2.IH"(1) [OF True refl r]
    have up: "[0..<Suc m] = 0 # map Suc [0..<m]" for m by (simp add: upt_conv_Cons map_Suc_upt)
    have ts': "ts' = t\<lparr>tr_worker := Some (workers ! (i mod length workers)), tr_status := ''pending''\<rparr> # ts1"
      and ps: "ps = (tr_id t, workers ! (i mod length workers)) # ps1" using "2.prems" True r by (auto simp: Let_def)
    have "reassigned t (t\<lparr>tr_worker := Some (workers ! (i mod length workers)), tr_status := ''pending''\<rparr>)"
      using True by (auto simp: reassigned_def)
    moreover have "incomplete (t\<lparr>tr_worker := Some (workers ! (i mod length workers)), tr_status := ''pending''\<rparr>)"
      by (simp add: incomplete_def)
    ultimately show ?thesis using IH True by (simp add: ts' ps up comp_def del: upt_Suc)
  next
    case False
    obtain ts1 ps1 where r: "reassign workers i ts = (ts1, ps1)" by (cases "reassign workers i ts")
    have "reassigned t t" using False by (simp add: reassigned_def)
    then show ?thesis using "2.prems" False r "2.IH"(2) [OF False r] by (auto simp: Let_def)
  qed
qed

lemma report_details_finite: "list_all (\<lambda>(k, v). finite_json v) (report_details env r)"
  by (simp add: report_details_def float_json_def list_all_iff)

lemma failed_keeps_workers:
  assumes "map_of (sr_stations g) k = Some st" and "list_all (\<lambda>(k, st). st_workers st \<noteq> []) (sr_stations g)"
    and "s \<in> set (active_stations (if st_alive st then put_station g k (fail_station st) else g))"
  shows "st_workers s \<noteq> []"
proof -
  obtain l where "(l, s) \<in> set (sr_stations (if st_alive st then put_station g k (fail_station st) else g))"
    using assms(3) by (auto simp: active_iff)
  then have "s = fail_station st \<or> (\<exists>l. (l, s) \<in> set (sr_stations g))"
    by (auto simp: put_station_def split: if_splits dest: update_mem)
  then show ?thesis using assms(2) map_of_SomeD [OF assms(1)] by (auto simp: fail_station_def list_all_iff)
qed

text \<open>C37. Mid-run failover. Over registered stations with workers, a failover that returns has verified the run's
  chain and left it as it is, reports its last receipt as the resume point, has taken the failed station out of
  service, moved the run to a different active station, and given exactly the incomplete tasks, in their order and
  round robin, to the workers of that station as pending tasks; completed tasks keep their worker and receipt. It
  raises only for an unknown station, a chain that does not verify or when no other station is active, and then
  run and journal are as before.\<close>

theorem failover_resumes_verified_run:
  assumes "wf_registry g" and "list_all (\<lambda>(k, st). st_workers st \<noteq> []) (sr_stations g)"
    and "failover H env clk limit g j ru k = ((g', j', ru'), out)"
  shows "case out of
      Inl e \<Rightarrow> ru' = ru \<and> j' = j \<and>
        (map_of (sr_stations g) k = None \<or> \<not> verify_receipt_chain H (ru_chain ru) \<or> (\<forall>st\<in>set (active_stations g'). st_id st = k))
    | Inr rep \<Rightarrow> verify_receipt_chain H (ru_chain ru) \<and> ru_chain ru' = ru_chain ru
        \<and> fo_resumed rep = (if ru_chain ru = [] then None else Some (cr_id (last (ru_chain ru))))
        \<and> (\<exists>st. map_of (sr_stations g') k = Some st \<and> \<not> st_alive st)
        \<and> (\<exists>s\<in>set (active_stations g'). st_id s \<noteq> k \<and> st_id s = fo_successor rep \<and> ru_station ru' = st_id s
            \<and> fo_reassignments rep = zip (map tr_id (incomplete_tasks ru))
                (map (\<lambda>n. st_workers s ! (n mod length (st_workers s))) [0..<length (incomplete_tasks ru)]))
        \<and> list_all2 reassigned (ru_tasks ru) (ru_tasks ru')
        \<and> map (\<lambda>t. (tr_id t, tr_worker t)) (incomplete_tasks ru') = map (\<lambda>(t, w). (t, Some w)) (fo_reassignments rep)
        \<and> fo_within rep = (fe_round env (clk 1 - clk 0) < limit) \<and> length j' = Suc (length j)"
proof (cases "map_of (sr_stations g) k")
  case None
  then show ?thesis using assms(3) by (auto simp: failover_def)
next
  case (Some st)
  define failed where "failed = (if st_alive st then fail_station st else st)"
  define g1 where "g1 = (if st_alive st then put_station g k (fail_station st) else g)"
  have id: "st_id failed = k" using Some assms(1) by (auto simp: failed_def wf_registry_def dest: map_of_SomeD)
  have g1k: "map_of (sr_stations g1) k = Some failed" using Some by (simp add: g1_def failed_def put_station_def)
  have dead: "\<not> st_alive failed" by (simp add: failed_def)
  have workers: "st_workers s \<noteq> []" if "s \<in> set (active_stations g1)" for s
    using failed_keeps_workers [OF Some assms(2)] that by (simp add: g1_def)
  consider (chain) e where "last_verified H (ru_chain ru) = Inl e"
    | (succ) l e where "last_verified H (ru_chain ru) = Inr l" "successor_for g1 failed = Inl e"
    | (ok) l s where "last_verified H (ru_chain ru) = Inr l" "successor_for g1 failed = Inr s"
    by (cases "last_verified H (ru_chain ru)"; cases "successor_for g1 failed") auto
  then show ?thesis
  proof cases
    case chain
    then have "\<not> verify_receipt_chain H (ru_chain ru)" by (auto simp: last_verified_def bind_r_Inl_iff ensure_Inl_iff)
    then show ?thesis using assms(3) Some chain by (auto simp: failover_def failed_def [symmetric] g1_def [symmetric] Let_def)
  next
    case succ
    then show ?thesis using assms(3) Some successor_for_none [of g1 failed e] id
      by (auto simp: failover_def failed_def [symmetric] g1_def [symmetric] Let_def)
  next
    case ok
    note s = successor_for_ok [OF ok(2)]
    obtain ts ps where r: "reassign (st_workers s) 0 (ru_tasks ru) = (ts, ps)" by (cases "reassign (st_workers s) 0 (ru_tasks ru)")
    note spec = reassign_spec [OF r]
    let ?rep = "\<lparr>fo_run = ru_id ru, fo_failed = k, fo_successor = st_id s, fo_resumed = map_option cr_id l,
      fo_incomplete = map tr_id (incomplete_tasks ru), fo_reassignments = ps, fo_rto = fe_round env (clk 1 - clk 0),
      fo_within = (fe_round env (clk 1 - clk 0) < limit)\<rparr>"
    obtain e where e: "journal_record H env (clk 2) j ''failover'' (report_details env ?rep) = Inr (j @ [e])"
      using journal_record_total [of "''failover''" "report_details env ?rep" H env "clk 2" j] report_details_finite [of env ?rep]
      by (auto simp: EVENT_KINDS_def)
    have res: "g' = g1" "j' = j @ [e]" "ru' = ru\<lparr>ru_station := st_id s, ru_tasks := ts\<rparr>" "out = Inr ?rep"
      using assms(3) Some ok workers [OF s(1)] r e
      by (auto simp: failover_def failed_def [symmetric] g1_def [symmetric] Let_def incomplete_tasks_def)
    have lv: "verify_receipt_chain H (ru_chain ru)" "l = (if ru_chain ru = [] then None else Some (last (ru_chain ru)))"
      using ok(1) by (auto simp: last_verified_def result_simps)
    show ?thesis using res lv s(1,2) id spec g1k dead by (auto simp: incomplete_tasks_def)
  qed
qed

theorem failover_resumes_verified_run_witness:
  "\<exists>g' j' ru' rep. failover (\<lambda>_. ''h'') exact_env (\<lambda>_. 100) 60 example_registry []
      \<lparr>ru_id = ''r'', ru_station = ''a'', ru_tasks = [\<lparr>tr_id = ''1'', tr_status = ''done'', tr_worker = Some ''w'', tr_receipt = None\<rparr>,
         \<lparr>tr_id = ''2'', tr_status = ''running'', tr_worker = Some ''w'', tr_receipt = None\<rparr>,
         \<lparr>tr_id = ''3'', tr_status = ''pending'', tr_worker = None, tr_receipt = None\<rparr>], ru_chain = []\<rparr> ''a'' = ((g', j', ru'), Inr rep)
     \<and> (\<exists>s\<in>set (active_stations g'). st_id s \<noteq> ''a'' \<and> ru_station ru' = st_id s) \<and> length j' = 1"
proof -
  let ?ru = "\<lparr>ru_id = ''r'', ru_station = ''a'', ru_tasks = [\<lparr>tr_id = ''1'', tr_status = ''done'', tr_worker = Some ''w'', tr_receipt = None\<rparr>,
         \<lparr>tr_id = ''2'', tr_status = ''running'', tr_worker = Some ''w'', tr_receipt = None\<rparr>,
         \<lparr>tr_id = ''3'', tr_status = ''pending'', tr_worker = None, tr_receipt = None\<rparr>], ru_chain = []\<rparr>"
  have ok: "is_ok (snd (failover (\<lambda>_. ''h'') exact_env (\<lambda>_. 100) 60 example_registry [] ?ru ''a''))" by code_simp
  obtain g' j' ru' out where r: "failover (\<lambda>_. ''h'') exact_env (\<lambda>_. 100) 60 example_registry [] ?ru ''a'' = ((g', j', ru'), out)"
    by (metis surj_pair)
  with ok obtain rep where out: "out = Inr rep" by (cases out) (auto simp: is_ok_def)
  have w: "list_all (\<lambda>(k, st). st_workers st \<noteq> []) (sr_stations example_registry)" by (simp add: example_registry_def)
  show ?thesis using failover_resumes_verified_run [OF wf_example_registry w r] r out by auto
qed

text \<open>A task whose identifier is blank is marked as done although no receipt can be written for it.\<close>

lemma blank_task_done_without_receipt:
  "case complete_task (\<lambda>_. ''h'') \<lparr>ru_id = ''r'', ru_station = ''a'',
       ru_tasks = [\<lparr>tr_id = '' '', tr_status = ''running'', tr_worker = None, tr_receipt = None\<rparr>], ru_chain = []\<rparr> '' '' ''w'' ''p'' of
     (ru', out) \<Rightarrow> \<not> is_ok out \<and> incomplete_tasks ru' = [] \<and> ru_chain ru' = []"
  by code_simp

end
