(* ===== verification/Hadr_Degraded.thy ===== *)
theory Hadr_Degraded
  imports Hadr_Cluster
begin

text \<open>
  A station that keeps working while the cluster is unreachable, \<open>src/residual/hadr/degraded.py\<close>.

  \<^item> The local model is a callable the caller supplies; it is the parameter \<open>model\<close>, which may raise.
  \<^item> The shared chain is an object other stations append to as well; it is an argument and a result.
  \<^item> Shown: synchronisation empties the queue, only appends to the shared chain, keeps it verifiable and
    leaves for every queued receipt either the receipt itself or a result of the same task that is not
    larger.
\<close>

record resolution =
  rv_receipt :: string
  rv_kept :: string
  rv_rule :: string

record degraded_station =
  ds_id :: string
  ds_queue :: "chain_receipt list"
  ds_chain :: receipt_chain

definition connected :: "station_registry \<Rightarrow> degraded_station \<Rightarrow> bool result" where
  "connected g s = is_reachable g (ds_id s)"

definition publish :: "(string \<Rightarrow> string) \<Rightarrow> receipt_chain \<Rightarrow> chain_receipt \<Rightarrow> receipt_chain result" where
  "publish H shared r = bind_r (chain_append H shared (cr_task r) (cr_payload r)) (\<lambda>(c, _). Inr c)"

definition operate ::
  "(string \<Rightarrow> string) \<Rightarrow> (string \<Rightarrow> string result) \<Rightarrow> station_registry \<Rightarrow> degraded_station \<Rightarrow> receipt_chain \<Rightarrow> string \<Rightarrow> string
     \<Rightarrow> (degraded_station \<times> receipt_chain) \<times> chain_receipt result" where
  "operate H model g s shared task work =
     (case bind_r (ensure (\<not> blank work) (ContractError ''work input is required'')) (\<lambda>_.
           bind_r (model work) (\<lambda>output. chain_append H (ds_chain s) task output)) of
        Inl e \<Rightarrow> ((s, shared), Inl e)
      | Inr (c, r) \<Rightarrow>
          (let s' = s\<lparr>ds_chain := c\<rparr> in
           case connected g s' of
             Inl e \<Rightarrow> ((s', shared), Inl e)
           | Inr False \<Rightarrow> ((s'\<lparr>ds_queue := ds_queue s' @ [r]\<rparr>, shared), Inr r)
           | Inr True \<Rightarrow>
               (case publish H shared r of
                  Inl e \<Rightarrow> ((s', shared), Inl e)
                | Inr shared' \<Rightarrow> ((s', shared'), Inr r))))"

fun merge_scan :: "(string \<Rightarrow> string) \<Rightarrow> receipt_chain \<Rightarrow> chain_receipt \<Rightarrow> receipt_chain \<Rightarrow> (receipt_chain \<times> resolution option) result" where
  "merge_scan H shared r [] = bind_r (publish H shared r) (\<lambda>c. Inr (c, None))"
| "merge_scan H shared r (e # es) =
     (if cr_id e = cr_id r then Inr (shared, None)
      else if cr_task e = cr_task r \<and> cr_payload e \<noteq> cr_payload r then
        (if cr_payload r < cr_payload e
         then bind_r (publish H shared r) (\<lambda>c.
           Inr (c, Some \<lparr>rv_receipt = cr_id r, rv_kept = ''local'', rv_rule = ''smaller-payload-supersedes''\<rparr>))
         else Inr (shared, Some \<lparr>rv_receipt = cr_id r, rv_kept = ''remote'', rv_rule = ''authoritative-copy-retained''\<rparr>))
      else merge_scan H shared r es)"

definition merge :: "(string \<Rightarrow> string) \<Rightarrow> receipt_chain \<Rightarrow> chain_receipt \<Rightarrow> (receipt_chain \<times> resolution option) result" where
  "merge H shared r = merge_scan H shared r shared"

fun sync_each ::
  "(string \<Rightarrow> string) \<Rightarrow> chain_receipt list \<Rightarrow> degraded_station \<Rightarrow> receipt_chain \<Rightarrow> resolution list
     \<Rightarrow> (degraded_station \<times> receipt_chain) \<times> resolution list result" where
  "sync_each H [] s shared out = ((s, shared), Inr out)"
| "sync_each H (r # rs) s shared out =
     (case merge H shared r of
        Inl e \<Rightarrow> ((s, shared), Inl e)
      | Inr (shared', v) \<Rightarrow>
          sync_each H rs (s\<lparr>ds_queue := remove1 r (ds_queue s)\<rparr>) shared'
            (case v of None \<Rightarrow> out | Some x \<Rightarrow> out @ [x]))"

definition sync ::
  "(string \<Rightarrow> string) \<Rightarrow> float_env \<Rightarrow> rat \<Rightarrow> station_registry \<Rightarrow> journal \<Rightarrow> degraded_station \<Rightarrow> receipt_chain
     \<Rightarrow> (degraded_station \<times> receipt_chain \<times> journal) \<times> resolution list result" where
  "sync H env now g j s shared =
     (case bind_r (connected g s) (\<lambda>c. ensure c (ContractError ''cannot sync while the cluster is unavailable'')) of
        Inl e \<Rightarrow> ((s, shared, j), Inl e)
      | Inr _ \<Rightarrow>
          (case sync_each H (ds_queue s) s shared [] of
             ((s', shared'), Inl e) \<Rightarrow> ((s', shared', j), Inl e)
           | ((s', shared'), Inr out) \<Rightarrow>
               (case journal_record H env now j ''degraded-sync''
                   [(''station_id'', JStr (ds_id s')), (''merged'', JInt (int (length out))),
                    (''queue_remaining'', JInt (int (length (ds_queue s'))))] of
                  Inl e \<Rightarrow> ((s', shared', j), Inl e)
                | Inr j' \<Rightarrow> ((s', shared', j'), Inr out))))"

definition pending_count :: "degraded_station \<Rightarrow> nat" where
  "pending_count s = length (ds_queue s)"

section \<open>Merging\<close>

text \<open>What the shared chain holds for a queued receipt once it was merged.\<close>

definition represented :: "receipt_chain \<Rightarrow> chain_receipt \<Rightarrow> bool" where
  "represented c r = (\<exists>e\<in>set c. cr_id e = cr_id r \<or> (cr_task e = cr_task r \<and> cr_payload e \<le> cr_payload r))"

definition extends :: "(string \<Rightarrow> string) \<Rightarrow> receipt_chain \<Rightarrow> receipt_chain \<Rightarrow> bool" where
  "extends H c d = ((\<exists>x. d = c @ x) \<and> (verify_receipt_chain H c \<longrightarrow> verify_receipt_chain H d))"

lemma extends_refl [simp]: "extends H c c"
  by (simp add: extends_def)

lemma extends_trans: "extends H c d \<Longrightarrow> extends H d e \<Longrightarrow> extends H c e"
  by (auto simp: extends_def)

lemma represented_extends: "extends H c d \<Longrightarrow> represented c r \<Longrightarrow> represented d r"
  by (auto simp: extends_def represented_def)

lemma publish_ok:
  assumes "\<not> blank (cr_task r)"
  shows "\<exists>d. publish H c r = Inr d \<and> extends H c d \<and> represented d r"
  using assms new_receipt_verifies [of H c]
  by (auto simp: publish_def chain_append_def Let_def extends_def represented_def)

lemma merge_scan_ok:
  assumes "\<not> blank (cr_task r)" and "set es \<subseteq> set c"
  shows "\<exists>d v. merge_scan H c r es = Inr (d, v) \<and> extends H c d \<and> represented d r"
  using assms(2)
proof (induction es)
  case Nil
  then show ?case using publish_ok [OF assms(1), of H c] by auto
next
  case (Cons e es)
  obtain d where d: "publish H c r = Inr d" "extends H c d" "represented d r" using publish_ok [OF assms(1)] by blast
  show ?case
  proof (cases "cr_id e = cr_id r \<or> cr_task e = cr_task r \<and> cr_payload e \<noteq> cr_payload r")
    case True
    then show ?thesis using Cons.prems d by (auto simp: represented_def not_less)
  next
    case False
    then show ?thesis using Cons by auto
  qed
qed

lemma sync_each_ok:
  assumes "list_all (\<lambda>r. \<not> blank (cr_task r)) rs" and "ds_queue s = rs"
  shows "\<exists>d out'. sync_each H rs s c out = ((s\<lparr>ds_queue := []\<rparr>, d), Inr out') \<and> extends H c d \<and> (\<forall>r\<in>set rs. represented d r)"
  using assms
proof (induction rs arbitrary: s c out)
  case Nil
  then show ?case by simp
next
  case (Cons r rs)
  obtain d v where d: "merge H c r = Inr (d, v)" "extends H c d" "represented d r"
    using merge_scan_ok [of r c c H] Cons.prems by (auto simp: merge_def)
  let ?s = "s\<lparr>ds_queue := remove1 r (ds_queue s)\<rparr>" and ?out = "case v of None \<Rightarrow> out | Some x \<Rightarrow> out @ [x]"
  obtain e out' where e: "sync_each H rs ?s d ?out = ((?s\<lparr>ds_queue := []\<rparr>, e), Inr out')" "extends H d e" "\<forall>r\<in>set rs. represented e r"
    using Cons.IH [of ?s d ?out] Cons.prems by auto
  then show ?case using d represented_extends [OF e(2) d(3)] extends_trans [OF d(2) e(2)] by simp
qed

text \<open>Synchronisation after a disconnection. For a reachable station whose queued receipts name a task, the call
  succeeds with an empty queue, only appends to the shared chain, which verifies if it did before, and afterwards
  the shared chain holds for every queued receipt that receipt or an entry of the same task whose payload is not
  larger. For an unreachable station it raises and changes nothing.\<close>

theorem sync_merges_every_receipt:
  assumes "is_reachable g (ds_id s) = Inr c" and "list_all (\<lambda>r. \<not> blank (cr_task r)) (ds_queue s)"
    and "sync H env now g j s shared = ((s', shared', j'), out)"
  shows "if c then (\<exists>vs. out = Inr vs) \<and> ds_queue s' = [] \<and> ds_chain s' = ds_chain s \<and> extends H shared shared'
      \<and> (\<forall>r\<in>set (ds_queue s). represented shared' r) \<and> (verify_journal H env j = Inr True \<longrightarrow> verify_journal H env j' = Inr True)
    else s' = s \<and> shared' = shared \<and> j' = j \<and> out = Inl (ContractError ''cannot sync while the cluster is unavailable'')"
proof (cases c)
  case False
  then show ?thesis using assms(1,3) by (simp add: sync_def connected_def)
next
  case True
  obtain d vs where d: "sync_each H (ds_queue s) s shared [] = ((s\<lparr>ds_queue := []\<rparr>, d), Inr vs)" "extends H shared d"
      "\<forall>r\<in>set (ds_queue s). represented d r"
    using sync_each_ok [OF assms(2) refl] by blast
  let ?details = "[(''station_id'', JStr (ds_id s)), (''merged'', JInt (int (length vs))), (''queue_remaining'', JInt 0)]"
  obtain e where e: "journal_record H env now j ''degraded-sync'' ?details = Inr (j @ [e])"
    using journal_record_total [of "''degraded-sync''" ?details H env now j] by (auto simp: EVENT_KINDS_def)
  show ?thesis
    using assms(1,3) True d e journal_record_verifies [OF _ e] by (auto simp: sync_def connected_def)
qed

theorem sync_merges_every_receipt_witness:
  "let r = \<lparr>cr_id = ''i'', cr_sequence = 0, cr_task = ''t'', cr_payload = ''p'', cr_prev = ''z''\<rparr>;
       res = sync (\<lambda>_. ''h'') exact_env 0 example_registry [] \<lparr>ds_id = ''a'', ds_queue = [r], ds_chain = [r]\<rparr> [] in
   ds_queue (fst (fst res)) = [] \<and> represented (fst (snd (fst res))) r"
proof -
  let ?r = "\<lparr>cr_id = ''i'', cr_sequence = 0, cr_task = ''t'', cr_payload = ''p'', cr_prev = ''z''\<rparr>"
  let ?s = "\<lparr>ds_id = ''a'', ds_queue = [?r], ds_chain = [?r]\<rparr>"
  have reach: "is_reachable example_registry (ds_id ?s) = Inr True"
    by (simp add: is_reachable_def get_station_def example_registry_def)
  have nb: "list_all (\<lambda>r. \<not> blank (cr_task r)) (ds_queue ?s)" by (simp add: ascii_space_def less_eq_char_def)
  obtain s' shared' j' out where r: "sync (\<lambda>_. ''h'') exact_env 0 example_registry [] ?s [] = ((s', shared', j'), out)"
    by (metis surj_pair)
  show ?thesis using sync_merges_every_receipt [OF reach nb r] r by simp
qed

text \<open>Receipt identifiers hash the position in the chain, so an entry another station published for the same task
  with the same result is not recognised and is appended again.\<close>

lemma equal_result_appended_again:
  assumes "\<not> blank (cr_task r)" and "cr_task e = cr_task r" and "cr_payload e = cr_payload r" and "cr_id e \<noteq> cr_id r"
  shows "merge H [e] r = Inr ([e] @ [new_receipt H [e] (cr_task r) (cr_payload r)], None)"
  using assms by (simp add: merge_def publish_def chain_append_def Let_def)

end
