(* ===== verification/Builtin_Checks.thy ===== *)
theory Builtin_Checks
  imports Core Json_Roundtrip Py_Number
begin

text \<open>
  The checks and solvers every harness starts with, \<open>json_pointer\<close> and \<open>register_builtins\<close> of
  \<open>src/residual/core.py\<close>: reading a value out of declared evidence, summing it, counting a dependency, and
  validating a plan by simulation.

  \<^item> The values come from JSON evidence and may have any shape, so every use of a value the source makes
    (\<open>.get\<close>, subscripts, \<open>dict(...)\<close>, comparisons) is modelled with the exception it raises on the wrong shape.
  \<^item> \<open>fsum\<close> is the sum of numbers some of which are floats; a sum of integers is computed.
  \<^item> Shown: the plan check passes exactly the plans that an independent step relation executes from the
    initial state to the goal without meeting a forbidden state; the other checks pass exactly the value
    their solver computes.
\<close>

section \<open>JSON pointers\<close>

fun replace2 :: "char \<Rightarrow> char \<Rightarrow> string \<Rightarrow> string \<Rightarrow> string" where
  "replace2 a b new (x # y # s) =
     (if x = a \<and> y = b then new @ replace2 a b new s else x # replace2 a b new (y # s))"
| "replace2 a b new s = s"

definition list_item :: "'a list \<Rightarrow> int \<Rightarrow> 'a result" where
  "list_item xs i =
     (if 0 \<le> i \<and> i < int (length xs) then Inr (xs ! nat i)
      else if i < 0 \<and> - int (length xs) \<le> i then Inr (xs ! nat (int (length xs) + i))
      else Inl (IndexError ''list index out of range''))"

definition subscript :: "json \<Rightarrow> string \<Rightarrow> json result" where
  "subscript data token =
     (case data of
        JArr vs \<Rightarrow> bind_r (int_of_str token) (list_item vs)
      | JObj kvs \<Rightarrow> dict_get kvs token
      | JStr _ \<Rightarrow> Inl (TypeError ''string indices must be integers'')
      | _ \<Rightarrow> Inl (TypeError ''object is not subscriptable''))"

definition unescape_token :: "string \<Rightarrow> string" where
  "unescape_token t = replace2 (CHR ''~'') (CHR ''0'') ''~'' (replace2 (CHR ''~'') (CHR ''1'') ''/'' t)"

definition json_pointer :: "json \<Rightarrow> string \<Rightarrow> json result" where
  "json_pointer data pointer =
     (if pointer = [] then Inr data
      else if hd pointer \<noteq> CHR ''/'' then Inl (ContractError ''JSON pointer must start with /'')
      else fold_r (\<lambda>d t. subscript d (unescape_token t)) data (split_on (CHR ''/'') (tl pointer)))"

section \<open>Computed values\<close>

definition param_dict :: "check_context \<Rightarrow> (string \<times> json) list result" where
  "param_dict ctx = (case parameters (ctx_obligation ctx) of
     JObj kvs \<Rightarrow> Inr kvs | _ \<Rightarrow> Inl (TypeError ''parameters are not a dictionary''))"

definition evidence_of :: "check_context \<Rightarrow> json \<Rightarrow> string result" where
  "evidence_of ctx a = (case a of JStr s \<Rightarrow> ctx_evidence ctx s
     | _ \<Rightarrow> Inl (ContractError ''verifier accessed undeclared evidence''))"

definition extract_value :: "(string \<Rightarrow> json) \<Rightarrow> solver" where
  "extract_value fl ctx =
     bind_r (param_dict ctx) (\<lambda>p.
     bind_r (dict_get p ''artifact'') (\<lambda>a.
     bind_r (evidence_of ctx a) (\<lambda>text.
     bind_r (strict_json fl text) (\<lambda>data.
     case map_of p ''pointer'' of
       None \<Rightarrow> json_pointer data []
     | Some (JStr s) \<Rightarrow> json_pointer data s
     | Some _ \<Rightarrow> Inl (AttributeError ''startswith'')))))"

fun finite_number :: "json \<Rightarrow> bool" where
  "finite_number (JInt i) = True"
| "finite_number (JFloat r) = True"
| "finite_number _ = False"

fun int_values :: "json list \<Rightarrow> int list option" where
  "int_values [] = Some []"
| "int_values (JInt i # vs) = map_option ((#) i) (int_values vs)"
| "int_values (_ # vs) = None"

definition sum_values :: "(string \<Rightarrow> json) \<Rightarrow> (json list \<Rightarrow> json) \<Rightarrow> solver" where
  "sum_values fl fsum ctx =
     bind_r (extract_value fl ctx) (\<lambda>values.
     case values of
       JArr vs \<Rightarrow>
         bind_r (ensure (list_all finite_number vs) (ContractError ''sum requires finite JSON numbers'')) (\<lambda>_.
         Inr (case int_values vs of Some is \<Rightarrow> JInt (sum_list is) | None \<Rightarrow> fsum vs))
     | _ \<Rightarrow> Inl (ContractError ''sum requires finite JSON numbers''))"

definition dependency_count :: "(string \<Rightarrow> json) \<Rightarrow> solver" where
  "dependency_count fl ctx =
     bind_r (param_dict ctx) (\<lambda>p.
     bind_r (dict_get p ''dependency'') (\<lambda>d.
     bind_r (case d of JStr n \<Rightarrow> ctx_dependency fl ctx n
             | _ \<Rightarrow> Inl (ContractError ''verifier accessed undeclared dependency'')) (\<lambda>value.
     case value of
       JArr vs \<Rightarrow> Inr (JInt (int (length vs)))
     | JObj kvs \<Rightarrow> Inr (JInt (int (length kvs)))
     | JStr s \<Rightarrow> Inr (JInt (int (char_count s)))
     | _ \<Rightarrow> Inl (ContractError ''dependency_count requires a collection''))))"

definition same_as :: "solver \<Rightarrow> check" where
  "same_as compute value ctx =
     bind_r (canonical value) (\<lambda>a.
     bind_r (compute ctx) (\<lambda>v.
     bind_r (canonical v) (\<lambda>b.
     Inr (Some (if a = b then passed
       else fail ''value_mismatch'' ''Recompute the requested value from the declared evidence.'')))))"

section \<open>Plans\<close>

text \<open>\<open>dict(x)\<close> and \<open>d.update(x)\<close>: from a mapping, or from an iterable of pairs. A key that is no text is
  dropped here, since the patterns a state is matched with have text keys only.\<close>

definition pair_of :: "json \<Rightarrow> (json \<times> json) result" where
  "pair_of e = (case e of
     JArr [k, v] \<Rightarrow> Inr (k, v)
   | JArr _ \<Rightarrow> Inl (ValueError ''dictionary update sequence element has the wrong length'')
   | JObj [(k, _), (l, _)] \<Rightarrow> Inr (JStr k, JStr l)
   | JObj _ \<Rightarrow> Inl (ValueError ''dictionary update sequence element has the wrong length'')
   | JStr s \<Rightarrow> if char_count s = 2 then Inr (JStr (take_chars 1 s), JStr (drop (length (take_chars 1 s)) s))
       else Inl (ValueError ''dictionary update sequence element has the wrong length'')
   | _ \<Rightarrow> Inl (TypeError ''cannot convert dictionary update sequence element to a sequence''))"

definition store_pair :: "(string, json) dict \<Rightarrow> json \<Rightarrow> (string, json) dict result" where
  "store_pair d e = bind_r (pair_of e) (\<lambda>(k, v). case k of
     JStr s \<Rightarrow> Inr (AList.update s v d)
   | JArr _ \<Rightarrow> Inl (TypeError ''unhashable type'')
   | JObj _ \<Rightarrow> Inl (TypeError ''unhashable type'')
   | _ \<Rightarrow> Inr d)"

definition update_from :: "(string, json) dict \<Rightarrow> json \<Rightarrow> (string, json) dict result" where
  "update_from d x = (case x of
     JObj kvs \<Rightarrow> Inr (fold (\<lambda>(k, v). AList.update k v) kvs d)
   | JArr es \<Rightarrow> fold_r store_pair d es
   | JStr s \<Rightarrow> if s = [] then Inr d else Inl (ValueError ''dictionary update sequence element has the wrong length'')
   | _ \<Rightarrow> Inl (TypeError ''object is not iterable''))"

fun match_items :: "(string, json) dict \<Rightarrow> (string \<times> json) list \<Rightarrow> bool result" where
  "match_items state [] = Inr True"
| "match_items state ((k, v) # ps) =
     (case map_of state k of
        None \<Rightarrow> Inr False
      | Some w \<Rightarrow> bind_r (canonical w) (\<lambda>a. bind_r (canonical v) (\<lambda>b. if a = b then match_items state ps else Inr False)))"

definition matches :: "(string, json) dict \<Rightarrow> json \<Rightarrow> bool result" where
  "matches state pat = (case pat of JObj kvs \<Rightarrow> match_items state kvs | _ \<Rightarrow> Inl (AttributeError ''items''))"

fun any_matches :: "(string, json) dict \<Rightarrow> json list \<Rightarrow> bool result" where
  "any_matches state [] = Inr False"
| "any_matches state (p # ps) = bind_r (matches state p) (\<lambda>b. if b then Inr True else any_matches state ps)"

definition forbidden_now :: "(string, json) dict \<Rightarrow> json \<Rightarrow> bool result" where
  "forbidden_now state pats = (case pats of
     JArr ps \<Rightarrow> any_matches state ps
   | JObj kvs \<Rightarrow> any_matches state (map (\<lambda>(k, v). JStr k) kvs)
   | JStr s \<Rightarrow> if s = [] then Inr False else Inl (AttributeError ''items'')
   | _ \<Rightarrow> Inl (TypeError ''object is not iterable''))"

definition get_or :: "(string \<times> json) list \<Rightarrow> string \<Rightarrow> json \<Rightarrow> json" where
  "get_or kvs k d = (case map_of kvs k of None \<Rightarrow> d | Some v \<Rightarrow> v)"

definition step_text :: "nat \<Rightarrow> string \<Rightarrow> string" where
  "step_text i rest = ''Step '' @ nat_str (Suc i) @ rest"

fun simulate ::
  "(string, json) dict \<Rightarrow> json \<Rightarrow> nat \<Rightarrow> (string, json) dict \<Rightarrow> string list \<Rightarrow> ((string, json) dict + verdict) result" where
  "simulate actions forbidden i state [] = Inr (Inl state)"
| "simulate actions forbidden i state (a # as) =
     (case map_of actions a of
        None \<Rightarrow> Inr (Inr (fail ''unknown_action'' (step_text i '' references an action absent from the declared action map.'')))
      | Some (JObj action) \<Rightarrow>
          bind_r (matches state (get_or action ''requires'' (JObj []))) (\<lambda>ok.
          if \<not> ok then Inr (Inr (fail ''precondition_failed''
            (step_text i '' has an unsatisfied precondition. Revise the action ordering.'')))
          else
            bind_r (update_from state (get_or action ''sets'' (JObj []))) (\<lambda>state'.
            bind_r (forbidden_now state' forbidden) (\<lambda>bad.
            if bad then Inr (Inr (fail ''forbidden_state'' (step_text i '' enters a forbidden state.'')))
            else simulate actions forbidden (Suc i) state' as)))
      | Some _ \<Rightarrow> Inl (AttributeError ''get''))"

text \<open>\<open>0 < n <= bound\<close>, where the bound comes from the evidence.\<close>

definition length_within :: "(string \<Rightarrow> rat) \<Rightarrow> nat \<Rightarrow> json \<Rightarrow> bool result" where
  "length_within fv n bound =
     (if n = 0 then Inr False
      else case (case bound of JBool b \<Rightarrow> Some (Finite (if b then 1 else 0)) | _ \<Rightarrow> json_num fv bound) of
        None \<Rightarrow> Inl (TypeError ''<= not supported'')
      | Some x \<Rightarrow> Inr (num_le (Finite (of_nat n)) x))"

fun plan_ids :: "json \<Rightarrow> string list option" where
  "plan_ids (JArr vs) = (if list_all is_str vs then Some (map (\<lambda>v. case v of JStr s \<Rightarrow> s | _ \<Rightarrow> []) vs) else None)"
| "plan_ids _ = None"

definition transition_plan :: "(string \<Rightarrow> json) \<Rightarrow> (string \<Rightarrow> rat) \<Rightarrow> json \<Rightarrow> check_context \<Rightarrow> verdict result" where
  "transition_plan fl fv value ctx =
     bind_r (extract_value fl ctx) (\<lambda>spec.
     case plan_ids value of
       None \<Rightarrow> Inr (fail ''plan_type'' ''Return a JSON array of action IDs in execution order.'')
     | Some ids \<Rightarrow>
       (case spec of
          JObj kvs \<Rightarrow>
            bind_r (length_within fv (length ids) (get_or kvs ''max_steps'' (JInt 32))) (\<lambda>ok.
            if \<not> ok then Inr (fail ''plan_length'' ''The plan must have between one and max_steps actions.'')
            else
              bind_r (dict_get kvs ''initial'') (\<lambda>initial.
              bind_r (update_from [] initial) (\<lambda>state.
              bind_r (dict_get kvs ''actions'') (\<lambda>actions.
              bind_r (dict_get kvs ''goal'') (\<lambda>goal.
              case (actions, goal) of
                (JObj acts, JObj (g # gs)) \<Rightarrow>
                  (let forbidden = get_or kvs ''forbidden'' (JArr []) in
                   bind_r (forbidden_now state forbidden) (\<lambda>bad.
                   if bad then Inr \<lparr>v_status = Unknown, v_code = ''initial_state_forbidden'', v_message = ''The task begins in a forbidden state.''\<rparr>
                   else
                     bind_r (simulate acts forbidden 0 state ids) (\<lambda>res.
                     case res of
                       Inr vd \<Rightarrow> Inr vd
                     | Inl final \<Rightarrow>
                         bind_r (matches final goal) (\<lambda>reached.
                         Inr (if reached then passed
                           else fail ''goal_unsatisfied'' ''The simulated final state does not satisfy the goal.'')))))
              | _ \<Rightarrow> Inl (ContractError ''plan requires action definitions and a nonempty goal''))))))
        | _ \<Rightarrow> Inl (AttributeError ''get'')))"

definition register_builtins ::
  "(string \<Rightarrow> json) \<Rightarrow> (string \<Rightarrow> rat) \<Rightarrow> (json list \<Rightarrow> json) \<Rightarrow> string \<Rightarrow> registry \<Rightarrow> registry result" where
  "register_builtins fl fv fsum identity reg =
     bind_r (register_check reg ''json_value'' (same_as (extract_value fl)) ''1'' (Some identity) Mechanical) (\<lambda>reg.
     bind_r (register_check reg ''json_sum'' (same_as (sum_values fl fsum)) ''1'' (Some identity) Mechanical) (\<lambda>reg.
     bind_r (register_solver reg ''json_value'' (extract_value fl)) (\<lambda>reg.
     bind_r (register_solver reg ''json_sum'' (sum_values fl fsum)) (\<lambda>reg.
     bind_r (register_check reg ''transition_plan'' (\<lambda>v ctx. bind_r (transition_plan fl fv v ctx) (\<lambda>vd. Inr (Some vd)))
       ''1'' None Mechanical) (\<lambda>reg.
     bind_r (register_check reg ''dependency_count'' (same_as (dependency_count fl)) ''1'' None Mechanical) (\<lambda>reg.
     register_solver reg ''dependency_count'' (dependency_count fl)))))))"

section \<open>The meaning of a plan\<close>

text \<open>A plan problem as the evidence describes it, the reading of such evidence, and the steps of a plan on
  states that are maps. Values are compared as JSON texts.\<close>

record plan_problem =
  pp_initial :: "(string \<times> json) list"
  pp_actions :: "(string \<times> ((string \<times> json) list \<times> (string \<times> json) list)) list"
  pp_forbidden :: "(string \<times> json) list list"
  pp_goal :: "(string \<times> json) list"
  pp_max :: int

fun decode_object :: "json \<Rightarrow> (string \<times> json) list option" where
  "decode_object (JObj kvs) = Some kvs"
| "decode_object _ = None"

definition decode_action :: "json \<Rightarrow> ((string \<times> json) list \<times> (string \<times> json) list) option" where
  "decode_action a = (case a of
     JObj act \<Rightarrow> (case (get_or act ''requires'' (JObj []), get_or act ''sets'' (JObj [])) of
       (JObj r, JObj s) \<Rightarrow> Some (r, s) | _ \<Rightarrow> None)
   | _ \<Rightarrow> None)"

fun decode_actions :: "(string \<times> json) list \<Rightarrow> (string \<times> ((string \<times> json) list \<times> (string \<times> json) list)) list option" where
  "decode_actions [] = Some []"
| "decode_actions ((k, a) # acts) =
     (case (decode_action a, decode_actions acts) of (Some d, Some ds) \<Rightarrow> Some ((k, d) # ds) | _ \<Rightarrow> None)"

definition decode_plan :: "(string \<times> json) list \<Rightarrow> plan_problem option" where
  "decode_plan kvs = (case (map_of kvs ''initial'', map_of kvs ''actions'', map_of kvs ''goal'',
       get_or kvs ''forbidden'' (JArr []), get_or kvs ''max_steps'' (JInt 32)) of
     (Some (JObj i), Some (JObj acts), Some (JObj (g # gs)), JArr fs, JInt m) \<Rightarrow>
       (case (decode_actions acts, those (map decode_object fs)) of
          (Some as, Some ps) \<Rightarrow> Some \<lparr>pp_initial = i, pp_actions = as, pp_forbidden = ps, pp_goal = g # gs, pp_max = m\<rparr>
        | _ \<Rightarrow> None)
   | _ \<Rightarrow> None)"

definition holds :: "(string \<rightharpoonup> json) \<Rightarrow> (string \<times> json) list \<Rightarrow> bool" where
  "holds s pat = (\<forall>(k, v)\<in>set pat. \<exists>w. s k = Some w \<and> dumps w = dumps v)"

definition is_forbidden :: "plan_problem \<Rightarrow> (string \<rightharpoonup> json) \<Rightarrow> bool" where
  "is_forbidden P s = (\<exists>p\<in>set (pp_forbidden P). holds s p)"

inductive plan_exec :: "plan_problem \<Rightarrow> (string \<rightharpoonup> json) \<Rightarrow> string list \<Rightarrow> (string \<rightharpoonup> json) \<Rightarrow> bool" for P where
  finished: "plan_exec P s [] s"
| act: "map_of (pp_actions P) a = Some (req, sets) \<Longrightarrow> holds s req \<Longrightarrow> s' = s ++ map_of sets \<Longrightarrow>
    \<not> is_forbidden P s' \<Longrightarrow> plan_exec P s' as t \<Longrightarrow> plan_exec P s (a # as) t"

inductive_simps plan_exec_Nil [simp]: "plan_exec P s [] t"
inductive_simps plan_exec_Cons: "plan_exec P s (a # as) t"

section \<open>Values read from evidence\<close>

lemma distinct_keys_nth: "distinct_keys (JArr vs) \<Longrightarrow> v \<in> set vs \<Longrightarrow> distinct_keys v"
  by (auto simp: list_all_iff)

lemma distinct_keys_member: "distinct_keys (JObj kvs) \<Longrightarrow> map_of kvs k = Some v \<Longrightarrow> distinct_keys v"
  by (auto simp: list_all_iff dest: map_of_SomeD)

lemma list_item_mem: "list_item xs i = Inr x \<Longrightarrow> x \<in> set xs"
  by (auto simp: list_item_def split: if_splits)

lemma subscript_distinct: "distinct_keys d \<Longrightarrow> subscript d t = Inr v \<Longrightarrow> distinct_keys v"
  by (cases d) (auto simp: subscript_def result_simps intro: distinct_keys_nth distinct_keys_member dest!: list_item_mem)

lemma json_pointer_distinct:
  assumes "distinct_keys d" and "json_pointer d p = Inr v"
  shows "distinct_keys v"
proof (cases "p = []")
  case True
  then show ?thesis using assms by (simp add: json_pointer_def)
next
  case False
  then have "fold_r (\<lambda>d t. subscript d (unescape_token t)) d (split_on (CHR ''/'') (tl p)) = Inr v"
    using assms(2) by (auto simp: json_pointer_def split: if_splits)
  then show ?thesis by (rule fold_r_invariant) (use assms(1) subscript_distinct in auto)
qed

lemma extract_distinct:
  assumes "float_reader fl" and "extract_value fl ctx = Inr v"
  shows "distinct_keys v"
proof -
  obtain p t data where d: "strict_json fl t = Inr data"
    and c: "(case map_of p ''pointer'' of None \<Rightarrow> json_pointer data [] | Some (JStr s) \<Rightarrow> json_pointer data s
      | Some _ \<Rightarrow> Inl (AttributeError ''startswith'')) = Inr v"
    using assms(2) unfolding extract_value_def by (simp only: result_simps) blast
  obtain s where p: "json_pointer data s = Inr v"
    using c by (cases "map_of p ''pointer''") (auto split: json.splits)
  have "distinct_keys data" using strict_json_distinct [OF float_reader_cases [OF assms(1)] d] .
  then show ?thesis using json_pointer_distinct p by blast
qed

section \<open>Simulation and meaning\<close>

definition finite_state :: "(string, json) dict \<Rightarrow> bool" where
  "finite_state st = (\<forall>k w. map_of st k = Some w \<longrightarrow> finite_json w)"

lemma match_items_holds:
  assumes "finite_state st" and "finite_json (JObj ps)"
  shows "match_items st ps = Inr (holds (map_of st) ps)"
  using assms(2)
proof (induction ps)
  case Nil
  then show ?case by (simp add: holds_def)
next
  case (Cons p ps)
  obtain k v where p: "p = (k, v)" by (cases p)
  show ?case
  proof (cases "map_of st k")
    case None
    then show ?thesis using p by (auto simp: holds_def)
  next
    case (Some w)
    then have "finite_json w" using assms(1) by (auto simp: finite_state_def)
    then show ?thesis using Cons p Some by (auto simp: canonical_def holds_def)
  qed
qed

lemma any_matches_holds:
  assumes "finite_state st" and "those (map decode_object fs) = Some ps" and "finite_json (JArr fs)"
  shows "any_matches st fs = Inr (\<exists>p\<in>set ps. holds (map_of st) p)"
  using assms(2,3)
proof (induction fs arbitrary: ps)
  case Nil
  then show ?case by simp
next
  case (Cons f fs)
  obtain p qs where "f = JObj p" "ps = p # qs" "those (map decode_object fs) = Some qs"
    using Cons.prems(1) by (cases f) (auto split: option.splits)
  then show ?case using Cons match_items_holds [OF assms(1), of p] by (auto simp: matches_def)
qed

lemma decode_actions_lookup:
  assumes "decode_actions acts = Some ds"
  shows "map_of ds k = Option.bind (map_of acts k) decode_action"
    and "map_of acts k = Some a \<Longrightarrow> \<exists>d. decode_action a = Some d"
  using assms by (induction acts arbitrary: ds) (auto split: option.splits if_splits)

lemma decode_action_Some:
  assumes "decode_action a = Some (r, s)"
  shows "\<exists>act. a = JObj act \<and> get_or act ''requires'' (JObj []) = JObj r \<and> get_or act ''sets'' (JObj []) = JObj s"
  using assms by (auto simp: decode_action_def split: json.splits)

lemma map_of_fold_update:
  assumes "distinct (map fst kvs)"
  shows "map_of (fold (\<lambda>(k, v). AList.update k v) kvs st) = map_of st ++ map_of kvs"
proof
  fix x
  show "map_of (fold (\<lambda>(k, v). AList.update k v) kvs st) x = (map_of st ++ map_of kvs) x"
    using assms
  proof (induction kvs arbitrary: st)
    case (Cons p kvs)
    then have "map_of kvs (fst p) = None" by (simp add: map_of_eq_None_iff)
    with Cons show ?case by (cases p) (auto simp: map_add_def split: option.splits)
  qed simp
qed

lemma finite_state_update:
  assumes "finite_state st" and "finite_json (JObj kvs)" and "distinct (map fst kvs)"
  shows "finite_state (fold (\<lambda>(k, v). AList.update k v) kvs st)"
  using assms
  by (auto simp: finite_state_def map_of_fold_update list_all_iff map_add_def split: option.splits dest!: map_of_SomeD)

lemma empty_obj: "finite_json (JObj [])" "distinct_keys (JObj [])"
  by simp_all

lemma finite_get_or: "finite_json (JObj kvs) \<Longrightarrow> finite_json d \<Longrightarrow> finite_json (get_or kvs k d)"
  by (auto simp: get_or_def list_all_iff split: option.splits dest!: map_of_SomeD)

lemma distinct_get_or: "distinct_keys (JObj kvs) \<Longrightarrow> distinct_keys d \<Longrightarrow> distinct_keys (get_or kvs k d)"
  by (auto simp: get_or_def list_all_iff split: option.splits dest!: map_of_SomeD)

lemma finite_member: "finite_json (JObj kvs) \<Longrightarrow> map_of kvs k = Some v \<Longrightarrow> finite_json v"
  by (auto simp: list_all_iff dest!: map_of_SomeD)

text \<open>A simulation either reaches the state the step relation reaches, or gives a failing verdict where the
  relation has no step.\<close>

lemma simulate_exec:
  assumes acts: "decode_actions acts = Some (pp_actions P)" "finite_json (JObj acts)" "distinct_keys (JObj acts)"
    and forb: "those (map decode_object fs) = Some (pp_forbidden P)" "finite_json (JArr fs)"
    and st: "finite_state st"
  shows "(\<exists>st'. simulate acts (JArr fs) i st as = Inr (Inl st') \<and> finite_state st' \<and> (\<forall>t. plan_exec P (map_of st) as t \<longleftrightarrow> t = map_of st'))
    \<or> (\<exists>vd. simulate acts (JArr fs) i st as = Inr (Inr vd) \<and> v_status vd = Fail \<and> (\<forall>t. \<not> plan_exec P (map_of st) as t))"
  using st
proof (induction as arbitrary: i st)
  case Nil
  then show ?case by auto
next
  case (Cons a as)
  show ?case
  proof (cases "map_of acts a")
    case None
    then have "map_of (pp_actions P) a = None" using decode_actions_lookup(1) [OF acts(1)] by simp
    then show ?thesis using None by (auto simp: plan_exec_Cons fail_def)
  next
    case (Some x)
    obtain req sets where dec: "decode_action x = Some (req, sets)"
      using decode_actions_lookup(2) [OF acts(1) Some] by auto
    then have look: "map_of (pp_actions P) a = Some (req, sets)" using decode_actions_lookup(1) [OF acts(1), of a] Some by simp
    obtain act where act: "x = JObj act" "get_or act ''requires'' (JObj []) = JObj req" "get_or act ''sets'' (JObj []) = JObj sets"
      using decode_action_Some [OF dec] by blast
    have "finite_json (JObj act)" "distinct_keys (JObj act)"
      using finite_member [OF acts(2) Some] distinct_keys_member [OF acts(3) Some] act(1) by auto
    then have "finite_json (JObj req)" "finite_json (JObj sets)" "distinct_keys (JObj sets)"
      using finite_get_or [of act "JObj []"] distinct_get_or [of act "JObj []"] act(2,3) by (metis empty_obj)+
    then have fin: "finite_json (JObj req)" "finite_json (JObj sets)" "distinct (map fst sets)" by auto
    let ?st = "fold (\<lambda>(k, v). AList.update k v) sets st"
    have m: "matches st (JObj req) = Inr (holds (map_of st) req)"
      using match_items_holds [OF Cons.prems fin(1)] by (simp add: matches_def)
    have st': "map_of ?st = map_of st ++ map_of sets" "finite_state ?st"
      using map_of_fold_update [OF fin(3)] finite_state_update [OF Cons.prems fin(2,3)] by auto
    have fb: "forbidden_now ?st (JArr fs) = Inr (is_forbidden P (map_of ?st))"
      using any_matches_holds [OF st'(2) forb] by (simp add: forbidden_now_def is_forbidden_def)
    have exec: "plan_exec P (map_of st) (a # as) t \<longleftrightarrow>
        holds (map_of st) req \<and> \<not> is_forbidden P (map_of ?st) \<and> plan_exec P (map_of ?st) as t" for t
      using look by (auto simp: plan_exec_Cons st'(1))
    show ?thesis
    proof (cases "holds (map_of st) req \<and> \<not> is_forbidden P (map_of ?st)")
      case True
      then show ?thesis using Cons.IH [OF st'(2), of "Suc i"] Some act m fb exec by (simp add: update_from_def)
    next
      case False
      then show ?thesis using Some act m fb exec by (auto simp: update_from_def fail_def)
    qed
  qed
qed

lemma plan_ids_iff: "plan_ids v = Some ids \<longleftrightarrow> v = JArr (map JStr ids)"
proof -
  let ?f = "\<lambda>v. case v of JStr s \<Rightarrow> s | _ \<Rightarrow> []"
  have inv: "map (JStr \<circ> ?f) vs = vs" if "list_all is_str vs" for vs
    using that by (induction vs) (auto elim: is_str.elims)
  have forth: "list_all is_str (map JStr xs)" "map ?f (map JStr xs) = xs" for xs by (induction xs) auto
  show ?thesis
  proof
    assume "plan_ids v = Some ids"
    then obtain vs where "v = JArr vs" "list_all is_str vs" "ids = map ?f vs"
      by (cases v) (auto split: if_splits)
    then show "v = JArr (map JStr ids)" using inv by simp
  next
    assume "v = JArr (map JStr ids)"
    then show "plan_ids v = Some ids" using forth [of ids] by simp
  qed
qed

lemma decode_planD:
  assumes "decode_plan kvs = Some P"
  shows "\<exists>acts fs. map_of kvs ''initial'' = Some (JObj (pp_initial P)) \<and> map_of kvs ''actions'' = Some (JObj acts)
    \<and> map_of kvs ''goal'' = Some (JObj (pp_goal P)) \<and> pp_goal P \<noteq> [] \<and> get_or kvs ''forbidden'' (JArr []) = JArr fs
    \<and> get_or kvs ''max_steps'' (JInt 32) = JInt (pp_max P)
    \<and> decode_actions acts = Some (pp_actions P) \<and> those (map decode_object fs) = Some (pp_forbidden P)"
  using assms unfolding decode_plan_def by (auto split: prod.splits option.splits json.splits list.splits)

lemma fail_not_passed [simp]: "fail c m \<noteq> passed"
  by (simp add: fail_def passed_def)

lemma unknown_not_passed [simp]: "\<lparr>v_status = Unknown, v_code = c, v_message = m\<rparr> \<noteq> passed"
  by (simp add: passed_def)

text \<open>The check on an array of names, in terms of the step relation.\<close>

lemma transition_plan_unfold:
  assumes "float_reader fl" and "extract_value fl ctx = Inr (JObj spec)" and "decode_plan spec = Some P" and "finite_json (JObj spec)"
    and "plan_ids v = Some ids"
  shows "\<exists>r. transition_plan fl fv v ctx =
      (if \<not> (ids \<noteq> [] \<and> int (length ids) \<le> pp_max P)
       then Inr (fail ''plan_length'' ''The plan must have between one and max_steps actions.'')
       else if is_forbidden P (map_of (pp_initial P))
       then Inr \<lparr>v_status = Unknown, v_code = ''initial_state_forbidden'', v_message = ''The task begins in a forbidden state.''\<rparr>
       else Inr r)
    \<and> (r = passed \<longleftrightarrow> (\<exists>t. plan_exec P (map_of (pp_initial P)) ids t \<and> holds t (pp_goal P)))"
proof -
  obtain acts fs where d: "map_of spec ''initial'' = Some (JObj (pp_initial P))" "map_of spec ''actions'' = Some (JObj acts)"
      "map_of spec ''goal'' = Some (JObj (pp_goal P))" "pp_goal P \<noteq> []" "get_or spec ''forbidden'' (JArr []) = JArr fs"
      "get_or spec ''max_steps'' (JInt 32) = JInt (pp_max P)"
      and acts: "decode_actions acts = Some (pp_actions P)" and fs: "those (map decode_object fs) = Some (pp_forbidden P)"
    using decode_planD [OF assms(3)] by blast
  have dk: "distinct_keys (JObj spec)" using extract_distinct [OF assms(1,2)] .
  note fin = finite_member [OF assms(4)] and dis = distinct_keys_member [OF dk]
  let ?st = "fold (\<lambda>(k, v). AList.update k v) (pp_initial P) []"
  have init: "distinct (map fst (pp_initial P))" using dis [OF d(1)] by simp
  have st: "map_of ?st = map_of (pp_initial P)" "finite_state ?st"
    using map_of_fold_update [OF init, of "[]"] finite_state_update [of "[]", OF _ fin [OF d(1)] init] by (auto simp: finite_state_def)
  have ffs: "finite_json (JArr fs)" using finite_get_or [OF assms(4), of "JArr []" "''forbidden''"] d(5) by simp
  have fb: "forbidden_now ?st (JArr fs) = Inr (is_forbidden P (map_of (pp_initial P)))"
    using any_matches_holds [OF st(2) fs ffs] st(1) by (simp add: forbidden_now_def is_forbidden_def)
  have goal: "matches s (JObj (pp_goal P)) = Inr (holds (map_of s) (pp_goal P))" if "finite_state s" for s
    using match_items_holds [OF that fin [OF d(3)]] by (simp add: matches_def)
  obtain g gs where g: "pp_goal P = g # gs" using d(4) by (cases "pp_goal P") auto
  have len: "length_within fv (length ids) (JInt (pp_max P)) = Inr (ids \<noteq> [] \<and> int (length ids) \<le> pp_max P)"
    by (auto simp: length_within_def num_le_def)
  have run: "transition_plan fl fv v ctx =
      (if \<not> (ids \<noteq> [] \<and> int (length ids) \<le> pp_max P)
       then Inr (fail ''plan_length'' ''The plan must have between one and max_steps actions.'')
       else if is_forbidden P (map_of (pp_initial P))
       then Inr \<lparr>v_status = Unknown, v_code = ''initial_state_forbidden'', v_message = ''The task begins in a forbidden state.''\<rparr>
       else bind_r (simulate acts (JArr fs) 0 ?st ids) (\<lambda>res. case res of Inr vd \<Rightarrow> Inr vd | Inl final \<Rightarrow>
         bind_r (matches final (JObj (pp_goal P))) (\<lambda>reached. Inr (if reached then passed
           else fail ''goal_unsatisfied'' ''The simulated final state does not satisfy the goal.''))))"
    using assms(2,5) d(1-3,5,6) len fb by (simp add: transition_plan_def g update_from_def dict_get_def)
  show ?thesis
    using simulate_exec [OF acts fin [OF d(2)] dis [OF d(2)] fs ffs st(2), of 0 ids] unfolding st(1)
  proof
    assume "\<exists>st'. simulate acts (JArr fs) 0 ?st ids = Inr (Inl st') \<and> finite_state st' \<and>
      (\<forall>t. plan_exec P (map_of (pp_initial P)) ids t \<longleftrightarrow> t = map_of st')"
    then obtain st' where s: "simulate acts (JArr fs) 0 ?st ids = Inr (Inl st')" "finite_state st'"
      "\<forall>t. plan_exec P (map_of (pp_initial P)) ids t \<longleftrightarrow> t = map_of st'" by blast
    then show ?thesis using goal [OF s(2)]
      by (intro exI [of _ "if holds (map_of st') (pp_goal P) then passed
        else fail ''goal_unsatisfied'' ''The simulated final state does not satisfy the goal.''"])
        (simp add: run fail_not_passed)
  next
    assume "\<exists>vd. simulate acts (JArr fs) 0 ?st ids = Inr (Inr vd) \<and> v_status vd = Fail \<and>
      (\<forall>t. \<not> plan_exec P (map_of (pp_initial P)) ids t)"
    then show ?thesis using run by (auto simp: passed_def)
  qed
qed

text \<open>C22. The plan check is exactly plan execution. When the declared evidence describes a plan problem with finite
  values, the check always gives a verdict, and the verdict is a pass exactly when the proposed value is a nonempty
  array of action names within the step limit which, from an initial state that is not forbidden, executes action
  by action with every precondition satisfied and no forbidden state entered, and ends in a state that satisfies
  the goal.\<close>

theorem transition_plan_exact:
  assumes "float_reader fl" and "extract_value fl ctx = Inr (JObj spec)" and "decode_plan spec = Some P" and "finite_json (JObj spec)"
  shows "\<exists>vd. transition_plan fl fv v ctx = Inr vd \<and> (vd = passed \<longleftrightarrow>
    (\<exists>ids t. v = JArr (map JStr ids) \<and> ids \<noteq> [] \<and> int (length ids) \<le> pp_max P
      \<and> \<not> is_forbidden P (map_of (pp_initial P)) \<and> plan_exec P (map_of (pp_initial P)) ids t \<and> holds t (pp_goal P)))"
proof (cases "plan_ids v")
  case None
  then have "\<nexists>ids. v = JArr (map JStr ids)" by (metis option.distinct(1) plan_ids_iff)
  then show ?thesis using None assms(2) by (auto simp: transition_plan_def passed_def fail_def)
next
  case (Some ids)
  then have v: "v = JArr (map JStr ids)" by (simp add: plan_ids_iff)
  have uniq: "v = JArr (map JStr xs) \<longleftrightarrow> xs = ids" for xs using v by (auto simp: inj_map_eq_map inj_def)
  obtain r where r: "transition_plan fl fv v ctx =
      (if \<not> (ids \<noteq> [] \<and> int (length ids) \<le> pp_max P)
       then Inr (fail ''plan_length'' ''The plan must have between one and max_steps actions.'')
       else if is_forbidden P (map_of (pp_initial P))
       then Inr \<lparr>v_status = Unknown, v_code = ''initial_state_forbidden'', v_message = ''The task begins in a forbidden state.''\<rparr>
       else Inr r)"
    "r = passed \<longleftrightarrow> (\<exists>t. plan_exec P (map_of (pp_initial P)) ids t \<and> holds t (pp_goal P))"
    using transition_plan_unfold [OF assms Some] by blast
  show ?thesis unfolding r(1) uniq using r(2) by auto
qed

definition sample_spec :: "(string \<times> json) list" where
  "sample_spec = [(''actions'', JObj [(''go'', JObj [(''requires'', JObj [(''x'', JInt 0)]), (''sets'', JObj [(''x'', JInt 1)])])]),
     (''goal'', JObj [(''x'', JInt 1)]), (''initial'', JObj [(''x'', JInt 0)])]"

definition sample_problem :: plan_problem where
  "sample_problem = \<lparr>pp_initial = [(''x'', JInt 0)], pp_actions = [(''go'', [(''x'', JInt 0)], [(''x'', JInt 1)])],
    pp_forbidden = [], pp_goal = [(''x'', JInt 1)], pp_max = 32\<rparr>"

definition sample_ctx :: check_context where
  "sample_ctx = \<lparr>ctx_obligation = \<lparr>ob_id = ''o'', instruction = ''i'', ob_check = ''transition_plan'', ob_evidence = [''e''],
     depends_on = [], parameters = JObj [(''artifact'', JStr ''e'')], ob_solver = None, ob_cloud = False\<rparr>,
     ctx_artifacts = [(''e'', \<lparr>art_id = ''e'', art_text = dumps (JObj sample_spec), art_cloud = False\<rparr>)], ctx_accepted = []\<rparr>"

theorem transition_plan_exact_witness:
  "transition_plan exact_float (\<lambda>_. 0) (JArr [JStr ''go'']) sample_ctx = Inr passed"
proof -
  have wf: "wf_json exact_float (JObj sample_spec)" by (simp add: sample_spec_def)
  have norm: "norm_json (JObj sample_spec) = JObj sample_spec" by (simp add: sample_spec_def)
  have "strict_json exact_float (dumps (JObj sample_spec)) = Inr (JObj sample_spec)"
    using strict_json_dumps [OF wf] norm by simp
  then have ex: "extract_value exact_float sample_ctx = Inr (JObj sample_spec)"
    by (simp add: extract_value_def sample_ctx_def param_dict_def evidence_of_def ctx_evidence_def dict_get_def json_pointer_def)
  let ?P = sample_problem
  have dec: "decode_plan sample_spec = Some ?P"
    by (simp add: decode_plan_def sample_spec_def sample_problem_def get_or_def decode_action_def)
  have exec: "plan_exec ?P (map_of (pp_initial ?P)) [''go''] (map_of (pp_initial ?P) ++ map_of [(''x'', JInt 1)])"
    by (rule plan_exec.act [OF _ _ refl _ plan_exec.finished]) (auto simp: holds_def is_forbidden_def sample_problem_def)
  have some: "\<exists>ids t. JArr [JStr ''go''] = JArr (map JStr ids) \<and> ids \<noteq> [] \<and> int (length ids) \<le> pp_max ?P
      \<and> \<not> is_forbidden ?P (map_of (pp_initial ?P)) \<and> plan_exec ?P (map_of (pp_initial ?P)) ids t \<and> holds t (pp_goal ?P)"
    using exec by (intro exI [of _ "[''go'']"] exI [of _ "map_of (pp_initial ?P) ++ map_of [(''x'', JInt 1)]"] conjI)
      (simp_all add: is_forbidden_def holds_def sample_problem_def)
  have "finite_json (JObj sample_spec)" by (simp add: sample_spec_def)
  then obtain vd where "transition_plan exact_float (\<lambda>_. 0) (JArr [JStr ''go'']) sample_ctx = Inr vd"
    and "vd = passed"
    using transition_plan_exact [OF float_reader_exact_float ex dec, of "\<lambda>_. 0" "JArr [JStr ''go'']"] some by auto
  then show ?thesis by simp
qed

section \<open>Solvers agree with their checks\<close>

text \<open>A recomputing check passes exactly the values that have the JSON text of what its solver computes.\<close>

lemma same_as_exact:
  assumes "compute ctx = Inr w" and "finite_json w"
  shows "same_as compute v ctx = Inr (Some passed) \<longleftrightarrow> finite_json v \<and> dumps v = dumps w"
  using assms by (auto simp: same_as_def canonical_def)

text \<open>A pointer token that denotes a negative number reads a list from its end.\<close>

lemma negative_index_reads_from_end: "json_pointer (JArr [JInt 1, JInt 2]) ''/-1'' = Inr (JInt 2)"
  by code_simp

end
