(* ===== verification/Json_Objects.thy ===== *)
theory Json_Objects
  imports Json_Roundtrip
begin

text \<open>
  JSON objects as dictionaries: what reading an object back from its canonical text does to its fields. Shared by
  the stores that keep canonical records (\<open>src/residual/dsm/journal.py\<close>, \<open>src/residual/hitl/gateway.py\<close>).
\<close>

lemma distinct_fst_sort: "distinct (map fst (sort_key fst xs)) = distinct (map fst xs)"
  by (simp add: distinct_map)

lemma wf_norm_json: "wf_json fl v \<Longrightarrow> wf_json fl (norm_json v)"
proof (induction v)
  case (JObj kvs)
  have "distinct (map fst (map (map_prod id norm_json) kvs))" using JObj.prems by (simp add: map_fst_map_prod)
  then have "distinct (map fst (sort_key fst (map (map_prod id norm_json) kvs)))" by (simp only: distinct_fst_sort)
  moreover have "wf_json fl (snd x)" if "x \<in> set (sort_key fst (map (map_prod id norm_json) kvs))" for x
    using that JObj by (auto simp: list_all_iff)
  ultimately show ?case by (auto simp: list_all_iff)
qed (auto simp: list_all_iff)

definition norm_record :: "(string \<times> json) list \<Rightarrow> (string \<times> json) list" where
  "norm_record r = sort_key fst (map (map_prod id norm_json) r)"

lemma norm_record_json: "norm_json (JObj r) = JObj (norm_record r)"
  by (simp add: norm_record_def)

lemma map_of_norm_record: "distinct (map fst r) \<Longrightarrow> map_of (norm_record r) k = map_option norm_json (map_of r k)"
  unfolding norm_record_def by (rule map_of_norm)

lemma dumps_norm_record: "dumps (JObj (norm_record r)) = dumps (JObj r)"
  using dumps_norm_json [of "JObj r"] unfolding norm_record_json .

lemma filter_norm_record:
  "filter (\<lambda>(k, v). P k) (norm_record r) = norm_record (filter (\<lambda>(k, v). P k) r)"
proof -
  have "filter (\<lambda>(k, v). P k) (map (map_prod id norm_json) xs) = map (map_prod id norm_json) (filter (\<lambda>(k, v). P k) xs)" for xs
    by (induction xs) auto
  then show ?thesis by (simp add: norm_record_def filter_sort)
qed

lemma wf_json_filter: "wf_json fl (JObj r) \<Longrightarrow> wf_json fl (JObj (filter P r))"
  by (auto simp: list_all_iff distinct_map_filter)

end
