(* ===== verification/Dsm_Journal.thy ===== *)
theory Dsm_Journal
  imports Storage Json_Objects
begin

text \<open>
  The foundations of the distributed state package: the ownership registry
  (\<open>src/residual/dsm/ownership.py\<close>), the lease manager with fencing tokens (\<open>src/residual/dsm/lease.py\<close>) and
  the durable hash-chained journal (\<open>src/residual/dsm/journal.py\<close>).

  \<^item> A journal is its file contents, the records held in memory (JSON objects) and the head hash. An append
    that returns has written its line; torn writes are outside the model.
  \<^item> \<open>FencingError\<close> and \<open>JournalError\<close> are subclasses of \<open>ContractError\<close> and appear as such.
  \<^item> Times and tokens of the lease manager are integers.
  \<^item> Shown: fencing tokens exclude stale writers for good; a journal file written by appends is read back
    to the same records up to the order of keys, and the journal is an instance of the locale \<open>hash_chain\<close>.
\<close>

section \<open>Ownership\<close>

definition DOMAINS :: "(string, string) dict" where
  "DOMAINS = [(''task.lease'', ''scheduler''), (''receipt.publication'', ''verifier''),
     (''integration.intent'', ''integrator''), (''task.terminal'', ''orchestrator'')]"

definition terminal_transitions :: "json option \<Rightarrow> string list" where
  "terminal_transitions current =
     (if current = None then [''running'', ''succeeded'', ''failed'', ''rejected'', ''unknown'']
      else if current = Some (JStr ''running'') then [''succeeded'', ''failed'', ''rejected'', ''unknown'']
      else [])"

definition TERMINAL_STATES :: "string list" where
  "TERMINAL_STATES = [''succeeded'', ''failed'', ''rejected'', ''unknown'']"

definition owner_of :: "(string, string) dict \<Rightarrow> string \<Rightarrow> string result" where
  "owner_of mapping domain = (case map_of mapping domain of
     None \<Rightarrow> Inl (ContractError ''unknown state domain'') | Some w \<Rightarrow> Inr w)"

definition check_writer :: "(string, string) dict \<Rightarrow> string \<Rightarrow> string \<Rightarrow> string result" where
  "check_writer mapping domain writer =
     bind_r (owner_of mapping domain) (\<lambda>own.
     bind_r (ensure (writer = own) (ContractError ''writer is not authoritative for domain'')) (\<lambda>_. Inr own))"

section \<open>Leases\<close>

record lease =
  ls_holder :: string
  ls_until :: int
  ls_token :: int

record lease_manager =
  lm_leases :: "(string, lease) dict"
  lm_tokens :: "(string, int) dict"

definition new_leases :: lease_manager where
  "new_leases = \<lparr>lm_leases = [], lm_tokens = []\<rparr>"

definition current_token :: "lease_manager \<Rightarrow> string \<Rightarrow> int" where
  "current_token lm res = (case map_of (lm_tokens lm) res of None \<Rightarrow> 0 | Some t \<Rightarrow> t)"

record lease_grant =
  lr_resource :: string
  lr_holder :: string
  lr_token :: int
  lr_expires :: int

definition grant_lease :: "lease_manager \<Rightarrow> string \<Rightarrow> string \<Rightarrow> int \<Rightarrow> int \<Rightarrow> lease_manager \<times> lease_grant" where
  "grant_lease lm res holder ttl now =
     (let t = current_token lm res + 1 in
      (\<lparr>lm_leases = AList.update res \<lparr>ls_holder = holder, ls_until = now + ttl, ls_token = t\<rparr> (lm_leases lm),
        lm_tokens = AList.update res t (lm_tokens lm)\<rparr>,
       \<lparr>lr_resource = res, lr_holder = holder, lr_token = t, lr_expires = now + ttl\<rparr>))"

definition acquire :: "lease_manager \<Rightarrow> string \<Rightarrow> string \<Rightarrow> int \<Rightarrow> int \<Rightarrow> (lease_manager \<times> lease_grant) result" where
  "acquire lm res holder ttl now =
     (case map_of (lm_leases lm) res of
        None \<Rightarrow> Inr (grant_lease lm res holder ttl now)
      | Some l \<Rightarrow>
          if ls_holder l \<noteq> holder \<and> now < ls_until l then Inl (ContractError ''resource is leased'')
          else Inr (grant_lease lm res holder ttl now))"

definition check_lease :: "lease_manager \<Rightarrow> string \<Rightarrow> string \<Rightarrow> int \<Rightarrow> int \<Rightarrow> unit result" where
  "check_lease lm res holder tok now =
     (if tok < current_token lm res then Inl (ContractError ''stale fencing token'')
      else case map_of (lm_leases lm) res of
        None \<Rightarrow> Inl (ContractError ''no active lease'')
      | Some l \<Rightarrow>
          if ls_holder l \<noteq> holder \<or> ls_token l \<noteq> tok then Inl (ContractError ''fencing token does not match active lease'')
          else if now \<ge> ls_until l then Inl (ContractError ''lease expired'')
          else Inr ())"

definition renew :: "lease_manager \<Rightarrow> string \<Rightarrow> string \<Rightarrow> int \<Rightarrow> int \<Rightarrow> int \<Rightarrow> (lease_manager \<times> lease_grant) result" where
  "renew lm res holder tok ttl now =
     bind_r (check_lease lm res holder tok now) (\<lambda>_.
     bind_r (dict_get (lm_tokens lm) res) (\<lambda>_.
     Inr (grant_lease lm res holder ttl now)))"

definition release_lease :: "lease_manager \<Rightarrow> string \<Rightarrow> string \<Rightarrow> int \<Rightarrow> lease_manager" where
  "release_lease lm res holder tok =
     (case map_of (lm_leases lm) res of
        None \<Rightarrow> lm
      | Some l \<Rightarrow> if ls_holder l = holder \<and> ls_token l = tok then lm\<lparr>lm_leases := AList.delete res (lm_leases lm)\<rparr> else lm)"

section \<open>The journal\<close>

definition GENESIS :: string where
  "GENESIS = replicate 64 (CHR ''0'')"

type_synonym dsm_record = "(string \<times> json) list"

record dsm_journal =
  dj_file :: string
  dj_records :: "dsm_record list"
  dj_head :: string

definition record_body :: "dsm_record \<Rightarrow> dsm_record" where
  "record_body r = filter (\<lambda>(k, v). k \<noteq> ''hash'') r"

definition mismatch :: error where
  "mismatch = ContractError ''journal integrity mismatch''"

definition load_line :: "(string \<Rightarrow> json) \<Rightarrow> (string \<Rightarrow> string) \<Rightarrow> nat \<Rightarrow> string \<Rightarrow> string \<Rightarrow> (dsm_record \<times> string) result" where
  "load_line fl H index previous line =
     bind_r (strict_json fl line) (\<lambda>v.
     case v of
       JObj r \<Rightarrow>
         bind_r (dict_get r ''seq'') (\<lambda>sq.
         bind_r (ensure (num_eq sq index) mismatch) (\<lambda>_.
         bind_r (dict_get r ''prev_hash'') (\<lambda>p.
         bind_r (ensure (p = JStr previous) mismatch) (\<lambda>_.
         bind_r (digest H (JObj (record_body r))) (\<lambda>h.
         bind_r (ensure (map_of r ''hash'' = Some (JStr h)) mismatch) (\<lambda>_.
         Inr (r, h)))))))
     | _ \<Rightarrow> Inl (AttributeError ''get''))"

fun load_lines :: "(string \<Rightarrow> json) \<Rightarrow> (string \<Rightarrow> string) \<Rightarrow> nat \<Rightarrow> string \<Rightarrow> string list \<Rightarrow> (dsm_record \<times> string) list result" where
  "load_lines fl H index previous [] = Inr []"
| "load_lines fl H index previous (line # ls) =
     (if blank line then load_lines fl H (Suc index) previous ls
      else
        bind_r (load_line fl H index previous line) (\<lambda>(r, h).
        bind_r (load_lines fl H (Suc index) h ls) (\<lambda>rs. Inr ((r, h) # rs))))"

definition open_journal :: "(string \<Rightarrow> json) \<Rightarrow> (string \<Rightarrow> string) \<Rightarrow> string \<Rightarrow> dsm_journal result" where
  "open_journal fl H contents =
     bind_r (load_lines fl H 0 GENESIS (bare_lines [] contents)) (\<lambda>rs.
     Inr \<lparr>dj_file = contents, dj_records = map fst rs, dj_head = (if rs = [] then GENESIS else snd (last rs))\<rparr>)"

definition cursor :: "dsm_journal \<Rightarrow> int" where
  "cursor j = int (length (dj_records j)) - 1"

definition entry_body :: "dsm_journal \<Rightarrow> string \<Rightarrow> json \<Rightarrow> int \<Rightarrow> dsm_record" where
  "entry_body j kind payload time_ns = [(''seq'', JInt (int (length (dj_records j)))), (''kind'', JStr kind),
     (''time_ns'', JInt time_ns), (''prev_hash'', JStr (dj_head j)), (''payload'', payload)]"

definition journal_append ::
  "(string \<Rightarrow> string) \<Rightarrow> dsm_journal \<Rightarrow> string \<Rightarrow> json \<Rightarrow> int \<Rightarrow> (dsm_journal \<times> dsm_record) result" where
  "journal_append H j kind payload time_ns =
     (let body = entry_body j kind payload time_ns in
      bind_r (digest H (JObj body)) (\<lambda>h.
      let r = body @ [(''hash'', JStr h)] in
      bind_r (canonical (JObj r)) (\<lambda>t.
      Inr (\<lparr>dj_file = dj_file j @ t @ [newline], dj_records = dj_records j @ [r], dj_head = h\<rparr>, r))))"

text \<open>\<open>record["seq"] > from_seq\<close> for the integers the records carry.\<close>

definition seq_of :: "dsm_record \<Rightarrow> int" where
  "seq_of r = (case map_of r ''seq'' of Some (JInt i) \<Rightarrow> i | _ \<Rightarrow> 0)"

definition replay :: "dsm_journal \<Rightarrow> int \<Rightarrow> dsm_record list" where
  "replay j from_seq = filter (\<lambda>r. seq_of r > from_seq) (dj_records j)"

definition verify_journal_file :: "(string \<Rightarrow> json) \<Rightarrow> (string \<Rightarrow> string) \<Rightarrow> dsm_journal \<Rightarrow> nat result" where
  "verify_journal_file fl H j =
     bind_r (load_lines fl H 0 GENESIS (bare_lines [] (dj_file j))) (\<lambda>rs. Inr (length rs))"

section \<open>Fencing\<close>

inductive leasing :: "lease_manager \<Rightarrow> lease_manager \<Rightarrow> bool" for lm0 where
  start: "leasing lm0 lm0"
| acquired: "leasing lm0 lm \<Longrightarrow> acquire lm res holder ttl now = Inr (lm', gr) \<Longrightarrow> leasing lm0 lm'"
| renewed: "leasing lm0 lm \<Longrightarrow> renew lm res holder tok ttl now = Inr (lm', gr) \<Longrightarrow> leasing lm0 lm'"
| released: "leasing lm0 lm \<Longrightarrow> leasing lm0 (release_lease lm res holder tok)"

definition lease_inv :: "lease_manager \<Rightarrow> bool" where
  "lease_inv lm = (\<forall>res l. map_of (lm_leases lm) res = Some l \<longrightarrow> ls_token l = current_token lm res)"

lemma grant_token:
  "current_token (fst (grant_lease lm res holder ttl now)) res' = current_token lm res' + (if res' = res then 1 else 0)"
  by (simp add: grant_lease_def current_token_def Let_def)

lemma grant_inv: "lease_inv lm \<Longrightarrow> lease_inv (fst (grant_lease lm res holder ttl now))"
  by (auto simp: lease_inv_def grant_lease_def current_token_def Let_def)

lemma release_lease_token [simp]: "current_token (release_lease lm res holder tok) = current_token lm"
  by (auto simp: release_lease_def current_token_def split: option.splits)

lemma release_inv: "lease_inv lm \<Longrightarrow> lease_inv (release_lease lm res holder tok)"
  unfolding lease_inv_def release_lease_token by (auto simp: release_lease_def AList.delete_conv' restrict_map_def split: option.splits if_splits)

lemma acquire_grant: "acquire lm res holder ttl now = Inr (lm', gr) \<Longrightarrow> (lm', gr) = grant_lease lm res holder ttl now"
  by (auto simp: acquire_def split: option.splits if_splits)

lemma renew_grant: "renew lm res holder tok ttl now = Inr (lm', gr) \<Longrightarrow> (lm', gr) = grant_lease lm res holder ttl now"
  by (auto simp: renew_def result_simps)

lemma leasing_mono:
  assumes "leasing lm0 lm"
  shows "current_token lm0 res \<le> current_token lm res \<and> (lease_inv lm0 \<longrightarrow> lease_inv lm)"
  using assms
proof (induction rule: leasing.induct)
  case start
  then show ?case by simp
next
  case (acquired lm r holder ttl now lm' gr)
  then have lm': "lm' = fst (grant_lease lm r holder ttl now)" using acquire_grant by (metis fst_conv)
  then show ?case using acquired.IH by (auto simp: grant_token grant_inv)
next
  case (renewed lm r holder tok ttl now lm' gr)
  then have lm': "lm' = fst (grant_lease lm r holder ttl now)" using renew_grant by (metis fst_conv)
  then show ?case using renewed.IH by (auto simp: grant_token grant_inv)
next
  case (released lm r holder tok)
  then show ?case by (simp add: release_inv)
qed

lemma check_lease_Inr:
  "check_lease lm res holder tok now = Inr u \<longleftrightarrow>
   (\<exists>l. map_of (lm_leases lm) res = Some l \<and> ls_holder l = holder \<and> ls_token l = tok \<and> now < ls_until l \<and> current_token lm res \<le> tok)"
  by (auto simp: check_lease_def split: option.splits)

text \<open>C27. Fencing. In every state of a lease manager that started empty, all successful checks for a resource name
  the same holder and the same token, whenever they are made; no other holder can acquire the resource before the
  lease expires; and once the resource was granted again, to anyone and by acquisition or renewal, no token that
  was valid before the grant passes a check in any later state.\<close>

theorem fencing_excludes_stale_writers:
  assumes "leasing new_leases lm" and "check_lease lm res holder tok now = Inr ()"
  shows "(check_lease lm res holder' tok' now' = Inr () \<longrightarrow> holder' = holder \<and> tok' = tok)
    \<and> (holder' \<noteq> holder \<longrightarrow> acquire lm res holder' ttl now = Inl (ContractError ''resource is leased''))
    \<and> (acquire lm res h2 ttl t2 = Inr (lm', gr) \<or> renew lm res h2 k2 ttl t2 = Inr (lm', gr) \<longrightarrow>
        leasing lm' lm'' \<longrightarrow> check_lease lm'' res holder tok t3 = Inl (ContractError ''stale fencing token''))"
proof -
  have inv: "lease_inv lm"
    using leasing_mono [OF assms(1)] by (simp add: lease_inv_def new_leases_def)
  obtain l where l: "map_of (lm_leases lm) res = Some l" "ls_holder l = holder" "ls_token l = tok" "now < ls_until l"
    using assms(2) by (auto simp: check_lease_Inr)
  have tok: "tok = current_token lm res" using inv l by (simp add: lease_inv_def)
  have "check_lease lm'' res holder tok t3 = Inl (ContractError ''stale fencing token'')"
    if g: "acquire lm res h2 ttl t2 = Inr (lm', gr) \<or> renew lm res h2 k2 ttl t2 = Inr (lm', gr)" and later: "leasing lm' lm''"
  proof -
    have "lm' = fst (grant_lease lm res h2 ttl t2)"
      using g acquire_grant renew_grant by (metis fst_conv)
    then have "current_token lm' res = tok + 1" by (simp add: grant_token tok)
    then have "tok < current_token lm'' res" using leasing_mono [OF later, of res] by simp
    then show ?thesis by (simp add: check_lease_def)
  qed
  then show ?thesis using l by (auto simp: check_lease_Inr acquire_def)
qed

theorem fencing_excludes_stale_writers_witness:
  "let lm = fst (grant_lease new_leases ''r'' ''a'' 10 0); lm' = fst (grant_lease lm ''r'' ''a'' 10 5) in
   check_lease lm ''r'' ''a'' 1 3 = Inr () \<and> check_lease lm' ''r'' ''a'' 1 6 = Inl (ContractError ''stale fencing token'')"
proof -
  let ?lm = "fst (grant_lease new_leases ''r'' ''a'' 10 0)" and ?lm' = "fst (grant_lease (fst (grant_lease new_leases ''r'' ''a'' 10 0)) ''r'' ''a'' 10 5)"
  have a: "acquire new_leases ''r'' ''a'' 10 0 = Inr (?lm, snd (grant_lease new_leases ''r'' ''a'' 10 0))"
    by (simp add: acquire_def new_leases_def)
  have r: "leasing new_leases ?lm" by (rule leasing.acquired [OF leasing.start a])
  have c: "check_lease ?lm ''r'' ''a'' 1 3 = Inr ()" by code_simp
  have b: "acquire ?lm ''r'' ''a'' 10 5 = Inr (?lm', snd (grant_lease ?lm ''r'' ''a'' 10 5))"
    by (simp add: acquire_def grant_lease_def Let_def)
  show ?thesis
    using fencing_excludes_stale_writers [OF r c, of "''a''" 1 3 10 "''a''" 5 ?lm' "snd (grant_lease ?lm ''r'' ''a'' 10 5)" 1 ?lm' 6] b c leasing.start
    by (simp add: Let_def)
qed

section \<open>The journal is a hash chain\<close>

declare dumps.simps [simp del]

definition str_of_field :: "dsm_record \<Rightarrow> string \<Rightarrow> string" where
  "str_of_field r k = (case map_of r k of Some (JStr s) \<Rightarrow> s | _ \<Rightarrow> [])"

abbreviation jr_text :: "dsm_record \<Rightarrow> string" where
  "jr_text r \<equiv> dumps (JObj (record_body r))"

abbreviation jr_seq :: "dsm_record \<Rightarrow> nat" where
  "jr_seq r \<equiv> nat (seq_of r)"

abbreviation jr_prev :: "dsm_record \<Rightarrow> string" where
  "jr_prev r \<equiv> str_of_field r ''prev_hash''"

abbreviation jr_hash :: "dsm_record \<Rightarrow> string" where
  "jr_hash r \<equiv> str_of_field r ''hash''"

definition wf_record :: "(string \<Rightarrow> json) \<Rightarrow> dsm_record \<Rightarrow> bool" where
  "wf_record fl r = (wf_json fl (JObj r) \<and> map_of r ''seq'' = Some (JInt (int (jr_seq r)))
     \<and> map_of r ''prev_hash'' = Some (JStr (jr_prev r)) \<and> map_of r ''hash'' = Some (JStr (jr_hash r)))"

lemma map_of_record_body: "k \<noteq> ''hash'' \<Longrightarrow> map_of (record_body r) k = map_of r k"
  by (induction r) (auto simp: record_body_def)

lemma wf_record_body: "wf_json fl (JObj r) \<Longrightarrow> wf_json fl (JObj (record_body r))"
  by (auto simp: record_body_def list_all_iff distinct_map_filter)

lemma wf_recordE:
  assumes "wf_record fl r"
  obtains i p h where "wf_json fl (JObj r)" "distinct (map fst r)" "map_of r ''seq'' = Some (JInt (int i))"
    "map_of r ''prev_hash'' = Some (JStr p)" "map_of r ''hash'' = Some (JStr h)" "jr_seq r = i" "jr_prev r = p" "jr_hash r = h"
  using assms by (intro that [of "jr_seq r" "jr_prev r" "jr_hash r"]) (simp_all add: wf_record_def)

interpretation dsm: hash_chain H jr_text jr_seq jr_prev jr_hash "wf_record fl" GENESIS for H fl
proof
  fix r q :: dsm_record
  assume r: "wf_record fl r" and q: "wf_record fl q" and eq: "jr_text r = jr_text q"
  have "wf_json fl (JObj (record_body r))" "wf_json fl (JObj (record_body q))"
    using wf_record_body r q unfolding wf_record_def by blast+
  from dumps_obj_field [OF this eq, of "''seq''"] dumps_obj_field [OF this eq, of "''prev_hash''"]
  show "jr_seq r = jr_seq q \<and> jr_prev r = jr_prev q"
    using r q by (elim wf_recordE) (simp add: map_of_record_body)
qed

lemma record_body_norm: "record_body (norm_record r) = norm_record (record_body r)"
  unfolding record_body_def by (rule filter_norm_record)

lemma wf_recordI:
  assumes "wf_json fl (JObj r)" and "map_of r ''seq'' = Some (JInt (int i))" and "map_of r ''prev_hash'' = Some (JStr p)"
    and "map_of r ''hash'' = Some (JStr h)"
  shows "wf_record fl r \<and> jr_seq r = i \<and> jr_prev r = p \<and> jr_hash r = h"
  using assms by (simp add: wf_record_def seq_of_def str_of_field_def)

lemma wf_norm_record:
  assumes "wf_record fl r"
  shows "wf_record fl (norm_record r) \<and> jr_seq (norm_record r) = jr_seq r \<and> jr_prev (norm_record r) = jr_prev r
    \<and> jr_hash (norm_record r) = jr_hash r"
proof -
  obtain i p h where r: "wf_json fl (JObj r)" "distinct (map fst r)" "map_of r ''seq'' = Some (JInt (int i))"
    "map_of r ''prev_hash'' = Some (JStr p)" "map_of r ''hash'' = Some (JStr h)" "jr_seq r = i" "jr_prev r = p" "jr_hash r = h"
    using wf_recordE [OF assms] .
  have "wf_json fl (JObj (norm_record r))" using wf_norm_json [OF r(1)] by (simp only: norm_record_json)
  from wf_recordI [OF this] show ?thesis
    using map_of_norm_record [OF r(2)] r(3-8) by (metis norm_json.simps(3,6) option.simps(9))
qed

section \<open>Reading a journal back\<close>

lemma load_written_line:
  assumes "wf_record fl r" and "jr_hash r = H (jr_text r)"
  shows "load_line fl H (jr_seq r) (jr_prev r) (dumps (JObj r)) = Inr (norm_record r, jr_hash r)"
proof -
  obtain i p h where r: "wf_json fl (JObj r)" "distinct (map fst r)" "map_of r ''seq'' = Some (JInt (int i))"
    "map_of r ''prev_hash'' = Some (JStr p)" "map_of r ''hash'' = Some (JStr h)" "jr_seq r = i" "jr_prev r = p" "jr_hash r = h"
    using wf_recordE [OF assms(1)] .
  have read: "strict_json fl (dumps (JObj r)) = Inr (JObj (norm_record r))"
    using strict_json_dumps [OF r(1)] by (simp only: norm_record_json)
  have fin: "finite_json (JObj (norm_record (record_body r)))"
    using wf_json_finite [OF wf_record_body [OF r(1)]] finite_norm_json [of "JObj (record_body r)"] by (simp only: norm_record_json)
  have dig: "digest H (JObj (record_body (norm_record r))) = Inr h"
    using fin assms(2) r(8) by (simp only: digest_def canonical_def record_body_norm dumps_norm_record if_True bind_r.simps)
  have look: "map_of (norm_record r) ''seq'' = Some (JInt (int i))" "map_of (norm_record r) ''prev_hash'' = Some (JStr p)"
    "map_of (norm_record r) ''hash'' = Some (JStr h)"
    using map_of_norm_record [OF r(2)] r(3-5) by simp_all
  show ?thesis unfolding load_line_def read bind_r.simps json.case dict_get_def look option.case dig r(6-8) by simp
qed

lemma dumps_object_start: "dumps (JObj r) = CHR ''{'' # tl (dumps (JObj r))"
  by (simp add: dumps.simps)

lemma dumps_object_not_blank: "\<not> blank (dumps (JObj r))"
  by (subst dumps_object_start) (simp add: ascii_space_def less_eq_char_def split: list.splits)

lemma load_written_lines:
  assumes "linked H jr_text jr_seq jr_prev jr_hash i p rs" and "list_all (wf_record fl) rs"
  shows "load_lines fl H i p (map (\<lambda>r. dumps (JObj r)) rs) = Inr (map (\<lambda>r. (norm_record r, jr_hash r)) rs)"
  using assms
proof (induction rs arbitrary: i p)
  case (Cons r rs)
  have line: "load_line fl H i p (dumps (JObj r)) = Inr (norm_record r, jr_hash r)"
    using load_written_line [of fl r H] Cons.prems by auto
  have rest: "load_lines fl H (Suc i) (jr_hash r) (map (\<lambda>r. dumps (JObj r)) rs) = Inr (map (\<lambda>r. (norm_record r, jr_hash r)) rs)"
    using Cons.prems by (intro Cons.IH) auto
  show ?case by (simp add: dumps_object_not_blank line rest)
qed simp

text \<open>The invariant of a journal: a linked chain of readable records, one line of the file for each.\<close>

definition journal_ok :: "(string \<Rightarrow> json) \<Rightarrow> (string \<Rightarrow> string) \<Rightarrow> dsm_journal \<Rightarrow> bool" where
  "journal_ok fl H j = (linked H jr_text jr_seq jr_prev jr_hash 0 GENESIS (dj_records j)
     \<and> list_all (wf_record fl) (dj_records j) \<and> list_all (\<lambda>r. no_breaks (dumps (JObj r))) (dj_records j)
     \<and> dj_file j = concat (map (\<lambda>r. dumps (JObj r) @ [newline]) (dj_records j))
     \<and> dj_head j = chain_head jr_hash GENESIS (dj_records j))"

definition norm_journal :: "dsm_journal \<Rightarrow> dsm_journal" where
  "norm_journal j = j\<lparr>dj_records := map norm_record (dj_records j)\<rparr>"

lemma open_written:
  assumes "journal_ok fl H j"
  shows "open_journal fl H (dj_file j) = Inr (norm_journal j)"
proof -
  let ?ts = "map (\<lambda>r. dumps (JObj r)) (dj_records j)"
  have content: "dj_file j = concat (map (\<lambda>t. t @ [newline]) ?ts)"
    using assms by (simp add: journal_ok_def comp_def)
  have "bare_lines [] (dj_file j) = ?ts"
    unfolding content using assms by (intro bare_lines_concat) (simp add: journal_ok_def list_all_iff)
  then have "load_lines fl H 0 GENESIS (bare_lines [] (dj_file j)) = Inr (map (\<lambda>r. (norm_record r, jr_hash r)) (dj_records j))"
    using load_written_lines [of H 0 GENESIS "dj_records j" fl] assms by (simp add: journal_ok_def)
  then show ?thesis
    using assms by (auto simp: open_journal_def norm_journal_def journal_ok_def chain_head_def last_map comp_def)
qed

lemma linked_norm:
  assumes "linked H jr_text jr_seq jr_prev jr_hash i p rs" and "list_all (wf_record fl) rs"
  shows "linked H jr_text jr_seq jr_prev jr_hash i p (map norm_record rs)"
  using assms
proof (induction rs arbitrary: i p)
  case (Cons r rs)
  then show ?case
    using wf_norm_record [of fl r] by (auto simp: record_body_norm dumps_norm_record)
qed simp

lemma journal_ok_norm:
  assumes "journal_ok fl H j"
  shows "journal_ok fl H (norm_journal j)"
proof -
  have "chain_head jr_hash GENESIS (map norm_record (dj_records j)) = chain_head jr_hash GENESIS (dj_records j)"
    using assms wf_norm_record [of fl "last (dj_records j)"] by (auto simp: chain_head_def last_map journal_ok_def list_all_iff)
  moreover have "linked H jr_text jr_seq jr_prev jr_hash 0 GENESIS (map norm_record (dj_records j))"
    using assms linked_norm [of H 0 GENESIS "dj_records j" fl] by (simp add: journal_ok_def)
  ultimately show ?thesis
    using assms wf_norm_record
    by (auto simp: journal_ok_def norm_journal_def list_all_iff comp_def dumps_norm_record)
qed

lemma journal_ok_append:
  assumes "journal_ok fl H j" and "journal_append H j kind payload t = Inr (j', r)" and "wf_json fl payload"
    and "no_breaks (dumps (JObj r))"
  shows "journal_ok fl H j' \<and> dj_records j' = dj_records j @ [r] \<and> wf_record fl r
    \<and> map_of r ''kind'' = Some (JStr kind) \<and> map_of r ''payload'' = Some payload"
proof -
  let ?b = "entry_body j kind payload t"
  obtain h where h: "digest H (JObj ?b) = Inr h" and r: "r = ?b @ [(''hash'', JStr h)]"
    and j': "j' = \<lparr>dj_file = dj_file j @ dumps (JObj r) @ [newline], dj_records = dj_records j @ [r], dj_head = h\<rparr>"
    using assms(2) by (auto simp: journal_append_def Let_def result_simps canonical_def split: if_splits)
  have wf: "wf_json fl (JObj r)" using assms(3) by (simp add: r entry_body_def)
  have look: "map_of r ''seq'' = Some (JInt (int (length (dj_records j))))" "map_of r ''prev_hash'' = Some (JStr (dj_head j))"
    "map_of r ''hash'' = Some (JStr h)" "map_of r ''kind'' = Some (JStr kind)" "map_of r ''payload'' = Some payload"
    by (simp_all add: r entry_body_def)
  note fields = wf_recordI [OF wf look(1-3)]
  have "record_body r = ?b" by (simp add: r record_body_def entry_body_def)
  then have hash: "jr_hash r = H (jr_text r)"
    using fields h by (auto simp: digest_def canonical_def result_simps simp del: finite_json.simps split: if_splits)
  have "linked H jr_text jr_seq jr_prev jr_hash 0 GENESIS (dj_records j @ [r])"
    using assms(1) fields hash by (intro dsm.append_keeps_links) (simp_all add: journal_ok_def)
  then show ?thesis
    using assms(1,4) fields look by (simp add: j' journal_ok_def)
qed

lemma journal_ok_empty: "journal_ok fl H \<lparr>dj_file = [], dj_records = [], dj_head = GENESIS\<rparr>"
  by (simp add: journal_ok_def chain_head_def)

text \<open>All sequence numbers are natural, so a replay from \<open>-1\<close> yields every record.\<close>

lemma replay_all:
  assumes "journal_ok fl H j"
  shows "replay j (-1) = dj_records j"
proof -
  have "seq_of r > -1" if "r \<in> set (dj_records j)" for r
    using assms that by (auto simp: journal_ok_def list_all_iff seq_of_def elim!: wf_recordE)
  then show ?thesis by (simp add: replay_def)
qed

end
