(* ===== verification/Dsm_Store.thy ===== *)
theory Dsm_Store
  imports Dsm_Journal
begin

text \<open>
  The distributed state store, \<open>src/residual/dsm/store.py\<close>: admission of events (deduplication, ownership,
  fencing, legality of terminal transitions), the journal write before the acknowledgement, the injected crash
  between the two, recovery from the journal file, and the projections computed from the journal.

  \<^item> The state of a store is its journal; the ownership mapping and the lease table are arguments of \<open>dsm_submit\<close>
    because the source lets the caller inject them.
  \<^item> Events are JSON objects. Identifiers, domains, entities and writers are strings and fencing tokens integers
    (\<open>typed_event\<close>); the model reads other shapes as the empty string and zero.
  \<^item> Shown: an event that was journaled, acknowledged or not, is never journaled again, in this process or after any
    number of recoveries, and recovery reproduces every projection.
\<close>

section \<open>Views of the journal\<close>

definition field :: "(string \<times> json) list \<Rightarrow> string \<Rightarrow> json" where
  "field r k = (case map_of r k of Some v \<Rightarrow> v | None \<Rightarrow> JNull)"

definition object_of :: "json \<Rightarrow> (string \<times> json) list" where
  "object_of v = (case v of JObj kvs \<Rightarrow> kvs | _ \<Rightarrow> [])"

abbreviation event_of :: "dsm_record \<Rightarrow> (string \<times> json) list" where
  "event_of r \<equiv> object_of (field (object_of (field r ''payload'')) ''event'')"

definition transition_records :: "dsm_journal \<Rightarrow> dsm_record list" where
  "transition_records j = filter (\<lambda>r. field r ''kind'' = JStr ''transition'') (replay j (-1))"

definition find_event :: "dsm_journal \<Rightarrow> json \<Rightarrow> dsm_record option" where
  "find_event j event_id = List.find (\<lambda>r. field (event_of r) ''event_id'' = event_id) (transition_records j)"

section \<open>Deterministic projection\<close>

definition token_or_zero :: "json option \<Rightarrow> int" where
  "token_or_zero v = (case v of Some (JInt i) \<Rightarrow> i | _ \<Rightarrow> 0)"

definition order_key :: "(string \<times> json) list \<Rightarrow> int \<times> string \<times> string" where
  "order_key ev = (token_or_zero (map_of ev ''fencing_token''), str_of_field ev ''writer'', str_of_field ev ''event_id'')"

definition accepted_events :: "dsm_journal \<Rightarrow> json \<Rightarrow> json \<Rightarrow> (string \<times> json) list list" where
  "accepted_events j domain entity =
     filter (\<lambda>ev. field ev ''domain'' = domain \<and> field ev ''entity'' = entity) (map event_of (transition_records j))"

text \<open>Python's \<open>max\<close> with a key: the first of the greatest.\<close>

fun max_by :: "('a \<Rightarrow> 'k::linorder) \<Rightarrow> 'a \<Rightarrow> 'a list \<Rightarrow> 'a" where
  "max_by key best [] = best"
| "max_by key best (x # xs) = max_by key (if key best < key x then x else best) xs"

definition current_value :: "dsm_journal \<Rightarrow> json \<Rightarrow> json \<Rightarrow> json option" where
  "current_value j domain entity =
     (case accepted_events j domain entity of
        [] \<Rightarrow> None
      | ev # evs \<Rightarrow> Some (field (max_by order_key ev evs) ''value''))"

record accepted_transition =
  at_seq :: json
  at_hash :: json
  at_event_id :: json
  at_domain :: json
  at_entity :: json
  at_writer :: json
  at_value :: json
  at_token :: "json option"

definition transition_of :: "dsm_record \<Rightarrow> accepted_transition" where
  "transition_of r = (let ev = event_of r in
     \<lparr>at_seq = field r ''seq'', at_hash = field r ''hash'', at_event_id = field ev ''event_id'',
      at_domain = field ev ''domain'', at_entity = field ev ''entity'', at_writer = field ev ''writer'',
      at_value = field ev ''value'', at_token = map_of ev ''fencing_token''\<rparr>)"

definition accepted_transitions :: "dsm_journal \<Rightarrow> accepted_transition list" where
  "accepted_transitions j = map transition_of (transition_records j)"

record event_provenance =
  pv_seq :: json
  pv_hash :: json
  pv_prev_hash :: json
  pv_event :: "(string \<times> json) list"

definition provenance :: "dsm_journal \<Rightarrow> json \<Rightarrow> event_provenance result" where
  "provenance j event_id = (case find_event j event_id of
     None \<Rightarrow> Inl (ContractError ''unknown accepted event'')
   | Some r \<Rightarrow> Inr \<lparr>pv_seq = field r ''seq'', pv_hash = field r ''hash'', pv_prev_hash = field r ''prev_hash'',
       pv_event = event_of r\<rparr>)"

section \<open>Admission\<close>

definition required_fields :: "string list" where
  "required_fields = [''event_id'', ''domain'', ''entity'', ''value'', ''writer'']"

definition check_fencing :: "lease_manager \<Rightarrow> (string \<times> json) list \<Rightarrow> unit result" where
  "check_fencing lm ev =
     (if str_of_field ev ''domain'' = ''task.lease'' then
        bind_r (dict_get ev ''writer_holder'') (\<lambda>_.
        bind_r (dict_get ev ''fencing_token'') (\<lambda>tok.
        bind_r (dict_get ev ''now_ms'') (\<lambda>now.
        check_lease lm (str_of_field ev ''entity'') (str_of_field ev ''writer_holder'')
          (token_or_zero (Some tok)) (token_or_zero (Some now)))))
      else Inr ())"

definition check_terminal :: "dsm_journal \<Rightarrow> (string \<times> json) list \<Rightarrow> unit result" where
  "check_terminal j ev =
     (if str_of_field ev ''domain'' = ''task.terminal'' then
        ensure (field ev ''value'' \<in> JStr ` set (terminal_transitions (current_value j (JStr ''task.terminal'') (field ev ''entity''))))
          (ContractError ''illegal terminal transition'')
      else Inr ())"

definition admit :: "(string, string) dict \<Rightarrow> lease_manager \<Rightarrow> dsm_journal \<Rightarrow> (string \<times> json) list \<Rightarrow> unit result" where
  "admit mapping lm j ev =
     bind_r (check_writer mapping (str_of_field ev ''domain'') (str_of_field ev ''writer'')) (\<lambda>_.
     bind_r (check_fencing lm ev) (\<lambda>_. check_terminal j ev))"

record dsm_ack =
  ack_seq :: json
  ack_hash :: json
  ack_disposition :: string

definition ack_of :: "dsm_record \<Rightarrow> string \<Rightarrow> dsm_ack" where
  "ack_of r d = \<lparr>ack_seq = field r ''seq'', ack_hash = field r ''hash'', ack_disposition = d\<rparr>"

definition dsm_submit :: "(string \<Rightarrow> string) \<Rightarrow> (string, string) dict \<Rightarrow> lease_manager \<Rightarrow> dsm_journal
    \<Rightarrow> (string \<times> json) list \<Rightarrow> string option \<Rightarrow> int \<Rightarrow> dsm_journal \<times> dsm_ack result" where
  "dsm_submit H mapping lm j ev crash_after time_ns =
     (case iter_r (\<lambda>f. ensure (map_of ev f \<noteq> None) (ContractError (''event missing required field '' @ f))) required_fields of
        Inl e \<Rightarrow> (j, Inl e)
      | Inr _ \<Rightarrow>
          case find_event j (field ev ''event_id'') of
            Some r \<Rightarrow> (j, Inr (ack_of r ''duplicate''))
          | None \<Rightarrow>
              case admit mapping lm j ev of
                Inl e \<Rightarrow> (j, Inl e)
              | Inr _ \<Rightarrow>
                  case journal_append H j ''transition'' (JObj [(''event'', JObj ev)]) time_ns of
                    Inl e \<Rightarrow> (j, Inl e)
                  | Inr (j', r) \<Rightarrow>
                      if crash_after = Some ''journal_write''
                      then (j', Inl (CrashError ''process died between journal write and acknowledgement''))
                      else (j', Inr (ack_of r ''accepted'')))"

definition recover :: "(string \<Rightarrow> json) \<Rightarrow> (string \<Rightarrow> string) \<Rightarrow> string \<Rightarrow> dsm_journal result" where
  "recover fl H contents = open_journal fl H contents"

section \<open>The invariant of a store\<close>

definition typed_event :: "(string \<times> json) list \<Rightarrow> bool" where
  "typed_event ev = ((\<exists>s. map_of ev ''event_id'' = Some (JStr s)) \<and> (\<exists>s. map_of ev ''domain'' = Some (JStr s))
     \<and> (\<exists>s. map_of ev ''entity'' = Some (JStr s)) \<and> (\<exists>s. map_of ev ''writer'' = Some (JStr s))
     \<and> (map_of ev ''fencing_token'' = None \<or> (\<exists>i. map_of ev ''fencing_token'' = Some (JInt i))))"

definition is_transition :: "(string \<Rightarrow> json) \<Rightarrow> dsm_record \<Rightarrow> bool" where
  "is_transition fl r = (\<exists>ev. map_of r ''kind'' = Some (JStr ''transition'')
     \<and> map_of r ''payload'' = Some (JObj [(''event'', JObj ev)]) \<and> typed_event ev \<and> wf_json fl (JObj ev))"

abbreviation event_id_of :: "dsm_record \<Rightarrow> json" where
  "event_id_of r \<equiv> field (event_of r) ''event_id''"

definition store_ok :: "(string \<Rightarrow> json) \<Rightarrow> (string \<Rightarrow> string) \<Rightarrow> dsm_journal \<Rightarrow> bool" where
  "store_ok fl H j = (journal_ok fl H j \<and> list_all (is_transition fl) (dj_records j) \<and> distinct (map event_id_of (dj_records j)))"

lemma is_transitionE:
  assumes "is_transition fl r"
  obtains ev where "field r ''kind'' = JStr ''transition''" "map_of r ''payload'' = Some (JObj [(''event'', JObj ev)])"
    "event_of r = ev" "typed_event ev" "wf_json fl (JObj ev)"
  using assms by (auto simp: is_transition_def field_def object_of_def)

lemma transition_records_all:
  assumes "store_ok fl H j"
  shows "transition_records j = dj_records j"
proof -
  have "replay j (-1) = dj_records j" using assms by (auto simp: store_ok_def intro: replay_all)
  moreover have "field r ''kind'' = JStr ''transition''" if "r \<in> set (dj_records j)" for r
    using assms that by (auto simp: store_ok_def list_all_iff elim: is_transitionE)
  ultimately show ?thesis by (simp add: transition_records_def)
qed

lemma field_norm: "distinct (map fst r) \<Longrightarrow> field (norm_record r) k = norm_json (field r k)"
  by (simp add: field_def map_of_norm_record split: option.splits)

lemma str_of_field_norm: "distinct (map fst r) \<Longrightarrow> str_of_field (norm_record r) k = str_of_field r k"
  by (auto simp: str_of_field_def map_of_norm_record split: option.splits json.splits)

text \<open>Reading a record back changes neither what identifies its event nor where it stands.\<close>

lemma norm_transition:
  assumes "is_transition fl r" and "wf_record fl r"
  shows "is_transition fl (norm_record r)" and "event_of (norm_record r) = norm_record (event_of r)"
    and "event_id_of (norm_record r) = event_id_of r" and "field (norm_record r) ''seq'' = field r ''seq''"
    and "field (norm_record r) ''hash'' = field r ''hash''"
proof -
  obtain ev where ev: "field r ''kind'' = JStr ''transition''" "map_of r ''payload'' = Some (JObj [(''event'', JObj ev)])"
    "event_of r = ev" "typed_event ev" "wf_json fl (JObj ev)" using is_transitionE [OF assms(1)] .
  have d: "distinct (map fst ev)" using ev(5) by simp
  have dr: "distinct (map fst r)" using assms(2) by (auto elim: wf_recordE)
  have pay: "map_of (norm_record r) ''payload'' = Some (JObj [(''event'', JObj (norm_record ev))])"
    unfolding map_of_norm_record [OF dr] ev(2) by (simp add: norm_record_def)
  then show e: "event_of (norm_record r) = norm_record (event_of r)" using ev(3) by (simp add: field_def object_of_def)
  have "typed_event (norm_record ev)" using ev(4) by (auto simp: typed_event_def map_of_norm_record [OF d])
  moreover have "wf_json fl (JObj (norm_record ev))" using wf_norm_json [OF ev(5)] by (simp only: norm_record_json)
  moreover have "map_of (norm_record r) ''kind'' = Some (JStr ''transition'')"
    using assms(1) by (auto simp: map_of_norm_record [OF dr] is_transition_def)
  ultimately show "is_transition fl (norm_record r)" unfolding is_transition_def using pay by blast
  show "event_id_of (norm_record r) = event_id_of r"
    unfolding e using ev(3,4) by (auto simp: field_def map_of_norm_record [OF d] typed_event_def)
  show "field (norm_record r) ''seq'' = field r ''seq''" "field (norm_record r) ''hash'' = field r ''hash''"
    using assms(2) by (auto simp: field_def map_of_norm_record [OF dr] elim!: wf_recordE)
qed

lemma store_records:
  assumes "store_ok fl H j" and "r \<in> set (dj_records j)"
  shows "is_transition fl r" and "wf_record fl r" and "typed_event (event_of r)" and "wf_json fl (JObj (event_of r))"
proof -
  show t: "is_transition fl r" and "wf_record fl r"
    using assms by (auto simp: store_ok_def journal_ok_def list_all_iff)
  show "typed_event (event_of r)" and "wf_json fl (JObj (event_of r))"
    using is_transitionE [OF t] by metis+
qed

lemma records_norm: "dj_records (norm_journal j) = map norm_record (dj_records j)"
  by (simp add: norm_journal_def)

lemma store_ok_norm:
  assumes "store_ok fl H j"
  shows "store_ok fl H (norm_journal j)"
proof -
  note each = store_records(1,2) [OF assms]
  have "map (event_id_of \<circ> norm_record) (dj_records j) = map event_id_of (dj_records j)"
    using norm_transition(3) [OF each] by simp
  then have "distinct (map event_id_of (dj_records (norm_journal j)))"
    unfolding norm_journal_def using assms by (simp add: store_ok_def del: map_eq_conv)
  moreover have "list_all (is_transition fl) (dj_records (norm_journal j))"
    using norm_transition(1) [OF each] by (auto simp: norm_journal_def list_all_iff)
  ultimately show ?thesis using assms by (simp add: store_ok_def journal_ok_norm)
qed

lemma recover_ok: "store_ok fl H j \<Longrightarrow> recover fl H (dj_file j) = Inr (norm_journal j)"
  by (simp add: recover_def store_ok_def open_written)

lemma find_distinct:
  "distinct (map f xs) \<Longrightarrow> x \<in> set xs \<Longrightarrow> List.find (\<lambda>y. f y = f x) xs = Some x"
  by (induction xs) force+

lemma find_event_in:
  assumes "store_ok fl H j" and "r \<in> set (dj_records j)"
  shows "find_event j (event_id_of r) = Some r"
  using assms find_distinct [of event_id_of "dj_records j" r]
  by (simp add: find_event_def transition_records_all [OF assms(1)] store_ok_def)

lemma find_event_None:
  assumes "store_ok fl H j"
  shows "find_event j eid = None \<longleftrightarrow> eid \<notin> event_id_of ` set (dj_records j)"
  by (auto simp: find_event_def transition_records_all [OF assms] find_None_iff)

lemma ensure_raised: "ensure b e = Inl e' \<Longrightarrow> \<not> b"
  by (simp add: ensure_Inl_iff)

text \<open>What \<open>dsm_submit\<close> can do to the journal: nothing, or one append of an admitted new event.\<close>

lemma submit_cases:
  assumes "dsm_submit H mp lm j ev crash t = (j', res)"
  obtains (unchanged) "j' = j"
  | (written) r where "find_event j (field ev ''event_id'') = None"
      "journal_append H j ''transition'' (JObj [(''event'', JObj ev)]) t = Inr (j', r)"
      "res = (if crash = Some ''journal_write'' then Inl (CrashError ''process died between journal write and acknowledgement'')
        else Inr (ack_of r ''accepted''))"
  using assms by (auto simp: dsm_submit_def split: sum.splits option.splits if_splits)

lemma submit_keeps_store:
  assumes "store_ok fl H j" and "dsm_submit H mp lm j ev crash t = (j', res)" and "typed_event ev" and "wf_json fl (JObj ev)"
    and "list_all (\<lambda>r. no_breaks (dumps (JObj r))) (dj_records j')"
  shows "store_ok fl H j' \<and> set (dj_records j) \<subseteq> set (dj_records j')"
  using assms(2)
proof (cases rule: submit_cases)
  case unchanged
  then show ?thesis using assms(1) by simp
next
  case (written r)
  have recs: "dj_records j' = dj_records j @ [r]"
    using written(2) by (auto simp: journal_append_def Let_def result_simps)
  have pay: "wf_json fl (JObj [(''event'', JObj ev)])" using assms(4) by simp
  have app: "journal_ok fl H j'" "wf_record fl r" "map_of r ''kind'' = Some (JStr ''transition'')"
      "map_of r ''payload'' = Some (JObj [(''event'', JObj ev)])"
    using journal_ok_append [OF _ written(2) pay] assms(1,5) recs by (auto simp: store_ok_def)
  have ev: "event_of r = ev" using app(4) by (simp add: field_def object_of_def)
  have "is_transition fl r" using app(3,4) assms(3,4) by (auto simp: is_transition_def)
  moreover have "event_id_of r \<notin> event_id_of ` set (dj_records j)"
    using written(1) find_event_None [OF assms(1)] by (simp add: ev)
  ultimately show ?thesis using assms(1) app(1) by (auto simp: store_ok_def recs)
qed

section \<open>Runs of a store\<close>

text \<open>A step submits an event (with any ownership mapping and lease table, crashing or not) or restarts the store
  from its journal file. Events are readable and their records are single lines.\<close>

inductive dsm_steps :: "(string \<Rightarrow> json) \<Rightarrow> (string \<Rightarrow> string) \<Rightarrow> dsm_journal \<Rightarrow> dsm_journal \<Rightarrow> bool" for fl H j0 where
  none: "dsm_steps fl H j0 j0"
| submitted: "dsm_steps fl H j0 j \<Longrightarrow> dsm_submit H mp lm j ev crash t = (j', res) \<Longrightarrow> typed_event ev \<Longrightarrow> wf_json fl (JObj ev)
    \<Longrightarrow> list_all (\<lambda>r. no_breaks (dumps (JObj r))) (dj_records j') \<Longrightarrow> dsm_steps fl H j0 j'"
| recovered: "dsm_steps fl H j0 j \<Longrightarrow> recover fl H (dj_file j) = Inr j' \<Longrightarrow> dsm_steps fl H j0 j'"

definition empty_journal :: dsm_journal where
  "empty_journal = \<lparr>dj_file = [], dj_records = [], dj_head = GENESIS\<rparr>"

lemma store_ok_empty: "store_ok fl H empty_journal"
  by (simp add: store_ok_def empty_journal_def journal_ok_empty)

definition placed :: "dsm_journal \<Rightarrow> (json \<times> json \<times> json) set" where
  "placed j = (\<lambda>r. (event_id_of r, field r ''seq'', field r ''hash'')) ` set (dj_records j)"

lemma placed_norm:
  assumes "store_ok fl H j"
  shows "placed (norm_journal j) = placed j"
proof -
  note each = store_records(1,2) [OF assms]
  show ?thesis
    unfolding placed_def norm_journal_def
    using norm_transition(3-5) [OF each] by (simp add: image_image)
qed

lemma steps_keep_store:
  assumes "dsm_steps fl H j0 j" and "store_ok fl H j0"
  shows "store_ok fl H j \<and> placed j0 \<subseteq> placed j"
  using assms
proof (induction rule: dsm_steps.induct)
  case none
  then show ?case by simp
next
  case (submitted j mp lm ev crash t j' res)
  then have "store_ok fl H j" and sub: "placed j0 \<subseteq> placed j" by auto
  from submit_keeps_store [OF this(1) submitted.hyps(2-5)] sub show ?case by (auto simp: placed_def)
next
  case (recovered j j')
  then have ok: "store_ok fl H j" and sub: "placed j0 \<subseteq> placed j" by auto
  then have "j' = norm_journal j" using recovered.hyps(2) recover_ok [OF ok] by simp
  then show ?case using sub by (simp add: store_ok_norm [OF ok] placed_norm [OF ok])
qed

lemma submit_again:
  assumes "store_ok fl H j" and "(field ev ''event_id'', sq, h) \<in> placed j" and "\<And>f. f \<in> set required_fields \<Longrightarrow> map_of ev f \<noteq> None"
  shows "dsm_submit H mp lm j ev crash t = (j, Inr \<lparr>ack_seq = sq, ack_hash = h, ack_disposition = ''duplicate''\<rparr>)"
proof -
  obtain r where r: "r \<in> set (dj_records j)" "event_id_of r = field ev ''event_id''" "field r ''seq'' = sq" "field r ''hash'' = h"
    using assms(2) by (auto simp: placed_def)
  have "find_event j (field ev ''event_id'') = Some r" using find_event_in [OF assms(1) r(1)] r(2) by simp
  moreover have "iter_r (\<lambda>f. ensure (map_of ev f \<noteq> None) (ContractError (''event missing required field '' @ f))) required_fields = Inr ()"
    using assms(3) by (simp add: iter_r_Inr_iff ensure_Inr_iff)
  ultimately show ?thesis using r(3,4) by (simp add: dsm_submit_def ack_of_def)
qed

text \<open>C17. Exactly once. Take any store reached from an empty journal by submissions, crashes and recoveries, and an
  event that a submission has journaled there, whether it was acknowledged or the process died before the
  acknowledgement. In every later state, after any further submissions, crashes and recoveries, a retry of the event
  (any event with its identifier) leaves the journal untouched and returns the same sequence number and hash, those
  of the acknowledgement if there was one; and no two journaled transitions ever carry the same identifier.\<close>

theorem dsm_exactly_once:
  assumes "dsm_steps fl H empty_journal j" and "dsm_submit H mp lm j ev crash t = (j', res)" and "j' \<noteq> j"
    and "typed_event ev" and "wf_json fl (JObj ev)" and "list_all (\<lambda>r. no_breaks (dumps (JObj r))) (dj_records j')"
    and "dsm_steps fl H j' j''" and "field ev2 ''event_id'' = field ev ''event_id''" and "\<And>f. f \<in> set required_fields \<Longrightarrow> map_of ev2 f \<noteq> None"
  shows "\<exists>sq h. dsm_submit H mp2 lm2 j'' ev2 crash2 t2 = (j'', Inr \<lparr>ack_seq = sq, ack_hash = h, ack_disposition = ''duplicate''\<rparr>)
      \<and> (res = Inr \<lparr>ack_seq = sq, ack_hash = h, ack_disposition = ''accepted''\<rparr>
         \<or> crash = Some ''journal_write'' \<and> res = Inl (CrashError ''process died between journal write and acknowledgement''))
      \<and> distinct (map at_event_id (accepted_transitions j''))"
  using assms(2)
proof (cases rule: submit_cases)
  case unchanged
  then show ?thesis using assms(3) by simp
next
  case (written r)
  have ok: "store_ok fl H j" using steps_keep_store [OF assms(1) store_ok_empty] by simp
  have ok': "store_ok fl H j'" using submit_keeps_store [OF ok assms(2,4-6)] by simp
  have ok'': "store_ok fl H j''" and sub: "placed j' \<subseteq> placed j''" using steps_keep_store [OF assms(7) ok'] by auto
  have in_j': "r \<in> set (dj_records j')" and pay: "map_of r ''payload'' = Some (JObj [(''event'', JObj ev)])"
    using written(2) by (auto simp: journal_append_def Let_def result_simps entry_body_def)
  have "event_of r = ev" using pay by (simp add: field_def object_of_def)
  then have "(field ev2 ''event_id'', field r ''seq'', field r ''hash'') \<in> placed j''"
    using in_j' sub assms(8) by (force simp: placed_def)
  note again = submit_again [OF ok'' this assms(9)]
  have "distinct (map at_event_id (accepted_transitions j''))"
    using ok'' by (simp add: accepted_transitions_def transition_of_def Let_def comp_def transition_records_all [OF ok''] store_ok_def)
  then show ?thesis using again written(3) by (auto simp: ack_of_def)
qed

section \<open>Recovery reproduces the projections\<close>

lemma order_key_norm:
  assumes "wf_json fl (JObj ev)"
  shows "order_key (norm_record ev) = order_key ev"
proof -
  have d: "distinct (map fst ev)" using assms by simp
  have "token_or_zero (map_option norm_json v) = token_or_zero v" for v
    by (auto simp: token_or_zero_def split: option.splits json.splits)
  then show ?thesis by (simp add: order_key_def str_of_field_norm [OF d] map_of_norm_record [OF d])
qed

lemma max_by_map:
  assumes "\<And>x. x \<in> set (b # xs) \<Longrightarrow> key (f x) = key x"
  shows "max_by key (f b) (map f xs) = f (max_by key b xs) \<and> max_by key b xs \<in> set (b # xs)"
  using assms
proof (induction xs arbitrary: b)
  case (Cons x xs)
  then show ?case using Cons.IH [of x] Cons.IH [of b] by auto
qed simp

lemma norm_string_field:
  assumes "typed_event ev" and "wf_json fl (JObj ev)" and "k \<in> {''event_id'', ''domain'', ''entity'', ''writer''}"
  shows "field (norm_record ev) k = field ev k"
proof -
  have d: "distinct (map fst ev)" using assms(2) by simp
  show ?thesis using assms(1,3) by (auto simp: field_def map_of_norm_record [OF d] typed_event_def)
qed

lemma accepted_events_norm:
  assumes "store_ok fl H j"
  shows "accepted_events (norm_journal j) d e = map norm_record (accepted_events j d e)"
proof -
  have "filter P (map event_of (map norm_record rs)) = map norm_record (filter P (map event_of rs))"
    if "list_all (is_transition fl) rs" "list_all (wf_record fl) rs" and P: "P = (\<lambda>ev. field ev ''domain'' = d \<and> field ev ''entity'' = e)" for rs P
    using that(1,2)
  proof (induction rs)
    case (Cons r rs)
    then have r: "is_transition fl r" "wf_record fl r" by auto
    obtain ev where ev: "event_of r = ev" "typed_event ev" "wf_json fl (JObj ev)" using is_transitionE [OF r(1)] by metis
    have "P (norm_record ev) = P ev" using norm_string_field [OF ev(2,3)] by (simp add: P)
    then show ?case using Cons norm_transition(2) [OF r] ev(1) by simp
  qed simp
  then show ?thesis
    unfolding accepted_events_def transition_records_all [OF assms] transition_records_all [OF store_ok_norm [OF assms]]
    using assms by (simp add: norm_journal_def store_ok_def journal_ok_def del: map_map)
qed

lemma current_value_norm:
  assumes "store_ok fl H j"
  shows "current_value (norm_journal j) d e = map_option norm_json (current_value j d e)"
proof (cases "accepted_events j d e")
  case Nil
  then show ?thesis by (simp add: current_value_def accepted_events_norm [OF assms])
next
  case (Cons ev evs)
  have wf: "wf_json fl (JObj x)" if "x \<in> set (ev # evs)" for x
  proof -
    have "x \<in> event_of ` set (dj_records j)"
      using that unfolding Cons [symmetric] by (auto simp: accepted_events_def transition_records_all [OF assms])
    then show ?thesis using store_records(4) [OF assms] by blast
  qed
  have m: "max_by order_key (norm_record ev) (map norm_record evs) = norm_record (max_by order_key ev evs)"
    "max_by order_key ev evs \<in> set (ev # evs)"
    using max_by_map [of ev evs order_key norm_record] order_key_norm [OF wf] by auto
  have "distinct (map fst (max_by order_key ev evs))" using wf [OF m(2)] by simp
  then show ?thesis by (simp add: current_value_def accepted_events_norm [OF assms] Cons m(1) field_norm)
qed


section \<open>Examples\<close>

definition terminal_event :: "string \<Rightarrow> string \<Rightarrow> (string \<times> json) list" where
  "terminal_event i v = [(''event_id'', JStr i), (''domain'', JStr ''task.terminal''), (''entity'', JStr ''t1''),
     (''value'', JStr v), (''writer'', JStr ''orchestrator'')]"

definition submit_all :: "(string \<Rightarrow> string) \<Rightarrow> dsm_journal \<Rightarrow> (string \<times> string) list \<Rightarrow> dsm_journal" where
  "submit_all H j evs = fold (\<lambda>(i, v) j. fst (dsm_submit H DOMAINS new_leases j (terminal_event i v) None 0)) evs j"

lemma terminal_event_typed: "typed_event (terminal_event i v) \<and> wf_json fl (JObj (terminal_event i v))"
  by (simp add: typed_event_def terminal_event_def)

text \<open>Terminal states are not absorbing: the current value is the one with the greatest event identifier, so after
  \<open>running\<close> (event \<open>b\<close>) and \<open>succeeded\<close> (event \<open>a\<close>) the task still counts as running and \<open>failed\<close> is accepted.\<close>

lemma terminal_states_not_absorbing:
  "map at_value (accepted_transitions (submit_all sample_hash empty_journal [(''b'', ''running''), (''a'', ''succeeded''), (''c'', ''failed'')])) =
     [JStr ''running'', JStr ''succeeded'', JStr ''failed'']"
  by code_simp

text \<open>A value with a Unicode line separator is journaled and acknowledged, but the store cannot be recovered.\<close>

lemma separator_breaks_recovery:
  "let res = dsm_submit sample_hash [(''integration.intent'', ''integrator'')] new_leases empty_journal
       [(''event_id'', JStr ''e''), (''domain'', JStr ''integration.intent''), (''entity'', JStr ''t''),
        (''value'', JStr [CHR 0xE2, CHR 0x80, CHR 0xA8]), (''writer'', JStr ''integrator'')] None 0 in
   is_ok (snd res) \<and> \<not> is_ok (recover exact_float sample_hash (dj_file (fst res)))"
  by code_simp

abbreviation sample_journal :: dsm_journal where
  "sample_journal \<equiv> fst (dsm_submit sample_hash DOMAINS new_leases empty_journal (terminal_event ''e'' ''running'') (Some ''journal_write'') 0)"

lemma sample_journal_lines: "list_all (\<lambda>r. no_breaks (dumps (JObj r))) (dj_records sample_journal)"
  by code_simp

lemma sample_journal_changed: "sample_journal \<noteq> empty_journal"
proof -
  have "length (dj_records sample_journal) = 1" by code_simp
  then show ?thesis by (auto simp: empty_journal_def)
qed

lemma sample_journal_step: "dsm_steps exact_float sample_hash empty_journal sample_journal"
  using dsm_steps.submitted [OF dsm_steps.none prod.collapse [symmetric]] terminal_event_typed sample_journal_lines by blast

theorem dsm_exactly_once_witness:
  "\<exists>sq h j'. recover exact_float sample_hash (dj_file sample_journal) = Inr j'
     \<and> dsm_submit sample_hash DOMAINS new_leases j' (terminal_event ''e'' ''running'') None 7
         = (j', Inr \<lparr>ack_seq = sq, ack_hash = h, ack_disposition = ''duplicate''\<rparr>)"
proof -
  have ok: "store_ok exact_float sample_hash sample_journal" using steps_keep_store [OF sample_journal_step store_ok_empty] by simp
  have rec: "dsm_steps exact_float sample_hash sample_journal (norm_journal sample_journal)"
    using dsm_steps.recovered [OF dsm_steps.none recover_ok [OF ok]] .
  have "\<And>f. f \<in> set required_fields \<Longrightarrow> map_of (terminal_event ''e'' ''running'') f \<noteq> None"
    by (auto simp: required_fields_def terminal_event_def)
  from dsm_exactly_once [OF dsm_steps.none prod.collapse [symmetric] sample_journal_changed
      terminal_event_typed [THEN conjunct1] terminal_event_typed [THEN conjunct2] sample_journal_lines rec refl this, of DOMAINS new_leases None 7]
  show ?thesis using recover_ok [OF ok] by blast
qed


end
