(* ===== verification/Dsm_Delivery.thy ===== *)
theory Dsm_Delivery
  imports Dsm_Store "HOL-Library.Multiset"
begin

text \<open>
  Delivery between stations: the outbox with its acknowledgement log and the deduplicating inbox
  (\<open>src/residual/dsm/delivery.py\<close>), and the deterministic faulty channel (\<open>src/residual/dsm/faults.py\<close>).

  \<^item> Each of the three logs is a journal with the index the source keeps in memory. Event identifiers are strings
    and the indices of a fault schedule are natural numbers.
  \<^item> Shown: what the channel delivers for every schedule, and that one round of sending, delivering and
    acknowledging accepts every event that was not lost exactly once and leaves exactly the lost ones pending.
\<close>

section \<open>The acknowledgement log\<close>

type_synonym dsm_event = "(string \<times> json) list"

record ack_log =
  al_journal :: dsm_journal
  al_acked :: "string list"

definition open_ack_log :: "(string \<Rightarrow> json) \<Rightarrow> (string \<Rightarrow> string) \<Rightarrow> string \<Rightarrow> ack_log result" where
  "open_ack_log fl H contents =
     bind_r (open_journal fl H contents) (\<lambda>j.
     Inr \<lparr>al_journal = j, al_acked = map (\<lambda>r. str_of_field (object_of (field r ''payload'')) ''event_id'') (replay j (-1))\<rparr>)"

definition is_acked :: "ack_log \<Rightarrow> string \<Rightarrow> bool" where
  "is_acked al eid = (eid \<in> set (al_acked al))"

definition ack :: "(string \<Rightarrow> string) \<Rightarrow> ack_log \<Rightarrow> string \<Rightarrow> int \<Rightarrow> (ack_log \<times> bool) result" where
  "ack H al eid time_ns =
     (if is_acked al eid then Inr (al, False)
      else bind_r (journal_append H (al_journal al) ''ack'' (JObj [(''event_id'', JStr eid)]) time_ns) (\<lambda>(j, _).
        Inr (\<lparr>al_journal = j, al_acked = eid # al_acked al\<rparr>, True)))"

section \<open>The outbox\<close>

record outbox =
  ob_journal :: dsm_journal
  ob_acks :: ack_log
  ob_sent :: "(string, dsm_event) dict"

definition open_outbox :: "(string \<Rightarrow> json) \<Rightarrow> (string \<Rightarrow> string) \<Rightarrow> string \<Rightarrow> string \<Rightarrow> outbox result" where
  "open_outbox fl H contents ack_contents =
     bind_r (open_journal fl H contents) (\<lambda>j.
     bind_r (open_ack_log fl H ack_contents) (\<lambda>al.
     Inr \<lparr>ob_journal = j, ob_acks = al,
       ob_sent = fold (\<lambda>r d. AList.update (str_of_field (event_of r) ''event_id'') (event_of r) d)
         (filter (\<lambda>r. field r ''kind'' = JStr ''send'') (replay j (-1))) []\<rparr>))"

definition publish_event :: "(string \<Rightarrow> string) \<Rightarrow> outbox \<Rightarrow> dsm_event \<Rightarrow> int \<Rightarrow> (outbox \<times> string) result" where
  "publish_event H ob ev time_ns =
     bind_r (dict_get ev ''event_id'') (\<lambda>_.
     let eid = str_of_field ev ''event_id'' in
     if map_of (ob_sent ob) eid \<noteq> None then Inr (ob, eid)
     else bind_r (journal_append H (ob_journal ob) ''send'' (JObj [(''event'', JObj ev)]) time_ns) (\<lambda>(j, _).
       Inr (ob\<lparr>ob_journal := j, ob_sent := ob_sent ob @ [(eid, ev)]\<rparr>, eid)))"

definition outbox_pending :: "outbox \<Rightarrow> dsm_event list" where
  "outbox_pending ob = map snd (filter (\<lambda>(eid, ev). \<not> is_acked (ob_acks ob) eid) (sort_key fst (ob_sent ob)))"

definition outbox_ack :: "(string \<Rightarrow> string) \<Rightarrow> outbox \<Rightarrow> string \<Rightarrow> int \<Rightarrow> (outbox \<times> bool) result" where
  "outbox_ack H ob eid time_ns = bind_r (ack H (ob_acks ob) eid time_ns) (\<lambda>(al, b). Inr (ob\<lparr>ob_acks := al\<rparr>, b))"

section \<open>The inbox\<close>

record inbox =
  ib_journal :: dsm_journal
  ib_seen :: "(string, json) dict"

definition open_inbox :: "(string \<Rightarrow> json) \<Rightarrow> (string \<Rightarrow> string) \<Rightarrow> string \<Rightarrow> inbox result" where
  "open_inbox fl H contents =
     bind_r (open_journal fl H contents) (\<lambda>j.
     Inr \<lparr>ib_journal = j,
       ib_seen = fold (\<lambda>r d. AList.update (str_of_field (event_of r) ''event_id'') (field (object_of (field r ''payload'')) ''disposition'') d)
         (filter (\<lambda>r. field r ''kind'' = JStr ''deliver'') (replay j (-1))) []\<rparr>)"

definition inbox_deliver :: "(string \<Rightarrow> string) \<Rightarrow> inbox \<Rightarrow> dsm_event \<Rightarrow> int \<Rightarrow> (inbox \<times> string) result" where
  "inbox_deliver H ib ev time_ns =
     bind_r (dict_get ev ''event_id'') (\<lambda>_.
     let eid = str_of_field ev ''event_id'' in
     if map_of (ib_seen ib) eid \<noteq> None then Inr (ib, ''duplicate'')
     else bind_r (journal_append H (ib_journal ib) ''deliver'' (JObj [(''event'', JObj ev), (''disposition'', JStr ''accepted'')]) time_ns) (\<lambda>(j, _).
       Inr (\<lparr>ib_journal = j, ib_seen = AList.update eid (JStr ''accepted'') (ib_seen ib)\<rparr>, ''accepted'')))"

definition seen :: "inbox \<Rightarrow> string \<Rightarrow> bool" where
  "seen ib eid = (map_of (ib_seen ib) eid \<noteq> None)"

section \<open>The faulty channel\<close>

record fault =
  ft_at :: nat
  ft_kind :: string
  ft_param :: int

definition at_index :: "fault list \<Rightarrow> nat \<Rightarrow> fault list" where
  "at_index sch i = filter (\<lambda>f. ft_at f = i) sch"

definition swap_at :: "nat \<Rightarrow> 'a list \<Rightarrow> 'a list" where
  "swap_at i ms = (if i + 1 < length ms then ms[i := ms ! (i + 1), i + 1 := ms ! i] else ms)"

definition reorder :: "fault list \<Rightarrow> 'a list \<Rightarrow> 'a list" where
  "reorder sch ms = fold swap_at (sort (remdups (map ft_at (filter (\<lambda>f. ft_kind f = ''reorder'') sch)))) ms"

text \<open>\<open>faults = {f.kind: f ...}\<close>: the last fault of a kind at an index counts.\<close>

definition fault_at :: "fault list \<Rightarrow> nat \<Rightarrow> string \<Rightarrow> fault option" where
  "fault_at sch i kind = List.find (\<lambda>f. ft_kind f = kind) (rev (at_index sch i))"

definition release_held :: "'a list \<Rightarrow> (nat \<times> int) list \<Rightarrow> 'a list" where
  "release_held ms held = map (\<lambda>(i, c). ms ! i) (filter (\<lambda>(i, c). c - 1 \<le> 0) (sort_key fst held))"

definition keep_held :: "(nat \<times> int) list \<Rightarrow> (nat \<times> int) list" where
  "keep_held held = map (\<lambda>(i, c). (i, c - 1)) (filter (\<lambda>(i, c). c - 1 > 0) held)"

definition delay_cycles :: "fault \<Rightarrow> int" where
  "delay_cycles f = max 1 (if ft_param f = 0 then 1 else ft_param f)"

fun pump :: "fault list \<Rightarrow> 'a list \<Rightarrow> nat list \<Rightarrow> (nat \<times> int) list \<Rightarrow> 'a list \<Rightarrow> 'a list" where
  "pump sch ms [] held out = out @ map (\<lambda>(i, c). ms ! i) (sort_key fst held)"
| "pump sch ms (i # is) held out =
     (let out1 = out @ release_held ms held; held1 = keep_held held in
      if fault_at sch i ''loss'' \<noteq> None then pump sch ms is held1 out1
      else case fault_at sch i ''delay'' of
        Some f \<Rightarrow> pump sch ms is (held1 @ [(i, delay_cycles f)]) out1
      | None \<Rightarrow> pump sch ms is held1
          (out1 @ [ms ! i] @ (if fault_at sch i ''duplicate'' \<noteq> None then [ms ! i] else [])))"

definition transmit :: "fault list \<Rightarrow> 'a list \<Rightarrow> 'a list" where
  "transmit sch ms = (let ms' = reorder sch ms in pump sch ms' [0..<length ms'] [] [])"

section \<open>What the channel delivers\<close>

definition lost :: "fault list \<Rightarrow> nat \<Rightarrow> bool" where
  "lost sch i = (fault_at sch i ''loss'' \<noteq> None)"

definition duplicated :: "fault list \<Rightarrow> nat \<Rightarrow> bool" where
  "duplicated sch i = (\<not> lost sch i \<and> fault_at sch i ''delay'' = None \<and> fault_at sch i ''duplicate'' \<noteq> None)"

lemma mset_swap_at: "mset (swap_at i ms) = mset ms"
  by (simp add: swap_at_def mset_swap)

lemma mset_reorder: "mset (reorder sch ms) = mset ms"
proof -
  have "mset (fold swap_at is ms) = mset ms" for "is" by (induction "is" arbitrary: ms) (simp_all add: mset_swap_at)
  then show ?thesis by (simp add: reorder_def)
qed

lemma released_or_kept:
  "mset (release_held ms held) + image_mset (\<lambda>(i, c). ms ! i) (mset (keep_held held)) = image_mset (\<lambda>(i, c). ms ! i) (mset held)"
proof -
  have "image_mset (\<lambda>(i, c). ms ! i) (mset (keep_held held)) = image_mset (\<lambda>(i, c). ms ! i) (filter_mset (\<lambda>(i, c). \<not> c - 1 \<le> 0) (mset held))"
    by (simp add: keep_held_def image_mset.compositionality comp_def case_prod_unfold not_le)
  moreover have "mset (release_held ms held) = image_mset (\<lambda>(i, c). ms ! i) (filter_mset (\<lambda>(i, c). c - 1 \<le> 0) (mset held))"
    by (simp add: release_held_def filter_sort [symmetric] del: mset_filter)
      (simp add: case_prod_unfold)
  ultimately show ?thesis
    by (metis (no_types, lifting) case_prod_unfold filter_mset_cong image_mset_union multiset_partition)
qed

lemma mset_pump:
  "mset (pump sch ms is held out) =
     mset out + image_mset (\<lambda>(i, c). ms ! i) (mset held)
     + mset (map (\<lambda>i. ms ! i) (filter (\<lambda>i. \<not> lost sch i) is)) + mset (map (\<lambda>i. ms ! i) (filter (duplicated sch) is))"
proof (induction sch ms "is" held out rule: pump.induct)
  case (1 sch ms held out)
  then show ?case by simp
next
  case (2 sch ms i "is" held out)
  show ?case
    using 2 released_or_kept [of ms held, symmetric]
    by (auto simp: Let_def lost_def duplicated_def split: option.splits)
qed

lemma reorder_facts: "length (reorder sch ms) = length ms" "set (reorder sch ms) = set ms"
  by (rule mset_eq_length [OF mset_reorder], rule mset_eq_setD [OF mset_reorder])

lemma transmit_delivers:
  "mset (transmit sch ms) =
     mset (map (\<lambda>i. reorder sch ms ! i) (filter (\<lambda>i. \<not> lost sch i) [0..<length ms]))
     + mset (map (\<lambda>i. reorder sch ms ! i) (filter (duplicated sch) [0..<length ms]))"
  by (simp add: transmit_def mset_pump reorder_facts)

lemma set_transmit: "set (transmit sch ms) = {reorder sch ms ! i |i. i < length ms \<and> \<not> lost sch i}"
proof -
  have "set_mset (mset (transmit sch ms)) = {reorder sch ms ! i |i. i < length ms \<and> \<not> lost sch i}"
    unfolding transmit_delivers by (auto simp: duplicated_def)
  then show ?thesis by simp
qed

lemma transmit_subset: "set (transmit sch ms) \<subseteq> set ms"
proof -
  note r = reorder_facts [of sch ms]
  then show ?thesis unfolding set_transmit using nth_mem [of _ "reorder sch ms"] by auto
qed

lemma transmit_lossless: "(\<And>i. \<not> lost sch i) \<Longrightarrow> set (transmit sch ms) = set ms"
proof -
  assume a: "\<And>i. \<not> lost sch i"
  note r = reorder_facts [of sch ms]
  have "set (transmit sch ms) = {reorder sch ms ! i |i. i < length (reorder sch ms)}" using a r(1) by (simp add: set_transmit)
  then show ?thesis using r(2) by (metis set_conv_nth)
qed

section \<open>A round of delivery\<close>

abbreviation id_of :: "dsm_event \<Rightarrow> string" where
  "id_of ev \<equiv> str_of_field ev ''event_id''"

fun deliver_all :: "(string \<Rightarrow> string) \<Rightarrow> inbox \<Rightarrow> dsm_event list \<Rightarrow> (inbox \<times> string list) result" where
  "deliver_all H ib [] = Inr (ib, [])"
| "deliver_all H ib (ev # evs) =
     bind_r (inbox_deliver H ib ev 0) (\<lambda>(ib1, d). bind_r (deliver_all H ib1 evs) (\<lambda>(ib2, ds). Inr (ib2, d # ds)))"

definition ack_all :: "(string \<Rightarrow> string) \<Rightarrow> outbox \<Rightarrow> dsm_event list \<Rightarrow> outbox result" where
  "ack_all H ob evs = fold_r (\<lambda>ob ev. bind_r (outbox_ack H ob (id_of ev) 0) (\<lambda>(ob', _). Inr ob')) ob evs"

definition sendable :: "dsm_event \<Rightarrow> bool" where
  "sendable ev = (map_of ev ''event_id'' = Some (JStr (id_of ev)) \<and> finite_json (JObj ev))"

definition outbox_ok :: "outbox \<Rightarrow> bool" where
  "outbox_ok ob = (distinct (map fst (ob_sent ob)) \<and> (\<forall>(eid, ev) \<in> set (ob_sent ob). sendable ev \<and> id_of ev = eid))"

lemma journal_append_ok:
  "finite_json payload \<Longrightarrow> \<exists>j' r. journal_append H j kind payload t = Inr (j', r)"
  by (simp add: journal_append_def Let_def digest_def canonical_def entry_body_def)

lemma publish_keeps_outbox:
  assumes "outbox_ok ob" and "publish_event H ob ev t = Inr (ob', eid)" and "sendable ev"
  shows "outbox_ok ob'"
  using assms by (auto simp: publish_event_def outbox_ok_def result_simps Let_def map_of_eq_None_iff split: if_splits prod.splits)

lemma inbox_deliver_ok:
  assumes "sendable ev"
  shows "\<exists>ib'. inbox_deliver H ib ev t = Inr (ib', if seen ib (id_of ev) then ''duplicate'' else ''accepted'')
    \<and> (\<forall>eid. seen ib' eid \<longleftrightarrow> seen ib eid \<or> eid = id_of ev)"
proof -
  have "finite_json (JObj [(''event'', JObj ev), (''disposition'', JStr ''accepted'')])" using assms by (simp add: sendable_def)
  from journal_append_ok [OF this, of H "ib_journal ib" "''deliver''" t] assms show ?thesis
    by (auto simp: inbox_deliver_def dict_get_def sendable_def seen_def Let_def)
qed

lemma deliver_all_ok:
  assumes "\<And>ev. ev \<in> set evs \<Longrightarrow> sendable ev"
  shows "\<exists>ib' ds. deliver_all H ib evs = Inr (ib', ds) \<and> length ds = length evs
    \<and> (\<forall>eid. seen ib' eid \<longleftrightarrow> seen ib eid \<or> eid \<in> id_of ` set evs)
    \<and> (\<forall>n < length evs. ds ! n = (if seen ib (id_of (evs ! n)) \<or> id_of (evs ! n) \<in> id_of ` set (take n evs) then ''duplicate'' else ''accepted''))"
  using assms
proof (induction evs arbitrary: ib)
  case (Cons ev evs)
  obtain ib1 where one: "inbox_deliver H ib ev 0 = Inr (ib1, if seen ib (id_of ev) then ''duplicate'' else ''accepted'')"
    and seen1: "\<And>eid. seen ib1 eid \<longleftrightarrow> seen ib eid \<or> eid = id_of ev"
    using inbox_deliver_ok [of ev H ib 0] Cons.prems by auto
  obtain ib2 ds where rest: "deliver_all H ib1 evs = Inr (ib2, ds)" "length ds = length evs"
    "\<And>eid. seen ib2 eid \<longleftrightarrow> seen ib1 eid \<or> eid \<in> id_of ` set evs"
    "\<And>n. n < length evs \<Longrightarrow> ds ! n = (if seen ib1 (id_of (evs ! n)) \<or> id_of (evs ! n) \<in> id_of ` set (take n evs) then ''duplicate'' else ''accepted'')"
    using Cons.IH [of ib1] Cons.prems by auto
  have "((if seen ib (id_of ev) then ''duplicate'' else ''accepted'') # ds) ! n =
      (if seen ib (id_of ((ev # evs) ! n)) \<or> id_of ((ev # evs) ! n) \<in> id_of ` set (take n (ev # evs)) then ''duplicate'' else ''accepted'')"
    if "n < length (ev # evs)" for n
    using that rest(4) [of "n - 1"] seen1 by (cases n) auto
  then show ?case using one rest(1-3) seen1 by auto
qed simp

lemma ack_all_ok:
  "\<exists>ob'. ack_all H ob evs = Inr ob' \<and> ob_sent ob' = ob_sent ob \<and> set (al_acked (ob_acks ob')) = set (al_acked (ob_acks ob)) \<union> id_of ` set evs"
proof (induction evs arbitrary: ob)
  case Nil
  then show ?case by (simp add: ack_all_def)
next
  case (Cons ev evs)
  have "\<exists>ob1 b. outbox_ack H ob (id_of ev) 0 = Inr (ob1, b) \<and> ob_sent ob1 = ob_sent ob
    \<and> set (al_acked (ob_acks ob1)) = insert (id_of ev) (set (al_acked (ob_acks ob)))"
    using journal_append_ok [of "JObj [(''event_id'', JStr (id_of ev))]" H "al_journal (ob_acks ob)" "''ack''" 0]
    by (cases "is_acked (ob_acks ob) (id_of ev)") (auto simp: outbox_ack_def ack_def is_acked_def)
  then obtain ob1 b where one: "outbox_ack H ob (id_of ev) 0 = Inr (ob1, b)" "ob_sent ob1 = ob_sent ob"
    "set (al_acked (ob_acks ob1)) = insert (id_of ev) (set (al_acked (ob_acks ob)))"
    by blast
  then show ?case using Cons.IH [of ob1] by (auto simp: ack_all_def)
qed

lemma pending_sendable:
  assumes "outbox_ok ob" and "ev \<in> set (outbox_pending ob)"
  shows "sendable ev"
  using assms by (auto simp: outbox_ok_def outbox_pending_def)

lemma pending_after_ack:
  assumes "outbox_ok ob" and "ob_sent ob' = ob_sent ob" and "set (al_acked (ob_acks ob')) = set (al_acked (ob_acks ob)) \<union> ids"
  shows "outbox_pending ob' = filter (\<lambda>ev. id_of ev \<notin> ids) (outbox_pending ob)"
proof -
  have "map snd (filter (\<lambda>(eid, ev). \<not> is_acked (ob_acks ob') eid) xs) = filter (\<lambda>ev. id_of ev \<notin> ids) (map snd (filter (\<lambda>(eid, ev). \<not> is_acked (ob_acks ob) eid) xs))"
    if "\<forall>(eid, ev) \<in> set xs. id_of ev = eid" for xs
    using that assms(3) by (induction xs) (auto simp: is_acked_def)
  moreover have "\<forall>(eid, ev) \<in> set (sort_key fst (ob_sent ob)). id_of ev = eid" using assms(1) by (auto simp: outbox_ok_def)
  ultimately show ?thesis unfolding outbox_pending_def assms(2) by blast
qed

text \<open>C31. Delivery over a faulty channel. The pending events of an outbox are sent through a channel with any schedule
  of duplications, delays, reorderings and losses, handed to the inbox in the order they arrive and acknowledged.
  Nothing fails; the channel delivers exactly the messages it does not lose; an arrival is accepted exactly when its
  identifier was not seen before, so every event that arrives is accepted once; and afterwards exactly the events
  that did not arrive are still pending, none if nothing was lost.\<close>

theorem delivery_round_exactly_once:
  assumes "outbox_ok ob"
  shows "\<exists>ib' ds ob'. deliver_all H ib (transmit sch (outbox_pending ob)) = Inr (ib', ds) \<and> ack_all H ob (transmit sch (outbox_pending ob)) = Inr ob'
    \<and> set (transmit sch (outbox_pending ob)) = {reorder sch (outbox_pending ob) ! i |i. i < length (outbox_pending ob) \<and> \<not> lost sch i}
    \<and> mset (reorder sch (outbox_pending ob)) = mset (outbox_pending ob)
    \<and> (\<forall>n < length (transmit sch (outbox_pending ob)). ds ! n = (let ev = transmit sch (outbox_pending ob) ! n in
         if seen ib (id_of ev) \<or> id_of ev \<in> id_of ` set (take n (transmit sch (outbox_pending ob))) then ''duplicate'' else ''accepted''))
    \<and> (\<forall>eid. seen ib' eid \<longleftrightarrow> seen ib eid \<or> eid \<in> id_of ` set (transmit sch (outbox_pending ob)))
    \<and> outbox_pending ob' = filter (\<lambda>ev. id_of ev \<notin> id_of ` set (transmit sch (outbox_pending ob))) (outbox_pending ob)
    \<and> ((\<forall>i. \<not> lost sch i) \<longrightarrow> outbox_pending ob' = [])"
proof -
  let ?tr = "transmit sch (outbox_pending ob)"
  have send: "sendable ev" if "ev \<in> set ?tr" for ev
    using pending_sendable [OF assms subsetD [OF transmit_subset that]] .
  obtain ib' ds where d: "deliver_all H ib ?tr = Inr (ib', ds)" "\<forall>eid. seen ib' eid \<longleftrightarrow> seen ib eid \<or> eid \<in> id_of ` set ?tr"
    "\<forall>n < length ?tr. ds ! n = (if seen ib (id_of (?tr ! n)) \<or> id_of (?tr ! n) \<in> id_of ` set (take n ?tr) then ''duplicate'' else ''accepted'')"
    using deliver_all_ok [of ?tr H ib] send by blast
  obtain ob' where a: "ack_all H ob ?tr = Inr ob'" "ob_sent ob' = ob_sent ob"
    "set (al_acked (ob_acks ob')) = set (al_acked (ob_acks ob)) \<union> id_of ` set ?tr"
    using ack_all_ok by blast
  have p: "outbox_pending ob' = filter (\<lambda>ev. id_of ev \<notin> id_of ` set ?tr) (outbox_pending ob)" by (rule pending_after_ack [OF assms a(2,3)])
  have "outbox_pending ob' = []" if "\<forall>i. \<not> lost sch i"
    using p transmit_lossless [of sch "outbox_pending ob"] that by simp
  then show ?thesis
    unfolding Let_def using d a(1) p set_transmit [of sch "outbox_pending ob"] mset_reorder [of sch "outbox_pending ob"]
    by (intro exI [of _ ib'] exI [of _ ds] exI [of _ ob'] conjI) simp_all
qed

definition sample_outbox :: outbox where
  "sample_outbox = \<lparr>ob_journal = empty_journal, ob_acks = \<lparr>al_journal = empty_journal, al_acked = []\<rparr>,
     ob_sent = [(''a'', [(''event_id'', JStr ''a'')]), (''b'', [(''event_id'', JStr ''b'')])]\<rparr>"

theorem delivery_round_exactly_once_witness:
  "\<exists>ob'. ack_all sample_hash sample_outbox (transmit [\<lparr>ft_at = 0, ft_kind = ''loss'', ft_param = 0\<rparr>] (outbox_pending sample_outbox)) = Inr ob'
     \<and> outbox_pending ob' = [[(''event_id'', JStr ''a'')]]"
proof -
  let ?sch = "[\<lparr>ft_at = 0, ft_kind = ''loss'', ft_param = 0\<rparr>]"
  have ok: "outbox_ok sample_outbox" by code_simp
  have left: "filter (\<lambda>ev. id_of ev \<notin> id_of ` set (transmit ?sch (outbox_pending sample_outbox))) (outbox_pending sample_outbox) = [[(''event_id'', JStr ''a'')]]"
    by code_simp
  show ?thesis using delivery_round_exactly_once [OF ok, of sample_hash _ ?sch] unfolding left by blast
qed

end
