(* ===== verification/Side_Effects.thy ===== *)
theory Side_Effects
  imports Quarantine
begin

text \<open>
  The side-effect gateway: validated intents (\<open>src/residual/gateway/intents.py\<close>) and the single execution path through
  the quarantine store (\<open>src/residual/gateway/gateway.py\<close>), on top of the theory \<open>Quarantine\<close>.

  \<^item> Executors, the approval verifier and the clock are parameters. A verifier answers \<open>Some True\<close> for the value \<open>True\<close>,
    \<open>Some False\<close> for any other value and \<open>None\<close> when it raises; an executor returns a value or the name of its exception.
  \<^item> \<open>fnmatch.fnmatchcase\<close> of the standard library is modelled on code points: \<open>*\<close>, \<open>?\<close>, sets with ranges and negation.
  \<^item> One call of \<open>execute\<close> is modelled without interleaving; interleavings of its parts are the subject of \<open>Quarantine\<close>.
  \<^item> Shown: an intent is executed exactly when an executor is registered for it and, if it is irreversible or
    system-wide, the host verifier approves it; everything else is denied and every outcome is logged.
\<close>

section \<open>Intents\<close>

datatype action_kind =
  KFileWrite | KFileDelete | KProcessSpawn | KNetworkEgress | KConfigChange | KProviderCall | KToolCall | KStateMutation

fun kind_value :: "action_kind \<Rightarrow> string" where
  "kind_value KFileWrite = ''file_write''"
| "kind_value KFileDelete = ''file_delete''"
| "kind_value KProcessSpawn = ''process_spawn''"
| "kind_value KNetworkEgress = ''network_egress''"
| "kind_value KConfigChange = ''config_change''"
| "kind_value KProviderCall = ''provider_call''"
| "kind_value KToolCall = ''tool_call''"
| "kind_value KStateMutation = ''state_mutation''"

definition action_kinds :: "action_kind list" where
  "action_kinds = [KFileWrite, KFileDelete, KProcessSpawn, KNetworkEgress, KConfigChange, KProviderCall, KToolCall, KStateMutation]"

datatype reversibility = Reversible | Irreversible | RevUnknown

fun reversibility_value :: "reversibility \<Rightarrow> string" where
  "reversibility_value Reversible = ''reversible''"
| "reversibility_value Irreversible = ''irreversible''"
| "reversibility_value RevUnknown = ''unknown''"

datatype blast_radius = RadLocal | RadModule | RadRun | RadSystem

fun radius_value :: "blast_radius \<Rightarrow> string" where
  "radius_value RadLocal = ''local''"
| "radius_value RadModule = ''module''"
| "radius_value RadRun = ''run''"
| "radius_value RadSystem = ''system''"

fun radius_index :: "blast_radius \<Rightarrow> nat" where
  "radius_index RadLocal = 0"
| "radius_index RadModule = 1"
| "radius_index RadRun = 2"
| "radius_index RadSystem = 3"

definition radius_at_least :: "blast_radius \<Rightarrow> blast_radius \<Rightarrow> bool" where
  "radius_at_least r floor = (radius_index r \<ge> radius_index floor)"

record side_effect_intent =
  si_kind :: action_kind
  si_target :: string
  si_reversibility :: reversibility
  si_radius :: blast_radius
  si_parameters :: "(string \<times> json) list"
  si_agent :: string
  si_id :: string

text \<open>\<open>Enum(value)\<close>: the member with this value.\<close>

definition enum_of :: "('e \<Rightarrow> string) \<Rightarrow> 'e list \<Rightarrow> string \<Rightarrow> error \<Rightarrow> 'e result" where
  "enum_of val members s err = (case List.find (\<lambda>m. val m = s) members of None \<Rightarrow> Inl err | Some m \<Rightarrow> Inr m)"

definition mk_intent :: "string \<Rightarrow> string \<Rightarrow> string \<Rightarrow> string \<Rightarrow> json \<Rightarrow> string \<Rightarrow> string \<Rightarrow> side_effect_intent result" where
  "mk_intent kind target rv_text radius params agent iid =
     bind_r (enum_of kind_value action_kinds kind (ContractError ''unknown action kind'')) (\<lambda>k.
     bind_r (enum_of reversibility_value [Reversible, Irreversible, RevUnknown] rv_text (ContractError ''unknown reversibility'')) (\<lambda>rv.
     bind_r (enum_of radius_value [RadLocal, RadModule, RadRun, RadSystem] radius (ContractError ''unknown blast radius'')) (\<lambda>rd.
     bind_r (ensure (\<not> blank target \<and> CHR 0x00 \<notin> set target) (ContractError ''intent requires a non-empty target'')) (\<lambda>_.
     bind_r (mk_identifier agent) (\<lambda>_.
     bind_r (mk_identifier iid) (\<lambda>_.
     case params of
       JObj ps \<Rightarrow>
         bind_r (ensure (is_ok (freeze (JObj ps))) (ContractError ''intent parameters must be canonicalizable'')) (\<lambda>_.
         Inr \<lparr>si_kind = k, si_target = target, si_reversibility = rv, si_radius = rd, si_parameters = ps, si_agent = agent, si_id = iid\<rparr>)
     | _ \<Rightarrow> Inl (ContractError ''intent parameters must be canonicalizable'')))))))"

definition intent_content :: "side_effect_intent \<Rightarrow> json" where
  "intent_content i = JObj [(''action_kind'', JStr (kind_value (si_kind i))), (''target'', JStr (si_target i)),
     (''reversibility'', JStr (reversibility_value (si_reversibility i))), (''blast_radius'', JStr (radius_value (si_radius i))),
     (''parameters'', JObj (si_parameters i)), (''agent_id'', JStr (si_agent i))]"

definition intent_hash :: "(string \<Rightarrow> string) \<Rightarrow> side_effect_intent \<Rightarrow> string result" where
  "intent_hash H i = digest H (intent_content i)"

section \<open>File name patterns\<close>

text \<open>The code points of a string, each as its bytes.\<close>

fun code_points :: "string \<Rightarrow> string list" where
  "code_points [] = []"
| "code_points (c # s) = (let n = length (takeWhile is_cont s) in (c # take n s) # code_points (drop n s))"

text \<open>The members of a set \<open>[...]\<close>: single characters and ranges, a hyphen at either end standing for itself.\<close>

fun set_matches :: "string list \<Rightarrow> string \<Rightarrow> bool" where
  "set_matches (a # d # b # rest) x =
     (if d = ''-'' then a \<le> x \<and> x \<le> b \<or> set_matches rest x else x = a \<or> set_matches (d # b # rest) x)"
| "set_matches (a # rest) x = (x = a \<or> set_matches rest x)"
| "set_matches [] x = False"

text \<open>The text of a set that starts after its bracket, and the pattern behind it; \<open>None\<close> without a closing bracket.\<close>

definition set_text :: "string list \<Rightarrow> (string list \<times> string list) option" where
  "set_text p =
     (let lead = (case p of a # b # _ \<Rightarrow> (if a = ''!'' then (if b = '']'' then 2 else 1) else if a = '']'' then 1 else 0)
          | [a] \<Rightarrow> (if a = ''!'' \<or> a = '']'' then 1 else 0) | [] \<Rightarrow> 0);
          body = takeWhile (\<lambda>x. x \<noteq> '']'') (drop lead p) in
      if lead + length body < length p then Some (take lead p @ body, drop (lead + length body + 1) p) else None)"

definition in_set :: "string list \<Rightarrow> string \<Rightarrow> bool" where
  "in_set stuff x = (case stuff of a # rest \<Rightarrow> (if a = ''!'' then \<not> set_matches rest x else set_matches stuff x) | [] \<Rightarrow> False)"

lemma set_text_shorter: "set_text p = Some (stuff, rest) \<Longrightarrow> length rest < length p"
  by (auto simp: set_text_def Let_def split: if_splits)

function glob :: "string list \<Rightarrow> string list \<Rightarrow> bool" where
  "glob [] xs = (xs = [])"
| "glob (p # ps) xs =
     (if p = ''*'' then glob ps xs \<or> (case xs of [] \<Rightarrow> False | _ # ys \<Rightarrow> glob (p # ps) ys)
      else case xs of
        [] \<Rightarrow> False
      | x # ys \<Rightarrow>
          if p = ''?'' then glob ps ys
          else if p = ''['' then
            (case set_text ps of None \<Rightarrow> x = ''['' \<and> glob ps ys | Some (stuff, rest) \<Rightarrow> in_set stuff x \<and> glob rest ys)
          else x = p \<and> glob ps ys)"
  by pat_completeness auto

termination
  by (relation "measure (\<lambda>(ps, xs). length ps + length xs)") (auto dest: set_text_shorter)

definition fnmatchcase :: "string \<Rightarrow> string \<Rightarrow> bool" where
  "fnmatchcase name pat = glob (code_points pat) (code_points name)"

section \<open>The gateway\<close>

type_synonym executor = "side_effect_intent \<Rightarrow> string + json"

record gateway =
  gw_quarantine :: quarantine
  gw_executors :: "(action_kind \<times> string, executor) dict"
  gw_verifier :: "(side_effect_intent \<Rightarrow> bool option) option"

definition register_executor :: "gateway \<Rightarrow> string \<Rightarrow> string \<Rightarrow> executor \<Rightarrow> gateway result" where
  "register_executor g kind pattern ex =
     bind_r (enum_of kind_value action_kinds kind (ContractError ''unknown action kind'')) (\<lambda>k.
     bind_r (ensure (\<not> blank pattern) (ContractError ''target pattern is required'')) (\<lambda>_.
     Inr (g\<lparr>gw_executors := AList.update (k, pattern) ex (gw_executors g)\<rparr>)))"

definition resolve :: "gateway \<Rightarrow> side_effect_intent \<Rightarrow> executor option" where
  "resolve g i = map_option snd (List.find (\<lambda>((k, pattern), ex). k = si_kind i \<and> fnmatchcase (si_target i) pattern) (gw_executors g))"

fun quarantine_type :: "action_kind \<Rightarrow> action_type" where
  "quarantine_type KFileWrite = FileWrite"
| "quarantine_type KFileDelete = FileWrite"
| "quarantine_type KProcessSpawn = ToolCall"
| "quarantine_type KNetworkEgress = ToolCall"
| "quarantine_type KConfigChange = ConfigChange"
| "quarantine_type KProviderCall = ProviderCall"
| "quarantine_type KToolCall = ToolCall"
| "quarantine_type KStateMutation = ConfigChange"

definition to_action :: "side_effect_intent \<Rightarrow> proposed_action result" where
  "to_action i = mk_proposed_action
     \<lparr>pa_type = quarantine_type (si_kind i), pa_name = kind_value (si_kind i) @ '':'' @ si_target i,
      pa_arguments = [(''intent_id'', JStr (si_id i)), (''target'', JStr (si_target i)),
        (''reversibility'', JStr (reversibility_value (si_reversibility i))),
        (''blast_radius'', JStr (radius_value (si_radius i))), (''parameters'', JObj (si_parameters i))],
      pa_agent = si_agent i\<rparr>"

definition registration_policy :: "executor option \<Rightarrow> side_effect_intent \<Rightarrow> policy" where
  "registration_policy ex i = HostPolicy ''registration_policy'' (\<lambda>_.
     if ex = None then PReason (''deny-by-default: no registered executor for '' @ kind_value (si_kind i) @ '':'' @ si_target i) else PNone)"

definition needs_approval :: "side_effect_intent \<Rightarrow> bool" where
  "needs_approval i = (si_reversibility i = Irreversible \<or> si_radius i = RadSystem)"

definition approval_policy :: "gateway \<Rightarrow> side_effect_intent \<Rightarrow> policy" where
  "approval_policy g i = HostPolicy ''approval_policy'' (\<lambda>_.
     if needs_approval i then
       (case gw_verifier g of
          None \<Rightarrow> PReason ''irreversible/system intent requires a host approval verifier''
        | Some verifier \<Rightarrow>
            (case verifier i of
               None \<Rightarrow> PReason ''approval verifier error''
             | Some ok \<Rightarrow> if ok then PNone else PReason ''host approval verifier rejected the intent''))
     else PNone)"

record gateway_result =
  gr_status :: string
  gr_result :: "json option"
  gr_error :: "string option"
  gr_denial :: "string option"
  gr_hold :: string

definition denial_reasons :: "quarantine \<Rightarrow> string \<Rightarrow> string list" where
  "denial_reasons q hid = concat (map (\<lambda>e. case e of
     LogEvaluated h fp d ds \<Rightarrow> if h = hid then map snd ds else [] | _ \<Rightarrow> []) (q_log q))"

text \<open>The Boolean says that the executor's exception is raised again (\<open>raise_errors\<close>); the gateway is as returned in either case.\<close>

definition gateway_execute ::
  "(string \<Rightarrow> string) \<Rightarrow> gateway \<Rightarrow> side_effect_intent \<Rightarrow> bool \<Rightarrow> int \<Rightarrow> (bool \<times> gateway_result \<times> gateway) result" where
  "gateway_execute H g i raise_errors now =
     (let ex = resolve g i in
      bind_r (to_action i) (\<lambda>a.
      let (held, q) = hold H (gw_quarantine g) a now in
      bind_r (evaluate H q held [registration_policy ex i, approval_policy g i]) (\<lambda>(d, ps, q).
      if d \<noteq> Allow then
        (let reasons = denial_reasons q (ha_id held);
             reason = (if reasons = [] then ''policy denial'' else sep_by ''; '' reasons) in
         bind_r (begin_deny q held reason) (\<lambda>q.
         Inr (False, \<lparr>gr_status = ''denied'', gr_result = None, gr_error = None, gr_denial = Some reason, gr_hold = ha_id held\<rparr>,
           g\<lparr>gw_quarantine := finish_deny H q held reason ''side_effect_gateway''\<rparr>)))
      else
        bind_r (release H q held (\<lambda>_. case ex of None \<Rightarrow> Inl ''TypeError'' | Some f \<Rightarrow> f i) raise_errors) (\<lambda>(raised, out, q).
        Inr (raised, \<lparr>gr_status = ''executed'', gr_result = (case out of Inl _ \<Rightarrow> None | Inr v \<Rightarrow> Some v),
            gr_error = (case out of Inl e \<Rightarrow> Some e | Inr _ \<Rightarrow> None), gr_denial = None, gr_hold = ha_id held\<rparr>,
          g\<lparr>gw_quarantine := q\<rparr>)))))"

definition audit_log :: "gateway \<Rightarrow> log_entry list" where
  "audit_log g = q_log (gw_quarantine g)"

section \<open>One pass through the quarantine store\<close>

lemma entry_of_set_entry [simp]:
  "entry_of (set_entry q h e) h = (if ha_ref (he_held e) = ha_ref h then Inr e else Inl (ContractError ''foreign or forged quarantine hold''))"
  by (simp add: entry_of_def set_entry_def)

lemma entry_of_log [simp]: "entry_of (q\<lparr>q_log := l\<rparr>) h = entry_of q h"
  by (simp add: entry_of_def)

lemma set_entry_log [simp]: "q_log (set_entry q h e) = q_log q"
  by (simp add: set_entry_def)

lemma hold_facts:
  assumes "hold H q a now = (h, q')"
  shows "entry_of q' h = Inr \<lparr>he_held = h, he_state = Held, he_decision = None\<rparr>"
    and "q_log q' = q_log q @ [LogHeld (ha_id h) (action_fingerprint H a)]" and "ha_action h = a"
  using assms by (auto simp: hold_def Let_def entry_of_def)

lemma evaluate_facts:
  assumes "entry_of q h = Inr \<lparr>he_held = h, he_state = Held, he_decision = None\<rparr>" and "run_policies ps (ha_action h) = (ps', ds)"
  obtains q' where "evaluate H q h ps = Inr (if ds = [] then Allow else Deny, ps', q')"
    "entry_of q' h = Inr \<lparr>he_held = h, he_state = Evaluated, he_decision = Some (if ds = [] then Allow else Deny)\<rparr>"
    "q_log q' = q_log q @ [LogEvaluated (ha_id h) (action_fingerprint H (ha_action h)) (if ds = [] then Allow else Deny) ds]"
    "qstep H q (QEvaluate (ha_id h) (if ds = [] then Allow else Deny) ds) q'"
proof -
  let ?d = "if ds = [] then Allow else Deny"
  let ?e = "\<lparr>he_held = h, he_state = Evaluated, he_decision = Some ?d\<rparr>"
  let ?q = "(set_entry q h ?e)\<lparr>q_log := q_log q @ [LogEvaluated (ha_id h) (action_fingerprint H (ha_action h)) ?d ds]\<rparr>"
  have ev: "evaluate H q h ps = Inr (?d, ps', ?q)" using assms by (auto simp: evaluate_def Let_def)
  then have "qstep H q (QEvaluate (ha_id h) ?d (snd (run_policies ps (ha_action h)))) ?q"
    using assms(1) by (rule step_evaluate) simp
  then show ?thesis using ev assms(2) by (intro that [of ?q]) simp_all
qed

lemma release_facts:
  assumes "entry_of q h = Inr \<lparr>he_held = h, he_state = Evaluated, he_decision = Some Allow\<rparr>"
  obtains q' where "release H q h ex raise_errors = Inr (raise_errors \<and> isl (ex (ha_action h)), ex (ha_action h), q')"
    "q_log q' = q_log q @ [LogExecuted (ha_id h) (action_fingerprint H (ha_action h)) (case ex (ha_action h) of Inl e \<Rightarrow> Some e | Inr _ \<Rightarrow> None)]"
    "\<And>q0 ls. qtrace H q0 ls q \<Longrightarrow> qtrace H q0 (ls @ [QBegin (ha_id h), QFinish (ha_id h)]) q'"
proof -
  let ?err = "case ex (ha_action h) of Inl e \<Rightarrow> Some e | Inr _ \<Rightarrow> None"
  let ?q1 = "set_entry q h \<lparr>he_held = h, he_state = Executing, he_decision = Some Allow\<rparr>"
  have b: "begin_release q h = Inr ?q1" using assms by (simp add: begin_release_def)
  have e: "entry_of ?q1 h = Inr \<lparr>he_held = h, he_state = Executing, he_decision = Some Allow\<rparr>" by simp
  have "qtrace H q0 (ls @ [QBegin (ha_id h), QFinish (ha_id h)]) (finish_release H ?q1 h ?err)" if "qtrace H q0 ls q" for q0 ls
    using trace_step [OF trace_step [OF that step_begin [OF b]] step_finish [OF e, of H ?err]] by simp
  moreover have "release H q h ex raise_errors = Inr (raise_errors \<and> isl (ex (ha_action h)), ex (ha_action h), finish_release H ?q1 h ?err)"
    by (simp add: release_def b Let_def)
  moreover have "q_log (finish_release H ?q1 h ?err) = q_log q @ [LogExecuted (ha_id h) (action_fingerprint H (ha_action h)) ?err]"
    by (simp add: finish_release_def set_entry_def)
  ultimately show ?thesis using that by blast
qed

lemma deny_facts:
  assumes "entry_of q h = Inr \<lparr>he_held = h, he_state = Evaluated, he_decision = Some Deny\<rparr>" and "\<not> blank reason"
  obtains q' where "begin_deny q h reason = Inr q'"
    "q_log (finish_deny H q' h reason pname) = q_log q @ [LogDenied (ha_id h) (action_fingerprint H (ha_action h)) reason pname]"
    "\<And>q0 ls. qtrace H q0 ls q \<Longrightarrow> qtrace H q0 (ls @ [QDeny (ha_id h), QDenied (ha_id h)]) (finish_deny H q' h reason pname)"
proof -
  let ?q1 = "set_entry q h \<lparr>he_held = h, he_state = Denied, he_decision = Some Deny\<rparr>"
  have b: "begin_deny q h reason = Inr ?q1" using assms by (simp add: begin_deny_def)
  have e: "entry_of ?q1 h = Inr \<lparr>he_held = h, he_state = Denied, he_decision = Some Deny\<rparr>" by simp
  have "qtrace H q0 (ls @ [QDeny (ha_id h), QDenied (ha_id h)]) (finish_deny H ?q1 h reason pname)" if "qtrace H q0 ls q" for q0 ls
    using trace_step [OF trace_step [OF that step_deny [OF b]] step_denied [OF e, of H reason pname]] by simp
  then show ?thesis using b by (intro that [of ?q1]) (simp_all add: finish_deny_def)
qed

section \<open>Denial reasons\<close>

lemma blank_no_semicolon: "blank s \<Longrightarrow> CHR '';'' \<notin> set s"
  by (induction s rule: blank.induct) (auto simp: ascii_space_def split: if_splits list.splits)

lemma sep_by_not_blank:
  assumes "x \<in> set xs" and "\<not> blank x"
  shows "\<not> blank (sep_by ''; '' xs)"
proof (cases "\<exists>y z ys. xs = y # z # ys")
  case True
  then have "CHR '';'' \<in> set (sep_by ''; '' xs)" by auto
  then show ?thesis using blank_no_semicolon by blast
next
  case False
  then have "xs = [x]" using assms(1) by (cases xs; cases "tl xs") auto
  then show ?thesis using assms(2) by simp
qed

definition gateway_allows :: "gateway \<Rightarrow> side_effect_intent \<Rightarrow> bool" where
  "gateway_allows g i = (resolve g i \<noteq> None \<and> (si_reversibility i = Irreversible \<or> si_radius i = RadSystem \<longrightarrow> (\<exists>v. gw_verifier g = Some v \<and> v i = Some True)))"

definition gateway_denials :: "gateway \<Rightarrow> side_effect_intent \<Rightarrow> proposed_action \<Rightarrow> (string \<times> string) list" where
  "gateway_denials g i a = snd (run_policies [registration_policy (resolve g i) i, approval_policy g i] a)"

definition plain :: "char \<Rightarrow> bool" where
  "plain c = (\<not> is_cont c \<and> \<not> ascii_space c \<and> c \<notin> {CHR 0xC2, CHR 0xE1, CHR 0xE2, CHR 0xE3})"

lemma plain_not_blank: "plain c \<Longrightarrow> \<not> blank (c # s)"
  by (auto simp: plain_def split: list.splits)

lemma plain_reason: "plain c \<Longrightarrow> denial_reason (PReason (c # s)) = Some (c # take_chars 999 s)"
proof -
  assume c: "plain c"
  have "take_chars (Suc 999) (c # s) = c # take_chars 999 s" using c by (simp only: take_chars.simps plain_def if_False nat.case)
  then show ?thesis using plain_not_blank [OF c] by simp
qed

lemma plain_letters: "plain (CHR ''d'')" "plain (CHR ''i'')" "plain (CHR ''h'')" "plain (CHR ''a'')"
  by code_simp+

lemma gateway_denials_nonblank: "(name, r) \<in> set (gateway_denials g i a) \<Longrightarrow> \<not> blank r"
  by (auto simp: gateway_denials_def registration_policy_def approval_policy_def plain_reason plain_not_blank plain_letters
      simp del: denial_reason.simps(2) blank.simps take_chars.simps split: if_splits option.splits)

lemma gateway_denials_none: "gateway_denials g i a = [] \<longleftrightarrow> gateway_allows g i"
  by (auto simp: gateway_denials_def gateway_allows_def registration_policy_def approval_policy_def needs_approval_def split: option.splits)

section \<open>The gateway decides\<close>

lemma find_Some_mem: "List.find P xs = Some x \<Longrightarrow> x \<in> set xs \<and> P x"
  by (induction xs) (auto split: if_splits)

lemma resolve_registered:
  "resolve g i = Some f \<Longrightarrow> \<exists>pattern. ((si_kind i, pattern), f) \<in> set (gw_executors g) \<and> fnmatchcase (si_target i) pattern"
  by (auto simp: resolve_def dest!: find_Some_mem)

lemma mk_intent_action:
  assumes "mk_intent kind target rv radius params agent iid = Inr i"
  obtains a where "to_action i = Inr a"
proof -
  have "ident_ok (si_agent i) \<and> is_ok (freeze (JObj (si_parameters i)))"
    using assms by (cases params) (auto simp: mk_intent_def result_simps)
  then have "ident_ok (si_agent i)" "finite_json (JObj (si_parameters i))"
    by (auto simp: freeze_def is_ok_def split: if_splits)
  then show ?thesis by (intro that) (simp add: to_action_def mk_proposed_action_def mk_identifier_def freeze_def is_ok_def)
qed

lemma denial_reasons_current:
  assumes "q_log q = l @ [LogEvaluated hid fp d ds]" and "(n, r) \<in> set ds"
  shows "r \<in> set (denial_reasons q hid)"
  using assms by (force simp: denial_reasons_def)

text \<open>What \<open>execute\<close> returns for an action that was allowed, and for one that was denied.\<close>

lemma execute_allowed:
  assumes "to_action i = Inr a" and "gateway_allows g i"
  shows "\<exists>f hid fp q. resolve g i = Some f
    \<and> gateway_execute H g i raise_errors now = Inr (raise_errors \<and> isl (f i), \<lparr>gr_status = ''executed'',
        gr_result = (case f i of Inl _ \<Rightarrow> None | Inr v \<Rightarrow> Some v), gr_error = (case f i of Inl e \<Rightarrow> Some e | Inr _ \<Rightarrow> None),
        gr_denial = None, gr_hold = hid\<rparr>, g\<lparr>gw_quarantine := q\<rparr>)
    \<and> qtrace H (gw_quarantine g) [QHold hid, QEvaluate hid Allow [], QBegin hid, QFinish hid] q
    \<and> q_log q = audit_log g @ [LogHeld hid fp, LogEvaluated hid fp Allow [], LogExecuted hid fp (case f i of Inl e \<Rightarrow> Some e | Inr _ \<Rightarrow> None)]"
proof -
  obtain f where f: "resolve g i = Some f" using assms(2) by (auto simp: gateway_allows_def)
  obtain h q1 where h: "hold H (gw_quarantine g) a now = (h, q1)" by fastforce
  note hf = hold_facts [OF h]
  let ?ps = "[registration_policy (resolve g i) i, approval_policy g i]"
  have "snd (run_policies ?ps (ha_action h)) = []" using gateway_denials_none [of g i a] assms(2) hf(3) by (simp add: gateway_denials_def)
  then obtain ps' where rp: "run_policies ?ps (ha_action h) = (ps', [])" by (metis prod.collapse)
  obtain q2 where q2: "evaluate H q1 h ?ps = Inr (Allow, ps', q2)" "entry_of q2 h = Inr \<lparr>he_held = h, he_state = Evaluated, he_decision = Some Allow\<rparr>"
    "q_log q2 = q_log q1 @ [LogEvaluated (ha_id h) (action_fingerprint H (ha_action h)) Allow []]"
    "qstep H q1 (QEvaluate (ha_id h) Allow []) q2"
    using evaluate_facts [OF hf(1) rp, where H = H] by auto
  obtain q3 where q3: "release H q2 h (\<lambda>_. f i) raise_errors = Inr (raise_errors \<and> isl (f i), f i, q3)"
    "q_log q3 = q_log q2 @ [LogExecuted (ha_id h) (action_fingerprint H (ha_action h)) (case f i of Inl e \<Rightarrow> Some e | Inr _ \<Rightarrow> None)]"
    "\<And>q0 ls. qtrace H q0 ls q2 \<Longrightarrow> qtrace H q0 (ls @ [QBegin (ha_id h), QFinish (ha_id h)]) q3"
    using release_facts [OF q2(2), of H "\<lambda>_. f i" raise_errors] by blast
  have "qtrace H (gw_quarantine g) (([] @ [QHold (ha_id h)]) @ [QEvaluate (ha_id h) Allow []]) q2"
    using trace_step [OF trace_step [OF trace_start step_hold [OF h]] q2(4)] .
  note tr = q3(3) [OF this]
  have "gateway_execute H g i raise_errors now = Inr (raise_errors \<and> isl (f i), \<lparr>gr_status = ''executed'',
        gr_result = (case f i of Inl _ \<Rightarrow> None | Inr v \<Rightarrow> Some v), gr_error = (case f i of Inl e \<Rightarrow> Some e | Inr _ \<Rightarrow> None),
        gr_denial = None, gr_hold = ha_id h\<rparr>, g\<lparr>gw_quarantine := q3\<rparr>)"
    using q2(1) q3(1) f by (simp add: gateway_execute_def assms(1) h Let_def)
  then show ?thesis using f tr q3(2) q2(3) hf(2,3) by (auto simp: audit_log_def)
qed

lemma execute_denied:
  assumes "to_action i = Inr a" and "\<not> gateway_allows g i"
  shows "\<exists>reason hid fp ds q. ds \<noteq> []
    \<and> gateway_execute H g i raise_errors now = Inr (False, \<lparr>gr_status = ''denied'', gr_result = None, gr_error = None,
        gr_denial = Some reason, gr_hold = hid\<rparr>, g\<lparr>gw_quarantine := q\<rparr>)
    \<and> qtrace H (gw_quarantine g) [QHold hid, QEvaluate hid Deny ds, QDeny hid, QDenied hid] q
    \<and> q_log q = audit_log g @ [LogHeld hid fp, LogEvaluated hid fp Deny ds, LogDenied hid fp reason ''side_effect_gateway'']"
proof -
  obtain h q1 where h: "hold H (gw_quarantine g) a now = (h, q1)" by fastforce
  note hf = hold_facts [OF h]
  let ?ps = "[registration_policy (resolve g i) i, approval_policy g i]"
  define ds where "ds = gateway_denials g i a"
  have ne: "ds \<noteq> []" using gateway_denials_none assms(2) by (simp add: ds_def)
  obtain ps' where rp: "run_policies ?ps (ha_action h) = (ps', ds)" using hf(3) unfolding ds_def gateway_denials_def by (metis prod.collapse)
  obtain q2 where q2: "evaluate H q1 h ?ps = Inr (Deny, ps', q2)" "entry_of q2 h = Inr \<lparr>he_held = h, he_state = Evaluated, he_decision = Some Deny\<rparr>"
    "q_log q2 = q_log q1 @ [LogEvaluated (ha_id h) (action_fingerprint H (ha_action h)) Deny ds]"
    "qstep H q1 (QEvaluate (ha_id h) Deny ds) q2"
    using evaluate_facts [OF hf(1) rp, where H = H] ne by auto
  obtain n r where nr: "(n, r) \<in> set ds" using ne by (cases ds) auto
  define reason where "reason = sep_by ''; '' (denial_reasons q2 (ha_id h))"
  have "r \<in> set (denial_reasons q2 (ha_id h))" using denial_reasons_current [OF q2(3) nr] .
  moreover from this have "denial_reasons q2 (ha_id h) \<noteq> []" by auto
  ultimately have nb: "\<not> blank reason" and rs: "(if denial_reasons q2 (ha_id h) = [] then ''policy denial'' else sep_by ''; '' (denial_reasons q2 (ha_id h))) = reason"
    using sep_by_not_blank gateway_denials_nonblank nr by (auto simp: reason_def ds_def)
  obtain q3 where q3: "begin_deny q2 h reason = Inr q3"
    "q_log (finish_deny H q3 h reason ''side_effect_gateway'') = q_log q2 @ [LogDenied (ha_id h) (action_fingerprint H (ha_action h)) reason ''side_effect_gateway'']"
    "\<And>q0 ls. qtrace H q0 ls q2 \<Longrightarrow> qtrace H q0 (ls @ [QDeny (ha_id h), QDenied (ha_id h)]) (finish_deny H q3 h reason ''side_effect_gateway'')"
    using deny_facts [OF q2(2) nb, of H "''side_effect_gateway''"] by blast
  have "qtrace H (gw_quarantine g) (([] @ [QHold (ha_id h)]) @ [QEvaluate (ha_id h) Deny ds]) q2"
    using trace_step [OF trace_step [OF trace_start step_hold [OF h]] q2(4)] .
  note tr = q3(3) [OF this]
  have "gateway_execute H g i raise_errors now = Inr (False, \<lparr>gr_status = ''denied'', gr_result = None, gr_error = None,
        gr_denial = Some reason, gr_hold = ha_id h\<rparr>, g\<lparr>gw_quarantine := finish_deny H q3 h reason ''side_effect_gateway''\<rparr>)"
    using q2(1) q3(1) rs by (simp add: gateway_execute_def assms(1) h Let_def)
  then show ?thesis using ne tr q3(2) q2(3) hf(2,3) by (auto simp: audit_log_def)
qed

text \<open>C6. The gateway is deny-by-default and its only path to an executor leads through the quarantine store. For every
  validated intent, \<open>execute\<close> returns a result: \<open>executed\<close> exactly when an executor is registered for the kind of the
  intent under a pattern its target matches and, if the intent is irreversible or system-wide, a host verifier is
  configured and answers \<open>True\<close>. In that case the store goes through hold, allowing evaluation and one execution of that
  executor, whose value or exception is the result; otherwise through hold, denying evaluation and denial. Either way
  the audit log grows by exactly these three entries.\<close>

theorem gateway_executes_exactly_allowed:
  assumes "mk_intent kind target rv radius params agent iid = Inr i"
  shows "\<exists>raised res g' hid fp ds. gateway_execute H g i raise_errors now = Inr (raised, res, g') \<and> gr_hold res = hid
    \<and> (gr_status res = ''executed'' \<longleftrightarrow> gateway_allows g i)
    \<and> (gateway_allows g i \<longrightarrow> (\<exists>pattern f. ((si_kind i, pattern), f) \<in> set (gw_executors g) \<and> fnmatchcase (si_target i) pattern
        \<and> f i = (case gr_error res of Some e \<Rightarrow> Inl e | None \<Rightarrow> Inr (the (gr_result res))) \<and> raised = (raise_errors \<and> gr_error res \<noteq> None))
        \<and> qtrace H (gw_quarantine g) [QHold hid, QEvaluate hid Allow [], QBegin hid, QFinish hid] (gw_quarantine g')
        \<and> audit_log g' = audit_log g @ [LogHeld hid fp, LogEvaluated hid fp Allow [], LogExecuted hid fp (gr_error res)])
    \<and> (\<not> gateway_allows g i \<longrightarrow> gr_status res = ''denied'' \<and> \<not> raised \<and> ds \<noteq> []
        \<and> qtrace H (gw_quarantine g) [QHold hid, QEvaluate hid Deny ds, QDeny hid, QDenied hid] (gw_quarantine g')
        \<and> audit_log g' = audit_log g @ [LogHeld hid fp, LogEvaluated hid fp Deny ds, LogDenied hid fp (the (gr_denial res)) ''side_effect_gateway''])"
proof -
  obtain a where a: "to_action i = Inr a" by (rule mk_intent_action [OF assms])
  show ?thesis
  proof (cases "gateway_allows g i")
    case True
    from execute_allowed [OF a True, of H raise_errors now] obtain f hid fp q where f: "resolve g i = Some f" and
      x: "gateway_execute H g i raise_errors now = Inr (raise_errors \<and> isl (f i), \<lparr>gr_status = ''executed'',
        gr_result = (case f i of Inl _ \<Rightarrow> None | Inr v \<Rightarrow> Some v), gr_error = (case f i of Inl e \<Rightarrow> Some e | Inr _ \<Rightarrow> None),
        gr_denial = None, gr_hold = hid\<rparr>, g\<lparr>gw_quarantine := q\<rparr>)"
      "qtrace H (gw_quarantine g) [QHold hid, QEvaluate hid Allow [], QBegin hid, QFinish hid] q"
      "q_log q = audit_log g @ [LogHeld hid fp, LogEvaluated hid fp Allow [], LogExecuted hid fp (case f i of Inl e \<Rightarrow> Some e | Inr _ \<Rightarrow> None)]"
      by blast
    from resolve_registered [OF f] show ?thesis using x True by (cases "f i") (auto simp: audit_log_def)
  next
    case False
    from execute_denied [OF a False, of H raise_errors now] show ?thesis using False by (auto simp: audit_log_def)
  qed
qed

definition sample_gateway :: gateway where
  "sample_gateway = \<lparr>gw_quarantine = new_quarantine ''s'', gw_executors = [((KFileWrite, ''out/*.tx[a-t]''), \<lambda>i. Inr (JBool True))], gw_verifier = None\<rparr>"

theorem gateway_executes_exactly_allowed_witness:
  "\<exists>i raised res g'. mk_intent ''file_write'' ''out/a.txt'' ''reversible'' ''local'' (JObj []) ''a1'' ''i1'' = Inr i
    \<and> gateway_execute id sample_gateway i False 0 = Inr (raised, res, g') \<and> gr_status res = ''executed'' \<and> length (audit_log g') = 3"
proof -
  let ?i = "\<lparr>si_kind = KFileWrite, si_target = ''out/a.txt'', si_reversibility = Reversible, si_radius = RadLocal, si_parameters = [],
    si_agent = ''a1'', si_id = ''i1''\<rparr>"
  have mk: "mk_intent ''file_write'' ''out/a.txt'' ''reversible'' ''local'' (JObj []) ''a1'' ''i1'' = Inr ?i" by code_simp
  have "fnmatchcase ''out/a.txt'' ''out/*.tx[a-t]''" by code_simp
  then have allowed: "gateway_allows sample_gateway ?i"
    by (simp add: gateway_allows_def resolve_def sample_gateway_def needs_approval_def)
  have empty: "audit_log sample_gateway = []" by (simp add: audit_log_def sample_gateway_def new_quarantine_def)
  obtain raised res g' hid fp where "gateway_execute id sample_gateway ?i False 0 = Inr (raised, res, g')" "gr_status res = ''executed''"
    "audit_log g' = audit_log sample_gateway @ [LogHeld hid fp, LogEvaluated hid fp Allow [], LogExecuted hid fp (gr_error res)]"
    using gateway_executes_exactly_allowed [OF mk, of id sample_gateway False 0] allowed by metis
  then show ?thesis using mk empty by auto
qed

end
