(* ===== verification/Hitl.thy ===== *)
theory Hitl
  imports Complex_Main Goal_Spec Json_Objects
begin

text \<open>
  Durable escalation challenges, \<open>src/residual/hitl/gateway.py\<close>: a challenge is a signed canonical record in a table;
  an approval reads it, checks signature, status, age, roles and the host authenticator, and replaces it by a record that is
  no longer pending.

  \<^item> The table is a dictionary from challenge identifiers to record texts; each call is one transaction, and a call that
    raises leaves the table as it was.
  \<^item> Parameters (\<open>hitl_env\<close>): the keyed hash, the recognition of canonical UUID texts, the reading of float literals and
    their values, and the quotient of nanoseconds and \<open>1e9\<close> as a float. The authenticator is a parameter as well: \<open>Some True\<close>
    for \<open>True\<close>, \<open>Some False\<close> for any other value, \<open>None\<close> when it raises.
  \<^item> Shown: in every run of the gateway a challenge is approved at most once, and only inside its validity window by a role
    the goal specification authorised.
\<close>

section \<open>The gateway\<close>

datatype hitl_status = HPending | HApproved | HDenied | HExpired

fun status_text :: "hitl_status \<Rightarrow> string" where
  "status_text HPending = ''pending''"
| "status_text HApproved = ''approved''"
| "status_text HDenied = ''denied''"
| "status_text HExpired = ''expired''"

record hitl_env =
  hv_mac :: "string \<Rightarrow> string"
  hv_uuid_ok :: "string \<Rightarrow> bool"
  hv_float :: "string \<Rightarrow> json"
  hv_value :: "string \<Rightarrow> rat"
  hv_ratio :: "int \<Rightarrow> rat"

type_synonym challenge_data = "(string \<times> json) list"
type_synonym authenticator = "(challenge_data \<Rightarrow> string \<Rightarrow> string \<Rightarrow> bool option) option"

definition challenge_schema :: string where
  "challenge_schema = ''residual.hitl.challenge.v1''"

text \<open>The constructor checks: a key of at least 32 bytes and a positive finite validity window.\<close>

definition window_value :: "hitl_env \<Rightarrow> json \<Rightarrow> rat option" where
  "window_value env v = (case v of JInt i \<Rightarrow> Some (of_int i) | JFloat r \<Rightarrow> Some (hv_value env r) | _ \<Rightarrow> None)"

definition mk_hitl_gateway :: "hitl_env \<Rightarrow> string \<Rightarrow> json \<Rightarrow> unit result" where
  "mk_hitl_gateway env key validity =
     bind_r (ensure (length key \<ge> 32) (ContractError ''signing key requires at least 32 bytes'')) (\<lambda>_.
     ensure (case window_value env validity of None \<Rightarrow> False | Some w \<Rightarrow> w > 0) (ContractError ''validity window must be positive and finite''))"

definition sign :: "hitl_env \<Rightarrow> challenge_data \<Rightarrow> string result" where
  "sign env data = bind_r (canonical (JObj data)) (\<lambda>t. Inr (hv_mac env (challenge_schema @ newline # t)))"

definition store_challenge :: "hitl_env \<Rightarrow> (string, string) dict \<Rightarrow> challenge_data \<Rightarrow> ((string, string) dict \<times> string) result" where
  "store_challenge env db data =
     bind_r (sign env data) (\<lambda>sg.
     bind_r (dict_get data ''challenge_id'') (\<lambda>cid.
     bind_r (canonical (JObj (data @ [(''signature'', JStr sg)]))) (\<lambda>t.
     case cid of JStr c \<Rightarrow> Inr (AList.update c t db, sg) | _ \<Rightarrow> Inl (TypeError ''challenge_id''))))"

record hitl_challenge =
  hc_id :: string
  hc_task :: string
  hc_action :: json
  hc_reason :: string
  hc_goal_hash :: string
  hc_timestamp :: int
  hc_validity :: json
  hc_signature :: string

definition generate_challenge ::
  "hitl_env \<Rightarrow> (string \<Rightarrow> string) \<Rightarrow> json \<Rightarrow> (string, string) dict \<Rightarrow> string \<Rightarrow> json \<Rightarrow> string \<Rightarrow> goal_spec \<Rightarrow> string \<Rightarrow> int
     \<Rightarrow> ((string, string) dict \<times> hitl_challenge) result" where
  "generate_challenge env H validity db tid action reason spec cid now =
     bind_r (mk_identifier tid) (\<lambda>_.
     bind_r (ensure (\<not> blank reason) (ContractError ''challenge requires a reason'')) (\<lambda>_.
     bind_r (bind_r (canonical action) (strict_json (hv_float env))) (\<lambda>act.
     bind_r (content_hash H spec) (\<lambda>gh.
     bind_r (store_challenge env db
       [(''schema_version'', JStr challenge_schema), (''challenge_id'', JStr cid),
        (''payload'', JObj [(''task_id'', JStr tid), (''action'', act), (''reason'', JStr reason), (''goal_spec_hash'', JStr gh)]),
        (''timestamp_ns'', JInt now), (''validity_window_s'', validity),
        (''authorized_roles'', JArr (map JStr (authorized_roles (gs_rule spec)))), (''status'', JStr (status_text HPending))]) (\<lambda>(db', sg).
     Inr (db', \<lparr>hc_id = cid, hc_task = tid, hc_action = action, hc_reason = reason, hc_goal_hash = gh, hc_timestamp = now,
       hc_validity = validity, hc_signature = sg\<rparr>))))))"

definition is_expired :: "hitl_env \<Rightarrow> hitl_challenge \<Rightarrow> int \<Rightarrow> bool" where
  "is_expired env ch now = (case window_value env (hc_validity ch) of None \<Rightarrow> True | Some w \<Rightarrow> hv_ratio env (now - hc_timestamp ch) \<ge> w)"

definition unsigned :: "challenge_data \<Rightarrow> challenge_data" where
  "unsigned r = filter (\<lambda>(k, v). k \<noteq> ''signature'') r"

definition read_challenge :: "hitl_env \<Rightarrow> (string, string) dict \<Rightarrow> string \<Rightarrow> challenge_data option" where
  "read_challenge env db cid =
     (if \<not> hv_uuid_ok env cid then None
      else case map_of db cid of
        None \<Rightarrow> None
      | Some t \<Rightarrow>
          (case strict_json (hv_float env) t of
             Inr (JObj r) \<Rightarrow>
               (case map_of r ''signature'' of
                  Some (JStr sg) \<Rightarrow>
                    if map_of (unsigned r) ''challenge_id'' = Some (JStr cid) \<and> sign env (unsigned r) = Inr sg
                    then Some (unsigned r @ [(''signature'', JStr sg)]) else None
                | _ \<Rightarrow> None)
           | _ \<Rightarrow> None))"

text \<open>\<open>age < 0 or age >= record["validity_window_s"]\<close>.\<close>

definition outside_window :: "hitl_env \<Rightarrow> challenge_data \<Rightarrow> int \<Rightarrow> bool result" where
  "outside_window env r now =
     bind_r (dict_get r ''timestamp_ns'') (\<lambda>ts.
     bind_r (dict_get r ''validity_window_s'') (\<lambda>v.
     case (ts, window_value env v) of
       (JInt t, Some w) \<Rightarrow> Inr (hv_ratio env (now - t) < 0 \<or> hv_ratio env (now - t) \<ge> w)
     | _ \<Rightarrow> Inl (TypeError ''challenge times'')))"

definition role_listed :: "challenge_data \<Rightarrow> string \<Rightarrow> bool result" where
  "role_listed r role =
     bind_r (dict_get r ''authorized_roles'') (\<lambda>v.
     case v of JArr rs \<Rightarrow> Inr (JStr role \<in> set rs) | _ \<Rightarrow> Inl (TypeError ''authorized_roles''))"

definition finish_challenge ::
  "hitl_env \<Rightarrow> (string, string) dict \<Rightarrow> challenge_data \<Rightarrow> hitl_status \<Rightarrow> (string, string) dict \<times> hitl_status result" where
  "finish_challenge env db r st =
     (case store_challenge env db (AList.update ''status'' (JStr (status_text st)) (unsigned r)) of
        Inl e \<Rightarrow> (db, Inl e)
      | Inr (db', _) \<Rightarrow> (db', Inr st))"

definition verify_approval ::
  "hitl_env \<Rightarrow> authenticator \<Rightarrow> (string, string) dict \<Rightarrow> string \<Rightarrow> string \<Rightarrow> string \<Rightarrow> string list \<Rightarrow> int
     \<Rightarrow> (string, string) dict \<times> hitl_status result" where
  "verify_approval env auth db cid response role roles now =
     (case read_challenge env db cid of
        None \<Rightarrow> (db, Inr HDenied)
      | Some r \<Rightarrow>
          case dict_get r ''status'' of
            Inl e \<Rightarrow> (db, Inl e)
          | Inr st \<Rightarrow>
              if st \<noteq> JStr (status_text HPending) then (db, Inr HDenied)
              else case outside_window env r now of
                Inl e \<Rightarrow> (db, Inl e)
              | Inr True \<Rightarrow> finish_challenge env db r HExpired
              | Inr False \<Rightarrow>
                  case role_listed r role of
                    Inl e \<Rightarrow> (db, Inl e)
                  | Inr listed \<Rightarrow>
                      if \<not> listed \<or> role \<notin> set roles then (db, Inr HDenied)
                      else case auth of
                        None \<Rightarrow> (db, Inr HDenied)
                      | Some f \<Rightarrow> if f r response role = Some True then finish_challenge env db r HApproved else (db, Inr HDenied))"

definition get_challenge :: "hitl_env \<Rightarrow> (string, string) dict \<Rightarrow> string \<Rightarrow> challenge_data option" where
  "get_challenge env db cid = read_challenge env db cid"

section \<open>Records in the table\<close>

text \<open>A record as the gateway writes it: readable, signed, and with the fields that a decision depends on.\<close>

definition stored :: "hitl_env \<Rightarrow> string \<Rightarrow> string \<Rightarrow> string list \<Rightarrow> int \<Rightarrow> rat \<Rightarrow> hitl_status \<Rightarrow> bool" where
  "stored env cid t roles ts w st =
     (\<exists>r v. t = dumps (JObj r) \<and> wf_json (hv_float env) (JObj r) \<and> map_of r ''challenge_id'' = Some (JStr cid)
        \<and> map_of r ''timestamp_ns'' = Some (JInt ts) \<and> map_of r ''validity_window_s'' = Some v \<and> window_value env v = Some w
        \<and> map_of r ''authorized_roles'' = Some (JArr (map JStr roles)) \<and> map_of r ''status'' = Some (JStr (status_text st))
        \<and> map_of r ''signature'' = Some (JStr (hv_mac env (challenge_schema @ newline # dumps (JObj (unsigned r))))))"

lemma map_of_unsigned: "k \<noteq> ''signature'' \<Longrightarrow> map_of (unsigned r) k = map_of r k"
  by (induction r) (auto simp: unsigned_def)

lemma map_of_unsigned_signature: "map_of (unsigned r) ''signature'' = None"
  by (induction r) (auto simp: unsigned_def)

lemma unsigned_norm: "unsigned (norm_record r) = norm_record (unsigned r)"
  unfolding unsigned_def by (rule filter_norm_record)

lemma wf_unsigned: "wf_json fl (JObj r) \<Longrightarrow> wf_json fl (JObj (unsigned r))"
  unfolding unsigned_def by (rule wf_json_filter)

lemma sign_wf: "wf_json (hv_float env) (JObj d) \<Longrightarrow> sign env d = Inr (hv_mac env (challenge_schema @ newline # dumps (JObj d)))"
  using wf_json_finite [of "hv_float env" "JObj d"] by (simp add: sign_def canonical_def del: dumps.simps finite_json.simps wf_json.simps)

text \<open>Reading a stored record gives its fields.\<close>

lemma read_stored:
  assumes "map_of db cid = Some t" and "stored env cid t roles ts w st" and "hv_uuid_ok env cid"
  obtains r v where "read_challenge env db cid = Some r" "wf_json (hv_float env) (JObj (unsigned r))"
    "map_of (unsigned r) ''challenge_id'' = Some (JStr cid)" "map_of r ''timestamp_ns'' = Some (JInt ts)"
    "map_of r ''validity_window_s'' = Some v" "window_value env v = Some w"
    "map_of r ''authorized_roles'' = Some (JArr (map JStr roles))" "map_of r ''status'' = Some (JStr (status_text st))"
proof -
  obtain r v where r: "t = dumps (JObj r)" "wf_json (hv_float env) (JObj r)" "map_of r ''challenge_id'' = Some (JStr cid)"
    "map_of r ''timestamp_ns'' = Some (JInt ts)" "map_of r ''validity_window_s'' = Some v" "window_value env v = Some w"
    "map_of r ''authorized_roles'' = Some (JArr (map JStr roles))" "map_of r ''status'' = Some (JStr (status_text st))"
    "map_of r ''signature'' = Some (JStr (hv_mac env (challenge_schema @ newline # dumps (JObj (unsigned r)))))"
    using assms(2) unfolding stored_def by blast
  let ?n = "norm_record r" and ?sg = "hv_mac env (challenge_schema @ newline # dumps (JObj (unsigned r)))"
  have d: "distinct (map fst r)" using r(2) by simp
  note look = map_of_norm_record [OF d]
  have read: "strict_json (hv_float env) t = Inr (JObj ?n)"
    using strict_json_dumps [OF r(2)] unfolding r(1) by (simp only: norm_record_json)
  have wf: "wf_json (hv_float env) (JObj (unsigned ?n))"
    using wf_unsigned wf_norm_json [OF r(2)] by (simp only: norm_record_json)
  have sg: "sign env (unsigned ?n) = Inr ?sg" using sign_wf [OF wf] by (simp only: unsigned_norm dumps_norm_record)
  have rc: "read_challenge env db cid = Some (unsigned ?n @ [(''signature'', JStr ?sg)])"
    using assms(1,3) read sg look r(3,9) by (simp add: read_challenge_def map_of_unsigned del: dumps.simps)
  have un: "unsigned (unsigned ?n @ [(''signature'', JStr ?sg)]) = unsigned ?n" by (simp add: unsigned_def)
  have m: "map_of (unsigned ?n @ [(''signature'', JStr ?sg)]) k = map_of ?n k" if "k \<noteq> ''signature''" for k
    using that map_of_unsigned [OF that, of ?n] by (simp add: map_add_def split: option.splits)
  have v: "norm_json v = v" using r(6) by (cases v) (auto simp: window_value_def)
  show ?thesis
    using rc wf v r(3-8) by (intro that [of "unsigned ?n @ [(''signature'', JStr ?sg)]" v]) (simp_all add: un m look map_of_unsigned comp_def del: dumps.simps)
qed

text \<open>Storing writes such a record.\<close>

lemma store_stored:
  assumes "wf_json (hv_float env) (JObj d)" and "map_of d ''signature'' = None" and "map_of d ''challenge_id'' = Some (JStr cid)"
    and "map_of d ''timestamp_ns'' = Some (JInt ts)" and "map_of d ''validity_window_s'' = Some v" and "window_value env v = Some w"
    and "map_of d ''authorized_roles'' = Some (JArr (map JStr roles))" and "map_of d ''status'' = Some (JStr (status_text st))"
  obtains t sg where "store_challenge env db d = Inr (AList.update cid t db, sg)" "stored env cid t roles ts w st"
proof -
  let ?sg = "hv_mac env (challenge_schema @ newline # dumps (JObj d))"
  let ?r = "d @ [(''signature'', JStr ?sg)]"
  have wf: "wf_json (hv_float env) (JObj ?r)" using assms(1,2) by (auto simp: map_of_eq_None_iff)
  have un: "unsigned ?r = d"
    using assms(2) by (force simp: unsigned_def filter_id_conv map_of_eq_None_iff)
  have "store_challenge env db d = Inr (AList.update cid (dumps (JObj ?r)) db, ?sg)"
    using wf_json_finite [OF wf] assms(3) by (simp add: store_challenge_def sign_wf [OF assms(1)] dict_get_def canonical_def del: dumps.simps finite_json.simps)
  moreover have "stored env cid (dumps (JObj ?r)) roles ts w st"
    unfolding stored_def using wf assms(2-8) un by (intro exI [of _ ?r] exI [of _ v]) (auto simp: map_add_def split: option.splits)
  ultimately show ?thesis using that by blast
qed

section \<open>Decisions\<close>

lemma status_text_inj [simp]: "status_text a = status_text b \<longleftrightarrow> a = b"
  by (cases a; cases b) simp_all

lemma finish_stored:
  assumes "wf_json (hv_float env) (JObj (unsigned r))" and "map_of (unsigned r) ''challenge_id'' = Some (JStr cid)"
    and "map_of r ''timestamp_ns'' = Some (JInt ts)" and "map_of r ''validity_window_s'' = Some v" and "window_value env v = Some w"
    and "map_of r ''authorized_roles'' = Some (JArr (map JStr roles))"
  obtains t where "finish_challenge env db r st = (AList.update cid t db, Inr st)" "stored env cid t roles ts w st"
proof -
  let ?d = "AList.update ''status'' (JStr (status_text st)) (unsigned r)"
  have "wf_json (hv_float env) (JObj ?d)"
  proof -
    have "distinct (map fst ?d)" using assms(1) by (simp add: distinct_update)
    moreover have "wf_json (hv_float env) x" if "(k, x) \<in> set ?d" for k x
      using update_mem [OF that] assms(1) by (auto simp: list_all_iff)
    ultimately show ?thesis by (auto simp: list_all_iff)
  qed
  then obtain t sg where "store_challenge env db ?d = Inr (AList.update cid t db, sg)" "stored env cid t roles ts w st"
    using store_stored [of env ?d cid ts v w roles st db] assms(2-6) by (auto simp: map_of_unsigned map_of_unsigned_signature)
  then show ?thesis using that by (simp add: finish_challenge_def)
qed

lemma verify_unknown: "map_of db cid = None \<Longrightarrow> verify_approval env auth db cid response role roles' now = (db, Inr HDenied)"
  by (simp add: verify_approval_def read_challenge_def)

lemma verify_outcome:
  assumes "map_of db cid = Some t" and "stored env cid t roles ts w st" and "hv_uuid_ok env cid"
  obtains t1 t2 r where "stored env cid t1 roles ts w HExpired" "stored env cid t2 roles ts w HApproved"
    "verify_approval env auth db cid response role roles' now =
      (if st \<noteq> HPending then (db, Inr HDenied)
       else if hv_ratio env (now - ts) < 0 \<or> hv_ratio env (now - ts) \<ge> w then (AList.update cid t1 db, Inr HExpired)
       else if role \<notin> set roles \<or> role \<notin> set roles' then (db, Inr HDenied)
       else case auth of None \<Rightarrow> (db, Inr HDenied)
       | Some f \<Rightarrow> if f r response role = Some True then (AList.update cid t2 db, Inr HApproved) else (db, Inr HDenied))"
proof -
  obtain r v where r: "read_challenge env db cid = Some r" "wf_json (hv_float env) (JObj (unsigned r))"
    "map_of (unsigned r) ''challenge_id'' = Some (JStr cid)" "map_of r ''timestamp_ns'' = Some (JInt ts)"
    "map_of r ''validity_window_s'' = Some v" "window_value env v = Some w"
    "map_of r ''authorized_roles'' = Some (JArr (map JStr roles))" "map_of r ''status'' = Some (JStr (status_text st))"
    using read_stored [OF assms] by blast
  note fin = finish_stored [OF r(2-7), of db]
  obtain t1 where t1: "finish_challenge env db r HExpired = (AList.update cid t1 db, Inr HExpired)" "stored env cid t1 roles ts w HExpired"
    using fin [of HExpired] by blast
  obtain t2 where t2: "finish_challenge env db r HApproved = (AList.update cid t2 db, Inr HApproved)" "stored env cid t2 roles ts w HApproved"
    using fin [of HApproved] by blast
  define out where "out = (hv_ratio env (now - ts) < 0 \<or> hv_ratio env (now - ts) \<ge> w)"
  have win: "outside_window env r now = Inr out"
    using r(4-6) by (simp add: outside_window_def dict_get_def out_def)
  have listed: "role_listed r role = Inr (role \<in> set roles)" using r(7) by (auto simp: role_listed_def dict_get_def)
  have "verify_approval env auth db cid response role roles' now =
      (if st \<noteq> HPending then (db, Inr HDenied) else if out then (AList.update cid t1 db, Inr HExpired)
       else if role \<notin> set roles \<or> role \<notin> set roles' then (db, Inr HDenied)
       else case auth of None \<Rightarrow> (db, Inr HDenied)
       | Some f \<Rightarrow> if f r response role = Some True then (AList.update cid t2 db, Inr HApproved) else (db, Inr HDenied))"
    by (cases out; cases st; cases auth) (simp_all add: verify_approval_def r(1,8) dict_get_def win listed t1(1) t2(1))
  then show ?thesis using that t1(2) t2(2) unfolding out_def by blast
qed

lemma verify_stored:
  assumes "map_of db cid = Some t" and "stored env cid t roles ts w st"
    and "verify_approval env auth db cid response role roles' now = (db', Inr st')"
  shows "st' = HDenied \<and> db' = db
    \<or> st = HPending \<and> st' \<in> {HApproved, HExpired} \<and> (\<exists>t'. db' = AList.update cid t' db \<and> stored env cid t' roles ts w st')
      \<and> (st' = HApproved \<longrightarrow> role \<in> set roles \<and> 0 \<le> hv_ratio env (now - ts) \<and> hv_ratio env (now - ts) < w)"
proof (cases "hv_uuid_ok env cid")
  case False
  then show ?thesis using assms(3) by (simp add: verify_approval_def read_challenge_def)
next
  case True
  show ?thesis
    by (rule verify_outcome [OF assms(1,2) True, of auth response role roles' now])
      (use assms(3) in \<open>auto split: if_splits option.splits\<close>)
qed

lemma read_id: "read_challenge env db cid = Some r \<Longrightarrow> map_of (unsigned r) ''challenge_id'' = Some (JStr cid)"
  by (auto simp: read_challenge_def map_of_unsigned map_add_def split: if_splits option.splits sum.splits json.splits)

lemma finish_db:
  assumes "map_of (unsigned r) ''challenge_id'' = Some (JStr cid)" and "c \<noteq> cid"
  shows "map_of (fst (finish_challenge env db r st)) c = map_of db c"
  using assms by (auto simp: finish_challenge_def store_challenge_def dict_get_def result_simps split: sum.splits)

lemma verify_db:
  assumes "verify_approval env auth db cid response role roles now = (db', res)" and "c \<noteq> cid"
  shows "map_of db' c = map_of db c"
proof (cases "read_challenge env db cid")
  case None
  then show ?thesis using assms by (simp add: verify_approval_def)
next
  case (Some r)
  note fin = finish_db [OF read_id [OF Some] assms(2), of env db]
  have "db' = fst (verify_approval env auth db cid response role roles now)" using assms(1) by simp
  then show ?thesis
    using fin by (auto simp: verify_approval_def Some split: if_splits option.splits sum.splits bool.splits)
qed

section \<open>Runs\<close>

datatype hitl_event = HGenerated string "string list" int rat | HVerified string string hitl_status int

inductive hitl_run :: "hitl_env \<Rightarrow> authenticator \<Rightarrow> (string, string) dict \<Rightarrow> hitl_event list \<Rightarrow> bool" for env auth where
  start: "hitl_run env auth [] []"
| generated: "hitl_run env auth db evs \<Longrightarrow> generate_challenge env H validity db tid action reason spec cid now = Inr (db', ch)
    \<Longrightarrow> map_of db cid = None \<Longrightarrow> wf_json (hv_float env) action \<Longrightarrow> wf_json (hv_float env) validity \<Longrightarrow> window_value env validity = Some w
    \<Longrightarrow> hitl_run env auth db' (evs @ [HGenerated cid (authorized_roles (gs_rule spec)) now w])"
| verified: "hitl_run env auth db evs \<Longrightarrow> verify_approval env auth db cid response role roles now = (db', Inr st)
    \<Longrightarrow> hitl_run env auth db' (evs @ [HVerified cid role st now])"

fun approves :: "string \<Rightarrow> hitl_event \<Rightarrow> bool" where
  "approves cid (HVerified c role HApproved now) = (c = cid)"
| "approves cid _ = False"

definition approved_by :: "hitl_env \<Rightarrow> string \<Rightarrow> string list \<Rightarrow> int \<Rightarrow> rat \<Rightarrow> hitl_event list \<Rightarrow> bool" where
  "approved_by env cid roles ts w es = (\<exists>role now. es = [HVerified cid role HApproved now] \<and> role \<in> set roles
     \<and> 0 \<le> hv_ratio env (now - ts) \<and> hv_ratio env (now - ts) < w)"

definition challenge_inv :: "hitl_env \<Rightarrow> (string, string) dict \<Rightarrow> hitl_event list \<Rightarrow> string \<Rightarrow> bool" where
  "challenge_inv env db evs cid =
     (case map_of db cid of
        None \<Rightarrow> filter (approves cid) evs = []
      | Some t \<Rightarrow> \<exists>roles ts w st. stored env cid t roles ts w st \<and> HGenerated cid roles ts w \<in> set evs
          \<and> (if st = HApproved then approved_by env cid roles ts w (filter (approves cid) evs) else filter (approves cid) evs = []))"

lemma challenge_invI:
  assumes "map_of db cid = Some t" and "stored env cid t roles ts w st" and "HGenerated cid roles ts w \<in> set evs"
    and "if st = HApproved then approved_by env cid roles ts w (filter (approves cid) evs) else filter (approves cid) evs = []"
  shows "challenge_inv env db evs cid"
  unfolding challenge_inv_def assms(1) option.case by (intro exI [of _ roles] exI [of _ ts] exI [of _ w] exI [of _ st] conjI assms(2-4))

lemma challenge_inv_keep:
  assumes "challenge_inv env db evs cid" and "map_of db' cid = map_of db cid" and "\<not> approves cid ev"
  shows "challenge_inv env db' (evs @ [ev]) cid"
proof (cases "map_of db cid")
  case None
  then show ?thesis using assms by (simp add: challenge_inv_def)
next
  case (Some t)
  then obtain roles ts w st where "stored env cid t roles ts w st" "HGenerated cid roles ts w \<in> set evs"
    "if st = HApproved then approved_by env cid roles ts w (filter (approves cid) evs) else filter (approves cid) evs = []"
    using assms(1) by (auto simp: challenge_inv_def)
  then show ?thesis using assms(2,3) Some by (intro challenge_invI [of _ _ t _ roles ts w st]) auto
qed

lemma generate_stored:
  assumes "generate_challenge env H validity db tid action reason spec cid now = Inr (db', ch)"
    and "wf_json (hv_float env) action" and "wf_json (hv_float env) validity" and "window_value env validity = Some w"
  obtains t where "db' = AList.update cid t db" "stored env cid t (authorized_roles (gs_rule spec)) now w HPending"
proof -
  let ?act = "norm_json action"
  obtain gh where gh: "content_hash H spec = Inr gh" using assms(1) by (auto simp: generate_challenge_def result_simps)
  let ?d = "[(''schema_version'', JStr challenge_schema), (''challenge_id'', JStr cid),
        (''payload'', JObj [(''task_id'', JStr tid), (''action'', ?act), (''reason'', JStr reason), (''goal_spec_hash'', JStr gh)]),
        (''timestamp_ns'', JInt now), (''validity_window_s'', validity),
        (''authorized_roles'', JArr (map JStr (authorized_roles (gs_rule spec)))), (''status'', JStr (status_text HPending))]"
  have "canonical action = Inr (dumps action)" using wf_json_finite [OF assms(2)] by (simp add: canonical_def)
  then have act: "bind_r (canonical action) (strict_json (hv_float env)) = Inr ?act" using strict_json_dumps [OF assms(2)] by simp
  have wf: "wf_json (hv_float env) (JObj ?d)" using wf_norm_json [OF assms(2)] assms(3) by (simp add: list_all_iff)
  obtain t sg where t: "store_challenge env db ?d = Inr (AList.update cid t db, sg)" "stored env cid t (authorized_roles (gs_rule spec)) now w HPending"
    by (rule store_stored [OF wf, of cid now validity w "authorized_roles (gs_rule spec)" HPending db]) (use assms(4) in auto)
  then have "db' = AList.update cid t db" using assms(1) by (auto simp: generate_challenge_def result_simps act gh)
  with t(2) show ?thesis using that by blast
qed

lemma hitl_run_inv: "hitl_run env auth db evs \<Longrightarrow> challenge_inv env db evs c"
proof (induction rule: hitl_run.induct)
  case start
  then show ?case by (simp add: challenge_inv_def)
next
  case (generated db evs H validity tid action reason spec cid now db' ch w)
  obtain t where t: "db' = AList.update cid t db" "stored env cid t (authorized_roles (gs_rule spec)) now w HPending"
    by (rule generate_stored [OF generated.hyps(2,4-6)])
  show ?case
  proof (cases "c = cid")
    case True
    then have "filter (approves c) evs = []" using generated.IH generated.hyps(3) by (simp add: challenge_inv_def)
    moreover have "stored env c t (authorized_roles (gs_rule spec)) now w HPending" using t(2) True by simp
    ultimately show ?thesis using t(1) True unfolding challenge_inv_def by fastforce
  next
    case False
    then show ?thesis using generated.IH t(1) by (auto intro: challenge_inv_keep)
  qed
next
  case (verified db evs cid response role roles' now db' st')
  show ?case
  proof (cases "map_of db cid")
    case None
    then have "db' = db" "st' = HDenied" using verified.hyps(2) verify_unknown by auto
    then show ?thesis using verified.IH by (auto intro: challenge_inv_keep)
  next
    case (Some t)
    show ?thesis
    proof (cases "c = cid")
      case True
      obtain roles ts w st where s: "stored env cid t roles ts w st" "HGenerated cid roles ts w \<in> set evs"
        "if st = HApproved then approved_by env cid roles ts w (filter (approves cid) evs) else filter (approves cid) evs = []"
        using verified.IH Some True by (auto simp: challenge_inv_def)
      note v = verify_stored [OF Some s(1) verified.hyps(2)]
      then consider (same) "st' = HDenied" "db' = db" | (finished) t' where "st = HPending" "st' \<in> {HApproved, HExpired}" "db' = AList.update cid t' db"
          "stored env cid t' roles ts w st'" "st' = HApproved \<longrightarrow> role \<in> set roles \<and> 0 \<le> hv_ratio env (now - ts) \<and> hv_ratio env (now - ts) < w" by blast
      then show ?thesis
      proof cases
        case same
        then show ?thesis using s Some True by (intro challenge_invI [of _ _ t _ roles ts w st]) auto
      next
        case finished
        then show ?thesis using s True unfolding challenge_inv_def approved_by_def by fastforce
      qed
    next
      case False
      then have "map_of db' c = map_of db c" "\<not> approves c (HVerified cid role st' now)"
        using verify_db [OF verified.hyps(2)] by (cases st'; auto)+
      then show ?thesis using verified.IH by (auto intro: challenge_inv_keep)
    qed
  qed
qed

text \<open>C7. Approvals are single use. In every run of the gateway, whatever the authenticator answers and however calls for
  different challenges alternate, a challenge is approved at most once; and if it is approved, it was generated before,
  the approving role is among those its goal specification authorised, and the approval fell inside the validity window.\<close>

theorem hitl_approval_single_use:
  assumes "hitl_run env auth db evs"
  shows "length (filter (approves cid) evs) \<le> 1
    \<and> (HVerified cid role HApproved now \<in> set evs \<longrightarrow> (\<exists>roles ts w. HGenerated cid roles ts w \<in> set evs \<and> role \<in> set roles
        \<and> 0 \<le> hv_ratio env (now - ts) \<and> hv_ratio env (now - ts) < w))"
proof (cases "filter (approves cid) evs = []")
  case True
  then have "HVerified cid role HApproved now \<notin> set evs" by (auto simp: filter_empty_conv)
  with True show ?thesis by simp
next
  case False
  then obtain roles ts w where g: "HGenerated cid roles ts w \<in> set evs" "approved_by env cid roles ts w (filter (approves cid) evs)"
    using hitl_run_inv [OF assms, of cid] by (auto simp: challenge_inv_def split: option.splits if_splits)
  then obtain role' now' where e: "filter (approves cid) evs = [HVerified cid role' HApproved now']" "role' \<in> set roles"
    "0 \<le> hv_ratio env (now' - ts)" "hv_ratio env (now' - ts) < w" by (auto simp: approved_by_def)
  have "role' = role \<and> now' = now" if "HVerified cid role HApproved now \<in> set evs"
  proof -
    have "HVerified cid role HApproved now \<in> set (filter (approves cid) evs)" using that by simp
    then show ?thesis unfolding e(1) by simp
  qed
  then show ?thesis using e g(1) by (metis One_nat_def length_Cons list.size(3) order_refl)
qed

definition sample_hitl_env :: hitl_env where
  "sample_hitl_env = \<lparr>hv_mac = id, hv_uuid_ok = (\<lambda>_. True), hv_float = JFloat, hv_value = (\<lambda>_. 0), hv_ratio = (\<lambda>n. of_int n / 1000000000)\<rparr>"

definition sample_authenticator :: authenticator where
  "sample_authenticator = Some (\<lambda>data response role. Some (response = ''yes''))"

definition sample_generate :: "((string, string) dict \<times> hitl_challenge) result" where
  "sample_generate = generate_challenge sample_hitl_env (\<lambda>_. replicate 64 (CHR ''a'')) (JInt 3600) [] ''t1'' (JObj [(''op'', JStr ''x'')])
     ''why'' sample_goal ''c'' 5"

lemma sample_generate_ok: "is_ok sample_generate"
  by code_simp

text \<open>A challenge that is generated, approved, and refused the second time.\<close>

lemma sample_hitl_run:
  obtains db where "hitl_run sample_hitl_env sample_authenticator db
    [HGenerated ''c'' (authorized_roles (gs_rule sample_goal)) 5 3600, HVerified ''c'' (hd (authorized_roles (gs_rule sample_goal))) HApproved 6,
     HVerified ''c'' (hd (authorized_roles (gs_rule sample_goal))) HDenied 7]"
proof -
  let ?roles = "authorized_roles (gs_rule sample_goal)" and ?env = sample_hitl_env and ?auth = sample_authenticator
  have role: "hd ?roles \<in> set ?roles" by (simp add: sample_goal_def)
  obtain db1 ch where g: "sample_generate = Inr (db1, ch)" using sample_generate_ok unfolding is_ok_def by (auto split: sum.splits)
  note g' = g [unfolded sample_generate_def]
  have wf: "wf_json (hv_float ?env) (JObj [(''op'', JStr ''x'')])" "wf_json (hv_float ?env) (JInt 3600)" "window_value ?env (JInt 3600) = Some 3600"
    by (simp_all add: window_value_def)
  obtain t where t: "db1 = AList.update ''c'' t []" "stored ?env ''c'' t ?roles 5 3600 HPending"
    by (rule generate_stored [OF g' wf])
  have run1: "hitl_run ?env ?auth db1 [HGenerated ''c'' ?roles 5 3600]"
    using hitl_run.generated [OF hitl_run.start g' _ wf] by simp
  have m1: "map_of db1 ''c'' = Some t" using t(1) by simp
  have ok: "hv_uuid_ok ?env c" for c by (simp add: sample_hitl_env_def)
  obtain t2 where t2: "stored ?env ''c'' t2 ?roles 5 3600 HApproved"
    "verify_approval ?env ?auth db1 ''c'' ''yes'' (hd ?roles) ?roles 6 = (AList.update ''c'' t2 db1, Inr HApproved)"
    by (rule verify_outcome [OF m1 t(2) ok, of ?auth "''yes''" "hd ?roles" ?roles 6])
      (use role in \<open>simp add: sample_hitl_env_def sample_authenticator_def\<close>)
  have m2: "map_of (AList.update ''c'' t2 db1) ''c'' = Some t2" by simp
  have v3: "verify_approval ?env ?auth (AList.update ''c'' t2 db1) ''c'' ''yes'' (hd ?roles) ?roles 7 = (AList.update ''c'' t2 db1, Inr HDenied)"
    by (rule verify_outcome [OF m2 t2(1) ok, of ?auth "''yes''" "hd ?roles" ?roles 7]) simp
  from hitl_run.verified [OF hitl_run.verified [OF run1 t2(2)] v3] show ?thesis using that by simp
qed

theorem hitl_approval_single_use_witness:
  "\<exists>db evs roles ts w. hitl_run sample_hitl_env sample_authenticator db evs \<and> length evs = 3
     \<and> length (filter (approves ''c'') evs) = 1 \<and> HGenerated ''c'' roles ts w \<in> set evs \<and> hd (authorized_roles (gs_rule sample_goal)) \<in> set roles"
proof -
  let ?role = "hd (authorized_roles (gs_rule sample_goal))"
  obtain db evs where e: "hitl_run sample_hitl_env sample_authenticator db evs" "length evs = 3"
    "filter (approves ''c'') evs \<noteq> []" "HVerified ''c'' ?role HApproved 6 \<in> set evs"
    by (rule sample_hitl_run) (auto simp: filter_empty_conv)
  have "length (filter (approves ''c'') evs) = 1" "\<exists>roles ts w. HGenerated ''c'' roles ts w \<in> set evs \<and> ?role \<in> set roles"
    using hitl_approval_single_use [OF e(1), of "''c''" ?role 6] e(3,4) by (auto simp: le_Suc_eq)
  with e(1,2) show ?thesis by blast
qed

end
