(* ===== verification/Saga.thy ===== *)
theory Saga
  imports Dag Json
begin

text \<open>
  Compound side effects, \<open>src/residual/control_plane/transactions.py\<close> with the effect states of
  \<open>src/residual/control_plane/models.py\<close>: construction of a transaction with its depth-first cycle check, the legal
  transitions of an effect, and the coordinator that dispatches effects in dependency order, reconciles
  ambiguous outcomes and compensates after a failure.

  \<^item> The callbacks \<open>dispatch\<close>, \<open>reconcile\<close> and \<open>compensate\<close> are parameters; their first argument is the number of
    events recorded so far, so that two calls for one effect may answer differently. The observer \<open>emit\<close> is
    notified of every event and does not raise.
  \<^item> A dispatch answers with a Python value: a Boolean (numbers equal to 0 or 1 compare like one), a string, any other
    value (by its \<open>repr\<close>), or it raises. A compensation answers with the truth value of its result, \<open>None\<close> when it raises.
  \<^item> The recursion of the cycle check and the dispatch loop are bounded by fuel; that the fuel is enough is proved.
  \<^item> Shown: construction accepts exactly the closed acyclic transactions, and a run ends, makes only legal
    transitions, respects the dependencies and leaves no effect in an intermediate state.
\<close>

section \<open>Effects and transactions\<close>

datatype intent_state =
  Prepared | Attempted | Applied | EffFailed | Ambiguous | Reconciling | Compensating | Compensated

fun state_value :: "intent_state \<Rightarrow> string" where
  "state_value Prepared = ''prepared''"
| "state_value Attempted = ''attempted''"
| "state_value Applied = ''applied''"
| "state_value EffFailed = ''failed''"
| "state_value Ambiguous = ''ambiguous''"
| "state_value Reconciling = ''reconciling''"
| "state_value Compensating = ''compensating''"
| "state_value Compensated = ''compensated''"

datatype transaction_state =
  TxPrepared | TxInProgress | TxComplete | TxIncomplete | TxFailed | TxReconciliationRequired | TxCompensating | TxCompensated

record atomic_effect =
  ef_id :: string
  ef_intent :: string
  ef_deps :: "string list"
  ef_state :: intent_state
  ef_reversibility :: string
  ef_result :: "string option"
  ef_compensation :: "string option"

type_synonym effects = "(string, atomic_effect) dict"

record transaction =
  tx_id :: string
  tx_effects :: effects
  tx_policy_hash :: string

section \<open>The cycle check\<close>

abbreviation cycle_error :: error where
  "cycle_error \<equiv> ValueError ''side-effect dependency cycle''"

fun visit_all :: "(string list \<Rightarrow> string \<Rightarrow> string list result option) \<Rightarrow> string list \<Rightarrow> string list \<Rightarrow> string list result option" where
  "visit_all f finished [] = Some (Inr finished)"
| "visit_all f finished (d # ds) =
     (case f finished d of
        None \<Rightarrow> None
      | Some (Inl e) \<Rightarrow> Some (Inl e)
      | Some (Inr finished') \<Rightarrow> visit_all f finished' ds)"

text \<open>\<open>visit_effect(k)\<close> with the sets \<open>visiting\<close> and \<open>done\<close>; it returns the new \<open>done\<close>, and \<open>visiting\<close> is as before the call.\<close>

fun visit_effect :: "nat \<Rightarrow> effects \<Rightarrow> string list \<Rightarrow> string list \<Rightarrow> string \<Rightarrow> string list result option" where
  "visit_effect 0 es visiting finished k = None"
| "visit_effect (Suc n) es visiting finished k =
     (if k \<in> set visiting then Some (Inl cycle_error)
      else if k \<in> set finished then Some (Inr finished)
      else case map_of es k of
        None \<Rightarrow> Some (Inl (KeyError k))
      | Some e \<Rightarrow>
          case visit_all (visit_effect n es (k # visiting)) finished (ef_deps e) of
            None \<Rightarrow> None
          | Some (Inl e) \<Rightarrow> Some (Inl e)
          | Some (Inr finished') \<Rightarrow> Some (Inr (k # finished')))"

definition assert_acyclic :: "effects \<Rightarrow> unit result option" where
  "assert_acyclic es =
     (case visit_all (visit_effect (Suc (length es)) es []) [] (map fst es) of
        None \<Rightarrow> None | Some (Inl e) \<Rightarrow> Some (Inl e) | Some (Inr _) \<Rightarrow> Some (Inr ()))"

definition mk_transaction :: "transaction \<Rightarrow> transaction result option" where
  "mk_transaction tx =
     (if tx_policy_hash tx = [] then Some (Inl (ValueError ''transaction policy_hash is required''))
      else if \<not> list_all (\<lambda>(k, e). set (ef_deps e) \<subseteq> fst ` set (tx_effects tx)) (tx_effects tx)
      then Some (Inl (ValueError ''unknown dependencies''))
      else case assert_acyclic (tx_effects tx) of
        None \<Rightarrow> None | Some (Inl e) \<Rightarrow> Some (Inl e) | Some (Inr _) \<Rightarrow> Some (Inr tx))"

section \<open>Transitions\<close>

fun allowed_after :: "intent_state \<Rightarrow> intent_state list" where
  "allowed_after Prepared = [Attempted]"
| "allowed_after Attempted = [Applied, EffFailed, Ambiguous]"
| "allowed_after Ambiguous = [Reconciling]"
| "allowed_after Reconciling = [Applied, EffFailed]"
| "allowed_after Applied = [Compensating]"
| "allowed_after Compensating = [Compensated, EffFailed]"
| "allowed_after _ = []"

definition ready :: "effects \<Rightarrow> atomic_effect list" where
  "ready es = filter (\<lambda>e. ef_state e = Prepared \<and>
     list_all (\<lambda>d. map_option ef_state (map_of es d) = Some Applied) (ef_deps e)) (map snd es)"

text \<open>Every transition of the source passes no \<open>result_ref\<close>, which resets it.\<close>

definition transition :: "effects \<Rightarrow> string \<Rightarrow> intent_state \<Rightarrow> effects result" where
  "transition es k s =
     bind_r (dict_get es k) (\<lambda>e.
     bind_r (ensure (s \<in> set (allowed_after (ef_state e))) (ValueError ''illegal transition'')) (\<lambda>_.
     Inr (AList.update k (e\<lparr>ef_state := s, ef_result := None\<rparr>) es)))"

definition tx_state :: "effects \<Rightarrow> transaction_state" where
  "tx_state es =
     (let s = set (map (ef_state \<circ> snd) es) in
      if s = {Applied} then TxComplete
      else if Ambiguous \<in> s \<or> Reconciling \<in> s then TxReconciliationRequired
      else if Compensating \<in> s then TxCompensating
      else if Compensated \<in> s \<and> s \<subseteq> {Compensated, EffFailed, Prepared} then TxCompensated
      else if EffFailed \<in> s \<and> Applied \<in> s then TxIncomplete
      else if EffFailed \<in> s \<and> Prepared \<in> s then TxIncomplete
      else if s = {EffFailed} then TxFailed
      else if s = {Prepared} then TxPrepared
      else TxInProgress)"

section \<open>The coordinator\<close>

datatype py_outcome = OutBool bool | OutStr string | OutOther string | OutRaised string

record coordinator =
  co_dispatch :: "nat \<Rightarrow> atomic_effect \<Rightarrow> py_outcome"
  co_reconcile :: "nat \<Rightarrow> atomic_effect \<Rightarrow> py_outcome"
  co_compensate :: "(nat \<Rightarrow> atomic_effect \<Rightarrow> bool option) option"

text \<open>The evidence: the name of each event and the identifier of its effect; its reference adds the position.\<close>

type_synonym evidence = "(string \<times> string) list"

definition evidence_refs :: "evidence \<Rightarrow> string list" where
  "evidence_refs ev = map (\<lambda>(n, (name, k)). name @ '':'' @ k @ '':'' @ nat_str n) (zip [0..<length ev] ev)"

type_synonym saga = "effects \<times> evidence"

definition move :: "string \<Rightarrow> string \<Rightarrow> intent_state \<Rightarrow> saga \<Rightarrow> saga result" where
  "move k name s sg = bind_r (transition (fst sg) k s) (\<lambda>es. Inr (es, snd sg @ [(name, k)]))"

definition is_applied :: "py_outcome \<Rightarrow> bool" where
  "is_applied v = (v = OutBool True \<or> v = OutStr ''applied'' \<or> v = OutStr ''executed'')"

definition is_failed :: "py_outcome \<Rightarrow> bool" where
  "is_failed v = (v = OutBool False \<or> v = OutStr ''failed'' \<or> v = OutStr ''denied'')"

text \<open>The text of \<open>reconciled_...\<close>: the answer of the reconciliation, \<open>failed\<close> when it raised.\<close>

fun resolved_text :: "py_outcome \<Rightarrow> string" where
  "resolved_text (OutStr s) = s"
| "resolved_text (OutBool b) = (if b then ''True'' else ''False'')"
| "resolved_text (OutOther s) = s"
| "resolved_text (OutRaised t) = ''failed''"

definition raised_event :: "string \<Rightarrow> string \<Rightarrow> py_outcome \<Rightarrow> saga \<Rightarrow> saga" where
  "raised_event name k v sg = (case v of OutRaised t \<Rightarrow> (fst sg, snd sg @ [(name, k)]) | _ \<Rightarrow> sg)"

text \<open>The treatment of one ready effect; the Boolean says whether the loop goes on.\<close>

definition reconcile_effect :: "coordinator \<Rightarrow> atomic_effect \<Rightarrow> saga \<Rightarrow> (bool \<times> saga) result" where
  "reconcile_effect co e sg =
     bind_r (move (ef_id e) ''ambiguous'' Ambiguous sg) (\<lambda>sg.
     bind_r (move (ef_id e) ''reconciling'' Reconciling sg) (\<lambda>sg.
     let v = co_reconcile co (length (snd sg)) e; sg = raised_event ''reconciliation_error'' (ef_id e) v sg;
         ok = (v = OutStr ''applied'') in
     bind_r (move (ef_id e) (''reconciled_'' @ resolved_text v) (if ok then Applied else EffFailed) sg) (\<lambda>sg. Inr (ok, sg))))"

definition attempt :: "coordinator \<Rightarrow> atomic_effect \<Rightarrow> saga \<Rightarrow> (bool \<times> saga) result" where
  "attempt co e sg =
     bind_r (move (ef_id e) ''attempted'' Attempted sg) (\<lambda>sg.
     let v = co_dispatch co (length (snd sg)) e; sg = raised_event ''dispatch_error'' (ef_id e) v sg in
     if is_applied v then bind_r (move (ef_id e) ''applied'' Applied sg) (\<lambda>sg. Inr (True, sg))
     else if is_failed v then bind_r (move (ef_id e) ''failed'' EffFailed sg) (\<lambda>sg. Inr (False, sg))
     else reconcile_effect co e sg)"

fun dispatch_loop :: "nat \<Rightarrow> coordinator \<Rightarrow> saga \<Rightarrow> saga result option" where
  "dispatch_loop 0 co sg = None"
| "dispatch_loop (Suc n) co sg =
     (case ready (fst sg) of
        [] \<Rightarrow> Some (Inr sg)
      | e # _ \<Rightarrow>
          case attempt co e sg of
            Inl err \<Rightarrow> Some (Inl err)
          | Inr (True, sg') \<Rightarrow> dispatch_loop n co sg'
          | Inr (False, sg') \<Rightarrow> Some (Inr sg'))"

definition compensate_effect :: "(nat \<Rightarrow> atomic_effect \<Rightarrow> bool option) \<Rightarrow> saga \<Rightarrow> atomic_effect \<Rightarrow> saga result" where
  "compensate_effect undo sg e =
     bind_r (move (ef_id e) ''compensating'' Compensating sg) (\<lambda>sg.
     let v = undo (length (snd sg)) e; ok = (v = Some True);
         sg = (if v = None then (fst sg, snd sg @ [(''compensation_error'', ef_id e)]) else sg) in
     move (ef_id e) (if ok then ''compensated'' else ''compensation_failed'') (if ok then Compensated else EffFailed) sg)"

definition compensatable :: "effects \<Rightarrow> atomic_effect list" where
  "compensatable es = filter (\<lambda>e. ef_state e = Applied \<and> ef_compensation e \<noteq> None \<and> ef_compensation e \<noteq> Some []) (map snd es)"

definition compensate_all :: "coordinator \<Rightarrow> saga \<Rightarrow> saga result" where
  "compensate_all co sg =
     (case co_compensate co of
        None \<Rightarrow> Inr sg
      | Some undo \<Rightarrow>
          if list_ex (\<lambda>e. ef_state e = EffFailed) (map snd (fst sg))
          then fold_r (compensate_effect undo) sg (rev (compensatable (fst sg)))
          else Inr sg)"

record transaction_receipt =
  rc_transaction :: string
  rc_policy_hash :: string
  rc_final :: transaction_state
  rc_effects :: "(string \<times> string) list"
  rc_evidence :: "string list"

definition run_transaction :: "coordinator \<Rightarrow> transaction \<Rightarrow> (transaction \<times> transaction_receipt) result option" where
  "run_transaction co tx =
     (case dispatch_loop (Suc (length (tx_effects tx))) co (tx_effects tx, []) of
        None \<Rightarrow> None
      | Some res \<Rightarrow> Some (
          bind_r res (\<lambda>sg.
          bind_r (compensate_all co sg) (\<lambda>(es, ev).
          Inr (tx\<lparr>tx_effects := es\<rparr>,
            \<lparr>rc_transaction = tx_id tx, rc_policy_hash = tx_policy_hash tx, rc_final = tx_state es,
             rc_effects = sort_key fst (map (\<lambda>(k, e). (k, state_value (ef_state e))) es),
             rc_evidence = evidence_refs ev\<rparr>)))))"

section \<open>The cycle check decides\<close>

definition effect_deps :: "effects \<Rightarrow> string deps" where
  "effect_deps es = map (\<lambda>(k, e). (k, ef_deps e)) es"

abbreviation keys :: "effects \<Rightarrow> string set" where
  "keys es \<equiv> fst ` set es"

fun topo :: "effects \<Rightarrow> string list \<Rightarrow> bool" where
  "topo es [] = True"
| "topo es (k # ks) = (k \<notin> set ks \<and> (\<exists>e. map_of es k = Some e \<and> set (ef_deps e) \<subseteq> set ks) \<and> topo es ks)"

lemma effect_dep_iff:
  "distinct (map fst es) \<Longrightarrow> (d, k) \<in> dep_rel (effect_deps es) \<longleftrightarrow> (\<exists>e. map_of es k = Some e \<and> d \<in> set (ef_deps e))"
  by (force simp: dep_rel_def effect_deps_def)

lemma effect_deps_closed:
  "closed_deps (effect_deps es) \<longleftrightarrow> distinct (map fst es) \<and> list_all (\<lambda>(k, e). set (ef_deps e) \<subseteq> keys es) es"
  by (force simp: closed_deps_def effect_deps_def list_all_iff comp_def case_prod_unfold)

lemma topo_deps: "topo es f \<Longrightarrow> k \<in> set f \<Longrightarrow> map_of es k = Some e \<Longrightarrow> set (ef_deps e) \<subseteq> set f"
  by (induction f) auto

text \<open>A finished list in which dependencies come later has a rank that decreases along them.\<close>

lemma topo_acyclic:
  assumes "distinct (map fst es)" and "topo es f" and "keys es \<subseteq> set f"
  shows "acyclic (dep_rel (effect_deps es))"
proof -
  let ?rank = "\<lambda>f k. - int (length (dropWhile (\<lambda>x. x \<noteq> k) f))"
  have less: "?rank f k < ?rank f d" if "topo es f" "k \<in> set f" "map_of es k = Some e" "d \<in> set (ef_deps e)" for k d e f
    using that
  proof (induction f)
    case (Cons j f)
    have len: "length (dropWhile (\<lambda>x. x \<noteq> d) f) \<le> length f" by (rule length_dropWhile_le)
    show ?case
    proof (cases "j = k")
      case True
      then show ?thesis using Cons.prems len by auto
    next
      case False
      then have "k \<in> set f" using Cons.prems by simp
      moreover have "d \<in> set f" using topo_deps [of es f k e] Cons.prems \<open>k \<in> set f\<close> by auto
      ultimately show ?thesis using Cons.IH Cons.prems False by auto
    qed
  qed simp
  show ?thesis
  proof (rule acyclicI_order [where f = "?rank f"])
    fix d k assume "(d, k) \<in> dep_rel (effect_deps es)"
    then obtain e where e: "map_of es k = Some e" "d \<in> set (ef_deps e)" using effect_dep_iff [OF assms(1)] by blast
    then have "k \<in> set f" using assms(3) map_of_SomeD [OF e(1)] by force
    then show "?rank f k < ?rank f d" using less [OF assms(2) _ e] by blast
  qed
qed

text \<open>What a visit_effect of a node guarantees, and what it needs of the sets it is given.\<close>

definition visit_ok :: "effects \<Rightarrow> string list \<Rightarrow> string list \<Rightarrow> string list \<Rightarrow> string list result option \<Rightarrow> bool" where
  "visit_ok es visiting finished ds r =
     (case r of
        None \<Rightarrow> False
      | Some (Inl err) \<Rightarrow> err = cycle_error \<and> \<not> acyclic (dep_rel (effect_deps es))
      | Some (Inr f) \<Rightarrow> topo es f \<and> set finished \<subseteq> set f \<and> set ds \<subseteq> set f \<and> set f \<inter> set visiting = {})"

lemma visit_all_ok:
  assumes "\<And>f d. d \<in> set ds \<Longrightarrow> topo es f \<Longrightarrow> set f \<inter> set visiting = {} \<Longrightarrow> visit_ok es visiting f [d] (g f d)"
    and "topo es finished" and "set finished \<inter> set visiting = {}"
  shows "visit_ok es visiting finished ds (visit_all g finished ds)"
  using assms
proof (induction ds arbitrary: finished)
  case (Cons d ds)
  have one: "visit_ok es visiting finished [d] (g finished d)" using Cons.prems by simp
  show ?case
  proof (cases "g finished d")
    case None
    then show ?thesis using one by (simp add: visit_ok_def)
  next
    case (Some r)
    show ?thesis
    proof (cases r)
      case (Inl err)
      then show ?thesis using one Some by (simp add: visit_ok_def)
    next
      case (Inr f)
      then have f: "topo es f" "set finished \<subseteq> set f" "d \<in> set f" "set f \<inter> set visiting = {}"
        using one Some by (auto simp: visit_ok_def)
      have "visit_ok es visiting f ds (visit_all g f ds)" using Cons.IH [OF _ f(1,4)] Cons.prems(1) by simp
      then show ?thesis using Some Inr f by (auto simp: visit_ok_def split: option.splits sum.splits)
    qed
  qed
qed (simp add: visit_ok_def)

lemma visit_correct:
  assumes "closed_deps (effect_deps es)" and "k \<in> keys es" and "set visiting \<subseteq> keys es"
    and "card (keys es - set visiting) < n" and "\<And>v. v \<in> set visiting \<Longrightarrow> (k, v) \<in> (dep_rel (effect_deps es))\<^sup>+"
    and "topo es finished" and "set finished \<inter> set visiting = {}"
  shows "visit_ok es visiting finished [k] (visit_effect n es visiting finished k)"
  using assms(2-)
proof (induction n arbitrary: k visiting finished)
  case (Suc n)
  have dist: "distinct (map fst es)" and known: "\<And>k e. map_of es k = Some e \<Longrightarrow> set (ef_deps e) \<subseteq> keys es"
    using assms(1) by (auto simp: effect_deps_closed list_all_iff dest!: map_of_SomeD)
  consider (cycle) "k \<in> set visiting" | (old) "k \<notin> set visiting" "k \<in> set finished" | (new) "k \<notin> set visiting" "k \<notin> set finished" by blast
  then show ?case
  proof cases
    case cycle
    then have "(k, k) \<in> (dep_rel (effect_deps es))\<^sup>+" using Suc.prems(4) by blast
    then show ?thesis using cycle by (auto simp: visit_ok_def acyclic_def)
  next
    case old
    then show ?thesis using Suc.prems by (simp add: visit_ok_def)
  next
    case new
    obtain e where e: "map_of es k = Some e" using Suc.prems(1) by (metis domD dom_map_of_conv_image_fst)
    have dep: "(d, v) \<in> (dep_rel (effect_deps es))\<^sup>+" if "d \<in> set (ef_deps e)" "v \<in> set (k # visiting)" for d v
      using that Suc.prems(4) effect_dep_iff [OF dist, of d k] e by (auto intro: trancl_into_trancl2)
    have card: "card (keys es - set (k # visiting)) < n"
    proof -
      have "keys es - set (k # visiting) \<subset> keys es - set visiting" using new Suc.prems(1) by auto
      then have "card (keys es - set (k # visiting)) < card (keys es - set visiting)" by (intro psubset_card_mono) simp_all
      then show ?thesis using Suc.prems(3) by simp
    qed
    have "visit_ok es (k # visiting) f [d] (visit_effect n es (k # visiting) f d)"
      if "d \<in> set (ef_deps e)" "topo es f" "set f \<inter> set (k # visiting) = {}" for f d
      using that dep [OF that(1)] card known [OF e] Suc.prems(1,2) by (intro Suc.IH) auto
    then have "visit_ok es (k # visiting) finished (ef_deps e) (visit_all (visit_effect n es (k # visiting)) finished (ef_deps e))"
      using Suc.prems new by (intro visit_all_ok) auto
    then show ?thesis using new e by (auto simp: visit_ok_def split: option.splits sum.splits)
  qed
qed simp

text \<open>Construction decides. For every dictionary of effects the depth-first check of a transaction ends within its
  recursion bound, and construction succeeds exactly when the policy hash is present, every dependency names an effect
  of the transaction and the dependencies are acyclic.\<close>

theorem mk_transaction_decides:
  assumes "distinct (map fst (tx_effects tx))"
  shows "\<exists>r. mk_transaction tx = Some r \<and> (r = Inr tx \<or> (\<exists>m. r = Inl (ValueError m)))
    \<and> (r = Inr tx \<longleftrightarrow> tx_policy_hash tx \<noteq> [] \<and> closed_deps (effect_deps (tx_effects tx)) \<and> acyclic (dep_rel (effect_deps (tx_effects tx))))"
proof (cases "tx_policy_hash tx \<noteq> [] \<and> closed_deps (effect_deps (tx_effects tx))")
  case False
  then show ?thesis using assms by (auto simp: mk_transaction_def effect_deps_closed)
next
  case True
  let ?es = "tx_effects tx"
  have "visit_ok ?es [] f [d] (visit_effect (Suc (length ?es)) ?es [] f d)" if "d \<in> set (map fst ?es)" "topo ?es f" for d f
    using that True card_image_le [of "set ?es" fst] card_length [of ?es] by (intro visit_correct) (auto simp: less_Suc_eq_le intro: le_trans)
  then have ok: "visit_ok ?es [] [] (map fst ?es) (visit_all (visit_effect (Suc (length ?es)) ?es []) [] (map fst ?es))"
    by (intro visit_all_ok) auto
  have acyclic: "acyclic (dep_rel (effect_deps ?es))" if "visit_all (visit_effect (Suc (length ?es)) ?es []) [] (map fst ?es) = Some (Inr f)" for f
    using ok that topo_acyclic [OF assms] by (auto simp: visit_ok_def)
  have known: "list_all (\<lambda>(k, e). set (ef_deps e) \<subseteq> keys ?es) ?es" using True by (simp add: effect_deps_closed)
  show ?thesis
    using ok acyclic True known by (auto simp: mk_transaction_def assert_acyclic_def visit_ok_def simp del: visit_effect.simps split: option.splits sum.splits)
qed

lemma mk_transaction_acyclic:
  assumes "distinct (map fst (tx_effects tx))" and "mk_transaction tx = Some (Inr tx)"
  shows "closed_deps (effect_deps (tx_effects tx)) \<and> acyclic (dep_rel (effect_deps (tx_effects tx)))"
  using mk_transaction_decides [OF assms(1)] assms(2) by auto

section \<open>Transitions as updates of one state\<close>

definition set_state :: "effects \<Rightarrow> string \<Rightarrow> intent_state \<Rightarrow> effects" where
  "set_state es k s = map (\<lambda>(l, e). (l, if l = k then e\<lparr>ef_state := s, ef_result := None\<rparr> else e)) es"

text \<open>A dictionary of effects under their own identifiers.\<close>

definition wf_effects :: "effects \<Rightarrow> bool" where
  "wf_effects es = (distinct (map fst es) \<and> list_all (\<lambda>(k, e). ef_id e = k) es)"

definition shape :: "effects \<Rightarrow> (string \<times> string list \<times> string option) list" where
  "shape es = map (\<lambda>(k, e). (k, ef_deps e, ef_compensation e)) es"

definition state_of :: "effects \<Rightarrow> string \<Rightarrow> intent_state option" where
  "state_of es k = map_option ef_state (map_of es k)"

lemma map_of_set_state:
  "map_of (set_state es k s) l = (if l = k then map_option (\<lambda>e. e\<lparr>ef_state := s, ef_result := None\<rparr>) (map_of es l) else map_of es l)"
  by (induction es) (auto simp: set_state_def)

lemma state_of_set_state [simp]: "k \<in> keys es \<Longrightarrow> state_of (set_state es k s) l = (if l = k then Some s else state_of es l)"
  by (cases "map_of es k") (auto simp: state_of_def map_of_set_state map_of_eq_None_iff)

lemma map_fst_set_state [simp]: "map fst (set_state es k s) = map fst es"
  by (simp add: set_state_def comp_def case_prod_unfold)

lemma set_state_simps [simp]:
  "keys (set_state es k s) = keys es" "shape (set_state es k s) = shape es" "wf_effects (set_state es k s) = wf_effects es"
  "length (set_state es k s) = length es" "set_state (set_state es k s) k s' = set_state es k s'"
proof -
  show "keys (set_state es k s) = keys es" by (force simp: set_state_def)
  show "wf_effects (set_state es k s) = wf_effects es"
    unfolding wf_effects_def map_fst_set_state by (auto simp: set_state_def list.pred_map comp_def list_all_iff split: if_splits)
qed (auto simp: shape_def set_state_def)

lemma transition_set_state:
  assumes "wf_effects es" and "state_of es k = Some s" and "s' \<in> set (allowed_after s)"
  shows "transition es k s' = Inr (set_state es k s')"
proof -
  obtain e where e: "map_of es k = Some e" "ef_state e = s" using assms(2) by (auto simp: state_of_def)
  have "AList.update k (e\<lparr>ef_state := s', ef_result := None\<rparr>) es = set_state es k s'"
    using update_existing [OF _ map_of_SomeD [OF e(1)], of "e\<lparr>ef_state := s', ef_result := None\<rparr>"] assms(1) e(1)
    by (auto simp: wf_effects_def set_state_def dest: eq_key_imp_eq_value)
  then show ?thesis using e assms(3) by (simp add: transition_def dict_get_def)
qed

lemma move_set_state:
  assumes "wf_effects es" and "state_of es k = Some s" and "s' \<in> set (allowed_after s)"
  shows "move k name s' (es, ev) = Inr (set_state es k s', ev @ [(name, k)])"
  using transition_set_state [OF assms] by (simp add: move_def)

lemma state_of_keys: "state_of es k = Some s \<Longrightarrow> k \<in> keys es"
  by (auto simp: state_of_def dest: map_of_SomeD) (metis fst_conv imageI map_of_SomeD)

lemma in_ready:
  assumes "wf_effects es" and "e \<in> set (ready es)"
  shows "map_of es (ef_id e) = Some e" and "state_of es (ef_id e) = Some Prepared"
    and "\<And>d. d \<in> set (ef_deps e) \<Longrightarrow> state_of es d = Some Applied"
proof -
  obtain k where "(k, e) \<in> set es" using assms(2) by (auto simp: ready_def)
  then show m: "map_of es (ef_id e) = Some e" using assms(1) by (auto simp: wf_effects_def list_all_iff)
  show "state_of es (ef_id e) = Some Prepared" using m assms(2) by (simp add: ready_def state_of_def)
  show "state_of es d = Some Applied" if "d \<in> set (ef_deps e)" for d
    using assms(2) that by (auto simp: ready_def state_of_def list_all_iff)
qed

section \<open>One attempt\<close>

definition attempted :: "evidence \<Rightarrow> string list" where
  "attempted ev = map snd (filter (\<lambda>(name, k). name = ''attempted'') ev)"

lemma attempted_append [simp]: "attempted (ev @ ev') = attempted ev @ attempted ev'"
  by (simp add: attempted_def)

lemma attempted_Cons [simp]: "attempted ((name, k) # ev) = (if name = ''attempted'' then k # attempted ev else attempted ev)"
  by (simp add: attempted_def)

lemma attempted_Nil [simp]: "attempted [] = []"
  by (simp add: attempted_def)

lemma raised_event_eq:
  "raised_event name k v (es, ev) = (es, ev @ (case v of OutRaised t \<Rightarrow> [(name, k)] | _ \<Rightarrow> []))"
  by (simp add: raised_event_def split: py_outcome.splits)

lemma reconcile_effect_ok:
  assumes "wf_effects es" and "state_of es (ef_id e) = Some Attempted"
  shows "\<exists>b mid. reconcile_effect co e (es, ev) = Inr (b, set_state es (ef_id e) (if b then Applied else EffFailed), ev @ mid) \<and> attempted mid = []"
proof -
  let ?k = "ef_id e"
  have k: "?k \<in> keys es" using assms(2) by (rule state_of_keys)
  have 1: "move ?k ''ambiguous'' Ambiguous (es, ev) = Inr (set_state es ?k Ambiguous, ev @ [(''ambiguous'', ?k)])"
    by (rule move_set_state [OF assms]) simp
  have 2: "move ?k ''reconciling'' Reconciling (set_state es ?k Ambiguous, ev') = Inr (set_state es ?k Reconciling, ev' @ [(''reconciling'', ?k)])" for ev'
    using move_set_state [of "set_state es ?k Ambiguous" ?k Ambiguous Reconciling] assms(1) k by simp
  have 3: "move ?k name s (set_state es ?k Reconciling, ev') = Inr (set_state es ?k s, ev' @ [(name, ?k)])" if "s \<in> {Applied, EffFailed}" for name s ev'
    using move_set_state [of "set_state es ?k Reconciling" ?k Reconciling s] assms(1) k that by auto
  let ?v = "co_reconcile co (Suc (Suc (length ev))) e"
  have "reconcile_effect co e (es, ev) = Inr (?v = OutStr ''applied'', set_state es ?k (if ?v = OutStr ''applied'' then Applied else EffFailed),
      ev @ [(''ambiguous'', ?k), (''reconciling'', ?k)] @ (case ?v of OutRaised t \<Rightarrow> [(''reconciliation_error'', ?k)] | _ \<Rightarrow> [])
        @ [(''reconciled_'' @ resolved_text ?v, ?k)])"
    by (simp add: reconcile_effect_def 1 2 3 Let_def raised_event_eq)
  moreover have "attempted ([(''ambiguous'', ?k), (''reconciling'', ?k)] @ (case ?v of OutRaised t \<Rightarrow> [(''reconciliation_error'', ?k)] | _ \<Rightarrow> [])
        @ [(''reconciled_'' @ resolved_text ?v, ?k)]) = []"
    by (simp split: py_outcome.splits)
  ultimately show ?thesis by blast
qed

lemma attempt_ok:
  assumes "wf_effects es" and "e \<in> set (ready es)"
  shows "\<exists>b mid. attempt co e (es, ev) = Inr (b, set_state es (ef_id e) (if b then Applied else EffFailed), ev @ mid) \<and> attempted mid = [ef_id e]"
proof -
  let ?k = "ef_id e" and ?es = "set_state es (ef_id e) Attempted"
  note r = in_ready [OF assms]
  have k: "?k \<in> keys es" using r(2) by (rule state_of_keys)
  have 1: "move ?k ''attempted'' Attempted (es, ev) = Inr (?es, ev @ [(''attempted'', ?k)])"
    by (rule move_set_state [OF assms(1) r(2)]) simp
  have wf: "wf_effects ?es" and st: "state_of ?es ?k = Some Attempted" using assms(1) k by simp_all
  have 2: "move ?k name s (?es, ev') = Inr (set_state es ?k s, ev' @ [(name, ?k)])" if "s \<in> {Applied, EffFailed}" for name s ev'
    using move_set_state [OF wf st, of s name ev'] that by auto
  define v where "v = co_dispatch co (Suc (length ev)) e"
  define ev1 where "ev1 = ev @ (''attempted'', ?k) # (case v of OutRaised t \<Rightarrow> [(''dispatch_error'', ?k)] | _ \<Rightarrow> [])"
  have att: "attempted (case v of OutRaised t \<Rightarrow> [(''dispatch_error'', ?k)] | _ \<Rightarrow> []) = []" by (simp split: py_outcome.splits)
  have "attempt co e (es, ev) =
     (if is_applied v then Inr (True, set_state es ?k Applied, ev1 @ [(''applied'', ?k)])
      else if is_failed v then Inr (False, set_state es ?k EffFailed, ev1 @ [(''failed'', ?k)])
      else reconcile_effect co e (?es, ev1))"
    by (simp add: attempt_def 1 2 Let_def raised_event_eq v_def ev1_def)
  moreover obtain b mid where "reconcile_effect co e (?es, ev1) = Inr (b, set_state es ?k (if b then Applied else EffFailed), ev1 @ mid)" "attempted mid = []"
    using reconcile_effect_ok [OF wf st, of co ev1] by auto
  moreover have "attempted (ev1 @ xs) = attempted ev @ ?k # attempted xs" for xs using att by (simp add: ev1_def)
  ultimately show ?thesis
    using att unfolding ev1_def append.assoc
    by (cases "is_applied v"; cases "is_failed v")
      (fastforce intro: exI [of _ True] exI [of _ False])+
qed

section \<open>The dispatch loop\<close>

definition deps_of :: "effects \<Rightarrow> string \<Rightarrow> string list" where
  "deps_of es k = (case map_of es k of None \<Rightarrow> [] | Some e \<Rightarrow> ef_deps e)"

definition comp_of :: "effects \<Rightarrow> string \<Rightarrow> string option" where
  "comp_of es k = (case map_of es k of None \<Rightarrow> None | Some e \<Rightarrow> ef_compensation e)"

lemma map_of_shape: "map_of (shape es) k = map_option (\<lambda>e. (ef_deps e, ef_compensation e)) (map_of es k)"
  by (induction es) (auto simp: shape_def)

lemma deps_comp_shape:
  "deps_of es k = (case map_of (shape es) k of None \<Rightarrow> [] | Some (ds, c) \<Rightarrow> ds)"
  "comp_of es k = (case map_of (shape es) k of None \<Rightarrow> None | Some (ds, c) \<Rightarrow> c)"
  by (simp_all add: deps_of_def comp_of_def map_of_shape split: option.splits)

lemma shape_eq:
  assumes "shape es = shape es'"
  shows "deps_of es = deps_of es'" "comp_of es = comp_of es'" "keys es = keys es'" "length es = length es'"
proof -
  show "deps_of es = deps_of es'" "comp_of es = comp_of es'" by (simp_all add: fun_eq_iff deps_comp_shape assms)
  show "keys es = keys es'" using arg_cong [OF assms, of "\<lambda>x. fst ` set x"] by (simp add: shape_def image_image case_prod_unfold)
  show "length es = length es'" using arg_cong [OF assms, of length] by (simp add: shape_def)
qed

definition deps_first :: "effects \<Rightarrow> string list \<Rightarrow> bool" where
  "deps_first es A = (\<forall>xs k ys. A = xs @ k # ys \<longrightarrow> set (deps_of es k) \<subseteq> set xs)"

lemma deps_first_snoc: "deps_first es A \<Longrightarrow> set (deps_of es k) \<subseteq> set A \<Longrightarrow> deps_first es (A @ [k])"
  by (auto simp: deps_first_def append_eq_append_conv2 append_eq_Cons_conv Cons_eq_append_conv)

definition run_inv :: "effects \<Rightarrow> effects \<Rightarrow> evidence \<Rightarrow> intent_state set \<Rightarrow> bool" where
  "run_inv es0 es ev S = (wf_effects es \<and> shape es = shape es0
     \<and> (\<forall>k s. state_of es k = Some s \<longrightarrow> s \<in> S) \<and> distinct (attempted ev) \<and> deps_first es0 (attempted ev)
     \<and> (\<forall>k. k \<in> set (attempted ev) \<longleftrightarrow> k \<in> keys es \<and> state_of es k \<noteq> Some Prepared))"

lemma run_inv_attempt:
  assumes "run_inv es0 es ev {Prepared, Applied}" and "e \<in> set (ready es)" and "attempted mid = [ef_id e]"
  shows "run_inv es0 (set_state es (ef_id e) s) (ev @ mid) (insert s {Prepared, Applied})
    \<or> s = Prepared"
proof (cases "s = Prepared")
  case False
  have wf: "wf_effects es" and sh: "shape es = shape es0" using assms(1) by (auto simp: run_inv_def)
  note r = in_ready [OF wf assms(2)]
  have k: "ef_id e \<in> keys es" using r(2) by (rule state_of_keys)
  have new: "ef_id e \<notin> set (attempted ev)" using assms(1) r(2) by (auto simp: run_inv_def)
  have "deps_of es0 (ef_id e) = ef_deps e" using shape_eq(1) [OF sh] r(1) by (metis deps_of_def option.simps(5))
  moreover have "d \<in> set (attempted ev)" if "d \<in> set (ef_deps e)" for d
    using r(3) [OF that] state_of_keys [OF r(3) [OF that]] assms(1) by (auto simp: run_inv_def)
  ultimately have "deps_first es0 (attempted ev @ [ef_id e])"
    using assms(1) by (intro deps_first_snoc) (auto simp: run_inv_def)
  then show ?thesis using assms(1,3) new k False by (auto simp: run_inv_def)
qed simp

definition prepared_keys :: "effects \<Rightarrow> string set" where
  "prepared_keys es = {k \<in> keys es. state_of es k = Some Prepared}"

lemma dispatch_loop_ok:
  assumes "run_inv es0 es ev {Prepared, Applied}" and "card (prepared_keys es) < n"
  shows "\<exists>es' ev'. dispatch_loop n co (es, ev) = Some (Inr (es', ev'))
    \<and> (run_inv es0 es' ev' {Prepared, Applied} \<and> ready es' = []
       \<or> run_inv es0 es' ev' {Prepared, Applied, EffFailed} \<and> (\<exists>k. state_of es' k = Some EffFailed))"
  using assms
proof (induction n arbitrary: es ev)
  case (Suc n)
  have wf: "wf_effects es" using Suc.prems by (simp add: run_inv_def)
  show ?case
  proof (cases "ready es")
    case Nil
    then show ?thesis using Suc.prems by auto
  next
    case (Cons e rest)
    then have e: "e \<in> set (ready es)" by simp
    let ?k = "ef_id e"
    have st: "state_of es ?k = Some Prepared" and k: "?k \<in> keys es" using in_ready [OF wf e] state_of_keys by blast+
    obtain b mid where a: "attempt co e (es, ev) = Inr (b, set_state es ?k (if b then Applied else EffFailed), ev @ mid)"
      and mid: "attempted mid = [?k]" using attempt_ok [OF wf e] by blast
    note inv = run_inv_attempt [OF Suc.prems(1) e mid]
    show ?thesis
    proof (cases b)
      case True
      have "prepared_keys (set_state es ?k Applied) = prepared_keys es - {?k}" "?k \<in> prepared_keys es"
        using k st by (auto simp: prepared_keys_def)
      then have "card (prepared_keys (set_state es ?k Applied)) < n"
        using Suc.prems(2) card_Diff1_less [of "prepared_keys es" ?k] by (simp add: prepared_keys_def)
      moreover have "run_inv es0 (set_state es ?k Applied) (ev @ mid) {Prepared, Applied}"
        using inv [of Applied] by (simp add: insert_commute)
      ultimately show ?thesis using Suc.IH [of "set_state es ?k Applied" "ev @ mid"] Cons a True by simp
    next
      case False
      have "run_inv es0 (set_state es ?k EffFailed) (ev @ mid) {Prepared, Applied, EffFailed}"
        using inv [of EffFailed] by (simp add: insert_commute)
      moreover have "state_of (set_state es ?k EffFailed) ?k = Some EffFailed" using k by simp
      ultimately show ?thesis using Cons a False by auto
    qed
  qed
qed simp

text \<open>When nothing is ready and nothing failed, an acyclic transaction is complete.\<close>

lemma nothing_ready_complete:
  assumes "run_inv es0 es ev {Prepared, Applied}" and "ready es = []"
    and "closed_deps (effect_deps es0)" and "acyclic (dep_rel (effect_deps es0))" and "k \<in> keys es"
  shows "state_of es k = Some Applied"
proof (rule ccontr)
  have sh: "shape es = shape es0" and wf: "wf_effects es" using assms(1) by (auto simp: run_inv_def)
  have dist: "distinct (map fst es0)" using assms(3) by (simp add: effect_deps_closed)
  have states: "state_of es l = Some Prepared \<or> state_of es l = Some Applied" if "l \<in> keys es" for l
    using that assms(1) by (cases "map_of es l") (auto simp: run_inv_def state_of_def map_of_eq_None_iff)
  assume "state_of es k \<noteq> Some Applied"
  then have "k \<in> prepared_keys es" using states assms(5) by (auto simp: prepared_keys_def)
  moreover have "wf (dep_rel (effect_deps es0))" using finite_acyclic_wf finite_dep_rel assms(4) by blast
  ultimately obtain m where m: "m \<in> prepared_keys es" and least: "\<And>d. (d, m) \<in> dep_rel (effect_deps es0) \<Longrightarrow> d \<notin> prepared_keys es"
    using wfE_min by metis
  obtain e where e: "map_of es m = Some e" "ef_state e = Prepared" using m by (auto simp: prepared_keys_def state_of_def)
  have deps: "deps_of es0 m = ef_deps e" using shape_eq(1) [OF sh] e(1) by (metis deps_of_def option.simps(5))
  have "state_of es d = Some Applied" if d: "d \<in> set (ef_deps e)" for d
  proof -
    obtain e0 where e0: "map_of es0 m = Some e0" "ef_deps e0 = ef_deps e"
      using d deps by (auto simp: deps_of_def split: option.splits)
    have "(d, m) \<in> dep_rel (effect_deps es0)" using effect_dep_iff [OF dist] e0 d by auto
    moreover have "set (ef_deps e0) \<subseteq> keys es0"
      using assms(3) map_of_SomeD [OF e0(1)] unfolding effect_deps_closed list_all_iff by fast
    then have "d \<in> keys es" using d e0(2) shape_eq(3) [OF sh] by auto
    ultimately show ?thesis using least states by (auto simp: prepared_keys_def)
  qed
  then have "e \<in> set (ready es)" using e map_of_SomeD [OF e(1)] by (force simp: ready_def state_of_def list_all_iff)
  then show False using assms(2) by simp
qed

section \<open>Compensation\<close>

lemma compensate_effect_ok:
  assumes "wf_effects es" and "state_of es (ef_id e) = Some Applied"
  shows "\<exists>b mid. compensate_effect undo (es, ev) e = Inr (set_state es (ef_id e) (if b then Compensated else EffFailed), ev @ mid) \<and> attempted mid = []"
proof -
  let ?k = "ef_id e" and ?es = "set_state es (ef_id e) Compensating"
  have k: "?k \<in> keys es" using assms(2) by (rule state_of_keys)
  have 1: "move ?k ''compensating'' Compensating (es, ev) = Inr (?es, ev @ [(''compensating'', ?k)])"
    by (rule move_set_state [OF assms]) simp
  have 2: "move ?k name s (?es, ev') = Inr (set_state es ?k s, ev' @ [(name, ?k)])" if "s \<in> {Compensated, EffFailed}" for name s ev'
    using move_set_state [of ?es ?k Compensating s name ev'] assms(1) k that by auto
  define v where "v = undo (Suc (length ev)) e"
  have "compensate_effect undo (es, ev) e = Inr (set_state es ?k (if v = Some True then Compensated else EffFailed),
      ev @ (''compensating'', ?k) # (if v = None then [(''compensation_error'', ?k)] else [])
        @ [(if v = Some True then ''compensated'' else ''compensation_failed'', ?k)])"
    by (simp add: compensate_effect_def 1 2 Let_def v_def)
  then show ?thesis
    by (intro exI [of _ "v = Some True"] exI [of _ "(''compensating'', ?k) # (if v = None then [(''compensation_error'', ?k)] else [])
        @ [(if v = Some True then ''compensated'' else ''compensation_failed'', ?k)]"]) simp
qed

lemma compensations_ok:
  assumes "wf_effects es" and "distinct (map ef_id fs)" and "\<And>f. f \<in> set fs \<Longrightarrow> state_of es (ef_id f) = Some Applied"
  shows "\<exists>es' mid. fold_r (compensate_effect undo) (es, ev) fs = Inr (es', ev @ mid) \<and> attempted mid = []
    \<and> wf_effects es' \<and> shape es' = shape es
    \<and> (\<forall>k. (k \<in> ef_id ` set fs \<longrightarrow> state_of es' k \<in> {Some Compensated, Some EffFailed}) \<and> (k \<notin> ef_id ` set fs \<longrightarrow> state_of es' k = state_of es k))"
  using assms
proof (induction fs arbitrary: es ev)
  case Nil
  then show ?case by auto
next
  case (Cons f fs)
  have k: "ef_id f \<in> keys es" using Cons.prems(3) state_of_keys by auto
  obtain b mid where one: "compensate_effect undo (es, ev) f = Inr (set_state es (ef_id f) (if b then Compensated else EffFailed), ev @ mid)" "attempted mid = []"
    using compensate_effect_ok [OF Cons.prems(1)] Cons.prems(3) by (metis list.set_intros(1))
  let ?es = "set_state es (ef_id f) (if b then Compensated else EffFailed)"
  have "state_of ?es (ef_id g) = Some Applied" if "g \<in> set fs" for g
  proof -
    have "ef_id g \<noteq> ef_id f" using that Cons.prems(2) by (auto simp: image_iff)
    then show ?thesis using that Cons.prems(3) [of g] k by simp
  qed
  then obtain es' mid' where rest: "fold_r (compensate_effect undo) (?es, ev @ mid) fs = Inr (es', (ev @ mid) @ mid')" "attempted mid' = []"
    "wf_effects es'" "shape es' = shape ?es"
    "\<And>k. k \<in> ef_id ` set fs \<Longrightarrow> state_of es' k \<in> {Some Compensated, Some EffFailed}" "\<And>k. k \<notin> ef_id ` set fs \<Longrightarrow> state_of es' k = state_of ?es k"
    using Cons.IH [of ?es "ev @ mid"] Cons.prems(1,2) by auto
  have "state_of es' l \<in> {Some Compensated, Some EffFailed}" if "l \<in> ef_id ` set (f # fs)" for l
    using that rest(5) [of l] rest(6) [of l] k by (cases "l \<in> ef_id ` set fs") auto
  moreover have "state_of es' l = state_of es l" if "l \<notin> ef_id ` set (f # fs)" for l
    using that rest(6) [of l] k by simp
  ultimately show ?case using one rest(1-4) by (intro exI [of _ es'] exI [of _ "mid @ mid'"]) simp
qed

lemma in_compensatable:
  assumes "wf_effects es"
  shows "distinct (map ef_id (rev (compensatable es)))"
    and "k \<in> ef_id ` set (rev (compensatable es)) \<longleftrightarrow> state_of es k = Some Applied \<and> comp_of es k \<noteq> None \<and> comp_of es k \<noteq> Some []"
proof -
  have ids: "map ef_id (map snd es) = map fst es" using assms by (auto simp: wf_effects_def list_all_iff)
  have dist: "distinct (map fst es)" using assms by (simp add: wf_effects_def)
  then have "distinct (map ef_id (map snd es))" by (simp only: ids)
  then have "distinct (map ef_id (compensatable es))" unfolding compensatable_def by (rule distinct_map_filter)
  then show "distinct (map ef_id (rev (compensatable es)))" by (simp flip: rev_map)
  have "k \<in> ef_id ` set (compensatable es) \<longleftrightarrow> (\<exists>e. map_of es k = Some e \<and> ef_state e = Applied \<and> ef_compensation e \<noteq> None \<and> ef_compensation e \<noteq> Some [])"
    (is "_ = ?R")
  proof
    assume "k \<in> ef_id ` set (compensatable es)"
    then obtain l e where "(l, e) \<in> set es" "ef_id e = k" "ef_state e = Applied" "ef_compensation e \<noteq> None" "ef_compensation e \<noteq> Some []"
      by (auto simp: compensatable_def)
    moreover from this have "l = k" using assms by (auto simp: wf_effects_def list_all_iff)
    ultimately show ?R using dist by auto
  next
    assume ?R
    then obtain e where "(k, e) \<in> set es" "e \<in> set (compensatable es)" by (force simp: compensatable_def dest: map_of_SomeD)
    moreover from this have "ef_id e = k" using assms by (auto simp: wf_effects_def list_all_iff)
    ultimately show "k \<in> ef_id ` set (compensatable es)" by blast
  qed
  then show "k \<in> ef_id ` set (rev (compensatable es)) \<longleftrightarrow> state_of es k = Some Applied \<and> comp_of es k \<noteq> None \<and> comp_of es k \<noteq> Some []"
    by (simp add: state_of_def comp_of_def) (cases "map_of es k"; simp)
qed

text \<open>What compensation does to a finished dispatch phase.\<close>

lemma compensate_all_ok:
  assumes "run_inv es0 es ev {Prepared, Applied, EffFailed}"
  shows "\<exists>es' ev'. compensate_all co (es, ev) = Inr (es', ev') \<and> run_inv es0 es' ev' {Prepared, Applied, EffFailed, Compensated}
    \<and> attempted ev' = attempted ev
    \<and> ((\<forall>k. state_of es k \<noteq> Some EffFailed) \<longrightarrow> es' = es)
    \<and> ((\<exists>k. state_of es k = Some EffFailed) \<longrightarrow> (\<exists>k. state_of es' k = Some EffFailed) \<and>
        (co_compensate co \<noteq> None \<longrightarrow> (\<forall>k. state_of es' k = Some Applied \<longrightarrow> comp_of es0 k = None \<or> comp_of es0 k = Some [])))"
proof -
  have wf: "wf_effects es" and sh: "shape es = shape es0" using assms by (auto simp: run_inv_def)
  have failed: "list_ex (\<lambda>e. ef_state e = EffFailed) (map snd es) \<longleftrightarrow> (\<exists>k. state_of es k = Some EffFailed)"
    using wf by (force simp: list_ex_iff state_of_def wf_effects_def)
  have weak: "run_inv es0 es ev {Prepared, Applied, EffFailed, Compensated}" using assms by (auto simp: run_inv_def)
  show ?thesis
  proof (cases "co_compensate co = None \<or> \<not> (\<exists>k. state_of es k = Some EffFailed)")
    case True
    then have "compensate_all co (es, ev) = Inr (es, ev)" using failed by (auto simp: compensate_all_def split: option.splits)
    then show ?thesis using True weak by auto
  next
    case False
    then obtain undo f where undo: "co_compensate co = Some undo" and f: "state_of es f = Some EffFailed" by auto
    define C where "C = ef_id ` set (rev (compensatable es))"
    have inC: "k \<in> C \<longleftrightarrow> state_of es k = Some Applied \<and> comp_of es k \<noteq> None \<and> comp_of es k \<noteq> Some []" for k
      unfolding C_def by (rule in_compensatable(2) [OF wf])
    have app: "state_of es (ef_id g) = Some Applied" if "g \<in> set (rev (compensatable es))" for g
      using inC [of "ef_id g"] that unfolding C_def by blast
    obtain es' mid where c: "fold_r (compensate_effect undo) (es, ev) (rev (compensatable es)) = Inr (es', ev @ mid)" "attempted mid = []"
      "wf_effects es'" "shape es' = shape es"
      "\<And>k. k \<in> C \<Longrightarrow> state_of es' k = Some Compensated \<or> state_of es' k = Some EffFailed"
      "\<And>k. k \<notin> C \<Longrightarrow> state_of es' k = state_of es k"
      using compensations_ok [OF wf in_compensatable(1) [OF wf] app, of undo ev] unfolding C_def by blast
    have "compensate_all co (es, ev) = Inr (es', ev @ mid)" using undo failed f c(1) by (auto simp: compensate_all_def)
    moreover have "state_of es' f = Some EffFailed" using c(6) [of f] inC [of f] f by simp
    moreover have "comp_of es0 k = None \<or> comp_of es0 k = Some []" if "state_of es' k = Some Applied" for k
      using c(5,6) [of k] inC [of k] that shape_eq(2) [OF sh] by (cases "k \<in> C") auto
    moreover have "run_inv es0 es' (ev @ mid) {Prepared, Applied, EffFailed, Compensated}"
    proof -
      have st: "s \<in> {Prepared, Applied, EffFailed, Compensated}" if "state_of es' k = Some s" for k s
        using c(5,6) [of k] that weak by (cases "k \<in> C") (auto simp: run_inv_def)
      have pr: "state_of es' k = Some Prepared \<longleftrightarrow> state_of es k = Some Prepared" for k
        using c(5,6) [of k] inC [of k] by (cases "k \<in> C") auto
      show ?thesis using weak c(2-4) st shape_eq(3) [OF c(4)] unfolding run_inv_def pr by auto
    qed
    ultimately show ?thesis using c(2) f by auto
  qed
qed

section \<open>Runs\<close>

lemma run_inv_start:
  assumes "wf_effects es" and "list_all (\<lambda>(k, e). ef_state e = Prepared) es"
  shows "run_inv es es [] {Prepared, Applied}"
proof -
  have "state_of es k = Some Prepared" if "k \<in> keys es" for k
    using that assms by (auto simp: state_of_def wf_effects_def list_all_iff)
  then have "state_of es k = Some s \<Longrightarrow> s = Prepared" for k s using state_of_keys [of es k s] by auto
  then show ?thesis using assms(1) \<open>\<And>k. k \<in> keys es \<Longrightarrow> state_of es k = Some Prepared\<close> by (auto simp: run_inv_def deps_first_def)
qed

lemma all_applied_complete:
  assumes "wf_effects es" and "es \<noteq> []" and "\<And>k. k \<in> keys es \<Longrightarrow> state_of es k = Some Applied"
  shows "tx_state es = TxComplete"
proof -
  have "ef_state e = Applied" if "(k, e) \<in> set es" for k e
    using assms(1) assms(3) [of k] that by (force simp: state_of_def wf_effects_def)
  then have "(ef_state \<circ> snd) ` set es \<subseteq> {Applied}" by auto
  then have "set (map (ef_state \<circ> snd) es) = {Applied}" using assms(2) by (simp add: subset_singleton_iff)
  then show ?thesis by (simp add: tx_state_def)
qed

abbreviation receipt_of :: "transaction \<Rightarrow> effects \<Rightarrow> evidence \<Rightarrow> transaction_receipt" where
  "receipt_of tx es ev \<equiv> \<lparr>rc_transaction = tx_id tx, rc_policy_hash = tx_policy_hash tx, rc_final = tx_state es,
     rc_effects = sort_key fst (map (\<lambda>(k, e). (k, state_value (ef_state e))) es), rc_evidence = evidence_refs ev\<rparr>"

lemma run_phases:
  assumes "closed_deps (effect_deps (tx_effects tx))" and "acyclic (dep_rel (effect_deps (tx_effects tx)))"
    and "wf_effects (tx_effects tx)" and "list_all (\<lambda>(k, e). ef_state e = Prepared) (tx_effects tx)"
  obtains es ev where "run_transaction co tx = Some (Inr (tx\<lparr>tx_effects := es\<rparr>, receipt_of tx es ev))"
    "run_inv (tx_effects tx) es ev {Prepared, Applied, EffFailed, Compensated}"
    "\<And>k. \<forall>k. state_of es k \<noteq> Some EffFailed \<Longrightarrow> k \<in> keys (tx_effects tx) \<Longrightarrow> state_of es k = Some Applied"
    "\<And>k l. state_of es k = Some EffFailed \<Longrightarrow> co_compensate co \<noteq> None \<Longrightarrow> state_of es l = Some Applied \<Longrightarrow>
       comp_of (tx_effects tx) l = None \<or> comp_of (tx_effects tx) l = Some []"
proof -
  let ?es = "tx_effects tx"
  have "card (prepared_keys ?es) < Suc (length ?es)"
    using card_mono [of "keys ?es" "prepared_keys ?es"] card_image_le [of "set ?es" fst] card_length [of ?es] by (simp add: prepared_keys_def less_Suc_eq_le)
  then obtain es ev where d: "dispatch_loop (Suc (length ?es)) co (?es, []) = Some (Inr (es, ev))"
    "run_inv ?es es ev {Prepared, Applied} \<and> ready es = [] \<or> run_inv ?es es ev {Prepared, Applied, EffFailed} \<and> (\<exists>k. state_of es k = Some EffFailed)"
    using dispatch_loop_ok [OF run_inv_start [OF assms(3,4)]] by blast
  have inv: "run_inv ?es es ev {Prepared, Applied, EffFailed}" using d(2) by (auto simp: run_inv_def)
  obtain es' ev' where c: "compensate_all co (es, ev) = Inr (es', ev')" "run_inv ?es es' ev' {Prepared, Applied, EffFailed, Compensated}"
    "(\<forall>k. state_of es k \<noteq> Some EffFailed) \<longrightarrow> es' = es"
    "(\<exists>k. state_of es k = Some EffFailed) \<longrightarrow> (\<exists>k. state_of es' k = Some EffFailed) \<and>
        (co_compensate co \<noteq> None \<longrightarrow> (\<forall>k. state_of es' k = Some Applied \<longrightarrow> comp_of ?es k = None \<or> comp_of ?es k = Some []))"
    using compensate_all_ok [OF inv] by blast
  have sh: "shape es' = shape ?es" using c(2) by (auto simp: run_inv_def)
  have complete: "state_of es' k = Some Applied" if "\<forall>k. state_of es' k \<noteq> Some EffFailed" "k \<in> keys ?es" for k
  proof -
    have none: "\<forall>k. state_of es k \<noteq> Some EffFailed" using c(4) that(1) by blast
    then have "run_inv ?es es ev {Prepared, Applied}" "ready es = []" using d(2) by auto
    then show ?thesis using nothing_ready_complete assms(1,2) that(2) shape_eq(3) [OF sh] c(3) none by blast
  qed
  have run: "run_transaction co tx = Some (Inr (tx\<lparr>tx_effects := es'\<rparr>, receipt_of tx es' ev'))"
    by (simp add: run_transaction_def d(1) c(1) del: dispatch_loop.simps)
  have "comp_of ?es l = None \<or> comp_of ?es l = Some []"
    if "state_of es' k = Some EffFailed" "co_compensate co \<noteq> None" "state_of es' l = Some Applied" for k l
    using c(3,4) that by blast
  with run c(2) complete show ?thesis by (rule that)
qed


section \<open>Examples\<close>

definition sample_effect :: "string \<Rightarrow> string list \<Rightarrow> atomic_effect" where
  "sample_effect k ds = \<lparr>ef_id = k, ef_intent = k, ef_deps = ds, ef_state = Prepared, ef_reversibility = ''unknown'',
     ef_result = None, ef_compensation = Some ''undo''\<rparr>"

definition sample_tx :: transaction where
  "sample_tx = \<lparr>tx_id = ''t'', tx_effects = [(''b'', sample_effect ''b'' [''a'']), (''a'', sample_effect ''a'' []), (''c'', sample_effect ''c'' [''b''])],
     tx_policy_hash = ''p''\<rparr>"

definition sample_coordinator :: coordinator where
  "sample_coordinator = \<lparr>co_dispatch = (\<lambda>n e. if ef_id e = ''c'' then OutStr ''denied'' else OutBool True), co_reconcile = (\<lambda>n e. OutStr ''failed''),
     co_compensate = Some (\<lambda>n e. Some True)\<rparr>"

text \<open>Compensation runs in the reverse order of the dictionary, not of the dispatch: here \<open>b\<close> depends on \<open>a\<close> and stands
  before it, and \<open>a\<close> is undone while \<open>b\<close> is still applied.\<close>

lemma compensation_ignores_dependencies:
  "map_option (\<lambda>r. case r of Inl _ \<Rightarrow> [] | Inr (tx, rc) \<Rightarrow> drop 6 (rc_evidence rc)) (run_transaction sample_coordinator sample_tx) =
     Some [''compensating:a:6'', ''compensated:a:7'', ''compensating:b:8'', ''compensated:b:9'']"
  by code_simp

text \<open>A transaction without effects ends as in progress.\<close>

lemma empty_transaction_in_progress: "tx_state [] = TxInProgress"
  by (simp add: tx_state_def)


end
