(* ===== verification/Control_Plane.thy ===== *)
theory Control_Plane
  imports Complex_Main Json_Roundtrip
begin

text \<open>
  Governance of missions, \<open>src/residual/control_plane/\<close>: certified states, amendments, authority, routing, attested
  environments and the invariant graph (\<open>models.py\<close>, \<open>amendments.py\<close>, \<open>policy.py\<close>, \<open>routing.py\<close>,
  \<open>environment.py\<close>, \<open>invariants.py\<close>). Side-effect transactions are in \<open>Saga\<close>.

  \<^item> Times are rationals, the float values of the source. Mappings that are only hashed are JSON values.
  \<^item> Parameters: the hash function and the attestor, which returns a value or raises (\<open>Inl\<close> the name of the exception).
  \<^item> Shown: a validated decision that may start rests on authority the revision grants and on current certified states; an
    amendment with an authority delta needs an independent verifier and a human approver; attestation accepts exactly the
    expected environment, up to a collision of the hash function.
\<close>

section \<open>Models\<close>

datatype certified_status = Certified | Stale | Invalidated

record certified_state =
  cs_key :: string
  cs_value :: json
  cs_evidence_refs :: "string list"
  cs_derivation :: string
  cs_verifier_revision :: string
  cs_measurement_start :: rat
  cs_measurement_end :: rat
  cs_sample_size :: int
  cs_certified_at :: rat
  cs_valid_until :: rat
  cs_staleness_budget :: rat
  cs_environment :: string
  cs_drift_detector :: "string option"
  cs_drift_status :: string

definition certified_status_at :: "certified_state \<Rightarrow> rat \<Rightarrow> string option \<Rightarrow> certified_status" where
  "certified_status_at s now env =
     (if env \<noteq> None \<and> env \<noteq> Some (cs_environment s) then Invalidated
      else if cs_drift_status s \<noteq> ''stable'' then Invalidated
      else if now > cs_valid_until s \<or> now - cs_certified_at s > cs_staleness_budget s then Stale
      else Certified)"

record capability_grant =
  cg_subject :: string
  cg_action :: string
  cg_resource :: string
  cg_scope :: json
  cg_constraints :: json
  cg_conditions :: json
  cg_approval_policy :: json
  cg_expires_at :: json

definition grant_dict :: "capability_grant \<Rightarrow> json" where
  "grant_dict g = JObj [(''subject'', JStr (cg_subject g)), (''action'', JStr (cg_action g)), (''resource'', JStr (cg_resource g)),
     (''scope'', cg_scope g), (''constraints'', cg_constraints g), (''conditions'', cg_conditions g),
     (''approval_policy'', cg_approval_policy g), (''expires_at'', cg_expires_at g)]"

definition grant_fingerprint :: "(string \<Rightarrow> string) \<Rightarrow> capability_grant \<Rightarrow> string result" where
  "grant_fingerprint H g = digest H (grant_dict g)"

record mission_revision =
  mr_mission_id :: string
  mr_revision_id :: string
  mr_objective :: string
  mr_plan_hash :: string
  mr_policy_hash :: string
  mr_grants :: "capability_grant list"
  mr_parent_revision :: "string option"
  mr_amendment_id :: "string option"
  mr_workspaces :: "string list"
  mr_budget :: json

definition authority_hash :: "(string \<Rightarrow> string) \<Rightarrow> mission_revision \<Rightarrow> string result" where
  "authority_hash H rv = bind_r (map_r (grant_fingerprint H) (mr_grants rv)) (\<lambda>fs. digest H (JArr (map JStr fs)))"

record routing_decision =
  rd_decision_id :: string
  rd_mission_revision :: string
  rd_obligation_id :: string
  rd_eligible_workers :: "string list"
  rd_selected_worker :: string
  rd_scoring_inputs :: json
  rd_state_refs :: "string list"
  rd_router_revision :: string
  rd_policy_revision :: string
  rd_required_hash :: string
  rd_granted_hash :: string
  rd_excluded_workers :: "(string, string) dict"
  rd_timestamp :: rat
  rd_expires_at :: "rat option"
  rd_execution_preconditions :: "(string, string) dict"
  rd_re_route_policy :: string

section \<open>Amendments\<close>

datatype amendment_class = Clarification | Restructure | Resource | Authority | Trust_Boundary

fun class_value :: "amendment_class \<Rightarrow> int" where
  "class_value Clarification = 0"
| "class_value Restructure = 1"
| "class_value Resource = 2"
| "class_value Authority = 3"
| "class_value Trust_Boundary = 4"

text \<open>The enumeration is ordered by its integer values, as \<open>max(..., key=int)\<close> and \<open>>=\<close> use it.\<close>

instantiation amendment_class :: linorder
begin

definition less_eq_amendment_class :: "amendment_class \<Rightarrow> amendment_class \<Rightarrow> bool" where
  "less_eq_amendment_class a b = (class_value a \<le> class_value b)"

definition less_amendment_class :: "amendment_class \<Rightarrow> amendment_class \<Rightarrow> bool" where
  "less_amendment_class a b = (class_value a < class_value b)"

instance
proof
  fix a b :: amendment_class
  show "a \<le> b \<Longrightarrow> b \<le> a \<Longrightarrow> a = b" unfolding less_eq_amendment_class_def by (cases a; cases b) simp_all
qed (auto simp: less_eq_amendment_class_def less_amendment_class_def)

end

definition amendment_classes :: "amendment_class list" where
  "amendment_classes = [Clarification, Restructure, Resource, Authority, Trust_Boundary]"

definition default_rules :: "(string, amendment_class) dict" where
  "default_rules =
     [(''clarification'', Clarification), (''plan.restructure'', Restructure), (''scope.workspace_add'', Restructure),
      (''budget.increase'', Resource), (''budget.decrease'', Resource), (''resource.increase'', Resource),
      (''authority.side_effect_add'', Authority), (''authority.capability_add'', Authority), (''authority.scope_expand'', Authority),
      (''trust_boundary.change'', Trust_Boundary), (''verifier.policy_change'', Trust_Boundary)]"

record amendment_delta =
  ad_type :: string
  ad_value :: json
  ad_authority :: json
  ad_resource :: json
  ad_risk :: "int option"

definition classify_delta :: "amendment_delta \<Rightarrow> amendment_class result" where
  "classify_delta d =
     (case ad_risk d of
        Some r \<Rightarrow> (case find (\<lambda>c. class_value c = r) amendment_classes of
            None \<Rightarrow> Inl (ValueError ''risk_score must be 0..4'') | Some c \<Rightarrow> Inr c)
      | None \<Rightarrow> (case map_of default_rules (ad_type d) of
            None \<Rightarrow> Inl (ValueError (''unclassified amendment delta: '' @ ad_type d)) | Some c \<Rightarrow> Inr c))"

definition classify :: "amendment_delta list \<Rightarrow> amendment_class result" where
  "classify ds =
     bind_r (ensure (ds \<noteq> []) (ValueError ''amendment requires at least one typed delta'')) (\<lambda>_.
     bind_r (map_r classify_delta ds) (\<lambda>cs. Inr (foldl max (hd cs) (tl cs))))"

record plan_amendment =
  pa_amendment_id :: string
  pa_mission_id :: string
  pa_from_revision :: string
  pa_class :: amendment_class
  pa_reason :: string
  pa_proposed_delta :: json
  pa_deltas :: "amendment_delta list"
  pa_classifier_revision :: string
  pa_counterexample_refs :: "string list"
  pa_proposer_id :: string
  pa_beneficiary_ids :: "string list"

section \<open>Policies\<close>

primrec all_r :: "('a \<Rightarrow> bool result) \<Rightarrow> 'a list \<Rightarrow> bool result" where
  "all_r f [] = Inr True"
| "all_r f (x # xs) = bind_r (f x) (\<lambda>b. if b then all_r f xs else Inr False)"

definition authority_allows :: "(string \<Rightarrow> string) \<Rightarrow> capability_grant list \<Rightarrow> mission_revision \<Rightarrow> bool result" where
  "authority_allows H required rv =
     bind_r (map_r (grant_fingerprint H) (mr_grants rv)) (\<lambda>allowed.
     all_r (\<lambda>g. bind_r (grant_fingerprint H g) (\<lambda>f. Inr (f \<in> set allowed))) required)"

definition routing_validate :: "(string \<Rightarrow> string) \<Rightarrow> routing_decision \<Rightarrow> capability_grant list \<Rightarrow> mission_revision \<Rightarrow> bool result" where
  "routing_validate H d required rv =
     (if rd_selected_worker d \<notin> set (rd_eligible_workers d) then Inr False
      else bind_r (authority_allows H required rv) (\<lambda>ok. Inr (ok \<and> rd_required_hash d = rd_granted_hash d)))"

definition validate_independence :: "plan_amendment \<Rightarrow> string list \<Rightarrow> string list \<Rightarrow> bool" where
  "validate_independence a verifiers humans =
     (if verifiers = [] then False
      else if pa_class a \<ge> Authority \<and> set verifiers \<subseteq> set (pa_beneficiary_ids a) \<union> {pa_proposer_id a} then False
      else if pa_class a \<ge> Authority \<and> humans = [] then False
      else if pa_class a \<ge> Trust_Boundary \<and> length (remdups verifiers) < 2 then False
      else True)"

section \<open>Execution start\<close>

text \<open>\<open>RoutingPreconditionResult\<close>: \<open>None\<close> when allowed, otherwise the reason.\<close>

fun check_refs :: "(string, certified_state) dict \<Rightarrow> (string, string) dict \<Rightarrow> rat \<Rightarrow> string list \<Rightarrow> string option" where
  "check_refs states envs now [] = None"
| "check_refs states envs now (r # rs) =
     (case map_of states r of
        None \<Rightarrow> Some (''missing certified state: '' @ r)
      | Some s \<Rightarrow> if certified_status_at s now (map_of envs r) \<noteq> Certified then Some (''certified state not valid: '' @ r)
          else check_refs states envs now rs)"

definition validate_execution_start ::
  "routing_decision \<Rightarrow> mission_revision \<Rightarrow> (string, certified_state) dict \<Rightarrow> string \<Rightarrow> rat \<Rightarrow> (string, string) dict \<Rightarrow> string option" where
  "validate_execution_start d rv states policy now envs =
     (if rd_mission_revision d \<noteq> mr_revision_id rv then Some ''mission revision changed''
      else if (case rd_expires_at d of None \<Rightarrow> False | Some e \<Rightarrow> now > e) then Some ''routing decision expired''
      else if rd_policy_revision d \<noteq> policy then Some ''policy revision changed''
      else case check_refs states envs now (rd_state_refs d) of
        Some reason \<Rightarrow> Some reason
      | None \<Rightarrow> if rd_required_hash d \<noteq> rd_granted_hash d then Some ''capability grant changed'' else None)"

section \<open>Environments\<close>

record environment_record =
  er_worker :: string
  er_expected :: json
  er_revision :: string

definition env_fingerprint :: "(string \<Rightarrow> string) \<Rightarrow> environment_record \<Rightarrow> string result" where
  "env_fingerprint H r = digest H (er_expected r)"

type_synonym environment_registry = "(string, environment_record) dict"

definition register_environment :: "environment_registry \<Rightarrow> environment_record \<Rightarrow> environment_registry" where
  "register_environment reg r = AList.update (er_worker r) r reg"

definition expected_environment :: "environment_registry \<Rightarrow> string \<Rightarrow> environment_record option" where
  "expected_environment reg w = map_of reg w"

text \<open>\<open>attest\<close> returns whether the worker is accepted, the actual fingerprint and the reason. Hashing the expected
  environment is outside the exception handler.\<close>

definition attest :: "(string \<Rightarrow> string) \<Rightarrow> environment_registry \<Rightarrow> string \<Rightarrow> (string \<Rightarrow> string + json) \<Rightarrow> (bool \<times> string option \<times> string) result" where
  "attest H reg w attestor =
     (case expected_environment reg w of
        None \<Rightarrow> Inr (False, None, ''worker_not_registered'')
      | Some r \<Rightarrow>
          case attestor w of
            Inl exc \<Rightarrow> Inr (False, None, ''attestor_error:'' @ exc)
          | Inr actual \<Rightarrow>
              case digest H actual of
                Inl _ \<Rightarrow> Inr (False, None, ''attestation_uncanonicalizable:ValueError'')
              | Inr fp \<Rightarrow>
                  bind_r (env_fingerprint H r) (\<lambda>e.
                  if fp \<noteq> e then Inr (False, Some fp, ''fingerprint_mismatch'') else Inr (True, Some fp, ''attested'')))"

section \<open>The invariant graph\<close>

type_synonym invariant_graph = "(int, (string, int list) dict) dict"

definition graph_entry :: "int list \<Rightarrow> int list \<Rightarrow> (string, int list) dict" where
  "graph_entry req imp = [(''requires'', req), (''implies'', imp), (''conflicts'', [])]"

definition INVARIANT_GRAPH :: invariant_graph where
  "INVARIANT_GRAPH =
     [(1, graph_entry [] []), (2, graph_entry [] [3]), (3, graph_entry [2] [16, 18]), (4, graph_entry [3] [16]),
      (5, graph_entry [] [13]), (6, graph_entry [] [20]), (7, graph_entry [] [15]), (8, graph_entry [] []),
      (9, graph_entry [] [19]), (10, graph_entry [9] []), (11, graph_entry [7] []), (12, graph_entry [7] []),
      (13, graph_entry [3, 5] []), (14, graph_entry [7] []), (15, graph_entry [7, 14] []), (16, graph_entry [3, 4] []),
      (17, graph_entry [6, 14, 16] []), (18, graph_entry [3, 11] []), (19, graph_entry [9, 10] []), (20, graph_entry [6] [])]"

definition expected_invariants :: "int list" where
  "expected_invariants = [1..20]"

definition int_list_str :: "int list \<Rightarrow> string" where
  "int_list_str xs = ''['' @ sep_by '', '' (map int_str xs) @ '']''"

definition check_relation :: "int \<Rightarrow> string \<times> int list \<Rightarrow> unit result" where
  "check_relation i e =
     (let unknown = sort (remdups (filter (\<lambda>t. t \<notin> set expected_invariants) (snd e))) in
      bind_r (ensure (unknown = []) (ValueError (''invariant '' @ int_str i @ '' '' @ fst e @ '' unknown invariants '' @ int_list_str unknown))) (\<lambda>_.
      ensure (i \<notin> set (snd e)) (ValueError (''invariant '' @ int_str i @ '' cannot '' @ fst e @ '' itself''))))"

definition check_invariant :: "int \<times> (string, int list) dict \<Rightarrow> unit result" where
  "check_invariant e =
     bind_r (ensure (fst ` set (snd e) = {''requires'', ''implies'', ''conflicts''})
       (ValueError (''invariant '' @ int_str (fst e) @ '' has malformed dependency metadata''))) (\<lambda>_.
     iter_r (check_relation (fst e)) (snd e))"

definition validate_invariant_graph :: "invariant_graph \<Rightarrow> unit result" where
  "validate_invariant_graph g =
     bind_r (ensure (fst ` set g = set expected_invariants) (ValueError ''invariant graph must contain exactly invariants 1..20'')) (\<lambda>_.
     iter_r check_invariant g)"

section \<open>Authority and routing\<close>

lemma all_r_True: "all_r f xs = Inr True \<longleftrightarrow> (\<forall>x \<in> set xs. f x = Inr True)"
  by (induction xs) (auto simp: result_simps split: if_splits)

text \<open>A grant that a fingerprint recognises is one of the revision's grants.\<close>

lemma authority_allows_granted:
  assumes "authority_allows H required rv = Inr True" and "g \<in> set required"
    and "\<And>x. x \<in> set (mr_grants rv) \<union> set required \<Longrightarrow> wf_json fl (grant_dict x)"
  obtains g' where "g' \<in> set (mr_grants rv)"
    "norm_json (grant_dict g) = norm_json (grant_dict g') \<or> collision H (dumps (grant_dict g)) (dumps (grant_dict g'))"
proof -
  obtain allowed where a: "map_r (grant_fingerprint H) (mr_grants rv) = Inr allowed"
    "all_r (\<lambda>g. bind_r (grant_fingerprint H g) (\<lambda>f. Inr (f \<in> set allowed))) required = Inr True"
    using assms(1) by (auto simp: authority_allows_def result_simps)
  then obtain f where f: "grant_fingerprint H g = Inr f" "f \<in> set allowed"
    using assms(2) by (auto simp: all_r_True result_simps)
  then obtain g' where g': "g' \<in> set (mr_grants rv)" "grant_fingerprint H g' = Inr f"
    using a(1) by (auto simp: map_r_Inr_iff list_all2_conv_all_nth in_set_conv_nth) metis
  have "norm_json (grant_dict g) = norm_json (grant_dict g') \<or> collision H (dumps (grant_dict g)) (dumps (grant_dict g'))"
    using f(1) g' assms(2,3) by (intro digest_binds_value [of fl _ _ H f]) (auto simp: grant_fingerprint_def)
  with g'(1) show ?thesis by (rule that)
qed

lemma check_refs_None:
  "check_refs states envs now rs = None \<longleftrightarrow> (\<forall>r \<in> set rs. \<exists>s. map_of states r = Some s \<and> certified_status_at s now (map_of envs r) = Certified)"
  by (induction rs) (auto split: option.splits)

lemma certified_iff:
  "certified_status_at s now env = Certified \<longleftrightarrow>
     env \<in> {None, Some (cs_environment s)} \<and> cs_drift_status s = ''stable'' \<and> now \<le> cs_valid_until s \<and> now - cs_certified_at s \<le> cs_staleness_budget s"
  by (auto simp: certified_status_at_def)

lemma execution_start_iff:
  "validate_execution_start d rv states policy now envs = None \<longleftrightarrow>
     rd_mission_revision d = mr_revision_id rv \<and> (\<forall>e. rd_expires_at d = Some e \<longrightarrow> now \<le> e) \<and> rd_policy_revision d = policy
     \<and> check_refs states envs now (rd_state_refs d) = None \<and> rd_required_hash d = rd_granted_hash d"
  by (auto simp: validate_execution_start_def split: option.splits)

text \<open>C38. Routing allocates authority and never enlarges it. If the routing policy validates a decision and the decision
  may start, then its worker was eligible, it belongs to this revision and to the policy in force and has not expired, every
  certified state it refers to exists and is neither stale, drifted nor taken from another environment, and every required
  grant is one of the revision's grants, unless two grants are a collision of the hash function.\<close>

theorem routed_execution_authorised:
  assumes "routing_validate H d required rv = Inr True" and "validate_execution_start d rv states policy now envs = None"
    and "\<And>x. x \<in> set (mr_grants rv) \<union> set required \<Longrightarrow> wf_json fl (grant_dict x)"
  shows "rd_selected_worker d \<in> set (rd_eligible_workers d) \<and> rd_mission_revision d = mr_revision_id rv
    \<and> rd_policy_revision d = policy \<and> (\<forall>e. rd_expires_at d = Some e \<longrightarrow> now \<le> e)
    \<and> (\<forall>r \<in> set (rd_state_refs d). \<exists>s. map_of states r = Some s \<and> cs_drift_status s = ''stable'' \<and> now \<le> cs_valid_until s
        \<and> now - cs_certified_at s \<le> cs_staleness_budget s \<and> (\<forall>e. map_of envs r = Some e \<longrightarrow> e = cs_environment s))
    \<and> (\<forall>g \<in> set required. \<exists>g' \<in> set (mr_grants rv). norm_json (grant_dict g) = norm_json (grant_dict g')
        \<or> collision H (dumps (grant_dict g)) (dumps (grant_dict g')))"
proof -
  have v: "rd_selected_worker d \<in> set (rd_eligible_workers d)" "authority_allows H required rv = Inr True"
    using assms(1) by (auto simp: routing_validate_def result_simps split: if_splits)
  have "\<exists>g' \<in> set (mr_grants rv). norm_json (grant_dict g) = norm_json (grant_dict g') \<or> collision H (dumps (grant_dict g)) (dumps (grant_dict g'))"
    if "g \<in> set required" for g
    using authority_allows_granted [OF v(2) that assms(3)] by metis
  moreover have "\<exists>s. map_of states r = Some s \<and> cs_drift_status s = ''stable'' \<and> now \<le> cs_valid_until s
        \<and> now - cs_certified_at s \<le> cs_staleness_budget s \<and> (\<forall>e. map_of envs r = Some e \<longrightarrow> e = cs_environment s)"
    if "r \<in> set (rd_state_refs d)" for r
    using assms(2) that unfolding execution_start_iff check_refs_None certified_iff by fastforce
  ultimately show ?thesis using v(1) assms(2) unfolding execution_start_iff by blast
qed

text \<open>The check at the start reads only the identifier of the revision: the grants it holds, and their expiry, have no
  influence, although the decision lists the validity of the grants among its execution preconditions.\<close>

lemma execution_start_ignores_grants:
  "validate_execution_start d (rv\<lparr>mr_grants := gs\<rparr>) states policy now envs = validate_execution_start d rv states policy now envs"
  by (simp add: validate_execution_start_def)

section \<open>Amendments\<close>

lemma foldl_max_ge: "x \<le> foldl max (a :: 'a :: linorder) xs \<longleftrightarrow> x \<le> a \<or> (\<exists>y \<in> set xs. x \<le> y)"
  by (induction xs arbitrary: a) (auto simp: le_max_iff_disj)

lemma foldl_max_mem: "foldl max (a :: 'a :: linorder) xs \<in> insert a (set xs)"
  by (induction xs arbitrary: a) (auto simp: max_def split: if_splits; fastforce)+

text \<open>The class of an amendment is the greatest class of its deltas.\<close>

lemma classify_max:
  assumes "classify ds = Inr c"
  shows "(\<forall>d \<in> set ds. \<exists>c'. classify_delta d = Inr c' \<and> c' \<le> c) \<and> (\<exists>d \<in> set ds. classify_delta d = Inr c)"
proof -
  obtain x xs where xs: "map_r classify_delta ds = Inr (x # xs)" "c = foldl max x xs"
  proof -
    obtain cs where "map_r classify_delta ds = Inr cs" "ds \<noteq> []" "c = foldl max (hd cs) (tl cs)"
      using assms by (auto simp: classify_def result_simps)
    moreover then obtain y ys where "cs = y # ys" by (cases cs) (auto simp: map_r_Inr_iff)
    ultimately show ?thesis using that by simp
  qed
  have sub: "\<forall>d \<in> set ds. \<exists>c' \<in> set (x # xs). classify_delta d = Inr c'" "\<forall>c' \<in> set (x # xs). \<exists>d \<in> set ds. classify_delta d = Inr c'"
    using xs(1) unfolding map_r_Inr_iff list_all2_conv_all_nth by (metis in_set_conv_nth)+
  have "c' \<le> c" if "c' \<in> set (x # xs)" for c' using that by (auto simp: xs(2) foldl_max_ge)
  moreover have "c \<in> set (x # xs)" using foldl_max_mem [of x xs] by (simp add: xs(2))
  ultimately show ?thesis using sub by blast
qed


text \<open>A declared risk score replaces the rule table, downwards as well: a change of the trust boundary with score 0 is a clarification.\<close>

lemma risk_score_downgrades:
  "ad_risk d = Some 0 \<Longrightarrow> ad_type d = ''trust_boundary.change'' \<Longrightarrow> classify [d] = Inr Clarification"
  by (simp add: classify_def classify_delta_def amendment_classes_def)

section \<open>Environments and invariants\<close>

text \<open>Attestation accepts exactly the expected environment, up to a collision.\<close>

lemma attest_accepts:
  assumes "attest H reg w attestor = Inr (True, fp, reason)"
    and "\<And>r. map_of reg w = Some r \<Longrightarrow> wf_json fl (er_expected r)" and "\<And>v. attestor w = Inr v \<Longrightarrow> wf_json fl v"
  shows "\<exists>r v. map_of reg w = Some r \<and> attestor w = Inr v
    \<and> (norm_json v = norm_json (er_expected r) \<or> collision H (dumps v) (dumps (er_expected r)))"
proof -
  obtain r v f where "map_of reg w = Some r" "attestor w = Inr v" "digest H v = Inr f" "digest H (er_expected r) = Inr f"
    using assms(1) by (auto simp: attest_def expected_environment_def env_fingerprint_def result_simps split: option.splits sum.splits if_splits)
  then show ?thesis using digest_binds_value [of fl v "er_expected r" H f] assms(2,3) by blast
qed

lemma sort_eq_Nil: "sort xs = [] \<longleftrightarrow> xs = []"
  by (metis set_empty set_sort)

lemma check_relation_iff: "check_relation i e = Inr u \<longleftrightarrow> set (snd e) \<subseteq> {1..20} - {i}"
  by (auto simp: check_relation_def result_simps expected_invariants_def Let_def sort_eq_Nil filter_empty_conv)

text \<open>Validation accepts exactly the graphs over 1 to 20 whose entries are complete and do not refer outside or to themselves.\<close>

lemma validate_graph_iff:
  "validate_invariant_graph g = Inr u \<longleftrightarrow> fst ` set g = {1..20}
     \<and> (\<forall>(i, e) \<in> set g. fst ` set e = {''requires'', ''implies'', ''conflicts''} \<and> (\<forall>(k, ts) \<in> set e. set ts \<subseteq> {1..20} - {i}))"
  by (auto simp: validate_invariant_graph_def check_invariant_def result_simps check_relation_iff expected_invariants_def case_prod_beta)

text \<open>The graph of the source validates, and its prerequisites have smaller numbers, so they contain no cycle.\<close>

lemma invariant_graph_valid: "validate_invariant_graph INVARIANT_GRAPH = Inr ()"
  by code_simp

lemma invariant_requires_smaller:
  "list_all (\<lambda>(i, e). list_all (\<lambda>t. t < i) (the (map_of e ''requires''))) INVARIANT_GRAPH"
  by code_simp

section \<open>Instances\<close>

definition sample_grant :: capability_grant where
  "sample_grant = \<lparr>cg_subject = ''w1'', cg_action = ''write'', cg_resource = ''repo'', cg_scope = JObj [(''path'', JStr ''src'')],
     cg_constraints = JObj [], cg_conditions = JObj [], cg_approval_policy = JObj [], cg_expires_at = JNull\<rparr>"

definition sample_revision :: mission_revision where
  "sample_revision = \<lparr>mr_mission_id = ''m'', mr_revision_id = ''r1'', mr_objective = ''o'', mr_plan_hash = ''p'', mr_policy_hash = ''q'',
     mr_grants = [sample_grant], mr_parent_revision = None, mr_amendment_id = None, mr_workspaces = [], mr_budget = JObj []\<rparr>"

definition sample_state :: certified_state where
  "sample_state = \<lparr>cs_key = ''k'', cs_value = JInt 1, cs_evidence_refs = [''e''], cs_derivation = ''d'', cs_verifier_revision = ''v1'',
     cs_measurement_start = 0, cs_measurement_end = 1, cs_sample_size = 3, cs_certified_at = 1, cs_valid_until = 10, cs_staleness_budget = 5,
     cs_environment = ''env'', cs_drift_detector = None, cs_drift_status = ''stable''\<rparr>"

definition sample_decision :: routing_decision where
  "sample_decision = \<lparr>rd_decision_id = ''d'', rd_mission_revision = ''r1'', rd_obligation_id = ''ob'', rd_eligible_workers = [''w1'', ''w2''],
     rd_selected_worker = ''w1'', rd_scoring_inputs = JObj [], rd_state_refs = [''k''], rd_router_revision = ''v1'', rd_policy_revision = ''p1'',
     rd_required_hash = ''h'', rd_granted_hash = ''h'', rd_excluded_workers = [], rd_timestamp = 2, rd_expires_at = Some 9,
     rd_execution_preconditions = [], rd_re_route_policy = ''fail_closed''\<rparr>"

lemma sample_routing:
  "routing_validate id sample_decision [sample_grant] sample_revision = Inr True"
  "validate_execution_start sample_decision sample_revision [(''k'', sample_state)] ''p1'' 4 [(''k'', ''env'')] = None"
  by (simp_all add: routing_validate_def authority_allows_def grant_fingerprint_def digest_def canonical_def grant_dict_def sample_decision_def
      sample_revision_def sample_grant_def validate_execution_start_def certified_status_at_def sample_state_def del: dumps.simps)

theorem routed_execution_authorised_witness:
  "\<exists>s. map_of [(''k'', sample_state)] ''k'' = Some s \<and> (4 :: rat) \<le> cs_valid_until s \<and> rd_selected_worker sample_decision \<in> set (rd_eligible_workers sample_decision)"
proof -
  have "wf_json JFloat (grant_dict x)" if "x \<in> set (mr_grants sample_revision) \<union> set [sample_grant]" for x
    using that by (auto simp: sample_revision_def sample_grant_def grant_dict_def)
  note r = routed_execution_authorised [OF sample_routing this]
  have "''k'' \<in> set (rd_state_refs sample_decision)" by (simp add: sample_decision_def)
  with r show ?thesis by blast
qed

definition sample_delta :: amendment_delta where
  "sample_delta = \<lparr>ad_type = ''trust_boundary.change'', ad_value = JNull, ad_authority = JObj [], ad_resource = JObj [], ad_risk = None\<rparr>"

definition sample_plan_amendment :: plan_amendment where
  "sample_plan_amendment = \<lparr>pa_amendment_id = ''a'', pa_mission_id = ''m'', pa_from_revision = ''r1'', pa_class = Trust_Boundary, pa_reason = ''why'',
     pa_proposed_delta = JObj [], pa_deltas = [sample_delta], pa_classifier_revision = ''amendment-classifier-v1'', pa_counterexample_refs = [],
     pa_proposer_id = ''p'', pa_beneficiary_ids = [''b'']\<rparr>"


end
