(* ===== verification/Aes.thy ===== *)
theory Aes
  imports Prelude
begin

text \<open>
  The block cipher of the pure Python fallback, \<open>src/residual/crypto/_aesgcm_fallback.py\<close>: FIPS-197 AES in the encryption
  direction.

  \<^item> \<open>bytes\<close> objects and lists of bytes are lists of integers; \<open>is_bytes\<close> says that they lie between 0 and 255. The bit
    operations are those of Python's unbounded integers.
  \<^item> The functions that change \<open>state\<close> in place return the new list.
  \<^item> Shown: the S-box is the field inverse followed by the affine map, multiplication is linear, and every block is
    recovered from its encryption, so that the cipher is a permutation of the blocks.
\<close>

unbundle bit_operations_syntax

type_synonym bytes = "int list"

definition is_byte :: "int \<Rightarrow> bool" where
  "is_byte b = (0 \<le> b \<and> b < 256)"

definition is_bytes :: "bytes \<Rightarrow> bool" where
  "is_bytes bs = list_all is_byte bs"

section \<open>The cipher\<close>

definition SBOX :: "int list" where
  "SBOX = [
      0x63, 0x7c, 0x77, 0x7b, 0xf2, 0x6b, 0x6f, 0xc5, 0x30, 0x01, 0x67, 0x2b, 0xfe, 0xd7, 0xab, 0x76,
      0xca, 0x82, 0xc9, 0x7d, 0xfa, 0x59, 0x47, 0xf0, 0xad, 0xd4, 0xa2, 0xaf, 0x9c, 0xa4, 0x72, 0xc0,
      0xb7, 0xfd, 0x93, 0x26, 0x36, 0x3f, 0xf7, 0xcc, 0x34, 0xa5, 0xe5, 0xf1, 0x71, 0xd8, 0x31, 0x15,
      0x04, 0xc7, 0x23, 0xc3, 0x18, 0x96, 0x05, 0x9a, 0x07, 0x12, 0x80, 0xe2, 0xeb, 0x27, 0xb2, 0x75,
      0x09, 0x83, 0x2c, 0x1a, 0x1b, 0x6e, 0x5a, 0xa0, 0x52, 0x3b, 0xd6, 0xb3, 0x29, 0xe3, 0x2f, 0x84,
      0x53, 0xd1, 0x00, 0xed, 0x20, 0xfc, 0xb1, 0x5b, 0x6a, 0xcb, 0xbe, 0x39, 0x4a, 0x4c, 0x58, 0xcf,
      0xd0, 0xef, 0xaa, 0xfb, 0x43, 0x4d, 0x33, 0x85, 0x45, 0xf9, 0x02, 0x7f, 0x50, 0x3c, 0x9f, 0xa8,
      0x51, 0xa3, 0x40, 0x8f, 0x92, 0x9d, 0x38, 0xf5, 0xbc, 0xb6, 0xda, 0x21, 0x10, 0xff, 0xf3, 0xd2,
      0xcd, 0x0c, 0x13, 0xec, 0x5f, 0x97, 0x44, 0x17, 0xc4, 0xa7, 0x7e, 0x3d, 0x64, 0x5d, 0x19, 0x73,
      0x60, 0x81, 0x4f, 0xdc, 0x22, 0x2a, 0x90, 0x88, 0x46, 0xee, 0xb8, 0x14, 0xde, 0x5e, 0x0b, 0xdb,
      0xe0, 0x32, 0x3a, 0x0a, 0x49, 0x06, 0x24, 0x5c, 0xc2, 0xd3, 0xac, 0x62, 0x91, 0x95, 0xe4, 0x79,
      0xe7, 0xc8, 0x37, 0x6d, 0x8d, 0xd5, 0x4e, 0xa9, 0x6c, 0x56, 0xf4, 0xea, 0x65, 0x7a, 0xae, 0x08,
      0xba, 0x78, 0x25, 0x2e, 0x1c, 0xa6, 0xb4, 0xc6, 0xe8, 0xdd, 0x74, 0x1f, 0x4b, 0xbd, 0x8b, 0x8a,
      0x70, 0x3e, 0xb5, 0x66, 0x48, 0x03, 0xf6, 0x0e, 0x61, 0x35, 0x57, 0xb9, 0x86, 0xc1, 0x1d, 0x9e,
      0xe1, 0xf8, 0x98, 0x11, 0x69, 0xd9, 0x8e, 0x94, 0x9b, 0x1e, 0x87, 0xe9, 0xce, 0x55, 0x28, 0xdf,
      0x8c, 0xa1, 0x89, 0x0d, 0xbf, 0xe6, 0x42, 0x68, 0x41, 0x99, 0x2d, 0x0f, 0xb0, 0x54, 0xbb, 0x16]"

definition RCON :: "int list" where
  "RCON = [0x01, 0x02, 0x04, 0x08, 0x10, 0x20, 0x40, 0x80, 0x1B, 0x36]"

definition sbox :: "int \<Rightarrow> int" where
  "sbox b = SBOX ! nat b"

definition reduce_byte :: "int \<Rightarrow> int" where
  "reduce_byte a = (if a AND 0x100 \<noteq> 0 then a XOR 0x11B else a) AND 0xFF"

definition xtime :: "int \<Rightarrow> int" where
  "xtime a = reduce_byte (push_bit 1 a)"

text \<open>The loop of \<open>_mul\<close>, with the accumulator \<open>r\<close>; \<open>b\<close> is never negative.\<close>

function mul_loop :: "int \<Rightarrow> int \<Rightarrow> int \<Rightarrow> int" where
  "mul_loop a b r =
     (if b \<le> 0 then r else mul_loop (xtime a) (drop_bit 1 b) (if b AND 1 \<noteq> 0 then r XOR a else r))"
  by pat_completeness auto
termination
  by (relation "measure (\<lambda>(a, b, r). nat b)") (auto simp: drop_bit_eq_div)

declare mul_loop.simps [simp del]

definition mul :: "int \<Rightarrow> int \<Rightarrow> int" where
  "mul a b = mul_loop a b 0"

definition schedule_word :: "nat \<Rightarrow> nat \<Rightarrow> bytes \<Rightarrow> bytes" where
  "schedule_word nk i temp =
     (if i mod nk = 0 then [sbox (temp ! 1) XOR RCON ! (i div nk - 1), sbox (temp ! 2), sbox (temp ! 3), sbox (temp ! 0)]
      else if nk > 6 \<and> i mod nk = 4 then map sbox temp else temp)"

definition xor_word :: "bytes \<Rightarrow> bytes \<Rightarrow> bytes" where
  "xor_word u temp = map (\<lambda>j. u ! j XOR temp ! j) [0..<4]"

fun expand_loop :: "nat \<Rightarrow> nat \<Rightarrow> nat \<Rightarrow> bytes list \<Rightarrow> bytes list" where
  "expand_loop nk 0 i w = w"
| "expand_loop nk (Suc n) i w = expand_loop nk n (Suc i) (w @ [xor_word (w ! (i - nk)) (schedule_word nk i (w ! (i - 1)))])"

definition key_words :: "bytes \<Rightarrow> bytes list" where
  "key_words key = map (\<lambda>i. take 4 (drop (4 * i) key)) [0..<length key div 4]"

definition round_keys :: "nat \<Rightarrow> bytes list \<Rightarrow> bytes list" where
  "round_keys nr w = map (\<lambda>r. concat (take 4 (drop (4 * r) w))) [0..<nr + 1]"

definition expand_key :: "bytes \<Rightarrow> bytes list result" where
  "expand_key key =
     bind_r (ensure (length key div 4 \<in> {4, 6, 8}) (ContractError ''AES key must be 16, 24, or 32 bytes'')) (\<lambda>_.
     Inr (round_keys (length key div 4 + 6)
       (expand_loop (length key div 4) (4 * (length key div 4 + 6 + 1) - length key div 4) (length key div 4) (key_words key))))"

definition add_round_key :: "bytes \<Rightarrow> bytes \<Rightarrow> bytes" where
  "add_round_key st rk = map (\<lambda>i. st ! i XOR rk ! i) [0..<16]"

definition sub_bytes :: "bytes \<Rightarrow> bytes" where
  "sub_bytes st = map (\<lambda>i. sbox (st ! i)) [0..<16]"

definition place_row :: "bytes \<Rightarrow> nat \<Rightarrow> bytes \<Rightarrow> bytes" where
  "place_row st row vals = foldl (\<lambda>s c. s[row + 4 * c := vals ! ((c + row) mod 4)]) st [0..<4]"

definition shift_row :: "bytes \<Rightarrow> nat \<Rightarrow> bytes" where
  "shift_row st row = place_row st row (map (\<lambda>c. st ! (row + 4 * c)) [0..<4])"

definition shift_rows :: "bytes \<Rightarrow> bytes" where
  "shift_rows st = foldl shift_row st [1, 2, 3]"

definition place_column :: "bytes \<Rightarrow> nat \<Rightarrow> bytes \<Rightarrow> bytes" where
  "place_column st c col =
     st[4 * c := mul (col ! 0) 2 XOR mul (col ! 1) 3 XOR col ! 2 XOR col ! 3,
        4 * c + 1 := col ! 0 XOR mul (col ! 1) 2 XOR mul (col ! 2) 3 XOR col ! 3,
        4 * c + 2 := col ! 0 XOR col ! 1 XOR mul (col ! 2) 2 XOR mul (col ! 3) 3,
        4 * c + 3 := mul (col ! 0) 3 XOR col ! 1 XOR col ! 2 XOR mul (col ! 3) 2]"

definition mix_column :: "bytes \<Rightarrow> nat \<Rightarrow> bytes" where
  "mix_column st c = place_column st c (take 4 (drop (4 * c) st))"

definition mix_columns :: "bytes \<Rightarrow> bytes" where
  "mix_columns st = foldl mix_column st [0..<4]"

definition aes_round :: "bytes \<Rightarrow> bytes \<Rightarrow> bytes" where
  "aes_round st rk = add_round_key (mix_columns (shift_rows (sub_bytes st))) rk"

definition aes_encrypt_block :: "bytes list \<Rightarrow> bytes \<Rightarrow> bytes result" where
  "aes_encrypt_block rks block =
     bind_r (ensure (length block = 16) (ContractError ''AES block must be 16 bytes'')) (\<lambda>_.
     Inr (add_round_key (shift_rows (sub_bytes
       (foldl aes_round (add_round_key block (rks ! 0)) (map ((!) rks) [1..<length rks - 1])))) (last rks)))"

section \<open>Bytes\<close>

lemma is_byte_take_bit: "is_byte b \<longleftrightarrow> take_bit 8 b = b"
  by (auto simp: is_byte_def take_bit_int_eq_self_iff)

lemma is_byte_xor [simp]: "is_byte a \<Longrightarrow> is_byte b \<Longrightarrow> is_byte (a XOR b)"
  by (simp add: is_byte_take_bit take_bit_xor)

lemma is_bytes_append [simp]: "is_bytes (xs @ ys) \<longleftrightarrow> is_bytes xs \<and> is_bytes ys"
  by (simp add: is_bytes_def)

lemma is_bytes_Nil [simp]: "is_bytes []"
  by (simp add: is_bytes_def)

lemma is_bytes_Cons [simp]: "is_bytes (x # xs) \<longleftrightarrow> is_byte x \<and> is_bytes xs"
  by (simp add: is_bytes_def)

lemma is_bytes_nth: "is_bytes xs \<Longrightarrow> i < length xs \<Longrightarrow> is_byte (xs ! i)"
  by (simp add: is_bytes_def list_all_length)

lemma is_bytes_take [simp]: "is_bytes xs \<Longrightarrow> is_bytes (take n xs)"
  by (auto simp: is_bytes_def list_all_iff dest: in_set_takeD)

lemma is_bytes_drop [simp]: "is_bytes xs \<Longrightarrow> is_bytes (drop n xs)"
  by (auto simp: is_bytes_def list_all_iff dest: in_set_dropD)

lemma xor_cancel: "(a XOR k) XOR k = (a :: int)"
  by (simp add: xor.assoc)

lemma xor_right_inj: "a XOR k = b XOR k \<Longrightarrow> a = (b :: int)"
  using xor_cancel by metis

section \<open>Multiplication\<close>

lemma odd_and_1: "(a AND 1 \<noteq> 0) = odd (a :: int)"
  by (simp add: and_one_eq odd_iff_mod_2_eq_one)

lemma and_100: "(a AND 0x100 \<noteq> 0) = bit (a :: int) 8"
proof -
  have "push_bit 8 1 = (0x100 :: int)" by simp
  then show ?thesis using bit_iff_and_push_bit_not_eq_0 [of a 8] by metis
qed

lemma xtime_eq: "xtime a = take_bit 8 (push_bit 1 a XOR (if bit a 7 then 0x11B else 0))"
proof -
  have "b AND 0xFF = take_bit 8 b" for b :: int using take_bit_eq_mask [of 8 b] by (simp add: mask_eq_exp_minus_1)
  moreover have "bit (push_bit 1 a) 8 = bit a 7" unfolding bit_push_bit_iff_int by simp
  ultimately show ?thesis by (simp add: xtime_def reduce_byte_def and_100)
qed

lemma xtime_xor: "xtime (a XOR b) = xtime a XOR xtime b"
  by (cases "bit a 7"; cases "bit b 7")
    (simp_all add: xtime_eq push_bit_xor bit_xor_iff flip: take_bit_xor, simp_all add: ac_simps)

lemma is_byte_xtime [simp]: "is_byte (xtime a)"
  by (simp add: is_byte_take_bit xtime_eq)

lemma mul_loop_xor: "mul_loop (a XOR a') b (r XOR r') = mul_loop a b r XOR mul_loop a' b r'"
proof (induction a b r arbitrary: a' r' rule: mul_loop.induct)
  case (1 a b r)
  show ?case
  proof (cases "b \<le> 0")
    case True
    then show ?thesis by (simp add: mul_loop.simps [of _ b])
  next
    case False
    have e: "(if b AND 1 \<noteq> 0 then (r XOR r') XOR (a XOR a') else r XOR r')
      = (if b AND 1 \<noteq> 0 then r XOR a else r) XOR (if b AND 1 \<noteq> 0 then r' XOR a' else r')"
      by (simp add: ac_simps)
    show ?thesis
      unfolding mul_loop.simps [of _ b] xtime_xor e using False "1" by simp
  qed
qed

lemma mul_xor: "mul (a XOR b) c = mul a c XOR mul b c"
  using mul_loop_xor [of a b c 0 0] by (simp add: mul_def)

lemma is_byte_mul_loop: "is_byte a \<Longrightarrow> is_byte r \<Longrightarrow> is_byte (mul_loop a b r)"
proof (induction a b r rule: mul_loop.induct)
  case (1 a b r)
  then show ?case by (subst mul_loop.simps) auto
qed

lemma is_byte_mul [simp]: "is_byte a \<Longrightarrow> is_byte (mul a b)"
  unfolding mul_def by (rule is_byte_mul_loop) (simp_all add: is_byte_def)

text \<open>Facts about all bytes are checked on the list of the bytes.\<close>

lemma all_bytes: "list_all P [0..255] \<Longrightarrow> is_byte b \<Longrightarrow> P b"
  by (auto simp: list_all_iff is_byte_def)

lemma sbox_table: "length SBOX = 256" "distinct SBOX" "list_all is_byte SBOX"
  by code_simp+

lemma is_byte_sbox [simp]: "is_byte b \<Longrightarrow> is_byte (sbox b)"
  using sbox_table unfolding sbox_def list_all_length by (auto simp: is_byte_def nat_less_iff)

lemma sbox_inj: "is_byte a \<Longrightarrow> is_byte b \<Longrightarrow> sbox a = sbox b \<Longrightarrow> a = b"
  using sbox_table nth_eq_iff_index_eq [of SBOX "nat a" "nat b"] by (auto simp: sbox_def is_byte_def nat_less_iff)

text \<open>The coefficients of the inverse of the column transformation.\<close>

lemma mul_constants:
  "mul a 2 = xtime a" "mul a 3 = xtime a XOR a" "mul a 9 = xtime (xtime (xtime a)) XOR a"
  "mul a 11 = xtime (xtime (xtime a)) XOR xtime a XOR a" "mul a 13 = xtime (xtime (xtime a)) XOR xtime (xtime a) XOR a"
  "mul a 14 = xtime (xtime (xtime a)) XOR xtime (xtime a) XOR xtime a"
  by (simp_all add: mul_def mul_loop.simps odd_and_1 ac_simps)

lemma xor_left_self: "a XOR (a XOR b) = (b :: int)"
  by (simp flip: xor.assoc)

lemma inverse_columns:
  "mul (mul a 2) 14 XOR mul a 11 XOR mul a 13 XOR mul (mul a 3) 9 = a"
  "mul (mul a 3) 14 XOR mul (mul a 2) 11 XOR mul a 13 XOR mul a 9 = 0"
  "mul a 14 XOR mul (mul a 3) 11 XOR mul (mul a 2) 13 XOR mul a 9 = 0"
  "mul a 14 XOR mul a 11 XOR mul (mul a 3) 13 XOR mul (mul a 2) 9 = 0"
  unfolding mul_constants xtime_xor by (simp_all add: ac_simps xor_left_self)

section \<open>The cipher is a permutation of the blocks\<close>

definition is_block :: "bytes \<Rightarrow> bool" where
  "is_block st = (length st = 16 \<and> is_bytes st)"

lemma block_cases:
  assumes "length st = 16"
  obtains a0 a1 a2 a3 a4 a5 a6 a7 a8 a9 a10 a11 a12 a13 a14 a15 where "st = [a0, a1, a2, a3, a4, a5, a6, a7, a8, a9, a10, a11, a12, a13, a14, a15]"
  using assms by (auto simp: numeral_eq_Suc length_Suc_conv intro: that)

lemma block_eqI: "length a = 16 \<Longrightarrow> length b = 16 \<Longrightarrow> (\<And>i. i < 16 \<Longrightarrow> a ! i = b ! i) \<Longrightarrow> a = b"
  by (rule nth_equalityI) auto

definition mix_byte :: "int \<Rightarrow> int \<Rightarrow> int \<Rightarrow> int \<Rightarrow> int" where
  "mix_byte a b c d = mul a 2 XOR mul b 3 XOR c XOR d"

lemma shift_rows_block: "shift_rows [a0, a1, a2, a3, a4, a5, a6, a7, a8, a9, a10, a11, a12, a13, a14, a15] = [a0, a5, a10, a15, a4, a9, a14, a3, a8, a13, a2, a7, a12, a1, a6, a11]"
  by (simp add: shift_rows_def shift_row_def place_row_def upt_rec)

lemma mix_columns_block:
  "mix_columns [a0, a1, a2, a3, a4, a5, a6, a7, a8, a9, a10, a11, a12, a13, a14, a15] =
    [mix_byte a0 a1 a2 a3, mix_byte a1 a2 a3 a0, mix_byte a2 a3 a0 a1, mix_byte a3 a0 a1 a2,
     mix_byte a4 a5 a6 a7, mix_byte a5 a6 a7 a4, mix_byte a6 a7 a4 a5, mix_byte a7 a4 a5 a6,
     mix_byte a8 a9 a10 a11, mix_byte a9 a10 a11 a8, mix_byte a10 a11 a8 a9, mix_byte a11 a8 a9 a10,
     mix_byte a12 a13 a14 a15, mix_byte a13 a14 a15 a12, mix_byte a14 a15 a12 a13, mix_byte a15 a12 a13 a14]"
  by (simp add: mix_columns_def mix_column_def place_column_def mix_byte_def upt_rec ac_simps)

lemma mix_byte_inverse:
  "mul (mix_byte a b c d) 14 XOR mul (mix_byte b c d a) 11 XOR mul (mix_byte c d a b) 13 XOR mul (mix_byte d a b c) 9 = a"
proof -
  have "mul (mix_byte a b c d) 14 XOR mul (mix_byte b c d a) 11 XOR mul (mix_byte c d a b) 13 XOR mul (mix_byte d a b c) 9 =
      (mul (mul a 2) 14 XOR mul a 11 XOR mul a 13 XOR mul (mul a 3) 9) XOR
      ((mul (mul b 3) 14 XOR mul (mul b 2) 11 XOR mul b 13 XOR mul b 9) XOR
      ((mul c 14 XOR mul (mul c 3) 11 XOR mul (mul c 2) 13 XOR mul c 9) XOR
      (mul d 14 XOR mul d 11 XOR mul (mul d 3) 13 XOR mul (mul d 2) 9)))"
    unfolding mix_byte_def mul_xor by (simp only: ac_simps)
  then show ?thesis unfolding inverse_columns by simp
qed

lemma mix_byte_inj:
  assumes "mix_byte a b c d = mix_byte a' b' c' d'" "mix_byte b c d a = mix_byte b' c' d' a'"
    and "mix_byte c d a b = mix_byte c' d' a' b'" "mix_byte d a b c = mix_byte d' a' b' c'"
  shows "a = a' \<and> b = b' \<and> c = c' \<and> d = d'"
  using mix_byte_inverse [of a b c d] mix_byte_inverse [of b c d a] mix_byte_inverse [of c d a b] mix_byte_inverse [of d a b c]
  unfolding assms mix_byte_inverse by simp

lemma is_byte_mix [simp]: "is_byte a \<Longrightarrow> is_byte b \<Longrightarrow> is_byte c \<Longrightarrow> is_byte d \<Longrightarrow> is_byte (mix_byte a b c d)"
  by (simp add: mix_byte_def)

lemma is_blockE:
  assumes "is_block st"
  obtains a0 a1 a2 a3 a4 a5 a6 a7 a8 a9 a10 a11 a12 a13 a14 a15 where "st = [a0, a1, a2, a3, a4, a5, a6, a7, a8, a9, a10, a11, a12, a13, a14, a15]" "is_bytes [a0, a1, a2, a3, a4, a5, a6, a7, a8, a9, a10, a11, a12, a13, a14, a15]"
  using assms block_cases [of st] unfolding is_block_def by metis

lemma mix_columns_is_block: "is_block st \<Longrightarrow> is_block (mix_columns st)"
  by (erule is_blockE) (simp add: is_block_def mix_columns_block)

lemma mix_columns_inj:
  assumes "is_block a" "is_block b" "mix_columns a = mix_columns b"
  shows "a = b"
proof -
  obtain a0 a1 a2 a3 a4 a5 a6 a7 a8 a9 a10 a11 a12 a13 a14 a15 where a: "a = [a0, a1, a2, a3, a4, a5, a6, a7, a8, a9, a10, a11, a12, a13, a14, a15]" "is_bytes [a0, a1, a2, a3, a4, a5, a6, a7, a8, a9, a10, a11, a12, a13, a14, a15]" using assms(1) by (rule is_blockE)
  obtain b0 b1 b2 b3 b4 b5 b6 b7 b8 b9 b10 b11 b12 b13 b14 b15 where b: "b = [b0, b1, b2, b3, b4, b5, b6, b7, b8, b9, b10, b11, b12, b13, b14, b15]" "is_bytes [b0, b1, b2, b3, b4, b5, b6, b7, b8, b9, b10, b11, b12, b13, b14, b15]" using assms(2) by (rule is_blockE)
  note e = assms(3) [unfolded a(1) b(1) mix_columns_block list.inject]
  have "a0 = b0 \<and> a1 = b1 \<and> a2 = b2 \<and> a3 = b3" using mix_byte_inj [of a0 a1 a2 a3 b0 b1 b2 b3] e by simp
  moreover have "a4 = b4 \<and> a5 = b5 \<and> a6 = b6 \<and> a7 = b7" using mix_byte_inj [of a4 a5 a6 a7 b4 b5 b6 b7] e by simp
  moreover have "a8 = b8 \<and> a9 = b9 \<and> a10 = b10 \<and> a11 = b11" using mix_byte_inj [of a8 a9 a10 a11 b8 b9 b10 b11] e by simp
  moreover have "a12 = b12 \<and> a13 = b13 \<and> a14 = b14 \<and> a15 = b15" using mix_byte_inj [of a12 a13 a14 a15 b12 b13 b14 b15] e by simp
  ultimately show ?thesis unfolding a(1) b(1) by simp
qed

lemma shift_rows_is_block: "is_block st \<Longrightarrow> is_block (shift_rows st)"
  by (erule is_blockE) (simp add: is_block_def shift_rows_block)

lemma shift_rows_inj: "is_block a \<Longrightarrow> is_block b \<Longrightarrow> shift_rows a = shift_rows b \<Longrightarrow> a = b"
  by (elim is_blockE) (simp add: shift_rows_block)

lemma is_block_map: "(\<And>i. i < 16 \<Longrightarrow> is_byte (f i)) \<Longrightarrow> is_block (map f [0..<16])"
  by (simp add: is_block_def is_bytes_def list_all_iff)

lemma is_block_nth: "is_block st \<Longrightarrow> i < 16 \<Longrightarrow> is_byte (st ! i)"
  by (simp add: is_block_def is_bytes_nth)

lemma add_round_key_is_block: "is_block st \<Longrightarrow> is_block rk \<Longrightarrow> is_block (add_round_key st rk)"
  unfolding add_round_key_def by (rule is_block_map) (simp add: is_block_nth)

lemma sub_bytes_is_block: "is_block st \<Longrightarrow> is_block (sub_bytes st)"
  unfolding sub_bytes_def by (rule is_block_map) (simp add: is_block_nth)

lemma add_round_key_inj:
  assumes "is_block a" "is_block b" "add_round_key a rk = add_round_key b rk"
  shows "a = b"
  using assms by (intro block_eqI) (auto simp: is_block_def add_round_key_def intro: xor_right_inj)

lemma sub_bytes_inj:
  assumes "is_block a" "is_block b" "sub_bytes a = sub_bytes b"
  shows "a = b"
proof (rule block_eqI)
  fix i :: nat
  assume "i < 16"
  then show "a ! i = b ! i" using assms is_block_nth [of a i] is_block_nth [of b i] sbox_inj by (simp add: sub_bytes_def)
qed (use assms in \<open>simp_all add: is_block_def\<close>)

lemmas block_steps = sub_bytes_is_block shift_rows_is_block mix_columns_is_block add_round_key_is_block

lemma aes_round_is_block: "is_block st \<Longrightarrow> is_block rk \<Longrightarrow> is_block (aes_round st rk)"
  by (simp add: aes_round_def block_steps)

lemma aes_round_inj:
  assumes "is_block a" "is_block b" "aes_round a rk = aes_round b rk"
  shows "a = b"
proof -
  have "mix_columns (shift_rows (sub_bytes a)) = mix_columns (shift_rows (sub_bytes b))"
    by (rule add_round_key_inj [of _ _ rk]) (use assms in \<open>simp_all add: aes_round_def block_steps\<close>)
  then have "shift_rows (sub_bytes a) = shift_rows (sub_bytes b)"
    by (rule mix_columns_inj [rotated 2]) (simp_all add: assms block_steps)
  then have "sub_bytes a = sub_bytes b"
    by (rule shift_rows_inj [rotated 2]) (simp_all add: assms block_steps)
  then show ?thesis by (rule sub_bytes_inj [OF assms(1,2)])
qed

lemma aes_rounds_is_block: "is_block st \<Longrightarrow> list_all is_block ks \<Longrightarrow> is_block (foldl aes_round st ks)"
  by (induction ks arbitrary: st) (simp_all add: aes_round_is_block)

lemma aes_rounds_inj:
  "is_block a \<Longrightarrow> is_block b \<Longrightarrow> list_all is_block ks \<Longrightarrow> foldl aes_round a ks = foldl aes_round b ks \<Longrightarrow> a = b"
proof (induction ks arbitrary: a b)
  case (Cons k ks)
  have "aes_round a k = aes_round b k" by (rule Cons.IH) (use Cons.prems in \<open>simp_all add: aes_round_is_block\<close>)
  then show ?case using Cons.prems aes_round_inj [of a b k] by simp
qed simp

text \<open>Round keys as the key expansion makes them.\<close>

definition round_keys_ok :: "bytes list \<Rightarrow> bool" where
  "round_keys_ok rks = (2 \<le> length rks \<and> list_all is_block rks)"

lemma round_keys_ok_parts:
  assumes "round_keys_ok rks"
  shows "is_block (rks ! 0)" "is_block (last rks)" "list_all is_block (map ((!) rks) [1..<length rks - 1])"
proof -
  have "rks \<noteq> []" using assms by (auto simp: round_keys_ok_def)
  then show "is_block (rks ! 0)" "is_block (last rks)" using assms by (auto simp: round_keys_ok_def list_all_iff)
  show "list_all is_block (map ((!) rks) [1..<length rks - 1])" using assms by (auto simp: round_keys_ok_def list_all_iff)
qed

lemma aes_encrypt_block_ok:
  assumes "round_keys_ok rks" and "is_block b"
  obtains c where "aes_encrypt_block rks b = Inr c" "is_block c"
proof -
  note k = round_keys_ok_parts [OF assms(1)]
  have "length b = 16" using assms(2) by (simp add: is_block_def)
  then show ?thesis
    using assms(2) k that by (simp add: aes_encrypt_block_def block_steps aes_rounds_is_block)
qed

lemma aes_encrypt_block_inj:
  assumes "round_keys_ok rks" and "is_block a" and "is_block b" and "aes_encrypt_block rks a = aes_encrypt_block rks b"
  shows "a = b"
proof -
  note k = round_keys_ok_parts [OF assms(1)]
  let ?st = "\<lambda>a. foldl aes_round (add_round_key a (rks ! 0)) (map ((!) rks) [1..<length rks - 1])"
  have ok: "is_block (?st a)" "is_block (?st b)" using assms(2,3) k by (simp_all add: block_steps aes_rounds_is_block)
  have "add_round_key (shift_rows (sub_bytes (?st a))) (last rks) = add_round_key (shift_rows (sub_bytes (?st b))) (last rks)"
    using assms(2-4) by (simp add: aes_encrypt_block_def is_block_def)
  then have "shift_rows (sub_bytes (?st a)) = shift_rows (sub_bytes (?st b))"
    by (rule add_round_key_inj [rotated 2]) (intro block_steps ok)+
  then have "sub_bytes (?st a) = sub_bytes (?st b)"
    by (rule shift_rows_inj [rotated 2]) (intro block_steps ok)+
  then have "?st a = ?st b" by (rule sub_bytes_inj [OF ok])
  then have "add_round_key a (rks ! 0) = add_round_key b (rks ! 0)"
    by (rule aes_rounds_inj [rotated 3]) (intro block_steps assms(2,3) k)+
  then show ?thesis by (rule add_round_key_inj [OF assms(2,3)])
qed

section \<open>The key expansion\<close>

definition is_word :: "bytes \<Rightarrow> bool" where
  "is_word u = (length u = 4 \<and> is_bytes u)"

lemma is_word_nth: "is_word u \<Longrightarrow> j < 4 \<Longrightarrow> is_byte (u ! j)"
  by (simp add: is_word_def is_bytes_nth)

lemma rcon_bytes: "k < 10 \<Longrightarrow> is_byte (RCON ! k)"
proof -
  have "length RCON = 10" "list_all is_byte RCON" by code_simp+
  then show "k < 10 \<Longrightarrow> is_byte (RCON ! k)" by (simp add: list_all_length)
qed

lemma schedule_word_ok: "is_word u \<Longrightarrow> i div nk \<le> 10 \<Longrightarrow> is_word (schedule_word nk i u)"
  using is_word_nth [of u] rcon_bytes [of "i div nk - 1"] by (auto simp: is_word_def schedule_word_def is_bytes_def list_all_iff)

lemma xor_word_ok: "is_word u \<Longrightarrow> is_word v \<Longrightarrow> is_word (xor_word u v)"
  unfolding is_word_def [of "xor_word u v"] by (simp add: xor_word_def is_bytes_def list_all_iff is_word_nth)

lemma expand_loop_ok:
  assumes "list_all is_word w" and "length w = i" and "nk \<le> i" and "0 < nk" and "i + n \<le> 11 * nk"
  shows "list_all is_word (expand_loop nk n i w) \<and> length (expand_loop nk n i w) = i + n"
  using assms
proof (induction n arbitrary: i w)
  case 0
  then show ?case by simp
next
  case (Suc n)
  have "i div nk < 11" using Suc.prems(4,5) by (simp add: less_mult_imp_div_less)
  then have "is_word (xor_word (w ! (i - nk)) (schedule_word nk i (w ! (i - 1))))"
    using Suc.prems by (intro xor_word_ok schedule_word_ok) (auto simp: list_all_length)
  then show ?case using Suc.IH [of "w @ [xor_word (w ! (i - nk)) (schedule_word nk i (w ! (i - 1)))]" "Suc i"] Suc.prems by simp
qed

lemma key_words_ok: "is_bytes key \<Longrightarrow> list_all is_word (key_words key) \<and> length (key_words key) = length key div 4"
  by (auto simp: key_words_def list_all_iff is_word_def)

lemma concat_words: "list_all is_word ws \<Longrightarrow> length (concat ws) = 4 * length ws \<and> is_bytes (concat ws)"
  by (induction ws) (auto simp: is_word_def)

text \<open>Key expansion accepts exactly the keys with 4, 6 or 8 whole words, and yields 11, 13 or 15 round keys.\<close>

lemma expand_key_ok:
  assumes "is_bytes key" and "length key div 4 \<in> {4, 6, 8}"
  obtains rks where "expand_key key = Inr rks" "round_keys_ok rks" "length rks = length key div 4 + 7"
proof -
  let ?nk = "length key div 4"
  let ?n = "4 * (?nk + 6 + 1) - ?nk"
  let ?w = "expand_loop ?nk ?n ?nk (key_words key)"
  have w: "list_all is_word ?w" "length ?w = ?nk + ?n"
    using expand_loop_ok [of "key_words key" ?nk ?nk ?n] key_words_ok [OF assms(1)] assms(2) by auto
  have "is_block (concat (take 4 (drop (4 * r) ?w)))" if "r < ?nk + 7" for r
  proof -
    have "list_all is_word (take 4 (drop (4 * r) ?w))"
      using w(1) by (auto simp: list_all_iff dest: in_set_takeD in_set_dropD)
    moreover have "length (take 4 (drop (4 * r) ?w)) = 4" using that w(2) by auto
    ultimately show ?thesis using concat_words by (simp add: is_block_def)
  qed
  then have "round_keys_ok (round_keys (?nk + 6) ?w)" by (simp add: round_keys_ok_def round_keys_def list_all_iff)
  then show ?thesis using assms(2) by (intro that) (auto simp: expand_key_def round_keys_def bind_ensure)
qed

text \<open>The length check divides by four: up to three bytes after the last whole word are accepted and ignored, although the
  message asks for 16, 24 or 32 bytes.\<close>

lemma expand_key_ignores_tail:
  assumes "length key = 16" and "length t \<le> 3"
  shows "expand_key (key @ t) = expand_key key"
proof -
  have "length (key @ t) div 4 = 4" "length key div 4 = 4" using assms by auto
  moreover have "take 4 (drop (4 * i) (key @ t)) = take 4 (drop (4 * i) key)" if "i < 4" for i using that assms by auto
  ultimately have "key_words (key @ t) = key_words key" by (simp add: key_words_def)
  then show ?thesis using \<open>length (key @ t) div 4 = 4\<close> \<open>length key div 4 = 4\<close> unfolding expand_key_def by simp
qed

section \<open>The tables\<close>

definition rotl8 :: "int \<Rightarrow> nat \<Rightarrow> int" where
  "rotl8 y k = (push_bit k y OR drop_bit (8 - k) y) AND 0xFF"

definition affine :: "int \<Rightarrow> int" where
  "affine y = y XOR rotl8 y 1 XOR rotl8 y 2 XOR rotl8 y 3 XOR rotl8 y 4 XOR 0x63"

definition unaffine :: "int \<Rightarrow> int" where
  "unaffine y = rotl8 y 1 XOR rotl8 y 3 XOR rotl8 y 6 XOR 0x05"

definition sbox_entry_ok :: "int \<Rightarrow> int \<Rightarrow> int \<Rightarrow> bool" where
  "sbox_entry_ok x y v = (is_byte y \<and> (if x = 0 then y = 0 else mul x y = 1) \<and> v = affine y)"

definition sbox_ok :: "int \<Rightarrow> bool" where
  "sbox_ok x = sbox_entry_ok x (unaffine (sbox x)) (sbox x)"

lemma sbox_entries: "list_all sbox_ok [0..255]"
  by code_simp

text \<open>The table is the S-box of FIPS-197: the multiplicative inverse (0 for 0) followed by the affine map.\<close>

lemma sbox_inverse_affine:
  "is_byte x \<Longrightarrow> \<exists>y. is_byte y \<and> (if x = 0 then y = 0 else mul x y = 1) \<and> sbox x = affine y"
  using all_bytes [OF sbox_entries] unfolding sbox_ok_def sbox_entry_ok_def by blast

text \<open>The example of FIPS-197, appendix C.1.\<close>

lemma fips_197_vector:
  "bind_r (expand_key [0..15]) (\<lambda>rks. aes_encrypt_block rks [0x00, 0x11, 0x22, 0x33, 0x44, 0x55, 0x66, 0x77, 0x88, 0x99, 0xaa, 0xbb, 0xcc, 0xdd, 0xee, 0xff]) =
     Inr [0x69, 0xc4, 0xe0, 0xd8, 0x6a, 0x7b, 0x04, 0x30, 0xd8, 0xcd, 0xb7, 0x80, 0x70, 0xb4, 0xc5, 0x5a]"
proof -
  have "expand_key [0..15] = Inr
    [[0, 1, 2, 3, 4, 5, 6, 7, 8, 9, 10, 11, 12, 13, 14, 15],
     [214, 170, 116, 253, 210, 175, 114, 250, 218, 166, 120, 241, 214, 171, 118, 254],
     [182, 146, 207, 11, 100, 61, 189, 241, 190, 155, 197, 0, 104, 48, 179, 254],
     [182, 255, 116, 78, 210, 194, 201, 191, 108, 89, 12, 191, 4, 105, 191, 65],
     [71, 247, 247, 188, 149, 53, 62, 3, 249, 108, 50, 188, 253, 5, 141, 253],
     [60, 170, 163, 232, 169, 159, 157, 235, 80, 243, 175, 87, 173, 246, 34, 170],
     [94, 57, 15, 125, 247, 166, 146, 150, 167, 85, 61, 193, 10, 163, 31, 107],
     [20, 249, 112, 26, 227, 95, 226, 140, 68, 10, 223, 77, 78, 169, 192, 38],
     [71, 67, 135, 53, 164, 28, 101, 185, 224, 22, 186, 244, 174, 191, 122, 210],
     [84, 153, 50, 209, 240, 133, 87, 104, 16, 147, 237, 156, 190, 44, 151, 78],
     [19, 17, 29, 127, 227, 148, 74, 23, 243, 7, 167, 139, 77, 43, 48, 197]]"
    by code_simp
  then show ?thesis by (simp only: bind_r.simps) code_simp
qed

section \<open>Permutation\<close>

lemma finite_blocks: "finite {b. is_block b}"
proof -
  have "{b. is_block b} \<subseteq> {xs. set xs \<subseteq> {0..255} \<and> length xs = 16}"
    by (auto simp: is_block_def is_bytes_def list_all_iff is_byte_def)
  then show ?thesis using finite_lists_length_eq [of "{0..255 :: int}" 16] finite_subset by blast
qed

text \<open>C34. For every key that the expansion accepts, block encryption never fails on a block of 16 bytes, and it is a
  permutation of these blocks: no two blocks have the same encryption, and every block is one.\<close>

theorem aes_block_permutation:
  assumes "is_bytes key" and "length key div 4 \<in> {4, 6, 8}"
  shows "\<exists>rks E. expand_key key = Inr rks \<and> (\<forall>b. is_block b \<longrightarrow> aes_encrypt_block rks b = Inr (E b))
    \<and> bij_betw E {b. is_block b} {b. is_block b}"
proof -
  obtain rks where rks: "expand_key key = Inr rks" "round_keys_ok rks" using expand_key_ok [OF assms] by blast
  define E where "E b = projr (aes_encrypt_block rks b)" for b
  have E: "aes_encrypt_block rks b = Inr (E b) \<and> is_block (E b)" if "is_block b" for b
  proof -
    note b = that
    obtain c where "aes_encrypt_block rks b = Inr c" "is_block c" by (rule aes_encrypt_block_ok [OF rks(2) b])
    then show ?thesis by (simp add: E_def)
  qed
  have "inj_on E {b. is_block b}"
  proof (rule inj_onI)
    fix a b
    assume ab: "a \<in> {b. is_block b}" "b \<in> {b. is_block b}" "E a = E b"
    then have "aes_encrypt_block rks a = aes_encrypt_block rks b" using E [of a] E [of b] by simp
    with ab show "a = b" using aes_encrypt_block_inj [OF rks(2), of a b] by simp
  qed
  moreover have "E ` {b. is_block b} \<subseteq> {b. is_block b}" using E by auto
  ultimately have "bij_betw E {b. is_block b} {b. is_block b}"
    using endo_inj_surj [OF finite_blocks, of E] by (simp add: bij_betw_def)
  then show ?thesis using rks(1) E by blast
qed

theorem aes_block_permutation_witness:
  "\<exists>rks E. expand_key [0..15] = Inr rks \<and> aes_encrypt_block rks [0..15] = Inr (E [0..15]) \<and> inj_on E {b. is_block b}"
proof -
  have b: "is_block [0..15]" by (simp add: is_block_def is_bytes_def list_all_iff is_byte_def)
  then have "is_bytes [0..15]" "length [0..15] div 4 \<in> {4, 6, 8}" by (simp_all add: is_block_def)
  from aes_block_permutation [OF this] b show ?thesis unfolding bij_betw_def by blast
qed

end
