(* ===== verification/Gcm.thy ===== *)
theory Gcm
  imports Aes
begin

text \<open>
  Galois/counter mode of the pure Python fallback, \<open>src/residual/crypto/_aesgcm_fallback.py\<close> (NIST SP 800-38D), over the
  block cipher of \<open>Aes\<close>.

  \<^item> \<open>int.from_bytes(b, "big")\<close> and \<open>n.to_bytes(k, "big")\<close> are \<open>from_bytes\<close> and \<open>to_bytes\<close>; the latter raises
    \<open>OverflowError\<close>. A loop over \<open>range(0, len(data), 16)\<close> recurses on the remaining data.
  \<^item> Shown: \<open>gf128_mul\<close> is the multiplication of a commutative ring in which the field polynomial vanishes; decryption
    accepts a text exactly when it is the encryption of what it returns, and encryption never fails within the length
    limits of the format.
\<close>

section \<open>Multiplication\<close>

definition gcm_poly :: int where
  "gcm_poly = 0xE1000000000000000000000000000000"

definition gf_step :: "int \<Rightarrow> int" where
  "gf_step v = drop_bit 1 v XOR (if v AND 1 \<noteq> 0 then gcm_poly else 0)"

text \<open>\<open>for i in range(128)\<close>, counted down: \<open>127 - i\<close> is \<open>n\<close>.\<close>

fun gf_loop :: "nat \<Rightarrow> int \<Rightarrow> int \<Rightarrow> int \<Rightarrow> int" where
  "gf_loop 0 v y z = z"
| "gf_loop (Suc n) v y z = gf_loop n (gf_step v) y (if drop_bit n y AND 1 \<noteq> 0 then z XOR v else z)"

definition gf128_mul :: "int \<Rightarrow> int \<Rightarrow> int" where
  "gf128_mul x y = gf_loop 128 x y 0"

section \<open>Counter mode\<close>

definition from_bytes :: "bytes \<Rightarrow> int" where
  "from_bytes bs = foldl (\<lambda>n b. n * 256 + b) 0 bs"

definition be_bytes :: "nat \<Rightarrow> int \<Rightarrow> bytes" where
  "be_bytes k n = map (\<lambda>i. (n div 256 ^ (k - 1 - i)) mod 256) [0..<k]"

definition to_bytes :: "nat \<Rightarrow> int \<Rightarrow> bytes result" where
  "to_bytes k n = (if 0 \<le> n \<and> n < 256 ^ k then Inr (be_bytes k n) else Inl (OverflowError ''int too big to convert''))"

definition zero_bytes :: "nat \<Rightarrow> bytes" where
  "zero_bytes k = replicate k 0"

definition ghash_block :: "bytes \<Rightarrow> int" where
  "ghash_block block = from_bytes (block @ zero_bytes (16 - length block))"

function ghash_loop :: "int \<Rightarrow> int \<Rightarrow> bytes \<Rightarrow> int" where
  "ghash_loop h y data = (if data = [] then y else ghash_loop h (gf128_mul (y XOR ghash_block (take 16 data)) h) (drop 16 data))"
  by pat_completeness auto
termination
  by (relation "measure (\<lambda>(h, y, data). length data)") auto

declare ghash_loop.simps [simp del]

definition ghash :: "int \<Rightarrow> bytes \<Rightarrow> int" where
  "ghash h data = ghash_loop h 0 data"

definition inc32 :: "bytes \<Rightarrow> bytes" where
  "inc32 counter = take 12 counter @ be_bytes 4 ((from_bytes (drop 12 counter) + 1) AND 0xFFFFFFFF)"

function gctr :: "bytes list \<Rightarrow> bytes \<Rightarrow> bytes \<Rightarrow> bytes result" where
  "gctr rks cb data =
     (if data = [] then Inr []
      else bind_r (aes_encrypt_block rks cb) (\<lambda>ks.
           bind_r (gctr rks (inc32 cb) (drop 16 data)) (\<lambda>rest.
           Inr (map2 (XOR) (take 16 data) ks @ rest))))"
  by pat_completeness auto
termination
  by (relation "measure (\<lambda>(rks, cb, data). length data)") auto

declare gctr.simps [simp del]

definition pad16 :: "bytes \<Rightarrow> bytes" where
  "pad16 bs = bs @ zero_bytes ((16 - length bs mod 16) mod 16)"

definition hash_key :: "bytes list \<Rightarrow> int result" where
  "hash_key rks = bind_r (aes_encrypt_block rks (zero_bytes 16)) (\<lambda>b. Inr (from_bytes b))"

definition j0 :: "bytes list \<Rightarrow> bytes \<Rightarrow> bytes result" where
  "j0 rks nonce =
     (if length nonce = 12 then Inr (nonce @ [0, 0, 0, 1])
      else bind_r (hash_key rks) (\<lambda>h.
           bind_r (to_bytes 8 (int (length nonce) * 8)) (\<lambda>bitlen.
           to_bytes 16 (ghash h (pad16 nonce @ zero_bytes 8 @ bitlen)))))"

text \<open>The tag that both directions compute: hash key, lengths, padded data, and the encrypted first counter block.\<close>

definition gcm_tag :: "bytes list \<Rightarrow> bytes \<Rightarrow> bytes \<Rightarrow> bytes \<Rightarrow> bytes result" where
  "gcm_tag rks icb aad ciphertext =
     bind_r (hash_key rks) (\<lambda>h.
     bind_r (to_bytes 8 (int (length aad) * 8)) (\<lambda>la.
     bind_r (to_bytes 8 (int (length ciphertext) * 8)) (\<lambda>lc.
     bind_r (aes_encrypt_block rks icb) (\<lambda>e.
     to_bytes 16 (ghash h (pad16 aad @ pad16 ciphertext @ la @ lc) XOR from_bytes e)))))"

definition fallback_aesgcm_encrypt :: "bytes \<Rightarrow> bytes \<Rightarrow> bytes \<Rightarrow> bytes \<Rightarrow> bytes result" where
  "fallback_aesgcm_encrypt key nonce plaintext aad =
     bind_r (expand_key key) (\<lambda>rks.
     bind_r (j0 rks nonce) (\<lambda>icb.
     bind_r (gctr rks (inc32 icb) plaintext) (\<lambda>ciphertext.
     bind_r (gcm_tag rks icb aad ciphertext) (\<lambda>tag.
     Inr (ciphertext @ tag)))))"

definition fallback_aesgcm_decrypt :: "bytes \<Rightarrow> bytes \<Rightarrow> bytes \<Rightarrow> bytes \<Rightarrow> bytes result" where
  "fallback_aesgcm_decrypt key nonce blob aad =
     bind_r (ensure (length blob \<ge> 16) (ContractError ''ciphertext too short for GCM tag'')) (\<lambda>_.
     bind_r (expand_key key) (\<lambda>rks.
     bind_r (j0 rks nonce) (\<lambda>icb.
     bind_r (gcm_tag rks icb aad (take (length blob - 16) blob)) (\<lambda>expected.
     bind_r (ensure (expected = drop (length blob - 16) blob) (ContractError ''AES-GCM authentication failed'')) (\<lambda>_.
     gctr rks (inc32 icb) (take (length blob - 16) blob))))))"

section \<open>The ring\<close>

lemma gf_step_eq: "gf_step v = drop_bit 1 v XOR (if odd v then gcm_poly else 0)"
  by (simp add: gf_step_def odd_and_1)

lemma gf_step_xor: "gf_step (a XOR b) = gf_step a XOR gf_step b"
  by (cases "odd a"; cases "odd b") (simp_all add: gf_step_eq drop_bit_xor even_xor_iff ac_simps xor_left_self)

lemma gf_steps_xor: "(gf_step ^^ i) (a XOR b) = (gf_step ^^ i) a XOR (gf_step ^^ i) b"
  by (induction i) (simp_all add: gf_step_xor)

lemma gf_step_0 [simp]: "gf_step 0 = 0"
  by (simp add: gf_step_eq)

lemma gf_steps_0 [simp]: "(gf_step ^^ i) 0 = 0"
  by (induction i) simp_all

text \<open>Exclusive-or sums, and the polynomial \<open>y\<close> in the step applied to a vector.\<close>

primrec xsum :: "nat \<Rightarrow> (nat \<Rightarrow> int) \<Rightarrow> int" where
  "xsum 0 f = 0"
| "xsum (Suc n) f = xsum n f XOR f n"

definition scale :: "bool \<Rightarrow> int \<Rightarrow> int" where
  "scale b v = (if b then v else 0)"

definition gf_eval :: "int \<Rightarrow> int \<Rightarrow> int" where
  "gf_eval y v = xsum 128 (\<lambda>i. scale (bit y (127 - i)) ((gf_step ^^ i) v))"

lemma xsum_cong: "(\<And>i. i < n \<Longrightarrow> f i = g i) \<Longrightarrow> xsum n f = xsum n g"
  by (induction n) simp_all

lemma xsum_xor: "xsum n (\<lambda>i. f i XOR g i) = xsum n f XOR xsum n g"
  by (induction n) (simp_all add: ac_simps)

lemma xsum_shift: "xsum (Suc n) f = f 0 XOR xsum n (\<lambda>i. f (Suc i))"
  by (induction n) (simp_all add: ac_simps)

lemma xsum_rev: "xsum n f = xsum n (\<lambda>i. f (n - 1 - i))"
proof (induction n arbitrary: f)
  case (Suc n)
  have "xsum (Suc n) (\<lambda>i. f (n - i)) = f n XOR xsum n (\<lambda>i. f (n - Suc i))" by (subst xsum_shift) simp
  also have "... = f n XOR xsum n f" using Suc.IH [of f] by simp
  finally show ?case by (simp add: ac_simps)
qed simp

lemma xsum_linear:
  assumes "\<And>a b. L (a XOR b) = L a XOR L b" and "L 0 = 0"
  shows "L (xsum n f) = xsum n (\<lambda>i. L (f i))"
  by (induction n) (simp_all add: assms)

lemma scale_xor: "scale b (u XOR v) = scale b u XOR scale b v"
  by (simp add: scale_def)

lemma scale_neq: "scale (b \<noteq> c) v = scale b v XOR scale c v"
  by (simp add: scale_def)

lemma gf_loop_eq: "gf_loop n v y z = z XOR xsum n (\<lambda>i. scale (bit y (n - 1 - i)) ((gf_step ^^ i) v))"
proof (induction n arbitrary: v z)
  case (Suc n)
  have "(drop_bit n y AND 1 \<noteq> 0) = bit y n" by (simp add: odd_and_1 bit_iff_odd_drop_bit)
  then have "gf_loop (Suc n) v y z = (z XOR scale (bit y n) v) XOR xsum n (\<lambda>i. scale (bit y (n - 1 - i)) ((gf_step ^^ i) (gf_step v)))"
    using Suc.IH by (simp add: scale_def)
  also have "... = z XOR xsum (Suc n) (\<lambda>i. scale (bit y (n - i)) ((gf_step ^^ i) v))"
    by (subst xsum_shift) (simp add: ac_simps funpow_swap1)
  finally show ?case by simp
qed simp

lemma gf128_mul_eval: "gf128_mul x y = gf_eval y x"
  by (simp add: gf128_mul_def gf_loop_eq gf_eval_def)

lemma gf_eval_xor: "gf_eval y (a XOR b) = gf_eval y a XOR gf_eval y b"
  by (simp add: gf_eval_def gf_steps_xor scale_xor xsum_xor)

lemma gf_eval_xor_left: "gf_eval (y XOR z) v = gf_eval y v XOR gf_eval z v"
  unfolding gf_eval_def bit_xor_iff scale_neq xsum_xor ..

lemma xsum_zero: "xsum n (\<lambda>i. 0) = 0"
  by (induction n) simp_all

lemma gf_eval_0 [simp]: "gf_eval y 0 = 0"
  by (simp add: gf_eval_def scale_def xsum_zero)

lemma scale_linear:
  assumes "L 0 = 0"
  shows "L (scale b v) = scale b (L v)"
  by (simp add: scale_def assms)

lemma gf_eval_steps: "(gf_step ^^ i) (gf_eval y v) = gf_eval y ((gf_step ^^ i) v)"
proof -
  have "(gf_step ^^ i) (gf_eval y v) = xsum 128 (\<lambda>j. scale (bit y (127 - j)) ((gf_step ^^ i) ((gf_step ^^ j) v)))"
    unfolding gf_eval_def by (simp add: xsum_linear [of "gf_step ^^ i"] gf_steps_xor scale_linear [of "gf_step ^^ i"])
  moreover have "(gf_step ^^ i) ((gf_step ^^ j) v) = (gf_step ^^ j) ((gf_step ^^ i) v)" for j
    by (metis add.commute comp_apply funpow_add)
  ultimately show ?thesis by (simp add: gf_eval_def)
qed

lemma gf_eval_commute: "gf_eval y (gf_eval x v) = gf_eval x (gf_eval y v)"
proof -
  have "gf_eval y (gf_eval x v) = xsum 128 (\<lambda>i. scale (bit y (127 - i)) (gf_eval x ((gf_step ^^ i) v)))"
    unfolding gf_eval_def [of y "gf_eval x v"] by (simp add: gf_eval_steps)
  also have "... = gf_eval x (gf_eval y v)"
    unfolding gf_eval_def [of y v] by (simp add: xsum_linear [of "gf_eval x"] gf_eval_xor scale_linear [of "gf_eval x"])
  finally show ?thesis .
qed

text \<open>The bits of a vector are its coordinates with respect to the steps of \<open>2 ^ 127\<close>.\<close>

definition is_gf :: "int \<Rightarrow> bool" where
  "is_gf x = (0 \<le> x \<and> x < 2 ^ 128)"

definition gf_one :: int where
  "gf_one = 2 ^ 127"

lemma gf_steps_unit: "i \<le> 127 \<Longrightarrow> (gf_step ^^ i) gf_one = 2 ^ (127 - i)"
proof (induction i)
  case 0
  then show ?case by (simp add: gf_one_def)
next
  case (Suc i)
  have e: "127 - i = Suc (127 - Suc i)" using Suc.prems by simp
  have "(gf_step ^^ Suc i) gf_one = gf_step (2 ^ (127 - i))" using Suc by simp
  also have "... = 2 ^ (127 - Suc i)" unfolding e by (simp add: gf_step_eq drop_bit_eq_div)
  finally show ?case .
qed

lemma xsum_bits: "xsum n (\<lambda>j. scale (bit x j) (2 ^ j)) = take_bit n x"
proof (induction n)
  case (Suc n)
  have "take_bit n x XOR scale (bit x n) (2 ^ n) = take_bit (Suc n) x"
    by (rule bit_eqI) (auto simp: bit_simps scale_def less_Suc_eq)
  with Suc show ?case by simp
qed simp

lemma gf_eval_unit: "is_gf x \<Longrightarrow> gf_eval x gf_one = x"
proof -
  assume x: "is_gf x"
  have "gf_eval x gf_one = xsum 128 (\<lambda>i. scale (bit x (128 - 1 - i)) (2 ^ (128 - 1 - i)))"
    unfolding gf_eval_def by (rule xsum_cong) (simp add: gf_steps_unit)
  also have "... = xsum 128 (\<lambda>i. scale (bit x i) (2 ^ i))" by (rule xsum_rev [symmetric])
  also have "... = x" using x by (simp only: xsum_bits) (simp add: is_gf_def take_bit_int_eq_self_iff)
  finally show ?thesis .
qed

lemma is_gf_take_bit: "is_gf x \<longleftrightarrow> take_bit 128 x = x"
  by (simp add: is_gf_def take_bit_int_eq_self_iff)

lemma is_gf_xor [simp]: "is_gf a \<Longrightarrow> is_gf b \<Longrightarrow> is_gf (a XOR b)"
  by (simp add: is_gf_take_bit take_bit_xor)

lemma is_gf_step: "is_gf v \<Longrightarrow> is_gf (gf_step v)"
proof -
  assume "is_gf v"
  then have "is_gf (drop_bit 1 v)" by (auto simp: is_gf_def drop_bit_eq_div)
  moreover have "is_gf (if odd v then gcm_poly else 0)" by (simp add: is_gf_def gcm_poly_def)
  ultimately show "is_gf (gf_step v)" unfolding gf_step_eq by (rule is_gf_xor)
qed

lemma is_gf_mul: "is_gf x \<Longrightarrow> is_gf (gf128_mul x y)"
proof -
  assume x: "is_gf x"
  have steps: "is_gf ((gf_step ^^ i) x)" for i by (induction i) (simp_all add: x is_gf_step)
  have "is_gf (xsum n (\<lambda>i. scale (bit y (127 - i)) ((gf_step ^^ i) x)))" for n
    by (induction n) (auto simp: scale_def steps, simp_all add: is_gf_def)
  then show "is_gf (gf128_mul x y)" by (simp add: gf128_mul_eval gf_eval_def)
qed

text \<open>C16. \<open>_gf128_mul\<close> is the multiplication of GHASH. On 128-bit values it is commutative and associative, distributes over
  exclusive or, stays within 128 bits and has the unit \<open>2 ^ 127\<close>. Multiplying by the indeterminate (\<open>2 ^ 126\<close>) is one step of
  the shift register, and the 128th power of the indeterminate, one step after the 127 shifts that lead to 1, is
  the reduction constant, the reflected form of \<open>1 + x + x^2 + x^7\<close>: the ring is GF(2)[x] modulo the polynomial of SP 800-38D.\<close>

theorem gf128_mul_ring:
  assumes "is_gf x" and "is_gf y" and "is_gf z"
  shows "gf128_mul x y = gf128_mul y x \<and> gf128_mul (gf128_mul x y) z = gf128_mul x (gf128_mul y z)
    \<and> gf128_mul (x XOR y) z = gf128_mul x z XOR gf128_mul y z \<and> gf128_mul x gf_one = x \<and> is_gf (gf128_mul x y)
    \<and> gf128_mul x (2 ^ 126) = gf_step x \<and> (gf_step ^^ 127) gf_one = 1 \<and> gf_step 1 = gf_one XOR 2 ^ 126 XOR 2 ^ 125 XOR 2 ^ 120"
proof -
  have comm: "gf128_mul a b = gf128_mul b a" if "is_gf a" "is_gf b" for a b
    using gf_eval_commute [of b a gf_one] that by (simp add: gf128_mul_eval gf_eval_unit)
  have u: "is_gf gf_one" "is_gf (2 ^ 126)" by (simp_all add: is_gf_def gf_one_def)
  have assoc: "gf128_mul (gf128_mul x y) z = gf128_mul x (gf128_mul y z)"
    using comm [OF assms(1) is_gf_mul [OF assms(2), of z]] comm [OF assms(1,2)] gf_eval_commute [of z x y] by (simp add: gf128_mul_eval)
  have shift: "gf128_mul x (2 ^ 126) = gf_step x"
  proof -
    have "gf128_mul x (2 ^ 126) = gf_eval x (gf_step gf_one)"
      using comm [OF assms(1) u(2)] gf_steps_unit [of 1] by (simp add: gf128_mul_eval)
    also have "... = gf_step x" using gf_eval_steps [of 1 x gf_one] gf_eval_unit [OF assms(1)] by simp
    finally show ?thesis .
  qed
  have unit: "gf128_mul x gf_one = x" using comm [OF assms(1) u(1)] gf_eval_unit [OF assms(1)] by (simp add: gf128_mul_eval)
  have poly: "(gf_step ^^ 127) gf_one = 1" "gf_step 1 = gf_one XOR 2 ^ 126 XOR 2 ^ 125 XOR 2 ^ 120"
    using gf_steps_unit [of 127] by (simp_all add: gf_step_eq gcm_poly_def gf_one_def)
  show ?thesis using comm [OF assms(1,2)] assoc shift unit poly is_gf_mul [OF assms(1), of y]
    by (simp add: gf128_mul_eval gf_eval_xor)
qed

theorem gf128_mul_ring_witness:
  "gf128_mul (gf128_mul 3 5) 7 = gf128_mul 3 (gf128_mul 5 7) \<and> gf128_mul 3 5 = gf128_mul 5 3 \<and> gf128_mul 3 gf_one = 3"
proof -
  have "is_gf 3" "is_gf 5" "is_gf 7" by (simp_all add: is_gf_def)
  from gf128_mul_ring [OF this] show ?thesis by blast
qed

section \<open>Bytes and integers\<close>

lemma foldl_bytes: "foldl (\<lambda>n b. n * 256 + b) m bs = m * 256 ^ length bs + from_bytes bs"
proof (induction bs arbitrary: m)
  case (Cons b bs)
  have "foldl (\<lambda>n b. n * 256 + b) m (b # bs) = (m * 256 + b) * 256 ^ length bs + from_bytes bs" using Cons [of "m * 256 + b"] by simp
  moreover have "from_bytes (b # bs) = b * 256 ^ length bs + from_bytes bs" using Cons [of b] by (simp add: from_bytes_def)
  ultimately show ?case by (simp add: algebra_simps)
qed (simp add: from_bytes_def)

lemma from_bytes_append: "from_bytes (xs @ ys) = from_bytes xs * 256 ^ length ys + from_bytes ys"
  using foldl_bytes [of "from_bytes xs" ys] by (simp add: from_bytes_def)

lemma from_bytes_bounds: "is_bytes bs \<Longrightarrow> 0 \<le> from_bytes bs \<and> from_bytes bs < 256 ^ length bs"
proof (induction bs rule: rev_induct)
  case Nil
  then show ?case by (simp add: from_bytes_def)
next
  case (snoc b bs)
  then have "0 \<le> from_bytes bs" "from_bytes bs + 1 \<le> 256 ^ length bs" "0 \<le> b" "b < 256" by (auto simp: is_byte_def)
  moreover have "from_bytes (bs @ [b]) = from_bytes bs * 256 + b" by (simp add: from_bytes_append from_bytes_def)
  ultimately show ?case by simp
qed

lemma length_be_bytes [simp]: "length (be_bytes k n) = k"
  by (simp add: be_bytes_def)

lemma is_bytes_be [simp]: "is_bytes (be_bytes k n)"
  by (simp add: be_bytes_def is_bytes_def list_all_iff is_byte_def)

lemma is_bytes_zero [simp]: "is_bytes (zero_bytes k)"
  by (simp add: zero_bytes_def is_bytes_def list_all_iff is_byte_def)

lemma length_zero_bytes [simp]: "length (zero_bytes k) = k"
  by (simp add: zero_bytes_def)

lemma be_bytes_Suc: "be_bytes (Suc k) n = be_bytes k (n div 256) @ [n mod 256]"
proof -
  have "n div 256 ^ (k - i) = n div 256 div 256 ^ (k - 1 - i)" if "i < k" for i
  proof -
    have "256 ^ (k - i) = (256 :: int) * 256 ^ (k - 1 - i)" using that by (simp flip: power_Suc add: Suc_diff_Suc)
    then show ?thesis by (simp add: zdiv_zmult2_eq)
  qed
  then show ?thesis by (simp add: be_bytes_def)
qed

lemma from_be_bytes: "from_bytes (be_bytes k n) = n mod 256 ^ k"
proof (induction k arbitrary: n)
  case (Suc k)
  have "from_bytes (be_bytes (Suc k) n) = (n div 256) mod 256 ^ k * 256 + n mod 256"
    using Suc [of "n div 256"] by (simp add: be_bytes_Suc from_bytes_append from_bytes_def)
  also have "... = n mod (256 * 256 ^ k)" by (simp add: zmod_zmult2_eq)
  finally show ?case by simp
qed (simp add: be_bytes_def from_bytes_def)

lemma be_from_bytes: "is_bytes bs \<Longrightarrow> be_bytes (length bs) (from_bytes bs) = bs"
proof (induction bs rule: rev_induct)
  case (snoc b bs)
  have "from_bytes (bs @ [b]) = from_bytes bs * 256 + b" by (simp add: from_bytes_append from_bytes_def)
  moreover have "0 \<le> b" "b < 256" using snoc.prems by (simp_all add: is_byte_def)
  ultimately show ?case using snoc by (simp add: be_bytes_Suc)
qed (simp add: be_bytes_def)

lemma to_bytes_ok: "0 \<le> n \<Longrightarrow> n < 256 ^ k \<Longrightarrow> to_bytes k n = Inr (be_bytes k n)"
  by (simp add: to_bytes_def)

lemma to_bytes_length: "to_bytes k n = Inr bs \<Longrightarrow> length bs = k"
  by (auto simp: to_bytes_def split: if_splits)

lemma power_256: "(256 :: int) ^ 16 = 2 ^ 128"
  by simp

lemma from_block_gf: "is_block b \<Longrightarrow> is_gf (from_bytes b)"
  using from_bytes_bounds [of b] unfolding is_block_def is_gf_def power_256 [symmetric] by simp

section \<open>Encryption and decryption\<close>

lemma aes_encrypt_length: "aes_encrypt_block rks b = Inr ks \<Longrightarrow> length ks = 16"
  by (auto simp: aes_encrypt_block_def result_simps add_round_key_def)

lemma map2_xor_twice: "length d \<le> length ks \<Longrightarrow> map2 (XOR) (map2 (XOR) d ks) ks = (d :: bytes)"
  by (rule nth_equalityI) (auto simp: xor_cancel)

text \<open>Counter mode is its own inverse.\<close>

lemma gctr_involution: "gctr rks cb data = Inr out \<Longrightarrow> length out = length data \<and> gctr rks cb out = Inr data"
proof (induction rks cb data arbitrary: out rule: gctr.induct)
  case (1 rks cb data)
  show ?case
  proof (cases "data = []")
    case True
    then show ?thesis using "1.prems" by (simp add: gctr.simps)
  next
    case False
    then obtain ks rest where k: "aes_encrypt_block rks cb = Inr ks" "gctr rks (inc32 cb) (drop 16 data) = Inr rest"
      "out = map2 (XOR) (take 16 data) ks @ rest"
      using "1.prems" by (subst (asm) gctr.simps) (auto simp: result_simps)
    have ks: "length ks = 16" by (rule aes_encrypt_length [OF k(1)])
    have IH: "length rest = length data - 16" "gctr rks (inc32 cb) rest = Inr (drop 16 data)"
      using "1.IH" [OF False k(1) k(2)] by simp_all
    have len: "length (map2 (XOR) (take 16 data) ks) = min 16 (length data)" using ks by simp
    have split: "take 16 out = map2 (XOR) (take 16 data) ks \<and> drop 16 out = rest"
    proof (cases "length data \<le> 16")
      case True
      then show ?thesis using IH(1) len k(3) by simp
    next
      case False
      then show ?thesis using len k(3) by simp
    qed
    have "length out = length data" using IH(1) len k(3) by simp
    then have "out \<noteq> []" using False by auto
    then have "gctr rks cb out = Inr (map2 (XOR) (map2 (XOR) (take 16 data) ks) ks @ drop 16 data)"
      using split k(1) IH(2) by (subst gctr.simps) simp
    also have "... = Inr data" using map2_xor_twice [of "take 16 data" ks] ks by simp
    finally show ?thesis using IH(1) len k(3) by simp
  qed
qed

text \<open>Decryption returns a plaintext exactly for its encryption.\<close>

lemma gcm_decrypt_iff:
  "fallback_aesgcm_decrypt key nonce blob aad = Inr pt \<longleftrightarrow> fallback_aesgcm_encrypt key nonce pt aad = Inr blob" (is "?d = _ \<longleftrightarrow> ?e = _")
proof
  assume "?d = Inr pt"
  then obtain rks icb where "length blob \<ge> 16" "expand_key key = Inr rks" "j0 rks nonce = Inr icb"
    "gcm_tag rks icb aad (take (length blob - 16) blob) = Inr (drop (length blob - 16) blob)"
    "gctr rks (inc32 icb) (take (length blob - 16) blob) = Inr pt"
    by (auto simp: fallback_aesgcm_decrypt_def result_simps)
  then show "?e = Inr blob" using gctr_involution [of rks "inc32 icb" "take (length blob - 16) blob" pt]
    by (simp add: fallback_aesgcm_encrypt_def)
next
  assume "?e = Inr blob"
  then obtain rks icb ct tag where e: "expand_key key = Inr rks" "j0 rks nonce = Inr icb" "gctr rks (inc32 icb) pt = Inr ct"
    "gcm_tag rks icb aad ct = Inr tag" "blob = ct @ tag"
    by (auto simp: fallback_aesgcm_encrypt_def result_simps)
  have "length tag = 16" using e(4) by (auto simp: gcm_tag_def result_simps dest: to_bytes_length)
  then show "?d = Inr pt" using e gctr_involution [OF e(3)] by (simp add: fallback_aesgcm_decrypt_def bind_ensure)
qed

lemma inc32_block: "is_block cb \<Longrightarrow> is_block (inc32 cb)"
  by (simp add: is_block_def inc32_def)

lemma gctr_ok:
  assumes "round_keys_ok rks"
  shows "is_block cb \<Longrightarrow> is_bytes data \<Longrightarrow> \<exists>out. gctr rks cb data = Inr out \<and> is_bytes out"
proof (induction "length data" arbitrary: cb data rule: less_induct)
  case less
  show ?case
  proof (cases "data = []")
    case True
    then show ?thesis by (simp add: gctr.simps)
  next
    case False
    obtain ks where ks: "aes_encrypt_block rks cb = Inr ks" "is_block ks" by (rule aes_encrypt_block_ok [OF assms less.prems(1)])
    obtain rest where rest: "gctr rks (inc32 cb) (drop 16 data) = Inr rest" "is_bytes rest"
      using less.hyps [of "drop 16 data" "inc32 cb"] False less.prems inc32_block by auto
    have "is_bytes (map2 (XOR) (take 16 data) ks)"
      using less.prems(2) ks(2) by (auto simp: is_bytes_def is_block_def list_all_length)
    then show ?thesis using False ks(1) rest by (subst gctr.simps) simp
  qed
qed

lemma ghash_gf:
  assumes "is_bytes data" and "is_gf y"
  shows "is_gf (ghash_loop h y data)"
  using assms
proof (induction h y data rule: ghash_loop.induct)
  case (1 h y data)
  have "is_block (take 16 data @ zero_bytes (16 - length (take 16 data)))" using "1.prems"(1) by (simp add: is_block_def)
  then have "is_gf (gf128_mul (y XOR ghash_block (take 16 data)) h)"
    using "1.prems"(2) by (intro is_gf_mul is_gf_xor) (simp_all only: ghash_block_def from_block_gf)
  then show ?case using 1 by (subst ghash_loop.simps) auto
qed

lemma to_bytes_gf: "is_gf n \<Longrightarrow> to_bytes 16 n = Inr (be_bytes 16 n)"
  unfolding is_gf_def power_256 [symmetric] by (intro to_bytes_ok) auto

lemma to_bytes_length_field: "int n * 8 < 2 ^ 64 \<Longrightarrow> to_bytes 8 (int n * 8) = Inr (be_bytes 8 (int n * 8))"
  by (intro to_bytes_ok) auto

lemma zero_block: "is_block (zero_bytes 16)"
  by (simp add: is_block_def)

lemma hash_key_ok:
  assumes "round_keys_ok rks"
  obtains h where "hash_key rks = Inr h"
  using aes_encrypt_block_ok [OF assms zero_block] by (metis bind_r.simps(2) hash_key_def)

lemma is_bytes_pad [simp]: "is_bytes (pad16 bs) \<longleftrightarrow> is_bytes bs"
  by (simp add: pad16_def)

lemma ghash_is_gf: "is_bytes data \<Longrightarrow> is_gf (ghash h data)"
  unfolding ghash_def by (rule ghash_gf) (simp_all add: is_gf_def)

lemma j0_ok:
  assumes "round_keys_ok rks" and "is_bytes nonce" and "int (length nonce) * 8 < 2 ^ 64"
  obtains icb where "j0 rks nonce = Inr icb" "is_block icb"
proof (cases "length nonce = 12")
  case True
  then show ?thesis using assms(2) that [of "nonce @ [0, 0, 0, 1]"] by (simp add: j0_def is_block_def is_byte_def)
next
  case False
  obtain h where h: "hash_key rks = Inr h" using hash_key_ok [OF assms(1)] by blast
  let ?s = "ghash h (pad16 nonce @ zero_bytes 8 @ be_bytes 8 (int (length nonce) * 8))"
  have "is_gf ?s" using assms(2) by (intro ghash_is_gf) simp
  then have "j0 rks nonce = Inr (be_bytes 16 ?s)" using False h to_bytes_length_field [OF assms(3)] by (simp add: j0_def to_bytes_gf)
  then show ?thesis using that by (simp add: is_block_def)
qed

lemma gcm_tag_ok:
  assumes "round_keys_ok rks" and "is_block icb" and "is_bytes aad" and "is_bytes ct"
    and "int (length aad) * 8 < 2 ^ 64" and "int (length ct) * 8 < 2 ^ 64"
  obtains tag where "gcm_tag rks icb aad ct = Inr tag" "is_bytes tag" "length tag = 16"
proof -
  obtain h where h: "hash_key rks = Inr h" using hash_key_ok [OF assms(1)] by blast
  obtain e where e: "aes_encrypt_block rks icb = Inr e" "is_block e" by (rule aes_encrypt_block_ok [OF assms(1,2)])
  let ?s = "ghash h (pad16 aad @ pad16 ct @ be_bytes 8 (int (length aad) * 8) @ be_bytes 8 (int (length ct) * 8)) XOR from_bytes e"
  have "is_gf ?s" using assms(3,4) e(2) by (intro is_gf_xor ghash_is_gf from_block_gf) simp_all
  then have "gcm_tag rks icb aad ct = Inr (be_bytes 16 ?s)"
    using h e(1) to_bytes_length_field [OF assms(5)] to_bytes_length_field [OF assms(6)] by (simp add: gcm_tag_def to_bytes_gf)
  then show ?thesis using that by simp
qed

lemma gcm_encrypt_ok:
  assumes "is_bytes key" and "length key div 4 \<in> {4, 6, 8}" and "is_bytes nonce" and "is_bytes pt" and "is_bytes aad"
    and "int (length nonce) * 8 < 2 ^ 64" and "int (length pt) * 8 < 2 ^ 64" and "int (length aad) * 8 < 2 ^ 64"
  obtains blob where "fallback_aesgcm_encrypt key nonce pt aad = Inr blob" "is_bytes blob" "length blob = length pt + 16"
proof -
  obtain rks where rks: "expand_key key = Inr rks" "round_keys_ok rks" using expand_key_ok [OF assms(1,2)] by blast
  obtain icb where icb: "j0 rks nonce = Inr icb" "is_block icb" by (rule j0_ok [OF rks(2) assms(3,6)])
  obtain ct where ct: "gctr rks (inc32 icb) pt = Inr ct" "is_bytes ct" using gctr_ok [OF rks(2) inc32_block [OF icb(2)] assms(4)] by blast
  have len: "length ct = length pt" using gctr_involution [OF ct(1)] by simp
  obtain tag where tag: "gcm_tag rks icb aad ct = Inr tag" "is_bytes tag" "length tag = 16"
    by (rule gcm_tag_ok [OF rks(2) icb(2) assms(5) ct(2) assms(8)]) (use assms(7) len in simp)
  have "fallback_aesgcm_encrypt key nonce pt aad = Inr (ct @ tag)" using rks(1) icb(1) ct(1) tag(1) by (simp add: fallback_aesgcm_encrypt_def)
  then show ?thesis using that ct(2) tag(2,3) len by simp
qed

text \<open>C15. The fallback encrypts and decrypts. For every key that the expansion accepts and byte strings below the length limit of
  the format, encryption succeeds, adds 16 bytes, and decryption with the same nonce and associated data returns the
  plaintext; and decryption of any text succeeds exactly if that text is the encryption of the result, so everything else is
  refused.\<close>

theorem gcm_round_trip:
  assumes "is_bytes key" and "length key div 4 \<in> {4, 6, 8}" and "is_bytes nonce" and "is_bytes pt" and "is_bytes aad"
    and "int (length nonce) * 8 < 2 ^ 64" and "int (length pt) * 8 < 2 ^ 64" and "int (length aad) * 8 < 2 ^ 64"
  shows "(\<exists>blob. fallback_aesgcm_encrypt key nonce pt aad = Inr blob \<and> is_bytes blob \<and> length blob = length pt + 16
      \<and> fallback_aesgcm_decrypt key nonce blob aad = Inr pt)
    \<and> (\<forall>blob pt'. fallback_aesgcm_decrypt key nonce blob aad = Inr pt' \<longleftrightarrow> fallback_aesgcm_encrypt key nonce pt' aad = Inr blob)"
proof -
  obtain blob where "fallback_aesgcm_encrypt key nonce pt aad = Inr blob" "is_bytes blob" "length blob = length pt + 16"
    by (rule gcm_encrypt_ok [OF assms])
  then show ?thesis using gcm_decrypt_iff by blast
qed

theorem gcm_round_trip_witness:
  "\<exists>blob. fallback_aesgcm_encrypt [0..15] [0..11] [1, 2, 3] [] = Inr blob \<and> length blob = 19
     \<and> fallback_aesgcm_decrypt [0..15] [0..11] blob [] = Inr [1, 2, 3]"
proof -
  have "is_bytes [0..15]" "is_bytes [0..11]" "is_bytes [1, 2, 3]" by (simp_all add: is_bytes_def list_all_iff is_byte_def)
  then show ?thesis using gcm_round_trip [of "[0..15]" "[0..11]" "[1, 2, 3]" "[]"] by auto
qed

section \<open>The key stream\<close>

lemma and_mask_32: "n AND 0xFFFFFFFF = (n :: int) mod 2 ^ 32"
proof -
  have "n AND mask 32 = n mod 2 ^ 32" by (simp add: take_bit_eq_mod flip: take_bit_eq_mask)
  then show ?thesis by (simp add: mask_eq_exp_minus_1)
qed

lemma inc32_parts:
  "length c = 16 \<Longrightarrow> take 12 (inc32 c) = take 12 c \<and> drop 12 (inc32 c) = be_bytes 4 ((from_bytes (drop 12 c) + 1) AND 0xFFFFFFFF)"
  by (simp add: inc32_def)

text \<open>The counter after \<open>i\<close> increments.\<close>

lemma counter_after:
  assumes "is_block cb"
  shows "is_block ((inc32 ^^ i) cb) \<and> take 12 ((inc32 ^^ i) cb) = take 12 cb
    \<and> from_bytes (drop 12 ((inc32 ^^ i) cb)) = (from_bytes (drop 12 cb) + int i) mod 2 ^ 32"
proof (induction i)
  case 0
  have "is_bytes (drop 12 cb)" "length (drop 12 cb) = 4" using assms by (simp_all add: is_block_def)
  then show ?case using from_bytes_bounds [of "drop 12 cb"] assms by simp
next
  case (Suc i)
  let ?c = "(inc32 ^^ i) cb"
  have c: "is_block ?c" using Suc by simp
  then have "length ?c = 16" by (simp add: is_block_def)
  note parts = inc32_parts [OF this]
  have "from_bytes (be_bytes 4 ((from_bytes (drop 12 ?c) + 1) AND 0xFFFFFFFF)) = (from_bytes (drop 12 cb) + int (Suc i)) mod 2 ^ 32"
    using Suc unfolding from_be_bytes and_mask_32 by (simp add: mod_simps ac_simps)
  then show ?case using Suc parts inc32_block [OF c] unfolding funpow.simps comp_apply by metis
qed

text \<open>Within \<open>2 ^ 32\<close> blocks no key stream block repeats; after \<open>2 ^ 32\<close> blocks the counter is back at its start. The fallback
  does not enforce the limit of \<open>2 ^ 32 - 2\<close> blocks for a plaintext.\<close>

lemma keystream_distinct:
  assumes "round_keys_ok rks" and "is_block cb" and "i < j" and "j < 2 ^ 32"
  shows "aes_encrypt_block rks ((inc32 ^^ i) cb) \<noteq> aes_encrypt_block rks ((inc32 ^^ j) cb)"
proof
  assume "aes_encrypt_block rks ((inc32 ^^ i) cb) = aes_encrypt_block rks ((inc32 ^^ j) cb)"
  then have "(inc32 ^^ i) cb = (inc32 ^^ j) cb"
    by (rule aes_encrypt_block_inj [OF assms(1), rotated 2]) (simp_all add: counter_after assms(2))
  then have "(from_bytes (drop 12 cb) + int i) mod 2 ^ 32 = (from_bytes (drop 12 cb) + int j) mod 2 ^ 32"
    using counter_after [OF assms(2), of i] counter_after [OF assms(2), of j] by simp
  then have "(2 :: int) ^ 32 dvd int j - int i" by (metis add_diff_cancel_left mod_eq_dvd_iff)
  then show False using assms(3,4) zdvd_imp_le [of "2 ^ 32" "int j - int i"] by simp
qed

lemma counter_wraps:
  assumes "is_block cb"
  shows "(inc32 ^^ (2 ^ 32)) cb = cb"
proof -
  define c where "c = (inc32 ^^ (2 ^ 32)) cb"
  have c: "is_block c" "take 12 c = take 12 cb" "from_bytes (drop 12 c) = (from_bytes (drop 12 cb) + int (2 ^ 32)) mod 2 ^ 32"
    unfolding c_def using counter_after [OF assms, of "2 ^ 32"] by blast+
  have low: "drop 12 b = be_bytes 4 (from_bytes (drop 12 b))" "from_bytes (drop 12 b) mod 2 ^ 32 = from_bytes (drop 12 b)" if "is_block b" for b
    using that be_from_bytes [of "drop 12 b"] from_bytes_bounds [of "drop 12 b"] by (simp_all add: is_block_def)
  have "from_bytes (drop 12 c) = from_bytes (drop 12 cb)" using c(3) low(2) [OF assms] by simp
  then have "drop 12 c = drop 12 cb" using low(1) [OF c(1)] low(1) [OF assms] by simp
  with c(2) have "c = cb" by (metis append_take_drop_id)
  then show ?thesis by (simp add: c_def)
qed

end
