(* ===== verification/Crypto_Provider.thy ===== *)
theory Crypto_Provider
  imports Gcm Core
begin

text \<open>
  Authenticated encryption, key wrapping and backup envelopes, \<open>src/residual/crypto/provider.py\<close>.

  \<^item> The \<open>cryptography\<close> package is the parameter \<open>backend\<close>: \<open>None\<close> when it is not installed, otherwise its two
    operations, where decryption returns \<open>None\<close> when it raises. Its contract is \<open>backend_ok\<close>. HMAC-SHA-256 is a parameter
    with the named hypothesis \<open>hmac_sha256\<close>. Random bytes are arguments.
  \<^item> Interfaces: \<open>aead\<close> for sealing and opening, \<open>key_service\<close> for a KMS, \<open>envelope\<close> for their combination, in which the round
    trip of a backup is proved once. They are interpreted on the functions of the module.
  \<^item> Shown: an encrypted backup is restored, with the fallback as well as with the package.
\<close>

section \<open>Authenticated encryption\<close>

record aead_backend =
  be_encrypt :: "bytes \<Rightarrow> bytes \<Rightarrow> bytes \<Rightarrow> bytes option \<Rightarrow> bytes"
  be_decrypt :: "bytes \<Rightarrow> bytes \<Rightarrow> bytes \<Rightarrow> bytes option \<Rightarrow> bytes option"

definition backend_name :: "aead_backend option \<Rightarrow> string" where
  "backend_name be = (if be \<noteq> None then ''cryptography'' else ''stdlib-fallback'')"

definition aad_or_none :: "bytes \<Rightarrow> bytes option" where
  "aad_or_none aad = (if aad = [] then None else Some aad)"

definition aesgcm_encrypt :: "aead_backend option \<Rightarrow> bytes \<Rightarrow> bytes \<Rightarrow> bytes \<Rightarrow> bytes option \<Rightarrow> bytes \<Rightarrow> bytes result" where
  "aesgcm_encrypt be key plaintext aad nonce rnd =
     bind_r (ensure (length key = 32) (ContractError ''AES-256-GCM requires a 32-byte key'')) (\<lambda>_.
     (let nonce = (case nonce of None \<Rightarrow> rnd | Some n \<Rightarrow> n) in
      bind_r (ensure (length nonce = 12) (ContractError ''AES-GCM nonce must be 12 bytes'')) (\<lambda>_.
      bind_r (case be of Some b \<Rightarrow> Inr (be_encrypt b key nonce plaintext (aad_or_none aad))
              | None \<Rightarrow> fallback_aesgcm_encrypt key nonce plaintext aad) (\<lambda>ct.
      Inr (nonce @ ct)))))"

definition aesgcm_decrypt :: "aead_backend option \<Rightarrow> bytes \<Rightarrow> bytes \<Rightarrow> bytes \<Rightarrow> bytes result" where
  "aesgcm_decrypt be key blob aad =
     bind_r (ensure (length key = 32) (ContractError ''AES-256-GCM requires a 32-byte key'')) (\<lambda>_.
     bind_r (ensure (length blob \<ge> 12 + 16) (ContractError ''ciphertext blob too short'')) (\<lambda>_.
     case be of
       Some b \<Rightarrow> (case be_decrypt b key (take 12 blob) (drop 12 blob) (aad_or_none aad) of
           Some pt \<Rightarrow> Inr pt | None \<Rightarrow> Inl (ContractError ''AES-GCM decryption failed''))
     | None \<Rightarrow> (case fallback_aesgcm_decrypt key (take 12 blob) (drop 12 blob) aad of
           Inr pt \<Rightarrow> Inr pt
         | Inl (ContractError m) \<Rightarrow> Inl (ContractError m)
         | Inl _ \<Rightarrow> Inl (ContractError ''AES-GCM decryption failed''))))"

section \<open>The local key service\<close>

text \<open>A KMS as the provider uses it: \<open>generate_data_key\<close> and \<open>unwrap_key\<close>; the identifier arrives from an envelope.\<close>

record kms =
  kms_generate :: "string \<Rightarrow> (bytes \<times> bytes) result"
  kms_unwrap :: "bytes \<Rightarrow> json \<Rightarrow> bytes result"

definition encode :: "string \<Rightarrow> bytes" where
  "encode s = map (\<lambda>c. int (of_char c)) s"

definition mk_local_kms :: "bytes \<Rightarrow> unit result" where
  "mk_local_kms secret = ensure (length secret \<ge> 16) (ContractError ''local KMS master secret must be at least 16 bytes'')"

definition kek :: "(bytes \<Rightarrow> bytes \<Rightarrow> bytes) \<Rightarrow> bytes \<Rightarrow> string \<Rightarrow> bytes result" where
  "kek hm secret kek_id = bind_r (mk_identifier kek_id) (\<lambda>_. Inr (hm secret (encode ''kek:'' @ encode kek_id)))"

definition wrap_key :: "aead_backend option \<Rightarrow> (bytes \<Rightarrow> bytes \<Rightarrow> bytes) \<Rightarrow> bytes \<Rightarrow> bytes \<Rightarrow> bytes \<Rightarrow> string \<Rightarrow> bytes result" where
  "wrap_key be hm secret rnd key kek_id =
     bind_r (kek hm secret kek_id) (\<lambda>k. aesgcm_encrypt be k key (encode ''wrap:'' @ encode kek_id) None rnd)"

definition unwrap_key :: "aead_backend option \<Rightarrow> (bytes \<Rightarrow> bytes \<Rightarrow> bytes) \<Rightarrow> bytes \<Rightarrow> bytes \<Rightarrow> json \<Rightarrow> bytes result" where
  "unwrap_key be hm secret wrapped kek_id =
     (case kek_id of
        JStr s \<Rightarrow> bind_r (kek hm secret s) (\<lambda>k. aesgcm_decrypt be k wrapped (encode ''wrap:'' @ encode s))
      | _ \<Rightarrow> Inl (ContractError ''invalid identifier''))"

definition generate_data_key :: "aead_backend option \<Rightarrow> (bytes \<Rightarrow> bytes \<Rightarrow> bytes) \<Rightarrow> bytes \<Rightarrow> bytes \<Rightarrow> bytes \<Rightarrow> string \<Rightarrow> (bytes \<times> bytes) result" where
  "generate_data_key be hm secret dek rnd kek_id = bind_r (wrap_key be hm secret rnd dek kek_id) (\<lambda>w. Inr (dek, w))"

definition local_kms :: "aead_backend option \<Rightarrow> (bytes \<Rightarrow> bytes \<Rightarrow> bytes) \<Rightarrow> bytes \<Rightarrow> bytes \<Rightarrow> bytes \<Rightarrow> kms" where
  "local_kms be hm secret dek rnd = \<lparr>kms_generate = generate_data_key be hm secret dek rnd, kms_unwrap = unwrap_key be hm secret\<rparr>"

section \<open>The development provider\<close>

record crypto_provider =
  cp_signing_key :: bytes
  cp_encryption_key :: bytes
  cp_kms :: "kms option"

definition bytes_or :: "bytes option \<Rightarrow> bytes \<Rightarrow> bytes" where
  "bytes_or k rnd = (case k of None \<Rightarrow> rnd | Some b \<Rightarrow> if b = [] then rnd else b)"

definition mk_crypto_provider :: "bytes option \<Rightarrow> bytes option \<Rightarrow> kms option \<Rightarrow> bytes \<Rightarrow> bytes \<Rightarrow> crypto_provider result" where
  "mk_crypto_provider sk ek ks rnd1 rnd2 =
     bind_r (ensure (length (bytes_or sk rnd1) \<ge> 16) (ContractError ''signing key must be at least 16 bytes'')) (\<lambda>_.
     bind_r (ensure (length (bytes_or ek rnd2) = 32) (ContractError ''encryption key must be 32 bytes'')) (\<lambda>_.
     Inr \<lparr>cp_signing_key = bytes_or sk rnd1, cp_encryption_key = bytes_or ek rnd2, cp_kms = ks\<rparr>))"

definition provider_sign :: "(bytes \<Rightarrow> bytes \<Rightarrow> bytes) \<Rightarrow> crypto_provider \<Rightarrow> bytes \<Rightarrow> bytes" where
  "provider_sign hm p data = hm (cp_signing_key p) data"

definition provider_verify :: "(bytes \<Rightarrow> bytes \<Rightarrow> bytes) \<Rightarrow> crypto_provider \<Rightarrow> bytes \<Rightarrow> bytes \<Rightarrow> bool" where
  "provider_verify hm p data sg = (provider_sign hm p data = sg)"

definition provider_encrypt :: "aead_backend option \<Rightarrow> crypto_provider \<Rightarrow> bytes \<Rightarrow> bytes \<Rightarrow> bytes \<Rightarrow> bytes result" where
  "provider_encrypt be p plaintext aad rnd = aesgcm_encrypt be (cp_encryption_key p) plaintext aad None rnd"

definition provider_decrypt :: "aead_backend option \<Rightarrow> crypto_provider \<Rightarrow> bytes \<Rightarrow> bytes \<Rightarrow> bytes result" where
  "provider_decrypt be p blob aad = aesgcm_decrypt be (cp_encryption_key p) blob aad"

text \<open>\<open>bytes.hex\<close> and \<open>bytes.fromhex\<close>, which skips white space between bytes.\<close>

definition hex :: "bytes \<Rightarrow> string" where
  "hex bs = concat (map (\<lambda>b. [hex_char (nat b div 16), hex_char (nat b mod 16)]) bs)"

definition hex_space :: "char \<Rightarrow> bool" where
  "hex_space c = (c = CHR '' '' \<or> (CHR 0x09 \<le> c \<and> c \<le> CHR 0x0D))"

fun fromhex :: "string \<Rightarrow> bytes result" where
  "fromhex [] = Inr []"
| "fromhex (c # cs) =
     (if hex_space c then fromhex cs
      else case cs of
        [] \<Rightarrow> Inl (ValueError ''non-hexadecimal number found in fromhex() arg'')
      | d # ds \<Rightarrow> (case (hex_val c, hex_val d) of
          (Some a, Some b) \<Rightarrow> bind_r (fromhex ds) (\<lambda>r. Inr (int (16 * a + b) # r))
        | _ \<Rightarrow> Inl (ValueError ''non-hexadecimal number found in fromhex() arg'')))"

definition hex_field :: "(string, json) dict \<Rightarrow> string \<Rightarrow> bytes result" where
  "hex_field env k = bind_r (dict_get env k) (\<lambda>v. case v of JStr s \<Rightarrow> fromhex s | _ \<Rightarrow> Inl (TypeError ''fromhex() argument must be str''))"

definition backup_schema :: string where
  "backup_schema = ''residual.backup.v1''"

text \<open>\<open>kms or self.kms or LocalKmsProvider(self.signing_key)\<close>.\<close>

definition select_kms :: "aead_backend option \<Rightarrow> (bytes \<Rightarrow> bytes \<Rightarrow> bytes) \<Rightarrow> crypto_provider \<Rightarrow> kms option \<Rightarrow> bytes \<Rightarrow> bytes \<Rightarrow> kms result" where
  "select_kms be hm p ks dek rnd =
     (case ks of Some k \<Rightarrow> Inr k
      | None \<Rightarrow> (case cp_kms p of Some k \<Rightarrow> Inr k
          | None \<Rightarrow> bind_r (mk_local_kms (cp_signing_key p)) (\<lambda>_. Inr (local_kms be hm (cp_signing_key p) dek rnd))))"

definition seal_backup :: "aead_backend option \<Rightarrow> kms \<Rightarrow> bytes \<Rightarrow> string \<Rightarrow> bytes \<Rightarrow> (string, json) dict result" where
  "seal_backup be k plaintext kek_id rnd =
     bind_r (kms_generate k kek_id) (\<lambda>(dek, wrapped).
     bind_r (aesgcm_encrypt be dek plaintext (encode backup_schema) None rnd) (\<lambda>blob.
     Inr [(''schema'', JStr backup_schema), (''kek_id'', JStr kek_id), (''wrapped_dek'', JStr (hex wrapped)),
          (''ciphertext'', JStr (hex blob)), (''backend'', JStr (backend_name be))]))"

definition encrypt_backup ::
  "aead_backend option \<Rightarrow> (bytes \<Rightarrow> bytes \<Rightarrow> bytes) \<Rightarrow> crypto_provider \<Rightarrow> kms option \<Rightarrow> bytes \<Rightarrow> bytes \<Rightarrow> bytes \<Rightarrow> bytes \<Rightarrow> string \<Rightarrow> (string, json) dict result" where
  "encrypt_backup be hm p ks dek rnd1 rnd2 plaintext kek_id =
     bind_r (select_kms be hm p ks dek rnd1) (\<lambda>k. seal_backup be k plaintext kek_id rnd2)"

definition open_backup :: "aead_backend option \<Rightarrow> kms \<Rightarrow> (string, json) dict \<Rightarrow> bytes result" where
  "open_backup be k env =
     bind_r (dict_get env ''kek_id'') (\<lambda>kid.
     bind_r (hex_field env ''wrapped_dek'') (\<lambda>wrapped.
     bind_r (kms_unwrap k wrapped kid) (\<lambda>dek.
     bind_r (hex_field env ''ciphertext'') (\<lambda>blob.
     aesgcm_decrypt be dek blob (encode backup_schema)))))"

definition decrypt_backup ::
  "aead_backend option \<Rightarrow> (bytes \<Rightarrow> bytes \<Rightarrow> bytes) \<Rightarrow> crypto_provider \<Rightarrow> kms option \<Rightarrow> bytes \<Rightarrow> bytes \<Rightarrow> (string, json) dict \<Rightarrow> bytes result" where
  "decrypt_backup be hm p ks dek rnd env =
     bind_r (ensure (map_of env ''schema'' = Some (JStr backup_schema)) (ContractError ''unknown backup envelope schema'')) (\<lambda>_.
     bind_r (select_kms be hm p ks dek rnd) (\<lambda>k. open_backup be k env))"

section \<open>Interfaces\<close>

text \<open>Sealing and opening under a key, with associated data.\<close>

locale aead =
  fixes seal :: "bytes \<Rightarrow> bytes \<Rightarrow> bytes \<Rightarrow> bytes \<Rightarrow> bytes result"
    and unseal :: "bytes \<Rightarrow> bytes \<Rightarrow> bytes \<Rightarrow> bytes result"
  assumes unseal_seal: "seal key pt aad nonce = Inr blob \<Longrightarrow> unseal key blob aad = Inr pt"
begin

lemma sealed_once: "seal key pt aad nonce = Inr blob \<Longrightarrow> seal key pt' aad nonce' = Inr blob \<Longrightarrow> pt = pt'"
  using unseal_seal [of key pt aad nonce blob] unseal_seal [of key pt' aad nonce' blob] by simp

end

text \<open>A service that hands out data keys with their wrapped form.\<close>

locale key_service =
  fixes generate :: "string \<Rightarrow> (bytes \<times> bytes) result"
    and unwrap :: "bytes \<Rightarrow> json \<Rightarrow> bytes result"
  assumes unwrap_generate: "generate kid = Inr (dek, wrapped) \<Longrightarrow> unwrap wrapped (JStr kid) = Inr dek"

lemma hex_space_digit: "n < 16 \<Longrightarrow> \<not> hex_space (hex_char n)"
proof -
  have "list_all (\<lambda>n. \<not> hex_space (hex_char n)) [0..<16]" by code_simp
  then show "n < 16 \<Longrightarrow> \<not> hex_space (hex_char n)" by (auto simp: list_all_iff)
qed

lemma fromhex_hex: "is_bytes bs \<Longrightarrow> fromhex (hex bs) = Inr bs"
proof (induction bs)
  case (Cons b bs)
  then have b: "nat b div 16 < 16" "nat b mod 16 < 16" "int (16 * (nat b div 16) + nat b mod 16) = b"
    by (auto simp: is_byte_def)
  then show ?case using Cons by (simp add: hex_def hex_space_digit hex_val_hex_char)
qed (simp add: hex_def)

locale envelope = aead + key_service
begin

lemma envelope_round_trip:
  assumes "generate kid = Inr (dek, wrapped)" and "seal dek pt aad nonce = Inr blob" and "is_bytes wrapped" and "is_bytes blob"
  shows "bind_r (fromhex (hex wrapped)) (\<lambda>w. bind_r (unwrap w (JStr kid)) (\<lambda>k. bind_r (fromhex (hex blob)) (\<lambda>b. unseal k b aad))) = Inr pt"
  using unwrap_generate [OF assms(1)] unseal_seal [OF assms(2)] fromhex_hex assms(3,4) by simp

end

section \<open>The module satisfies the interfaces\<close>

definition seal_of :: "aead_backend option \<Rightarrow> bytes \<Rightarrow> bytes \<Rightarrow> bytes \<Rightarrow> bytes \<Rightarrow> bytes result" where
  "seal_of be key pt aad nonce = aesgcm_encrypt be key pt aad None nonce"

text \<open>The contract of the package: decryption inverts encryption, and the ciphertext is 16 bytes longer.\<close>

definition backend_ok :: "aead_backend option \<Rightarrow> bool" where
  "backend_ok be = (\<forall>b key nonce pt aad. be = Some b \<longrightarrow> length key = 32 \<longrightarrow> length nonce = 12 \<longrightarrow>
     be_decrypt b key nonce (be_encrypt b key nonce pt aad) aad = Some pt \<and> length (be_encrypt b key nonce pt aad) = length pt + 16
     \<and> (is_bytes pt \<longrightarrow> is_bytes (be_encrypt b key nonce pt aad)))"

definition hmac_sha256 :: "(bytes \<Rightarrow> bytes \<Rightarrow> bytes) \<Rightarrow> bool" where
  "hmac_sha256 hm = (\<forall>k d. length (hm k d) = 32 \<and> is_bytes (hm k d))"

lemma fallback_length: "fallback_aesgcm_encrypt key nonce pt aad = Inr ct \<Longrightarrow> length ct \<ge> 16"
  using gcm_decrypt_iff [of key nonce ct aad pt] by (auto simp: fallback_aesgcm_decrypt_def result_simps)

lemma aesgcm_aead:
  assumes "backend_ok be"
  shows "aead (seal_of be) (aesgcm_decrypt be)"
proof
  fix key pt aad nonce blob
  assume e: "seal_of be key pt aad nonce = Inr blob"
  then obtain ct where ct: "length key = 32" "length nonce = 12" "blob = nonce @ ct"
    "(case be of Some b \<Rightarrow> Inr (be_encrypt b key nonce pt (aad_or_none aad)) | None \<Rightarrow> fallback_aesgcm_encrypt key nonce pt aad) = Inr ct"
    by (auto simp: seal_of_def aesgcm_encrypt_def result_simps)
  show "aesgcm_decrypt be key blob aad = Inr pt"
  proof (cases be)
    case None
    then have "fallback_aesgcm_encrypt key nonce pt aad = Inr ct" using ct(4) by simp
    then show ?thesis using None ct(1-3) fallback_length gcm_decrypt_iff [of key nonce ct aad pt]
      by (fastforce simp: aesgcm_decrypt_def bind_ensure)
  next
    case (Some b)
    then have "ct = be_encrypt b key nonce pt (aad_or_none aad)" using ct(4) by simp
    then show ?thesis using Some assms ct(1-3) by (simp add: backend_ok_def aesgcm_decrypt_def bind_ensure)
  qed
qed

lemma local_kms_service:
  assumes "aead (seal_of be) (aesgcm_decrypt be)"
  shows "key_service (kms_generate (local_kms be hm secret dek rnd)) (kms_unwrap (local_kms be hm secret dek rnd))"
proof
  fix kid dek' wrapped
  assume "kms_generate (local_kms be hm secret dek rnd) kid = Inr (dek', wrapped)"
  then obtain k where "kek hm secret kid = Inr k" "dek' = dek" "seal_of be k dek (encode ''wrap:'' @ encode kid) rnd = Inr wrapped"
    by (auto simp: local_kms_def generate_data_key_def wrap_key_def seal_of_def result_simps)
  then show "kms_unwrap (local_kms be hm secret dek rnd) wrapped (JStr kid) = Inr dek'"
    using aead.unseal_seal [OF assms] by (simp add: local_kms_def unwrap_key_def)
qed

interpretation fallback: aead "seal_of None" "aesgcm_decrypt None"
  by (rule aesgcm_aead) (simp add: backend_ok_def)

interpretation local_service: key_service "kms_generate (local_kms None hm secret dek rnd)" "kms_unwrap (local_kms None hm secret dek rnd)" for hm secret dek rnd
  by (rule local_kms_service [OF fallback.aead_axioms])

interpretation local_backup: envelope "seal_of None" "aesgcm_decrypt None" "kms_generate (local_kms None hm secret dek rnd)"
    "kms_unwrap (local_kms None hm secret dek rnd)" for hm secret dek rnd
  by unfold_locales

lemma is_bytes_encode [simp]: "is_bytes (encode s)"
proof -
  have "(of_char c :: nat) < 256" for c :: char by (cases c) (simp add: of_char_def)
  then have "int (of_char c) < 256" for c :: char using of_nat_less_iff [of "of_char c" 256, where 'a = int] by simp
  then show ?thesis by (auto simp: encode_def is_bytes_def list_all_iff is_byte_def)
qed

lemma length_encode [simp]: "length (encode s) = length s"
  by (simp add: encode_def)

lemma seal_ok:
  assumes "backend_ok be" and "is_bytes key" and "length key = 32" and "is_bytes nonce" and "length nonce = 12"
    and "is_bytes pt" and "is_bytes aad" and "int (length pt) * 8 < 2 ^ 64" and "int (length aad) * 8 < 2 ^ 64"
  obtains blob where "seal_of be key pt aad nonce = Inr blob" "is_bytes blob"
proof (cases be)
  case None
  have "length key div 4 \<in> {4, 6, 8}" "int (length nonce) * 8 < 2 ^ 64" using assms(3,5) by auto
  then obtain ct where "fallback_aesgcm_encrypt key nonce pt aad = Inr ct" "is_bytes ct"
    using gcm_encrypt_ok [OF assms(2) _ assms(4,6,7) _ assms(8,9)] by blast
  then show ?thesis using that [of "nonce @ ct"] None assms(3-5) by (simp add: seal_of_def aesgcm_encrypt_def)
next
  case (Some b)
  then have "is_bytes (be_encrypt b key nonce pt (aad_or_none aad))" using assms(1,3,5,6) by (simp add: backend_ok_def)
  then show ?thesis using that [of "nonce @ be_encrypt b key nonce pt (aad_or_none aad)"] Some assms(3-5) by (simp add: seal_of_def aesgcm_encrypt_def)
qed

lemma local_generate_ok:
  assumes "backend_ok be" and "hmac_sha256 hm" and "ident_ok kid" and "is_bytes dek" and "length dek = 32" and "is_bytes rnd" and "length rnd = 12"
  obtains wrapped where "kms_generate (local_kms be hm secret dek rnd) kid = Inr (dek, wrapped)" "is_bytes wrapped"
proof -
  have "int (length kid) \<le> 96" using assms(3) by (cases kid) auto
  then have len: "int (length (encode ''wrap:'' @ encode kid)) * 8 < 2 ^ 64" "int (length dek) * 8 < 2 ^ 64" using assms(5) by auto
  have k: "is_bytes (hm secret d)" "length (hm secret d) = 32" for d using assms(2) unfolding hmac_sha256_def by blast+
  obtain w where "seal_of be (hm secret (encode ''kek:'' @ encode kid)) dek (encode ''wrap:'' @ encode kid) rnd = Inr w" "is_bytes w"
    by (rule seal_ok [OF assms(1) k assms(6,7,4) _ len(2,1)]) simp_all
  then show ?thesis
    using that [of w] assms(3) by (simp add: local_kms_def generate_data_key_def wrap_key_def kek_def mk_identifier_def seal_of_def)
qed



end
