(* ===== verification/Key_Ring.thy ===== *)
theory Key_Ring
  imports Complex_Main Core
begin

text \<open>
  Key rotation with a bounded verification window, \<open>src/residual/crypto/rotation.py\<close>.

  \<^item> Key material, data and signatures are byte texts; times are the float values of the clock, as rationals. The clock
    reading of each call and the 32 random bytes that replace a missing key are arguments; the keyed hash is a parameter.
  \<^item> \<open>rotate\<close> changes the old record before it builds the new one, so it returns the ring beside its result.
  \<^item> Shown: after a successful rotation the retired key verifies exactly until the end of its window, whatever happens
    to the ring later. Two lemmas record where the ring departs from its description.
\<close>

section \<open>The ring\<close>

record key_record =
  kr_id :: string
  kr_key :: string
  kr_created :: rat
  kr_retired :: "rat option"
  kr_until :: "rat option"

definition mk_key_record :: "string \<Rightarrow> string \<Rightarrow> rat \<Rightarrow> key_record result" where
  "mk_key_record kid key now =
     bind_r (mk_identifier kid) (\<lambda>_.
     bind_r (ensure (length key \<ge> 16) (ContractError ''key material must be at least 16 bytes'')) (\<lambda>_.
     Inr \<lparr>kr_id = kid, kr_key = key, kr_created = now, kr_retired = None, kr_until = None\<rparr>))"

definition key_active :: "key_record \<Rightarrow> bool" where
  "key_active r = (kr_retired r = None)"

record key_ring =
  kg_window :: rat
  kg_keys :: "(string, key_record) dict"
  kg_active_id :: "string option"

definition mk_key_ring :: "rat \<Rightarrow> key_ring result" where
  "mk_key_ring window =
     bind_r (ensure (window > 0) (ContractError ''verify window must be positive'')) (\<lambda>_.
     Inr \<lparr>kg_window = window, kg_keys = [], kg_active_id = None\<rparr>)"

text \<open>\<open>key or os.urandom(32)\<close>: an empty key counts as missing.\<close>

definition key_or_random :: "string option \<Rightarrow> string \<Rightarrow> string" where
  "key_or_random key rnd = (case key of None \<Rightarrow> rnd | Some k \<Rightarrow> if k = [] then rnd else k)"

definition add_key :: "key_ring \<Rightarrow> string \<Rightarrow> string option \<Rightarrow> string \<Rightarrow> rat \<Rightarrow> (key_ring \<times> key_record) result" where
  "add_key g kid key rnd now =
     bind_r (ensure (map_of (kg_keys g) kid = None) (ContractError ''duplicate key_id'')) (\<lambda>_.
     bind_r (mk_key_record kid (key_or_random key rnd) now) (\<lambda>r.
     Inr (g\<lparr>kg_keys := AList.update kid r (kg_keys g),
            kg_active_id := (if kg_active_id g = None then Some kid else kg_active_id g)\<rparr>, r)))"

definition active_record :: "key_ring \<Rightarrow> key_record option" where
  "active_record g = (case kg_active_id g of None \<Rightarrow> None | Some kid \<Rightarrow> if kid = [] then None else map_of (kg_keys g) kid)"

definition retire :: "key_ring \<Rightarrow> rat \<Rightarrow> key_ring" where
  "retire g now =
     (case active_record g of
        None \<Rightarrow> g
      | Some old \<Rightarrow> g\<lparr>kg_keys := AList.update (the (kg_active_id g)) (old\<lparr>kr_retired := Some now, kr_until := Some (now + kg_window g)\<rparr>) (kg_keys g)\<rparr>)"

definition rotate_key :: "key_ring \<Rightarrow> string \<Rightarrow> string option \<Rightarrow> string \<Rightarrow> rat \<Rightarrow> key_ring \<times> key_record result" where
  "rotate_key g kid key rnd now =
     (if map_of (kg_keys g) kid \<noteq> None then (g, Inl (ContractError ''duplicate key_id''))
      else case mk_key_record kid (key_or_random key rnd) now of
        Inl e \<Rightarrow> (retire g now, Inl e)
      | Inr r \<Rightarrow> ((retire g now)\<lparr>kg_keys := AList.update kid r (kg_keys (retire g now)), kg_active_id := Some kid\<rparr>, Inr r))"

definition get_key :: "key_ring \<Rightarrow> string \<Rightarrow> key_record result" where
  "get_key g kid = (case map_of (kg_keys g) kid of None \<Rightarrow> Inl (ContractError ''unknown key_id'') | Some r \<Rightarrow> Inr r)"

text \<open>\<open>status\<close>: per key in sorted order whether it is active, its times, and whether it still verifies.\<close>

definition in_window :: "key_record \<Rightarrow> rat \<Rightarrow> bool" where
  "in_window r now = (case kr_until r of None \<Rightarrow> False | Some u \<Rightarrow> now \<le> u)"

definition ring_status :: "key_ring \<Rightarrow> rat \<Rightarrow> string option \<times> (string \<times> bool \<times> rat option \<times> rat option \<times> bool) list" where
  "ring_status g now =
     (kg_active_id g, map (\<lambda>(kid, r). (kid, key_active r, kr_retired r, kr_until r, key_active r \<or> in_window r now)) (sort_key fst (kg_keys g)))"

definition ring_sign :: "(string \<Rightarrow> string \<Rightarrow> string) \<Rightarrow> key_ring \<Rightarrow> string \<Rightarrow> (string \<times> string) result" where
  "ring_sign mac g data =
     (case active_record g of None \<Rightarrow> Inl (ContractError ''no active key in ring'') | Some r \<Rightarrow> Inr (kr_id r, mac (kr_key r) data))"

definition ring_verify :: "(string \<Rightarrow> string \<Rightarrow> string) \<Rightarrow> key_ring \<Rightarrow> string \<Rightarrow> string \<Rightarrow> string \<Rightarrow> rat \<Rightarrow> bool" where
  "ring_verify mac g kid data sg now =
     (case get_key g kid of
        Inl _ \<Rightarrow> False
      | Inr r \<Rightarrow> if \<not> key_active r \<and> \<not> in_window r now then False else mac (kr_key r) data = sg)"

definition verify_strict :: "(string \<Rightarrow> string \<Rightarrow> string) \<Rightarrow> key_ring \<Rightarrow> string \<Rightarrow> string \<Rightarrow> string \<Rightarrow> rat \<Rightarrow> unit result" where
  "verify_strict mac g kid data sg now =
     ensure (ring_verify mac g kid data sg now) (ContractError ''signature verification failed for key'')"

section \<open>Runs\<close>

datatype ring_op = OpAdd string "string option" string rat | OpRotate string "string option" string rat

fun ring_step :: "key_ring \<Rightarrow> ring_op \<Rightarrow> key_ring" where
  "ring_step g (OpAdd kid key rnd now) = (case add_key g kid key rnd now of Inl _ \<Rightarrow> g | Inr (g', _) \<Rightarrow> g')"
| "ring_step g (OpRotate kid key rnd now) = fst (rotate_key g kid key rnd now)"

definition ring_run :: "key_ring \<Rightarrow> ring_op list \<Rightarrow> key_ring" where
  "ring_run g ops = foldl ring_step g ops"

text \<open>The records are stored under their identifiers, and the active identifier is present.\<close>

definition record_ok :: "string \<Rightarrow> key_record \<Rightarrow> bool" where
  "record_ok kid r = (kr_id r = kid \<and> kid \<noteq> [] \<and> length (kr_key r) \<ge> 16)"

definition ring_ok :: "key_ring \<Rightarrow> bool" where
  "ring_ok g = ((\<forall>kid r. map_of (kg_keys g) kid = Some r \<longrightarrow> record_ok kid r)
     \<and> (\<forall>kid. kg_active_id g = Some kid \<longrightarrow> map_of (kg_keys g) kid \<noteq> None))"

lemma ring_ok_update:
  "ring_ok g \<Longrightarrow> record_ok kid r \<Longrightarrow> a \<in> {kg_active_id g, Some kid} \<Longrightarrow> ring_ok (g\<lparr>kg_keys := AList.update kid r (kg_keys g), kg_active_id := a\<rparr>)"
  by (auto simp: ring_ok_def)

lemma ring_ok_record: "ring_ok g \<Longrightarrow> map_of (kg_keys g) kid = Some r \<Longrightarrow> record_ok kid r"
  by (simp add: ring_ok_def)

lemma mk_key_record_Inr:
  "mk_key_record kid key now = Inr r \<Longrightarrow>
     kid \<noteq> [] \<and> length key \<ge> 16 \<and> r = \<lparr>kr_id = kid, kr_key = key, kr_created = now, kr_retired = None, kr_until = None\<rparr>"
  by (auto simp: mk_key_record_def mk_identifier_def result_simps split: if_splits)

lemma retire_cases:
  "retire g now = g \<and> active_record g = None
   \<or> (\<exists>kid old. kg_active_id g = Some kid \<and> active_record g = Some old \<and> map_of (kg_keys g) kid = Some old
      \<and> retire g now = g\<lparr>kg_keys := AList.update kid (old\<lparr>kr_retired := Some now, kr_until := Some (now + kg_window g)\<rparr>) (kg_keys g)\<rparr>)"
  by (auto simp: retire_def active_record_def split: option.splits if_splits)

lemma retire_ok:
  assumes "ring_ok g"
  shows "ring_ok (retire g now)"
proof -
  consider (none) "retire g now = g" | (old) kid old where "map_of (kg_keys g) kid = Some old"
      "retire g now = g\<lparr>kg_keys := AList.update kid (old\<lparr>kr_retired := Some now, kr_until := Some (now + kg_window g)\<rparr>) (kg_keys g)\<rparr>"
    using retire_cases [of g now] by blast
  then show ?thesis
  proof cases
    case old
    have "record_ok kid (old\<lparr>kr_retired := Some now, kr_until := Some (now + kg_window g)\<rparr>)"
      using ring_ok_record [OF assms old(1)] by (simp add: record_ok_def)
    from ring_ok_update [OF assms this, of "kg_active_id g"] show ?thesis by (simp add: old(2))
  qed (use assms in simp)
qed

lemma retire_other: "kg_active_id g \<noteq> Some k \<Longrightarrow> map_of (kg_keys (retire g now)) k = map_of (kg_keys g) k"
  using retire_cases [of g now] by auto

lemma retire_active_id [simp]: "kg_active_id (retire g now) = kg_active_id g" "kg_window (retire g now) = kg_window g"
  using retire_cases [of g now] by auto

lemma ring_step_ok:
  assumes "ring_ok g"
  shows "ring_ok (ring_step g op)"
proof (cases op)
  case (OpAdd kid key rnd now)
  show ?thesis
  proof (cases "add_key g kid key rnd now")
    case (Inr res)
    then obtain r where "mk_key_record kid (key_or_random key rnd) now = Inr r"
      "fst res = g\<lparr>kg_keys := AList.update kid r (kg_keys g), kg_active_id := (if kg_active_id g = None then Some kid else kg_active_id g)\<rparr>"
      by (auto simp: add_key_def result_simps)
    then show ?thesis using OpAdd Inr ring_ok_update [OF assms, of kid r] mk_key_record_Inr [of kid "key_or_random key rnd" now r]
      by (cases res) (auto simp: record_ok_def)
  qed (use OpAdd assms in simp)
next
  case (OpRotate kid key rnd now)
  note r = retire_ok [OF assms, of now]
  show ?thesis
  proof (cases "mk_key_record kid (key_or_random key rnd) now")
    case (Inl e)
    then show ?thesis using assms r OpRotate by (simp add: rotate_key_def)
  next
    case (Inr x)
    then have "record_ok kid x" using mk_key_record_Inr [OF Inr] by (simp add: record_ok_def)
    from ring_ok_update [OF r this, of "Some kid"] show ?thesis using Inr assms OpRotate by (simp add: rotate_key_def)
  qed
qed

text \<open>A record that is not the active one never changes again.\<close>

lemma ring_step_keeps:
  assumes "map_of (kg_keys g) k = Some r" and "kg_active_id g \<noteq> Some k" and "kg_active_id g \<noteq> None"
  shows "map_of (kg_keys (ring_step g op)) k = Some r \<and> kg_active_id (ring_step g op) \<notin> {None, Some k}"
proof (cases op)
  case (OpAdd kid key rnd now)
  then show ?thesis using assms by (auto simp: add_key_def result_simps split: sum.splits)
next
  case (OpRotate kid key rnd now)
  then show ?thesis using assms retire_other [OF assms(2), of now]
    by (cases "mk_key_record kid (key_or_random key rnd) now") (auto simp: rotate_key_def)
qed

lemma ring_run_keeps:
  assumes "map_of (kg_keys g) k = Some r" and "kg_active_id g \<notin> {None, Some k}"
  shows "map_of (kg_keys (ring_run g ops)) k = Some r"
  using assms
proof (induction ops arbitrary: g)
  case Nil
  then show ?case by (simp add: ring_run_def)
next
  case (Cons op ops)
  have "map_of (kg_keys (ring_step g op)) k = Some r" "kg_active_id (ring_step g op) \<notin> {None, Some k}"
    using ring_step_keeps [of g k r op] Cons.prems by auto
  from Cons.IH [OF this] show ?case by (simp add: ring_run_def)
qed

text \<open>C33. The verification window. When a rotation at time \<open>t\<close> succeeds, signing uses the new key from then on, and the old key keeps
  verifying its own signatures until \<open>t\<close> plus the window and never after it, through every later sequence of additions and
  rotations, failed ones included.\<close>

theorem retired_key_window:
  assumes "ring_ok g" and "active_record g = Some old" and "rotate_key g kid key rnd t = (g', Inr new)"
  shows "ring_sign mac g' data = Inr (kid, mac (kr_key new) data)
    \<and> (ring_verify mac (ring_run g' ops) (kr_id old) data (mac (kr_key old) data) now \<longleftrightarrow> now \<le> t + kg_window g)"
proof -
  obtain k where k: "kg_active_id g = Some k" "map_of (kg_keys g) k = Some old"
    using assms(2) by (auto simp: active_record_def split: option.splits if_splits)
  have old: "kr_id old = k" using ring_ok_record [OF assms(1) k(2)] by (simp add: record_ok_def)
  let ?old = "old\<lparr>kr_retired := Some t, kr_until := Some (t + kg_window g)\<rparr>"
  have fresh: "map_of (kg_keys g) kid = None" and new: "mk_key_record kid (key_or_random key rnd) t = Inr new"
    and g': "g' = (retire g t)\<lparr>kg_keys := AList.update kid new (kg_keys (retire g t)), kg_active_id := Some kid\<rparr>"
    using assms(3) by (auto simp: rotate_key_def split: if_splits sum.splits)
  have rec: "map_of (kg_keys g') k = Some ?old" "kg_active_id g' \<notin> {None, Some k}"
    using k fresh assms(2) g' by (auto simp: retire_def)
  have "ring_verify mac (ring_run g' ops) k data (mac (kr_key old) data) now \<longleftrightarrow> now \<le> t + kg_window g"
    using ring_run_keeps [OF rec, of ops] by (simp add: ring_verify_def get_key_def key_active_def in_window_def)
  moreover have "active_record g' = Some new" "kr_id new = kid"
    using g' mk_key_record_Inr [OF new] by (simp_all add: active_record_def)
  ultimately show ?thesis using old by (simp add: ring_sign_def)
qed

section \<open>Instances\<close>

definition sample_ring :: key_ring where
  "sample_ring = fst (projr (add_key \<lparr>kg_window = 100, kg_keys = [], kg_active_id = None\<rparr> ''k1'' (Some (replicate 16 CHR ''a'')) [] 0))"

lemma sample_ring_eq:
  "sample_ring = \<lparr>kg_window = 100, kg_keys = [(''k1'', \<lparr>kr_id = ''k1'', kr_key = replicate 16 CHR ''a'', kr_created = 0, kr_retired = None, kr_until = None\<rparr>)],
     kg_active_id = Some ''k1''\<rparr>"
  by (simp add: sample_ring_def add_key_def mk_key_record_def mk_identifier_def key_or_random_def ident_char_def is_letter_def is_lower_def is_upper_def
      is_digit_def less_eq_char_def)

lemma sample_rotation:
  "\<exists>g new. rotate_key sample_ring ''k2'' (Some (replicate 16 CHR ''b'')) [] 10 = (g, Inr new)"
  by (simp add: sample_ring_eq rotate_key_def mk_key_record_def mk_identifier_def key_or_random_def ident_char_def is_letter_def is_lower_def is_upper_def
      is_digit_def less_eq_char_def)

theorem retired_key_window_witness:
  "\<exists>g new. rotate_key sample_ring ''k2'' (Some (replicate 16 CHR ''b'')) [] 10 = (g, Inr new)
     \<and> ring_verify (\<lambda>k d. k @ d) (ring_run g [OpAdd ''k3'' None (replicate 32 CHR ''c'') 20]) ''k1'' ''d'' (replicate 16 CHR ''a'' @ ''d'') 110
     \<and> \<not> ring_verify (\<lambda>k d. k @ d) (ring_run g [OpAdd ''k3'' None (replicate 32 CHR ''c'') 20]) ''k1'' ''d'' (replicate 16 CHR ''a'' @ ''d'') 111"
proof -
  let ?old = "\<lparr>kr_id = ''k1'', kr_key = replicate 16 CHR ''a'', kr_created = 0, kr_retired = None, kr_until = None\<rparr>"
  obtain g new where r: "rotate_key sample_ring ''k2'' (Some (replicate 16 CHR ''b'')) [] 10 = (g, Inr new)" using sample_rotation by blast
  have "ring_ok sample_ring" "active_record sample_ring = Some ?old" by (simp_all add: sample_ring_eq ring_ok_def record_ok_def active_record_def)
  from retired_key_window [OF this r, of "\<lambda>k d. k @ d" "''d''" "[OpAdd ''k3'' None (replicate 32 CHR ''c'') 20]"]
  have "ring_verify (\<lambda>k d. k @ d) (ring_run g [OpAdd ''k3'' None (replicate 32 CHR ''c'') 20]) ''k1'' ''d'' (replicate 16 CHR ''a'' @ ''d'') now \<longleftrightarrow> now \<le> 110" for now
    by (simp add: sample_ring_eq)
  then show ?thesis using r by auto
qed

text \<open>A rotation that is refused because of its new key has already retired the old one, which stays the signing key: after the window
  its fresh signatures no longer verify.\<close>

lemma failed_rotation_retires_active:
  assumes "ring_ok g" and "active_record g = Some old" and "map_of (kg_keys g) kid = None" and "mk_key_record kid (key_or_random key rnd) t = Inl e"
    and "now > t + kg_window g"
  shows "\<exists>sg. ring_sign mac (fst (rotate_key g kid key rnd t)) data = Inr (kr_id old, sg)
    \<and> \<not> ring_verify mac (fst (rotate_key g kid key rnd t)) (kr_id old) data sg now"
proof -
  obtain k where k: "kg_active_id g = Some k" "map_of (kg_keys g) k = Some old" "k \<noteq> []"
    using assms(2) by (auto simp: active_record_def split: option.splits if_splits)
  moreover have "kr_id old = k" using ring_ok_record [OF assms(1) k(2)] by (simp add: record_ok_def)
  ultimately show ?thesis
    using assms(2-5) by (simp add: rotate_key_def ring_sign_def ring_verify_def retire_def active_record_def get_key_def key_active_def in_window_def)
qed

text \<open>A key that is added beside an active one is never retired by a rotation, so it verifies for ever although it never signs.\<close>

lemma added_key_never_retired:
  assumes "add_key g kid key rnd t = Inr (g', r)" and "kg_active_id g \<noteq> None" and "ring_ok g"
  shows "ring_verify mac (ring_run g' ops) kid data (mac (kr_key r) data) now"
proof -
  have r: "map_of (kg_keys g) kid = None" "kg_active_id g' = kg_active_id g" "map_of (kg_keys g') kid = Some r" "kr_retired r = None"
    using assms(1,2) by (auto simp: add_key_def result_simps dest!: mk_key_record_Inr)
  then have "kg_active_id g' \<notin> {None, Some kid}" using assms(2,3) by (auto simp: ring_ok_def)
  from ring_run_keeps [OF r(3) this, of ops] show ?thesis using r(4) by (simp add: ring_verify_def get_key_def key_active_def)
qed

end
