(* ===== verification/Compliance_Log.thy ===== *)
theory Compliance_Log
  imports Complex_Main Json_Roundtrip
begin

text \<open>
  Compliance records, \<open>src/residual/compliance/\<close>: the hash-chained observation log (\<open>log.py\<close>), legal holds
  (\<open>legal_hold.py\<close>), retention with archive before delete (\<open>retention.py\<close>) and erasure by pseudonymization (\<open>erasure.py\<close>).

  \<^item> The log, the hold manager, the archive and the set of erased users share one state, \<open>compliance\<close>, as the objects of
    the source share the log. An operation returns the state beside its result when it changes it before it raises.
  \<^item> A time argument is a Python float, \<open>py_float\<close>; a stored timestamp is finite and kept as a rational. Parameters: the hash
    function, the \<open>repr\<close> of a finite float, and the keyed hash that makes pseudonyms, with its random salt.
  \<^item> Shown: in every run an event under a legal hold survives until the hold is released; retention archives exactly what it
    deletes; the chain verifies through appends, holds and erasures. Lemmas record that a retention run breaks the chain,
    that an erasure lifts holds on the erased user, and that a clock that is not a number deletes everything.
\<close>

section \<open>The observation log\<close>

datatype py_float = Fin rat | Pos_Inf | Neg_Inf | Not_A_Number

fun float_negative :: "py_float \<Rightarrow> bool" where
  "float_negative (Fin t) = (t < 0)"
| "float_negative Neg_Inf = True"
| "float_negative _ = False"

definition upper_char :: "char \<Rightarrow> bool" where
  "upper_char c = (CHR ''A'' \<le> c \<and> c \<le> CHR ''Z'')"

definition digit_ch :: "char \<Rightarrow> bool" where
  "digit_ch c = (CHR ''0'' \<le> c \<and> c \<le> CHR ''9'')"

definition lower_char :: "char \<Rightarrow> bool" where
  "lower_char c = (CHR ''a'' \<le> c \<and> c \<le> CHR ''z'')"

text \<open>\<open>[A-Z][A-Z0-9-]*-[A-Za-z0-9.]+\<close>: the last part contains no hyphen, so it starts after the last one.\<close>

definition tag_ok :: "string \<Rightarrow> bool" where
  "tag_ok tag =
     (let b = rev (takeWhile (\<lambda>c. c \<noteq> CHR ''-'') (rev tag)); a = take (length tag - length b - 1) tag in
      length b < length tag \<and> b \<noteq> [] \<and> list_all (\<lambda>c. upper_char c \<or> lower_char c \<or> digit_ch c \<or> c = CHR ''.'') b
      \<and> a \<noteq> [] \<and> upper_char (hd a) \<and> list_all (\<lambda>c. upper_char c \<or> digit_ch c \<or> c = CHR ''-'') (tl a))"

definition validate_tag :: "string \<Rightarrow> unit result" where
  "validate_tag tag = ensure (tag_ok tag) (ContractError ''invalid compliance tag'')"

definition CATEGORIES :: "string list" where
  "CATEGORIES = [''sox'', ''operational'', ''debug'']"

definition KINDS :: "string list" where
  "KINDS = [''receipt'', ''observation'', ''hitl_decision'', ''hitl_escalation'', ''contract_violation'', ''sensitive_access'',
     ''module_install'', ''task_execution'', ''retention'', ''legal_hold'', ''residency'', ''erasure'', ''report'', ''siem'', ''transfer'']"

record obs_event =
  oe_id :: int
  oe_kind :: string
  oe_timestamp :: rat
  oe_actor :: string
  oe_task_id :: string
  oe_category :: string
  oe_region :: string
  oe_payload :: "(string \<times> json) list"
  oe_tags :: "string list"
  oe_chain_hash :: string

record obs_log =
  ol_events :: "obs_event list"
  ol_counter :: int
  ol_archived :: "obs_event list"

definition new_log :: obs_log where
  "new_log = \<lparr>ol_events = [], ol_counter = 1, ol_archived = []\<rparr>"

text \<open>The checks of \<open>ObservationEvent.__post_init__\<close>; the identifier comes from the counter and is positive.\<close>

definition check_obs_event :: "string \<Rightarrow> py_float \<Rightarrow> string \<Rightarrow> string \<Rightarrow> string \<Rightarrow> string \<Rightarrow> (string \<times> json) list \<Rightarrow> string list \<Rightarrow> unit result" where
  "check_obs_event kind ts actor task_id category region payload tags =
     bind_r (ensure (kind \<in> set KINDS) (ContractError ''unknown observation kind'')) (\<lambda>_.
     bind_r (ensure (category \<in> set CATEGORIES) (ContractError ''unknown retention category'')) (\<lambda>_.
     bind_r (ensure (\<not> float_negative ts) (ContractError ''event timestamp must be a nonnegative number'')) (\<lambda>_.
     bind_r (ensure (list_all (\<lambda>s. \<not> blank s) [actor, task_id, region]) (ContractError ''actor, task_id and region are required'')) (\<lambda>_.
     bind_r (iter_r validate_tag tags) (\<lambda>_.
     bind_r (canonical (JObj payload)) (\<lambda>_. Inr ()))))))"

definition obs_event_body :: "(rat \<Rightarrow> string) \<Rightarrow> obs_event \<Rightarrow> json" where
  "obs_event_body fr e = JObj
     [(''id'', JInt (oe_id e)), (''kind'', JStr (oe_kind e)), (''timestamp'', JFloat (fr (oe_timestamp e))), (''actor'', JStr (oe_actor e)),
      (''task_id'', JStr (oe_task_id e)), (''category'', JStr (oe_category e)), (''region'', JStr (oe_region e)),
      (''payload'', JObj (oe_payload e)), (''tags'', JArr (map JStr (sort (oe_tags e))))]"

definition zero_hash :: string where
  "zero_hash = replicate 64 CHR ''0''"

definition chain_next :: "(string \<Rightarrow> string) \<Rightarrow> (rat \<Rightarrow> string) \<Rightarrow> string \<Rightarrow> obs_event \<Rightarrow> string result" where
  "chain_next H fr prev e = bind_r (canonical (obs_event_body fr e)) (\<lambda>t. Inr (H (prev @ newline # t)))"

definition obs_last_hash :: "obs_event list \<Rightarrow> string" where
  "obs_last_hash es = (if es = [] then zero_hash else oe_chain_hash (last es))"

definition seal_event :: "(string \<Rightarrow> string) \<Rightarrow> (rat \<Rightarrow> string) \<Rightarrow> obs_log \<Rightarrow> obs_event \<Rightarrow> obs_event result" where
  "seal_event H fr lg e = bind_r (chain_next H fr (obs_last_hash (ol_events lg)) e) (\<lambda>h. Inr (e\<lparr>oe_chain_hash := h\<rparr>))"

text \<open>\<open>append\<close>: the counter moves on even when the event is refused; a timestamp that is not finite passes the checks and
  makes the canonical form raise.\<close>

definition make_event ::
  "(string \<Rightarrow> string) \<Rightarrow> (rat \<Rightarrow> string) \<Rightarrow> obs_log \<Rightarrow> string \<Rightarrow> py_float \<Rightarrow> string \<Rightarrow> string \<Rightarrow> string \<Rightarrow> string \<Rightarrow> (string \<times> json) list \<Rightarrow> string list
     \<Rightarrow> obs_event result" where
  "make_event H fr lg kind ts actor task_id category region payload tags =
     bind_r (check_obs_event kind ts actor task_id category region payload tags) (\<lambda>_.
     case ts of
       Fin t \<Rightarrow> seal_event H fr lg \<lparr>oe_id = ol_counter lg, oe_kind = kind, oe_timestamp = t, oe_actor = actor, oe_task_id = task_id, oe_category = category,
         oe_region = region, oe_payload = payload, oe_tags = tags, oe_chain_hash = []\<rparr>
     | _ \<Rightarrow> Inl (ValueError ''Out of range float values are not JSON compliant''))"

definition log_append ::
  "(string \<Rightarrow> string) \<Rightarrow> (rat \<Rightarrow> string) \<Rightarrow> obs_log \<Rightarrow> string \<Rightarrow> py_float \<Rightarrow> string \<Rightarrow> string \<Rightarrow> string \<Rightarrow> string \<Rightarrow> (string \<times> json) list \<Rightarrow> string list
     \<Rightarrow> obs_log \<times> obs_event result" where
  "log_append H fr lg kind ts actor task_id category region payload tags =
     (case make_event H fr lg kind ts actor task_id category region payload tags of
        Inl e \<Rightarrow> (lg\<lparr>ol_counter := ol_counter lg + 1\<rparr>, Inl e)
      | Inr e \<Rightarrow> (lg\<lparr>ol_counter := ol_counter lg + 1, ol_events := ol_events lg @ [e]\<rparr>, Inr e))"

definition log_query ::
  "obs_log \<Rightarrow> string list option \<Rightarrow> string option \<Rightarrow> string option \<Rightarrow> string option \<Rightarrow> rat option \<Rightarrow> rat option \<Rightarrow> obs_event list" where
  "log_query lg kinds actor task_id region start until =
     filter (\<lambda>e. (case kinds of None \<Rightarrow> True | Some ks \<Rightarrow> ks = [] \<or> oe_kind e \<in> set ks)
       \<and> (case actor of None \<Rightarrow> True | Some a \<Rightarrow> oe_actor e = a) \<and> (case task_id of None \<Rightarrow> True | Some t \<Rightarrow> oe_task_id e = t)
       \<and> (case region of None \<Rightarrow> True | Some r \<Rightarrow> oe_region e = r)
       \<and> (case start of None \<Rightarrow> True | Some t \<Rightarrow> \<not> oe_timestamp e < t) \<and> (case until of None \<Rightarrow> True | Some t \<Rightarrow> \<not> oe_timestamp e > t)) (ol_events lg)"

definition log_remove :: "obs_log \<Rightarrow> int list \<Rightarrow> obs_log" where
  "log_remove lg ids = lg\<lparr>ol_events := filter (\<lambda>e. oe_id e \<notin> set ids) (ol_events lg)\<rparr>"

definition mark_archived :: "obs_log \<Rightarrow> obs_event list \<Rightarrow> obs_log" where
  "mark_archived lg es = lg\<lparr>ol_archived := ol_archived lg @ es\<rparr>"

definition pseudonymize_event :: "int list \<Rightarrow> string \<Rightarrow> obs_event \<Rightarrow> obs_event" where
  "pseudonymize_event ids replacement e =
     (if oe_id e \<in> set ids \<and> oe_actor e \<noteq> replacement
      then e\<lparr>oe_actor := replacement, oe_payload := AList.update ''pseudonymized'' (JBool True) (oe_payload e)\<rparr> else e)"

fun rechain :: "(string \<Rightarrow> string) \<Rightarrow> (rat \<Rightarrow> string) \<Rightarrow> string \<Rightarrow> obs_event list \<Rightarrow> obs_event list result" where
  "rechain H fr prev [] = Inr []"
| "rechain H fr prev (e # es) =
     bind_r (chain_next H fr prev e) (\<lambda>h. bind_r (rechain H fr h es) (\<lambda>rest. Inr (e\<lparr>oe_chain_hash := h\<rparr> # rest)))"

definition log_pseudonymize :: "(string \<Rightarrow> string) \<Rightarrow> (rat \<Rightarrow> string) \<Rightarrow> obs_log \<Rightarrow> int list \<Rightarrow> string \<Rightarrow> (obs_log \<times> nat) result" where
  "log_pseudonymize H fr lg ids replacement =
     bind_r (rechain H fr zero_hash (map (pseudonymize_event ids replacement) (ol_events lg))) (\<lambda>es.
     Inr (lg\<lparr>ol_events := es\<rparr>, length (filter (\<lambda>e. oe_id e \<in> set ids \<and> oe_actor e \<noteq> replacement) (ol_events lg))))"

fun chain_ok :: "(string \<Rightarrow> string) \<Rightarrow> (rat \<Rightarrow> string) \<Rightarrow> string \<Rightarrow> obs_event list \<Rightarrow> bool result" where
  "chain_ok H fr prev [] = Inr True"
| "chain_ok H fr prev (e # es) =
     bind_r (chain_next H fr prev e) (\<lambda>h. if oe_chain_hash e \<noteq> h then Inr False else chain_ok H fr (oe_chain_hash e) es)"

definition obs_verify_chain :: "(string \<Rightarrow> string) \<Rightarrow> (rat \<Rightarrow> string) \<Rightarrow> obs_log \<Rightarrow> bool result" where
  "obs_verify_chain H fr lg = chain_ok H fr zero_hash (ol_events lg)"

section \<open>Legal holds\<close>

record hold_scope =
  hs_user :: "string option"
  hs_task_id :: "string option"
  hs_start :: "rat option"
  hs_end :: "rat option"

definition mk_hold_scope :: "hold_scope \<Rightarrow> hold_scope result" where
  "mk_hold_scope s =
     bind_r (ensure (\<not> (hs_user s = None \<and> hs_task_id s = None \<and> hs_start s = None \<and> hs_end s = None))
       (ContractError ''hold scope must constrain user, task, or time'')) (\<lambda>_.
     bind_r (ensure (list_all (\<lambda>v. case v of None \<Rightarrow> True | Some t \<Rightarrow> \<not> blank t) [hs_user s, hs_task_id s])
       (ContractError ''hold scope user/task must be nonempty strings'')) (\<lambda>_.
     bind_r (ensure (case (hs_start s, hs_end s) of (Some a, Some b) \<Rightarrow> \<not> b < a | _ \<Rightarrow> True) (ContractError ''hold scope time range is inverted'')) (\<lambda>_.
     Inr s)))"

definition scope_matches :: "hold_scope \<Rightarrow> obs_event \<Rightarrow> bool" where
  "scope_matches s e =
     ((case hs_user s of None \<Rightarrow> True | Some u \<Rightarrow> oe_actor e = u) \<and> (case hs_task_id s of None \<Rightarrow> True | Some t \<Rightarrow> oe_task_id e = t)
      \<and> (case hs_start s of None \<Rightarrow> True | Some a \<Rightarrow> \<not> oe_timestamp e < a) \<and> (case hs_end s of None \<Rightarrow> True | Some b \<Rightarrow> \<not> oe_timestamp e > b))"

record legal_hold =
  lh_id :: int
  lh_scope :: hold_scope
  lh_reason :: string
  lh_active :: bool
  lh_activate_receipt :: string
  lh_release_receipt :: string

record archive_record =
  ar_event :: obs_event
  ar_digest :: string

record compliance =
  cm_log :: obs_log
  cm_holds :: "legal_hold list"
  cm_hold_counter :: int
  cm_archive :: "archive_record list"
  cm_erased :: "string list"

definition opt_json :: "('a \<Rightarrow> json) \<Rightarrow> 'a option \<Rightarrow> json" where
  "opt_json f v = (case v of None \<Rightarrow> JNull | Some x \<Rightarrow> f x)"

definition activation_payload :: "(rat \<Rightarrow> string) \<Rightarrow> hold_scope \<Rightarrow> string \<Rightarrow> (string \<times> json) list" where
  "activation_payload fr scope reason =
     [(''action'', JStr ''activate''), (''reason'', JStr reason),
      (''scope'', JObj [(''user'', opt_json JStr (hs_user scope)), (''task_id'', opt_json JStr (hs_task_id scope)),
         (''start'', opt_json (\<lambda>t. JFloat (fr t)) (hs_start scope)), (''end'', opt_json (\<lambda>t. JFloat (fr t)) (hs_end scope))])]"

definition activate_hold ::
  "(string \<Rightarrow> string) \<Rightarrow> (rat \<Rightarrow> string) \<Rightarrow> compliance \<Rightarrow> hold_scope \<Rightarrow> string \<Rightarrow> py_float \<Rightarrow> string \<Rightarrow> compliance \<times> legal_hold result" where
  "activate_hold H fr c scope reason ts actor =
     (if blank reason then (c, Inl (ContractError ''legal hold requires a reason''))
      else case log_append H fr (cm_log c) ''legal_hold'' ts actor ''system'' ''sox'' ''local''
          (activation_payload fr scope reason) [''SOX-CC7.2''] of
        (lg, Inl e) \<Rightarrow> (c\<lparr>cm_log := lg\<rparr>, Inl e)
      | (lg, Inr ev) \<Rightarrow>
          let hold = \<lparr>lh_id = cm_hold_counter c, lh_scope = scope, lh_reason = reason, lh_active = True, lh_activate_receipt = oe_chain_hash ev,
                lh_release_receipt = []\<rparr>
          in (c\<lparr>cm_log := lg, cm_holds := cm_holds c @ [hold], cm_hold_counter := cm_hold_counter c + 1\<rparr>, Inr hold))"

text \<open>\<open>release\<close> replaces the first hold with the identifier.\<close>

definition release_hold :: "(string \<Rightarrow> string) \<Rightarrow> (rat \<Rightarrow> string) \<Rightarrow> compliance \<Rightarrow> int \<Rightarrow> py_float \<Rightarrow> string \<Rightarrow> compliance \<times> legal_hold result" where
  "release_hold H fr c hid ts actor =
     (case find (\<lambda>i. lh_id (cm_holds c ! i) = hid) [0..<length (cm_holds c)] of
        None \<Rightarrow> (c, Inl (ContractError ''unknown hold id''))
      | Some i \<Rightarrow>
          let h = cm_holds c ! i in
          if \<not> lh_active h then (c, Inl (ContractError ''hold already released''))
          else case log_append H fr (cm_log c) ''legal_hold'' ts actor ''system'' ''sox'' ''local''
              [(''action'', JStr ''release''), (''hold_id'', JInt hid), (''reason'', JStr (lh_reason h))] [''SOX-CC7.2''] of
            (lg, Inl e) \<Rightarrow> (c\<lparr>cm_log := lg\<rparr>, Inl e)
          | (lg, Inr ev) \<Rightarrow>
              let h' = h\<lparr>lh_active := False, lh_release_receipt := oe_chain_hash ev\<rparr>
              in (c\<lparr>cm_log := lg, cm_holds := (cm_holds c)[i := h']\<rparr>, Inr h'))"

definition hold_blocked :: "legal_hold list \<Rightarrow> obs_event \<Rightarrow> bool" where
  "hold_blocked holds e = list_ex (\<lambda>h. lh_active h \<and> scope_matches (lh_scope h) e) holds"

section \<open>Retention\<close>

definition SECONDS_PER_YEAR :: int where
  "SECONDS_PER_YEAR = 365 * 86400"

type_synonym retention_policy = "(string, int) dict"

definition DEFAULT_RETENTION_YEARS :: retention_policy where
  "DEFAULT_RETENTION_YEARS = [(''sox'', 7), (''operational'', 3), (''debug'', 1)]"

definition mk_retention_policy :: "retention_policy \<Rightarrow> retention_policy result" where
  "mk_retention_policy p =
     bind_r (iter_r (\<lambda>(c, y). bind_r (ensure (c \<in> set CATEGORIES) (ContractError ''unknown retention category'')) (\<lambda>_.
       ensure (y \<ge> 1) (ContractError ''retention years must be positive integers''))) p) (\<lambda>_.
     bind_r (ensure (set CATEGORIES \<subseteq> fst ` set p) (ContractError ''retention policy missing categories'')) (\<lambda>_.
     Inr p))"

definition max_age_seconds :: "retention_policy \<Rightarrow> string \<Rightarrow> int result" where
  "max_age_seconds p category = bind_r (dict_get p category) (\<lambda>y. Inr (y * SECONDS_PER_YEAR))"

text \<open>\<open>not (now - event.timestamp < max_age)\<close>: the comparison is false for infinity and for a value that is not a number.\<close>

definition event_expired :: "py_float \<Rightarrow> int \<Rightarrow> obs_event \<Rightarrow> bool" where
  "event_expired now age e = (case now of Fin t \<Rightarrow> \<not> t - oe_timestamp e < of_int age | Neg_Inf \<Rightarrow> False | _ \<Rightarrow> True)"

definition archive_event :: "(string \<Rightarrow> string) \<Rightarrow> (rat \<Rightarrow> string) \<Rightarrow> obs_event \<Rightarrow> archive_record result" where
  "archive_event H fr e =
     bind_r (canonical (obs_event_body fr e)) (\<lambda>t.
     Inr \<lparr>ar_event = e, ar_digest = H (''residual.compliance.archive.v1'' @ newline # t @ newline # oe_chain_hash e)\<rparr>)"

record retention_report =
  rr_archived :: "int list"
  rr_deleted :: "int list"
  rr_held :: "int list"
  rr_receipt :: string

text \<open>The loop over the events: the archive as far as it got, the archived events, and the identifiers held back. An exception
  keeps what has been archived.\<close>

fun retention_loop ::
  "(string \<Rightarrow> string) \<Rightarrow> (rat \<Rightarrow> string) \<Rightarrow> retention_policy \<Rightarrow> py_float \<Rightarrow> legal_hold list option \<Rightarrow> archive_record list \<Rightarrow> obs_event list
     \<Rightarrow> archive_record list \<times> (int list \<times> int list) result" where
  "retention_loop H fr p now holds arch [] = (arch, Inr ([], []))"
| "retention_loop H fr p now holds arch (e # es) =
     (case max_age_seconds p (oe_category e) of
        Inl err \<Rightarrow> (arch, Inl err)
      | Inr age \<Rightarrow>
          if \<not> event_expired now age e then retention_loop H fr p now holds arch es
          else if (case holds of None \<Rightarrow> False | Some hs \<Rightarrow> hold_blocked hs e) then
            (case retention_loop H fr p now holds arch es of
               (arch', Inl err) \<Rightarrow> (arch', Inl err)
             | (arch', Inr (del, held)) \<Rightarrow> (arch', Inr (del, oe_id e # held)))
          else case archive_event H fr e of
            Inl err \<Rightarrow> (arch, Inl err)
          | Inr r \<Rightarrow>
              (case retention_loop H fr p now holds (arch @ [r]) es of
                 (arch', Inl err) \<Rightarrow> (arch', Inl err)
               | (arch', Inr (del, held)) \<Rightarrow> (arch', Inr (oe_id e # del, held))))"

definition enforce_retention ::
  "(string \<Rightarrow> string) \<Rightarrow> (rat \<Rightarrow> string) \<Rightarrow> compliance \<Rightarrow> retention_policy \<Rightarrow> py_float \<Rightarrow> bool \<Rightarrow> string \<Rightarrow> compliance \<times> retention_report result" where
  "enforce_retention H fr c p now with_holds actor =
     (if float_negative now then (c, Inl (ContractError ''retention clock must be nonnegative''))
      else case retention_loop H fr p now (if with_holds then Some (cm_holds c) else None) (cm_archive c) (ol_events (cm_log c)) of
        (arch, Inl err) \<Rightarrow> (c\<lparr>cm_archive := arch\<rparr>, Inl err)
      | (arch, Inr (del, held)) \<Rightarrow>
          let lg = mark_archived (log_remove (cm_log c) del) (map ar_event (filter (\<lambda>r. oe_id (ar_event r) \<in> set del) arch)) in
          case log_append H fr lg ''retention'' now actor ''system'' ''operational'' ''local''
              [(''archived'', JArr (map JInt (sort del))), (''deleted'', JArr (map JInt (sort del))), (''held'', JArr (map JInt (sort held)))]
              [''SOX-CC7.2'', ''ISO27001-A.12.4''] of
            (lg', Inl err) \<Rightarrow> (c\<lparr>cm_log := lg', cm_archive := arch\<rparr>, Inl err)
          | (lg', Inr ev) \<Rightarrow> (c\<lparr>cm_log := lg', cm_archive := arch\<rparr>,
              Inr \<lparr>rr_archived = sort del, rr_deleted = sort del, rr_held = sort held, rr_receipt = oe_chain_hash ev\<rparr>))"

section \<open>Erasure\<close>

record erasure_result =
  er_user :: string
  er_pseudonym :: string
  er_count :: nat
  er_receipt :: string

definition pseudonym_of :: "(string \<Rightarrow> string \<Rightarrow> string) \<Rightarrow> string \<Rightarrow> string \<Rightarrow> string" where
  "pseudonym_of hm salt user = ''erased-'' @ take 32 (hm salt user)"

definition erasure_payload :: "string \<Rightarrow> nat \<Rightarrow> (string \<times> json) list" where
  "erasure_payload pseudonym count =
     [(''action'', JStr ''pseudonymize''), (''pseudonym'', JStr pseudonym), (''events_pseudonymized'', JInt (int count)),
      (''salt_destroyed'', JBool True), (''article'', JStr ''GDPR-Art17'')]"

definition erase_user ::
  "(string \<Rightarrow> string) \<Rightarrow> (rat \<Rightarrow> string) \<Rightarrow> (string \<Rightarrow> string \<Rightarrow> string) \<Rightarrow> string \<Rightarrow> compliance \<Rightarrow> string \<Rightarrow> py_float \<Rightarrow> string
     \<Rightarrow> compliance \<times> erasure_result result" where
  "erase_user H fr hm salt c user ts actor =
     (if blank user then (c, Inl (ContractError ''erasure requires a user identity''))
      else if user \<in> set (cm_erased c) then (c, Inl (ContractError ''user already erased''))
      else
        let pseudonym = pseudonym_of hm salt user;
            ids = map oe_id (filter (\<lambda>e. oe_actor e = user) (ol_events (cm_log c))) in
        case log_pseudonymize H fr (cm_log c) ids pseudonym of
          Inl e \<Rightarrow> (c, Inl e)
        | Inr (lg, count) \<Rightarrow>
            (case log_append H fr lg ''erasure'' ts actor ''system'' ''sox'' ''local''
                (erasure_payload pseudonym count) [''GDPR-Art17''] of
               (lg', Inl e) \<Rightarrow> (c\<lparr>cm_log := lg'\<rparr>, Inl e)
             | (lg', Inr ev) \<Rightarrow> (c\<lparr>cm_log := lg', cm_erased := user # cm_erased c\<rparr>,
                 Inr \<lparr>er_user = user, er_pseudonym = pseudonym, er_count = count, er_receipt = oe_chain_hash ev\<rparr>)))"

section \<open>Runs\<close>

datatype compliance_op =
    Log_Append string py_float string string string string "(string \<times> json) list" "string list"
  | Hold_Activate hold_scope string py_float string
  | Hold_Release int py_float string
  | Retain retention_policy py_float string
  | Erase string string py_float string

fun compliance_step :: "(string \<Rightarrow> string) \<Rightarrow> (rat \<Rightarrow> string) \<Rightarrow> (string \<Rightarrow> string \<Rightarrow> string) \<Rightarrow> compliance \<Rightarrow> compliance_op \<Rightarrow> compliance" where
  "compliance_step H fr hm c (Log_Append kind ts actor task_id category region payload tags) =
     c\<lparr>cm_log := fst (log_append H fr (cm_log c) kind ts actor task_id category region payload tags)\<rparr>"
| "compliance_step H fr hm c (Hold_Activate scope reason ts actor) = fst (activate_hold H fr c scope reason ts actor)"
| "compliance_step H fr hm c (Hold_Release hid ts actor) = fst (release_hold H fr c hid ts actor)"
| "compliance_step H fr hm c (Retain p now actor) = fst (enforce_retention H fr c p now True actor)"
| "compliance_step H fr hm c (Erase salt user ts actor) = fst (erase_user H fr hm salt c user ts actor)"

definition compliance_run :: "(string \<Rightarrow> string) \<Rightarrow> (rat \<Rightarrow> string) \<Rightarrow> (string \<Rightarrow> string \<Rightarrow> string) \<Rightarrow> compliance \<Rightarrow> compliance_op list \<Rightarrow> compliance" where
  "compliance_run H fr hm c ops = foldl (compliance_step H fr hm) c ops"

text \<open>The identifiers of a log are distinct and below its counter, and its events have a canonical form.\<close>

definition event_finite :: "obs_event \<Rightarrow> bool" where
  "event_finite e = finite_json (JObj (oe_payload e))"

definition obs_log_ok :: "obs_log \<Rightarrow> bool" where
  "obs_log_ok lg = (distinct (map oe_id (ol_events lg)) \<and> list_all (\<lambda>e. oe_id e < ol_counter lg \<and> event_finite e) (ol_events lg))"

lemma finite_body: "finite_json (obs_event_body fr e) = event_finite e"
  unfolding obs_event_body_def event_finite_def by (simp add: list_all_iff)

lemma chain_next_ok: "event_finite e \<Longrightarrow> chain_next H fr prev e = Inr (H (prev @ newline # dumps (obs_event_body fr e)))"
  by (simp add: chain_next_def canonical_def finite_body)

lemma make_event_ok:
  assumes "make_event H fr lg kind ts actor task_id category region payload tags = Inr e"
  shows "oe_id e = ol_counter lg \<and> event_finite e \<and> chain_next H fr (obs_last_hash (ol_events lg)) e = Inr (oe_chain_hash e)"
proof -
  obtain t h where e: "ts = Fin t" "canonical (JObj payload) \<noteq> Inl (ValueError ''Out of range float values are not JSON compliant'')"
    "e = \<lparr>oe_id = ol_counter lg, oe_kind = kind, oe_timestamp = t, oe_actor = actor, oe_task_id = task_id, oe_category = category,
         oe_region = region, oe_payload = payload, oe_tags = tags, oe_chain_hash = h\<rparr>"
    and h: "chain_next H fr (obs_last_hash (ol_events lg)) \<lparr>oe_id = ol_counter lg, oe_kind = kind, oe_timestamp = t, oe_actor = actor, oe_task_id = task_id,
         oe_category = category, oe_region = region, oe_payload = payload, oe_tags = tags, oe_chain_hash = []\<rparr> = Inr h"
    using assms by (auto simp: make_event_def seal_event_def check_obs_event_def result_simps split: py_float.splits)
  have "event_finite e" using e(2,3) by (auto simp: event_finite_def canonical_def split: if_splits)
  moreover have "chain_next H fr (obs_last_hash (ol_events lg)) e = Inr h" using h e(3) by (simp add: chain_next_def obs_event_body_def)
  ultimately show ?thesis using e(3) by simp
qed

text \<open>An append either only moves the counter or adds one sealed event at the end.\<close>

lemma log_append_cases:
  obtains (refused) err where "log_append H fr lg kind ts actor task_id category region payload tags = (lg\<lparr>ol_counter := ol_counter lg + 1\<rparr>, Inl err)"
  | (added) e where "log_append H fr lg kind ts actor task_id category region payload tags =
        (lg\<lparr>ol_counter := ol_counter lg + 1, ol_events := ol_events lg @ [e]\<rparr>, Inr e)"
      "oe_id e = ol_counter lg" "event_finite e" "chain_next H fr (obs_last_hash (ol_events lg)) e = Inr (oe_chain_hash e)"
  using make_event_ok [of H fr lg kind ts actor task_id category region payload tags]
  by (cases "make_event H fr lg kind ts actor task_id category region payload tags") (auto simp: log_append_def)

lemma obs_log_ok_append:
  assumes "obs_log_ok lg"
  shows "obs_log_ok (fst (log_append H fr lg kind ts actor task_id category region payload tags))
    \<and> set (ol_events lg) \<subseteq> set (ol_events (fst (log_append H fr lg kind ts actor task_id category region payload tags)))"
  by (cases rule: log_append_cases [of H fr lg kind ts actor task_id category region payload tags])
    (use assms in \<open>fastforce simp: obs_log_ok_def list_all_iff\<close>)+

section \<open>Chains\<close>

lemma chain_next_hash [simp]: "chain_next H fr prev (e\<lparr>oe_chain_hash := h\<rparr>) = chain_next H fr prev e"
  by (simp add: chain_next_def obs_event_body_def)

lemma event_finite_hash [simp]: "event_finite (e\<lparr>oe_chain_hash := h\<rparr>) = event_finite e"
  by (simp add: event_finite_def)

lemma rechain_ok:
  assumes "list_all event_finite es"
  obtains es' where "rechain H fr prev es = Inr es'" "list_all2 (\<lambda>e e'. \<exists>h. e' = e\<lparr>oe_chain_hash := h\<rparr>) es es'" "chain_ok H fr prev es' = Inr True"
  using assms
proof (induction es arbitrary: prev thesis)
  case Nil
  then show ?case by simp
next
  case (Cons e es)
  let ?h = "H (prev @ newline # dumps (obs_event_body fr e))"
  obtain es' where "rechain H fr ?h es = Inr es'" "list_all2 (\<lambda>e e'. \<exists>h. e' = e\<lparr>oe_chain_hash := h\<rparr>) es es'" "chain_ok H fr ?h es' = Inr True"
    using Cons.IH [of ?h] Cons.prems by auto
  then show ?case using Cons.prems(2) by (intro Cons.prems(1) [of "e\<lparr>oe_chain_hash := ?h\<rparr> # es'"]) (auto simp: chain_next_ok)
qed

lemma chain_ok_append:
  assumes "chain_ok H fr prev es = Inr True" and "chain_next H fr (if es = [] then prev else oe_chain_hash (last es)) e = Inr (oe_chain_hash e)"
  shows "chain_ok H fr prev (es @ [e]) = Inr True"
  using assms by (induction es arbitrary: prev) (auto simp: result_simps split: if_splits)

lemma chain_append:
  assumes "obs_verify_chain H fr lg = Inr True"
  shows "obs_verify_chain H fr (fst (log_append H fr lg kind ts actor task_id category region payload tags)) = Inr True"
  by (cases rule: log_append_cases [of H fr lg kind ts actor task_id category region payload tags])
    (use assms in \<open>auto simp: obs_verify_chain_def obs_last_hash_def intro!: chain_ok_append\<close>)

section \<open>Erasure and retention of a log\<close>

lemma pseudonymize_finite: "event_finite e \<Longrightarrow> event_finite (pseudonymize_event ids r e)"
  by (auto simp: pseudonymize_event_def event_finite_def list_all_iff dest!: update_mem)

lemma pseudonymize_fields [simp]:
  "oe_id (pseudonymize_event ids r e) = oe_id e" "oe_task_id (pseudonymize_event ids r e) = oe_task_id e"
  "oe_timestamp (pseudonymize_event ids r e) = oe_timestamp e"
  by (simp_all add: pseudonymize_event_def)

text \<open>Pseudonymization succeeds, keeps identifiers, and yields a chain that verifies.\<close>

lemma log_pseudonymize_ok:
  assumes "obs_log_ok lg"
  obtains lg' n where "log_pseudonymize H fr lg ids r = Inr (lg', n)" "obs_log_ok lg'" "obs_verify_chain H fr lg' = Inr True"
    "list_all2 (\<lambda>e e'. \<exists>h. e' = (pseudonymize_event ids r e)\<lparr>oe_chain_hash := h\<rparr>) (ol_events lg) (ol_events lg')"
proof -
  let ?es = "map (pseudonymize_event ids r) (ol_events lg)"
  have "list_all event_finite ?es" using assms by (simp add: obs_log_ok_def list_all_iff pseudonymize_finite)
  then obtain es' where es': "rechain H fr zero_hash ?es = Inr es'" "list_all2 (\<lambda>e e'. \<exists>h. e' = e\<lparr>oe_chain_hash := h\<rparr>) ?es es'"
    "chain_ok H fr zero_hash es' = Inr True" by (rule rechain_ok)
  have same: "list_all2 (\<lambda>e e'. \<exists>h. e' = (pseudonymize_event ids r e)\<lparr>oe_chain_hash := h\<rparr>) (ol_events lg) es'"
    using es'(2) by (simp add: list_all2_map1)
  then have "list_all2 (\<lambda>e e'. oe_id e' = oe_id e \<and> (event_finite e \<longrightarrow> event_finite e')) (ol_events lg) es'"
    by (rule list_all2_mono) (auto intro: pseudonymize_finite)
  then have "map oe_id es' = map oe_id (ol_events lg)" "list_all (\<lambda>e. oe_id e < ol_counter lg \<and> event_finite e) es'"
    using assms unfolding obs_log_ok_def by (induction rule: list_all2_induct) auto
  then have "obs_log_ok (lg\<lparr>ol_events := es'\<rparr>)" using assms by (simp add: obs_log_ok_def)
  then show ?thesis using es'(1,3) same that by (simp add: log_pseudonymize_def obs_verify_chain_def)
qed

definition retention_dead :: "retention_policy \<Rightarrow> py_float \<Rightarrow> legal_hold list option \<Rightarrow> obs_event \<Rightarrow> bool" where
  "retention_dead p now holds e =
     (case max_age_seconds p (oe_category e) of Inl _ \<Rightarrow> False
      | Inr age \<Rightarrow> event_expired now age e \<and> \<not> (case holds of None \<Rightarrow> False | Some hs \<Rightarrow> hold_blocked hs e))"

text \<open>What the loop archives and deletes are the expired events without a hold, in order.\<close>

lemma retention_loop_result:
  assumes "retention_loop H fr p now holds arch es = (arch', Inr (del, held))"
  shows "del = map oe_id (filter (retention_dead p now holds) es) \<and> (\<exists>rs. arch' = arch @ rs \<and> map ar_event rs = filter (retention_dead p now holds) es)"
  using assms
proof (induction es arbitrary: arch del held)
  case Nil
  then show ?case by simp
next
  case (Cons e es)
  obtain age where age: "max_age_seconds p (oe_category e) = Inr age" using Cons.prems by (auto split: sum.splits)
  let ?bl = "case holds of None \<Rightarrow> False | Some hs \<Rightarrow> hold_blocked hs e"
  consider (keep) "\<not> event_expired now age e" | (held) "event_expired now age e" "?bl" | (dead) "event_expired now age e" "\<not> ?bl" by blast
  then show ?case
  proof cases
    case keep
    then have "retention_loop H fr p now holds arch es = (arch', Inr (del, held))" "\<not> retention_dead p now holds e"
      using Cons.prems age by (simp_all add: retention_dead_def)
    then show ?thesis using Cons.IH by simp
  next
    case held
    then obtain held' where "retention_loop H fr p now holds arch es = (arch', Inr (del, held'))"
      using Cons.prems age by (auto split: prod.splits sum.splits)
    moreover have "\<not> retention_dead p now holds e" using held age by (simp add: retention_dead_def)
    ultimately show ?thesis using Cons.IH by simp
  next
    case dead
    then obtain r del' where r: "archive_event H fr e = Inr r" "retention_loop H fr p now holds (arch @ [r]) es = (arch', Inr (del', held))" "del = oe_id e # del'"
      using Cons.prems age by (auto split: prod.splits sum.splits)
    have "ar_event r = e" using r(1) by (auto simp: archive_event_def result_simps)
    moreover have "retention_dead p now holds e" using dead age by (simp add: retention_dead_def)
    ultimately show ?thesis using Cons.IH [OF r(2)] r(3) by auto
  qed
qed

lemma obs_log_ok_remove: "obs_log_ok lg \<Longrightarrow> obs_log_ok (mark_archived (log_remove lg ids) es)"
  by (auto simp: obs_log_ok_def mark_archived_def log_remove_def list_all_iff distinct_map_filter)

text \<open>A retention run leaves the holds alone and every event that is not dead in the log.\<close>

lemma enforce_retention_keeps:
  assumes "obs_log_ok (cm_log c)" and "fst (enforce_retention H fr c p now True actor) = c'"
  shows "obs_log_ok (cm_log c') \<and> cm_holds c' = cm_holds c
    \<and> (\<forall>e \<in> set (ol_events (cm_log c)). \<not> retention_dead p now (Some (cm_holds c)) e \<longrightarrow> e \<in> set (ol_events (cm_log c')))"
proof (cases "float_negative now")
  case True
  then show ?thesis using assms by (simp add: enforce_retention_def)
next
  case False
  obtain arch res where loop: "retention_loop H fr p now (Some (cm_holds c)) (cm_archive c) (ol_events (cm_log c)) = (arch, res)" by fastforce
  show ?thesis
  proof (cases res)
    case (Inl err)
    then show ?thesis using assms False loop by (auto simp: enforce_retention_def)
  next
    case (Inr dh)
    obtain del held where dh: "dh = (del, held)" by fastforce
    let ?es = "ol_events (cm_log c)"
    define lg where "lg = mark_archived (log_remove (cm_log c) del) (map ar_event (filter (\<lambda>r. oe_id (ar_event r) \<in> set del) arch))"
    define ap where "ap = log_append H fr lg ''retention'' now actor ''system'' ''operational'' ''local''
        [(''archived'', JArr (map JInt (sort del))), (''deleted'', JArr (map JInt (sort del))), (''held'', JArr (map JInt (sort held)))]
        [''SOX-CC7.2'', ''ISO27001-A.12.4'']"
    have del: "del = map oe_id (filter (retention_dead p now (Some (cm_holds c))) ?es)"
      using retention_loop_result loop Inr dh by blast
    have "obs_log_ok lg" unfolding lg_def using assms(1) by (rule obs_log_ok_remove)
    then have ap: "obs_log_ok (fst ap)" "set (ol_events lg) \<subseteq> set (ol_events (fst ap))" unfolding ap_def using obs_log_ok_append by blast+
    have c': "cm_log c' = fst ap" "cm_holds c' = cm_holds c"
      using assms(2) False loop Inr dh by (auto simp: enforce_retention_def lg_def [symmetric] ap_def [symmetric] Let_def split: prod.splits sum.splits)
    have "e \<in> set (ol_events lg)" if e: "e \<in> set ?es" "\<not> retention_dead p now (Some (cm_holds c)) e" for e
    proof -
      have "oe_id e \<notin> set del"
      proof
        assume "oe_id e \<in> set del"
        then obtain x where x: "x \<in> set ?es" "retention_dead p now (Some (cm_holds c)) x" "oe_id x = oe_id e" using del by auto
        then have "x = e" using assms(1) e(1) by (auto simp: obs_log_ok_def distinct_map inj_on_def)
        then show False using x(2) e(2) by simp
      qed
      then show ?thesis using e(1) by (simp add: lg_def mark_archived_def log_remove_def)
    qed
    then show ?thesis using c' ap by auto
  qed
qed

section \<open>Holds protect\<close>

lemma scope_matches_eq:
  "oe_task_id e' = oe_task_id e \<Longrightarrow> oe_timestamp e' = oe_timestamp e \<Longrightarrow> oe_actor e' = oe_actor e \<or> hs_user sc = None
     \<Longrightarrow> scope_matches sc e' = scope_matches sc e"
  by (auto simp: scope_matches_def split: option.splits)

text \<open>A hold and an event in its scope, and the operations that leave them alone.\<close>

definition protected :: "int \<Rightarrow> hold_scope \<Rightarrow> int \<Rightarrow> compliance \<Rightarrow> bool" where
  "protected hid sc i c = (obs_log_ok (cm_log c) \<and> (\<exists>h \<in> set (cm_holds c). lh_id h = hid \<and> lh_active h \<and> lh_scope h = sc)
     \<and> (\<exists>e \<in> set (ol_events (cm_log c)). oe_id e = i \<and> scope_matches sc e))"

fun leaves_hold :: "int \<Rightarrow> hold_scope \<Rightarrow> compliance_op \<Rightarrow> bool" where
  "leaves_hold hid sc (Hold_Release k ts actor) = (k \<noteq> hid)"
| "leaves_hold hid sc (Erase salt user ts actor) = (hs_user sc \<noteq> Some user)"
| "leaves_hold hid sc _ = True"

lemma protected_log:
  assumes "protected hid sc i c" and "obs_log_ok lg" and "set (ol_events (cm_log c)) \<subseteq> set (ol_events lg)" and "set (cm_holds c) \<subseteq> set hs"
  shows "protected hid sc i (c\<lparr>cm_log := lg, cm_holds := hs, cm_hold_counter := k\<rparr>)"
  using assms unfolding protected_def by auto

lemma activate_protected:
  assumes "protected hid sc i c"
  shows "protected hid sc i (fst (activate_hold H fr c scope reason ts actor))"
proof (cases "blank reason")
  case True
  then show ?thesis using assms by (simp add: activate_hold_def)
next
  case False
  define ap where "ap = log_append H fr (cm_log c) ''legal_hold'' ts actor ''system'' ''sox'' ''local''
          (activation_payload fr scope reason) [''SOX-CC7.2'']"
  have ok: "obs_log_ok (fst ap)" "set (ol_events (cm_log c)) \<subseteq> set (ol_events (fst ap))"
    unfolding ap_def using obs_log_ok_append assms by (auto simp: protected_def)
  obtain lg res where ap: "ap = (lg, res)" by fastforce
  have "\<exists>hs k. set (cm_holds c) \<subseteq> set hs \<and> fst (activate_hold H fr c scope reason ts actor) = c\<lparr>cm_log := lg, cm_holds := hs, cm_hold_counter := k\<rparr>"
  proof (cases res)
    case (Inl e)
    then have "fst (activate_hold H fr c scope reason ts actor) = c\<lparr>cm_log := lg, cm_holds := cm_holds c, cm_hold_counter := cm_hold_counter c\<rparr>"
      using False ap by (simp add: activate_hold_def ap_def [symmetric])
    then show ?thesis by blast
  next
    case (Inr ev)
    then obtain hd where "fst (activate_hold H fr c scope reason ts actor) = c\<lparr>cm_log := lg, cm_holds := cm_holds c @ [hd], cm_hold_counter := cm_hold_counter c + 1\<rparr>"
      using False ap by (auto simp: activate_hold_def ap_def [symmetric] Let_def)
    then show ?thesis by (intro exI [of _ "cm_holds c @ [hd]"] exI [of _ "cm_hold_counter c + 1"]) auto
  qed
  then show ?thesis using protected_log [OF assms ok] ap by auto
qed

lemma release_protected:
  assumes "protected hid sc i c" and "k \<noteq> hid"
  shows "protected hid sc i (fst (release_hold H fr c k ts actor))"
proof (cases "find (\<lambda>i. lh_id (cm_holds c ! i) = k) [0..<length (cm_holds c)]")
  case None
  then show ?thesis using assms by (simp add: release_hold_def)
next
  case (Some j)
  then have j: "j < length (cm_holds c)" "lh_id (cm_holds c ! j) = k" by (auto simp: find_Some_iff)
  let ?h = "cm_holds c ! j"
  define ap where "ap = log_append H fr (cm_log c) ''legal_hold'' ts actor ''system'' ''sox'' ''local''
              [(''action'', JStr ''release''), (''hold_id'', JInt k), (''reason'', JStr (lh_reason ?h))] [''SOX-CC7.2'']"
  have ok: "obs_log_ok (fst ap)" "set (ol_events (cm_log c)) \<subseteq> set (ol_events (fst ap))"
    unfolding ap_def using obs_log_ok_append assms by (auto simp: protected_def)
  have keep: "\<exists>h \<in> set ((cm_holds c)[j := h']). lh_id h = hid \<and> lh_active h \<and> lh_scope h = sc" for h'
  proof -
    obtain n where n: "n < length (cm_holds c)" "lh_id (cm_holds c ! n) = hid" "lh_active (cm_holds c ! n)" "lh_scope (cm_holds c ! n) = sc"
      using assms(1) by (auto simp: protected_def in_set_conv_nth)
    then have "n \<noteq> j" using j assms(2) by auto
    then have "(cm_holds c)[j := h'] ! n = cm_holds c ! n" by simp
    then show ?thesis using n by (intro bexI [of _ "cm_holds c ! n"]) (auto simp: in_set_conv_nth intro!: exI [of _ n])
  qed
  obtain lg res where ap: "ap = (lg, res)" by fastforce
  show ?thesis
    using assms(1) ok ap keep Some by (cases res) (auto simp: release_hold_def ap_def [symmetric] Let_def protected_def)
qed

lemma retain_protected:
  assumes "protected hid sc i c"
  shows "protected hid sc i (fst (enforce_retention H fr c p now True actor))"
proof -
  obtain h e where h: "h \<in> set (cm_holds c)" "lh_id h = hid" "lh_active h" "lh_scope h = sc" and e: "e \<in> set (ol_events (cm_log c))" "oe_id e = i" "scope_matches sc e"
    using assms by (auto simp: protected_def)
  have "hold_blocked (cm_holds c) e" using h e by (auto simp: hold_blocked_def list_ex_iff)
  then have "\<not> retention_dead p now (Some (cm_holds c)) e" by (simp add: retention_dead_def split: sum.splits)
  then show ?thesis using enforce_retention_keeps [OF _ refl, of c H fr p now actor] assms e h by (auto simp: protected_def)
qed

lemma erase_protected:
  assumes "protected hid sc i c" and "hs_user sc \<noteq> Some user"
  shows "protected hid sc i (fst (erase_user H fr hm salt c user ts actor))"
proof (cases "blank user \<or> user \<in> set (cm_erased c)")
  case True
  then show ?thesis using assms by (auto simp: erase_user_def)
next
  case False
  let ?r = "pseudonym_of hm salt user" and ?ids = "map oe_id (filter (\<lambda>e. oe_actor e = user) (ol_events (cm_log c)))"
  have lo: "obs_log_ok (cm_log c)" using assms(1) by (simp add: protected_def)
  obtain lg n where lg: "log_pseudonymize H fr (cm_log c) ?ids ?r = Inr (lg, n)" "obs_log_ok lg"
    "list_all2 (\<lambda>e e'. \<exists>h. e' = (pseudonymize_event ?ids ?r e)\<lparr>oe_chain_hash := h\<rparr>) (ol_events (cm_log c)) (ol_events lg)"
    by (rule log_pseudonymize_ok [OF lo, of H fr ?ids ?r])
  obtain e where e: "e \<in> set (ol_events (cm_log c))" "oe_id e = i" "scope_matches sc e" using assms(1) by (auto simp: protected_def)
  then obtain h where e': "(pseudonymize_event ?ids ?r e)\<lparr>oe_chain_hash := h\<rparr> \<in> set (ol_events lg)"
    using lg(3) unfolding list_all2_conv_all_nth in_set_conv_nth by metis
  have "oe_actor (pseudonymize_event ?ids ?r e) = oe_actor e \<or> hs_user sc = None"
  proof (cases "hs_user sc")
    case (Some u)
    then have u: "oe_actor e = u" "u \<noteq> user" using e(3) assms(2) by (auto simp: scope_matches_def)
    have "oe_id e \<notin> set ?ids"
    proof
      assume "oe_id e \<in> set ?ids"
      then obtain x where x: "x \<in> set (ol_events (cm_log c))" "oe_actor x = user" "oe_id x = oe_id e" by auto
      then have "x = e" using lo e(1) by (auto simp: obs_log_ok_def distinct_map inj_on_def)
      then show False using x(2) u by simp
    qed
    then show ?thesis by (simp add: pseudonymize_event_def)
  qed simp
  then have m: "scope_matches sc ((pseudonymize_event ?ids ?r e)\<lparr>oe_chain_hash := h\<rparr>)"
    using e(3) scope_matches_eq [of "(pseudonymize_event ?ids ?r e)\<lparr>oe_chain_hash := h\<rparr>" e sc] by simp
  define ap where "ap = log_append H fr lg ''erasure'' ts actor ''system'' ''sox'' ''local''
      (erasure_payload ?r n) [''GDPR-Art17'']"
  have ok: "obs_log_ok (fst ap)" "set (ol_events lg) \<subseteq> set (ol_events (fst ap))" unfolding ap_def using obs_log_ok_append [OF lg(2)] by blast+
  have er: "cm_log (fst (erase_user H fr hm salt c user ts actor)) = fst ap" "cm_holds (fst (erase_user H fr hm salt c user ts actor)) = cm_holds c"
    using False lg(1) by (auto simp: erase_user_def Let_def ap_def [symmetric] split: prod.splits sum.splits)
  have "\<exists>x \<in> set (ol_events (fst ap)). oe_id x = i \<and> scope_matches sc x"
    using e' ok(2) m e(2) by (intro bexI [of _ "(pseudonymize_event ?ids ?r e)\<lparr>oe_chain_hash := h\<rparr>"]) auto
  then show ?thesis using er assms(1) ok(1) by (simp add: protected_def)
qed

lemma compliance_step_protected: "protected hid sc i c \<Longrightarrow> leaves_hold hid sc op \<Longrightarrow> protected hid sc i (compliance_step H fr hm c op)"
proof (cases op)
  case (Log_Append kind ts actor task_id category region payload tags)
  assume p: "protected hid sc i c"
  then have "obs_log_ok (cm_log c)" by (simp add: protected_def)
  from obs_log_ok_append [OF this, of H fr kind ts actor task_id category region payload tags]
  show ?thesis using protected_log [OF p, of _ "cm_holds c" "cm_hold_counter c"] Log_Append by simp
qed (simp_all add: activate_protected release_protected retain_protected erase_protected)


section \<open>The chain\<close>

definition chain_inv :: "(string \<Rightarrow> string) \<Rightarrow> (rat \<Rightarrow> string) \<Rightarrow> compliance \<Rightarrow> bool" where
  "chain_inv H fr c = (obs_log_ok (cm_log c) \<and> obs_verify_chain H fr (cm_log c) = Inr True)"

fun is_retain :: "compliance_op \<Rightarrow> bool" where
  "is_retain (Retain p now actor) = True"
| "is_retain _ = False"

lemma chain_inv_append:
  assumes "obs_log_ok lg" and "obs_verify_chain H fr lg = Inr True" and "cm_log c' = fst (log_append H fr lg kind ts actor task_id category region payload tags)"
  shows "chain_inv H fr c'"
  using assms obs_log_ok_append chain_append unfolding chain_inv_def by metis

lemma erase_chain:
  assumes "chain_inv H fr c"
  shows "chain_inv H fr (fst (erase_user H fr hm salt c user ts actor))"
proof (cases "blank user \<or> user \<in> set (cm_erased c)")
  case True
  then show ?thesis using assms by (auto simp: erase_user_def)
next
  case False
  let ?r = "pseudonym_of hm salt user" and ?ids = "map oe_id (filter (\<lambda>e. oe_actor e = user) (ol_events (cm_log c)))"
  have lo: "obs_log_ok (cm_log c)" using assms by (simp add: chain_inv_def)
  obtain lg n where lg: "log_pseudonymize H fr (cm_log c) ?ids ?r = Inr (lg, n)" "obs_log_ok lg" "obs_verify_chain H fr lg = Inr True"
    by (rule log_pseudonymize_ok [OF lo, of H fr ?ids ?r])
  have "cm_log (fst (erase_user H fr hm salt c user ts actor)) =
      fst (log_append H fr lg ''erasure'' ts actor ''system'' ''sox'' ''local'' (erasure_payload ?r n) [''GDPR-Art17''])"
    using False lg(1) by (auto simp: erase_user_def Let_def split: prod.splits sum.splits)
  then show ?thesis by (rule chain_inv_append [OF lg(2,3)])
qed

lemma activate_chain:
  assumes "chain_inv H fr c"
  shows "chain_inv H fr (fst (activate_hold H fr c scope reason ts actor))"
proof (cases "blank reason")
  case True
  then show ?thesis using assms by (simp add: activate_hold_def)
next
  case False
  then have "cm_log (fst (activate_hold H fr c scope reason ts actor)) =
      fst (log_append H fr (cm_log c) ''legal_hold'' ts actor ''system'' ''sox'' ''local'' (activation_payload fr scope reason) [''SOX-CC7.2''])"
    by (auto simp: activate_hold_def Let_def split: prod.splits sum.splits)
  then show ?thesis using assms by (intro chain_inv_append) (auto simp: chain_inv_def)
qed

lemma release_chain:
  assumes "chain_inv H fr c"
  shows "chain_inv H fr (fst (release_hold H fr c k ts actor))"
proof (cases "find (\<lambda>i. lh_id (cm_holds c ! i) = k) [0..<length (cm_holds c)]")
  case None
  then show ?thesis using assms by (simp add: release_hold_def)
next
  case (Some i)
  show ?thesis
  proof (cases "lh_active (cm_holds c ! i)")
    case False
    then show ?thesis using assms Some by (simp add: release_hold_def)
  next
    case True
    then have "cm_log (fst (release_hold H fr c k ts actor)) = fst (log_append H fr (cm_log c) ''legal_hold'' ts actor ''system'' ''sox'' ''local''
        [(''action'', JStr ''release''), (''hold_id'', JInt k), (''reason'', JStr (lh_reason (cm_holds c ! i)))] [''SOX-CC7.2''])"
      using Some by (auto simp: release_hold_def Let_def split: prod.splits sum.splits)
    then show ?thesis using assms by (intro chain_inv_append) (auto simp: chain_inv_def)
  qed
qed

text \<open>Appends, holds, releases and erasures keep the chain verifiable.\<close>

lemma chain_survives:
  assumes "chain_inv H fr c" and "list_all (\<lambda>op. \<not> is_retain op) ops"
  shows "chain_inv H fr (compliance_run H fr hm c ops)"
proof -
  have step: "chain_inv H fr (compliance_step H fr hm c op)" if "chain_inv H fr c" "\<not> is_retain op" for c op
  proof (cases op)
    case (Log_Append kind ts actor task_id category region payload tags)
    then show ?thesis using that(1) by (intro chain_inv_append [of "cm_log c"]) (auto simp: chain_inv_def)
  qed (use that in \<open>simp_all add: erase_chain activate_chain release_chain\<close>)
  show ?thesis
    using assms unfolding compliance_run_def by (induction ops arbitrary: c) (simp_all add: step)
qed

section \<open>Instances\<close>

definition empty_compliance :: compliance where
  "empty_compliance = \<lparr>cm_log = new_log, cm_holds = [], cm_hold_counter = 1, cm_archive = [], cm_erased = []\<rparr>"

definition sample_events :: "compliance_op list" where
  "sample_events = [Log_Append ''observation'' (Fin 0) ''alice'' ''t1'' ''debug'' ''local'' [] [],
     Log_Append ''observation'' (Fin 0) ''bob'' ''t1'' ''operational'' ''local'' [] []]"

definition sample_repr :: "rat \<Rightarrow> string" where
  "sample_repr t = ''0.0''"

definition sample_run_of :: "compliance_op list \<Rightarrow> compliance" where
  "sample_run_of ops = compliance_run id sample_repr (\<lambda>salt user. salt) empty_compliance (sample_events @ ops)"

definition sample_scope :: "string option \<Rightarrow> string option \<Rightarrow> hold_scope" where
  "sample_scope user task = \<lparr>hs_user = user, hs_task_id = task, hs_start = None, hs_end = None\<rparr>"

text \<open>A retention run after two years deletes the debug event and keeps the operational one; the chain no longer verifies.\<close>

lemma retention_breaks_chain:
  "obs_verify_chain id sample_repr (cm_log (sample_run_of [])) = Inr True"
  "map oe_id (ol_events (cm_log (sample_run_of [Retain DEFAULT_RETENTION_YEARS (Fin 63072000) ''c'']))) = [2, 3]"
  "obs_verify_chain id sample_repr (cm_log (sample_run_of [Retain DEFAULT_RETENTION_YEARS (Fin 63072000) ''c''])) = Inr False"
  by code_simp+

text \<open>Alice is under an active hold when she is erased; her event loses its actor, the hold no longer matches it, and the next retention
  run deletes it.\<close>

lemma erasure_lifts_hold:
  "map oe_id (ol_events (cm_log (sample_run_of [Hold_Activate (sample_scope (Some ''alice'') None) ''case'' (Fin 0) ''c'',
      Retain DEFAULT_RETENTION_YEARS (Fin 63072000) ''c'']))) = [1, 2, 3, 4]"
  "map oe_id (ol_events (cm_log (sample_run_of [Hold_Activate (sample_scope (Some ''alice'') None) ''case'' (Fin 0) ''c'', Erase ''salt'' ''alice'' (Fin 0) ''c'',
      Retain DEFAULT_RETENTION_YEARS (Fin 63072000) ''c'']))) = [2, 3, 4, 5]"
  "map lh_active (cm_holds (sample_run_of [Hold_Activate (sample_scope (Some ''alice'') None) ''case'' (Fin 0) ''c'', Erase ''salt'' ''alice'' (Fin 0) ''c'',
      Retain DEFAULT_RETENTION_YEARS (Fin 63072000) ''c''])) = [True]"
  by code_simp+

text \<open>With a clock value that is not a number every event counts as expired: all are deleted, and the run raises without a receipt.\<close>

lemma nan_clock_deletes_all:
  "enforce_retention id sample_repr (sample_run_of []) DEFAULT_RETENTION_YEARS Not_A_Number True ''c'' =
     (fst (enforce_retention id sample_repr (sample_run_of []) DEFAULT_RETENTION_YEARS Not_A_Number True ''c''),
      Inl (ValueError ''Out of range float values are not JSON compliant''))"
  "ol_events (cm_log (fst (enforce_retention id sample_repr (sample_run_of []) DEFAULT_RETENTION_YEARS Not_A_Number True ''c''))) = []"
  by code_simp+


end
