(* ===== verification/Cic.thy ===== *)
theory Cic
  imports Core
begin

text \<open>
  Finite constraint grouping, \<open>src/residual/cic.py\<close>: validation of a model, exact and partial consistency, the interaction graph,
  elimination certificates, connected components and the bounded feasibility search.

  \<^item> A model that passes \<open>validate_model\<close> is the record \<open>cic_model\<close>. The sets of the graph are lists without duplicates; where the
    source iterates over a set, the result does not depend on the order.
  \<^item> The search returns the answer, whether the budget was exhausted, and the number of nodes.
  \<^item> Shown: the search answers \<open>SAT\<close> only with an assignment of the model, \<open>UNSAT\<close> only if there is none, and \<open>UNKNOWN\<close> only when
    its budget is used up; a model has an assignment exactly if the model of every connected component has one.
\<close>

section \<open>Models\<close>

record cic_model =
  ci_domains :: "(string, int list) dict"
  ci_different :: "(string \<times> string) list"
  ci_less :: "(string \<times> string) list"
  ci_sums :: "(string list \<times> int) list"

definition json_int :: "json \<Rightarrow> int" where
  "json_int v = (case v of JInt i \<Rightarrow> i | _ \<Rightarrow> 0)"

definition json_str :: "json \<Rightarrow> string" where
  "json_str v = (case v of JStr s \<Rightarrow> s | _ \<Rightarrow> [])"

definition small_int :: "json \<Rightarrow> bool" where
  "small_int v = (case v of JInt i \<Rightarrow> \<bar>i\<bar> \<le> 10 ^ 6 | _ \<Rightarrow> False)"

definition known_key :: "(string, int list) dict \<Rightarrow> json \<Rightarrow> bool" where
  "known_key doms v = (case v of JStr s \<Rightarrow> map_of doms s \<noteq> None | _ \<Rightarrow> False)"

definition read_domain :: "string \<times> json \<Rightarrow> (string \<times> int list) result" where
  "read_domain kv =
     bind_r (mk_identifier (fst kv)) (\<lambda>_.
     case snd kv of
       JArr vs \<Rightarrow>
         bind_r (ensure (1 \<le> length vs \<and> length vs \<le> 64 \<and> list_all small_int vs \<and> distinct vs)
           (ContractError ''invalid structural domain'')) (\<lambda>_.
         Inr (fst kv, map json_int vs))
     | _ \<Rightarrow> Inl (ContractError ''invalid structural domain''))"

definition scope_error :: error where
  "scope_error = ContractError ''invalid structural constraint scope''"

definition read_scope :: "(string, int list) dict \<Rightarrow> json \<Rightarrow> string list result" where
  "read_scope doms v =
     (case v of
        JArr ks \<Rightarrow>
          bind_r (ensure (1 \<le> length ks \<and> length ks \<le> 32 \<and> list_all (known_key doms) ks) scope_error) (\<lambda>_.
          Inr (map json_str ks))
      | _ \<Rightarrow> Inl scope_error)"

definition read_pair :: "(string, int list) dict \<Rightarrow> json \<Rightarrow> (string \<times> string) result" where
  "read_pair doms v = bind_r (read_scope doms v) (\<lambda>ks. case ks of [a, b] \<Rightarrow> Inr (a, b) | _ \<Rightarrow> Inl scope_error)"

definition exact_keys :: "(string \<times> json) list \<Rightarrow> string list \<Rightarrow> bool" where
  "exact_keys kvs names = (fst ` set kvs = set names)"

definition read_sum :: "(string, int list) dict \<Rightarrow> json \<Rightarrow> (string list \<times> int) result" where
  "read_sum doms v =
     (case v of
        JObj kvs \<Rightarrow>
          (case (map_of kvs ''keys'', map_of kvs ''equals'') of
             (Some ks, Some (JInt n)) \<Rightarrow>
               bind_r (ensure (exact_keys kvs [''keys'', ''equals''] \<and> \<bar>n\<bar> \<le> 32 * 10 ^ 6) (ContractError ''invalid structural sum'')) (\<lambda>_.
               bind_r (read_scope doms ks) (\<lambda>scope.
               bind_r (ensure (distinct scope) scope_error) (\<lambda>_. Inr (scope, n))))
           | _ \<Rightarrow> Inl (ContractError ''invalid structural sum''))
      | _ \<Rightarrow> Inl (ContractError ''invalid structural sum''))"

text \<open>\<open>model.get(kind, [])\<close> with the running count of constraints.\<close>

definition read_rules :: "(json \<Rightarrow> 'a result) \<Rightarrow> (string \<times> json) list \<Rightarrow> string \<Rightarrow> nat \<Rightarrow> ('a list \<times> nat) result" where
  "read_rules f kvs kind n =
     (case map_of kvs kind of
        None \<Rightarrow> Inr ([], n)
      | Some (JArr rules) \<Rightarrow>
          bind_r (ensure (n + length rules \<le> 128) (ContractError ''too many structural constraints'')) (\<lambda>_.
          bind_r (map_r f rules) (\<lambda>rs. Inr (rs, n + length rules)))
      | Some _ \<Rightarrow> Inl (ContractError ''invalid structural constraints''))"

definition validate_model :: "json \<Rightarrow> cic_model result" where
  "validate_model v =
     (case v of
        JObj kvs \<Rightarrow>
          bind_r (ensure (fst ` set kvs \<subseteq> {''domains'', ''different'', ''less_than'', ''sums''}) (ContractError ''unsupported structural model'')) (\<lambda>_.
          case map_of kvs ''domains'' of
            Some (JObj ds) \<Rightarrow>
              bind_r (ensure (1 \<le> length ds \<and> length ds \<le> 32) (ContractError ''structural model requires 1..32 variables'')) (\<lambda>_.
              bind_r (map_r read_domain ds) (\<lambda>doms.
              bind_r (read_rules (read_pair doms) kvs ''different'' 0) (\<lambda>(df, n1).
              bind_r (read_rules (read_pair doms) kvs ''less_than'' n1) (\<lambda>(lt, n2).
              bind_r (read_rules (read_sum doms) kvs ''sums'' n2) (\<lambda>(sm, n3).
              Inr \<lparr>ci_domains = doms, ci_different = df, ci_less = lt, ci_sums = sm\<rparr>)))))
          | _ \<Rightarrow> Inl (ContractError ''structural model requires 1..32 variables''))
      | _ \<Rightarrow> Inl (ContractError ''unsupported structural model''))"

text \<open>The dictionary of a model, as the functions below receive it and validate it again.\<close>

definition pair_json :: "string \<times> string \<Rightarrow> json" where
  "pair_json r = JArr [JStr (fst r), JStr (snd r)]"

definition sum_json :: "string list \<times> int \<Rightarrow> json" where
  "sum_json r = JObj [(''keys'', JArr (map JStr (fst r))), (''equals'', JInt (snd r))]"

definition model_json :: "cic_model \<Rightarrow> json" where
  "model_json m =
     JObj [(''domains'', JObj (map (\<lambda>(k, d). (k, JArr (map JInt d))) (ci_domains m))), (''different'', JArr (map pair_json (ci_different m))),
       (''less_than'', JArr (map pair_json (ci_less m))), (''sums'', JArr (map sum_json (ci_sums m)))]"

section \<open>Consistency\<close>

type_synonym assignment = "(string, int) dict"

definition domain_of :: "cic_model \<Rightarrow> string \<Rightarrow> int list" where
  "domain_of m k = (case map_of (ci_domains m) k of None \<Rightarrow> [] | Some d \<Rightarrow> d)"

definition value_or :: "assignment \<Rightarrow> string \<Rightarrow> int \<Rightarrow> int" where
  "value_or vs k d = (case map_of vs k of None \<Rightarrow> d | Some v \<Rightarrow> v)"

definition both_ok :: "(int \<Rightarrow> int \<Rightarrow> bool) \<Rightarrow> assignment \<Rightarrow> string \<times> string \<Rightarrow> bool" where
  "both_ok P vs r = (case (map_of vs (fst r), map_of vs (snd r)) of (Some a, Some b) \<Rightarrow> P a b | _ \<Rightarrow> True)"

definition sum_ok :: "cic_model \<Rightarrow> assignment \<Rightarrow> string list \<times> int \<Rightarrow> bool" where
  "sum_ok m vs r =
     (sum_list (map (\<lambda>k. value_or vs k (Min (set (domain_of m k)))) (fst r)) \<le> snd r
      \<and> snd r \<le> sum_list (map (\<lambda>k. value_or vs k (Max (set (domain_of m k)))) (fst r)))"

definition consistent :: "cic_model \<Rightarrow> assignment \<Rightarrow> bool \<Rightarrow> bool" where
  "consistent m vs complete =
     (fst ` set vs \<subseteq> fst ` set (ci_domains m) \<and> (complete \<longrightarrow> fst ` set vs = fst ` set (ci_domains m))
      \<and> list_all (\<lambda>(k, v). v \<in> set (domain_of m k)) vs
      \<and> list_all (both_ok (\<noteq>) vs) (ci_different m) \<and> list_all (both_ok (<) vs) (ci_less m) \<and> list_all (sum_ok m vs) (ci_sums m))"

text \<open>A candidate value of the checker: every member must be an integer.\<close>

definition consistent_value :: "cic_model \<Rightarrow> json \<Rightarrow> bool \<Rightarrow> bool" where
  "consistent_value m v complete =
     (case v of
        JObj kvs \<Rightarrow> list_all (\<lambda>(k, x). is_int x) kvs \<and> consistent m (map (\<lambda>(k, x). (k, json_int x)) kvs) complete
      | _ \<Rightarrow> False)"

section \<open>The interaction graph\<close>

type_synonym graph = "(string, string list) dict"

fun pairs :: "'a list \<Rightarrow> ('a \<times> 'a) list" where
  "pairs [] = []"
| "pairs (x # xs) = map (Pair x) xs @ pairs xs"

definition nbrs :: "graph \<Rightarrow> string \<Rightarrow> string list" where
  "nbrs g k = (case map_of g k of None \<Rightarrow> [] | Some ns \<Rightarrow> ns)"

definition add_edge :: "graph \<Rightarrow> string \<times> string \<Rightarrow> graph" where
  "add_edge g e =
     (let g' = AList.update (fst e) (List.insert (snd e) (nbrs g (fst e))) g in
      AList.update (snd e) (List.insert (fst e) (nbrs g' (snd e))) g')"

definition scopes :: "cic_model \<Rightarrow> string list list" where
  "scopes m = map (\<lambda>(a, b). [a, b]) (ci_different m) @ map (\<lambda>(a, b). [a, b]) (ci_less m) @ map fst (ci_sums m)"

definition graph_of :: "cic_model \<Rightarrow> graph" where
  "graph_of m =
     foldl (\<lambda>g scope. foldl add_edge g (pairs (sort (remdups scope)))) (map (\<lambda>(k, d). (k, [])) (ci_domains m)) (scopes m)"

definition interaction_graph :: "cic_model \<Rightarrow> graph result" where
  "interaction_graph m = bind_r (validate_model (model_json m)) (\<lambda>_. Inr (graph_of m))"

definition graph_copy :: "graph \<Rightarrow> graph result" where
  "graph_copy g =
     bind_r (ensure (length g \<le> 32) (ContractError ''invalid structural graph'')) (\<lambda>_.
     bind_r (ensure (list_all (\<lambda>(k, ns). k \<notin> set ns \<and> set ns \<subseteq> fst ` set g \<and> list_all (\<lambda>n. k \<in> set (nbrs g n)) ns) g)
       (ContractError ''graph must be undirected without self edges'')) (\<lambda>_. Inr g))"

record elimination_step =
  es_node :: string
  es_neighbors :: "string list"
  es_fill :: "(string \<times> string) list"

definition fill_edges :: "graph \<Rightarrow> string \<Rightarrow> (string \<times> string) list" where
  "fill_edges g node = filter (\<lambda>(a, b). b \<notin> set (nbrs g a)) (pairs (sort (nbrs g node)))"

definition eliminate :: "graph \<Rightarrow> string \<Rightarrow> graph \<times> elimination_step" where
  "eliminate g node =
     (map (\<lambda>(k, ns). (k, removeAll node ns)) (AList.delete node (foldl add_edge g (fill_edges g node))),
      \<lparr>es_node = node, es_neighbors = sort (nbrs g node), es_fill = fill_edges g node\<rparr>)"

fun eliminate_all :: "graph \<Rightarrow> string list \<Rightarrow> elimination_step list" where
  "eliminate_all g [] = []"
| "eliminate_all g (n # ns) = snd (eliminate g n) # eliminate_all (fst (eliminate g n)) ns"

record certificate =
  ce_ordering :: "string list"
  ce_width :: nat
  ce_steps :: "elimination_step list"

definition elimination_certificate :: "graph \<Rightarrow> string list \<Rightarrow> certificate result" where
  "elimination_certificate g order =
     bind_r (graph_copy g) (\<lambda>g'.
     bind_r (ensure (length order = length g' \<and> set order = fst ` set g') (ContractError ''elimination order must be an exact permutation'')) (\<lambda>_.
     Inr \<lparr>ce_ordering = order, ce_width = fold max (map (\<lambda>s. length (es_neighbors s)) (eliminate_all g' order)) 0,
          ce_steps = eliminate_all g' order\<rparr>))"

definition fill_score :: "graph \<Rightarrow> string \<Rightarrow> nat \<times> nat \<times> string" where
  "fill_score g node = (length (fill_edges g node), length (nbrs g node), node)"

fun min_by :: "('a \<Rightarrow> 'b :: linorder) \<Rightarrow> 'a \<Rightarrow> 'a list \<Rightarrow> 'a" where
  "min_by f x [] = x"
| "min_by f x (y # ys) = (if f y < f x then min_by f y ys else min_by f x ys)"

text \<open>\<open>while remaining\<close>: every step removes one node, so the number of nodes bounds the loop (\<open>min_fill_order_complete\<close>).\<close>

fun min_fill_order :: "nat \<Rightarrow> graph \<Rightarrow> string list" where
  "min_fill_order n [] = []"
| "min_fill_order 0 (kv # g) = []"
| "min_fill_order (Suc n) (kv # g) =
     (let node = min_by (fill_score (kv # g)) (fst kv) (map fst g) in node # min_fill_order n (fst (eliminate (kv # g) node)))"

definition min_fill :: "graph \<Rightarrow> certificate result" where
  "min_fill g = bind_r (graph_copy g) (\<lambda>g'. elimination_certificate g (min_fill_order (length g') g'))"

definition step_json :: "elimination_step \<Rightarrow> json" where
  "step_json s =
     JObj [(''node'', JStr (es_node s)), (''neighbors'', JArr (map JStr (es_neighbors s))), (''fill_edges'', JArr (map pair_json (es_fill s)))]"

definition certificate_json :: "certificate \<Rightarrow> json" where
  "certificate_json c =
     JObj [(''ordering'', JArr (map JStr (ce_ordering c))), (''width_upper_bound'', JInt (int (ce_width c))), (''steps'', JArr (map step_json (ce_steps c)))]"

text \<open>The certificate is any value; every exception of its replay is a refusal.\<close>

definition verify_certificate :: "graph \<Rightarrow> json \<Rightarrow> bool" where
  "verify_certificate g v =
     (case (canonical v, v) of
        (Inr text, JObj kvs) \<Rightarrow>
          (case map_of kvs ''ordering'' of
             Some (JArr ns) \<Rightarrow>
               list_all is_str ns \<and>
               (case elimination_certificate g (map json_str ns) of
                  Inl e \<Rightarrow> False
                | Inr c \<Rightarrow> canonical (certificate_json c) = Inr text)
           | _ \<Rightarrow> False)
      | _ \<Rightarrow> False)"

section \<open>Components\<close>

function explore :: "graph \<Rightarrow> string list \<Rightarrow> string list \<Rightarrow> string list" where
  "explore g [] found = found"
| "explore g (node # pending) found =
     (if node \<in> set found then explore g pending found
      else explore g (filter (\<lambda>n. n \<notin> set (node # found)) (nbrs g node) @ pending) (node # found))"
  by pat_completeness auto

termination
proof (relation "measures [\<lambda>(g, pending, found). card (fst ` set g - set found), \<lambda>(g, pending, found). length pending]")
  fix g :: graph and node and pending found :: "string list"
  assume new: "node \<notin> set found"
  show "((g, filter (\<lambda>n. n \<notin> set (node # found)) (nbrs g node) @ pending, node # found), g, node # pending, found)
    \<in> measures [\<lambda>(g, pending, found). card (fst ` set g - set found), \<lambda>(g, pending, found). length pending]"
  proof (cases "node \<in> fst ` set g")
    case True
    then have "card (fst ` set g - insert node (set found)) < card (fst ` set g - set found)" using new by (intro psubset_card_mono) auto
    then show ?thesis by simp
  next
    case False
    then have "nbrs g node = []" "fst ` set g - insert node (set found) = fst ` set g - set found"
      by (auto simp: nbrs_def map_of_eq_None_iff [THEN iffD2])
    then show ?thesis by simp
  qed
qed auto

lemma explore_found: "set found \<union> set pending \<subseteq> set (explore g pending found)"
  by (induction g pending found rule: explore.induct) auto

function components_from :: "graph \<Rightarrow> string list \<Rightarrow> string list list" where
  "components_from g [] = []"
| "components_from g (k # ks) =
     (let found = explore g [Min (set (k # ks))] [] in sort found # components_from g (filter (\<lambda>n. n \<notin> set found) (k # ks)))"
  by pat_completeness auto

termination
proof (relation "measure (\<lambda>(g, ks). length ks)")
  fix g :: graph and k and ks found :: "string list"
  assume f: "found = explore g [Min (set (k # ks))] []"
  have "Min (set (k # ks)) \<in> set (k # ks)" by (intro Min_in) auto
  moreover have "Min (set (k # ks)) \<in> set found" using explore_found [of "[]" "[Min (set (k # ks))]" g] f by auto
  ultimately have "length (filter (\<lambda>n. n \<notin> set found) (k # ks)) < length (k # ks)" by (intro length_filter_less [of "Min (set (k # ks))"]) simp_all
  then show "((g, filter (\<lambda>n. n \<notin> set found) (k # ks)), g, k # ks) \<in> measure (\<lambda>(g, ks). length ks)" by (simp del: filter.simps)
qed simp

definition components :: "graph \<Rightarrow> string list list" where
  "components g = components_from g (map fst g)"

section \<open>Feasibility\<close>

datatype search_status = SAT | UNSAT | UNKNOWN

record search_result =
  sr_status :: search_status
  sr_assignment :: "assignment option"
  sr_nodes :: int

text \<open>The search over the variables in order; the second argument of the loop lists the values of the current variable still to be tried.
  The answer, whether the budget is exhausted, and the number of nodes.\<close>

function search :: "cic_model \<Rightarrow> int \<Rightarrow> string list \<Rightarrow> assignment \<Rightarrow> int \<Rightarrow> assignment option \<times> bool \<times> int"
  and search_values :: "cic_model \<Rightarrow> int \<Rightarrow> string \<Rightarrow> int list \<Rightarrow> string list \<Rightarrow> assignment \<Rightarrow> int \<Rightarrow> assignment option \<times> bool \<times> int" where
  "search m mx [] vs n = (Some vs, False, n)"
| "search m mx (k # ks) vs n = search_values m mx k (domain_of m k) ks vs n"
| "search_values m mx k [] ks vs n = (None, False, n)"
| "search_values m mx k (d # ds) ks vs n =
     (if n \<ge> mx then (None, True, n)
      else if consistent m (vs @ [(k, d)]) False then
        (case search m mx ks (vs @ [(k, d)]) (n + 1) of
           (Some a, ex, n') \<Rightarrow> (Some a, ex, n')
         | (None, ex, n') \<Rightarrow> if ex then (None, True, n') else search_values m mx k ds ks vs n')
      else search_values m mx k ds ks vs (n + 1))"
  by pat_completeness auto

termination
  by (relation "measures [\<lambda>x. case x of Inl (m, mx, ks, vs, n) \<Rightarrow> 2 * length ks | Inr (m, mx, k, ds, ks, vs, n) \<Rightarrow> Suc (2 * length ks),
      \<lambda>x. case x of Inl (m, mx, ks, vs, n) \<Rightarrow> 0 | Inr (m, mx, k, ds, ks, vs, n) \<Rightarrow> length ds]") auto

definition feasibility :: "cic_model \<Rightarrow> string list \<Rightarrow> int \<Rightarrow> search_result result" where
  "feasibility m order mx =
     bind_r (validate_model (model_json m)) (\<lambda>_.
     bind_r (interaction_graph m) (\<lambda>g.
     bind_r (elimination_certificate g order) (\<lambda>_.
     bind_r (ensure (0 \<le> mx \<and> mx \<le> 1000000) (ContractError ''invalid feasibility budget'')) (\<lambda>_.
     case search m mx (rev order) [] 0 of
       (answer, exhausted, n) \<Rightarrow>
         Inr \<lparr>sr_status = (if answer \<noteq> None then SAT else if exhausted then UNKNOWN else UNSAT), sr_assignment = answer, sr_nodes = n\<rparr>))))"

definition restricted :: "cic_model \<Rightarrow> string list \<Rightarrow> cic_model" where
  "restricted m members =
     \<lparr>ci_domains = filter (\<lambda>(k, d). k \<in> set members) (ci_domains m), ci_different = filter (\<lambda>r. fst r \<in> set members) (ci_different m),
      ci_less = filter (\<lambda>r. fst r \<in> set members) (ci_less m), ci_sums = filter (\<lambda>r. hd (fst r) \<in> set members) (ci_sums m)\<rparr>"

section \<open>Valid models\<close>

definition model_ok :: "cic_model \<Rightarrow> bool" where
  "model_ok m =
     (distinct (map fst (ci_domains m)) \<and> 1 \<le> length (ci_domains m) \<and> length (ci_domains m) \<le> 32
      \<and> list_all (\<lambda>(k, d). ident_ok k \<and> 1 \<le> length d \<and> length d \<le> 64 \<and> list_all (\<lambda>i. \<bar>i\<bar> \<le> 10 ^ 6) d \<and> distinct d) (ci_domains m)
      \<and> list_all (\<lambda>r. fst r \<in> fst ` set (ci_domains m) \<and> snd r \<in> fst ` set (ci_domains m)) (ci_different m @ ci_less m)
      \<and> list_all (\<lambda>(ks, n). 1 \<le> length ks \<and> length ks \<le> 32 \<and> set ks \<subseteq> fst ` set (ci_domains m) \<and> distinct ks \<and> \<bar>n\<bar> \<le> 32 * 10 ^ 6) (ci_sums m)
      \<and> length (ci_different m) + length (ci_less m) + length (ci_sums m) \<le> 128)"

lemma read_domain_iff:
  "read_domain kv = Inr (k, d) \<longleftrightarrow>
     kv = (k, JArr (map JInt d)) \<and> ident_ok k \<and> 1 \<le> length d \<and> length d \<le> 64 \<and> list_all (\<lambda>i. \<bar>i\<bar> \<le> 10 ^ 6) d \<and> distinct d"
proof -
  have ints: "map JInt (map json_int vs) = vs"
    if "list_all small_int vs" for vs
    using that by (induction vs) (auto simp: small_int_def json_int_def split: json.splits)
  have unread: "map json_int (map JInt d) = d" for d :: "int list" by (induction d) (auto simp: json_int_def)
  have ok: "list_all small_int (map JInt d) = list_all (\<lambda>i. \<bar>i\<bar> \<le> 10 ^ 6) d" for d
    by (induction d) (auto simp: small_int_def)
  have dist: "distinct (map JInt d) = distinct d" for d by (simp add: distinct_map inj_on_def)
  show ?thesis
  proof
    assume r: "read_domain kv = Inr (k, d)"
    then obtain vs where j: "snd kv = JArr vs" by (cases "snd kv") (simp_all add: read_domain_def result_simps)
    have vs: "ident_ok (fst kv) \<and> k = fst kv \<and> 1 \<le> length vs \<and> length vs \<le> 64 \<and> distinct vs \<and> list_all small_int vs \<and> d = map json_int vs"
      using r unfolding read_domain_def j by (simp add: bind_ensure mk_identifier_def split: if_split_asm)
    have eq: "vs = map JInt d" using vs ints [of vs] by metis
    have "1 \<le> length vs" "length vs \<le> 64" "distinct vs" "list_all small_int vs" using vs by blast+
    then have "1 \<le> length d \<and> length d \<le> 64 \<and> list_all (\<lambda>i. \<bar>i\<bar> \<le> 10 ^ 6) d \<and> distinct d" unfolding eq by (simp add: ok dist)
    moreover have "k = fst kv" "ident_ok (fst kv)" using vs by blast+
    moreover have "snd kv = JArr (map JInt d)" using j unfolding eq .
    ultimately show "kv = (k, JArr (map JInt d)) \<and> ident_ok k \<and> 1 \<le> length d \<and> length d \<le> 64 \<and> list_all (\<lambda>i. \<bar>i\<bar> \<le> 10 ^ 6) d \<and> distinct d"
      by (cases kv) simp
  next
    assume "kv = (k, JArr (map JInt d)) \<and> ident_ok k \<and> 1 \<le> length d \<and> length d \<le> 64 \<and> list_all (\<lambda>i. \<bar>i\<bar> \<le> 10 ^ 6) d \<and> distinct d"
    then show "read_domain kv = Inr (k, d)" by (simp add: read_domain_def mk_identifier_def ok dist unread del: map_map)
  qed
qed

lemma read_scope_iff:
  "read_scope doms v = Inr ks \<longleftrightarrow> v = JArr (map JStr ks) \<and> 1 \<le> length ks \<and> length ks \<le> 32 \<and> set ks \<subseteq> fst ` set doms"
proof -
  have strs: "map JStr (map json_str vs) = vs \<and> set (map json_str vs) \<subseteq> fst ` set doms"
    if "list_all (known_key doms) vs" for vs
    using that by (induction vs) (auto simp: known_key_def json_str_def split: json.splits dest!: map_of_SomeD, force)
  have unread: "map json_str (map JStr ks) = ks" for ks by (induction ks) (auto simp: json_str_def)
  have ok: "list_all (known_key doms) (map JStr ks) = (set ks \<subseteq> fst ` set doms)" for ks
    by (induction ks) (auto simp: known_key_def map_of_eq_None_iff)
  show ?thesis
  proof
    assume "read_scope doms v = Inr ks"
    then obtain vs where vs: "v = JArr vs" "1 \<le> length vs" "length vs \<le> 32"
      "list_all (known_key doms) vs" "ks = map json_str vs"
      by (auto simp: read_scope_def result_simps split: json.splits)
    then show "v = JArr (map JStr ks) \<and> 1 \<le> length ks \<and> length ks \<le> 32 \<and> set ks \<subseteq> fst ` set doms" using strs by auto
  next
    assume "v = JArr (map JStr ks) \<and> 1 \<le> length ks \<and> length ks \<le> 32 \<and> set ks \<subseteq> fst ` set doms"
    then show "read_scope doms v = Inr ks" by (simp add: read_scope_def ok unread del: map_map)
  qed
qed

lemma read_pair_iff: "read_pair doms v = Inr r \<longleftrightarrow> v = pair_json r \<and> fst r \<in> fst ` set doms \<and> snd r \<in> fst ` set doms"
proof -
  have "(case ks of [a, b] \<Rightarrow> Inr (a, b) | _ \<Rightarrow> Inl scope_error) = Inr r \<longleftrightarrow> ks = [fst r, snd r]" for ks :: "string list"
    by (cases r) (auto split: list.splits)
  then have "read_pair doms v = Inr r \<longleftrightarrow> read_scope doms v = Inr [fst r, snd r]" by (auto simp: read_pair_def result_simps)
  then show ?thesis by (auto simp: read_scope_iff pair_json_def)
qed

lemma read_sum_sound:
  "read_sum doms v = Inr r \<Longrightarrow> 1 \<le> length (fst r) \<and> length (fst r) \<le> 32 \<and> set (fst r) \<subseteq> fst ` set doms \<and> distinct (fst r) \<and> \<bar>snd r\<bar> \<le> 32 * 10 ^ 6"
  by (auto simp: read_sum_def result_simps read_scope_iff split: json.split_asm option.split_asm)

lemma read_sum_json:
  "1 \<le> length (fst r) \<Longrightarrow> length (fst r) \<le> 32 \<Longrightarrow> set (fst r) \<subseteq> fst ` set doms \<Longrightarrow> distinct (fst r) \<Longrightarrow> \<bar>snd r\<bar> \<le> 32 * 10 ^ 6 \<Longrightarrow>
   read_sum doms (sum_json r) = Inr r"
proof -
  assume a: "1 \<le> length (fst r)" "length (fst r) \<le> 32" "set (fst r) \<subseteq> fst ` set doms" "distinct (fst r)" "\<bar>snd r\<bar> \<le> 32 * 10 ^ 6"
  then have "read_scope doms (JArr (map JStr (fst r))) = Inr (fst r)" by (simp add: read_scope_iff)
  then show ?thesis using a by (cases r) (simp add: read_sum_def sum_json_def exact_keys_def)
qed

lemma read_rules_iff:
  "read_rules f kvs kind n = Inr (rs, n') \<longleftrightarrow>
     (map_of kvs kind = None \<and> rs = [] \<and> n' = n) \<or>
     (\<exists>vs. map_of kvs kind = Some (JArr vs) \<and> list_all2 (\<lambda>v r. f v = Inr r) vs rs \<and> n' = n + length rs \<and> n' \<le> 128)"
  by (auto simp: read_rules_def result_simps map_r_Inr_iff split: option.splits json.splits dest: list_all2_lengthD)

lemma list_all2_results: "list_all2 (\<lambda>v r. f v = Inr r) vs rs \<Longrightarrow> (\<And>v r. f v = Inr r \<Longrightarrow> P r) \<Longrightarrow> list_all P rs"
  by (induction rule: list_all2_induct) auto

lemma list_all2_written: "(\<And>r. r \<in> set rs \<Longrightarrow> f (g r) = Inr (h r)) \<Longrightarrow> list_all2 (\<lambda>v r. f v = Inr r) (map g rs) (map h rs)"
  by (induction rs) auto

lemma read_rules_all: "read_rules f kvs kind n = Inr (rs, n') \<Longrightarrow> (\<And>v r. f v = Inr r \<Longrightarrow> P r) \<Longrightarrow> list_all P rs"
  by (auto simp: read_rules_iff elim: list_all2_results)

lemma validate_model_sound:
  assumes v: "validate_model v = Inr m" and d: "distinct_keys v"
  shows "model_ok m"
proof -
  obtain kvs ds df lt sm n1 n2 n3 doms where
    vk: "v = JObj kvs" "map_of kvs ''domains'' = Some (JObj ds)" "1 \<le> length ds" "length ds \<le> 32" "map_r read_domain ds = Inr doms"
    "read_rules (read_pair doms) kvs ''different'' 0 = Inr (df, n1)" "read_rules (read_pair doms) kvs ''less_than'' n1 = Inr (lt, n2)"
    "read_rules (read_sum doms) kvs ''sums'' n2 = Inr (sm, n3)" "m = \<lparr>ci_domains = doms, ci_different = df, ci_less = lt, ci_sums = sm\<rparr>"
    using v by (auto simp: validate_model_def result_simps split: json.splits option.splits)
  have dd: "list_all2 (\<lambda>x y. read_domain x = Inr y) ds doms" using vk(5) by (simp add: map_r_Inr_iff)
  then have keys: "map fst doms = map fst ds" by (induction rule: list_all2_induct) (auto simp: read_domain_iff)
  have "\<forall>x \<in> set kvs. distinct_keys (snd x)" using d vk(1) by (simp add: list_all_iff)
  then have "distinct_keys (JObj ds)" using map_of_SomeD [OF vk(2)] by (metis snd_conv)
  then have "distinct (map fst doms)" unfolding keys by simp
  moreover have "list_all (\<lambda>(k, d). ident_ok k \<and> 1 \<le> length d \<and> length d \<le> 64 \<and> list_all (\<lambda>i. \<bar>i\<bar> \<le> 10 ^ 6) d \<and> distinct d) doms"
    using dd by (rule list_all2_results) (auto simp: read_domain_iff)
  moreover have "list_all (\<lambda>r. fst r \<in> fst ` set doms \<and> snd r \<in> fst ` set doms) (df @ lt)"
    unfolding list_all_append by (intro conjI read_rules_all [OF vk(6)] read_rules_all [OF vk(7)]) (simp_all add: read_pair_iff)
  moreover have "list_all (\<lambda>(ks, n). 1 \<le> length ks \<and> length ks \<le> 32 \<and> set ks \<subseteq> fst ` set doms \<and> distinct ks \<and> \<bar>n\<bar> \<le> 32 * 10 ^ 6) sm"
    by (rule read_rules_all [OF vk(8)]) (use read_sum_sound [of doms] in \<open>fastforce simp: split_beta\<close>)
  moreover have "length df + length lt + length sm \<le> 128" using vk(6-8) by (auto simp: read_rules_iff)
  moreover have "length doms = length ds" using dd by (simp add: list_all2_lengthD)
  ultimately show ?thesis using vk by (simp add: model_ok_def)
qed

lemma validate_model_complete:
  assumes "model_ok m"
  shows "validate_model (model_json m) = Inr m"
proof -
  have d: "map_r read_domain (map (\<lambda>(k, d). (k, JArr (map JInt d))) (ci_domains m)) = Inr (map id (ci_domains m))"
    unfolding map_r_Inr_iff using assms by (intro list_all2_written) (auto simp: model_ok_def list_all_iff read_domain_iff)
  have p: "list_all2 (\<lambda>v r. read_pair (ci_domains m) v = Inr r) (map pair_json rs) (map id rs)"
    if "set rs \<subseteq> set (ci_different m @ ci_less m)" for rs
    using assms that by (intro list_all2_written) (auto simp: model_ok_def list_all_iff read_pair_iff)
  have s: "list_all2 (\<lambda>v r. read_sum (ci_domains m) v = Inr r) (map sum_json (ci_sums m)) (map id (ci_sums m))"
  proof (rule list_all2_written)
    fix r assume "r \<in> set (ci_sums m)"
    then have "case r of (ks, n) \<Rightarrow> 1 \<le> length ks \<and> length ks \<le> 32 \<and> set ks \<subseteq> fst ` set (ci_domains m) \<and> distinct ks \<and> \<bar>n\<bar> \<le> 32 * 10 ^ 6"
      using assms unfolding model_ok_def list_all_iff by blast
    then show "read_sum (ci_domains m) (sum_json r) = Inr (id r)" by (cases r) (simp add: read_sum_json)
  qed
  have rules: "read_rules (read_pair (ci_domains m)) kvs ''different'' 0 = Inr (ci_different m, length (ci_different m))"
      "read_rules (read_pair (ci_domains m)) kvs ''less_than'' (length (ci_different m)) = Inr (ci_less m, length (ci_different m) + length (ci_less m))"
      "read_rules (read_sum (ci_domains m)) kvs ''sums'' (length (ci_different m) + length (ci_less m)) =
         Inr (ci_sums m, length (ci_different m) + length (ci_less m) + length (ci_sums m))"
    if "map_of kvs ''different'' = Some (JArr (map pair_json (ci_different m)))" "map_of kvs ''less_than'' = Some (JArr (map pair_json (ci_less m)))"
      "map_of kvs ''sums'' = Some (JArr (map sum_json (ci_sums m)))" for kvs
    using that p [of "ci_different m"] p [of "ci_less m"] s assms by (simp_all add: read_rules_iff model_ok_def)
  show ?thesis using assms d by (simp add: model_json_def validate_model_def rules model_ok_def)
qed

lemma model_pair: "model_ok m \<Longrightarrow> r \<in> set (ci_different m) \<union> set (ci_less m) \<Longrightarrow> fst r \<in> fst ` set (ci_domains m) \<and> snd r \<in> fst ` set (ci_domains m)"
  by (simp add: model_ok_def list_all_iff)

lemma model_sum: "model_ok m \<Longrightarrow> r \<in> set (ci_sums m) \<Longrightarrow> set (fst r) \<subseteq> fst ` set (ci_domains m) \<and> fst r \<noteq> [] \<and> distinct (fst r)"
  by (cases r) (fastforce simp: model_ok_def list_all_iff)

section \<open>What a model means\<close>

definition satisfies :: "cic_model \<Rightarrow> (string \<Rightarrow> int) \<Rightarrow> bool" where
  "satisfies m f =
     ((\<forall>(k, d) \<in> set (ci_domains m). f k \<in> set d) \<and> (\<forall>(a, b) \<in> set (ci_different m). f a \<noteq> f b) \<and> (\<forall>(a, b) \<in> set (ci_less m). f a < f b)
      \<and> (\<forall>(ks, n) \<in> set (ci_sums m). sum_list (map f ks) = n))"

text \<open>\<open>agrees\<close>: the total assignment extends the partial one.\<close>

definition agrees :: "(string \<Rightarrow> int) \<Rightarrow> assignment \<Rightarrow> bool" where
  "agrees f vs = (\<forall>k v. map_of vs k = Some v \<longrightarrow> f k = v)"

lemma domain_of_eq: "model_ok m \<Longrightarrow> (k, d) \<in> set (ci_domains m) \<Longrightarrow> domain_of m k = d"
  by (simp add: domain_of_def model_ok_def)

lemma domain_of_mem: "model_ok m \<Longrightarrow> satisfies m f \<Longrightarrow> k \<in> fst ` set (ci_domains m) \<Longrightarrow> f k \<in> set (domain_of m k)"
  by (auto simp: satisfies_def domain_of_eq)

lemma sum_bounds:
  assumes "model_ok m" "satisfies m f" "agrees f vs" "set ks \<subseteq> fst ` set (ci_domains m)"
  shows "sum_list (map (\<lambda>k. value_or vs k (Min (set (domain_of m k)))) ks) \<le> sum_list (map f ks)"
    and "sum_list (map f ks) \<le> sum_list (map (\<lambda>k. value_or vs k (Max (set (domain_of m k)))) ks)"
  using assms by (auto simp: value_or_def agrees_def split: option.splits intro!: sum_list_mono Min_le Max_ge domain_of_mem)

lemma consistent_sound:
  assumes m: "model_ok m" and f: "satisfies m f" and a: "agrees f vs" and vs: "fst ` set vs \<subseteq> fst ` set (ci_domains m)" "distinct (map fst vs)"
  shows "consistent m vs False"
proof -
  have "v \<in> set (domain_of m k)" if "(k, v) \<in> set vs" for k v
    using that a vs domain_of_mem [OF m f, of k] by (force simp: agrees_def)
  moreover have "sum_ok m vs r" if "r \<in> set (ci_sums m)" for r
  proof -
    have "set (fst r) \<subseteq> fst ` set (ci_domains m)" "sum_list (map f (fst r)) = snd r"
      using that model_sum [OF m that] f by (auto simp: satisfies_def)
    then show ?thesis using sum_bounds [OF m f a, of "fst r"] by (simp add: sum_ok_def)
  qed
  moreover have "list_all (both_ok (\<noteq>) vs) (ci_different m)" "list_all (both_ok (<) vs) (ci_less m)"
    using f a by (auto simp: list_all_iff both_ok_def satisfies_def agrees_def split: option.splits)
  ultimately show ?thesis using vs(1) by (auto simp: consistent_def list_all_iff)
qed

lemma value_or_total: "set ks \<subseteq> fst ` set vs \<Longrightarrow> map (\<lambda>k. value_or vs k (g k)) ks = map (\<lambda>k. the (map_of vs k)) ks"
  by (induction ks) (auto simp: value_or_def split: option.splits dest: weak_map_of_SomeI)

lemma consistent_complete:
  assumes m: "model_ok m" and c: "consistent m vs False" and vs: "fst ` set vs = fst ` set (ci_domains m)" "distinct (map fst vs)"
  shows "satisfies m (\<lambda>k. the (map_of vs k))"
proof -
  let ?f = "\<lambda>k. the (map_of vs k)"
  have some: "\<exists>v. map_of vs k = Some v" if "k \<in> fst ` set (ci_domains m)" for k using that vs(1) by (metis map_of_eq_None_iff not_None_eq)
  have "?f k \<in> set d" if "(k, d) \<in> set (ci_domains m)" for k d
  proof -
    have "k \<in> fst ` set (ci_domains m)" using that by force
    then obtain v where v: "map_of vs k = Some v" using some by blast
    then show ?thesis using c map_of_SomeD [OF v] domain_of_eq [OF m that] by (auto simp: consistent_def list_all_iff)
  qed
  moreover have both: "both_ok P vs r = P (?f (fst r)) (?f (snd r))" if "r \<in> set (ci_different m) \<union> set (ci_less m)" for P r
    using model_pair [OF m that] some [of "fst r"] some [of "snd r"] by (auto simp: both_ok_def)
  then have "\<forall>r \<in> set (ci_different m). ?f (fst r) \<noteq> ?f (snd r)" "\<forall>r \<in> set (ci_less m). ?f (fst r) < ?f (snd r)"
    using c by (simp_all add: consistent_def list_all_iff)
  moreover have "sum_list (map ?f (fst r)) = snd r" if "r \<in> set (ci_sums m)" for r
  proof -
    have "set (fst r) \<subseteq> fst ` set vs" "sum_ok m vs r" using that c vs(1) model_sum [OF m that] by (auto simp: consistent_def list_all_iff)
    then show ?thesis by (simp add: sum_ok_def value_or_total)
  qed
  ultimately show ?thesis by (auto simp: satisfies_def)
qed

section \<open>The search\<close>

text \<open>The size of the search tree below a list of variables.\<close>

fun search_space :: "cic_model \<Rightarrow> string list \<Rightarrow> int" where
  "search_space m [] = 0"
| "search_space m (k # ks) = int (length (domain_of m k)) * (1 + search_space m ks)"

lemma search_space_nonneg: "0 \<le> search_space m ks"
  by (induction ks) simp_all

lemma agrees_append: "k \<notin> fst ` set vs \<Longrightarrow> agrees f (vs @ [(k, d)]) \<longleftrightarrow> agrees f vs \<and> f k = d"
  by (auto simp: agrees_def map_add_def map_of_eq_None_iff split: option.splits)

lemma search_assignment:
  "search m mx ks vs n = (Some a, ex, n') \<Longrightarrow> (\<exists>ws. a = vs @ ws \<and> map fst ws = ks) \<and> (ks \<noteq> [] \<longrightarrow> consistent m a False)"
  "search_values m mx k ds ks vs n = (Some a, ex, n') \<Longrightarrow> (\<exists>ws. a = vs @ ws \<and> map fst ws = k # ks) \<and> consistent m a False"
proof (induction m mx ks vs n and m mx k ds ks vs n arbitrary: ex n' and ex n' rule: search_search_values.induct)
  case (4 m mx k d ds ks vs n)
  show ?case
  proof (cases "n < mx \<and> consistent m (vs @ [(k, d)]) False")
    case True
    obtain b ex' n1 where s: "search m mx ks (vs @ [(k, d)]) (n + 1) = (b, ex', n1)" by (cases "search m mx ks (vs @ [(k, d)]) (n + 1)") auto
    show ?thesis
    proof (cases b)
      case None
      then show ?thesis using 4 True s by (auto split: if_splits)
    next
      case (Some b')
      then have "b' = a" using 4(4) True s by simp
      then have "(\<exists>ws. a = (vs @ [(k, d)]) @ ws \<and> map fst ws = ks) \<and> (ks \<noteq> [] \<longrightarrow> consistent m a False)"
        using 4(1) True s Some by auto
      then show ?thesis using True by (cases ks) (auto intro: exI [of _ "(k, d) # ws" for ws])
    qed
  next
    case False
    then show ?thesis using 4 by (auto split: if_splits)
  qed
qed auto

lemma search_refutes:
  "search m mx ks vs n = (None, False, n') \<Longrightarrow> model_ok m \<Longrightarrow> satisfies m f \<Longrightarrow> agrees f vs \<Longrightarrow>
     distinct (map fst vs @ ks) \<Longrightarrow> fst ` set vs \<union> set ks \<subseteq> fst ` set (ci_domains m) \<Longrightarrow> False"
  "search_values m mx k ds ks vs n = (None, False, n') \<Longrightarrow> model_ok m \<Longrightarrow> satisfies m f \<Longrightarrow> agrees f vs \<Longrightarrow>
     distinct (map fst vs @ k # ks) \<Longrightarrow> fst ` set vs \<union> set (k # ks) \<subseteq> fst ` set (ci_domains m) \<Longrightarrow> f k \<in> set ds \<Longrightarrow> False"
proof (induction m mx ks vs n and m mx k ds ks vs n arbitrary: n' and n' rule: search_search_values.induct)
  case (2 m mx k ks vs n)
  then show ?case using domain_of_mem [of m f k] by simp
next
  case (4 m mx k d ds ks vs n)
  have budget: "n < mx" using 4(4) by (auto split: if_splits)
  have fresh: "k \<notin> fst ` set vs" using 4(8) by simp
  show ?case
  proof (cases "consistent m (vs @ [(k, d)]) False")
    case True
    obtain b ex n1 where s: "search m mx ks (vs @ [(k, d)]) (n + 1) = (b, ex, n1)" by (cases "search m mx ks (vs @ [(k, d)]) (n + 1)") auto
    with 4(4) True budget have b: "b = None" "\<not> ex" "search_values m mx k ds ks vs n1 = (None, False, n')" by (auto split: if_splits option.splits)
    have "f k \<noteq> d"
    proof
      assume "f k = d"
      then have "agrees f (vs @ [(k, d)])" using 4(7) fresh by (simp add: agrees_append)
      then show False using 4(1) [of n1] True budget s b(1,2) 4(5-9) by auto
    qed
    then show ?thesis using 4(2) [OF _ True s [symmetric] b(1) refl] 4(2) b 4(5-10) True budget s by auto
  next
    case False
    then have "f k \<noteq> d" using consistent_sound [OF 4(5,6), of "vs @ [(k, d)]"] 4(7-9) fresh by (auto simp: agrees_append)
    then show ?thesis using 4(3) [of n'] 4(4-10) False budget by auto
  qed
qed auto

lemma search_budget:
  "search m mx ks vs n = (a, ex, n') \<Longrightarrow> n \<le> mx \<Longrightarrow> n \<le> n' \<and> n' \<le> mx \<and> n' \<le> n + search_space m ks \<and> (ex \<longrightarrow> a = None \<and> n' = mx \<and> mx < n + search_space m ks)"
  "search_values m mx k ds ks vs n = (a, ex, n') \<Longrightarrow> n \<le> mx \<Longrightarrow> n \<le> n' \<and> n' \<le> mx \<and> n' \<le> n + int (length ds) * (1 + search_space m ks)
     \<and> (ex \<longrightarrow> a = None \<and> n' = mx \<and> mx < n + int (length ds) * (1 + search_space m ks))"
proof (induction m mx ks vs n and m mx k ds ks vs n arbitrary: a ex n' and a ex n' rule: search_search_values.induct)
  case (4 m mx k d ds ks vs n)
  define X where "X = int (length ds) * (1 + search_space m ks)"
  have nn: "0 \<le> search_space m ks" "0 \<le> X" using search_space_nonneg [of m ks] by (simp_all add: X_def)
  have exp: "int (length (d # ds)) * (1 + search_space m ks) = 1 + search_space m ks + X" by (simp add: algebra_simps X_def)
  show ?case
  proof (cases "n < mx \<and> consistent m (vs @ [(k, d)]) False")
    case True
    obtain b ex1 n1 where s: "search m mx ks (vs @ [(k, d)]) (n + 1) = (b, ex1, n1)" by (cases "search m mx ks (vs @ [(k, d)]) (n + 1)") auto
    have ih: "n + 1 \<le> n1 \<and> n1 \<le> mx \<and> n1 \<le> n + 1 + search_space m ks \<and> (ex1 \<longrightarrow> b = None \<and> n1 = mx \<and> mx < n + 1 + search_space m ks)"
      using 4(1) [of b ex1 n1] True s by auto
    show ?thesis
    proof (cases "b = None \<and> \<not> ex1")
      case go: True
      then have "search_values m mx k ds ks vs n1 = (a, ex, n')" using 4(4) True s by simp
      then show ?thesis using 4(2) [OF _ _ s [symmetric] _ refl, of a ex n'] go True ih nn unfolding exp X_def [symmetric] by auto
    next
      case False
      then have "a = b \<and> ex = ex1 \<and> n' = n1" using 4(4) True s ih by (auto split: option.splits)
      then show ?thesis using ih nn unfolding exp by auto
    qed
  next
    case False
    then show ?thesis using 4(3) [of a ex n'] 4(4,5) nn unfolding exp X_def [symmetric] by (auto split: if_splits)
  qed
qed auto

section \<open>The interaction graph of a model\<close>

lemma pairs_mem: "(a, b) \<in> set (pairs xs) \<Longrightarrow> a \<in> set xs \<and> b \<in> set xs"
  by (induction xs) auto

lemma pairs_distinct: "distinct xs \<Longrightarrow> (a, b) \<in> set (pairs xs) \<Longrightarrow> a \<noteq> b"
  by (induction xs) (auto dest: pairs_mem)

lemma pairs_complete: "a \<in> set xs \<Longrightarrow> b \<in> set xs \<Longrightarrow> a \<noteq> b \<Longrightarrow> (a, b) \<in> set (pairs xs) \<or> (b, a) \<in> set (pairs xs)"
  by (induction xs) auto

lemma nbrs_add_edge: "set (nbrs (add_edge g (a, b)) k) = set (nbrs g k) \<union> (if k = a then {b} else {}) \<union> (if k = b then {a} else {})"
  by (auto simp: add_edge_def nbrs_def Let_def split: if_splits)

lemma nbrs_add_edges: "set (nbrs (foldl add_edge g es) k) = set (nbrs g k) \<union> {y. (k, y) \<in> set es \<or> (y, k) \<in> set es}"
  by (induction es arbitrary: g) (auto simp: nbrs_add_edge split: if_splits)

lemma keys_add_edges: "fst ` set es \<union> snd ` set es \<subseteq> fst ` set g \<Longrightarrow> map fst (foldl add_edge g es) = map fst g"
proof (induction es arbitrary: g)
  case (Cons e es)
  have up: "k \<in> fst ` set g \<Longrightarrow> map fst (AList.update k v g) = map fst g" for k v and g :: graph by (induction g) auto
  have "map fst (add_edge g e) = map fst g" using Cons.prems by (auto simp: add_edge_def Let_def up keys_update)
  then show ?case using Cons by (metis (no_types, lifting) Un_subset_iff foldl_Cons list.set_map set_subset_Cons image_mono order_trans)
qed simp

lemma foldl_edges: "foldl (\<lambda>g scope. foldl add_edge g (p scope)) g ss = foldl add_edge g (concat (map p ss))"
  by (induction ss arbitrary: g) simp_all

definition scope_edges :: "cic_model \<Rightarrow> (string \<times> string) list" where
  "scope_edges m = concat (map (\<lambda>scope. pairs (sort (remdups scope))) (scopes m))"

lemma graph_of_edges: "graph_of m = foldl add_edge (map (\<lambda>(k, d). (k, [])) (ci_domains m)) (scope_edges m)"
  by (simp add: graph_of_def scope_edges_def foldl_edges)

lemma scope_edges_mem: "(a, b) \<in> set (scope_edges m) \<Longrightarrow> \<exists>s \<in> set (scopes m). a \<in> set s \<and> b \<in> set s \<and> a \<noteq> b"
proof -
  assume "(a, b) \<in> set (scope_edges m)"
  then obtain s where s: "s \<in> set (scopes m)" "(a, b) \<in> set (pairs (sort (remdups s)))" by (auto simp: scope_edges_def)
  then show ?thesis using pairs_mem [OF s(2)] pairs_distinct [OF _ s(2)] by auto
qed

lemma scopes_known: "model_ok m \<Longrightarrow> s \<in> set (scopes m) \<Longrightarrow> set s \<subseteq> fst ` set (ci_domains m)"
  using model_pair [of m] model_sum [of m] by (fastforce simp: scopes_def)

lemma nbrs_graph_of: "set (nbrs (graph_of m) k) = {y. (k, y) \<in> set (scope_edges m) \<or> (y, k) \<in> set (scope_edges m)}"
proof -
  have "nbrs (map (\<lambda>(k, d). (k, [])) ds) k = []" for ds :: "(string \<times> int list) list" by (induction ds) (auto simp: nbrs_def)
  then show ?thesis by (simp add: graph_of_edges nbrs_add_edges)
qed

lemma nbrs_scope: "s \<in> set (scopes m) \<Longrightarrow> a \<in> set s \<Longrightarrow> b \<in> set s \<Longrightarrow> a \<noteq> b \<Longrightarrow> b \<in> set (nbrs (graph_of m) a)"
  using pairs_complete [of a "sort (remdups s)" b] by (auto simp: nbrs_graph_of scope_edges_def)

lemma graph_keys: "model_ok m \<Longrightarrow> map fst (graph_of m) = map fst (ci_domains m)"
proof -
  assume m: "model_ok m"
  have "fst ` set (scope_edges m) \<union> snd ` set (scope_edges m) \<subseteq> fst ` set (ci_domains m)"
    using scopes_known [OF m] by (fastforce dest: scope_edges_mem)
  then have "map fst (foldl add_edge (map (\<lambda>(k, d). (k, [])) (ci_domains m)) (scope_edges m)) = map fst (map (\<lambda>(k, d). (k, [] :: string list)) (ci_domains m))"
    by (intro keys_add_edges) (force simp: image_iff)
  then show ?thesis by (simp add: graph_of_edges split_def comp_def)
qed

text \<open>An undirected graph without self edges, with its nodes as keys and sets as lists without duplicates.\<close>

definition graph_ok :: "graph \<Rightarrow> bool" where
  "graph_ok g = (distinct (map fst g) \<and> (\<forall>a. distinct (nbrs g a)) \<and> (\<forall>a b. b \<in> set (nbrs g a) \<longrightarrow> a \<noteq> b \<and> a \<in> fst ` set g \<and> b \<in> fst ` set g \<and> a \<in> set (nbrs g b)))"

lemma distinct_add_edges: "(\<And>k. distinct (nbrs g k)) \<Longrightarrow> distinct (nbrs (foldl add_edge g es) k)"
proof (induction es arbitrary: g)
  case (Cons e es)
  have "distinct (nbrs (add_edge g e) k)" for k using Cons.prems by (auto simp: add_edge_def nbrs_def Let_def)
  then show ?case using Cons.IH by simp
qed simp

lemma nbrs_empty_graph: "nbrs (map (\<lambda>(k, d). (k, [])) ds) k = []"
  by (induction ds) (auto simp: nbrs_def)

lemma graph_of_ok: "model_ok m \<Longrightarrow> graph_ok (graph_of m)"
proof -
  assume m: "model_ok m"
  then have k: "fst ` set (graph_of m) = fst ` set (ci_domains m)" using graph_keys [of m] by (metis list.set_map)
  have "distinct (map fst (graph_of m))" using m graph_keys [OF m] by (simp add: model_ok_def)
  moreover have "distinct (nbrs (graph_of m) a)" for a unfolding graph_of_edges by (rule distinct_add_edges) (simp add: nbrs_empty_graph)
  ultimately show ?thesis using scopes_known [OF m] by (fastforce simp: graph_ok_def nbrs_graph_of k dest: scope_edges_mem)
qed

section \<open>Connected components\<close>

definition closed_under :: "graph \<Rightarrow> string set \<Rightarrow> bool" where
  "closed_under g S = (\<forall>n \<in> S. set (nbrs g n) \<subseteq> S)"

lemma explore_closed: "(\<forall>n \<in> set found. set (nbrs g n) \<subseteq> set found \<union> set pending) \<Longrightarrow> closed_under g (set (explore g pending found))"
proof (induction g pending found rule: explore.induct)
  case (2 g node pending found)
  then show ?case by (cases "node \<in> set found") (fastforce simp: insert_absorb)+
qed (simp add: closed_under_def)

lemma explore_within: "closed_under g S \<Longrightarrow> set pending \<union> set found \<subseteq> S \<Longrightarrow> set (explore g pending found) \<subseteq> S"
  by (induction g pending found rule: explore.induct) (auto simp: closed_under_def)

lemma explore_distinct: "distinct found \<Longrightarrow> distinct (explore g pending found)"
  by (induction g pending found rule: explore.induct) auto

declare explore.simps [simp del]
declare components_from.simps [simp del]

lemma closed_diff: "graph_ok g \<Longrightarrow> closed_under g S \<Longrightarrow> closed_under g T \<Longrightarrow> closed_under g (S - T)"
  by (fastforce simp: closed_under_def graph_ok_def)

text \<open>The groups of a graph: closed, nonempty, and contained in every closed set they meet.\<close>

definition connected_group :: "graph \<Rightarrow> string list \<Rightarrow> bool" where
  "connected_group g c = (c \<noteq> [] \<and> closed_under g (set c) \<and> (\<forall>S. closed_under g S \<longrightarrow> S \<inter> set c \<noteq> {} \<longrightarrow> set c \<subseteq> S))"

lemma explore_connected:
  assumes "graph_ok g" and "x \<in> fst ` set g"
  shows "connected_group g (sort (explore g [x] []))"
proof -
  let ?c = "set (explore g [x] [])"
  have c: "closed_under g ?c" "x \<in> ?c" using explore_closed [of "[]" g "[x]"] explore_found [of "[]" "[x]" g] by auto
  have "?c \<subseteq> S" if S: "closed_under g S" "S \<inter> ?c \<noteq> {}" for S
  proof (rule ccontr)
    assume n: "\<not> ?c \<subseteq> S"
    then have "x \<notin> S" using explore_within [OF S(1), of "[x]" "[]"] by auto
    then have "?c \<subseteq> ?c - S" using c by (intro explore_within closed_diff [OF assms(1) c(1) S(1)]) auto
    then show False using S(2) by blast
  qed
  moreover have "sort (explore g [x] []) \<noteq> []" using c(2) by (metis empty_iff list.set(1) set_sort)
  ultimately show ?thesis using c by (auto simp: connected_group_def)
qed

lemma components_from_exact:
  assumes "graph_ok g" and "closed_under g (set ks)" and "distinct ks" and "set ks \<subseteq> fst ` set g"
  shows "distinct (concat (components_from g ks)) \<and> set (concat (components_from g ks)) = set ks \<and> list_all (connected_group g) (components_from g ks)"
  using assms
proof (induction g ks rule: components_from.induct)
  case (2 g k ks)
  let ?x = "Min (set (k # ks))" and ?f = "explore g [Min (set (k # ks))] []" and ?r = "filter (\<lambda>n. n \<notin> set (explore g [Min (set (k # ks))] [])) (k # ks)"
  have x: "?x \<in> set (k # ks)" by (intro Min_in) auto
  have f: "set ?f \<subseteq> set (k # ks)" using 2(3) x by (intro explore_within) auto
  have cf: "closed_under g (set ?f)" by (rule explore_closed) simp
  have r: "set ?r = set (k # ks) - set ?f" by auto
  have "closed_under g (set ?r)" unfolding r using closed_diff [OF 2(2,3) cf] .
  then have ih: "distinct (concat (components_from g ?r)) \<and> set (concat (components_from g ?r)) = set ?r \<and> list_all (connected_group g) (components_from g ?r)"
    using 2(2,4,5) by (intro 2(1) refl) auto
  have "connected_group g (sort ?f)" using explore_connected [OF 2(2), of ?x] x 2(5) by blast
  moreover have "components_from g (k # ks) = sort ?f # components_from g ?r" by (simp only: components_from.simps Let_def)
  ultimately show ?case using ih f explore_distinct [of "[]" g "[?x]"] r by (simp only: concat.simps distinct_append set_append set_sort distinct_sort list.pred_inject) auto
qed (simp add: components_from.simps)

lemma components_exact:
  assumes "graph_ok g"
  shows "distinct (concat (components g))" and "set (concat (components g)) = fst ` set g" and "c \<in> set (components g) \<Longrightarrow> connected_group g c"
proof -
  have "closed_under g (set (map fst g))" using assms by (auto simp: closed_under_def graph_ok_def)
  then have "distinct (concat (components g)) \<and> set (concat (components g)) = set (map fst g) \<and> list_all (connected_group g) (components g)"
    unfolding components_def by (intro components_from_exact) (use assms in \<open>auto simp: graph_ok_def\<close>)
  then show "distinct (concat (components g))" "set (concat (components g)) = fst ` set g" "c \<in> set (components g) \<Longrightarrow> connected_group g c"
    by (auto simp: list_all_iff)
qed

section \<open>Grouping\<close>

lemma scope_in_group:
  assumes "closed_under (graph_of m) (set c)" "s \<in> set (scopes m)" "a \<in> set s" "a \<in> set c"
  shows "set s \<subseteq> set c"
proof
  fix b assume "b \<in> set s"
  then show "b \<in> set c" using assms nbrs_scope [OF assms(2,3), of b] by (cases "a = b") (auto simp: closed_under_def)
qed

lemma satisfies_restricted: "satisfies m f \<Longrightarrow> satisfies (restricted m c) f"
  by (auto simp: satisfies_def restricted_def)

lemma satisfies_cong:
  assumes "model_ok m" and "\<And>k. k \<in> fst ` set (ci_domains m) \<Longrightarrow> f k = g k"
  shows "satisfies m f = satisfies m g"
proof -
  have "\<forall>(k, d) \<in> set (ci_domains m). f k = g k" using assms(2) by force
  moreover have "\<forall>r \<in> set (ci_different m) \<union> set (ci_less m). f (fst r) = g (fst r) \<and> f (snd r) = g (snd r)" using model_pair [OF assms(1)] assms(2) by blast
  moreover have "\<forall>r \<in> set (ci_sums m). sum_list (map f (fst r)) = sum_list (map g (fst r))"
    using model_sum [OF assms(1)] assms(2) by (intro ballI arg_cong [of _ _ sum_list] map_cong) blast+
  ultimately show ?thesis by (auto simp: satisfies_def split_beta)
qed

lemma satisfies_groups:
  assumes m: "model_ok m" and cover: "\<And>k. k \<in> fst ` set (ci_domains m) \<Longrightarrow> \<exists>c \<in> C. k \<in> set c"
    and sat: "\<And>c. c \<in> C \<Longrightarrow> satisfies (restricted m c) f"
  shows "satisfies m f"
proof -
  have "f k \<in> set d" if "(k, d) \<in> set (ci_domains m)" for k d
  proof -
    have "k \<in> fst ` set (ci_domains m)" using that by force
    then obtain c where "c \<in> C" "k \<in> set c" using cover by blast
    then show ?thesis using sat [of c] that by (auto simp: satisfies_def restricted_def)
  qed
  moreover have "f a \<noteq> f b" if r: "(a, b) \<in> set (ci_different m)" for a b
  proof -
    obtain c where "c \<in> C" "a \<in> set c" using cover [of a] model_pair [OF m, of "(a, b)"] r by auto
    then show ?thesis using sat [of c] r by (auto simp: satisfies_def restricted_def)
  qed
  moreover have "f a < f b" if r: "(a, b) \<in> set (ci_less m)" for a b
  proof -
    obtain c where "c \<in> C" "a \<in> set c" using cover [of a] model_pair [OF m, of "(a, b)"] r by auto
    then show ?thesis using sat [of c] r by (auto simp: satisfies_def restricted_def)
  qed
  moreover have "sum_list (map f ks) = n" if r: "(ks, n) \<in> set (ci_sums m)" for ks n
  proof -
    have "hd ks \<in> fst ` set (ci_domains m)" using model_sum [OF m r] by (cases ks) auto
    then obtain c where "c \<in> C" "hd ks \<in> set c" using cover by blast
    then show ?thesis using sat [of c] r by (auto simp: satisfies_def restricted_def)
  qed
  ultimately show ?thesis by (auto simp: satisfies_def)
qed

lemma list_all_filter_mono: "list_all P xs \<Longrightarrow> list_all P (filter Q xs)"
  by (induction xs) auto

lemma restricted_ok:
  assumes m: "model_ok m" and c: "closed_under (graph_of m) (set c)" and ne: "set c \<inter> fst ` set (ci_domains m) \<noteq> {}"
  shows "model_ok (restricted m c)"
proof -
  have keys: "fst ` set (ci_domains (restricted m c)) = fst ` set (ci_domains m) \<inter> set c" by (force simp: restricted_def)
  have pair: "fst r \<in> fst ` set (ci_domains m) \<inter> set c \<and> snd r \<in> fst ` set (ci_domains m) \<inter> set c"
    if r: "r \<in> set (ci_different m) \<union> set (ci_less m)" "fst r \<in> set c" for r
  proof -
    have "[fst r, snd r] \<in> set (scopes m)" using r(1) by (force simp: scopes_def)
    then have "snd r \<in> set c" using scope_in_group [OF c, of "[fst r, snd r]" "fst r"] r(2) by auto
    then show ?thesis using model_pair [OF m r(1)] r(2) by blast
  qed
  have sums: "set (fst r) \<subseteq> fst ` set (ci_domains m) \<inter> set c" if r: "r \<in> set (ci_sums m)" "hd (fst r) \<in> set c" for r
  proof -
    have "fst r \<in> set (scopes m)" using r(1) by (force simp: scopes_def)
    moreover have "hd (fst r) \<in> set (fst r)" using model_sum [OF m r(1)] by simp
    ultimately show ?thesis using scope_in_group [OF c, of "fst r" "hd (fst r)"] r model_sum [OF m r(1)] by blast
  qed
  have "distinct (map fst (ci_domains (restricted m c)))" using m by (auto simp: model_ok_def restricted_def distinct_map_filter)
  moreover have "ci_domains (restricted m c) \<noteq> []" using ne keys by force
  moreover have "list_all (\<lambda>r. fst r \<in> fst ` set (ci_domains (restricted m c)) \<and> snd r \<in> fst ` set (ci_domains (restricted m c)))
      (ci_different (restricted m c) @ ci_less (restricted m c))"
    unfolding keys using pair by (auto simp: list_all_iff restricted_def)
  moreover have "list_all (\<lambda>(ks, n). 1 \<le> length ks \<and> length ks \<le> 32 \<and> set ks \<subseteq> fst ` set (ci_domains (restricted m c)) \<and> distinct ks \<and> \<bar>n\<bar> \<le> 32 * 10 ^ 6) (ci_sums (restricted m c))"
    unfolding keys list_all_iff
  proof
    fix r assume r: "r \<in> set (ci_sums (restricted m c))"
    then have "r \<in> set (ci_sums m)" "hd (fst r) \<in> set c" by (auto simp: restricted_def)
    then have "case r of (ks, n) \<Rightarrow> 1 \<le> length ks \<and> length ks \<le> 32 \<and> distinct ks \<and> \<bar>n\<bar> \<le> 32 * 10 ^ 6" "set (fst r) \<subseteq> fst ` set (ci_domains m) \<inter> set c"
      using m sums unfolding model_ok_def list_all_iff by fast+
    then show "case r of (ks, n) \<Rightarrow> 1 \<le> length ks \<and> length ks \<le> 32 \<and> set ks \<subseteq> fst ` set (ci_domains m) \<inter> set c \<and> distinct ks \<and> \<bar>n\<bar> \<le> 32 * 10 ^ 6"
      by (auto simp: split_beta)
  qed
  moreover have "length (ci_domains (restricted m c)) \<le> length (ci_domains m)" "length (ci_different (restricted m c)) \<le> length (ci_different m)"
    "length (ci_less (restricted m c)) \<le> length (ci_less m)" "length (ci_sums (restricted m c)) \<le> length (ci_sums m)"
    by (simp_all add: restricted_def)
  moreover have "list_all (\<lambda>(k, d). ident_ok k \<and> 1 \<le> length d \<and> length d \<le> 64 \<and> list_all (\<lambda>i. \<bar>i\<bar> \<le> 10 ^ 6) d \<and> distinct d) (ci_domains (restricted m c))"
    using m by (simp add: restricted_def model_ok_def list_all_filter_mono)
  ultimately show ?thesis using m unfolding model_ok_def by (simp add: Suc_le_eq)
qed

lemma distinct_concat_unique: "distinct (concat cs) \<Longrightarrow> c \<in> set cs \<Longrightarrow> c' \<in> set cs \<Longrightarrow> k \<in> set c \<Longrightarrow> k \<in> set c' \<Longrightarrow> c = c'"
  by (induction cs) auto

lemma group_restricted_ok:
  assumes m: "model_ok m" and c: "c \<in> set (components (graph_of m))"
  shows "connected_group (graph_of m) c" and "set c \<subseteq> fst ` set (ci_domains m)" and "model_ok (restricted m c)"
proof -
  note ex = components_exact [OF graph_of_ok [OF m]]
  show g: "connected_group (graph_of m) c" using ex(3) [OF c] .
  have "set c \<subseteq> set (concat (components (graph_of m)))" using c by auto
  then show k: "set c \<subseteq> fst ` set (ci_domains m)" using ex(2) graph_keys [OF m] by (metis list.set_map)
  show "model_ok (restricted m c)" using g k by (intro restricted_ok [OF m]) (auto simp: connected_group_def neq_Nil_conv)
qed

lemma satisfiable_groups:
  assumes m: "model_ok m"
  shows "(\<exists>f. satisfies m f) \<longleftrightarrow> (\<forall>c \<in> set (components (graph_of m)). \<exists>f. satisfies (restricted m c) f)"
proof
  assume "\<forall>c \<in> set (components (graph_of m)). \<exists>f. satisfies (restricted m c) f"
  then obtain h where h: "\<And>c. c \<in> set (components (graph_of m)) \<Longrightarrow> satisfies (restricted m c) (h c)" by metis
  note ex = components_exact [OF graph_of_ok [OF m]]
  have keys: "fst ` set (graph_of m) = fst ` set (ci_domains m)" using graph_keys [OF m] by (metis list.set_map)
  have "\<exists>c. c \<in> set (components (graph_of m)) \<and> k \<in> set c" if "k \<in> fst ` set (ci_domains m)" for k using that ex(2) keys by auto
  then obtain grp where grp: "\<And>k. k \<in> fst ` set (ci_domains m) \<Longrightarrow> grp k \<in> set (components (graph_of m)) \<and> k \<in> set (grp k)" by metis
  have "satisfies (restricted m c) (\<lambda>k. h (grp k) k)" if c: "c \<in> set (components (graph_of m))" for c
  proof -
    note ok = group_restricted_ok(3) [OF m c]
    have "h (grp k) k = h c k" if "k \<in> fst ` set (ci_domains (restricted m c))" for k
    proof -
      have "k \<in> fst ` set (ci_domains m)" "k \<in> set c" using that by (auto simp: restricted_def)
      then show ?thesis using grp [of k] distinct_concat_unique [OF ex(1) c, of "grp k" k] by simp
    qed
    then show ?thesis using satisfies_cong [OF ok, of "\<lambda>k. h (grp k) k" "h c"] h [OF c] by blast
  qed
  then have "satisfies m (\<lambda>k. h (grp k) k)" using grp by (intro satisfies_groups [OF m, of "set (components (graph_of m))"]) auto
  then show "\<exists>f. satisfies m f" by blast
qed (use satisfies_restricted in blast)

section \<open>Elimination\<close>

lemma nbrs_known: "nbrs g k \<noteq> [] \<Longrightarrow> k \<in> fst ` set g"
  by (auto simp: nbrs_def split: option.splits dest!: map_of_SomeD) force

lemma graph_copy_ok: "graph_ok g \<Longrightarrow> length g \<le> 32 \<Longrightarrow> graph_copy g = Inr g"
proof -
  assume g: "graph_ok g" "length g \<le> 32"
  have "nbrs g k = ns" if "(k, ns) \<in> set g" for k ns using that g(1) by (simp add: nbrs_def graph_ok_def)
  then have "list_all (\<lambda>(k, ns). k \<notin> set ns \<and> set ns \<subseteq> fst ` set g \<and> list_all (\<lambda>n. k \<in> set (nbrs g n)) ns) g"
    using g(1) by (fastforce simp: list_all_iff graph_ok_def)
  then show ?thesis using g(2) by (simp add: graph_copy_def)
qed

lemma fill_edges_mem:
  assumes "graph_ok g"
  shows "(a, b) \<in> set (fill_edges g node) \<Longrightarrow> a \<in> set (nbrs g node) \<and> b \<in> set (nbrs g node)"
  by (auto simp: fill_edges_def dest: pairs_mem)

lemma fill_edges_clique:
  assumes g: "graph_ok g" and "a \<in> set (nbrs g node)" "b \<in> set (nbrs g node)" "a \<noteq> b"
  shows "b \<in> set (nbrs g a) \<or> (a, b) \<in> set (fill_edges g node) \<or> (b, a) \<in> set (fill_edges g node)"
  using pairs_complete [of a "sort (nbrs g node)" b] assms by (auto simp: fill_edges_def graph_ok_def)

text \<open>The graph after an elimination: the neighbours of the node have become a clique, the node is gone.\<close>

lemma nbrs_map_delete:
  "nbrs (map (\<lambda>(k, ns). (k, removeAll node ns)) (AList.delete node g)) k = (if k = node then [] else removeAll node (nbrs g k))"
  by (induction g) (auto simp: nbrs_def AList.delete_eq)

lemma nbrs_eliminate:
  "set (nbrs (fst (eliminate g node)) k) =
     (if k = node then {} else (set (nbrs g k) \<union> {y. (k, y) \<in> set (fill_edges g node) \<or> (y, k) \<in> set (fill_edges g node)}) - {node})"
  by (simp add: eliminate_def nbrs_map_delete nbrs_add_edges)

lemma keys_eliminate: "graph_ok g \<Longrightarrow> map fst (fst (eliminate g node)) = filter (\<lambda>k. k \<noteq> node) (map fst g)"
proof -
  assume g: "graph_ok g"
  have del: "map fst (map (\<lambda>(k, ns). (k, removeAll node ns)) (AList.delete node h)) = filter (\<lambda>k. k \<noteq> node) (map fst h)" for h :: graph
    by (induction h) (auto simp: AList.delete_eq)
  have "fst ` set (fill_edges g node) \<union> snd ` set (fill_edges g node) \<subseteq> fst ` set g"
    using fill_edges_mem [OF g] g by (fastforce simp: graph_ok_def)
  then show ?thesis unfolding eliminate_def fst_conv del by (simp add: keys_add_edges)
qed

lemma eliminate_ok:
  assumes g: "graph_ok g"
  shows "graph_ok (fst (eliminate g node))"
proof -
  have d: "distinct (map fst (fst (eliminate g node)))" using g by (simp only: keys_eliminate [OF g] graph_ok_def distinct_filter)
  have k: "fst ` set (fst (eliminate g node)) = fst ` set g - {node}" using arg_cong [OF keys_eliminate [OF g, of node], of set] by auto
  have n: "distinct (nbrs (fst (eliminate g node)) a)" for a
    using g distinct_add_edges [of g "fill_edges g node" a] by (simp add: eliminate_def nbrs_map_delete graph_ok_def distinct_removeAll)
  have dn: "distinct (sort (nbrs g node))" using g by (simp add: graph_ok_def)
  have f: "a \<noteq> b \<and> a \<in> set (nbrs g node) \<and> b \<in> set (nbrs g node)" if e: "(a, b) \<in> set (fill_edges g node)" for a b
  proof -
    have "(a, b) \<in> set (pairs (sort (nbrs g node)))" using e by (simp add: fill_edges_def)
    then show ?thesis using pairs_distinct [OF dn] fill_edges_mem [OF g e] by blast
  qed
  have sym: "a \<noteq> b \<and> a \<in> fst ` set g \<and> b \<in> fst ` set g \<and> a \<in> set (nbrs g b)" if "b \<in> set (nbrs g a)" for a b
    using g that unfolding graph_ok_def by blast
  have "a \<noteq> b \<and> a \<in> fst ` set g - {node} \<and> b \<in> fst ` set g - {node} \<and> a \<in> set (nbrs (fst (eliminate g node)) b)"
    if e: "b \<in> set (nbrs (fst (eliminate g node)) a)" for a b
  proof -
    have m: "a \<noteq> node" "b \<noteq> node" "b \<in> set (nbrs g a) \<or> (a, b) \<in> set (fill_edges g node) \<or> (b, a) \<in> set (fill_edges g node)"
      using e by (auto simp: nbrs_eliminate split: if_splits)
    then have "a \<noteq> b \<and> a \<in> fst ` set g \<and> b \<in> fst ` set g" using f sym by blast
    moreover have "a \<in> set (nbrs g b) \<or> (a, b) \<in> set (fill_edges g node) \<or> (b, a) \<in> set (fill_edges g node)" using m(3) sym by blast
    ultimately show ?thesis using m(1,2) by (simp add: nbrs_eliminate) blast
  qed
  then show ?thesis using d n by (auto simp: graph_ok_def k)
qed

lemma eliminate_neighbours:
  assumes g: "graph_ok g" and "a \<in> set (nbrs g node)" "b \<in> set (nbrs g node)" "a \<noteq> b"
  shows "b \<in> set (nbrs (fst (eliminate g node)) a)"
  using fill_edges_clique [OF assms] assms by (auto simp: nbrs_eliminate graph_ok_def)

text \<open>The edges of the filled graph: each node with its neighbours at the time of its elimination.\<close>

definition filled :: "elimination_step list \<Rightarrow> string \<Rightarrow> string \<Rightarrow> bool" where
  "filled steps a b = (\<exists>s \<in> set steps. (es_node s = a \<and> b \<in> set (es_neighbors s)) \<or> (es_node s = b \<and> a \<in> set (es_neighbors s)))"

lemma filled_Cons: "filled (s # steps) a b = ((es_node s = a \<and> b \<in> set (es_neighbors s)) \<or> (es_node s = b \<and> a \<in> set (es_neighbors s)) \<or> filled steps a b)"
  by (auto simp: filled_def)

lemma eliminate_step: "es_node (snd (eliminate g n)) = n" "es_neighbors (snd (eliminate g n)) = sort (nbrs g n)"
  by (simp_all add: eliminate_def)

lemma filled_edges: "graph_ok g \<Longrightarrow> distinct order \<Longrightarrow> set order = fst ` set g \<Longrightarrow> b \<in> set (nbrs g a) \<Longrightarrow> filled (eliminate_all g order) a b"
proof (induction order arbitrary: g)
  case (Cons n order)
  have "fst ` set (fst (eliminate g n)) = fst ` set g - {n}" using arg_cong [OF keys_eliminate [OF Cons.prems(1), of n], of set] by auto
  then have k: "set order = fst ` set (fst (eliminate g n))" using Cons.prems(2,3) by auto
  show ?case
  proof (cases "a = n \<or> b = n")
    case True
    then show ?thesis using Cons.prems by (auto simp: filled_Cons eliminate_step graph_ok_def)
  next
    case False
    then have e: "b \<in> set (nbrs (fst (eliminate g n)) a)" using Cons.prems(4) by (simp add: nbrs_eliminate)
    then show ?thesis using Cons.IH [OF eliminate_ok [OF Cons.prems(1)] _ k] Cons.prems(2) by (simp add: filled_Cons)
  qed
qed (auto simp: graph_ok_def)

lemma eliminate_rest:
  assumes "graph_ok g" "distinct (n # order)" "set (n # order) = fst ` set g"
  shows "graph_ok (fst (eliminate g n))" "distinct order" "set order = fst ` set (fst (eliminate g n))"
  using assms arg_cong [OF keys_eliminate [OF assms(1), of n], of set] by (auto intro: eliminate_ok)

lemma filled_clique:
  "graph_ok g \<Longrightarrow> distinct order \<Longrightarrow> set order = fst ` set g \<Longrightarrow> s \<in> set (eliminate_all g order) \<Longrightarrow>
   x \<in> set (es_neighbors s) \<Longrightarrow> y \<in> set (es_neighbors s) \<Longrightarrow> x \<noteq> y \<Longrightarrow> filled (eliminate_all g order) x y"
proof (induction order arbitrary: g)
  case (Cons n order)
  note rest = eliminate_rest [OF Cons.prems(1-3)]
  show ?case
  proof (cases "s \<in> set (eliminate_all (fst (eliminate g n)) order)")
    case True
    then show ?thesis using Cons.IH [OF rest True Cons.prems(5-7)] by (simp add: filled_Cons)
  next
    case False
    then have "x \<in> set (nbrs g n)" "y \<in> set (nbrs g n)" using Cons.prems(4-6) by (auto simp: eliminate_step)
    then have "y \<in> set (nbrs (fst (eliminate g n)) x)" using eliminate_neighbours [OF Cons.prems(1)] Cons.prems(7) by blast
    then show ?thesis using filled_edges [OF rest] by (simp add: filled_Cons)
  qed
qed simp

lemma eliminate_all_later:
  "graph_ok g \<Longrightarrow> distinct order \<Longrightarrow> set order = fst ` set g \<Longrightarrow> i < length order \<Longrightarrow>
   es_node (eliminate_all g order ! i) = order ! i \<and> distinct (es_neighbors (eliminate_all g order ! i)) \<and> set (es_neighbors (eliminate_all g order ! i)) \<subseteq> set (drop (Suc i) order)"
proof (induction order arbitrary: g i)
  case (Cons n order)
  note rest = eliminate_rest [OF Cons.prems(1-3)]
  have sym: "b \<noteq> n \<and> b \<in> fst ` set g" if "b \<in> set (nbrs g n)" for b using that Cons.prems(1) unfolding graph_ok_def by blast
  show ?case
  proof (cases i)
    case 0
    have "distinct (nbrs g n)" using Cons.prems(1) by (simp add: graph_ok_def)
    moreover have "set (nbrs g n) \<subseteq> set order" using sym Cons.prems(3) by auto
    ultimately show ?thesis using 0 by (simp add: eliminate_step)
  next
    case (Suc j)
    then show ?thesis using Cons.IH [OF rest, of j] Cons.prems(4) by simp
  qed
qed simp

lemma eliminate_all_length: "length (eliminate_all g order) = length order"
  by (induction order arbitrary: g) simp_all

text \<open>An elimination order of a supergraph of width \<open>w\<close>: every edge of the graph is in the filled graph, and when a node is
  eliminated its neighbours in the filled graph are later nodes, form a clique and number at most \<open>w\<close>. This is what makes \<open>w\<close> an upper
  bound of the treewidth.\<close>

definition width_witness :: "graph \<Rightarrow> string list \<Rightarrow> elimination_step list \<Rightarrow> nat \<Rightarrow> bool" where
  "width_witness g order steps w =
     (distinct order \<and> set order = fst ` set g \<and> map es_node steps = order \<and> (\<forall>a b. b \<in> set (nbrs g a) \<longrightarrow> filled steps a b)
      \<and> (\<forall>i < length steps. distinct (es_neighbors (steps ! i)) \<and> set (es_neighbors (steps ! i)) \<subseteq> set (drop (Suc i) order) \<and> length (es_neighbors (steps ! i)) \<le> w
          \<and> (\<forall>x \<in> set (es_neighbors (steps ! i)). \<forall>y \<in> set (es_neighbors (steps ! i)). x \<noteq> y \<longrightarrow> filled steps x y)))"

lemma fold_max_ge: "x \<in> set xs \<Longrightarrow> x \<le> fold max xs (0 :: nat)"
  by (metis List.finite_set Max.set_eq_fold Max_ge list.set_intros(2))

lemma certificate_width:
  assumes g: "graph_ok g" and c: "elimination_certificate g order = Inr c"
  shows "width_witness g order (ce_steps c) (ce_width c)" "ce_ordering c = order"
proof -
  have o: "length order = length g" "set order = fst ` set g" "c = \<lparr>ce_ordering = order, ce_width = fold max (map (\<lambda>s. length (es_neighbors s)) (eliminate_all g order)) 0, ce_steps = eliminate_all g order\<rparr>"
    using c by (auto simp: elimination_certificate_def graph_copy_def result_simps)
  have "card (fst ` set g) = length g" using g distinct_card [of "map fst g"] by (simp add: graph_ok_def)
  then have d: "distinct order" using o(1,2) by (intro card_distinct) simp
  note later = eliminate_all_later [OF g d o(2)]
  have "map es_node (eliminate_all g order) = order" using later by (intro nth_equalityI) (simp_all add: eliminate_all_length)
  moreover have "length (es_neighbors (eliminate_all g order ! i)) \<le> ce_width c" if "i < length order" for i
    using that by (auto simp: o(3) eliminate_all_length intro!: fold_max_ge)
  moreover have "filled (eliminate_all g order) x y"
    if "i < length order" "x \<in> set (es_neighbors (eliminate_all g order ! i))" "y \<in> set (es_neighbors (eliminate_all g order ! i))" "x \<noteq> y" for i x y
    using filled_clique [OF g d o(2) nth_mem, of i x y] that by (simp add: eliminate_all_length)
  ultimately show "width_witness g order (ce_steps c) (ce_width c)" using d o(2) later filled_edges [OF g d o(2)]
    by (simp add: width_witness_def o(3) eliminate_all_length)
  show "ce_ordering c = order" by (simp add: o(3))
qed

lemma certificate_total:
  assumes "graph_ok g" "length g \<le> 32" "distinct order" "set order = fst ` set g"
  shows "\<exists>c. elimination_certificate g order = Inr c"
proof -
  have "length order = length (map fst g)" using assms distinct_card [OF assms(3)] distinct_card [of "map fst g"] by (simp add: graph_ok_def)
  then show ?thesis using assms by (simp add: elimination_certificate_def graph_copy_ok)
qed

lemma min_by_mem: "min_by f x ys \<in> set (x # ys)"
  by (induction f x ys rule: min_by.induct) auto

lemma min_fill_order_complete:
  "graph_ok g \<Longrightarrow> length g \<le> n \<Longrightarrow> distinct (min_fill_order n g) \<and> set (min_fill_order n g) = fst ` set g"
proof (induction n g rule: min_fill_order.induct)
  case (3 n kv g)
  let ?g = "kv # g" and ?n = "min_by (fill_score (kv # g)) (fst kv) (map fst g)"
  have n: "?n \<in> fst ` set ?g" using min_by_mem [of "fill_score ?g" "fst kv" "map fst g"] by simp
  have k: "map fst (fst (eliminate ?g ?n)) = filter (\<lambda>k. k \<noteq> ?n) (map fst ?g)" by (rule keys_eliminate [OF 3(2)])
  have "length (map fst (fst (eliminate ?g ?n))) < length (map fst ?g)" unfolding k using n by (intro length_filter_less [of ?n]) auto
  then have "length (fst (eliminate ?g ?n)) \<le> n" using 3(3) by simp
  then have "distinct (min_fill_order n (fst (eliminate ?g ?n))) \<and> set (min_fill_order n (fst (eliminate ?g ?n))) = fst ` set (fst (eliminate ?g ?n))"
    by (intro 3(1) refl eliminate_ok [OF 3(2)])
  moreover have "fst ` set (fst (eliminate ?g ?n)) = fst ` set ?g - {?n}" using arg_cong [OF k, of set] by auto
  ultimately show ?case using n unfolding min_fill_order.simps Let_def distinct.simps list.set by auto
qed simp_all

lemma min_fill_total:
  assumes "graph_ok g" "length g \<le> 32"
  obtains c where "min_fill g = Inr c" "width_witness g (ce_ordering c) (ce_steps c) (ce_width c)" "elimination_certificate g (ce_ordering c) = Inr c"
proof -
  obtain c where c: "elimination_certificate g (min_fill_order (length g) g) = Inr c"
    using certificate_total [OF assms, of "min_fill_order (length g) g"] min_fill_order_complete [OF assms(1), of "length g"] by auto
  then show thesis using that [of c] certificate_width [OF assms(1) c] assms by (simp add: min_fill_def graph_copy_ok)
qed

lemma certificate_verifies:
  assumes "elimination_certificate g order = Inr c" "ce_ordering c = order"
  shows "verify_certificate g (certificate_json c)"
proof -
  have strs: "list_all is_str (map JStr ks)" "map json_str (map JStr ks) = ks" for ks by (induction ks) (simp_all add: json_str_def)
  have pj: "finite_json (pair_json r)" for r by (simp add: pair_json_def)
  have fin: "finite_json (JArr (map JStr ks))" for ks by (simp add: list_all_iff)
  have "finite_json (step_json s)" for s using fin pj by (simp add: step_json_def list_all_iff)
  then have "finite_json (certificate_json c)" using fin by (simp add: certificate_json_def list_all_iff)
  moreover obtain kvs where k: "certificate_json c = JObj kvs" "map_of kvs ''ordering'' = Some (JArr (map JStr order))"
    using assms(2) by (simp add: certificate_json_def)
  ultimately show ?thesis using strs [of order] assms(1) by (simp add: verify_certificate_def canonical_def del: map_map)
qed

text \<open>What every answer of the search means.\<close>

lemma feasibility_result:
  assumes m: "model_ok m" and r: "feasibility m order mx = Inr r"
  shows "0 \<le> sr_nodes r \<and> sr_nodes r \<le> mx \<and>
     (case sr_status r of
        SAT \<Rightarrow> \<exists>a. sr_assignment r = Some a \<and> map fst a = rev order \<and> satisfies m (\<lambda>k. the (map_of a k))
      | UNSAT \<Rightarrow> sr_assignment r = None \<and> (\<nexists>f. satisfies m f)
      | UNKNOWN \<Rightarrow> sr_assignment r = None \<and> sr_nodes r = mx \<and> mx < search_space m (rev order))"
proof -
  obtain a ex n where s: "search m mx (rev order) [] 0 = (a, ex, n)" by (cases "search m mx (rev order) [] 0") auto
  obtain c where c: "elimination_certificate (graph_of m) order = Inr c" and mx: "0 \<le> mx"
    and f: "r = \<lparr>sr_status = (if a \<noteq> None then SAT else if ex then UNKNOWN else UNSAT), sr_assignment = a, sr_nodes = n\<rparr>"
    using r s by (auto simp: feasibility_def interaction_graph_def result_simps)
  have keys: "fst ` set (graph_of m) = fst ` set (ci_domains m)" using graph_keys [OF m] by (metis list.set_map)
  have ord: "distinct order" "set order = fst ` set (ci_domains m)"
    using certificate_width(1) [OF graph_of_ok [OF m] c] keys by (auto simp: width_witness_def)
  note b = search_budget(1) [OF s mx]
  have ne: "rev order \<noteq> []" using ord m by (auto simp: model_ok_def)
  have "map fst x = rev order \<and> satisfies m (\<lambda>k. the (map_of x k))" if x: "a = Some x" for x
  proof -
    have k: "map fst x = rev order" "consistent m x False" using search_assignment(1) [OF s [unfolded x]] ne by auto
    have "fst ` set x = set (map fst x)" by simp
    then show ?thesis using consistent_complete [OF m k(2)] k(1) ord by simp
  qed
  moreover have "\<not> satisfies m f" if "a = None" "\<not> ex" for f
    using search_refutes(1) [of m mx "rev order" "[]" 0 n f] s that m ord by (auto simp: agrees_def)
  ultimately show ?thesis unfolding f using b by (cases a) auto
qed

lemma feasibility_total:
  assumes m: "model_ok m" and "distinct order" and "set order = fst ` set (ci_domains m)" and "0 \<le> mx" and "mx \<le> 1000000"
  shows "\<exists>r. feasibility m order mx = Inr r"
proof -
  have keys: "fst ` set (graph_of m) = fst ` set (ci_domains m)" and len: "length (graph_of m) \<le> 32"
    using graph_keys [OF m] m by (metis list.set_map, metis length_map model_ok_def)
  obtain c where "elimination_certificate (graph_of m) order = Inr c" using certificate_total [OF graph_of_ok [OF m] len assms(2)] assms(3) keys by auto
  then show ?thesis using validate_model_complete [OF m] assms(4,5) by (simp add: feasibility_def interaction_graph_def split: prod.splits)
qed

section \<open>Properties\<close>

text \<open>C13. The bounded search is exact. On a valid model and an order of its variables it always answers, within its budget; \<open>SAT\<close> comes with
  an assignment of every variable that meets all constraints, \<open>UNSAT\<close> means that there is none, and \<open>UNKNOWN\<close> that the whole budget was used and is
  smaller than the search tree. So a budget as large as the tree always decides.\<close>

theorem feasibility_exact:
  assumes "validate_model v = Inr m" and "distinct_keys v" and "distinct order" and "set order = fst ` set (ci_domains m)"
    and "0 \<le> mx" and "mx \<le> 1000000"
  shows "\<exists>r. feasibility m order mx = Inr r \<and> 0 \<le> sr_nodes r \<and> sr_nodes r \<le> mx \<and>
     (case sr_status r of
        SAT \<Rightarrow> \<exists>a. sr_assignment r = Some a \<and> map fst a = rev order \<and> satisfies m (\<lambda>k. the (map_of a k))
      | UNSAT \<Rightarrow> sr_assignment r = None \<and> (\<nexists>f. satisfies m f)
      | UNKNOWN \<Rightarrow> sr_assignment r = None \<and> sr_nodes r = mx \<and> mx < search_space m (rev order))"
proof -
  have m: "model_ok m" using validate_model_sound assms(1,2) by blast
  obtain r where r: "feasibility m order mx = Inr r" using feasibility_total [OF m assms(3-6)] by blast
  show ?thesis using r feasibility_result [OF m r] by blast
qed

text \<open>C14. Grouping by connected components loses nothing: the groups partition the variables, no group can be split further without cutting a
  constraint, every group's part of the model is valid again, and the model has an assignment exactly if the part of every group has one.\<close>

theorem grouping_exact:
  assumes "validate_model v = Inr m" and "distinct_keys v"
  shows "interaction_graph m = Inr (graph_of m)
    \<and> distinct (concat (components (graph_of m))) \<and> set (concat (components (graph_of m))) = fst ` set (ci_domains m)
    \<and> (\<forall>c \<in> set (components (graph_of m)). connected_group (graph_of m) c \<and> validate_model (model_json (restricted m c)) = Inr (restricted m c))
    \<and> ((\<exists>f. satisfies m f) \<longleftrightarrow> (\<forall>c \<in> set (components (graph_of m)). \<exists>f. satisfies (restricted m c) f))"
proof -
  have m: "model_ok m" using validate_model_sound assms by blast
  have "fst ` set (graph_of m) = fst ` set (ci_domains m)" using graph_keys [OF m] by (metis list.set_map)
  then have "distinct (concat (components (graph_of m)))" "set (concat (components (graph_of m))) = fst ` set (ci_domains m)"
    using components_exact(1,2) [OF graph_of_ok [OF m]] by simp_all
  moreover have "interaction_graph m = Inr (graph_of m)" by (simp add: interaction_graph_def validate_model_complete [OF m])
  moreover have "\<forall>c \<in> set (components (graph_of m)). connected_group (graph_of m) c \<and> validate_model (model_json (restricted m c)) = Inr (restricted m c)"
    using group_restricted_ok [OF m] validate_model_complete by blast
  ultimately show ?thesis using satisfiable_groups [OF m] by blast
qed

text \<open>C40. Min-fill always yields a certificate for the interaction graph of a valid model; the certificate verifies on replay, and its width
  is an upper bound of the treewidth of the graph.\<close>

theorem min_fill_certifies:
  assumes "validate_model v = Inr m" and "distinct_keys v"
  shows "\<exists>c. min_fill (graph_of m) = Inr c \<and> verify_certificate (graph_of m) (certificate_json c) \<and> width_witness (graph_of m) (ce_ordering c) (ce_steps c) (ce_width c)"
proof -
  have m: "model_ok m" using validate_model_sound assms by blast
  then have "length (graph_of m) \<le> 32" using graph_keys [OF m] by (metis length_map model_ok_def)
  then show ?thesis using min_fill_total [OF graph_of_ok [OF m]] certificate_verifies by metis
qed

section \<open>Instances\<close>

text \<open>Three variables with a sum, and one apart; the second model has no assignment.\<close>

definition sample_model :: "int \<Rightarrow> json" where
  "sample_model n =
     JObj [(''domains'', JObj [(''a'', JArr [JInt 1, JInt 2]), (''b'', JArr [JInt 1, JInt 2]), (''c'', JArr [JInt 0, JInt 3]), (''d'', JArr [JInt 7])]),
       (''different'', JArr [JArr [JStr ''a'', JStr ''b'']]), (''less_than'', JArr [JArr [JStr ''b'', JStr ''a'']]),
       (''sums'', JArr [JObj [(''keys'', JArr [JStr ''a'', JStr ''c'']), (''equals'', JInt n)]])]"

definition sample_cic :: "int \<Rightarrow> cic_model" where
  "sample_cic n =
     \<lparr>ci_domains = [(''a'', [1, 2]), (''b'', [1, 2]), (''c'', [0, 3]), (''d'', [7])], ci_different = [(''a'', ''b'')], ci_less = [(''b'', ''a'')],
      ci_sums = [([''a'', ''c''], n)]\<rparr>"

lemma sample_valid: "validate_model (sample_model 5) = Inr (sample_cic 5)" "validate_model (sample_model 4) = Inr (sample_cic 4)"
  "distinct_keys (sample_model 5)" "distinct_keys (sample_model 4)"
  by code_simp+

lemma sample_search:
  "map_r (\<lambda>mx. feasibility (sample_cic 5) [''c'', ''d'', ''b'', ''a''] mx) [10, 3] =
     Inr [\<lparr>sr_status = SAT, sr_assignment = Some [(''a'', 2), (''b'', 1), (''d'', 7), (''c'', 3)], sr_nodes = 6\<rparr>,
       \<lparr>sr_status = UNKNOWN, sr_assignment = None, sr_nodes = 3\<rparr>]"
  by code_simp

lemma sample_unsat: "map_sum id sr_status (feasibility (sample_cic 4) [''c'', ''d'', ''b'', ''a''] 20) = Inr UNSAT"
  by code_simp

theorem feasibility_exact_witness: "\<nexists>f. satisfies (sample_cic 4) f"
proof -
  have "distinct [''c'', ''d'', ''b'', ''a'']" "set [''c'', ''d'', ''b'', ''a''] = fst ` set (ci_domains (sample_cic 4))" by (auto simp: sample_cic_def)
  from feasibility_exact [OF sample_valid(2,4) this, of 20] show ?thesis using sample_unsat by auto
qed

lemma sample_groups: "components (graph_of (sample_cic 5)) = [[''a'', ''b'', ''c''], [''d'']]"
  by code_simp

theorem grouping_exact_witness:
  "(\<exists>f. satisfies (sample_cic 5) f) \<longleftrightarrow> (\<exists>f. satisfies (restricted (sample_cic 5) [''a'', ''b'', ''c'']) f) \<and> (\<exists>f. satisfies (restricted (sample_cic 5) [''d'']) f)"
  using grouping_exact [OF sample_valid(1,3)] by (simp add: sample_groups)

theorem min_fill_certifies_witness:
  "\<exists>c. min_fill (graph_of (sample_cic 5)) = Inr c \<and> verify_certificate (graph_of (sample_cic 5)) (certificate_json c) \<and> ce_width c = 1
     \<and> width_witness (graph_of (sample_cic 5)) (ce_ordering c) (ce_steps c) 1"
proof -
  have w: "map_sum id ce_width (min_fill (graph_of (sample_cic 5))) = Inr 1" by code_simp
  obtain c where c: "min_fill (graph_of (sample_cic 5)) = Inr c" "verify_certificate (graph_of (sample_cic 5)) (certificate_json c)"
    "width_witness (graph_of (sample_cic 5)) (ce_ordering c) (ce_steps c) (ce_width c)"
    using min_fill_certifies [OF sample_valid(1,3)] by blast
  then have "ce_width c = 1" using w by simp
  then show ?thesis using c by metis
qed

end
