(* ===== verification/Cic_Prepare.thy ===== *)
theory Cic_Prepare
  imports Engine Cic
begin

text \<open>
  Compilation of a task into groups, \<open>prepare\<close> of \<open>src/residual/cic.py\<close>: the front end of the controller in the modes \<open>structural\<close>
  and \<open>cic\<close>. Each connected component of the structural model becomes one obligation whose check runs the original checks of its members.

  \<^item> The check and the solver of a group are values of the types \<open>check\<close> and \<open>solver\<close> of the registry, closed over the task, the source
    registry and the members, as the closures of the source are.
  \<^item> \<open>compiler\<close> is the SHA-256 of the source file, \<open>H\<close> the hash function, \<open>fl\<close> the reader of floating-point literals.
  \<^item> The loop that orders the members of a group would run forever if no member were ready; \<open>member_order\<close> is then \<open>None\<close>, which
    \<open>prepare\<close> shows as an error. It never happens for a constructed task (\<open>member_order_total\<close>).
  \<^item> Shown: a group's check passes exactly for complete objects that meet the joint constraints and every member's own check; the
    compiled task has every obligation in exactly one group, keeps dependencies and privacy, spends at most its budget on
    searches, and blocks a group only if the model has no assignment at all.
\<close>

section \<open>Groups\<close>

definition dict_of :: "('k \<times> 'v) list \<Rightarrow> ('k, 'v) dict" where
  "dict_of kvs = foldl (\<lambda>d (k, v). AList.update k v d) [] kvs"

definition group_id :: "(string \<Rightarrow> string) \<Rightarrow> string list \<Rightarrow> string result" where
  "group_id H nodes = bind_r (digest H (JArr (map JStr nodes))) (\<lambda>h. Inr (''cicgroup.'' @ take 20 h))"

definition cic_members :: "graph \<Rightarrow> task \<Rightarrow> string list list" where
  "cic_members g t = components g @ map (\<lambda>ob. [ob_id ob]) (filter (\<lambda>ob. ob_id ob \<notin> fst ` set g) (obligations t))"

type_synonym groups = "(string, string list) dict"

definition cic_groups :: "(string \<Rightarrow> string) \<Rightarrow> string list list \<Rightarrow> groups result" where
  "cic_groups H members = bind_r (map_r (\<lambda>c. bind_r (group_id H c) (\<lambda>g. Inr (g, c))) members) (\<lambda>gs. Inr (dict_of gs))"

definition group_owner :: "groups \<Rightarrow> (string, string) dict" where
  "group_owner gs = dict_of (concat (map (\<lambda>(g, nodes). map (\<lambda>n. (n, g)) nodes) gs))"

function member_order :: "string list \<Rightarrow> obligation list \<Rightarrow> obligation list \<Rightarrow> obligation list option" where
  "member_order nodes ordered remaining =
     (if remaining = [] then Some ordered
      else let ready = filter (\<lambda>ob. set (depends_on ob) \<inter> set nodes \<subseteq> ob_id ` set ordered) remaining in
        if ready = [] then None else member_order nodes (ordered @ ready) (filter (\<lambda>ob. ob \<notin> set ready) remaining))"
  by pat_completeness auto

termination
proof (relation "measure (\<lambda>(nodes, ordered, remaining). length remaining)")
  fix nodes :: "string list" and ordered remaining ready :: "obligation list"
  assume r: "ready = filter (\<lambda>ob. set (depends_on ob) \<inter> set nodes \<subseteq> ob_id ` set ordered) remaining" "ready \<noteq> []"
  obtain ob where "ob \<in> set ready" using hd_in_set [OF r(2)] by blast
  then have "length (filter (\<lambda>ob. ob \<notin> set ready) remaining) < length remaining" using r(1) by (intro length_filter_less [of ob]) auto
  then show "((nodes, ordered @ ready, filter (\<lambda>ob. ob \<notin> set ready) remaining), nodes, ordered, remaining) \<in> measure (\<lambda>(nodes, ordered, remaining). length remaining)"
    by simp
qed simp

declare member_order.simps [simp del]

section \<open>Checks and solvers of a group\<close>

definition json_item :: "json \<Rightarrow> string \<Rightarrow> json result" where
  "json_item v k = (case v of JObj kvs \<Rightarrow> dict_get kvs k | _ \<Rightarrow> Inl (TypeError ''indices must be integers''))"

text \<open>The context of a member: dependencies inside the group from the values already checked, others from the accepted groups.\<close>

definition original_dependency :: "(string \<Rightarrow> json) \<Rightarrow> (string, string) dict \<Rightarrow> check_context \<Rightarrow> (string, json) dict \<Rightarrow> string \<Rightarrow> json result" where
  "original_dependency fl owner ctx staged d =
     (case map_of staged d of
        Some v \<Rightarrow> Inr v
      | None \<Rightarrow> bind_r (dict_get owner d) (\<lambda>g. bind_r (ctx_dependency fl ctx g) (\<lambda>v. json_item v d)))"

definition original_context ::
  "(string \<Rightarrow> json) \<Rightarrow> task \<Rightarrow> (string, string) dict \<Rightarrow> obligation \<Rightarrow> check_context \<Rightarrow> (string, json) dict \<Rightarrow> check_context result" where
  "original_context fl t owner ob ctx staged =
     bind_r (map_r (\<lambda>d. bind_r (original_dependency fl owner ctx staged d) (\<lambda>v. Inr (d, v))) (depends_on ob)) (\<lambda>deps.
     Inr \<lparr>ctx_obligation = ob, ctx_artifacts = artifacts t, ctx_accepted = dict_of deps\<rparr>)"

fun check_members ::
  "(string \<Rightarrow> json) \<Rightarrow> task \<Rightarrow> registry \<Rightarrow> (string, string) dict \<Rightarrow> (string \<times> json) list \<Rightarrow> check_context \<Rightarrow> (string, json) dict \<Rightarrow> obligation list
     \<Rightarrow> verdict option result" where
  "check_members fl t reg owner kvs ctx staged [] = Inr (Some passed)"
| "check_members fl t reg owner kvs ctx staged (ob # obs) =
     bind_r (dict_get (reg_checks reg) (ob_check ob)) (\<lambda>(label, f).
     bind_r (dict_get kvs (ob_id ob)) (\<lambda>v.
     bind_r (bind_r (canonical v) (strict_json fl)) (\<lambda>copy.
     bind_r (original_context fl t owner ob ctx staged) (\<lambda>cx.
     bind_r (f copy cx) (\<lambda>verdict.
     case verdict of
       None \<Rightarrow> Inr (Some \<lparr>v_status = Unknown, v_code = ''invalid_verifier_result'', v_message = []\<rparr>)
     | Some vd \<Rightarrow>
         if v_status vd \<noteq> Pass then Inr (Some vd)
         else check_members fl t reg owner kvs ctx (AList.update (ob_id ob) v staged) obs)))))"

definition group_check ::
  "(string \<Rightarrow> json) \<Rightarrow> task \<Rightarrow> registry \<Rightarrow> (string, string) dict \<Rightarrow> obligation list \<Rightarrow> cic_model option \<Rightarrow> string list \<Rightarrow> check" where
  "group_check fl t reg owner ordered submodel nodes value ctx =
     (case value of
        JObj kvs \<Rightarrow>
          if fst ` set kvs \<noteq> set nodes
          then Inr (Some (fail ''structural_incomplete_group'' ''Return the complete object for every member of this group.''))
          else if (case submodel of None \<Rightarrow> False | Some m \<Rightarrow> \<not> consistent_value m value True)
          then Inr (Some (fail ''structural_constraint_failed'' ''Check every domain and joint constraint in the declared evidence.''))
          else check_members fl t reg owner kvs ctx [] ordered
      | _ \<Rightarrow> Inr (Some (fail ''structural_incomplete_group'' ''Return the complete object for every member of this group.'')))"

definition has_solver :: "obligation \<Rightarrow> bool" where
  "has_solver ob = (case ob_solver ob of None \<Rightarrow> False | Some s \<Rightarrow> s \<noteq> [])"

definition solver_name :: "obligation \<Rightarrow> string" where
  "solver_name ob = (case ob_solver ob of None \<Rightarrow> [] | Some s \<Rightarrow> s)"

fun solve_members ::
  "(string \<Rightarrow> json) \<Rightarrow> task \<Rightarrow> registry \<Rightarrow> (string, string) dict \<Rightarrow> check_context \<Rightarrow> (string, json) dict \<Rightarrow> obligation list \<Rightarrow> (string, json) dict result" where
  "solve_members fl t reg owner ctx staged [] = Inr staged"
| "solve_members fl t reg owner ctx staged (ob # obs) =
     bind_r (dict_get (reg_solvers reg) (solver_name ob)) (\<lambda>f.
     bind_r (original_context fl t owner ob ctx staged) (\<lambda>cx.
     bind_r (f cx) (\<lambda>v. solve_members fl t reg owner ctx (AList.update (ob_id ob) v staged) obs)))"

definition group_solver :: "(string \<Rightarrow> json) \<Rightarrow> task \<Rightarrow> registry \<Rightarrow> (string, string) dict \<Rightarrow> obligation list \<Rightarrow> solver" where
  "group_solver fl t reg owner ordered ctx = bind_r (solve_members fl t reg owner ctx [] ordered) (\<lambda>staged. Inr (JObj staged))"

section \<open>Revisions and identities\<close>

definition check_binding :: "registry \<Rightarrow> obligation \<Rightarrow> (string \<times> json) result" where
  "check_binding reg ob =
     bind_r (dict_get (reg_checks reg) (ob_check ob)) (\<lambda>(label, f).
     Inr (ob_check ob, JObj [(''label'', JStr label), (''identity'', opt_str (map_option fst (map_of (reg_identities reg) (ob_check ob)))),
       (''check_type'', opt_str (map_option (check_type_value \<circ> snd) (map_of (reg_identities reg) (ob_check ob))))]))"

definition check_bindings :: "registry \<Rightarrow> obligation list \<Rightarrow> json result" where
  "check_bindings reg ordered = bind_r (map_r (check_binding reg) ordered) (\<lambda>bs. Inr (JObj (dict_of bs)))"

definition REVISION :: string where
  "REVISION = ''cic-finite-v1''"

definition group_revision :: "(string \<Rightarrow> string) \<Rightarrow> string \<Rightarrow> json \<Rightarrow> string result" where
  "group_revision H compiler bindings = digest H (JObj [(''compiler'', JStr REVISION), (''compiler_sha256'', JStr compiler), (''checks'', bindings)])"

text \<open>\<open>VerifierRevision.from_artifact\<close> and its \<open>effective_revision\<close>.\<close>

definition from_artifact :: "(string \<Rightarrow> string) \<Rightarrow> string \<Rightarrow> json \<Rightarrow> json \<Rightarrow> string result" where
  "from_artifact H file_hash configuration policy =
     bind_r (digest H configuration) (\<lambda>c.
     bind_r (digest H policy) (\<lambda>p.
     bind_r (iter_r hash_id [file_hash, c, p]) (\<lambda>_.
     digest H (JObj [(''schema'', JStr ''residual.verifier.revision.v1''), (''implementation_hash'', JStr file_hash), (''configuration_hash'', JStr c),
       (''policy_hash'', JStr p), (''proof_hash'', JNull)]))))"

definition group_identity :: "(string \<Rightarrow> string) \<Rightarrow> string \<Rightarrow> registry \<Rightarrow> obligation list \<Rightarrow> json \<Rightarrow> bool \<Rightarrow> string option result" where
  "group_identity H compiler reg ordered bindings structural =
     (if list_all (\<lambda>ob. ob_check ob \<in> fst ` set (reg_identities reg)) ordered
      then bind_r (from_artifact H compiler bindings (JObj [(''atomic_group'', JBool True), (''model_required'', JBool structural)])) (\<lambda>i. Inr (Some i))
      else Inr None)"

definition group_check_type :: "registry \<Rightarrow> obligation list \<Rightarrow> check_type" where
  "group_check_type reg ordered =
     (if list_ex (\<lambda>ob. map_option snd (map_of (reg_identities reg) (ob_check ob)) = Some Judge) ordered then Judge else Structural)"

section \<open>The compiled task\<close>

definition group_obligation :: "string \<Rightarrow> obligation list \<Rightarrow> (string, string) dict \<Rightarrow> string \<Rightarrow> obligation result" where
  "group_obligation gid ordered owner model_sha =
     bind_r (map_r (dict_get owner) (concat (map depends_on ordered))) (\<lambda>gs.
     mk_obligation
       \<lparr>ob_id = gid,
        instruction = ''Return one JSON object mapping each of these member IDs to its answer. Satisfy all joint constraints and member contracts: ''
          @ sep_by ''; '' (map (\<lambda>ob. ob_id ob @ '': '' @ instruction ob) ordered),
        ob_check = gid, ob_evidence = sort (remdups (concat (map ob_evidence ordered))), depends_on = sort (remdups (filter (\<lambda>g. g \<noteq> gid) gs)),
        parameters = JObj [(''members'', JArr (map obligation_json ordered)), (''model_sha256'', JStr model_sha)],
        ob_solver = (if list_all has_solver ordered then Some gid else None), ob_cloud = list_all ob_cloud ordered\<rparr>)"

record compiled =
  cp_registry :: registry
  cp_obligations :: "obligation list"
  cp_blocked :: "(string, string \<times> string) dict"
  cp_feasibility :: "(string, search_status \<times> int) dict"
  cp_nodes :: int

definition group_feasibility ::
  "cic_model option \<Rightarrow> certificate option \<Rightarrow> int \<Rightarrow> string \<Rightarrow> string list \<Rightarrow> compiled \<Rightarrow> compiled result" where
  "group_feasibility submodel cert mx gid nodes cp =
     (case (cert, submodel) of
        (Some c, Some m) \<Rightarrow>
          bind_r (feasibility m (filter (\<lambda>n. n \<in> set nodes) (ce_ordering c)) (mx - cp_nodes cp)) (\<lambda>r.
          Inr (cp\<lparr>cp_nodes := cp_nodes cp + sr_nodes r, cp_feasibility := AList.update gid (sr_status r, sr_nodes r) (cp_feasibility cp),
                  cp_blocked := (if sr_status r = UNSAT
                    then AList.update gid (''structural_unsat'', ''The declared finite model has no satisfying assignment.'') (cp_blocked cp) else cp_blocked cp)\<rparr>))
      | _ \<Rightarrow> Inr cp)"

definition register_group ::
  "(string \<Rightarrow> string) \<Rightarrow> (string \<Rightarrow> json) \<Rightarrow> string \<Rightarrow> task \<Rightarrow> registry \<Rightarrow> (string, string) dict \<Rightarrow> cic_model option \<Rightarrow> string \<Rightarrow> string list \<Rightarrow> obligation list
     \<Rightarrow> registry \<Rightarrow> registry result" where
  "register_group H fl compiler t reg owner submodel gid nodes ordered creg =
     bind_r (check_bindings reg ordered) (\<lambda>bindings.
     bind_r (group_revision H compiler bindings) (\<lambda>revision.
     bind_r (group_identity H compiler reg ordered bindings (submodel \<noteq> None)) (\<lambda>identity.
     bind_r (register_check creg gid (group_check fl t reg owner ordered submodel nodes) revision identity (group_check_type reg ordered)) (\<lambda>creg1.
     if list_all has_solver ordered then register_solver creg1 gid (group_solver fl t reg owner ordered) else Inr creg1))))"

definition compile_group ::
  "(string \<Rightarrow> string) \<Rightarrow> (string \<Rightarrow> json) \<Rightarrow> string \<Rightarrow> task \<Rightarrow> registry \<Rightarrow> (string, string) dict \<Rightarrow> cic_model \<Rightarrow> graph \<Rightarrow> string \<Rightarrow> certificate option \<Rightarrow> int
     \<Rightarrow> compiled \<Rightarrow> string \<times> string list \<Rightarrow> compiled result" where
  "compile_group H fl compiler t reg owner m g sha cert mx cp grp =
     (case member_order (snd grp) [] (filter (\<lambda>ob. ob_id ob \<in> set (snd grp)) (obligations t)) of
        None \<Rightarrow> Inl (CrashError ''the members of a group cannot be ordered'')
      | Some ordered \<Rightarrow>
          let submodel = (if hd (snd grp) \<in> fst ` set g then Some (restricted m (snd grp)) else None) in
          bind_r (group_feasibility submodel cert mx (fst grp) (snd grp) cp) (\<lambda>cp1.
          bind_r (register_group H fl compiler t reg owner submodel (fst grp) (snd grp) ordered (cp_registry cp1)) (\<lambda>creg.
          bind_r (group_obligation (fst grp) ordered owner sha) (\<lambda>ob.
          Inr (cp1\<lparr>cp_registry := creg, cp_obligations := cp_obligations cp1 @ [ob]\<rparr>)))))"

record analysis =
  an_applicable :: bool
  an_revision :: string
  an_model_sha256 :: string
  an_groups :: groups
  an_certificate :: "certificate option"
  an_blocked :: "(string, string \<times> string) dict"
  an_feasibility :: "(string, search_status \<times> int) dict"
  an_search_nodes :: int

definition structural_model :: "(string \<Rightarrow> json) \<Rightarrow> task \<Rightarrow> registry \<Rightarrow> string \<Rightarrow> (artifact \<times> cic_model) result" where
  "structural_model fl t reg s =
     bind_r (ensure (list_all (\<lambda>ob. ob_check ob \<in> fst ` set (reg_checks reg) \<and> (has_solver ob \<longrightarrow> solver_name ob \<in> fst ` set (reg_solvers reg))) (obligations t))
       (ContractError ''unregistered verifier or solver'')) (\<lambda>_.
     bind_r (dict_get (artifacts t) s) (\<lambda>art.
     bind_r (ensure (int (length (art_text art)) \<le> 128000) (ContractError ''structural artifact too large'')) (\<lambda>_.
     bind_r (strict_json fl (art_text art)) (\<lambda>v.
     bind_r (validate_model v) (\<lambda>m.
     bind_r (ensure (fst ` set (ci_domains m) \<subseteq> fst ` set (by_id t)) (ContractError ''structural variable must name an obligation'')) (\<lambda>_.
     bind_r (iter_r (\<lambda>n. bind_r (dict_get (by_id t) n) (\<lambda>ob.
         ensure (s \<in> set (ob_evidence ob)) (ContractError ''each structural member must declare the model as evidence''))) (map fst (ci_domains m))) (\<lambda>_.
     Inr (art, m))))))))"

definition prepare ::
  "(string \<Rightarrow> string) \<Rightarrow> (string \<Rightarrow> json) \<Rightarrow> string \<Rightarrow> task \<Rightarrow> registry \<Rightarrow> string \<Rightarrow> int \<Rightarrow> (task \<times> registry \<times> analysis) result" where
  "prepare H fl compiler t reg mode mx =
     (case task_structure t of
        None \<Rightarrow> Inr (t, reg, \<lparr>an_applicable = False, an_revision = [], an_model_sha256 = [], an_groups = [], an_certificate = None, an_blocked = [], an_feasibility = [],
          an_search_nodes = 0\<rparr>)
      | Some s \<Rightarrow>
          bind_r (structural_model fl t reg s) (\<lambda>(art, m).
          bind_r (interaction_graph m) (\<lambda>g.
          bind_r (cic_groups H (cic_members g t)) (\<lambda>groups.
          bind_r (ensure (fst ` set groups \<inter> fst ` set (by_id t) = {}) (ContractError ''generated structural identifier collision'')) (\<lambda>_.
          bind_r (if mode = ''cic'' then bind_r (min_fill g) (\<lambda>c. Inr (Some c)) else Inr None) (\<lambda>cert.
          bind_r (fold_r (compile_group H fl compiler t reg (group_owner groups) m g (art_sha256 H art) cert mx)
            \<lparr>cp_registry = reg, cp_obligations = [], cp_blocked = [], cp_feasibility = [], cp_nodes = 0\<rparr> groups) (\<lambda>cp.
          bind_r (mk_task \<lparr>task_id = task_id t, task_goal = task_goal t, artifacts = artifacts t, obligations = cp_obligations cp, task_structure = None\<rparr>) (\<lambda>ct.
          Inr (ct, cp_registry cp, \<lparr>an_applicable = True, an_revision = REVISION, an_model_sha256 = art_sha256 H art, an_groups = groups, an_certificate = cert,
            an_blocked = cp_blocked cp, an_feasibility = cp_feasibility cp, an_search_nodes = cp_nodes cp\<rparr>)))))))))"

section \<open>Dictionaries and groups\<close>

lemma dict_of_fold: "distinct (map fst (d @ kvs)) \<Longrightarrow> foldl (\<lambda>d (k, v). AList.update k v d) d kvs = d @ kvs"
proof (induction kvs arbitrary: d)
  case (Cons kv kvs)
  obtain k v where kv: "kv = (k, v)" by (cases kv)
  have "k \<notin> fst ` set d" using Cons.prems kv by auto
  then have "AList.update k v d = d @ [(k, v)]" by (rule update_new)
  then show ?case using Cons.IH [of "d @ [kv]"] Cons.prems kv by simp
qed simp

lemma dict_of_distinct: "distinct (map fst kvs) \<Longrightarrow> dict_of kvs = kvs"
  using dict_of_fold [of "[]" kvs] by (simp add: dict_of_def)

definition gid :: "(string \<Rightarrow> string) \<Rightarrow> string list \<Rightarrow> string" where
  "gid H nodes = ''cicgroup.'' @ take 20 (H (dumps (JArr (map JStr nodes))))"

lemma group_id_eq: "group_id H nodes = Inr (gid H nodes)"
proof -
  have "finite_json (JArr (map JStr nodes))" by (simp add: list_all_iff)
  then show ?thesis by (simp add: group_id_def gid_def digest_def canonical_def)
qed

lemma cic_groups_eq:
  assumes "distinct members" and "inj_on (gid H) (set members)"
  shows "cic_groups H members = Inr (map (\<lambda>c. (gid H c, c)) members)"
proof -
  have "map_r (\<lambda>c. bind_r (group_id H c) (\<lambda>g. Inr (g, c))) ms = Inr (map (\<lambda>c. (gid H c, c)) ms)" for ms
    by (induction ms) (simp_all add: group_id_eq)
  moreover have "distinct (map fst (map (\<lambda>c. (gid H c, c)) members))" using assms by (simp add: comp_def distinct_map)
  ultimately show ?thesis by (simp add: cic_groups_def dict_of_distinct)
qed

lemma group_owner_eq: "distinct (concat (map snd gs)) \<Longrightarrow> group_owner gs = concat (map (\<lambda>(g, nodes). map (\<lambda>n. (n, g)) nodes) gs)"
proof -
  assume d: "distinct (concat (map snd gs))"
  have "map fst (concat (map (\<lambda>(g, nodes). map (\<lambda>n. (n, g)) nodes) gs)) = concat (map snd gs)" by (induction gs) (auto simp: comp_def)
  then show ?thesis using d by (simp add: group_owner_def dict_of_distinct)
qed

lemma group_owner_iff:
  assumes d: "distinct (concat (map snd gs))"
  shows "map_of (group_owner gs) n = Some g \<longleftrightarrow> (\<exists>nodes. (g, nodes) \<in> set gs \<and> n \<in> set nodes)"
proof -
  have "map fst (group_owner gs) = concat (map snd gs)" unfolding group_owner_eq [OF d] by (induction gs) (auto simp: comp_def)
  then have "map_of (group_owner gs) n = Some g \<longleftrightarrow> (n, g) \<in> set (group_owner gs)" using d by (metis map_of_eq_Some_iff)
  then show ?thesis by (auto simp: group_owner_eq [OF d])
qed

section \<open>The order of the members\<close>

lemma member_order_sound:
  assumes "member_order nodes ordered remaining = Some res" and "distinct (ordered @ remaining)"
    and "\<And>i. i < length ordered \<Longrightarrow> set (depends_on (ordered ! i)) \<inter> set nodes \<subseteq> ob_id ` set (take i ordered)"
  shows "set res = set ordered \<union> set remaining \<and> distinct res \<and> (\<forall>i < length res. set (depends_on (res ! i)) \<inter> set nodes \<subseteq> ob_id ` set (take i res))"
  using assms
proof (induction nodes ordered remaining rule: member_order.induct)
  case (1 nodes ordered remaining)
  define ready where "ready = filter (\<lambda>ob. set (depends_on ob) \<inter> set nodes \<subseteq> ob_id ` set ordered) remaining"
  show ?case
  proof (cases "remaining = []")
    case True
    then show ?thesis using 1(2-4) by (simp add: member_order.simps [of nodes ordered])
  next
    case False
    then have r: "ready \<noteq> []" "member_order nodes (ordered @ ready) (filter (\<lambda>ob. ob \<notin> set ready) remaining) = Some res"
      using 1(2) unfolding member_order.simps [of nodes ordered] Let_def ready_def [symmetric] by (auto split: if_splits)
    have new: "set (depends_on ob) \<inter> set nodes \<subseteq> ob_id ` set ordered" if "ob \<in> set ready" for ob using that by (simp add: ready_def)
    have "set (depends_on ((ordered @ ready) ! i)) \<inter> set nodes \<subseteq> ob_id ` set (take i (ordered @ ready))" if i: "i < length (ordered @ ready)" for i
    proof (cases "i < length ordered")
      case True
      then show ?thesis using 1(4) [of i] by (simp add: nth_append)
    next
      case False
      then have "(ordered @ ready) ! i \<in> set ready" using i by (simp add: nth_append)
      then show ?thesis using new False by fastforce
    qed
    moreover have "distinct ((ordered @ ready) @ filter (\<lambda>ob. ob \<notin> set ready) remaining)" using 1(3) by (auto simp: ready_def)
    moreover have "set ready \<subseteq> set remaining" by (auto simp: ready_def)
    ultimately show ?thesis using 1(1) [OF False ready_def r(1) r(2)] by auto
  qed
qed

lemma member_order_total:
  assumes t: "valid_task t" and "set ordered \<union> set remaining = {ob \<in> set (obligations t). ob_id ob \<in> set nodes}"
  shows "member_order nodes ordered remaining \<noteq> None"
  using assms(2)
proof (induction nodes ordered remaining rule: member_order.induct)
  case (1 nodes ordered remaining)
  define ready where "ready = filter (\<lambda>ob. set (depends_on ob) \<inter> set nodes \<subseteq> ob_id ` set ordered) remaining"
  show ?case
  proof (cases "remaining = []")
    case True
    then show ?thesis by (simp add: member_order.simps)
  next
    case False
    let ?R = "dep_rel (ob_deps (obligations t))"
    have "wf ?R" using finite_acyclic_wf [OF finite_dep_rel valid_taskD(3) [OF t]] .
    moreover obtain x where "x \<in> ob_id ` set remaining" using False by (cases remaining) auto
    ultimately obtain z where z: "z \<in> ob_id ` set remaining" "\<And>y. (y, z) \<in> ?R \<Longrightarrow> y \<notin> ob_id ` set remaining" by (metis wfE_min)
    then obtain ob where ob: "ob \<in> set remaining" "ob_id ob = z" by auto
    have mem: "ob \<in> set (obligations t)" using ob(1) 1(2) by auto
    then have byid: "map_of (by_id t) z = Some ob" using ob(2) map_of_by_id [OF valid_taskD(1) [OF t]] by simp
    have "set (depends_on ob) \<inter> set nodes \<subseteq> ob_id ` set ordered"
    proof
      fix d assume d: "d \<in> set (depends_on ob) \<inter> set nodes"
      then have "(d, z) \<in> ?R" "d \<in> ob_id ` set (obligations t)" using dep_rel_by_id [OF t] byid depends_on_known [OF t byid] by blast+
      then have "d \<notin> ob_id ` set remaining" "\<exists>o' \<in> set (obligations t). ob_id o' = d" using z(2) by auto
      then show "d \<in> ob_id ` set ordered" using d 1(2) by force
    qed
    then have "ready \<noteq> []" using ob(1) by (auto simp: ready_def filter_empty_conv)
    moreover have "set (ordered @ ready) \<union> set (filter (\<lambda>ob. ob \<notin> set ready) remaining) = {ob \<in> set (obligations t). ob_id ob \<in> set nodes}"
      using 1(2) by (auto simp: ready_def)
    ultimately have "member_order nodes (ordered @ ready) (filter (\<lambda>ob. ob \<notin> set ready) remaining) \<noteq> None" using 1(1) [OF False ready_def] by blast
    then show ?thesis using False \<open>ready \<noteq> []\<close> unfolding member_order.simps [of nodes ordered] Let_def ready_def [symmetric] by simp
  qed
qed

section \<open>The check of a group\<close>

lemma consistent_value_exact:
  assumes m: "model_ok m" and d: "distinct (map fst kvs)"
  shows "consistent_value m (JObj kvs) True \<longleftrightarrow> fst ` set kvs = fst ` set (ci_domains m)
    \<and> (\<exists>f. satisfies m f \<and> (\<forall>k \<in> fst ` set (ci_domains m). map_of kvs k = Some (JInt (f k))))"
proof -
  define vs where "vs = map (\<lambda>(k, x). (k, json_int x)) kvs"
  have keys: "map fst vs = map fst kvs" by (simp add: vs_def split_def comp_def)
  then have k: "fst ` set vs = fst ` set kvs" by (metis list.set_map)
  have look: "map_of vs k = map_option json_int (map_of kvs k)" for k unfolding vs_def by (simp add: map_of_map)
  have cv: "consistent_value m (JObj kvs) True \<longleftrightarrow> list_all (\<lambda>(k, x). is_int x) kvs \<and> consistent m vs True" by (simp add: consistent_value_def vs_def)
  show ?thesis
  proof
    assume a: "consistent_value m (JObj kvs) True"
    then have c: "list_all (\<lambda>(k, x). is_int x) kvs" "consistent m vs False" "fst ` set vs = fst ` set (ci_domains m)"
      unfolding cv by (auto simp: consistent_def)
    have s: "satisfies m (\<lambda>k. the (map_of vs k))" using consistent_complete [OF m c(2,3)] d keys by simp
    have "map_of kvs k' = Some (JInt (the (map_of vs k')))" if "k' \<in> fst ` set (ci_domains m)" for k'
    proof -
      have "k' \<in> fst ` set kvs" using that c(3) k by blast
      then obtain x where x: "map_of kvs k' = Some x" by (metis map_of_eq_None_iff not_None_eq)
      then have "is_int x" using c(1) map_of_SomeD [OF x] by (auto simp: list_all_iff)
      then show ?thesis using x look by (cases x) (simp_all add: json_int_def)
    qed
    then show "fst ` set kvs = fst ` set (ci_domains m) \<and> (\<exists>f. satisfies m f \<and> (\<forall>k \<in> fst ` set (ci_domains m). map_of kvs k = Some (JInt (f k))))"
      using s c(3) k by (intro conjI exI [of _ "\<lambda>k. the (map_of vs k)"] ballI) simp_all
  next
    assume "fst ` set kvs = fst ` set (ci_domains m) \<and> (\<exists>f. satisfies m f \<and> (\<forall>k \<in> fst ` set (ci_domains m). map_of kvs k = Some (JInt (f k))))"
    then obtain f where f': "fst ` set kvs = fst ` set (ci_domains m) \<and> satisfies m f \<and> (\<forall>k \<in> fst ` set (ci_domains m). map_of kvs k = Some (JInt (f k)))" by (elim conjE exE) iprover
    then have f: "fst ` set kvs = fst ` set (ci_domains m)" "satisfies m f" "\<And>k. k \<in> fst ` set (ci_domains m) \<Longrightarrow> map_of kvs k = Some (JInt (f k))" by (simp, simp, blast)
    have ints: "x = JInt (f k)" if "(k, x) \<in> set kvs" for k x
    proof -
      have "k \<in> fst ` set kvs" using that by force
      then show ?thesis using f(1) f(3) [of k] map_of_is_SomeI [OF d that] by simp
    qed
    have "is_int x" if "(k, x) \<in> set kvs" for k x using ints [OF that] by simp
    then have "list_all (\<lambda>(k, x). is_int x) kvs" by (auto simp: list_all_iff)
    moreover have "agrees f vs" unfolding agrees_def look
    proof (intro allI impI)
      fix k v assume v: "map_option json_int (map_of kvs k) = Some v"
      then have "k \<in> fst ` set kvs" by (auto dest: map_of_SomeD simp: image_iff Bex_def)
      then show "f k = v" using v f(1) f(3) [of k] by (simp add: json_int_def)
    qed
    then have "consistent m vs False" using consistent_sound [OF m f(2)] k f(1) d keys by simp
    ultimately show "consistent_value m (JObj kvs) True" unfolding cv using k f(1) by (auto simp: consistent_def)
  qed
qed

text \<open>A member passes when its own check, given a copy of its value and its own context, returns a passing verdict.\<close>

definition staged_values :: "(string \<times> json) list \<Rightarrow> obligation list \<Rightarrow> (string, json) dict" where
  "staged_values kvs obs = map (\<lambda>ob. (ob_id ob, jget kvs (ob_id ob))) obs"

definition member_passes ::
  "(string \<Rightarrow> json) \<Rightarrow> task \<Rightarrow> registry \<Rightarrow> (string, string) dict \<Rightarrow> (string \<times> json) list \<Rightarrow> check_context \<Rightarrow> (string, json) dict \<Rightarrow> obligation \<Rightarrow> bool" where
  "member_passes fl t reg owner kvs ctx staged ob =
     (\<exists>label f v copy cx vd. map_of (reg_checks reg) (ob_check ob) = Some (label, f) \<and> map_of kvs (ob_id ob) = Some v \<and> bind_r (canonical v) (strict_json fl) = Inr copy
        \<and> original_context fl t owner ob ctx staged = Inr cx \<and> f copy cx = Inr (Some vd) \<and> v_status vd = Pass)"

lemma check_members_step:
  "(\<exists>vd. check_members fl t reg owner kvs ctx staged (ob # obs) = Inr (Some vd) \<and> v_status vd = Pass) \<longleftrightarrow>
     member_passes fl t reg owner kvs ctx staged ob
     \<and> (\<exists>vd. check_members fl t reg owner kvs ctx (AList.update (ob_id ob) (jget kvs (ob_id ob)) staged) obs = Inr (Some vd) \<and> v_status vd = Pass)"
  (is "?l = (?m \<and> ?r)")
proof
  assume ?l
  then show "?m \<and> ?r" by (auto simp: member_passes_def result_simps jget_def split: option.splits if_splits)
next
  assume a: "?m \<and> ?r"
  then obtain label f v copy cx vd where s: "map_of (reg_checks reg) (ob_check ob) = Some (label, f)" "map_of kvs (ob_id ob) = Some v" "bind_r (canonical v) (strict_json fl) = Inr copy"
      "original_context fl t owner ob ctx staged = Inr cx" "f copy cx = Inr (Some vd)" "v_status vd = Pass"
    by (auto simp: member_passes_def)
  have "jget kvs (ob_id ob) = v" using s(2) by (simp add: jget_def)
  then show ?l using s a by (simp add: dict_get_def)
qed

lemma check_members_passes:
  assumes "distinct (map ob_id (done_obs @ obs))"
  shows "(\<exists>vd. check_members fl t reg owner kvs ctx (staged_values kvs done_obs) obs = Inr (Some vd) \<and> v_status vd = Pass) \<longleftrightarrow>
     (\<forall>i < length obs. member_passes fl t reg owner kvs ctx (staged_values kvs (done_obs @ take i obs)) (obs ! i))"
  using assms
proof (induction obs arbitrary: done_obs)
  case Nil
  then show ?case by (simp add: passed_def)
next
  case (Cons ob obs)
  have "ob_id ob \<notin> fst ` set (staged_values kvs done_obs)" using Cons.prems by (auto simp: staged_values_def)
  then have "AList.update (ob_id ob) (jget kvs (ob_id ob)) (staged_values kvs done_obs) = staged_values kvs (done_obs @ [ob])" by (simp add: update_new staged_values_def)
  then have "(\<exists>vd. check_members fl t reg owner kvs ctx (staged_values kvs done_obs) (ob # obs) = Inr (Some vd) \<and> v_status vd = Pass) \<longleftrightarrow>
      member_passes fl t reg owner kvs ctx (staged_values kvs done_obs) ob
      \<and> (\<forall>i < length obs. member_passes fl t reg owner kvs ctx (staged_values kvs ((done_obs @ [ob]) @ take i obs)) (obs ! i))"
    using Cons.IH [of "done_obs @ [ob]"] Cons.prems by (simp only: check_members_step) simp
  then show ?case by (auto simp: nth_Cons' less_Suc_eq_0_disj)
qed

section \<open>Compilation\<close>

lemma register_check_lookup:
  assumes "register_check reg n f revn i ct = Inr reg'"
  shows "map_of (reg_checks reg') n = Some (revn, f)" and "k \<in> fst ` set (reg_checks reg) \<Longrightarrow> map_of (reg_checks reg') k = map_of (reg_checks reg) k"
    and "fst ` set (reg_checks reg') = insert n (fst ` set (reg_checks reg))"
proof -
  have "reg_checks reg' = AList.update n (revn, f) (reg_checks reg)" "n \<notin> fst ` set (reg_checks reg)" using assms by (auto simp: register_check_def result_simps)
  then show "map_of (reg_checks reg') n = Some (revn, f)" "k \<in> fst ` set (reg_checks reg) \<Longrightarrow> map_of (reg_checks reg') k = map_of (reg_checks reg) k"
    "fst ` set (reg_checks reg') = insert n (fst ` set (reg_checks reg))"
    by (simp, metis map_of_update, simp add: keys_update)
qed

lemma register_solver_checks: "register_solver reg n f = Inr reg' \<Longrightarrow> reg_checks reg' = reg_checks reg"
  by (auto simp: register_solver_def result_simps)

text \<open>What the loop has installed for a group.\<close>

definition installed ::
  "(string \<Rightarrow> json) \<Rightarrow> task \<Rightarrow> registry \<Rightarrow> groups \<Rightarrow> cic_model \<Rightarrow> registry \<Rightarrow> string \<times> string list \<Rightarrow> bool" where
  "installed fl t reg gs m creg grp =
     (\<exists>ordered revision. member_order (snd grp) [] (filter (\<lambda>ob. ob_id ob \<in> set (snd grp)) (obligations t)) = Some ordered
        \<and> map_of (reg_checks creg) (fst grp) =
            Some (revision, group_check fl t reg (group_owner gs) ordered (if hd (snd grp) \<in> fst ` set (graph_of m) then Some (restricted m (snd grp)) else None) (snd grp)))"

lemma register_group_checks:
  assumes "register_group H fl compiler t reg owner sub g nodes ordered creg = Inr creg'"
  shows "\<exists>revision. map_of (reg_checks creg') g = Some (revision, group_check fl t reg owner ordered sub nodes)"
    and "k \<in> fst ` set (reg_checks creg) \<Longrightarrow> map_of (reg_checks creg') k = map_of (reg_checks creg) k"
    and "fst ` set (reg_checks creg') = insert g (fst ` set (reg_checks creg))"
proof -
  obtain revn i ct creg1 where r: "register_check creg g (group_check fl t reg owner ordered sub nodes) revn i ct = Inr creg1" and c: "reg_checks creg' = reg_checks creg1"
    using assms by (auto simp: register_group_def result_simps register_solver_checks split: if_splits)
  note l = register_check_lookup [OF r]
  show "\<exists>revision. map_of (reg_checks creg') g = Some (revision, group_check fl t reg owner ordered sub nodes)" using l(1) c by simp
  show "k \<in> fst ` set (reg_checks creg) \<Longrightarrow> map_of (reg_checks creg') k = map_of (reg_checks creg) k" using l(2) c by simp
  show "fst ` set (reg_checks creg') = insert g (fst ` set (reg_checks creg))" using l(3) c by simp
qed

lemma group_feasibility_result:
  assumes "group_feasibility sub cert mx g nodes cp = Inr cp'" and "\<And>m. sub = Some m \<Longrightarrow> model_ok m"
  shows "cp_registry cp' = cp_registry cp \<and> cp_obligations cp' = cp_obligations cp \<and> (cp_nodes cp \<le> mx \<longrightarrow> cp_nodes cp' \<le> mx)
    \<and> (\<forall>k \<in> fst ` set (cp_blocked cp'). k \<in> fst ` set (cp_blocked cp) \<or> k = g \<and> (\<exists>m. sub = Some m \<and> (\<nexists>f. satisfies m f)))"
proof (cases "cert = None \<or> sub = None")
  case True
  then show ?thesis using assms(1) by (auto simp: group_feasibility_def split: option.splits)
next
  case False
  then obtain c m where cm: "cert = Some c" "sub = Some m" by auto
  then obtain r where r: "feasibility m (filter (\<lambda>n. n \<in> set nodes) (ce_ordering c)) (mx - cp_nodes cp) = Inr r"
    and cp': "cp' = cp\<lparr>cp_nodes := cp_nodes cp + sr_nodes r, cp_feasibility := AList.update g (sr_status r, sr_nodes r) (cp_feasibility cp),
                  cp_blocked := (if sr_status r = UNSAT
                    then AList.update g (''structural_unsat'', ''The declared finite model has no satisfying assignment.'') (cp_blocked cp) else cp_blocked cp)\<rparr>"
    using assms(1) by (auto simp: group_feasibility_def result_simps)
  have "sr_nodes r \<le> mx - cp_nodes cp" "sr_status r = UNSAT \<Longrightarrow> \<nexists>f. satisfies m f" using feasibility_result [OF assms(2) [OF cm(2)] r] by auto
  moreover have "fst ` set (cp_blocked cp') = (if sr_status r = UNSAT then insert g (fst ` set (cp_blocked cp)) else fst ` set (cp_blocked cp))"
    by (simp add: cp' keys_update)
  moreover have "cp_registry cp' = cp_registry cp" "cp_obligations cp' = cp_obligations cp" "cp_nodes cp' = cp_nodes cp + sr_nodes r" by (simp_all add: cp')
  ultimately show ?thesis using cm(2) by (intro conjI ballI) (auto split: if_splits simp del: image_iff)
qed

text \<open>One step of the loop.\<close>

lemma compile_group_step:
  assumes c: "compile_group H fl compiler t reg (group_owner gs) m (graph_of m) sha cert mx cp grp = Inr cp'"
    and ok: "hd (snd grp) \<in> fst ` set (graph_of m) \<Longrightarrow> model_ok (restricted m (snd grp))"
  obtains ob ordered where "member_order (snd grp) [] (filter (\<lambda>ob. ob_id ob \<in> set (snd grp)) (obligations t)) = Some ordered"
    "group_obligation (fst grp) ordered (group_owner gs) sha = Inr ob" "cp_obligations cp' = cp_obligations cp @ [ob]"
    "installed fl t reg gs m (cp_registry cp') grp" "cp_nodes cp \<le> mx \<longrightarrow> cp_nodes cp' \<le> mx"
    "\<And>k. k \<in> fst ` set (reg_checks (cp_registry cp)) \<Longrightarrow> map_of (reg_checks (cp_registry cp')) k = map_of (reg_checks (cp_registry cp)) k"
    "fst ` set (reg_checks (cp_registry cp')) = insert (fst grp) (fst ` set (reg_checks (cp_registry cp)))"
    "\<And>k. k \<in> fst ` set (cp_blocked cp') \<Longrightarrow> k \<in> fst ` set (cp_blocked cp) \<or> k = fst grp \<and> hd (snd grp) \<in> fst ` set (graph_of m) \<and> (\<nexists>f. satisfies (restricted m (snd grp)) f)"
proof -
  let ?sub = "if hd (snd grp) \<in> fst ` set (graph_of m) then Some (restricted m (snd grp)) else None"
  obtain ordered cp1 creg ob where s: "member_order (snd grp) [] (filter (\<lambda>ob. ob_id ob \<in> set (snd grp)) (obligations t)) = Some ordered"
    "group_feasibility ?sub cert mx (fst grp) (snd grp) cp = Inr cp1"
    "register_group H fl compiler t reg (group_owner gs) ?sub (fst grp) (snd grp) ordered (cp_registry cp1) = Inr creg"
    "group_obligation (fst grp) ordered (group_owner gs) sha = Inr ob" "cp' = cp1\<lparr>cp_registry := creg, cp_obligations := cp_obligations cp1 @ [ob]\<rparr>"
    using c unfolding compile_group_def Let_def by (auto simp: result_simps split: option.splits)
  have f: "cp_registry cp1 = cp_registry cp \<and> cp_obligations cp1 = cp_obligations cp \<and> (cp_nodes cp \<le> mx \<longrightarrow> cp_nodes cp1 \<le> mx)
    \<and> (\<forall>k \<in> fst ` set (cp_blocked cp1). k \<in> fst ` set (cp_blocked cp) \<or> k = fst grp \<and> (\<exists>m. ?sub = Some m \<and> (\<nexists>f. satisfies m f)))"
    by (rule group_feasibility_result [OF s(2)]) (use ok in \<open>auto split: if_splits\<close>)
  note g = register_group_checks [OF s(3)]
  show thesis
  proof (rule that [OF s(1,4)])
    show "cp_obligations cp' = cp_obligations cp @ [ob]" "cp_nodes cp \<le> mx \<longrightarrow> cp_nodes cp' \<le> mx" using s(5) f by simp_all
    show "installed fl t reg gs m (cp_registry cp') grp" using s(1,5) g(1) by (simp add: installed_def)
    show "map_of (reg_checks (cp_registry cp')) k = map_of (reg_checks (cp_registry cp)) k" if "k \<in> fst ` set (reg_checks (cp_registry cp))" for k
      using g(2) [of k] that s(5) f by simp
    show "fst ` set (reg_checks (cp_registry cp')) = insert (fst grp) (fst ` set (reg_checks (cp_registry cp)))" using g(3) s(5) f by simp
    show "k \<in> fst ` set (cp_blocked cp) \<or> k = fst grp \<and> hd (snd grp) \<in> fst ` set (graph_of m) \<and> (\<nexists>f. satisfies (restricted m (snd grp)) f)"
      if "k \<in> fst ` set (cp_blocked cp')" for k using that f s(5) by (auto split: if_splits)
  qed
qed

text \<open>The whole loop: \<open>obs\<close> are the obligations of the groups in their order.\<close>

definition group_compiled :: "task \<Rightarrow> groups \<Rightarrow> string \<Rightarrow> string \<times> string list \<Rightarrow> obligation \<Rightarrow> bool" where
  "group_compiled t gs sha grp ob =
     (\<exists>ordered. member_order (snd grp) [] (filter (\<lambda>ob. ob_id ob \<in> set (snd grp)) (obligations t)) = Some ordered
        \<and> group_obligation (fst grp) ordered (group_owner gs) sha = Inr ob)"

definition loop_post ::
  "(string \<Rightarrow> json) \<Rightarrow> task \<Rightarrow> registry \<Rightarrow> groups \<Rightarrow> cic_model \<Rightarrow> string \<Rightarrow> int \<Rightarrow> compiled \<Rightarrow> groups \<Rightarrow> compiled \<Rightarrow> bool" where
  "loop_post fl t reg gs m sha mx cp grps cp' =
     ((\<exists>obs. cp_obligations cp' = cp_obligations cp @ obs \<and> list_all2 (group_compiled t gs sha) grps obs)
      \<and> (cp_nodes cp \<le> mx \<longrightarrow> cp_nodes cp' \<le> mx)
      \<and> (\<forall>k \<in> fst ` set (reg_checks (cp_registry cp)). map_of (reg_checks (cp_registry cp')) k = map_of (reg_checks (cp_registry cp)) k)
      \<and> (\<forall>grp \<in> set grps. installed fl t reg gs m (cp_registry cp') grp)
      \<and> (\<forall>k \<in> fst ` set (cp_blocked cp'). k \<in> fst ` set (cp_blocked cp)
           \<or> (\<exists>grp \<in> set grps. k = fst grp \<and> hd (snd grp) \<in> fst ` set (graph_of m) \<and> (\<nexists>f. satisfies (restricted m (snd grp)) f))))"

lemma compile_groups:
  assumes "fold_r (compile_group H fl compiler t reg (group_owner gs) m (graph_of m) sha cert mx) cp grps = Inr cp'"
    and "\<And>grp. grp \<in> set grps \<Longrightarrow> hd (snd grp) \<in> fst ` set (graph_of m) \<Longrightarrow> model_ok (restricted m (snd grp))"
  shows "loop_post fl t reg gs m sha mx cp grps cp'"
  using assms
proof (induction grps arbitrary: cp)
  case (Cons grp grps)
  obtain cp1 where c: "compile_group H fl compiler t reg (group_owner gs) m (graph_of m) sha cert mx cp grp = Inr cp1"
    and rest: "fold_r (compile_group H fl compiler t reg (group_owner gs) m (graph_of m) sha cert mx) cp1 grps = Inr cp'"
    using Cons.prems(1) by (auto simp: result_simps)
  obtain ob ordered where s: "member_order (snd grp) [] (filter (\<lambda>ob. ob_id ob \<in> set (snd grp)) (obligations t)) = Some ordered"
    "group_obligation (fst grp) ordered (group_owner gs) sha = Inr ob" "cp_obligations cp1 = cp_obligations cp @ [ob]"
    "installed fl t reg gs m (cp_registry cp1) grp" "cp_nodes cp \<le> mx \<longrightarrow> cp_nodes cp1 \<le> mx"
    "\<And>k. k \<in> fst ` set (reg_checks (cp_registry cp)) \<Longrightarrow> map_of (reg_checks (cp_registry cp1)) k = map_of (reg_checks (cp_registry cp)) k"
    "fst ` set (reg_checks (cp_registry cp1)) = insert (fst grp) (fst ` set (reg_checks (cp_registry cp)))"
    "\<And>k. k \<in> fst ` set (cp_blocked cp1) \<Longrightarrow> k \<in> fst ` set (cp_blocked cp) \<or> k = fst grp \<and> hd (snd grp) \<in> fst ` set (graph_of m) \<and> (\<nexists>f. satisfies (restricted m (snd grp)) f)"
    by (rule compile_group_step [OF c]) (use Cons.prems(2) [of grp] in simp_all)
  have "loop_post fl t reg gs m sha mx cp1 grps cp'" using Cons.IH [OF rest] Cons.prems(2) by simp
  then obtain obs where obs: "cp_obligations cp' = cp_obligations cp1 @ obs" "list_all2 (group_compiled t gs sha) grps obs" and nodes: "cp_nodes cp1 \<le> mx \<longrightarrow> cp_nodes cp' \<le> mx"
    and keep: "\<And>k. k \<in> fst ` set (reg_checks (cp_registry cp1)) \<Longrightarrow> map_of (reg_checks (cp_registry cp')) k = map_of (reg_checks (cp_registry cp1)) k"
    and inst: "\<forall>grp \<in> set grps. installed fl t reg gs m (cp_registry cp') grp"
    and blocked: "\<And>k. k \<in> fst ` set (cp_blocked cp') \<Longrightarrow> k \<in> fst ` set (cp_blocked cp1)
           \<or> (\<exists>grp \<in> set grps. k = fst grp \<and> hd (snd grp) \<in> fst ` set (graph_of m) \<and> (\<nexists>f. satisfies (restricted m (snd grp)) f))"
    unfolding loop_post_def by metis
  show ?case unfolding loop_post_def
  proof (intro conjI ballI)
    show "\<exists>obs. cp_obligations cp' = cp_obligations cp @ obs \<and> list_all2 (group_compiled t gs sha) (grp # grps) obs"
      using obs s(1-3) by (intro exI [of _ "ob # obs"]) (simp add: group_compiled_def)
    show "cp_nodes cp \<le> mx \<longrightarrow> cp_nodes cp' \<le> mx" using nodes s(5) by blast
    show "map_of (reg_checks (cp_registry cp')) k = map_of (reg_checks (cp_registry cp)) k" if "k \<in> fst ` set (reg_checks (cp_registry cp))" for k
      using keep [of k] s(6) [OF that] s(7) that by simp
    have "installed fl t reg gs m (cp_registry cp') grp" using s(4) keep [of "fst grp"] s(7) by (simp add: installed_def)
    then show "installed fl t reg gs m (cp_registry cp') g" if "g \<in> set (grp # grps)" for g using inst that by auto
    show "k \<in> fst ` set (cp_blocked cp)
           \<or> (\<exists>grp \<in> set (grp # grps). k = fst grp \<and> hd (snd grp) \<in> fst ` set (graph_of m) \<and> (\<nexists>f. satisfies (restricted m (snd grp)) f))"
      if "k \<in> fst ` set (cp_blocked cp')" for k using blocked [OF that] s(8) [of k] by auto
  qed
qed (simp add: loop_post_def)

section \<open>The compiled graph\<close>

lemma list_all2_member: "list_all2 P xs ys \<Longrightarrow> x \<in> set xs \<Longrightarrow> \<exists>y \<in> set ys. P x y"
  by (induction rule: list_all2_induct) auto

lemma group_obligation_fields:
  assumes "group_obligation g ordered owner sha = Inr ob"
  shows "ob_id ob = g" "set (ob_evidence ob) = (\<Union>o' \<in> set ordered. set (ob_evidence o'))" "ob_cloud ob = list_all ob_cloud ordered"
    "o' \<in> set ordered \<Longrightarrow> d \<in> set (depends_on o') \<Longrightarrow> \<exists>g'. map_of owner d = Some g' \<and> (g' = g \<or> g' \<in> set (depends_on ob))"
proof -
  obtain gs where gs: "map_r (dict_get owner) (concat (map depends_on ordered)) = Inr gs" and ob: "ob_id ob = g" "ob_evidence ob = sort (remdups (concat (map ob_evidence ordered)))"
    "ob_cloud ob = list_all ob_cloud ordered" "depends_on ob = sort (remdups (filter (\<lambda>g'. g' \<noteq> g) gs))"
    using assms by (auto simp: group_obligation_def mk_obligation_def result_simps)
  show "ob_id ob = g" "set (ob_evidence ob) = (\<Union>o' \<in> set ordered. set (ob_evidence o'))" "ob_cloud ob = list_all ob_cloud ordered" using ob by simp_all
  assume "o' \<in> set ordered" "d \<in> set (depends_on o')"
  then have d: "d \<in> set (concat (map depends_on ordered))" by auto
  have "list_all2 (\<lambda>x y. dict_get owner x = Inr y) (concat (map depends_on ordered)) gs" using gs by (simp only: map_r_Inr_iff)
  from list_all2_member [OF this d] obtain g' where "g' \<in> set gs" "dict_get owner d = Inr g'" by blast
  then show "\<exists>g'. map_of owner d = Some g' \<and> (g' = g \<or> g' \<in> set (depends_on ob))" using ob(4) by (auto simp: result_simps)
qed

text \<open>The facts about a compilation that the loop and the partition into groups give.\<close>

definition compilation :: "task \<Rightarrow> groups \<Rightarrow> string \<Rightarrow> task \<Rightarrow> bool" where
  "compilation t gs sha ct =
     (valid_task t \<and> valid_task ct \<and> artifacts ct = artifacts t \<and> list_all2 (group_compiled t gs sha) gs (obligations ct)
      \<and> distinct (concat (map snd gs)) \<and> set (concat (map snd gs)) = ob_id ` set (obligations t))"

lemma compiled_member:
  assumes c: "compilation t gs sha ct" and g: "(g, nodes) \<in> set gs"
  obtains ob ordered where "map_of (by_id ct) g = Some ob" "set ordered = {ob \<in> set (obligations t). ob_id ob \<in> set nodes}" "group_obligation g ordered (group_owner gs) sha = Inr ob"
proof -
  have a: "list_all2 (group_compiled t gs sha) gs (obligations ct)" and v: "valid_task t" "valid_task ct" using c by (auto simp: compilation_def)
  from g obtain i where i: "i < length gs" "gs ! i = (g, nodes)" by (metis in_set_conv_nth)
  then have "group_compiled t gs sha (g, nodes) (obligations ct ! i)" "obligations ct ! i \<in> set (obligations ct)"
    using a by (metis list_all2_nthD, metis list_all2_lengthD nth_mem)
  then obtain ordered where o: "member_order nodes [] (filter (\<lambda>ob. ob_id ob \<in> set nodes) (obligations t)) = Some ordered" "group_obligation g ordered (group_owner gs) sha = Inr (obligations ct ! i)"
    by (auto simp: group_compiled_def)
  have "distinct (obligations t)" using valid_taskD(1) [OF v(1)] by (simp add: distinct_map)
  then have "set ordered = {ob \<in> set (obligations t). ob_id ob \<in> set nodes}" using member_order_sound [OF o(1)] by auto
  moreover have "map_of (by_id ct) g = Some (obligations ct ! i)"
    using map_of_by_id [OF valid_taskD(1) [OF v(2)]] group_obligation_fields(1) [OF o(2)] \<open>obligations ct ! i \<in> set (obligations ct)\<close> by simp
  ultimately show thesis using that o(2) by blast
qed

lemma compiled_node: "compilation t gs sha ct \<Longrightarrow> (g, nodes) \<in> set gs \<Longrightarrow> n \<in> set nodes \<Longrightarrow> n \<in> ob_id ` set (obligations t)"
proof -
  assume a: "compilation t gs sha ct" "(g, nodes) \<in> set gs" "n \<in> set nodes"
  then have "n \<in> set (concat (map snd gs))" by (auto intro!: bexI [of _ "(g, nodes)"])
  then show ?thesis using a(1) unfolding compilation_def by blast
qed

lemma compiled_owner:
  assumes c: "compilation t gs sha ct" and n: "n \<in> ob_id ` set (obligations t)"
  shows "\<exists>g nodes. map_of (group_owner gs) n = Some g \<and> (g, nodes) \<in> set gs \<and> n \<in> set nodes"
proof -
  have d: "distinct (concat (map snd gs))" using c by (simp add: compilation_def)
  have "n \<in> set (concat (map snd gs))" using c n by (simp add: compilation_def)
  then obtain g nodes where "(g, nodes) \<in> set gs" "n \<in> set nodes" by auto
  then show ?thesis using group_owner_iff [OF d] by blast
qed

lemma compiled_dep:
  assumes c: "compilation t gs sha ct" and e: "(d, n) \<in> dep_rel (ob_deps (obligations t))"
    and g: "map_of (group_owner gs) d = Some gd" "map_of (group_owner gs) n = Some gn"
  shows "gd = gn \<or> (gd, gn) \<in> dep_rel (ob_deps (obligations ct))"
proof -
  have v: "valid_task t" "valid_task ct" and dd: "distinct (concat (map snd gs))" using c by (auto simp: compilation_def)
  obtain nodes where nodes: "(gn, nodes) \<in> set gs" "n \<in> set nodes" using group_owner_iff [OF dd] g(2) by blast
  obtain ob ordered where ob: "map_of (by_id ct) gn = Some ob" "set ordered = {ob \<in> set (obligations t). ob_id ob \<in> set nodes}" "group_obligation gn ordered (group_owner gs) sha = Inr ob"
    by (rule compiled_member [OF c nodes(1)])
  obtain o' where o': "map_of (by_id t) n = Some o'" "d \<in> set (depends_on o')" using dep_rel_by_id [OF v(1)] e by blast
  then have "o' \<in> set ordered" using map_of_by_id [OF valid_taskD(1) [OF v(1)]] ob(2) nodes(2) by auto
  then have "gd = gn \<or> gd \<in> set (depends_on ob)" using group_obligation_fields(4) [OF ob(3) _ o'(2)] g(1) by auto
  then show ?thesis using dep_rel_by_id [OF v(2)] ob(1) by blast
qed

lemma compiled_public:
  assumes c: "compilation t gs sha ct" and g: "(g, nodes) \<in> set gs" "n \<in> set nodes" and p: "public_node ct g"
  shows "public_node t n"
proof -
  have v: "valid_task t" using c by (simp add: compilation_def)
  obtain ob ordered where ob: "map_of (by_id ct) g = Some ob" "set ordered = {ob \<in> set (obligations t). ob_id ob \<in> set nodes}" "group_obligation g ordered (group_owner gs) sha = Inr ob"
    by (rule compiled_member [OF c g(1)])
  have "n \<in> ob_id ` set (obligations t)" using compiled_node [OF c g] .
  then obtain o' where o': "map_of (by_id t) n = Some o'" using by_id_ex [OF v] by blast
  then have mem: "o' \<in> set ordered" using map_of_by_id [OF valid_taskD(1) [OF v]] ob(2) g(2) by auto
  note f = group_obligation_fields [OF ob(3)]
  have "ob_cloud o'" "set (ob_evidence o') \<subseteq> set (ob_evidence ob)" using p ob(1) f(2,3) mem by (auto simp: public_node_def list_all_iff)
  moreover have "evidence_public ct ob" "artifacts ct = artifacts t" using p ob(1) c by (auto simp: public_node_def compilation_def)
  ultimately show ?thesis using o' by (auto simp: public_node_def evidence_public_def list_all_iff)
qed

lemma compiled_cloud:
  assumes c: "compilation t gs sha ct" and g: "(g, nodes) \<in> set gs" "n \<in> set nodes" and a: "cloud_allowed ct g"
  shows "cloud_allowed t n"
proof -
  have v: "valid_task t" "valid_task ct" and dd: "distinct (concat (map snd gs))" using c by (auto simp: compilation_def)
  note n = compiled_node [OF c g]
  obtain ob where "map_of (by_id ct) g = Some ob" using compiled_member [OF c g(1)] by blast
  then have gm: "g \<in> ob_id ` set (obligations ct)" using map_of_by_id [OF valid_taskD(1) [OF v(2)]] by force
  have pub: "\<And>g'. (g', g) \<in> (dep_rel (ob_deps (obligations ct)))\<^sup>* \<Longrightarrow> public_node ct g'" using a cloud_allowed_meaning [OF v(2) gm] by blast
  have own: "map_of (group_owner gs) n = Some g" using group_owner_iff [OF dd] g by blast
  have "\<exists>g'. map_of (group_owner gs) m = Some g' \<and> (g', g) \<in> (dep_rel (ob_deps (obligations ct)))\<^sup>*" if "(m, n) \<in> (dep_rel (ob_deps (obligations t)))\<^sup>*" for m
    using that
  proof (induction rule: converse_rtrancl_induct)
    case (step y z)
    then obtain gz where gz: "map_of (group_owner gs) z = Some gz" "(gz, g) \<in> (dep_rel (ob_deps (obligations ct)))\<^sup>*" by blast
    have "y \<in> ob_id ` set (obligations t)" using step(1) dep_rel_by_id [OF v(1)] depends_on_known [OF v(1)] by blast
    then obtain gy where gy: "map_of (group_owner gs) y = Some gy" using compiled_owner [OF c] by blast
    then show ?case using compiled_dep [OF c step(1) gy gz(1)] gz(2) by (metis converse_rtrancl_into_rtrancl)
  qed (use own in blast)
  then have "public_node t m" if "(m, n) \<in> (dep_rel (ob_deps (obligations t)))\<^sup>*" for m
    using that pub compiled_public [OF c] group_owner_iff [OF dd] by metis
  then show ?thesis using cloud_allowed_meaning [OF v(1) n] by blast
qed

lemma distinct_concat_nonempty: "distinct (concat cs) \<Longrightarrow> [] \<notin> set cs \<Longrightarrow> distinct cs"
proof (induction cs)
  case (Cons c cs)
  then have "c \<notin> set cs" by (auto dest!: split_list)
  then show ?case using Cons by simp
qed simp

lemma image_disjoint: "S \<inter> f ` {x \<in> A. f x \<notin> S} = {}"
  by auto

lemma cic_members_partition:
  assumes m: "model_ok m" and t: "valid_task t" and d: "fst ` set (ci_domains m) \<subseteq> fst ` set (by_id t)"
  shows "distinct (concat (cic_members (graph_of m) t))" "set (concat (cic_members (graph_of m) t)) = ob_id ` set (obligations t)"
    "distinct (cic_members (graph_of m) t)"
    "c \<in> set (cic_members (graph_of m) t) \<Longrightarrow> hd c \<in> fst ` set (graph_of m) \<Longrightarrow> c \<in> set (components (graph_of m))"
proof -
  let ?g = "graph_of m" and ?rest = "filter (\<lambda>ob. ob_id ob \<notin> fst ` set (graph_of m)) (obligations t)"
  note ex = components_exact [OF graph_of_ok [OF m]]
  have rest: "concat (map (\<lambda>ob. [ob_id ob]) obs) = map ob_id obs" for obs by (induction obs) simp_all
  have keys: "fst ` set ?g = fst ` set (ci_domains m)" using graph_keys [OF m] by (metis list.set_map)
  have ids: "fst ` set (by_id t) = ob_id ` set (obligations t)" by (force simp: by_id_def)
  have cc: "concat (cic_members ?g t) = concat (components ?g) @ map ob_id ?rest" by (simp add: cic_members_def rest)
  show dc: "distinct (concat (cic_members ?g t))" unfolding cc distinct_append
  proof (intro conjI)
    show "distinct (map ob_id ?rest)" using valid_taskD(1) [OF t] by (rule distinct_map_filter)
    show "set (concat (components ?g)) \<inter> set (map ob_id ?rest) = {}" unfolding ex(2) set_map set_filter by (rule image_disjoint)
  qed (rule ex(1))
  show "set (concat (cic_members ?g t)) = ob_id ` set (obligations t)" unfolding cc set_append ex(2) using d keys ids by auto
  have "[] \<notin> set (cic_members ?g t)" using ex(3) by (auto simp: cic_members_def connected_group_def)
  then show "distinct (cic_members ?g t)" using distinct_concat_nonempty [OF dc] by blast
  assume "c \<in> set (cic_members ?g t)" "hd c \<in> fst ` set ?g"
  then show "c \<in> set (components ?g)" by (force simp: cic_members_def)
qed

lemma structural_model_ok:
  assumes "float_reader fl" and "structural_model fl t reg s = Inr (art, m)"
  shows "model_ok m" and "fst ` set (ci_domains m) \<subseteq> fst ` set (by_id t)"
proof -
  have "\<exists>v. strict_json fl (art_text art) = Inr v \<and> validate_model v = Inr m"
    using assms(2) unfolding structural_model_def bind_r_Inr_iff ensure_Inr_iff by (elim exE conjE) simp
  then obtain v where v: "strict_json fl (art_text art) = Inr v" "validate_model v = Inr m" by (elim exE conjE)
  show "model_ok m" by (rule validate_model_sound [OF v(2) strict_json_distinct [OF float_reader_cases [OF assms(1)] v(1)]])
  show "fst ` set (ci_domains m) \<subseteq> fst ` set (by_id t)"
    using assms(2) unfolding structural_model_def bind_r_Inr_iff ensure_Inr_iff by (elim exE conjE) simp
qed

lemma prepare_steps:
  assumes "prepare H fl compiler t reg mode mx = Inr (ct, creg, an)" and "task_structure t = Some s" and "structural_model fl t reg s = Inr (art, m)"
  obtains cert cp where "cic_groups H (cic_members (graph_of m) t) = Inr (an_groups an)"
    "fold_r (compile_group H fl compiler t reg (group_owner (an_groups an)) m (graph_of m) (art_sha256 H art) cert mx)
       \<lparr>cp_registry = reg, cp_obligations = [], cp_blocked = [], cp_feasibility = [], cp_nodes = 0\<rparr> (an_groups an) = Inr cp"
    "mk_task \<lparr>task_id = task_id t, task_goal = task_goal t, artifacts = artifacts t, obligations = cp_obligations cp, task_structure = None\<rparr> = Inr ct"
    "creg = cp_registry cp" "an_blocked an = cp_blocked cp" "an_search_nodes an = cp_nodes cp"
  using assms by (auto simp: prepare_def result_simps interaction_graph_def)

text \<open>A successful compilation, seen from its result.\<close>

lemma prepare_compiles:
  assumes t: "valid_task t" and s: "task_structure t = Some s" and fl: "float_reader fl" and sm: "structural_model fl t reg s = Inr (art, m)"
    and p: "prepare H fl compiler t reg mode mx = Inr (ct, creg, an)" and d: "distinct (map (group_id H) (cic_members (graph_of m) t))"
  obtains cp where "compilation t (an_groups an) (art_sha256 H art) ct" "an_groups an = map (\<lambda>c. (gid H c, c)) (cic_members (graph_of m) t)"
    "loop_post fl t reg (an_groups an) m (art_sha256 H art) mx \<lparr>cp_registry = reg, cp_obligations = [], cp_blocked = [], cp_feasibility = [], cp_nodes = 0\<rparr> (an_groups an) cp"
    "creg = cp_registry cp" "an_blocked an = cp_blocked cp" "an_search_nodes an = cp_nodes cp"
proof -
  note m = structural_model_ok [OF fl sm]
  note part = cic_members_partition [OF m(1) t m(2)]
  obtain cert cp where g: "cic_groups H (cic_members (graph_of m) t) = Inr (an_groups an)"
    and f: "fold_r (compile_group H fl compiler t reg (group_owner (an_groups an)) m (graph_of m) (art_sha256 H art) cert mx)
       \<lparr>cp_registry = reg, cp_obligations = [], cp_blocked = [], cp_feasibility = [], cp_nodes = 0\<rparr> (an_groups an) = Inr cp"
    and ct: "mk_task \<lparr>task_id = task_id t, task_goal = task_goal t, artifacts = artifacts t, obligations = cp_obligations cp, task_structure = None\<rparr> = Inr ct"
    and cp: "creg = cp_registry cp" "an_blocked an = cp_blocked cp" "an_search_nodes an = cp_nodes cp"
    by (rule prepare_steps [OF p s sm])
  have "inj_on (gid H) (set (cic_members (graph_of m) t))" using d by (auto simp: group_id_eq distinct_map inj_on_def)
  then have gs: "an_groups an = map (\<lambda>c. (gid H c, c)) (cic_members (graph_of m) t)" using g cic_groups_eq [OF part(3)] by simp
  then have snds: "map snd (an_groups an) = cic_members (graph_of m) t" by (simp add: comp_def)
  have lp: "loop_post fl t reg (an_groups an) m (art_sha256 H art) mx \<lparr>cp_registry = reg, cp_obligations = [], cp_blocked = [], cp_feasibility = [], cp_nodes = 0\<rparr> (an_groups an) cp"
  proof (rule compile_groups [OF f])
    fix grp assume a: "grp \<in> set (an_groups an)" "hd (snd grp) \<in> fst ` set (graph_of m)"
    then have "snd grp \<in> set (cic_members (graph_of m) t)" using gs by auto
    from part(4) [OF this a(2)] show "model_ok (restricted m (snd grp))" by (rule group_restricted_ok(3) [OF m(1)])
  qed
  have "valid_task ct" "artifacts ct = artifacts t" "obligations ct = cp_obligations cp" using ct by (auto simp: mk_task_ok)
  then have "compilation t (an_groups an) (art_sha256 H art) ct" using lp t part(1,2) unfolding compilation_def snds by (auto simp: loop_post_def)
  then show thesis using that gs lp cp by blast
qed

lemma installed_group:
  assumes t: "valid_task t" and i: "installed fl t reg gs m creg (g, nodes)"
  shows "\<exists>ordered revision. set ordered = {ob \<in> set (obligations t). ob_id ob \<in> set nodes} \<and> distinct ordered
    \<and> (\<forall>i < length ordered. set (depends_on (ordered ! i)) \<inter> set nodes \<subseteq> ob_id ` set (take i ordered))
    \<and> map_of (reg_checks creg) g = Some (revision, group_check fl t reg (group_owner gs) ordered (if hd nodes \<in> fst ` set (graph_of m) then Some (restricted m nodes) else None) nodes)"
proof -
  obtain ordered revision where o: "member_order nodes [] (filter (\<lambda>ob. ob_id ob \<in> set nodes) (obligations t)) = Some ordered"
    and c: "map_of (reg_checks creg) g = Some (revision, group_check fl t reg (group_owner gs) ordered (if hd nodes \<in> fst ` set (graph_of m) then Some (restricted m nodes) else None) nodes)"
    using i unfolding installed_def fst_conv snd_conv by blast
  have "distinct (obligations t)" using valid_taskD(1) [OF t] by (simp add: distinct_map)
  then have "set ordered = {ob \<in> set (obligations t). ob_id ob \<in> set nodes}" "distinct ordered"
    "\<forall>i < length ordered. set (depends_on (ordered ! i)) \<inter> set nodes \<subseteq> ob_id ` set (take i ordered)"
    using member_order_sound [OF o] by auto
  then show ?thesis using c by blast
qed

section \<open>Properties\<close>

text \<open>C12. The check of a group accepts exactly what the original task accepts: it returns a passing verdict if and only if the candidate is an
  object with exactly the members of the group, its values are an assignment of the group's part of the structural model, and every member's own
  check passes on its value, in its own context with the values of the members before it.\<close>

theorem group_check_exact:
  assumes "distinct (map ob_id ordered)" and "distinct_keys v" and "case submodel of None \<Rightarrow> True | Some m \<Rightarrow> model_ok m"
  shows "(\<exists>vd. group_check fl t reg owner ordered submodel nodes v ctx = Inr (Some vd) \<and> v_status vd = Pass) \<longleftrightarrow>
     (\<exists>kvs. v = JObj kvs \<and> fst ` set kvs = set nodes
        \<and> (\<forall>m. submodel = Some m \<longrightarrow> fst ` set kvs = fst ` set (ci_domains m)
             \<and> (\<exists>f. satisfies m f \<and> (\<forall>k \<in> fst ` set (ci_domains m). map_of kvs k = Some (JInt (f k)))))
        \<and> (\<forall>i < length ordered. member_passes fl t reg owner kvs ctx (staged_values kvs (take i ordered)) (ordered ! i)))"
proof (cases v)
  case (JObj kvs)
  have d: "distinct (map fst kvs)" using assms(2) JObj by simp
  have members: "(\<exists>vd. check_members fl t reg owner kvs ctx [] ordered = Inr (Some vd) \<and> v_status vd = Pass) \<longleftrightarrow>
      (\<forall>i < length ordered. member_passes fl t reg owner kvs ctx (staged_values kvs (take i ordered)) (ordered ! i))"
    using check_members_passes [of "[]" ordered fl t reg owner kvs ctx] assms(1) by (simp add: staged_values_def)
  have joint: "consistent_value m v True \<longleftrightarrow> fst ` set kvs = fst ` set (ci_domains m) \<and> (\<exists>f. satisfies m f \<and> (\<forall>k \<in> fst ` set (ci_domains m). map_of kvs k = Some (JInt (f k))))"
    if "submodel = Some m" for m unfolding JObj using consistent_value_exact [OF _ d, of m] assms(3) that by simp
  have "(\<exists>vd. group_check fl t reg owner ordered submodel nodes v ctx = Inr (Some vd) \<and> v_status vd = Pass) \<longleftrightarrow>
      fst ` set kvs = set nodes \<and> (\<forall>m. submodel = Some m \<longrightarrow> consistent_value m v True) \<and> (\<exists>vd. check_members fl t reg owner kvs ctx [] ordered = Inr (Some vd) \<and> v_status vd = Pass)"
    using JObj by (cases submodel) (auto simp: group_check_def fail_def)
  also have "\<dots> \<longleftrightarrow> fst ` set kvs = set nodes \<and> (\<forall>m. submodel = Some m \<longrightarrow> fst ` set kvs = fst ` set (ci_domains m)
             \<and> (\<exists>f. satisfies m f \<and> (\<forall>k \<in> fst ` set (ci_domains m). map_of kvs k = Some (JInt (f k)))))
      \<and> (\<forall>i < length ordered. member_passes fl t reg owner kvs ctx (staged_values kvs (take i ordered)) (ordered ! i))"
    unfolding members using joint by (cases submodel) simp_all
  finally show ?thesis using JObj by simp
qed (simp_all add: group_check_def fail_def)

text \<open>C11. A compiled task stands for the original one. If the generated identifiers do not collide, then the groups partition the obligations;
  the compiled task is well formed and has one obligation for each group; the check registered for a group is the group check over its
  members, dependencies first; a group may leave the host only if every one of its members may; no original check is replaced; the searches stay
  within their budget; and if any group is blocked, the structural model has no assignment.\<close>

theorem prepare_sound:
  assumes "mk_task t = Inr t" and "task_structure t = Some s" and "float_reader fl" and "structural_model fl t reg s = Inr (art, m)"
    and "prepare H fl compiler t reg mode mx = Inr (ct, creg, an)" and "0 \<le> mx" and "distinct (map (group_id H) (cic_members (graph_of m) t))"
  shows "mk_task ct = Inr ct \<and> map ob_id (obligations ct) = map fst (an_groups an)
    \<and> distinct (concat (map snd (an_groups an))) \<and> set (concat (map snd (an_groups an))) = ob_id ` set (obligations t)
    \<and> (\<forall>(g, nodes) \<in> set (an_groups an).
         (\<exists>ordered revision. set ordered = {ob \<in> set (obligations t). ob_id ob \<in> set nodes} \<and> distinct ordered
            \<and> (\<forall>i < length ordered. set (depends_on (ordered ! i)) \<inter> set nodes \<subseteq> ob_id ` set (take i ordered))
            \<and> map_of (reg_checks creg) g = Some (revision, group_check fl t reg (group_owner (an_groups an)) ordered
                (if hd nodes \<in> fst ` set (graph_of m) then Some (restricted m nodes) else None) nodes))
         \<and> (cloud_allowed ct g \<longrightarrow> (\<forall>n \<in> set nodes. cloud_allowed t n)))
    \<and> (\<forall>k \<in> fst ` set (reg_checks reg). map_of (reg_checks creg) k = map_of (reg_checks reg) k)
    \<and> an_search_nodes an \<le> mx \<and> (an_blocked an \<noteq> [] \<longrightarrow> (\<nexists>f. satisfies m f))"
proof -
  have t: "valid_task t" using assms(1) by (simp add: mk_task_ok)
  note m = structural_model_ok [OF assms(3,4)]
  obtain cp where c: "compilation t (an_groups an) (art_sha256 H art) ct" "an_groups an = map (\<lambda>c. (gid H c, c)) (cic_members (graph_of m) t)"
    and lp: "loop_post fl t reg (an_groups an) m (art_sha256 H art) mx \<lparr>cp_registry = reg, cp_obligations = [], cp_blocked = [], cp_feasibility = [], cp_nodes = 0\<rparr> (an_groups an) cp"
    and cp: "creg = cp_registry cp" "an_blocked an = cp_blocked cp" "an_search_nodes an = cp_nodes cp"
    by (rule prepare_compiles [OF t assms(2-5,7)])
  have "list_all2 (group_compiled t (an_groups an) (art_sha256 H art)) (an_groups an) (obligations ct)" using c(1) by (simp add: compilation_def)
  then have "list_all2 (\<lambda>grp ob. ob_id ob = fst grp) (an_groups an) (obligations ct)"
    by (rule list_all2_mono) (auto simp: group_compiled_def dest: group_obligation_fields(1))
  then have ids: "map ob_id (obligations ct) = map fst (an_groups an)" by (induction rule: list_all2_induct) simp_all
  have groups: "(\<exists>ordered revision. set ordered = {ob \<in> set (obligations t). ob_id ob \<in> set nodes} \<and> distinct ordered
            \<and> (\<forall>i < length ordered. set (depends_on (ordered ! i)) \<inter> set nodes \<subseteq> ob_id ` set (take i ordered))
            \<and> map_of (reg_checks creg) g = Some (revision, group_check fl t reg (group_owner (an_groups an)) ordered
                (if hd nodes \<in> fst ` set (graph_of m) then Some (restricted m nodes) else None) nodes))
         \<and> (cloud_allowed ct g \<longrightarrow> (\<forall>n \<in> set nodes. cloud_allowed t n))" if g: "(g, nodes) \<in> set (an_groups an)" for g nodes
  proof
    have "installed fl t reg (an_groups an) m creg (g, nodes)" using lp g cp(1) by (simp add: loop_post_def)
    then show "\<exists>ordered revision. set ordered = {ob \<in> set (obligations t). ob_id ob \<in> set nodes} \<and> distinct ordered
            \<and> (\<forall>i < length ordered. set (depends_on (ordered ! i)) \<inter> set nodes \<subseteq> ob_id ` set (take i ordered))
            \<and> map_of (reg_checks creg) g = Some (revision, group_check fl t reg (group_owner (an_groups an)) ordered
                (if hd nodes \<in> fst ` set (graph_of m) then Some (restricted m nodes) else None) nodes)" by (rule installed_group [OF t])
    show "cloud_allowed ct g \<longrightarrow> (\<forall>n \<in> set nodes. cloud_allowed t n)" using compiled_cloud [OF c(1) g] by blast
  qed
  have unsat: "\<nexists>f. satisfies m f" if b: "an_blocked an \<noteq> []"
  proof -
    obtain k where "k \<in> fst ` set (cp_blocked cp)" using b cp(2) by (cases "cp_blocked cp") auto
    then obtain grp where "\<nexists>f. satisfies (restricted m (snd grp)) f" using lp unfolding loop_post_def by fastforce
    then show ?thesis using satisfies_restricted by blast
  qed
  have "an_search_nodes an \<le> mx" "\<forall>k \<in> fst ` set (reg_checks reg). map_of (reg_checks creg) k = map_of (reg_checks reg) k"
    using lp cp assms(6) by (simp_all add: loop_post_def)
  moreover have "mk_task ct = Inr ct" "distinct (concat (map snd (an_groups an)))" "set (concat (map snd (an_groups an))) = ob_id ` set (obligations t)"
    using c(1) by (simp_all only: compilation_def mk_task_ok simp_thms)
  ultimately show ?thesis using ids groups unsat by (intro conjI) (simp_all only:, blast+)
qed

section \<open>Instances\<close>

text \<open>Three obligations, two of them joined by a constraint; the third depends on the first. The checks accept every value, and the hash
  function of the example replaces what an identifier cannot hold.\<close>

definition structured_hash :: "string \<Rightarrow> string" where
  "structured_hash s = map (\<lambda>c. if ident_char c then c else CHR ''x'') s"

definition sample_text :: string where
  "sample_text = dumps (JObj [(''different'', JArr [JArr [JStr ''a'', JStr ''b'']]), (''domains'', JObj [(''a'', JArr [JInt 1]), (''b'', JArr [JInt 1, JInt 2])])])"

definition sample_ob :: "string \<Rightarrow> string list \<Rightarrow> obligation" where
  "sample_ob i ds = \<lparr>ob_id = i, instruction = ''do'', ob_check = ''any'', ob_evidence = [''m''], depends_on = ds, parameters = JObj [], ob_solver = None, ob_cloud = i \<noteq> ''b''\<rparr>"

definition structured_task :: task where
  "structured_task = \<lparr>task_id = ''t'', task_goal = ''g'', artifacts = [(''m'', \<lparr>art_id = ''m'', art_text = sample_text, art_cloud = True\<rparr>)],
     obligations = [sample_ob ''a'' [], sample_ob ''b'' [''a''], sample_ob ''c'' [''a'']], task_structure = Some ''m''\<rparr>"

definition any_check :: check where
  "any_check v ctx = Inr (Some passed)"

definition sample_registry :: registry where
  "sample_registry = \<lparr>reg_checks = [(''any'', (''1'', any_check))], reg_identities = [], reg_solvers = []\<rparr>"

definition sample_joint :: cic_model where
  "sample_joint = \<lparr>ci_domains = [(''a'', [1]), (''b'', [1, 2])], ci_different = [(''a'', ''b'')], ci_less = [], ci_sums = []\<rparr>"

definition sample_prepared :: "(task \<times> registry \<times> analysis) result" where
  "sample_prepared = prepare structured_hash exact_float ''h'' structured_task sample_registry ''cic'' 10"

lemma map_sum_Inr: "map_sum f g r = Inr y \<Longrightarrow> \<exists>x. r = Inr x \<and> g x = y"
  by (cases r) auto

lemma sample_prepare:
  "map_sum id (\<lambda>(ct, creg, an). (map (\<lambda>ob. (depends_on ob, ob_cloud ob)) (obligations ct), map snd (an_groups an), an_search_nodes an)) sample_prepared =
     Inr ([([], False), ([gid structured_hash [''a'', ''b'']], True)], [[''a'', ''b''], [''c'']], 4)"
  by code_simp

lemma sample_compiled:
  "mk_task structured_task = Inr structured_task" "task_structure structured_task = Some ''m''"
  "structural_model exact_float structured_task sample_registry ''m'' = Inr (\<lparr>art_id = ''m'', art_text = sample_text, art_cloud = True\<rparr>, sample_joint)"
  "distinct (map (group_id structured_hash) (cic_members (graph_of sample_joint) structured_task))"
  by code_simp+

theorem prepare_sound_witness:
  "\<exists>ct creg an. sample_prepared = Inr (ct, creg, an) \<and> map snd (an_groups an) = [[''a'', ''b''], [''c'']] \<and> mk_task ct = Inr ct \<and> length (obligations ct) = 2
     \<and> an_search_nodes an \<le> 10 \<and> map_of (reg_checks creg) ''any'' = Some (''1'', any_check)"
proof -
  obtain x where x: "sample_prepared = Inr x" "(\<lambda>(ct, creg, an). (map (\<lambda>ob. (depends_on ob, ob_cloud ob)) (obligations ct), map snd (an_groups an), an_search_nodes an)) x =
      ([([], False), ([gid structured_hash [''a'', ''b'']], True)], [[''a'', ''b''], [''c'']], 4)"
    using map_sum_Inr [OF sample_prepare] by blast
  obtain ct creg an where e: "x = (ct, creg, an)" by (rule prod_cases3)
  have p: "sample_prepared = Inr (ct, creg, an)" using x(1) unfolding e .
  have g: "map snd (an_groups an) = [[''a'', ''b''], [''c'']]" using x(2) unfolding e by simp
  then have l: "length (map fst (an_groups an)) = 2" by (metis length_map length_Cons list.size(3) numeral_2_eq_2)
  note s = prepare_sound [OF sample_compiled(1,2) float_reader_exact_float sample_compiled(3) p [unfolded sample_prepared_def] _ sample_compiled(4)]
  have "map ob_id (obligations ct) = map fst (an_groups an)" "mk_task ct = Inr ct" "an_search_nodes an \<le> 10"
    "\<forall>k \<in> fst ` set (reg_checks sample_registry). map_of (reg_checks creg) k = map_of (reg_checks sample_registry) k" using s by simp_all
  then show ?thesis using p g l by (intro exI [of _ ct] exI [of _ creg] exI [of _ an]) (simp add: sample_registry_def, metis length_map)
qed

definition sample_group_context :: check_context where
  "sample_group_context = \<lparr>ctx_obligation = sample_ob ''g'' [], ctx_artifacts = [], ctx_accepted = []\<rparr>"

definition sample_candidate :: json where
  "sample_candidate = JObj [(''a'', JInt 1), (''b'', JInt 2)]"

lemma sample_group_check:
  "map_sum id (map_option v_status) (group_check exact_float structured_task sample_registry [] [sample_ob ''a'' [], sample_ob ''b'' [''a'']] (Some sample_joint) [''a'', ''b'']
     sample_candidate sample_group_context) = Inr (Some Pass)"
  "distinct (map ob_id [sample_ob ''a'' [], sample_ob ''b'' [''a'']])" "distinct_keys sample_candidate" "model_ok sample_joint"
  by code_simp+

theorem group_check_exact_witness: "\<exists>f. satisfies sample_joint f \<and> f ''a'' = 1 \<and> f ''b'' = 2"
proof -
  let ?check = "group_check exact_float structured_task sample_registry [] [sample_ob ''a'' [], sample_ob ''b'' [''a'']] (Some sample_joint) [''a'', ''b''] sample_candidate sample_group_context"
  obtain vd where "?check = Inr (Some vd)" "v_status vd = Pass" using sample_group_check(1) by (cases ?check) auto
  then obtain kvs where k: "sample_candidate = JObj kvs"
    and c: "\<exists>f. satisfies sample_joint f \<and> (\<forall>k \<in> fst ` set (ci_domains sample_joint). map_of kvs k = Some (JInt (f k)))"
    using group_check_exact [of "[sample_ob ''a'' [], sample_ob ''b'' [''a'']]" sample_candidate "Some sample_joint" exact_float structured_task sample_registry "[]" "[''a'', ''b'']" sample_group_context]
      sample_group_check(2-4) by auto
  obtain f where f: "satisfies sample_joint f" "\<forall>k \<in> {''a'', ''b''}. map_of kvs k = Some (JInt (f k))" using c by (auto simp: sample_joint_def)
  have "kvs = [(''a'', JInt 1), (''b'', JInt 2)]" using k by (simp add: sample_candidate_def)
  then have "f ''a'' = 1" "f ''b'' = 2" using f(2) by simp_all
  then show ?thesis using f(1) by blast
qed

text \<open>Two groups with the same identifier are not detected: the later one replaces the earlier, and the compiled task has lost the obligations of the
  first group together with their constraints.\<close>

definition independent_task :: task where
  "independent_task = structured_task\<lparr>obligations := [sample_ob ''a'' [], sample_ob ''b'' [''a''], sample_ob ''c'' []]\<rparr>"

lemma identifier_collision_loses_group:
  "map_sum id (\<lambda>(ct, creg, an). (length (obligations ct), map snd (an_groups an)))
     (prepare (\<lambda>text. ''aa'') exact_float ''h'' independent_task sample_registry ''cic'' 10) = Inr (1, [[''c'']])"
  by code_simp

end
