(* ===== verification/Spec2Isabelle.thy ===== *)
theory Spec2Isabelle
  imports Loop Quarantine Engine_Safety Scheduler Tenancy Iam_Sessions Iam_Jit Iam_Mfa Iam_Accounts
    Hadr_Replication Hadr_Degraded Builtin_Checks Dsm_Delivery
    Side_Effects Hitl Saga Control_Plane Crypto_Provider Key_Ring Compliance_Log Cic_Prepare
begin

text \<open>
  A verification development of RESIDUAL, a harness that delegates obligations of a task to
  local and remote workers and accepts only what a host check has verified
  (sources under \<open>src/residual/\<close>).

  \<^bold>\<open>Parts of the program and how they interact.\<close> A task (\<open>core.py\<close>) consists of artifacts and
  obligations with dependencies. The controller (\<open>engine.py\<close>) walks the obligations in
  dependency order, answers them from the cache (\<open>storage.py\<close>), from deterministic solvers or
  by bounded worker calls, runs the registered host check on every candidate, records each step in a
  hash-linked ledger (\<open>storage.py\<close>) and freezes what passed. The outer loop
  (\<open>loop.py\<close>) repeats passes against a goal specification (\<open>goalspec.py\<close>) with an ordered
  verifier (\<open>verifier.py\<close>), receipts (\<open>receipts.py\<close>) and independent brakes (\<open>brakes.py\<close>);
  side effects are held in a quarantine store (\<open>quarantine.py\<close>) until a policy releases them; the gateway
  (\<open>gateway/\<close>) is its client for mutating intents, \<open>hitl/\<close> escalates to a human, and \<open>control_plane/\<close> governs missions, routing and
  compound transactions.
  Around the core, \<open>tenancy/\<close> isolates and schedules tenants, \<open>iam/\<close> controls access,
  \<open>hadr/\<close> replicates receipts and moves runs between stations, and \<open>dsm/\<close> keeps durable
  distributed state.

  \<^bold>\<open>Theories and sources.\<close>
  \<^item> \<open>Prelude\<close>: exceptions as values (\<open>error\<close>, \<open>result\<close>), dictionaries as association lists, shared lemmas.
  \<^item> \<open>Json\<close>, \<open>Json_Roundtrip\<close>: \<open>canonical\<close>, \<open>strict_json\<close> and \<open>digest\<close> of \<open>core.py\<close>, with the
    parts of Python's \<open>json\<close> they use; \<open>Dag\<close>: layering of an acyclic relation.
  \<^item> \<open>Core\<close>: artifacts, obligations, tasks, verdicts and the registry of \<open>core.py\<close>; \<open>Builtin_Checks\<close>: \<open>json_pointer\<close>
    and \<open>register_builtins\<close> of the same file.
  \<^item> \<open>Hash_Chain\<close>: the contract of a hash-linked log as a locale, interpreted in \<open>Storage\<close> (the run ledger and cache,
    \<open>storage.py\<close>), \<open>Hadr_Chain\<close> (\<open>hadr/chain.py\<close>, \<open>clock.py\<close>, \<open>events.py\<close>) and \<open>Dsm_Journal\<close> (\<open>dsm/journal.py\<close>).
  \<^item> \<open>Goal_Spec\<close>, \<open>Verifier\<close>, \<open>Receipts\<close>, \<open>Brakes\<close>, \<open>Loop\<close>, \<open>Quarantine\<close>: the files of the same names.
  \<^item> \<open>Side_Effects\<close>: \<open>gateway/intents.py\<close>, \<open>gateway/gateway.py\<close>; \<open>Hitl\<close>: \<open>hitl/gateway.py\<close>; \<open>Json_Objects\<close>: fields of objects read back.
  \<^item> \<open>Saga\<close>: \<open>control_plane/transactions.py\<close>; \<open>Control_Plane\<close>: the other files of \<open>control_plane/\<close>.
  \<^item> \<open>Aes\<close>, \<open>Gcm\<close>: \<open>crypto/_aesgcm_fallback.py\<close>; \<open>Crypto_Provider\<close>: \<open>crypto/provider.py\<close>, with the interfaces of an authenticated
    cipher and a key service as locales; \<open>Key_Ring\<close>: \<open>crypto/rotation.py\<close>.
  \<^item> \<open>Compliance_Log\<close>: \<open>log.py\<close>, \<open>legal_hold.py\<close>, \<open>retention.py\<close> and \<open>erasure.py\<close> of \<open>compliance/\<close>.
  \<^item> \<open>Engine\<close>: \<open>engine.py\<close>, from the preparation of a run to its report; \<open>Engine_Safety\<close>: its invariants.
  \<^item> \<open>Cic\<close>: finite constraint models, their graphs and the bounded search of \<open>cic.py\<close>; \<open>Cic_Prepare\<close>: \<open>prepare\<close> of the same file, the
    compilation of a task into groups that precedes the controller in its structural modes.
  \<^item> \<open>Scheduler\<close>: \<open>tenancy/scheduler.py\<close>; \<open>Tenancy\<close>: the other files of \<open>tenancy/\<close>.
  \<^item> \<open>Py_Number\<close>, \<open>Iam_Events\<close>, \<open>Iam_Access\<close> (\<open>rbac.py\<close>, \<open>abac.py\<close>), \<open>Iam_Sessions\<close>, \<open>Iam_Jit\<close>, \<open>Iam_Mfa\<close>,
    \<open>Iam_Accounts\<close> (\<open>service_accounts.py\<close>): \<open>iam/\<close>.
  \<^item> \<open>Simulation\<close>: runs of operations and forward simulation as a locale; \<open>Hadr_Replication\<close> (\<open>replication.py\<close>),
    \<open>Hadr_Cluster\<close> (\<open>cluster.py\<close>, \<open>failover.py\<close>), \<open>Hadr_Degraded\<close> (\<open>degraded.py\<close>): \<open>hadr/\<close>.
  \<^item> \<open>Dsm_Journal\<close> (\<open>ownership.py\<close>, \<open>lease.py\<close>, \<open>journal.py\<close>), \<open>Dsm_Store\<close> (\<open>store.py\<close>), \<open>Dsm_Delivery\<close>
    (\<open>delivery.py\<close>, \<open>faults.py\<close>): \<open>dsm/\<close>.

  A class with state is a \<open>record\<close>; a method is a definition that takes and returns the record; an exception
  is an \<open>Inl\<close>, returned beside the state when the source changes state before it raises. Records and
  definitions keep the names of the source, with a prefix or suffix where two files use the same name.

  \<^bold>\<open>What the lemmas show.\<close>
  \<^item> The controller accepts only verified values after their dependencies, keeps its call and byte
    budgets, sends remote workers only exportable material, and its evidence windows are exact.
  \<^item> Grouping by connected components is exact, the bounded search decides or reports an exhausted budget, min-fill certificates bound the
    treewidth, and a compiled task accepts what the original checks and the joint constraints accept, without widening export.
  \<^item> Canonical JSON reads back; ledgers, receipts and journals read back and bind their contents up to an
    explicit collision of the hash function.
  \<^item> The loop ends within its passes and succeeds only with a verified candidate; quarantined actions execute at most
    once and only after an allowing evaluation; the gateway executes exactly the registered and approved intents; an
    escalation is approved at most once, in time and by an authorised role.
  \<^item> Transactions end without illegal transitions and dispatch effects after their dependencies; routing never enlarges authority
    and authority amendments need independent approval.
  \<^item> The block cipher is a permutation, the GHASH product is that of its ring, decryption accepts exactly encryptions, backups are
    restored, and retired keys verify exactly within their window.
  \<^item> Events under a legal hold survive retention and erasure of others; all operations but retention keep the observation chain valid.
  \<^item> Tenants do not interfere; the scheduler works off every backlog within its step limit and serves shares; deletion archives.
  \<^item> Access decisions: deny overrides, session limits, finality of revocation, elevation by a second person, one-time
    passwords within their window, credentials cut off by rotation.
  \<^item> Replication refines an atomic durable log, replicas converge, failover resumes only verified runs; the state store
    accepts each event once across crashes and recovery reproduces its projections; fencing excludes stale writers; delivery over
    a faulty channel leaves exactly the lost events pending.
  \<^item> Some lemmas record behaviour that departs from what comments or documents promise, each on a concrete state
    (for instance \<open>terminal_states_not_absorbing\<close>, \<open>due_message_dropped\<close>, \<open>approval_reusable\<close>).

  \<^bold>\<open>Parameters.\<close> Code outside the repository and the world are arguments: hash functions (\<open>H\<close>, \<open>hm\<close>), the reading of
  floating-point literals (\<open>fl\<close>), address parsing, clocks (a function of the number of readings), random tokens,
  workers, evaluators, executors and host callbacks. Nothing is assumed of a hash function; two properties of the float reader
  (\<open>float_reader\<close>), the lengths of HMAC-SHA1 and HMAC-SHA-256 (\<open>hmac_sha1\<close>, \<open>hmac_sha256\<close>) and the contract of the encryption package
  (\<open>backend_ok\<close>) are named hypotheses.

  \<^bold>\<open>Bounds and fuel.\<close> The JSON reader recurses on the length of its text, which \<open>strict_json_decides\<close> shows to be
  enough; \<open>cloud_fuel\<close> recurses on the number of obligations, enough for every constructed task
  (\<open>cloud_allowed_correct\<close>); \<open>min_fill_order\<close> recurses on the number of nodes (\<open>min_fill_order_complete\<close>); the search stops at the node budget
  of the source; passes, rounds and scheduler steps are bounded by the limits the source itself uses.
  Integers are unbounded as in Python, except the counters and words of RFC 6238.

  \<^bold>\<open>Not modelled.\<close> File and database access beyond the contents of the files; threads (locked sections are
  atomic steps); model providers and HTTP; OIDC and SAML; backup archives; user interfaces, experiments,
  reports and build tools; and the packages listed as such in the manifest.
\<close>

end
